(* ===== verification/Prelude.thy ===== *)
theory Prelude
  imports Main "HOL-Library.Word" "HOL-Library.Monad_Syntax"
begin

unbundle bit_operations_syntax

text \<open>
  Shared vocabulary of the development: the C integer types as words, memory accesses
  that are checked against the size of the object they touch, and the generic facts on
  byte lists and words that the components use.

  An access outside an object is undefined behaviour in C.  Every definition that touches
  memory therefore has an \<open>option\<close> result in which \<open>None\<close> stands for undefined behaviour,
  never for an error code of the program: error codes are ordinary values (an \<open>int\<close> that
  is \<open>0\<close> or \<open>-1\<close>, as in the source).  A theorem that a function returns \<open>Some\<close> is thus a
  memory-safety theorem.  The type \<open>size_t\<close> is \<open>nat\<close>; where the source can wrap around or
  guards against it, the wrap-around or the guard is written out with \<open>SIZE_MAX\<close>.
\<close>

section \<open>Machine integers\<close>

type_synonym u8 = "8 word"
type_synonym u16 = "16 word"
type_synonym u32 = "32 word"
type_synonym u64 = "64 word"

definition SIZE_MAX :: nat where
  "SIZE_MAX = 18446744073709551615"

text \<open>Sums and products of \<open>size_t\<close> values wrap around.\<close>

definition sz_add :: "nat \<Rightarrow> nat \<Rightarrow> nat" where
  "sz_add a b = (a + b) mod Suc SIZE_MAX"

definition sz_mul :: "nat \<Rightarrow> nat \<Rightarrow> nat" where
  "sz_mul a b = (a * b) mod Suc SIZE_MAX"

lemma sz_add_exact: "a + b \<le> SIZE_MAX \<Longrightarrow> sz_add a b = a + b"
  by (simp add: sz_add_def)

lemma sz_mul_exact: "a * b \<le> SIZE_MAX \<Longrightarrow> sz_mul a b = a * b"
  by (simp add: sz_mul_def)

named_theorems bytes_simps \<open>big-endian encodings of words\<close>
named_theorems ub_simps \<open>checked memory accesses\<close>

section \<open>Checked memory accesses\<close>

text \<open>\<open>rd xs i\<close> is the read \<open>xs[i]\<close>, \<open>wr xs i v\<close> the write \<open>xs[i] = v\<close>.\<close>

definition rd :: "'a list \<Rightarrow> nat \<Rightarrow> 'a option" where
  "rd xs i = (if i < length xs then Some (xs ! i) else None)"

definition wr :: "'a list \<Rightarrow> nat \<Rightarrow> 'a \<Rightarrow> 'a list option" where
  "wr xs i v = (if i < length xs then Some (xs[i := v]) else None)"

text \<open>
  \<open>splice xs i ys\<close> overwrites the cells of \<open>xs\<close> from \<open>i\<close> on with \<open>ys\<close>; it is what a run of
  writes at consecutive offsets, or one \<open>memcpy\<close>, leaves behind.
\<close>

definition splice :: "'a list \<Rightarrow> nat \<Rightarrow> 'a list \<Rightarrow> 'a list" where
  "splice xs i ys = take i xs @ ys @ drop (i + length ys) xs"

definition memcpy :: "'a list \<Rightarrow> nat \<Rightarrow> 'a list \<Rightarrow> nat \<Rightarrow> nat \<Rightarrow> 'a list option" where
  "memcpy dst doff src soff n =
     (if doff + n \<le> length dst \<and> soff + n \<le> length src
      then Some (splice dst doff (take n (drop soff src))) else None)"

lemma rd_Some [ub_simps]: "i < length xs \<Longrightarrow> rd xs i = Some (xs ! i)"
  by (simp add: rd_def)

lemma rd_eq_Some_iff: "rd xs i = Some x \<longleftrightarrow> i < length xs \<and> xs ! i = x"
  by (auto simp: rd_def)

lemma wr_Some [ub_simps]: "i < length xs \<Longrightarrow> wr xs i v = Some (xs[i := v])"
  by (simp add: wr_def)

lemma length_splice [simp]: "i + length ys \<le> length xs \<Longrightarrow> length (splice xs i ys) = length xs"
  by (simp add: splice_def)

lemma splice_Nil [simp]: "splice xs i [] = xs"
  by (simp add: splice_def)

lemma list_update_eq_splice: "i < length xs \<Longrightarrow> xs[i := v] = splice xs i [v]"
  by (simp add: splice_def upd_conv_take_nth_drop)

lemma splice_splice:
  assumes "i + length ys \<le> length xs" "j = i + length ys"
  shows "splice (splice xs i ys) j zs = splice xs i (ys @ zs)"
  using assms by (cases ys) (auto simp: splice_def min_def ac_simps)

lemma splice_whole: "length ys = length xs \<Longrightarrow> splice xs 0 ys = ys"
  by (simp add: splice_def)

lemma take_splice: "i + length ys \<le> length xs \<Longrightarrow> take (i + length ys) (splice xs i ys) = take i xs @ ys"
  by (cases ys) (auto simp: splice_def min_def)

section \<open>Lists\<close>

lemma take_add_drop: "take (m + n) xs = take m xs @ take n (drop m xs)"
  by (simp add: take_add)

section \<open>Big-endian bytes of a word\<close>

definition be32 :: "u32 \<Rightarrow> u8 list" where
  "be32 v = [ucast (drop_bit 24 v), ucast (drop_bit 16 v), ucast (drop_bit 8 v), ucast v]"

definition be64 :: "u64 \<Rightarrow> u8 list" where
  "be64 v = [ucast (drop_bit 56 v), ucast (drop_bit 48 v), ucast (drop_bit 40 v), ucast (drop_bit 32 v),
             ucast (drop_bit 24 v), ucast (drop_bit 16 v), ucast (drop_bit 8 v), ucast v]"

lemma length_be32 [simp]: "length (be32 v) = 4"
  by (simp add: be32_def)

lemma length_be64 [simp]: "length (be64 v) = 8"
  by (simp add: be64_def)

text \<open>
  One step of assembling a word from its bytes: the upper part, shifted by one byte, and
  the next byte give the upper part that is one byte longer.
\<close>

lemma shift_in_byte [bytes_simps]:
  fixes v :: "'a::len word"
  shows "push_bit 8 (drop_bit (n + 8) v) OR ucast (ucast (drop_bit n v) :: u8) = drop_bit n v"
  by (rule bit_word_eqI) (auto simp: bit_simps)

text \<open>Conversely, the bytes of an assembled word are the bytes it was assembled from.\<close>

lemma bit_u8_beyond [simp]: "8 \<le> n \<Longrightarrow> \<not> bit (b :: u8) n"
  by (auto dest: bit_imp_le_length)

lemma ucast_u8_u32 [simp]: "ucast (ucast (b :: u8) :: u32) = b"
  by (rule bit_word_eqI) (auto simp: bit_simps)

lemma be32_assemble [bytes_simps]:
  "be32 (push_bit 24 (ucast a) OR push_bit 16 (ucast b) OR push_bit 8 (ucast c) OR ucast d) = [a, b, c, d]"
  by (auto simp: be32_def intro!: bit_word_eqI simp: bit_simps)

lemma be32_split [bytes_simps]:
  fixes v :: u32
  shows "push_bit 24 (ucast (ucast (drop_bit 24 v) :: u8)) OR push_bit 16 (ucast (ucast (drop_bit 16 v) :: u8))
       OR push_bit 8 (ucast (ucast (drop_bit 8 v) :: u8)) OR ucast (ucast v :: u8) = v" (is "?l = v")
proof (rule bit_word_eqI)
  fix n
  assume "n < LENGTH(32)"
  then consider "n < 8" | "8 \<le> n" "n < 16" | "16 \<le> n" "n < 24" | "24 \<le> n" "n < 32" by fastforce
  then show "bit ?l n = bit v n"
    by cases (auto simp: bit_simps)
qed

fun shift_bytes :: "u8 list \<Rightarrow> u64 \<Rightarrow> u64" where
  "shift_bytes [] v = v"
| "shift_bytes (b # bs) v = shift_bytes bs (push_bit 8 v OR ucast b)"

lemma shift_bytes_be64 [simp]: "shift_bytes (be64 v) 0 = v"
proof -
  have top: "ucast (ucast (drop_bit 56 v) :: u8) = drop_bit 56 v"
    by (rule bit_word_eqI) (auto simp: bit_simps dest: bit_imp_le_length)
  show ?thesis
    using shift_in_byte [of 48 v] shift_in_byte [of 40 v] shift_in_byte [of 32 v] shift_in_byte [of 24 v]
      shift_in_byte [of 16 v] shift_in_byte [of 8 v] shift_in_byte [of 0 v]
    by (simp add: be64_def top)
qed

lemma be64_shift_bytes: "length bs = 8 \<Longrightarrow> be64 (shift_bytes bs 0) = bs"
proof -
  assume "length bs = 8"
  then obtain a b c d e f g h where "bs = [a, b, c, d, e, f, g, h]"
    by (auto simp: length_Suc_conv numeral_eq_Suc)
  then show ?thesis
    by (auto simp: be64_def intro!: bit_word_eqI simp: bit_simps)
qed

section \<open>Alignment\<close>

lemma unat_and_not_mask: "unat ((w :: u64) AND NOT (mask k)) = 2 ^ k * (unat w div 2 ^ k)"
proof -
  have lt: "unat w < 2 ^ 64" using unsigned_less [of w] by simp
  have "w AND NOT (mask k) = push_bit k (drop_bit k w)"
    by (rule bit_word_eqI) (auto simp: bit_simps)
  moreover have "unat (push_bit k (drop_bit k w)) = take_bit 64 (push_bit k (drop_bit k (unat w)))"
    unfolding unsigned_push_bit_eq unsigned_drop_bit_eq using lt by (simp add: take_bit_nat_eq_self)
  moreover have "unat w div 2 ^ k * 2 ^ k < 2 ^ 64"
    using lt by (rule le_less_trans [rotated]) simp
  ultimately show ?thesis by (simp add: drop_bit_eq_div push_bit_eq_mult take_bit_eq_mod mult.commute)
qed

end
