(* ===== verification/Protocol.thy ===== *)
theory Protocol
  imports Prelude
begin

text \<open>
  The packet layer: \<^verbatim>\<open>include/wirecall/protocol.h\<close> and \<^verbatim>\<open>src/protocol.c\<close>.  Procedure ids, the
  34-byte packet header, the packet checksum, the SipHash based MAC, and signing and
  verification of packets.

  Pointers that the code compares with \<open>NULL\<close> are \<open>option\<close> values.  A buffer that a function
  writes is passed in and returned.  \<open>get_u64_native\<close> and \<open>sip_load64\<close> copy bytes into an
  integer in the byte order of the host; the parameter \<open>be\<close> says whether the host is
  big-endian.
\<close>

section \<open>Constants and types\<close>

definition WIRECALL_HEADER_SIZE :: nat where
  "WIRECALL_HEADER_SIZE = 34"

definition WIRECALL_MAX_PAYLOAD_SIZE :: nat where
  "WIRECALL_MAX_PAYLOAD_SIZE = 1024 * 1024"

definition WIRECALL_INTEGRITY_CHECKSUM :: u32 where
  "WIRECALL_INTEGRITY_CHECKSUM = push_bit 0 1"

definition WIRECALL_INTEGRITY_MAC :: u32 where
  "WIRECALL_INTEGRITY_MAC = push_bit 1 1"

definition WIRECALL_INTEGRITY_DEFAULT :: u32 where
  "WIRECALL_INTEGRITY_DEFAULT = WIRECALL_INTEGRITY_CHECKSUM"

text \<open>A C enumeration can hold every value of its integer type, so \<open>wirecall_op\<close> is a word.\<close>

type_synonym wirecall_op = u32

definition WIRECALL_OP_RPC :: wirecall_op where "WIRECALL_OP_RPC = 1"
definition WIRECALL_OP_PING :: wirecall_op where "WIRECALL_OP_PING = 2"
definition WIRECALL_OP_DISCONNECT :: wirecall_op where "WIRECALL_OP_DISCONNECT = 3"
definition WIRECALL_OP_RESPONSE :: wirecall_op where "WIRECALL_OP_RESPONSE = 4"
definition WIRECALL_OP_ERROR :: wirecall_op where "WIRECALL_OP_ERROR = 5"

lemmas op_defs = WIRECALL_OP_RPC_def WIRECALL_OP_PING_def WIRECALL_OP_DISCONNECT_def
  WIRECALL_OP_RESPONSE_def WIRECALL_OP_ERROR_def

lemmas integrity_defs = WIRECALL_INTEGRITY_CHECKSUM_def WIRECALL_INTEGRITY_MAC_def
  WIRECALL_INTEGRITY_DEFAULT_def

record wirecall_header =
  h_op :: wirecall_op
  h_flags :: u8
  h_proc_id :: u64
  h_size :: u32
  h_call_id :: u64
  h_checksum :: u32
  h_mac :: u64

definition zero_header :: wirecall_header where
  "zero_header = \<lparr>h_op = 0, h_flags = 0, h_proc_id = 0, h_size = 0, h_call_id = 0, h_checksum = 0, h_mac = 0\<rparr>"

section \<open>Procedure ids\<close>

text \<open>
  A C string is the list of the bytes that can be read from its address; the loop stops at the terminating zero byte and
  is undefined without one.
\<close>

fun proc_id_loop :: "u64 \<Rightarrow> u8 list \<Rightarrow> u64 option" where
  "proc_id_loop hash [] = None"
| "proc_id_loop hash (c # name) =
     (if c = 0 then Some hash else proc_id_loop ((hash XOR ucast c) * 1099511628211) name)"

definition wirecall_proc_id :: "u8 list option \<Rightarrow> u64 option" where
  "wirecall_proc_id name =
     (case name of None \<Rightarrow> Some 0
      | Some name \<Rightarrow> do {
          hash \<leftarrow> proc_id_loop 14695981039346656037 name;
          Some (if hash \<noteq> 0 then hash else 1) })"

section \<open>Integers in buffers\<close>

definition put_u32 :: "u8 list \<Rightarrow> nat \<Rightarrow> u32 \<Rightarrow> u8 list option" where
  "put_u32 out off value = do {
     out \<leftarrow> wr out (off + 0) (ucast (drop_bit 24 value));
     out \<leftarrow> wr out (off + 1) (ucast (drop_bit 16 value));
     out \<leftarrow> wr out (off + 2) (ucast (drop_bit 8 value));
     wr out (off + 3) (ucast value) }"

text \<open>\<open>put_u64_loop out off value n\<close> is the loop from \<open>i = n - 1\<close> down to \<open>0\<close>.\<close>

fun put_u64_loop :: "u8 list \<Rightarrow> nat \<Rightarrow> u64 \<Rightarrow> nat \<Rightarrow> u8 list option" where
  "put_u64_loop out off value 0 = Some out"
| "put_u64_loop out off value (Suc i) = do {
     out \<leftarrow> wr out (off + (7 - i)) (ucast (drop_bit (i * 8) value));
     put_u64_loop out off value i }"

definition put_u64 :: "u8 list \<Rightarrow> nat \<Rightarrow> u64 \<Rightarrow> u8 list option" where
  "put_u64 out off value = put_u64_loop out off value 8"

definition get_u32 :: "u8 list \<Rightarrow> nat \<Rightarrow> u32 option" where
  "get_u32 inp off = do {
     a \<leftarrow> rd inp (off + 0);
     b \<leftarrow> rd inp (off + 1);
     c \<leftarrow> rd inp (off + 2);
     d \<leftarrow> rd inp (off + 3);
     Some (push_bit 24 (ucast a) OR push_bit 16 (ucast b) OR push_bit 8 (ucast c) OR ucast d) }"

text \<open>\<open>get_u64_loop inp off n value\<close> is the loop with \<open>n\<close> iterations to go, at \<open>i = 8 - n\<close>.\<close>

fun get_u64_loop :: "u8 list \<Rightarrow> nat \<Rightarrow> nat \<Rightarrow> u64 \<Rightarrow> u64 option" where
  "get_u64_loop inp off 0 value = Some value"
| "get_u64_loop inp off (Suc n) value = do {
     b \<leftarrow> rd inp (off + (8 - Suc n));
     get_u64_loop inp off n (push_bit 8 value OR ucast b) }"

definition get_u64 :: "u8 list \<Rightarrow> nat \<Rightarrow> u64 option" where
  "get_u64 inp off = get_u64_loop inp off 8 0"

text \<open>The integer whose first \<open>length bs\<close> bytes in memory are \<open>bs\<close>, the other bytes zero.\<close>

fun le_word :: "u8 list \<Rightarrow> u64" where
  "le_word [] = 0"
| "le_word (b # bs) = push_bit 8 (le_word bs) OR ucast b"

definition native_word :: "bool \<Rightarrow> u8 list \<Rightarrow> u64" where
  "native_word be bs = (if be then shift_bytes (bs @ replicate (8 - length bs) 0) 0 else le_word bs)"

definition get_u64_native :: "bool \<Rightarrow> u8 list \<Rightarrow> nat \<Rightarrow> nat \<Rightarrow> u64 option" where
  "get_u64_native be inp off len =
     (if off + len \<le> length inp \<and> len \<le> 8 then Some (native_word be (take len (drop off inp))) else None)"

section \<open>The checksum\<close>

definition rotl64 :: "u64 \<Rightarrow> nat \<Rightarrow> u64" where
  "rotl64 value shift = push_bit shift value OR drop_bit (64 - shift) value"

definition mix64 :: "u64 \<Rightarrow> u64" where
  "mix64 value = (
     let value = value XOR drop_bit 30 value;
         value = value * 0xbf58476d1ce4e5b9;
         value = value XOR drop_bit 27 value;
         value = value * 0x94d049bb133111eb;
         value = value XOR drop_bit 31 value
     in value)"

definition packet_seed :: "wirecall_header \<Rightarrow> u64" where
  "packet_seed header = (
     let meta = push_bit 56 (ucast (ucast (h_op header) :: u8)) OR push_bit 48 (ucast (h_flags header))
                OR push_bit 16 (ucast (h_size header))
     in mix64 (0x9e3779b97f4a7c15 XOR meta XOR rotl64 (h_proc_id header) 17 XOR rotl64 (h_call_id header) 41))"

definition cheap_step :: "u64 \<Rightarrow> u64 \<Rightarrow> u64" where
  "cheap_step hash m = rotl64 (hash XOR m) 27 * 0x3c79ac492ba7b653 + 0x1c69b3f74ac4ae35"

function cheap_hash_loop :: "bool \<Rightarrow> u64 \<Rightarrow> u8 list \<Rightarrow> nat \<Rightarrow> nat \<Rightarrow> (u64 \<times> nat \<times> nat) option" where
  "cheap_hash_loop be hash data off len =
     (if 8 \<le> len then do {
        w \<leftarrow> get_u64_native be data off 8;
        cheap_hash_loop be (cheap_step hash (mix64 (w + 0x9e3779b97f4a7c15))) data (off + 8) (len - 8) }
      else Some (hash, off, len))"
  by pat_completeness auto
termination
  by (relation "measure (\<lambda>(be, hash, data, off, len). len)") auto

declare cheap_hash_loop.simps [simp del]

definition cheap_hash_update :: "bool \<Rightarrow> u64 \<Rightarrow> u8 list \<Rightarrow> nat \<Rightarrow> u64 option" where
  "cheap_hash_update be hash data len = do {
     (hash, off, len) \<leftarrow> cheap_hash_loop be hash data 0 len;
     if 0 < len then do {
       w \<leftarrow> get_u64_native be data off len;
       Some (mix64 (cheap_step hash (mix64 (w XOR push_bit 56 (word_of_nat len))))) }
     else Some (mix64 hash) }"

section \<open>The MAC\<close>

type_synonym sip_v = "u64 \<times> u64 \<times> u64 \<times> u64"

definition sip_load64 :: "bool \<Rightarrow> u8 list \<Rightarrow> nat \<Rightarrow> u64 option" where
  "sip_load64 be inp off = get_u64_native be inp off 8"

definition sip_round :: "sip_v \<Rightarrow> sip_v" where
  "sip_round = (\<lambda>(v0, v1, v2, v3).
     let v0 = v0 + v1;
         v1 = rotl64 v1 13;
         v1 = v1 XOR v0;
         v0 = rotl64 v0 32;
         v2 = v2 + v3;
         v3 = rotl64 v3 16;
         v3 = v3 XOR v2;
         v0 = v0 + v3;
         v3 = rotl64 v3 21;
         v3 = v3 XOR v0;
         v2 = v2 + v1;
         v1 = rotl64 v1 17;
         v1 = v1 XOR v2;
         v2 = rotl64 v2 32
     in (v0, v1, v2, v3))"

definition sip_compress :: "sip_v \<Rightarrow> u64 \<Rightarrow> sip_v" where
  "sip_compress = (\<lambda>(v0, v1, v2, v3) m.
     let v3 = v3 XOR m;
         (v0, v1, v2, v3) = sip_round (v0, v1, v2, v3);
         (v0, v1, v2, v3) = sip_round (v0, v1, v2, v3);
         v0 = v0 XOR m
     in (v0, v1, v2, v3))"

record sip_ctx =
  sip_v :: sip_v
  sip_total_len :: u64
  sip_tail :: u64
  sip_tail_len :: nat

text \<open>Shifting a 64-bit value by 64 or more is undefined.\<close>

definition shl64 :: "u64 \<Rightarrow> nat \<Rightarrow> u64 option" where
  "shl64 v n = (if n < 64 then Some (push_bit n v) else None)"

text \<open>
  The loops of \<open>sip_update\<close>: filling a partial block, the whole blocks, and the bytes left.
  The arguments \<open>data off len\<close> are the data pointer and the bytes to go.
\<close>

fun sip_fill :: "u8 list \<Rightarrow> nat \<Rightarrow> nat \<Rightarrow> u64 \<Rightarrow> nat \<Rightarrow> (nat \<times> nat \<times> u64 \<times> nat) option" where
  "sip_fill data off 0 tail tail_len = Some (off, 0, tail, tail_len)"
| "sip_fill data off (Suc len) tail tail_len =
     (if tail_len < 8 then do {
        b \<leftarrow> rd data off;
        s \<leftarrow> shl64 (ucast b) (tail_len * 8);
        sip_fill data (off + 1) len (tail OR s) (tail_len + 1) }
      else Some (off, Suc len, tail, tail_len))"

function sip_blocks :: "bool \<Rightarrow> sip_v \<Rightarrow> u8 list \<Rightarrow> nat \<Rightarrow> nat \<Rightarrow> (sip_v \<times> nat \<times> nat) option" where
  "sip_blocks be v data off len =
     (if 8 \<le> len then do {
        m \<leftarrow> sip_load64 be data off;
        sip_blocks be (sip_compress v m) data (off + 8) (len - 8) }
      else Some (v, off, len))"
  by pat_completeness auto
termination
  by (relation "measure (\<lambda>(be, v, data, off, len). len)") auto

declare sip_blocks.simps [simp del]

fun sip_rest :: "u8 list \<Rightarrow> nat \<Rightarrow> nat \<Rightarrow> u64 \<Rightarrow> nat \<Rightarrow> (u64 \<times> nat) option" where
  "sip_rest data off 0 tail tail_len = Some (tail, tail_len)"
| "sip_rest data off (Suc len) tail tail_len = do {
     b \<leftarrow> rd data off;
     s \<leftarrow> shl64 (ucast b) (tail_len * 8);
     sip_rest data (off + 1) len (tail OR s) (tail_len + 1) }"

definition sip_update :: "bool \<Rightarrow> sip_ctx \<Rightarrow> u8 list \<Rightarrow> nat \<Rightarrow> sip_ctx option" where
  "sip_update be c data len = do {
     let c = c\<lparr>sip_total_len := sip_total_len c + word_of_nat len\<rparr>;
     (c, off, len) \<leftarrow>
       (if sip_tail_len c \<noteq> 0 then do {
          (off, len, tail, tail_len) \<leftarrow> sip_fill data 0 len (sip_tail c) (sip_tail_len c);
          Some (if tail_len = 8
                then c\<lparr>sip_v := sip_compress (sip_v c) tail, sip_tail := 0, sip_tail_len := 0\<rparr>
                else c\<lparr>sip_tail := tail, sip_tail_len := tail_len\<rparr>, off, len) }
        else Some (c, 0, len));
     (v, off, len) \<leftarrow> sip_blocks be (sip_v c) data off len;
     (tail, tail_len) \<leftarrow> sip_rest data off len (sip_tail c) (sip_tail_len c);
     Some (c\<lparr>sip_v := v, sip_tail := tail, sip_tail_len := tail_len\<rparr>) }"

section \<open>The header codec\<close>

definition valid_op :: "u8 \<Rightarrow> bool" where
  "valid_op op \<longleftrightarrow> op = ucast WIRECALL_OP_RPC \<or> op = ucast WIRECALL_OP_PING \<or>
     op = ucast WIRECALL_OP_DISCONNECT \<or> op = ucast WIRECALL_OP_RESPONSE \<or> op = ucast WIRECALL_OP_ERROR"

definition wirecall_header_encode ::
  "wirecall_header option \<Rightarrow> u8 list option \<Rightarrow> (int \<times> u8 list option) option" where
  "wirecall_header_encode header out =
     (case (header, out) of
        (Some header, Some buf) \<Rightarrow>
          if \<not> valid_op (ucast (h_op header)) \<or> unat (h_size header) > WIRECALL_MAX_PAYLOAD_SIZE
          then Some (-1, out)
          else do {
            buf \<leftarrow> wr buf 0 (ucast (h_op header));
            buf \<leftarrow> wr buf 1 (h_flags header);
            buf \<leftarrow> put_u64 buf 2 (h_proc_id header);
            buf \<leftarrow> put_u32 buf 10 (h_size header);
            buf \<leftarrow> put_u64 buf 14 (h_call_id header);
            buf \<leftarrow> put_u32 buf 22 (h_checksum header);
            buf \<leftarrow> put_u64 buf 26 (h_mac header);
            Some (0, Some buf) }
      | _ \<Rightarrow> Some (-1, out))"

definition wirecall_header_decode ::
  "u8 list option \<Rightarrow> wirecall_header option \<Rightarrow> (int \<times> wirecall_header option) option" where
  "wirecall_header_decode inp out =
     (case (inp, out) of
        (Some inp, Some _) \<Rightarrow> do {
          op \<leftarrow> rd inp 0;
          if \<not> valid_op op then Some (-1, out)
          else do {
            flags \<leftarrow> rd inp 1;
            proc_id \<leftarrow> get_u64 inp 2;
            size \<leftarrow> get_u32 inp 10;
            call_id \<leftarrow> get_u64 inp 14;
            checksum \<leftarrow> get_u32 inp 22;
            mac \<leftarrow> get_u64 inp 26;
            let header = zero_header\<lparr>h_op := ucast op, h_flags := flags, h_proc_id := proc_id, h_size := size,
              h_call_id := call_id, h_checksum := checksum, h_mac := mac\<rparr>;
            if unat (h_size header) > WIRECALL_MAX_PAYLOAD_SIZE then Some (-1, Some header)
            else Some (0, Some header) } }
      | _ \<Rightarrow> Some (-1, out))"

section \<open>Integrity of packets\<close>

text \<open>The bytes a payload pointer refers to; no byte is readable through \<open>NULL\<close>.\<close>

definition payload_bytes :: "u8 list option \<Rightarrow> u8 list" where
  "payload_bytes payload = (case payload of None \<Rightarrow> [] | Some bs \<Rightarrow> bs)"

definition wirecall_packet_checksum ::
  "bool \<Rightarrow> wirecall_header option \<Rightarrow> u8 list option \<Rightarrow> nat \<Rightarrow> u32 option" where
  "wirecall_packet_checksum be header payload payload_len =
     (case header of
        None \<Rightarrow> Some 0
      | Some header \<Rightarrow>
          if (payload = None \<and> payload_len > 0) \<or> payload_len > WIRECALL_MAX_PAYLOAD_SIZE then Some 0
          else do {
            let hash = packet_seed header XOR 0xa0761d6478bd642f;
            hash \<leftarrow> cheap_hash_update be hash (payload_bytes payload) payload_len;
            Some (ucast (hash XOR drop_bit 32 hash)) })"

definition packet_meta :: "wirecall_header \<Rightarrow> nat \<Rightarrow> u8 list option" where
  "packet_meta header payload_len = do {
     meta \<leftarrow> wr (replicate 30 0) 0 (ucast (h_op header));
     meta \<leftarrow> wr meta 1 (h_flags header);
     meta \<leftarrow> put_u64 meta 2 (h_proc_id header);
     meta \<leftarrow> put_u32 meta 10 (h_size header);
     meta \<leftarrow> put_u64 meta 14 (h_call_id header);
     meta \<leftarrow> put_u32 meta 22 (h_checksum header);
     put_u32 meta 26 (word_of_nat payload_len) }"

definition wirecall_packet_mac ::
  "bool \<Rightarrow> wirecall_header option \<Rightarrow> u8 list option \<Rightarrow> nat \<Rightarrow> u8 list option \<Rightarrow> u64 option" where
  "wirecall_packet_mac be header payload payload_len key =
     (case (header, key) of
        (Some header, Some key) \<Rightarrow>
          if (payload = None \<and> payload_len > 0) \<or> payload_len > WIRECALL_MAX_PAYLOAD_SIZE then Some 0
          else do {
            k0 \<leftarrow> sip_load64 be key 0;
            k1 \<leftarrow> sip_load64 be key 8;
            let v0 = 0x736f6d6570736575 XOR k0;
            let v1 = 0x646f72616e646f6d XOR k1;
            let v2 = 0x6c7967656e657261 XOR k0;
            let v3 = 0x7465646279746573 XOR k1;
            let c = \<lparr>sip_v = (v0, v1, v2, v3), sip_total_len = 0, sip_tail = 0, sip_tail_len = 0\<rparr>;
            meta \<leftarrow> packet_meta header payload_len;
            c \<leftarrow> sip_update be c meta 30;
            c \<leftarrow> sip_update be c (payload_bytes payload) payload_len;
            let (v0, v1, v2, v3) = sip_compress (sip_v c) (sip_tail c OR push_bit 56 (sip_total_len c));
            let v2 = v2 XOR 0xff;
            let (v0, v1, v2, v3) = sip_round (sip_round (sip_round (sip_round (v0, v1, v2, v3))));
            Some (v0 XOR v1 XOR v2 XOR v3) }
      | _ \<Rightarrow> Some 0)"

definition wirecall_packet_sign_ex ::
  "bool \<Rightarrow> wirecall_header option \<Rightarrow> u8 list option \<Rightarrow> nat \<Rightarrow> u32 \<Rightarrow> u8 list option
     \<Rightarrow> (int \<times> wirecall_header option) option" where
  "wirecall_packet_sign_ex be header payload payload_len integrity mac_key =
     (case header of
        None \<Rightarrow> Some (-1, header)
      | Some h \<Rightarrow>
          if (payload = None \<and> payload_len > 0) \<or> payload_len > WIRECALL_MAX_PAYLOAD_SIZE \<or>
             unat (h_size h) \<noteq> payload_len \<or> (integrity AND WIRECALL_INTEGRITY_MAC \<noteq> 0 \<and> mac_key = None)
          then Some (-1, header)
          else do {
            checksum \<leftarrow> (if integrity AND WIRECALL_INTEGRITY_CHECKSUM \<noteq> 0
                         then wirecall_packet_checksum be (Some h) payload payload_len else Some 0);
            let h = h\<lparr>h_checksum := checksum\<rparr>;
            mac \<leftarrow> (if integrity AND WIRECALL_INTEGRITY_MAC \<noteq> 0
                    then wirecall_packet_mac be (Some h) payload payload_len mac_key else Some 0);
            let h = h\<lparr>h_mac := mac\<rparr>;
            Some (0, Some h) })"

definition wirecall_packet_verify_ex ::
  "bool \<Rightarrow> wirecall_header option \<Rightarrow> u8 list option \<Rightarrow> nat \<Rightarrow> u32 \<Rightarrow> u8 list option \<Rightarrow> int option" where
  "wirecall_packet_verify_ex be header payload payload_len integrity mac_key =
     (case header of
        None \<Rightarrow> Some (-1)
      | Some h \<Rightarrow>
          if (payload = None \<and> payload_len > 0) \<or> payload_len > WIRECALL_MAX_PAYLOAD_SIZE \<or>
             unat (h_size h) \<noteq> payload_len \<or> (integrity AND WIRECALL_INTEGRITY_MAC \<noteq> 0 \<and> mac_key = None)
          then Some (-1)
          else do {
            bad_checksum \<leftarrow> (if integrity AND WIRECALL_INTEGRITY_CHECKSUM \<noteq> 0
              then do { c \<leftarrow> wirecall_packet_checksum be header payload payload_len; Some (c \<noteq> h_checksum h) }
              else Some False);
            if bad_checksum then Some (-1)
            else do {
              bad_mac \<leftarrow> (if integrity AND WIRECALL_INTEGRITY_MAC \<noteq> 0
                then do { m \<leftarrow> wirecall_packet_mac be header payload payload_len mac_key; Some (m \<noteq> h_mac h) }
                else Some False);
              if bad_mac then Some (-1) else Some 0 } })"

definition wirecall_packet_sign ::
  "bool \<Rightarrow> wirecall_header option \<Rightarrow> u8 list option \<Rightarrow> nat \<Rightarrow> (int \<times> wirecall_header option) option" where
  "wirecall_packet_sign be header payload payload_len =
     wirecall_packet_sign_ex be header payload payload_len WIRECALL_INTEGRITY_DEFAULT None"

definition wirecall_packet_verify ::
  "bool \<Rightarrow> wirecall_header option \<Rightarrow> u8 list option \<Rightarrow> nat \<Rightarrow> int option" where
  "wirecall_packet_verify be header payload payload_len =
     wirecall_packet_verify_ex be header payload payload_len WIRECALL_INTEGRITY_DEFAULT None"

section \<open>Facts about the integer codec\<close>

lemma put_u32_eq [bytes_simps]: "off + 4 \<le> length out \<Longrightarrow> put_u32 out off v = Some (splice out off (be32 v))"
  by (simp add: put_u32_def be32_def ub_simps list_update_eq_splice splice_splice)

lemma put_u64_eq [bytes_simps]: "off + 8 \<le> length out \<Longrightarrow> put_u64 out off v = Some (splice out off (be64 v))"
  by (simp add: put_u64_def be64_def ub_simps list_update_eq_splice splice_splice numeral_eq_Suc)

lemma get_u32_Some: "off + 4 \<le> length inp \<Longrightarrow> \<exists>v. get_u32 inp off = Some v \<and> be32 v = take 4 (drop off inp)"
proof -
  assume len: "off + 4 \<le> length inp"
  then have "take 4 (drop off inp) = [inp ! off, inp ! (off + 1), inp ! (off + 2), inp ! (off + 3)]"
    by (intro nth_equalityI) (auto simp: less_Suc_eq numeral_eq_Suc nth_Cons split: nat.splits)
  with len show ?thesis
    by (simp add: get_u32_def ub_simps be32_assemble)
qed

lemma be32_inject: "be32 v = be32 w \<Longrightarrow> v = w"
  by (subst be32_split [of v, symmetric], subst be32_split [of w, symmetric]) (simp only: be32_def list.inject)

lemma be64_inject: "be64 v = be64 w \<longleftrightarrow> v = w"
  by (metis shift_bytes_be64)

lemma take_eq_length: "take n (drop off xs) = ys \<Longrightarrow> length ys = n \<Longrightarrow> 0 < n \<Longrightarrow> off + n \<le> length xs"
  by auto

lemma get_u32_be32 [bytes_simps]: "take 4 (drop off inp) = be32 v \<Longrightarrow> get_u32 inp off = Some v"
  using get_u32_Some [of off inp] take_eq_length [of 4 off inp "be32 v"] be32_inject by fastforce

lemma get_u64_loop_eq:
  "n \<le> 8 \<Longrightarrow> off + 8 \<le> length inp \<Longrightarrow>
   get_u64_loop inp off n v = Some (shift_bytes (take n (drop (off + (8 - n)) inp)) v)"
proof (induction n arbitrary: v)
  case 0
  then show ?case by simp
next
  case (Suc n)
  have "Suc (off + (8 - Suc n)) = off + (8 - n)"
    using Suc.prems by simp
  then have "drop (off + (8 - Suc n)) inp = inp ! (off + (8 - Suc n)) # drop (off + (8 - n)) inp"
    using Suc.prems Cons_nth_drop_Suc [of "off + (8 - Suc n)" inp] by simp
  with Suc show ?case by (simp add: ub_simps)
qed

lemma get_u64_eq: "off + 8 \<le> length inp \<Longrightarrow> get_u64 inp off = Some (shift_bytes (take 8 (drop off inp)) 0)"
  by (simp add: get_u64_def get_u64_loop_eq)

lemma get_u64_Some: "off + 8 \<le> length inp \<Longrightarrow> \<exists>v. get_u64 inp off = Some v \<and> be64 v = take 8 (drop off inp)"
  by (simp add: get_u64_eq be64_shift_bytes)

lemma get_u64_be64 [bytes_simps]: "take 8 (drop off inp) = be64 v \<Longrightarrow> get_u64 inp off = Some v"
  using take_eq_length [of 8 off inp "be64 v"] by (simp add: get_u64_eq)

section \<open>The header codec is a bijection on valid headers\<close>

text \<open>The layout of a header on the wire.\<close>

definition header_bytes :: "wirecall_header \<Rightarrow> u8 list" where
  "header_bytes h = [ucast (h_op h), h_flags h] @ be64 (h_proc_id h) @ be32 (h_size h) @ be64 (h_call_id h)
     @ be32 (h_checksum h) @ be64 (h_mac h)"

definition header_valid :: "wirecall_header \<Rightarrow> bool" where
  "header_valid h \<longleftrightarrow> valid_op (ucast (h_op h)) \<and> unat (h_size h) \<le> WIRECALL_MAX_PAYLOAD_SIZE"

lemma length_header_bytes [simp]: "length (header_bytes h) = WIRECALL_HEADER_SIZE"
  by (simp add: header_bytes_def WIRECALL_HEADER_SIZE_def)

lemma header_encode_valid:
  assumes "header_valid h" "length buf = WIRECALL_HEADER_SIZE"
  shows "wirecall_header_encode (Some h) (Some buf) = Some (0, Some (header_bytes h))"
proof -
  have *: "length buf = 34"
    using assms(2) by (simp add: WIRECALL_HEADER_SIZE_def)
  have "splice buf 0 (header_bytes h) = header_bytes h"
    using assms(2) by (simp add: splice_whole)
  then show ?thesis
    using assms(1) * unfolding header_valid_def
    by (simp add: wirecall_header_encode_def ub_simps list_update_eq_splice put_u64_eq put_u32_eq
        splice_splice header_bytes_def)
qed

lemma header_encode_invalid:
  "\<not> header_valid h \<Longrightarrow> wirecall_header_encode (Some h) (Some buf) = Some (-1, Some buf)"
  by (auto simp: wirecall_header_encode_def header_valid_def)

lemma header_decode_cases:
  assumes "WIRECALL_HEADER_SIZE \<le> length inp"
  obtains (bad_op) "\<not> valid_op (inp ! 0)" "wirecall_header_decode (Some inp) (Some out) = Some (-1, Some out)"
  | (bad_size) h where "valid_op (inp ! 0)" "\<not> header_valid h" "header_bytes h = take WIRECALL_HEADER_SIZE inp"
      "wirecall_header_decode (Some inp) (Some out) = Some (-1, Some h)"
  | (ok) h where "header_valid h" "header_bytes h = take WIRECALL_HEADER_SIZE inp"
      "h_op h = ucast (inp ! 0)" "wirecall_header_decode (Some inp) (Some out) = Some (0, Some h)"
proof (cases "valid_op (inp ! 0)")
  case False
  have "rd inp 0 = Some (inp ! 0)"
    using assms by (auto simp: rd_def WIRECALL_HEADER_SIZE_def)
  with False show ?thesis
    by (intro bad_op) (simp_all add: wirecall_header_decode_def)
next
  case True
  have len: "34 \<le> length inp"
    using assms by (simp add: WIRECALL_HEADER_SIZE_def)
  then have rds: "rd inp 0 = Some (inp ! 0)" "rd inp 1 = Some (inp ! 1)"
    by (auto simp: rd_def)
  from len obtain p where p: "get_u64 inp 2 = Some p" "be64 p = take 8 (drop 2 inp)"
    using get_u64_Some [of 2 inp] by auto
  from len obtain s where s: "get_u32 inp 10 = Some s" "be32 s = take 4 (drop 10 inp)"
    using get_u32_Some [of 10 inp] by auto
  from len obtain c where c: "get_u64 inp 14 = Some c" "be64 c = take 8 (drop 14 inp)"
    using get_u64_Some [of 14 inp] by auto
  from len obtain k where k: "get_u32 inp 22 = Some k" "be32 k = take 4 (drop 22 inp)"
    using get_u32_Some [of 22 inp] by auto
  from len obtain m where m: "get_u64 inp 26 = Some m" "be64 m = take 8 (drop 26 inp)"
    using get_u64_Some [of 26 inp] by auto
  define h where "h = \<lparr>h_op = ucast (inp ! 0), h_flags = inp ! 1, h_proc_id = p, h_size = s, h_call_id = c,
    h_checksum = k, h_mac = m\<rparr>"
  have "take 34 inp = take 2 inp @ take 8 (drop 2 inp) @ take 4 (drop 10 inp) @ take 8 (drop 14 inp)
      @ take 4 (drop 22 inp) @ take 8 (drop 26 inp)"
    using take_add_drop [of 2 32 inp] take_add_drop [of 8 24 "drop 2 inp"] take_add_drop [of 4 20 "drop 10 inp"]
      take_add_drop [of 8 12 "drop 14 inp"] take_add_drop [of 4 8 "drop 22 inp"] by simp
  moreover have "take 2 inp = [inp ! 0, inp ! 1]"
    using len by (intro nth_equalityI) (auto simp: less_Suc_eq numeral_eq_Suc)
  ultimately have bytes: "header_bytes h = take WIRECALL_HEADER_SIZE inp"
    using p s c k m by (simp add: header_bytes_def h_def WIRECALL_HEADER_SIZE_def)
  have dec: "wirecall_header_decode (Some inp) (Some out) =
      Some (if unat s > WIRECALL_MAX_PAYLOAD_SIZE then -1 else 0, Some h)"
    using True rds p s c k m by (simp add: wirecall_header_decode_def h_def zero_header_def)
  have op: "h_op h = ucast (inp ! 0)" "h_size h = s"
    by (simp_all add: h_def)
  show ?thesis
  proof (cases "unat s > WIRECALL_MAX_PAYLOAD_SIZE")
    case big: True
    show ?thesis
      using big op by (intro bad_size [OF True _ bytes]) (simp_all add: header_valid_def dec)
  next
    case small: False
    show ?thesis
      using small op True by (intro ok [OF _ bytes]) (simp_all add: header_valid_def dec)
  qed
qed

lemma header_bytes_inject:
  assumes "header_bytes h = header_bytes h'"
  shows "(ucast (h_op h) :: u8) = ucast (h_op h')" "h_size h = h_size h'"
    and "h_op h = op \<Longrightarrow> h = h'\<lparr>h_op := op\<rparr>"
  using assms be32_inject [of "h_size h" "h_size h'"] be32_inject [of "h_checksum h" "h_checksum h'"]
  by (auto simp: header_bytes_def be64_inject)

lemma header_bytes_hd: "(header_bytes h @ rest) ! 0 = ucast (h_op h)"
  by (simp add: header_bytes_def)

lemma header_decode_bytes:
  assumes "header_valid h"
  shows "wirecall_header_decode (Some (header_bytes h @ rest)) (Some out) =
    Some (0, Some (h\<lparr>h_op := ucast (ucast (h_op h) :: u8)\<rparr>))"
proof -
  have "WIRECALL_HEADER_SIZE \<le> length (header_bytes h @ rest)"
    by simp
  then show ?thesis
  proof (cases rule: header_decode_cases [where out = out])
    case bad_op
    with assms show ?thesis by (simp add: header_bytes_hd header_valid_def)
  next
    case (bad_size h')
    then have "header_bytes h' = header_bytes h" by simp
    from header_bytes_inject(1,2) [OF this] bad_size(2) assms show ?thesis
      by (simp add: header_valid_def)
  next
    case (ok h')
    then have "header_bytes h' = header_bytes h" by simp
    from header_bytes_inject(3) [OF this ok(3)] ok(4) show ?thesis
      by (simp add: header_bytes_hd)
  qed
qed

section \<open>Usable arguments\<close>

text \<open>The payload argument is usable: it has the announced number of bytes, not more than the maximum.\<close>

definition payload_ok :: "u8 list option \<Rightarrow> nat \<Rightarrow> bool" where
  "payload_ok payload n \<longleftrightarrow> n \<le> length (payload_bytes payload) \<and> n \<le> WIRECALL_MAX_PAYLOAD_SIZE"

definition key_ok :: "u8 list option \<Rightarrow> bool" where
  "key_ok key \<longleftrightarrow> (case key of None \<Rightarrow> True | Some k \<Rightarrow> length k = 16)"

lemma payload_ok_not_null: "payload_ok payload n \<Longrightarrow> \<not> (payload = None \<and> n > 0)"
  by (auto simp: payload_ok_def payload_bytes_def split: option.splits)

end
