(* ===== verification/Integrity.thy ===== *)
theory Integrity
  imports Protocol
begin

text \<open>
  What the integrity functions of \<^verbatim>\<open>src/protocol.c\<close> compute.  The hash and MAC loops never
  read outside the payload; the 64-bit state of the cheap hash is a bijection of every
  8-byte block; the streaming MAC is SipHash-2-4 of the packet's metadata followed by its
  payload on little-endian hosts.
\<close>

section \<open>The hash loops stay inside the payload\<close>

lemma get_u64_native_Some:
  "off + len \<le> length data \<Longrightarrow> len \<le> 8 \<Longrightarrow>
   get_u64_native be data off len = Some (native_word be (take len (drop off data)))"
  by (simp add: get_u64_native_def)

text \<open>The loops as functions of the bytes that are hashed.\<close>

function cheap_blocks :: "bool \<Rightarrow> u64 \<Rightarrow> u8 list \<Rightarrow> u64 \<times> u8 list" where
  "cheap_blocks be hash bs =
     (if 8 \<le> length bs
      then cheap_blocks be (cheap_step hash (mix64 (native_word be (take 8 bs) + 0x9e3779b97f4a7c15))) (drop 8 bs)
      else (hash, bs))"
  by pat_completeness auto
termination
  by (relation "measure (\<lambda>(be, hash, bs). length bs)") auto

declare cheap_blocks.simps [simp del]

definition cheap_hash :: "bool \<Rightarrow> u64 \<Rightarrow> u8 list \<Rightarrow> u64" where
  "cheap_hash be hash bs =
     (case cheap_blocks be hash bs of (hash, rest) \<Rightarrow>
        if rest = [] then mix64 hash
        else mix64 (cheap_step hash (mix64 (native_word be rest XOR push_bit 56 (word_of_nat (length rest))))))"

lemma cheap_blocks_step:
  "8 \<le> length bs \<Longrightarrow> cheap_blocks be hash bs =
     cheap_blocks be (cheap_step hash (mix64 (native_word be (take 8 bs) + 0x9e3779b97f4a7c15))) (drop 8 bs)"
  by (subst cheap_blocks.simps) (rule if_P)

lemma cheap_blocks_stop: "length bs < 8 \<Longrightarrow> cheap_blocks be hash bs = (hash, bs)"
  by (subst cheap_blocks.simps) (rule if_not_P, simp)

lemma cheap_hash_loop_eq:
  "off + len \<le> length data \<Longrightarrow>
   \<exists>off' len'. cheap_hash_loop be hash data off len = Some (fst (cheap_blocks be hash (take len (drop off data))), off', len')
     \<and> snd (cheap_blocks be hash (take len (drop off data))) = take len' (drop off' data)
     \<and> off' + len' = off + len \<and> len' < 8"
proof (induction len arbitrary: hash off rule: less_induct)
  case (less len)
  let ?bs = "take len (drop off data)"
  let ?hash = "cheap_step hash (mix64 (native_word be (take 8 (drop off data)) + 0x9e3779b97f4a7c15))"
  show ?case
  proof (cases "8 \<le> len")
    case True
    then have len: "8 \<le> length ?bs" and tk: "take 8 ?bs = take 8 (drop off data)"
      and dr: "drop 8 ?bs = take (len - 8) (drop (off + 8) data)"
      using less.prems by (auto simp: drop_take ac_simps)
    have get: "get_u64_native be data off 8 = Some (native_word be (take 8 (drop off data)))"
      using True less.prems by (simp add: get_u64_native_def)
    have loop: "cheap_hash_loop be hash data off len = cheap_hash_loop be ?hash data (off + 8) (len - 8)"
      by (subst cheap_hash_loop.simps) (simp only: True if_True get bind.bind_lunit)
    have blocks: "cheap_blocks be hash ?bs = cheap_blocks be ?hash (take (len - 8) (drop (off + 8) data))"
      by (subst cheap_blocks_step [OF len]) (simp only: tk dr)
    show ?thesis
      using less.IH [of "len - 8" "off + 8" ?hash] True less.prems unfolding loop blocks by simp
  next
    case False
    then show ?thesis
      by (subst cheap_hash_loop.simps) (simp add: cheap_blocks_stop)
  qed
qed

lemma cheap_hash_update_eq:
  assumes "len \<le> length data"
  shows "cheap_hash_update be hash data len = Some (cheap_hash be hash (take len data))"
proof -
  obtain hash' rest where b: "cheap_blocks be hash (take len data) = (hash', rest)"
    by fastforce
  with cheap_hash_loop_eq [of 0 len data be hash] assms obtain off' len'
    where l: "cheap_hash_loop be hash data 0 len = Some (hash', off', len')"
    and r: "rest = take len' (drop off' data)" "off' + len' = len" "len' < 8"
    by auto
  have "length rest = len'" "get_u64_native be data off' len' = Some (native_word be rest)"
    using r assms by (auto simp: get_u64_native_def)
  then show ?thesis
    by (auto simp: cheap_hash_update_def cheap_hash_def l b)
qed

section \<open>Every step of the cheap hash is a bijection\<close>

lemma xorshift_inject:
  fixes x y :: u64
  assumes "x XOR drop_bit n x = y XOR drop_bit n y" "0 < n"
  shows "x = y"
proof -
  define z where "z = x XOR y"
  have "bit z k = bit z (n + k)" for k
    using arg_cong [OF assms(1), of "\<lambda>w. bit w k"] unfolding z_def
    by (cases "k < 64") (auto simp: bit_simps dest: bit_imp_le_length)
  then have "bit z k = bit z (n * m + k)" for k m
  proof (induction m arbitrary: k)
    case (Suc m)
    then have "bit z k = bit z (n + (n * m + k))"
      using \<open>\<And>k. bit z k = bit z (n + k)\<close> by blast
    then show ?case by (simp add: ac_simps)
  qed simp
  moreover have "\<not> bit z (n * 64 + k)" for k
    using assms(2) by (auto dest: bit_imp_le_length)
  ultimately have "\<not> bit z k" for k
    by blast
  then show ?thesis
    by (intro bit_word_eqI) (simp add: z_def bit_xor_iff)
qed

lemma mult_inject:
  fixes x y c d :: u64
  assumes "c * d = 1" "x * c = y * c"
  shows "x = y"
proof -
  have "x = x * c * d" by (simp add: mult.assoc assms(1))
  also have "\<dots> = y * c * d" by (simp only: assms(2))
  also have "\<dots> = y" by (simp add: mult.assoc assms(1))
  finally show ?thesis .
qed

lemma rotl64_inject:
  assumes "rotl64 x n = rotl64 y n" "0 < n" "n < 64"
  shows "x = y"
proof (rule bit_word_eqI)
  fix k
  assume k: "k < LENGTH(64)"
  have bits: "bit (rotl64 v n) j = (if n \<le> j then bit v (j - n) else bit v (64 - n + j))" if "j < 64" for v j
    using that assms(2,3) by (auto simp: rotl64_def bit_simps dest: bit_imp_le_length)
  show "bit x k = bit y k"
  proof (cases "k + n < 64")
    case True
    then show ?thesis
      using arg_cong [OF assms(1), of "\<lambda>w. bit w (k + n)"] bits [of "k + n"] by simp
  next
    case False
    then have "\<not> n \<le> k + n - 64" "64 - n + (k + n - 64) = k" "k + n - 64 < 64"
      using assms(2,3) k by auto
    then show ?thesis
      using arg_cong [OF assms(1), of "\<lambda>w. bit w (k + n - 64)"] bits [of "k + n - 64"] by simp
  qed
qed

lemma mix64_inject: "mix64 x = mix64 y \<longleftrightarrow> x = y"
proof
  define f g :: "u64 \<Rightarrow> u64"
    where "f = (\<lambda>v. (v XOR drop_bit 30 v) * 0xbf58476d1ce4e5b9)"
    and "g = (\<lambda>v. (v XOR drop_bit 27 v) * 0x94d049bb133111eb)"
  assume "mix64 x = mix64 y"
  then have "g (f x) XOR drop_bit 31 (g (f x)) = g (f y) XOR drop_bit 31 (g (f y))"
    by (simp only: mix64_def Let_def f_def g_def)
  then have "g (f x) = g (f y)"
    by (rule xorshift_inject) simp
  then have "f x XOR drop_bit 27 (f x) = f y XOR drop_bit 27 (f y)"
    unfolding g_def by (rule mult_inject [of _ "0x319642b2d24d8ec3", rotated]) simp
  then have "f x = f y"
    by (rule xorshift_inject) simp
  then have "x XOR drop_bit 30 x = y XOR drop_bit 30 y"
    unfolding f_def by (rule mult_inject [of _ "0x96de1b173f119089", rotated]) simp
  then show "x = y"
    by (rule xorshift_inject) simp
qed simp

lemma cheap_step_inject: "cheap_step h m = cheap_step h' m' \<longleftrightarrow> h XOR m = h' XOR m'"
proof
  assume "cheap_step h m = cheap_step h' m'"
  then have "rotl64 (h XOR m) 27 * 0x3c79ac492ba7b653 = rotl64 (h' XOR m') 27 * 0x3c79ac492ba7b653"
    by (simp add: cheap_step_def)
  then have "rotl64 (h XOR m) 27 = rotl64 (h' XOR m') 27"
    by (rule mult_inject [of "0x3c79ac492ba7b653" "0xc09c5fe5bd6dfddb", rotated]) simp
  then show "h XOR m = h' XOR m'"
    by (rule rotl64_inject) simp_all
qed (simp add: cheap_step_def)

lemma xor_left_inject: "(a XOR b = a XOR c) \<longleftrightarrow> b = (c :: u64)"
  by (auto simp: bit_eq_iff bit_xor_iff)

lemma xor_right_inject: "(b XOR a = c XOR a) \<longleftrightarrow> b = (c :: u64)"
  by (auto simp: bit_eq_iff bit_xor_iff)

lemma shift_bytes_snoc: "shift_bytes (bs @ [b]) v = push_bit 8 (shift_bytes bs v) OR ucast b"
  by (induction bs arbitrary: v) simp_all

lemma le_word_rev: "le_word bs = shift_bytes (rev bs) 0"
  by (induction bs) (simp_all add: shift_bytes_snoc)

lemma native_word_inject: "length a = 8 \<Longrightarrow> length b = 8 \<Longrightarrow> native_word be a = native_word be b \<longleftrightarrow> a = b"
  by (auto simp: native_word_def le_word_rev) (metis be64_shift_bytes length_rev rev_rev_ident)+

lemma cheap_blocks_append:
  "8 dvd length xs \<Longrightarrow> cheap_blocks be hash (xs @ ys) = cheap_blocks be (fst (cheap_blocks be hash xs)) ys"
proof (induction be hash xs rule: cheap_blocks.induct)
  case (1 be hash bs)
  show ?case
  proof (cases "8 \<le> length bs")
    case True
    then have "8 dvd length (drop 8 bs)"
      using "1.prems" by auto
    with True "1.IH" show ?thesis
      by (simp add: cheap_blocks_step [of "bs @ ys"] cheap_blocks_step [of bs])
  next
    case False
    with "1.prems" have "bs = []"
      by (auto dest: dvd_imp_le)
    then show ?thesis
      by (simp add: cheap_blocks_stop)
  qed
qed

lemma cheap_blocks_inject:
  "h \<noteq> h' \<Longrightarrow> fst (cheap_blocks be h ys) \<noteq> fst (cheap_blocks be h' ys) \<and>
   snd (cheap_blocks be h ys) = snd (cheap_blocks be h' ys)"
proof (induction be h ys arbitrary: h' rule: cheap_blocks.induct)
  case (1 be h bs)
  show ?case
  proof (cases "8 \<le> length bs")
    case True
    with 1 show ?thesis
      by (simp add: cheap_blocks_step [of bs] cheap_step_inject xor_right_inject)
  next
    case False
    with "1.prems" show ?thesis
      by (simp add: cheap_blocks_stop)
  qed
qed

lemma cheap_hash_block_sensitive:
  assumes "8 dvd length xs" "length a = 8" "length b = 8" "a \<noteq> b"
  shows "cheap_hash be hash (xs @ a @ ys) \<noteq> cheap_hash be hash (xs @ b @ ys)"
proof -
  define h where "h = fst (cheap_blocks be hash xs)"
  define k where "k = (\<lambda>c. cheap_step h (mix64 (native_word be c + 0x9e3779b97f4a7c15)))"
  have "cheap_blocks be hash (xs @ c @ ys) = cheap_blocks be (k c) ys" if "length c = 8" for c
    using that assms(1) by (simp add: cheap_blocks_append h_def k_def cheap_blocks_step [of c] cheap_blocks_stop)
  moreover have "k a \<noteq> k b"
    using assms(2-4) by (simp add: k_def cheap_step_inject xor_left_inject mix64_inject native_word_inject)
  ultimately show ?thesis
    using assms(2,3) cheap_blocks_inject [of "k a" "k b" be ys]
    by (auto simp: cheap_hash_def mix64_inject cheap_step_inject xor_right_inject split: prod.splits)
qed

text \<open>
  Hosts of the two byte orders read the same block as words whose bytes are reversed.  The payload that a
  little-endian host hashes like a big-endian host hashes the given one:
\<close>

function reverse_blocks :: "u8 list \<Rightarrow> u8 list" where
  "reverse_blocks bs = (if 8 \<le> length bs then rev (take 8 bs) @ reverse_blocks (drop 8 bs) else bs)"
  by pat_completeness auto
termination
  by (relation "measure length") auto

declare reverse_blocks.simps [simp del]

lemma length_reverse_blocks [simp]: "length (reverse_blocks bs) = length bs"
proof (induction bs rule: reverse_blocks.induct)
  case (1 bs)
  then show ?case by (subst reverse_blocks.simps) auto
qed

lemma native_word_reverse: "length bs = 8 \<Longrightarrow> native_word True bs = native_word False (rev bs)"
  by (simp add: native_word_def le_word_rev)

lemma cheap_hash_reverse:
  assumes "8 dvd length bs"
  shows "cheap_hash True hash bs = cheap_hash False hash (reverse_blocks bs)"
proof -
  have "cheap_blocks True hash bs = cheap_blocks False hash (reverse_blocks bs)"
    using assms
  proof (induction bs arbitrary: hash rule: reverse_blocks.induct)
    case (1 bs)
    show ?case
    proof (cases "8 \<le> length bs")
      case True
      then have "reverse_blocks bs = rev (take 8 bs) @ reverse_blocks (drop 8 bs)" "length (take 8 bs) = 8" "8 dvd length (drop 8 bs)"
        using "1.prems" by (simp_all add: reverse_blocks.simps [of bs] dvd_minus_self)
      then show ?thesis
        using True "1.IH" by (simp add: cheap_blocks_step native_word_reverse)
    next
      case False
      then show ?thesis by (simp add: reverse_blocks.simps [of bs] cheap_blocks_stop)
    qed
  qed
  moreover have "snd (cheap_blocks True hash bs) = []"
    using arg_cong [OF cheap_blocks_append [OF assms, of True hash "[]"], of snd] by (simp add: cheap_blocks_stop)
  ultimately show ?thesis
    by (auto simp: cheap_hash_def split: prod.splits)
qed

section \<open>SipHash-2-4\<close>

text \<open>
  The hash function as its authors define it: the round, the compression with two rounds,
  the message split into 8-byte little-endian words, the last word carrying the length
  modulo 256, and the finalization with four rounds.
\<close>

fun siphash_add1 :: "sip_v \<Rightarrow> sip_v" where
  "siphash_add1 (v0, v1, v2, v3) = (v0 + v1, word_rotl 13 v1, v2 + v3, word_rotl 16 v3)"

fun siphash_xor1 :: "sip_v \<Rightarrow> sip_v" where
  "siphash_xor1 (v0, v1, v2, v3) = (word_rotl 32 v0, v1 XOR v0, v2, v3 XOR v2)"

fun siphash_add2 :: "sip_v \<Rightarrow> sip_v" where
  "siphash_add2 (v0, v1, v2, v3) = (v0 + v3, word_rotl 17 v1, v2 + v1, word_rotl 21 v3)"

fun siphash_xor2 :: "sip_v \<Rightarrow> sip_v" where
  "siphash_xor2 (v0, v1, v2, v3) = (v0, v1 XOR v2, word_rotl 32 v2, v3 XOR v0)"

fun siphash_round :: "sip_v \<Rightarrow> sip_v" where
  "siphash_round (v0, v1, v2, v3) = siphash_xor2 (siphash_add2 (siphash_xor1 (siphash_add1 (v0, v1, v2, v3))))"

fun siphash_inject :: "u64 \<Rightarrow> sip_v \<Rightarrow> sip_v" where
  "siphash_inject m (v0, v1, v2, v3) = (v0 XOR m, v1, v2, v3)"

fun siphash_block :: "sip_v \<Rightarrow> u64 \<Rightarrow> sip_v" where
  "siphash_block (v0, v1, v2, v3) m = siphash_inject m (siphash_round (siphash_round (v0, v1, v2, v3 XOR m)))"

function siphash_words :: "sip_v \<Rightarrow> u8 list \<Rightarrow> sip_v \<times> u8 list" where
  "siphash_words v msg =
     (if 8 \<le> length msg then siphash_words (siphash_block v (le_word (take 8 msg))) (drop 8 msg) else (v, msg))"
  by pat_completeness auto
termination
  by (relation "measure (\<lambda>(v, msg). length msg)") auto

declare siphash_words.simps [simp del]

fun siphash_init :: "u64 \<Rightarrow> u64 \<Rightarrow> sip_v" where
  "siphash_init k0 k1 =
     (k0 XOR 0x736f6d6570736575, k1 XOR 0x646f72616e646f6d, k0 XOR 0x6c7967656e657261, k1 XOR 0x7465646279746573)"

fun siphash_fold :: "sip_v \<Rightarrow> u64" where
  "siphash_fold (v0, v1, v2, v3) = v0 XOR v1 XOR v2 XOR v3"

fun siphash_final :: "sip_v \<Rightarrow> u64" where
  "siphash_final (v0, v1, v2, v3) =
     siphash_fold (siphash_round (siphash_round (siphash_round (siphash_round (v0, v1, v2 XOR 0xff, v3)))))"

fun siphash_last :: "nat \<Rightarrow> sip_v \<times> u8 list \<Rightarrow> u64" where
  "siphash_last n (v, rest) =
     siphash_final (siphash_block v (le_word rest OR push_bit 56 (word_of_nat (n mod 256))))"

definition siphash24 :: "u8 list \<Rightarrow> u8 list \<Rightarrow> u64" where
  "siphash24 key msg = siphash_last (length msg)
     (siphash_words (siphash_init (le_word (take 8 key)) (le_word (take 8 (drop 8 key)))) msg)"

lemma rotl64_word_rotl: "n < 64 \<Longrightarrow> rotl64 v n = word_rotl n v"
proof (rule bit_word_eqI)
  fix k
  assume "n < 64" "k < LENGTH(64)"
  moreover from this have "(k + 64 - n) mod 64 = (if n \<le> k then k - n else 64 - n + k)"
    by (auto simp: mod_if)
  ultimately show "bit (rotl64 v n) k = bit (word_rotl n v) k"
    by (auto simp: rotl64_def bit_simps bit_word_rotl_iff dest: bit_imp_le_length)
qed

lemma sip_round_eq: "sip_round = siphash_round"
  by (simp add: sip_round_def Let_def rotl64_word_rotl fun_eq_iff add.commute)

lemma sip_compress_eq: "sip_compress = siphash_block"
  by (auto simp: sip_compress_def sip_round_eq Let_def fun_eq_iff simp del: siphash_round.simps split: prod.splits)

lemma siphash_words_step:
  "8 \<le> length msg \<Longrightarrow> siphash_words v msg = siphash_words (siphash_block v (le_word (take 8 msg))) (drop 8 msg)"
  by (subst siphash_words.simps) (rule if_P)

lemma siphash_words_stop: "length msg < 8 \<Longrightarrow> siphash_words v msg = (v, msg)"
  by (subst siphash_words.simps) (rule if_not_P, simp)

text \<open>
  The published test vector: key \<open>00 01 .. 0f\<close>, message \<open>00 01 .. 0e\<close>.
\<close>

lemma siphash24_test_vector:
  "siphash24 [0, 1, 2, 3, 4, 5, 6, 7, 8, 9, 10, 11, 12, 13, 14, 15]
     [0, 1, 2, 3, 4, 5, 6, 7, 8, 9, 10, 11, 12, 13, 14] = 0xa129ca6149be45e5"
  by (simp add: siphash24_def siphash_words_step siphash_words_stop rotl64_word_rotl [symmetric] rotl64_def)

declare siphash_round.simps [simp del] siphash_block.simps [simp del] siphash_final.simps [simp del]

subsection \<open>The streaming state\<close>

lemma siphash_words_append:
  "siphash_words v (xs @ ys) = siphash_words (fst (siphash_words v xs)) (snd (siphash_words v xs) @ ys)"
proof (induction v xs rule: siphash_words.induct)
  case (1 v msg)
  then show ?case
    by (cases "8 \<le> length msg")
      (simp_all add: siphash_words_step [of "msg @ ys"] siphash_words_step [of msg] siphash_words_stop)
qed

lemma length_siphash_rest: "length (snd (siphash_words v xs)) < 8"
proof (induction v xs rule: siphash_words.induct)
  case (1 v msg)
  then show ?case
    by (cases "8 \<le> length msg") (simp_all add: siphash_words_step [of msg] siphash_words_stop)
qed

lemma le_word_append: "le_word (xs @ ys) = le_word xs OR push_bit (8 * length xs) (le_word ys)"
  by (induction xs) (simp_all add: push_bit_or ac_simps or.assoc or.left_commute or.commute)

text \<open>The context of the streaming code after it has consumed \<open>xs\<close>.\<close>

definition sip_stream :: "sip_v \<Rightarrow> u8 list \<Rightarrow> sip_ctx" where
  "sip_stream v xs = (case siphash_words v xs of (v', rest) \<Rightarrow>
     \<lparr>sip_v = v', sip_total_len = word_of_nat (length xs), sip_tail = le_word rest, sip_tail_len = length rest\<rparr>)"

lemma sip_rest_eq:
  assumes "off + len \<le> length data" "length r + len \<le> 8"
  shows "sip_rest data off len (le_word r) (length r) =
    Some (le_word (r @ take len (drop off data)), length r + len)"
  using assms
proof (induction len arbitrary: off r)
  case 0
  then show ?case by simp
next
  case (Suc len)
  have d: "drop off data = data ! off # drop (off + 1) data"
    using Suc.prems(1) by (simp add: Cons_nth_drop_Suc)
  have "sip_rest data (off + 1) len (le_word (r @ [data ! off])) (length (r @ [data ! off])) =
      Some (le_word ((r @ [data ! off]) @ take len (drop (off + 1) data)), length (r @ [data ! off]) + len)"
    using Suc.prems by (intro Suc.IH) simp_all
  then show ?case
    using Suc.prems by (simp add: d rd_def shl64_def le_word_append mult.commute)
qed

lemma sip_fill_eq:
  assumes "off + len \<le> length data" "length r \<le> 8" "n = min len (8 - length r)"
  shows "sip_fill data off len (le_word r) (length r) =
    Some (off + n, len - n, le_word (r @ take n (drop off data)), length r + n)"
  using assms
proof (induction len arbitrary: off r n)
  case 0
  then show ?case by simp
next
  case (Suc len)
  show ?case
  proof (cases "length r < 8")
    case True
    have d: "drop off data = data ! off # drop (off + 1) data"
      using Suc.prems(1) by (simp add: Cons_nth_drop_Suc)
    obtain m where m: "n = Suc m" "m = min len (8 - length (r @ [data ! off]))"
      using Suc.prems True by (cases n) auto
    have "sip_fill data (off + 1) len (le_word (r @ [data ! off])) (length (r @ [data ! off])) =
        Some (off + 1 + m, len - m, le_word ((r @ [data ! off]) @ take m (drop (off + 1) data)),
          length (r @ [data ! off]) + m)"
      using Suc.prems True m(2) by (intro Suc.IH) simp_all
    then show ?thesis
      unfolding m(1) using Suc.prems(1) True by (simp add: d rd_def shl64_def le_word_append mult.commute)
  next
    case False
    with Suc.prems show ?thesis by simp
  qed
qed

lemma sip_blocks_eq:
  "off + len \<le> length data \<Longrightarrow>
   \<exists>off' len'. sip_blocks False v data off len = Some (fst (siphash_words v (take len (drop off data))), off', len')
     \<and> snd (siphash_words v (take len (drop off data))) = take len' (drop off' data)
     \<and> off' + len' = off + len \<and> len' < 8"
proof (induction len arbitrary: v off rule: less_induct)
  case (less len)
  let ?bs = "take len (drop off data)"
  let ?v = "siphash_block v (le_word (take 8 (drop off data)))"
  show ?case
  proof (cases "8 \<le> len")
    case True
    then have len: "8 \<le> length ?bs" and tk: "take 8 ?bs = take 8 (drop off data)"
      and dr: "drop 8 ?bs = take (len - 8) (drop (off + 8) data)"
      using less.prems by (auto simp: drop_take ac_simps)
    have get: "sip_load64 False data off = Some (le_word (take 8 (drop off data)))"
      using True less.prems by (simp add: sip_load64_def get_u64_native_def native_word_def)
    have loop: "sip_blocks False v data off len = sip_blocks False ?v data (off + 8) (len - 8)"
      by (subst sip_blocks.simps) (simp only: True if_True get bind.bind_lunit sip_compress_eq)
    have words: "siphash_words v ?bs = siphash_words ?v (take (len - 8) (drop (off + 8) data))"
      by (subst siphash_words_step [OF len]) (simp only: tk dr)
    show ?thesis
      using less.IH [of "len - 8" "off + 8" ?v] True less.prems unfolding loop words by simp
  next
    case False
    then show ?thesis
      by (subst sip_blocks.simps) (simp add: siphash_words_stop)
  qed
qed

text \<open>\<open>sip_update\<close> is the completion of the partial block followed by the rest of the data.\<close>

definition sip_finish :: "bool \<Rightarrow> sip_ctx \<Rightarrow> u8 list \<Rightarrow> nat \<Rightarrow> nat \<Rightarrow> sip_ctx option" where
  "sip_finish be c data off len = do {
     (v, off, len) \<leftarrow> sip_blocks be (sip_v c) data off len;
     (tail, tail_len) \<leftarrow> sip_rest data off len (sip_tail c) (sip_tail_len c);
     Some (c\<lparr>sip_v := v, sip_tail := tail, sip_tail_len := tail_len\<rparr>) }"

lemma sip_update_no_tail:
  "sip_tail_len c = 0 \<Longrightarrow>
   sip_update be c data len = sip_finish be (c\<lparr>sip_total_len := sip_total_len c + word_of_nat len\<rparr>) data 0 len"
  by (simp add: sip_update_def sip_finish_def)

lemma sip_update_fill:
  assumes "sip_tail_len c \<noteq> 0"
    "sip_fill data 0 len (sip_tail c) (sip_tail_len c) = Some (off, len', tail, tail_len)"
    "c' = c\<lparr>sip_total_len := sip_total_len c + word_of_nat len\<rparr>"
  shows "sip_update be c data len =
    sip_finish be (if tail_len = 8 then c'\<lparr>sip_v := sip_compress (sip_v c) tail, sip_tail := 0, sip_tail_len := 0\<rparr>
      else c'\<lparr>sip_tail := tail, sip_tail_len := tail_len\<rparr>) data off len'"
  using assms by (simp add: sip_update_def sip_finish_def)

lemma sip_finish_no_tail:
  assumes "off + len \<le> length data" "sip_tail c = 0" "sip_tail_len c = 0"
    "siphash_words (sip_v c) (take len (drop off data)) = (v', r)"
  shows "sip_finish False c data off len = Some (c\<lparr>sip_v := v', sip_tail := le_word r, sip_tail_len := length r\<rparr>)"
proof -
  obtain off' len' where b: "sip_blocks False (sip_v c) data off len = Some (v', off', len')"
    and r: "r = take len' (drop off' data)" "off' + len' = off + len" "len' < 8"
    using sip_blocks_eq [OF assms(1), of "sip_v c"] assms(4) by auto
  have "sip_rest data off' len' 0 0 = Some (le_word r, len')"
    using sip_rest_eq [of off' len' data "[]"] r assms(1) by simp
  moreover have "length r = len'"
    using r assms(1) by simp
  ultimately show ?thesis
    by (simp add: sip_finish_def b assms(2,3))
qed

lemma sip_finish_no_data: "sip_finish be c data off 0 = Some c"
proof -
  have "sip_blocks be (sip_v c) data off 0 = Some (sip_v c, off, 0)"
    by (subst sip_blocks.simps) simp
  then show ?thesis
    by (simp add: sip_finish_def)
qed

lemma sip_stream_simps [simp]:
  assumes "siphash_words v xs = (v', r)"
  shows "sip_v (sip_stream v xs) = v'" "sip_tail (sip_stream v xs) = le_word r"
    "sip_tail_len (sip_stream v xs) = length r" "sip_total_len (sip_stream v xs) = word_of_nat (length xs)"
  using assms by (simp_all add: sip_stream_def)

lemma sip_stream_eqI:
  assumes "siphash_words v xs = (v', r)" "sip_v c = v'" "sip_tail c = le_word r" "sip_tail_len c = length r"
    "sip_total_len c = word_of_nat (length xs)"
  shows "c = sip_stream v xs"
  using assms by (simp add: sip_stream_def)

lemma sip_update_stream:
  assumes "len \<le> length data"
  shows "sip_update False (sip_stream v xs) data len = Some (sip_stream v (xs @ take len data))"
proof -
  obtain v' r where w: "siphash_words v xs = (v', r)"
    by fastforce
  obtain v'' r' where w': "siphash_words v (xs @ take len data) = (v'', r')"
    by fastforce
  have r8: "length r < 8"
    using length_siphash_rest [of v xs] w by simp
  have app: "siphash_words v' (r @ take len data) = (v'', r')"
    using w' siphash_words_append [of v xs "take len data"] w by simp
  define n where "n = min len (8 - length r)"
  have fill: "sip_fill data 0 len (sip_tail (sip_stream v xs)) (sip_tail_len (sip_stream v xs)) =
      Some (n, len - n, le_word (r @ take n data), length r + n)"
    using sip_fill_eq [of 0 len data r n] assms r8 w by (simp add: n_def)
  have n_cases: "length r + len < 8 \<Longrightarrow> n = len" "8 \<le> length r + len \<Longrightarrow> length r + n = 8"
    using r8 by (auto simp: n_def)
  consider "r = []" | "r \<noteq> []" "length r + n = 8" | "r \<noteq> []" "length r + len < 8" "n = len"
    using n_cases by (cases "length r + len < 8") auto
  then show ?thesis
  proof cases
    case 1
    have "sip_update False (sip_stream v xs) data len = Some (sip_stream v xs
        \<lparr>sip_total_len := word_of_nat (length xs) + word_of_nat len, sip_v := v'', sip_tail := le_word r', sip_tail_len := length r'\<rparr>)"
      using 1 w app assms by (subst sip_update_no_tail) (auto intro!: sip_finish_no_tail)
    also have "\<dots> = Some (sip_stream v (xs @ take len data))"
      using assms by (subst sip_stream_eqI [OF w']) (simp_all add: min_def)
    finally show ?thesis .
  next
    case 2
    have n: "n \<le> len" "take 8 (r @ take len data) = r @ take n data"
      "drop 8 (r @ take len data) = take (len - n) (drop n data)" "8 \<le> length (r @ take len data)"
      using 2 assms by (auto simp: n_def drop_take take_take min_def split: if_splits)
    have step: "siphash_words (siphash_block v' (le_word (r @ take n data))) (take (len - n) (drop n data)) = (v'', r')"
      using app by (simp only: siphash_words_step [OF n(4)] n(2,3))
    have "sip_update False (sip_stream v xs) data len = Some (sip_stream v xs
        \<lparr>sip_total_len := word_of_nat (length xs) + word_of_nat len, sip_v := v'', sip_tail := le_word r', sip_tail_len := length r'\<rparr>)"
      using 2 w step assms n(1)
      by (subst sip_update_fill [OF _ fill refl]) (auto intro!: sip_finish_no_tail [THEN trans] simp: sip_compress_eq)
    also have "\<dots> = Some (sip_stream v (xs @ take len data))"
      using assms by (subst sip_stream_eqI [OF w']) (simp_all add: min_def)
    finally show ?thesis .
  next
    case 3
    then have "v'' = v'" "r' = r @ take len data"
      using app assms by (simp_all add: siphash_words_stop)
    then show ?thesis
      using 3 w assms
      by (subst sip_update_fill [OF _ fill refl]) (auto simp: sip_finish_no_data intro!: sip_stream_eqI [OF w'])
  qed
qed

subsection \<open>The loops of the MAC stay inside the data on every host\<close>

lemma sip_fill_Some:
  "off + len \<le> length data \<Longrightarrow> k \<le> 8 \<Longrightarrow>
   \<exists>off' len' tail' k'. sip_fill data off len tail k = Some (off', len', tail', k')
     \<and> off' + len' = off + len \<and> k' \<le> 8 \<and> (k' < 8 \<longrightarrow> len' = 0)"
proof (induction len arbitrary: off tail k)
  case 0
  then show ?case by simp
next
  case (Suc len)
  then show ?case
    using Suc.IH [of "off + 1" "k + 1" "tail OR push_bit (k * 8) (ucast (data ! off))"]
    by (cases "k < 8") (auto simp: rd_def shl64_def)
qed

lemma sip_blocks_Some:
  "off + len \<le> length data \<Longrightarrow>
   \<exists>v' off' len'. sip_blocks be v data off len = Some (v', off', len') \<and> off' + len' = off + len \<and> len' < 8
     \<and> len' \<le> len"
proof (induction len arbitrary: v off rule: less_induct)
  case (less len)
  show ?case
  proof (cases "8 \<le> len")
    case True
    then obtain m where "sip_load64 be data off = Some m"
      using less.prems by (auto simp: sip_load64_def get_u64_native_def)
    then have "sip_blocks be v data off len = sip_blocks be (sip_compress v m) data (off + 8) (len - 8)"
      by (subst sip_blocks.simps) (simp add: True)
    then show ?thesis
      using less.IH [of "len - 8" "off + 8" "sip_compress v m"] True less.prems by auto
  next
    case False
    then have "sip_blocks be v data off len = Some (v, off, len)"
      by (subst sip_blocks.simps) simp
    with False show ?thesis
      by (intro exI [of _ v] exI [of _ off] exI [of _ len]) simp
  qed
qed

lemma sip_rest_Some:
  "off + len \<le> length data \<Longrightarrow> k + len \<le> 8 \<Longrightarrow> \<exists>tail'. sip_rest data off len tail k = Some (tail', k + len)"
proof (induction len arbitrary: off tail k)
  case (Suc len)
  then show ?case
    using Suc.IH [of "off + 1" "k + 1" "tail OR push_bit (k * 8) (ucast (data ! off))"]
    by (auto simp: rd_def shl64_def)
qed simp

lemma sip_finish_Some:
  assumes "off + len \<le> length data" "sip_tail_len c = 0 \<or> len = 0" "sip_tail_len c < 8"
  shows "\<exists>c'. sip_finish be c data off len = Some c' \<and> sip_tail_len c' < 8"
proof -
  obtain v' off' len' where b: "sip_blocks be (sip_v c) data off len = Some (v', off', len')"
    "off' + len' = off + len" "len' < 8" "len' \<le> len"
    using sip_blocks_Some [OF assms(1)] by blast
  then obtain t where "sip_rest data off' len' (sip_tail c) (sip_tail_len c) = Some (t, sip_tail_len c + len')"
    using sip_rest_Some [of off' len' data "sip_tail_len c" "sip_tail c"] assms by auto
  with b assms show ?thesis
    by (auto simp: sip_finish_def)
qed

lemma sip_update_Some:
  assumes "len \<le> length data" "sip_tail_len c < 8"
  shows "\<exists>c'. sip_update be c data len = Some c' \<and> sip_tail_len c' < 8"
proof (cases "sip_tail_len c = 0")
  case True
  then show ?thesis
    using assms by (auto simp: sip_update_no_tail intro!: sip_finish_Some)
next
  case False
  obtain off' len' t k' where f: "sip_fill data 0 len (sip_tail c) (sip_tail_len c) = Some (off', len', t, k')"
    "off' + len' = len" "k' \<le> 8" "k' < 8 \<longrightarrow> len' = 0"
    using sip_fill_Some [of 0 len data "sip_tail_len c" "sip_tail c"] assms by auto
  show ?thesis
    unfolding sip_update_fill [OF False f(1) refl]
    using f assms(1) by (intro sip_finish_Some) auto
qed

section \<open>Checksum, MAC, signing and verification\<close>

definition meta_bytes :: "wirecall_header \<Rightarrow> nat \<Rightarrow> u8 list" where
  "meta_bytes h n = [ucast (h_op h), h_flags h] @ be64 (h_proc_id h) @ be32 (h_size h) @ be64 (h_call_id h)
     @ be32 (h_checksum h) @ be32 (word_of_nat n)"

lemma packet_meta_eq: "packet_meta h n = Some (meta_bytes h n)"
proof -
  have "splice (replicate 30 0) 0 (meta_bytes h n) = meta_bytes h n"
    by (intro splice_whole) (simp add: meta_bytes_def)
  then show ?thesis
    by (simp add: packet_meta_def ub_simps list_update_eq_splice put_u64_eq put_u32_eq splice_splice meta_bytes_def
        del: replicate.simps)
qed

lemma packet_checksum_Some: "payload_ok p n \<Longrightarrow> \<exists>c. wirecall_packet_checksum be h p n = Some c"
  using payload_ok_not_null [of p n]
  by (cases h) (auto simp: wirecall_packet_checksum_def payload_ok_def cheap_hash_update_eq Let_def)

lemma packet_mac_Some:
  assumes "payload_ok p n" "key_ok key"
  shows "\<exists>m. wirecall_packet_mac be h p n key = Some m"
proof (cases "h = None \<or> key = None")
  case True
  then show ?thesis
    by (auto simp: wirecall_packet_mac_def split: option.splits)
next
  case False
  then obtain hdr kb where hk: "h = Some hdr" "key = Some kb" "length kb = 16"
    using assms(2) by (auto simp: key_ok_def)
  obtain k0 k1 where k: "sip_load64 be kb 0 = Some k0" "sip_load64 be kb 8 = Some k1"
    using hk(3) by (simp add: sip_load64_def get_u64_native_def)
  let ?c = "\<lparr>sip_v = (0x736f6d6570736575 XOR k0, 0x646f72616e646f6d XOR k1, 0x6c7967656e657261 XOR k0,
    0x7465646279746573 XOR k1), sip_total_len = 0, sip_tail = 0, sip_tail_len = 0\<rparr>"
  obtain c1 where c1: "sip_update be ?c (meta_bytes hdr n) 30 = Some c1" "sip_tail_len c1 < 8"
    using sip_update_Some [of 30 "meta_bytes hdr n" ?c be] by (auto simp: meta_bytes_def)
  obtain c2 where c2: "sip_update be c1 (payload_bytes p) n = Some c2"
    using sip_update_Some [of n "payload_bytes p" c1 be] c1(2) assms(1) by (auto simp: payload_ok_def)
  show ?thesis
    using payload_ok_not_null [OF assms(1)] assms(1) c1(1) c2
    by (auto simp: wirecall_packet_mac_def hk k packet_meta_eq payload_ok_def case_prod_beta Let_def)
qed

text \<open>A packet's signature does not depend on the fields that hold it, nor on how its operation is stored.\<close>

lemma packet_checksum_cong:
  assumes "(ucast (h_op h) :: u8) = ucast (h_op h')" "h_flags h = h_flags h'" "h_size h = h_size h'"
    "h_proc_id h = h_proc_id h'" "h_call_id h = h_call_id h'"
  shows "wirecall_packet_checksum be (Some h) p n = wirecall_packet_checksum be (Some h') p n"
  using assms by (simp add: wirecall_packet_checksum_def packet_seed_def)

lemma packet_mac_cong:
  assumes "(ucast (h_op h) :: u8) = ucast (h_op h')" "h_flags h = h_flags h'" "h_size h = h_size h'"
    "h_proc_id h = h_proc_id h'" "h_call_id h = h_call_id h'" "h_checksum h = h_checksum h'"
  shows "wirecall_packet_mac be (Some h) p n key = wirecall_packet_mac be (Some h') p n key"
  using assms by (cases key) (simp_all add: wirecall_packet_mac_def packet_meta_eq meta_bytes_def)

definition sign_ok :: "wirecall_header \<Rightarrow> u8 list option \<Rightarrow> nat \<Rightarrow> u32 \<Rightarrow> u8 list option \<Rightarrow> bool" where
  "sign_ok h p n integrity key \<longleftrightarrow> payload_ok p n \<and> key_ok key \<and> unat (h_size h) = n \<and>
     (integrity AND WIRECALL_INTEGRITY_MAC = 0 \<or> key \<noteq> None)"

lemma packet_verify_Some:
  assumes "payload_ok p n" "key_ok key"
  shows "wirecall_packet_verify_ex be (Some h) p n integrity key = Some 0 \<or>
    wirecall_packet_verify_ex be (Some h) p n integrity key = Some (-1)"
proof -
  obtain c m where "wirecall_packet_checksum be (Some h) p n = Some c" "wirecall_packet_mac be (Some h) p n key = Some m"
    using packet_checksum_Some [OF assms(1), of be "Some h"] packet_mac_Some [OF assms, of be "Some h"] by blast
  then show ?thesis
    by (simp add: wirecall_packet_verify_ex_def)
qed

lemma packet_sign_verify_aux:
  assumes "sign_ok h p n integrity key"
  obtains c m where
    "wirecall_packet_sign_ex be (Some h) p n integrity key = Some (0, Some (h\<lparr>h_checksum := c, h_mac := m\<rparr>))"
    "\<And>h'. (ucast (h_op h') :: u8) = ucast (h_op h) \<Longrightarrow> h_flags h' = h_flags h \<Longrightarrow> h_size h' = h_size h \<Longrightarrow>
      h_proc_id h' = h_proc_id h \<Longrightarrow> h_call_id h' = h_call_id h \<Longrightarrow> h_checksum h' = c \<Longrightarrow> h_mac h' = m \<Longrightarrow>
      wirecall_packet_verify_ex be (Some h') p n integrity key = Some 0"
proof -
  have ok: "payload_ok p n" "key_ok key" "\<not> (p = None \<and> n > 0)" "n \<le> WIRECALL_MAX_PAYLOAD_SIZE"
    "unat (h_size h) = n" "\<not> (integrity AND WIRECALL_INTEGRITY_MAC \<noteq> 0 \<and> key = None)"
    using assms payload_ok_not_null [of p n] by (auto simp: sign_ok_def payload_ok_def)
  define c where "c = (if integrity AND WIRECALL_INTEGRITY_CHECKSUM \<noteq> 0
    then the (wirecall_packet_checksum be (Some h) p n) else 0)"
  define m where "m = (if integrity AND WIRECALL_INTEGRITY_MAC \<noteq> 0
    then the (wirecall_packet_mac be (Some (h\<lparr>h_checksum := c\<rparr>)) p n key) else 0)"
  have c: "wirecall_packet_checksum be (Some h') p n = Some c"
    if "integrity AND WIRECALL_INTEGRITY_CHECKSUM \<noteq> 0" "(ucast (h_op h') :: u8) = ucast (h_op h)"
      "h_flags h' = h_flags h" "h_size h' = h_size h" "h_proc_id h' = h_proc_id h" "h_call_id h' = h_call_id h" for h'
    using that packet_checksum_Some [OF ok(1), of be "Some h"] packet_checksum_cong [of h' h be p n]
    by (auto simp: c_def)
  have m: "wirecall_packet_mac be (Some h') p n key = Some m"
    if "integrity AND WIRECALL_INTEGRITY_MAC \<noteq> 0" "(ucast (h_op h') :: u8) = ucast (h_op h)"
      "h_flags h' = h_flags h" "h_size h' = h_size h" "h_proc_id h' = h_proc_id h" "h_call_id h' = h_call_id h"
      "h_checksum h' = c" for h'
    using that packet_mac_Some [OF ok(1,2), of be "Some (h\<lparr>h_checksum := c\<rparr>)"]
      packet_mac_cong [of h' "h\<lparr>h_checksum := c\<rparr>" be p n key] by (auto simp: m_def)
  have "(if integrity AND WIRECALL_INTEGRITY_CHECKSUM \<noteq> 0 then wirecall_packet_checksum be (Some h) p n else Some 0) = Some c"
    using c [of h] by (simp add: c_def)
  moreover have "(if integrity AND WIRECALL_INTEGRITY_MAC \<noteq> 0
      then wirecall_packet_mac be (Some (h\<lparr>h_checksum := c\<rparr>)) p n key else Some 0) = Some m"
    using m [of "h\<lparr>h_checksum := c\<rparr>"] by (simp add: m_def)
  ultimately have "wirecall_packet_sign_ex be (Some h) p n integrity key =
      Some (0, Some (h\<lparr>h_checksum := c, h_mac := m\<rparr>))"
    using ok(3-6) by (auto simp: wirecall_packet_sign_ex_def Let_def simp del: not_gr_zero)
  moreover have "wirecall_packet_verify_ex be (Some h') p n integrity key = Some 0"
    if "(ucast (h_op h') :: u8) = ucast (h_op h)" "h_flags h' = h_flags h" "h_size h' = h_size h"
      "h_proc_id h' = h_proc_id h" "h_call_id h' = h_call_id h" "h_checksum h' = c" "h_mac h' = m" for h'
  proof -
    have "(if integrity AND WIRECALL_INTEGRITY_CHECKSUM \<noteq> 0
        then do { c \<leftarrow> wirecall_packet_checksum be (Some h') p n; Some (c \<noteq> h_checksum h') } else Some False) = Some False"
      using that c [of h'] by simp
    moreover have "(if integrity AND WIRECALL_INTEGRITY_MAC \<noteq> 0
        then do { m \<leftarrow> wirecall_packet_mac be (Some h') p n key; Some (m \<noteq> h_mac h') } else Some False) = Some False"
      using that m [of h'] by simp
    ultimately show ?thesis
      using ok(3-6) that(3) by (auto simp: wirecall_packet_verify_ex_def)
  qed
  ultimately show ?thesis
    using that by blast
qed

lemma push_bit_56_mod: "push_bit 56 (word_of_nat n :: u64) = push_bit 56 (word_of_nat (n mod 256))"
proof -
  have "n mod 256 = take_bit 8 n"
    by (simp add: take_bit_eq_mod)
  then show ?thesis
    by (intro bit_word_eqI) (auto simp: bit_simps)
qed

lemma packet_mac_siphash24:
  assumes "payload_ok p n" "length key = 16"
  shows "wirecall_packet_mac False (Some h) p n (Some key) =
    Some (siphash24 key (meta_bytes h n @ take n (payload_bytes p)))"
proof -
  define v where "v = siphash_init (le_word (take 8 key)) (le_word (take 8 (drop 8 key)))"
  have len: "length (meta_bytes h n) = 30"
    by (simp add: meta_bytes_def)
  have start: "\<lparr>sip_v = v, sip_total_len = 0, sip_tail = 0, sip_tail_len = 0\<rparr> = sip_stream v []"
    by (simp add: sip_stream_def siphash_words_stop)
  have "sip_update False (sip_stream v []) (meta_bytes h n) 30 = Some (sip_stream v (meta_bytes h n))"
    using sip_update_stream [of 30 "meta_bytes h n" v "[]"] len by simp
  moreover have "sip_update False (sip_stream v (meta_bytes h n)) (payload_bytes p) n =
      Some (sip_stream v (meta_bytes h n @ take n (payload_bytes p)))"
    using assms(1) by (intro sip_update_stream) (simp add: payload_ok_def)
  moreover have "sip_load64 False key 0 = Some (le_word (take 8 key))"
    "sip_load64 False key 8 = Some (le_word (take 8 (drop 8 key)))"
    using assms(2) by (simp_all add: sip_load64_def get_u64_native_def native_word_def)
  moreover obtain v' r where w: "siphash_words v (meta_bytes h n @ take n (payload_bytes p)) = (v', r)"
    by fastforce
  moreover obtain a b c d where "siphash_block v' (le_word r OR push_bit 56
      (word_of_nat (length (meta_bytes h n @ take n (payload_bytes p))) :: u64)) = (a, b, c, d)"
    by (metis prod_cases4)
  ultimately show ?thesis
    using payload_ok_not_null [OF assms(1)] assms(1) start
    by (auto simp: wirecall_packet_mac_def packet_meta_eq payload_ok_def sip_compress_eq sip_round_eq Let_def
        siphash24_def v_def xor.commute siphash_final.simps push_bit_56_mod [symmetric] split: prod.splits)
qed

end
