(* ===== verification/Packet.thy ===== *)
theory Packet
  imports Integrity
begin

text \<open>
  The properties of the packet layer: the header codec, the checksum, the MAC, and what
  signing, sending, receiving and verifying a packet guarantee together.
\<close>

definition op_enum :: "wirecall_op \<Rightarrow> bool" where
  "op_enum op \<longleftrightarrow> op \<in> {WIRECALL_OP_RPC, WIRECALL_OP_PING, WIRECALL_OP_DISCONNECT, WIRECALL_OP_RESPONSE, WIRECALL_OP_ERROR}"

lemma op_enum_valid: "op_enum op \<Longrightarrow> valid_op (ucast op) \<and> ucast (ucast op :: u8) = op"
  by (auto simp: op_enum_def valid_op_def op_defs)

text \<open>
  C23: Headers survive the trip: a header with one of the five operations and a size within
  the payload limit is encoded into exactly 34 bytes, and decoding these bytes, whatever follows them in the
  buffer, gives back every field.
\<close>

theorem header_roundtrip:
  assumes "op_enum (h_op h)" "unat (h_size h) \<le> WIRECALL_MAX_PAYLOAD_SIZE" "length buf = WIRECALL_HEADER_SIZE"
  shows "\<exists>bytes. wirecall_header_encode (Some h) (Some buf) = Some (0, Some bytes) \<and> length bytes = WIRECALL_HEADER_SIZE \<and>
    wirecall_header_decode (Some (bytes @ rest)) (Some out) = Some (0, Some h)"
proof -
  have "header_valid h" "h\<lparr>h_op := ucast (ucast (h_op h) :: u8)\<rparr> = h"
    using assms(1,2) op_enum_valid by (simp_all add: header_valid_def)
  then show ?thesis
    using header_encode_valid [OF _ assms(3)] header_decode_bytes [of h rest out] by simp
qed

theorem header_roundtrip_witness:
  "\<exists>bytes. wirecall_header_encode (Some (zero_header\<lparr>h_op := 4, h_size := 17, h_mac := 3\<rparr>)) (Some (replicate 34 0)) =
      Some (0, Some bytes) \<and> length bytes = WIRECALL_HEADER_SIZE \<and>
    wirecall_header_decode (Some (bytes @ [1, 2])) (Some zero_header) =
      Some (0, Some (zero_header\<lparr>h_op := 4, h_size := 17, h_mac := 3\<rparr>))"
  by (rule header_roundtrip)
    (simp_all add: op_enum_def op_defs zero_header_def WIRECALL_MAX_PAYLOAD_SIZE_def WIRECALL_HEADER_SIZE_def)

text \<open>
  C22: The encoding of headers is canonical and the decoder is exact.  Decoding 34 or more
  bytes never reads past the first 34; it fails, with \<open>-1\<close>, exactly if the operation byte is not one of the
  five operations or the size field exceeds the payload limit; and when it succeeds, encoding
  the result reproduces the 34 bytes, so no two byte sequences stand for the same header.
\<close>

theorem header_decode_exact:
  assumes "WIRECALL_HEADER_SIZE \<le> length inp" "length buf = WIRECALL_HEADER_SIZE"
  shows "\<exists>rc h. wirecall_header_decode (Some inp) (Some out) = Some (rc, Some h) \<and>
    (rc = 0 \<and> op_enum (h_op h) \<and> unat (h_size h) \<le> WIRECALL_MAX_PAYLOAD_SIZE \<and>
       wirecall_header_encode (Some h) (Some buf) = Some (0, Some (take WIRECALL_HEADER_SIZE inp)) \<or>
     rc = -1 \<and> (\<not> valid_op (inp ! 0) \<or> (\<exists>n. get_u32 inp 10 = Some n \<and> unat n > WIRECALL_MAX_PAYLOAD_SIZE)))"
  using assms(1)
proof (cases rule: header_decode_cases [where out = out])
  case bad_op
  then show ?thesis by simp
next
  case (bad_size h)
  have "valid_op (ucast (h_op h))"
    using bad_size(1) header_bytes_hd [of h "[]"] bad_size(3) assms(1)
    by (simp add: WIRECALL_HEADER_SIZE_def)
  then have "unat (h_size h) > WIRECALL_MAX_PAYLOAD_SIZE"
    using bad_size(2) by (simp add: header_valid_def)
  moreover have "get_u32 inp 10 = Some (h_size h)"
  proof -
    have "take 4 (drop 10 inp) = take 4 (drop 10 (take WIRECALL_HEADER_SIZE inp))"
      by (simp add: WIRECALL_HEADER_SIZE_def drop_take min_def)
    also have "\<dots> = be32 (h_size h)"
      unfolding bad_size(3) [symmetric] by (simp add: header_bytes_def be64_def be32_def)
    finally show ?thesis
      using get_u32_Some [of 10 inp] assms(1) be32_inject by (force simp: WIRECALL_HEADER_SIZE_def)
  qed
  ultimately show ?thesis using bad_size(4) by blast
next
  case (ok h)
  have "op_enum (h_op h)"
    using ok(1,3) by (auto simp: op_enum_def header_valid_def valid_op_def op_defs)
  moreover have "wirecall_header_encode (Some h) (Some buf) = Some (0, Some (take WIRECALL_HEADER_SIZE inp))"
    using header_encode_valid [OF ok(1) assms(2)] ok(2) by simp
  ultimately show ?thesis using ok(1,4) by (auto simp: header_valid_def)
qed

theorem header_decode_exact_witness:
  "\<exists>h. wirecall_header_decode (Some (2 # replicate 33 0)) (Some zero_header) = Some (0, Some h) \<and>
    op_enum (h_op h) \<and> unat (h_size h) \<le> WIRECALL_MAX_PAYLOAD_SIZE \<and>
    wirecall_header_encode (Some h) (Some (replicate 34 7)) = Some (0, Some (take WIRECALL_HEADER_SIZE (2 # replicate 33 0)))"
proof -
  have "valid_op ((2 # replicate 33 0) ! 0)" "get_u32 (2 # replicate 33 0) 10 = Some 0"
    by (simp_all add: valid_op_def op_defs get_u32_def rd_def)
  then show ?thesis
    using header_decode_exact [of "2 # replicate 33 0" "replicate 34 7" zero_header] by (simp add: WIRECALL_HEADER_SIZE_def)
qed

text \<open>
  C19: A packet that is signed, encoded, transmitted, decoded and verified with the same integrity
  setting and key on hosts of the same byte order is accepted, for every combination of
  checksum and MAC, and arrives with the operation, flags, ids and size it was sent with.
\<close>

theorem packet_end_to_end:
  assumes "op_enum (h_op h)" "sign_ok h p n integrity key" "length buf = WIRECALL_HEADER_SIZE"
  shows "\<exists>h1 bytes. wirecall_packet_sign_ex be (Some h) p n integrity key = Some (0, Some h1) \<and>
    h_op h1 = h_op h \<and> h_flags h1 = h_flags h \<and> h_proc_id h1 = h_proc_id h \<and> h_size h1 = h_size h \<and> h_call_id h1 = h_call_id h \<and>
    wirecall_header_encode (Some h1) (Some buf) = Some (0, Some bytes) \<and>
    wirecall_header_decode (Some bytes) (Some out) = Some (0, Some h1) \<and>
    wirecall_packet_verify_ex be (Some h1) p n integrity key = Some 0"
proof -
  obtain c m where s: "wirecall_packet_sign_ex be (Some h) p n integrity key = Some (0, Some (h\<lparr>h_checksum := c, h_mac := m\<rparr>))"
    "\<And>h'. (ucast (h_op h') :: u8) = ucast (h_op h) \<Longrightarrow> h_flags h' = h_flags h \<Longrightarrow> h_size h' = h_size h \<Longrightarrow>
      h_proc_id h' = h_proc_id h \<Longrightarrow> h_call_id h' = h_call_id h \<Longrightarrow> h_checksum h' = c \<Longrightarrow> h_mac h' = m \<Longrightarrow>
      wirecall_packet_verify_ex be (Some h') p n integrity key = Some 0"
    using packet_sign_verify_aux [OF assms(2)] by blast
  let ?h = "h\<lparr>h_checksum := c, h_mac := m\<rparr>"
  have "header_valid ?h" "?h\<lparr>h_op := ucast (ucast (h_op ?h) :: u8)\<rparr> = ?h"
    using assms(1,2) op_enum_valid [OF assms(1)] by (simp_all add: header_valid_def sign_ok_def payload_ok_def)
  then have "wirecall_header_encode (Some ?h) (Some buf) = Some (0, Some (header_bytes ?h))"
    "wirecall_header_decode (Some (header_bytes ?h)) (Some out) = Some (0, Some ?h)"
    using header_encode_valid [OF _ assms(3)] header_decode_bytes [of ?h "[]" out] by simp_all
  then show ?thesis using s by (intro exI [of _ ?h] exI [of _ "header_bytes ?h"]) simp
qed

theorem packet_end_to_end_witness:
  "\<exists>h1 bytes. wirecall_packet_sign_ex False (Some (zero_header\<lparr>h_op := 1, h_size := 3\<rparr>)) (Some [1, 2, 3]) 3
      (WIRECALL_INTEGRITY_CHECKSUM OR WIRECALL_INTEGRITY_MAC) (Some (replicate 16 9)) = Some (0, Some h1) \<and>
    h_op h1 = h_op (zero_header\<lparr>h_op := 1, h_size := 3\<rparr>) \<and> h_flags h1 = h_flags (zero_header\<lparr>h_op := 1, h_size := 3\<rparr>) \<and>
    h_proc_id h1 = h_proc_id (zero_header\<lparr>h_op := 1, h_size := 3\<rparr>) \<and> h_size h1 = h_size (zero_header\<lparr>h_op := 1, h_size := 3\<rparr>) \<and>
    h_call_id h1 = h_call_id (zero_header\<lparr>h_op := 1, h_size := 3\<rparr>) \<and>
    wirecall_header_encode (Some h1) (Some (replicate 34 0)) = Some (0, Some bytes) \<and>
    wirecall_header_decode (Some bytes) (Some zero_header) = Some (0, Some h1) \<and>
    wirecall_packet_verify_ex False (Some h1) (Some [1, 2, 3]) 3
      (WIRECALL_INTEGRITY_CHECKSUM OR WIRECALL_INTEGRITY_MAC) (Some (replicate 16 9)) = Some 0"
  by (rule packet_end_to_end)
    (simp_all add: op_enum_def op_defs sign_ok_def payload_ok_def payload_bytes_def key_ok_def
      WIRECALL_MAX_PAYLOAD_SIZE_def WIRECALL_HEADER_SIZE_def)

text \<open>
  C24: Verification is total: for every header, payload of the announced length and key of 16 bytes it
  reads nothing outside them and returns \<open>0\<close> or \<open>-1\<close>; a size field that differs from the
  number of payload bytes, or a demanded MAC without a key, is always rejected.
\<close>

theorem packet_verify_total:
  assumes "payload_ok p n" "key_ok key"
  shows "wirecall_packet_verify_ex be (Some h) p n integrity key \<in> {Some 0, Some (-1)} \<and>
    (unat (h_size h) \<noteq> n \<or> integrity AND WIRECALL_INTEGRITY_MAC \<noteq> 0 \<and> key = None \<longrightarrow>
      wirecall_packet_verify_ex be (Some h) p n integrity key = Some (-1))"
  using packet_verify_Some [OF assms, of be h integrity] by (auto simp: wirecall_packet_verify_ex_def)

theorem packet_verify_total_witness:
  "wirecall_packet_verify_ex True (Some zero_header) (Some [1]) 1 0 None = Some (-1)"
  using packet_verify_total [of "Some [1]" 1 None True zero_header 0]
  by (simp add: zero_header_def payload_ok_def payload_bytes_def key_ok_def WIRECALL_MAX_PAYLOAD_SIZE_def)

text \<open>
  C20: On a little-endian host the packet MAC is SipHash-2-4 of the 30 metadata bytes (header fields
  and payload length, big-endian) followed by the payload, under the 16-byte key: the incremental
  computation over two buffers with a carried-over tail agrees with the reference definition of
  the hash on the concatenation.
\<close>

theorem packet_mac_is_siphash24:
  assumes "payload_ok p n" "length key = 16"
  shows "wirecall_packet_mac False (Some h) p n (Some key) =
    Some (siphash24 key ([ucast (h_op h), h_flags h] @ be64 (h_proc_id h) @ be32 (h_size h) @ be64 (h_call_id h)
      @ be32 (h_checksum h) @ be32 (word_of_nat n) @ take n (payload_bytes p)))"
  using packet_mac_siphash24 [OF assms, of h] by (simp add: meta_bytes_def)

theorem packet_mac_is_siphash24_witness:
  "wirecall_packet_mac False (Some zero_header) (Some [1, 2, 3]) 3 (Some (replicate 16 1)) =
    Some (siphash24 (replicate 16 1) ([ucast (h_op zero_header), h_flags zero_header] @ be64 (h_proc_id zero_header)
      @ be32 (h_size zero_header) @ be64 (h_call_id zero_header) @ be32 (h_checksum zero_header) @ be32 (word_of_nat 3)
      @ take 3 (payload_bytes (Some [1, 2, 3]))))"
  by (rule packet_mac_is_siphash24) (simp_all add: payload_ok_def payload_bytes_def WIRECALL_MAX_PAYLOAD_SIZE_def)

text \<open>
  C36: The checksum's 64-bit state depends on every full block: if two payloads differ in exactly one of
  their aligned 8-byte blocks, then their hashes (before the fold to 32 bits) differ, from any seed and on hosts
  of either byte order.
\<close>

theorem cheap_hash_detects_block:
  assumes "8 dvd length xs" "length a = 8" "length b = 8" "a \<noteq> b"
  shows "cheap_hash_update be hash (xs @ a @ ys) (length (xs @ a @ ys)) \<noteq>
    cheap_hash_update be hash (xs @ b @ ys) (length (xs @ b @ ys))"
  using cheap_hash_block_sensitive [OF assms] by (simp add: cheap_hash_update_eq)

theorem cheap_hash_detects_block_witness:
  "cheap_hash_update False 5 ([] @ replicate 8 0 @ [7]) (length ([] @ replicate 8 0 @ [7 :: u8])) \<noteq>
    cheap_hash_update False 5 ([] @ replicate 8 1 @ [7]) (length ([] @ replicate 8 1 @ [7 :: u8]))"
  by (rule cheap_hash_detects_block) simp_all

lemma checksum_reverse:
  assumes "8 dvd length bs"
  shows "wirecall_packet_checksum True (Some h) (Some bs) (length bs) =
    wirecall_packet_checksum False (Some h) (Some (reverse_blocks bs)) (length bs)"
  using cheap_hash_update_eq [of "length bs" "reverse_blocks bs" False]
  by (simp add: wirecall_packet_checksum_def payload_bytes_def cheap_hash_update_eq cheap_hash_reverse [OF assms])

lemma checksum_header_update:
  "wirecall_packet_checksum be (Some (h\<lparr>h_checksum := c, h_mac := m\<rparr>)) p n = wirecall_packet_checksum be (Some h) p n"
  by (simp add: wirecall_packet_checksum_def packet_seed_def)

text \<open>
  C40: What a big-endian host accepts.  The checksum reads the words of the payload in the byte order of the host,
  although the header is sent in big-endian order.  So a packet that a little-endian host has signed with the default integrity, the checksum, and a payload of whole
  8-byte words, verifies on a big-endian host exactly if its payload has the same checksum as the payload with
  the bytes of every word reversed; on little-endian hosts it always verifies.
\<close>

theorem packet_sign_byte_order:
  assumes "8 dvd length bs" "wirecall_packet_sign False (Some h) (Some bs) (length bs) = Some (0, Some h')"
  shows "wirecall_packet_verify False (Some h') (Some bs) (length bs) = Some 0 \<and>
    wirecall_packet_verify True (Some h') (Some bs) (length bs) =
      Some (if wirecall_packet_checksum False (Some h) (Some (reverse_blocks bs)) (length bs) =
               wirecall_packet_checksum False (Some h) (Some bs) (length bs) then 0 else -1)"
proof -
  obtain c where n: "length bs \<le> WIRECALL_MAX_PAYLOAD_SIZE" "unat (h_size h) = length bs" and h': "h' = h\<lparr>h_checksum := c, h_mac := 0\<rparr>"
    and c: "wirecall_packet_checksum False (Some h) (Some bs) (length bs) = Some c"
    using assms(2) by (auto simp: wirecall_packet_sign_def wirecall_packet_sign_ex_def integrity_defs Let_def
        split: if_splits bind_splits)
  obtain d where "wirecall_packet_checksum False (Some h) (Some (reverse_blocks bs)) (length bs) = Some d"
    using packet_checksum_Some [of "Some (reverse_blocks bs)" "length bs" False "Some h"] n
    by (auto simp: payload_ok_def payload_bytes_def)
  then show ?thesis
    using n c unfolding wirecall_packet_verify_def wirecall_packet_verify_ex_def h'
    by (simp add: checksum_header_update checksum_reverse [OF assms(1)] integrity_defs)
qed

text \<open>A ping with one word of payload, read by the two kinds of hosts.\<close>

lemma ping_checksum:
  "wirecall_packet_checksum False (Some (zero_header\<lparr>h_op := WIRECALL_OP_PING, h_size := 8\<rparr>)) (Some [1, 0, 0, 0, 0, 0, 0, 0]) 8 = Some 0x7f87ac43"
  "wirecall_packet_checksum False (Some (zero_header\<lparr>h_op := WIRECALL_OP_PING, h_size := 8\<rparr>)) (Some [0, 0, 0, 0, 0, 0, 0, 1]) 8 = Some 0x46d0ed2c"
proof -
  have [simp]: "native_word False [1, 0, 0, 0, 0, 0, 0, 0] = 1" "native_word False [0, 0, 0, 0, 0, 0, 0, 1] = 0x100000000000000"
    by (simp_all add: native_word_def)
  show
    "wirecall_packet_checksum False (Some (zero_header\<lparr>h_op := WIRECALL_OP_PING, h_size := 8\<rparr>)) (Some [1, 0, 0, 0, 0, 0, 0, 0]) 8 = Some 0x7f87ac43"
    "wirecall_packet_checksum False (Some (zero_header\<lparr>h_op := WIRECALL_OP_PING, h_size := 8\<rparr>)) (Some [0, 0, 0, 0, 0, 0, 0, 1]) 8 = Some 0x46d0ed2c"
    by (simp_all add: wirecall_packet_checksum_def packet_seed_def mix64_def rotl64_def cheap_step_def cheap_hash_update_def
        cheap_hash_loop.simps get_u64_native_def payload_bytes_def zero_header_def op_defs WIRECALL_MAX_PAYLOAD_SIZE_def)
qed

theorem packet_sign_byte_order_witness:
  "\<exists>h'. wirecall_packet_sign False (Some (zero_header\<lparr>h_op := WIRECALL_OP_PING, h_size := 8\<rparr>)) (Some [1, 0, 0, 0, 0, 0, 0, 0]) 8 = Some (0, Some h') \<and>
    wirecall_packet_verify False (Some h') (Some [1, 0, 0, 0, 0, 0, 0, 0]) 8 = Some 0 \<and>
    wirecall_packet_verify True (Some h') (Some [1, 0, 0, 0, 0, 0, 0, 0]) 8 = Some (-1)"
proof -
  let ?h = "zero_header\<lparr>h_op := WIRECALL_OP_PING, h_size := 8\<rparr>" and ?bs = "[1, 0, 0, 0, 0, 0, 0, 0] :: u8 list"
  have r: "reverse_blocks ?bs = [0, 0, 0, 0, 0, 0, 0, 1]"
    by (simp add: reverse_blocks.simps)
  have n: "length ?bs = 8" by simp
  obtain h' where h': "wirecall_packet_sign False (Some ?h) (Some ?bs) 8 = Some (0, Some h')"
    using ping_checksum(1) by (simp add: wirecall_packet_sign_def wirecall_packet_sign_ex_def integrity_defs WIRECALL_MAX_PAYLOAD_SIZE_def)
  then show ?thesis
    using packet_sign_byte_order [of ?bs ?h h'] unfolding n r ping_checksum by simp
qed

end
