(* ===== verification/Memory.thy ===== *)
theory Memory
  imports Prelude
begin

text \<open>
  Dynamic memory: \<^verbatim>\<open>src/memory.c\<close> and the part of the C library it calls.

  The heap of the model records which addresses are live and how large the blocks are, and
  the bytes in them; a fresh block has arbitrary contents.  Whether the next allocation
  fails, and whether \<open>realloc\<close> moves a block, are arbitrary functions that the heap
  carries, so that a theorem about all heaps covers every pattern of failures.  Address
  \<open>0\<close> is \<open>NULL\<close>.  Freeing or resizing an address that is not live, and an access outside
  a live block, are undefined (\<open>None\<close>).

  The contract that the rest of the library relies on is the locale \<open>mem_contract\<close>; it is
  interpreted for the library's allocation functions without hooks and with the counting
  hooks of the demo.
\<close>

section \<open>The heap\<close>

record heap =
  hp_size :: "nat \<Rightarrow> nat option"
  hp_bytes :: "nat \<Rightarrow> nat \<Rightarrow> u8"
  hp_next :: nat
  hp_tick :: nat
  hp_fail :: "nat \<Rightarrow> bool"
  hp_stay :: "nat \<Rightarrow> bool"
  hp_words :: "nat \<Rightarrow> nat"

definition heap_ok :: "heap \<Rightarrow> bool" where
  "heap_ok h \<longleftrightarrow> 0 < hp_next h \<and> (\<forall>p. hp_size h p \<noteq> None \<longrightarrow> 0 < p \<and> p < hp_next h)"

text \<open>A heap without live blocks in which no allocation fails and \<open>realloc\<close> always moves.\<close>

definition heap0 :: heap where
  "heap0 = \<lparr>hp_size = (\<lambda>_. None), hp_bytes = (\<lambda>_ _. 0), hp_next = 1, hp_tick = 0,
     hp_fail = (\<lambda>_. False), hp_stay = (\<lambda>_. False), hp_words = (\<lambda>_. 0)\<rparr>"

definition hp_read :: "nat \<Rightarrow> nat \<Rightarrow> nat \<Rightarrow> heap \<Rightarrow> u8 list option" where
  "hp_read p off n h =
     (case hp_size h p of None \<Rightarrow> None
      | Some k \<Rightarrow> if off + n \<le> k then Some (map (hp_bytes h p) [off..<off + n]) else None)"

definition hp_write :: "nat \<Rightarrow> nat \<Rightarrow> u8 list \<Rightarrow> heap \<Rightarrow> heap option" where
  "hp_write p off bs h =
     (case hp_size h p of None \<Rightarrow> None
      | Some k \<Rightarrow>
          if off + length bs \<le> k
          then Some (h\<lparr>hp_bytes := (hp_bytes h)(p := (\<lambda>i. if off \<le> i \<and> i < off + length bs then bs ! (i - off)
                                                         else hp_bytes h p i))\<rparr>)
          else None)"

section \<open>The C library\<close>

definition c_malloc :: "nat \<Rightarrow> heap \<Rightarrow> (nat \<times> heap) option" where
  "c_malloc n h = (
     let h' = h\<lparr>hp_tick := Suc (hp_tick h)\<rparr>
     in if hp_fail h (hp_tick h) then Some (0, h')
        else Some (hp_next h, h'\<lparr>hp_size := (hp_size h)(hp_next h := Some n), hp_next := Suc (hp_next h)\<rparr>))"

definition c_realloc :: "nat \<Rightarrow> nat \<Rightarrow> heap \<Rightarrow> (nat \<times> heap) option" where
  "c_realloc p n h =
     (if p = 0 then c_malloc n h
      else case hp_size h p of None \<Rightarrow> None
      | Some k \<Rightarrow>
         (let h' = h\<lparr>hp_tick := Suc (hp_tick h)\<rparr>
          in if hp_fail h (hp_tick h) then Some (0, h')
             else if hp_stay h (hp_tick h) then Some (p, h'\<lparr>hp_size := (hp_size h)(p := Some n)\<rparr>)
             else (let q = hp_next h
                   in Some (q, h'\<lparr>hp_size := (hp_size h)(p := None, q := Some n),
                                  hp_bytes := (hp_bytes h)(q := (\<lambda>i. if i < k then hp_bytes h p i else hp_bytes h q i)),
                                  hp_next := Suc q\<rparr>))))"

definition c_free :: "nat \<Rightarrow> heap \<Rightarrow> heap option" where
  "c_free p h =
     (if p = 0 then Some h
      else case hp_size h p of None \<Rightarrow> None | Some _ \<Rightarrow> Some (h\<lparr>hp_size := (hp_size h)(p := None)\<rparr>))"

section \<open>The allocator hook\<close>

record wirecall_allocator =
  al_ctx :: nat
  al_alloc :: "(nat \<Rightarrow> nat \<Rightarrow> heap \<Rightarrow> (nat \<times> heap) option) option"
  al_realloc :: "(nat \<Rightarrow> nat \<Rightarrow> nat \<Rightarrow> heap \<Rightarrow> (nat \<times> heap) option) option"
  al_free :: "(nat \<Rightarrow> nat \<Rightarrow> heap \<Rightarrow> heap option) option"

text \<open>The static \<open>g_allocator\<close> before any call.\<close>

definition no_allocator :: wirecall_allocator where
  "no_allocator = \<lparr>al_ctx = 0, al_alloc = None, al_realloc = None, al_free = None\<rparr>"

definition allocator_valid :: "wirecall_allocator option \<Rightarrow> bool" where
  "allocator_valid allocator =
     (case allocator of None \<Rightarrow> False
      | Some a \<Rightarrow> al_alloc a \<noteq> None \<and> al_realloc a \<noteq> None \<and> al_free a \<noteq> None)"

definition wirecall_set_allocator :: "wirecall_allocator option \<Rightarrow> wirecall_allocator \<Rightarrow> int \<times> wirecall_allocator" where
  "wirecall_set_allocator allocator g_allocator =
     (case allocator of
        Some a \<Rightarrow> if \<not> allocator_valid allocator then (-1, g_allocator) else (0, a)
      | None \<Rightarrow> (0, no_allocator))"

definition wirecall_get_allocator :: "wirecall_allocator option \<Rightarrow> wirecall_allocator \<Rightarrow> wirecall_allocator option" where
  "wirecall_get_allocator out_allocator g_allocator =
     (case out_allocator of None \<Rightarrow> None | Some _ \<Rightarrow> Some g_allocator)"

definition wirecall_mem_alloc :: "wirecall_allocator \<Rightarrow> nat \<Rightarrow> heap \<Rightarrow> (nat \<times> heap) option" where
  "wirecall_mem_alloc g_allocator sz h = (
     let sz = (if sz = 0 then 1 else sz);
         allocator = the (wirecall_get_allocator (Some no_allocator) g_allocator)
     in case al_alloc allocator of
          Some f \<Rightarrow> f (al_ctx allocator) sz h
        | None \<Rightarrow> c_malloc sz h)"

definition wirecall_mem_calloc :: "wirecall_allocator \<Rightarrow> nat \<Rightarrow> nat \<Rightarrow> heap \<Rightarrow> (nat \<times> heap) option" where
  "wirecall_mem_calloc g_allocator count sz h =
     (if count \<noteq> 0 \<and> sz > SIZE_MAX div count then Some (0, h)
      else do {
        let nbytes = count * sz;
        (ptr, h) \<leftarrow> wirecall_mem_alloc g_allocator nbytes h;
        if ptr \<noteq> 0 then do { h \<leftarrow> hp_write ptr 0 (replicate nbytes 0) h; Some (ptr, h) } else Some (ptr, h) })"

definition wirecall_mem_realloc :: "wirecall_allocator \<Rightarrow> nat \<Rightarrow> nat \<Rightarrow> heap \<Rightarrow> (nat \<times> heap) option" where
  "wirecall_mem_realloc g_allocator ptr sz h = (
     let sz = (if sz = 0 then 1 else sz);
         allocator = the (wirecall_get_allocator (Some no_allocator) g_allocator)
     in case al_realloc allocator of
          Some f \<Rightarrow> f (al_ctx allocator) ptr sz h
        | None \<Rightarrow> c_realloc ptr sz h)"

definition wirecall_mem_free :: "wirecall_allocator \<Rightarrow> nat \<Rightarrow> heap \<Rightarrow> heap option" where
  "wirecall_mem_free g_allocator ptr h =
     (if ptr = 0 then Some h
      else let allocator = the (wirecall_get_allocator (Some no_allocator) g_allocator)
           in case al_free allocator of
                Some f \<Rightarrow> f (al_ctx allocator) ptr h
              | None \<Rightarrow> c_free ptr h)"

section \<open>Counting hooks\<close>

text \<open>
  The hooks of \<^verbatim>\<open>demos/embed.c\<close>: the context is the address of three counters, and the
  requests are passed on to the C library.
\<close>

definition embed_alloc :: "nat \<Rightarrow> nat \<Rightarrow> heap \<Rightarrow> (nat \<times> heap) option" where
  "embed_alloc ctx sz h = c_malloc sz (h\<lparr>hp_words := (hp_words h)(ctx := Suc (hp_words h ctx))\<rparr>)"

definition embed_realloc :: "nat \<Rightarrow> nat \<Rightarrow> nat \<Rightarrow> heap \<Rightarrow> (nat \<times> heap) option" where
  "embed_realloc ctx ptr sz h =
     c_realloc ptr sz (h\<lparr>hp_words := (hp_words h)(ctx + 1 := Suc (hp_words h (ctx + 1)))\<rparr>)"

definition embed_free :: "nat \<Rightarrow> nat \<Rightarrow> heap \<Rightarrow> heap option" where
  "embed_free ctx ptr h = c_free ptr (h\<lparr>hp_words := (hp_words h)(ctx + 2 := Suc (hp_words h (ctx + 2)))\<rparr>)"

definition embed_allocator :: "nat \<Rightarrow> wirecall_allocator" where
  "embed_allocator stats =
     \<lparr>al_ctx = stats, al_alloc = Some embed_alloc, al_realloc = Some embed_realloc, al_free = Some embed_free\<rparr>"

section \<open>What the heap operations preserve\<close>

text \<open>The blocks and their contents, except at \<open>p\<close>, are the same in both heaps.\<close>

definition heap_same_but :: "nat \<Rightarrow> heap \<Rightarrow> heap \<Rightarrow> bool" where
  "heap_same_but p h h' \<longleftrightarrow> (\<forall>q. q \<noteq> p \<longrightarrow> hp_size h' q = hp_size h q) \<and>
     (\<forall>q i. q \<noteq> p \<longrightarrow> hp_size h q \<noteq> None \<longrightarrow> hp_bytes h' q i = hp_bytes h q i)"

definition heap_same :: "heap \<Rightarrow> heap \<Rightarrow> bool" where
  "heap_same h h' \<longleftrightarrow> hp_size h' = hp_size h \<and> (\<forall>q i. hp_size h q \<noteq> None \<longrightarrow> hp_bytes h' q i = hp_bytes h q i)"

definition alloc_post :: "nat \<Rightarrow> heap \<Rightarrow> nat \<Rightarrow> heap \<Rightarrow> bool" where
  "alloc_post n h p h' \<longleftrightarrow> heap_ok h' \<and>
     (if p = 0 then heap_same h h'
      else hp_size h p = None \<and> hp_size h' p = Some n \<and> heap_same_but p h h')"

definition free_post :: "heap \<Rightarrow> nat \<Rightarrow> heap \<Rightarrow> bool" where
  "free_post h p h' \<longleftrightarrow> heap_ok h' \<and> hp_size h' p = None \<and> heap_same_but p h h'"

text \<open>After \<open>realloc\<close> of the live block \<open>p\<close> of \<open>k\<close> bytes to \<open>n\<close> bytes, with result \<open>q\<close>.\<close>

definition realloc_post :: "nat \<Rightarrow> nat \<Rightarrow> nat \<Rightarrow> heap \<Rightarrow> nat \<Rightarrow> heap \<Rightarrow> bool" where
  "realloc_post p k n h q h' \<longleftrightarrow> heap_ok h' \<and>
     (if q = 0 then heap_same h h'
      else (q = p \<or> hp_size h q = None \<and> hp_size h' p = None) \<and> hp_size h' q = Some n \<and>
           (\<forall>i < min k n. hp_bytes h' q i = hp_bytes h p i) \<and>
           (\<forall>r. r \<noteq> p \<longrightarrow> r \<noteq> q \<longrightarrow> hp_size h' r = hp_size h r) \<and>
           (\<forall>r i. r \<noteq> p \<longrightarrow> r \<noteq> q \<longrightarrow> hp_size h r \<noteq> None \<longrightarrow> hp_bytes h' r i = hp_bytes h r i))"

lemmas heap_post_defs = alloc_post_def free_post_def realloc_post_def heap_same_def heap_same_but_def

lemma c_malloc_post:
  assumes "heap_ok h"
  shows "\<exists>p h'. c_malloc n h = Some (p, h') \<and> alloc_post n h p h'"
proof (cases "hp_fail h (hp_tick h)")
  case True
  then show ?thesis using assms by (simp add: c_malloc_def heap_post_defs heap_ok_def)
next
  case False
  have "hp_size h (hp_next h) = None"
    using assms by (cases "hp_size h (hp_next h)") (auto simp: heap_ok_def)
  then show ?thesis using False assms by (simp add: c_malloc_def heap_post_defs heap_ok_def less_SucI)
qed

lemma c_realloc_post:
  assumes "heap_ok h" "hp_size h p = Some k"
  shows "\<exists>q h'. c_realloc p n h = Some (q, h') \<and> realloc_post p k n h q h'"
proof -
  have p: "0 < p" "p < hp_next h" using assms by (auto simp: heap_ok_def)
  have fresh: "hp_size h (hp_next h) = None"
    using assms(1) by (cases "hp_size h (hp_next h)") (auto simp: heap_ok_def)
  consider "hp_fail h (hp_tick h)" | "\<not> hp_fail h (hp_tick h)" "hp_stay h (hp_tick h)"
    | "\<not> hp_fail h (hp_tick h)" "\<not> hp_stay h (hp_tick h)"
    by blast
  then show ?thesis
  proof cases
    case 1
    have "c_realloc p n h = Some (0, h\<lparr>hp_tick := Suc (hp_tick h)\<rparr>)"
      using 1 p assms(2) by (simp add: c_realloc_def)
    then show ?thesis using assms by (simp add: heap_post_defs heap_ok_def)
  next
    case 2
    have "c_realloc p n h = Some (p, h\<lparr>hp_tick := Suc (hp_tick h), hp_size := (hp_size h)(p := Some n)\<rparr>)"
      using 2 p assms(2) by (simp add: c_realloc_def)
    then show ?thesis using assms p by (auto simp: heap_post_defs heap_ok_def)
  next
    case 3
    have "c_realloc p n h = Some (hp_next h, h\<lparr>hp_tick := Suc (hp_tick h),
        hp_size := (hp_size h)(p := None, hp_next h := Some n),
        hp_bytes := (hp_bytes h)(hp_next h := (\<lambda>i. if i < k then hp_bytes h p i else hp_bytes h (hp_next h) i)),
        hp_next := Suc (hp_next h)\<rparr>)"
      using 3 p assms(2) by (simp add: c_realloc_def Let_def)
    then show ?thesis using assms p fresh by (auto simp: heap_post_defs heap_ok_def less_SucI)
  qed
qed

lemma c_free_post:
  assumes "heap_ok h" "hp_size h p \<noteq> None"
  shows "\<exists>h'. c_free p h = Some h' \<and> free_post h p h'"
  using assms by (auto simp: c_free_def heap_post_defs heap_ok_def)

lemma heap_ok_size_0 [simp]: "heap_ok h \<Longrightarrow> hp_size h 0 = None"
  by (auto simp: heap_ok_def)

lemma heap_ok_live_pos: "heap_ok h \<Longrightarrow> hp_size h p = Some k \<Longrightarrow> 0 < p"
  by (auto simp: heap_ok_def)

lemma heap_ok_heap0 [simp]: "heap_ok heap0"
  by (simp add: heap_ok_def heap0_def)

lemma heap_same_refl [simp]: "heap_same h h"
  by (simp add: heap_same_def)

lemma heap_same_trans: "heap_same h1 h2 \<Longrightarrow> heap_same h2 h3 \<Longrightarrow> heap_same h1 h3"
  by (simp add: heap_same_def)

lemma heap_ok_words [simp]: "heap_ok (h\<lparr>hp_words := w\<rparr>) = heap_ok h"
  by (simp add: heap_ok_def)

lemma heap_ok_bytes [simp]: "heap_ok (h\<lparr>hp_bytes := b\<rparr>) = heap_ok h"
  by (simp add: heap_ok_def)

lemma alloc_post_words [simp]: "alloc_post n (h\<lparr>hp_words := w\<rparr>) p h' = alloc_post n h p h'"
  by (simp add: heap_post_defs)

lemma realloc_post_words [simp]: "realloc_post p k n (h\<lparr>hp_words := w\<rparr>) q h' = realloc_post p k n h q h'"
  by (simp add: heap_post_defs)

lemma free_post_words [simp]: "free_post (h\<lparr>hp_words := w\<rparr>) p h' = free_post h p h'"
  by (simp add: heap_post_defs)

section \<open>The contract of the allocation functions\<close>

text \<open>
  What a client of \<^verbatim>\<open>memory.h\<close> relies on.  An allocation either fails, and changes
  nothing, or returns a block that was not live; a reallocation keeps the old contents up to
  the smaller size; freeing ends the life of exactly one block.
\<close>

locale mem_contract =
  fixes mem_alloc :: "nat \<Rightarrow> heap \<Rightarrow> (nat \<times> heap) option"
    and mem_realloc :: "nat \<Rightarrow> nat \<Rightarrow> heap \<Rightarrow> (nat \<times> heap) option"
    and mem_free :: "nat \<Rightarrow> heap \<Rightarrow> heap option"
  assumes alloc_law: "heap_ok h \<Longrightarrow> 0 < n \<Longrightarrow> \<exists>p h'. mem_alloc n h = Some (p, h') \<and> alloc_post n h p h'"
    and realloc_null_law: "heap_ok h \<Longrightarrow> 0 < n \<Longrightarrow> \<exists>p h'. mem_realloc 0 n h = Some (p, h') \<and> alloc_post n h p h'"
    and realloc_law: "heap_ok h \<Longrightarrow> 0 < n \<Longrightarrow> hp_size h p = Some k \<Longrightarrow>
           \<exists>q h'. mem_realloc p n h = Some (q, h') \<and> realloc_post p k n h q h'"
    and free_null_law: "mem_free 0 h = Some h"
    and free_law: "heap_ok h \<Longrightarrow> hp_size h p \<noteq> None \<Longrightarrow> \<exists>h'. mem_free p h = Some h' \<and> free_post h p h'"
begin

text \<open>Allocate and free again: the live blocks and their contents are as before.\<close>

lemma alloc_free_same:
  assumes "heap_ok h" "0 < n" "mem_alloc n h = Some (p, h1)"
  shows "\<exists>h2. mem_free p h1 = Some h2 \<and> heap_ok h2 \<and> heap_same h h2"
proof (cases "p = 0")
  case True
  then show ?thesis using alloc_law [OF assms(1,2)] assms(3) free_null_law by (auto simp: alloc_post_def)
next
  case False
  have post: "alloc_post n h p h1" using alloc_law [OF assms(1,2)] assms(3) by auto
  then obtain h2 where h2: "mem_free p h1 = Some h2" "free_post h1 p h2"
    using free_law [of h1 p] False by (auto simp: alloc_post_def)
  have "hp_size h2 = hp_size h"
  proof
    fix q show "hp_size h2 q = hp_size h q"
      using post h2(2) False by (cases "q = p") (auto simp: heap_post_defs)
  qed
  moreover have "hp_bytes h2 q i = hp_bytes h q i" if "hp_size h q \<noteq> None" for q i
    using post h2(2) False that by (cases "q = p") (simp_all add: heap_post_defs)
  ultimately show ?thesis using h2 by (auto simp: heap_same_def free_post_def)
qed

end

text \<open>What a complete hook must guarantee for the library's functions to satisfy the contract.\<close>

definition hook_ok :: "wirecall_allocator \<Rightarrow> bool" where
  "hook_ok a \<longleftrightarrow> (\<exists>fa fr ff. al_alloc a = Some fa \<and> al_realloc a = Some fr \<and> al_free a = Some ff \<and>
     (\<forall>h n. heap_ok h \<longrightarrow> 0 < n \<longrightarrow> (\<exists>p h'. fa (al_ctx a) n h = Some (p, h') \<and> alloc_post n h p h')) \<and>
     (\<forall>h n. heap_ok h \<longrightarrow> 0 < n \<longrightarrow> (\<exists>p h'. fr (al_ctx a) 0 n h = Some (p, h') \<and> alloc_post n h p h')) \<and>
     (\<forall>h n p k. heap_ok h \<longrightarrow> 0 < n \<longrightarrow> hp_size h p = Some k \<longrightarrow>
        (\<exists>q h'. fr (al_ctx a) p n h = Some (q, h') \<and> realloc_post p k n h q h')) \<and>
     (\<forall>h p. heap_ok h \<longrightarrow> hp_size h p \<noteq> None \<longrightarrow> (\<exists>h'. ff (al_ctx a) p h = Some h' \<and> free_post h p h')))"

text \<open>The allocators under which the library runs: none, or one that keeps the rules.\<close>

definition mem_ok :: "wirecall_allocator \<Rightarrow> bool" where
  "mem_ok g \<longleftrightarrow> g = no_allocator \<or> hook_ok g"

lemma get_allocator_Some [simp]: "the (wirecall_get_allocator (Some a) g) = g"
  by (simp add: wirecall_get_allocator_def)

lemma mem_contract_no_allocator:
  "mem_contract (wirecall_mem_alloc no_allocator) (wirecall_mem_realloc no_allocator) (wirecall_mem_free no_allocator)"
proof
  fix h n p k
  assume h: "heap_ok h"
  show "0 < n \<Longrightarrow> \<exists>p h'. wirecall_mem_alloc no_allocator n h = Some (p, h') \<and> alloc_post n h p h'"
    using c_malloc_post [OF h] by (simp add: wirecall_mem_alloc_def no_allocator_def)
  show "0 < n \<Longrightarrow> \<exists>p h'. wirecall_mem_realloc no_allocator 0 n h = Some (p, h') \<and> alloc_post n h p h'"
    using c_malloc_post [OF h] by (simp add: wirecall_mem_realloc_def no_allocator_def c_realloc_def)
  show "0 < n \<Longrightarrow> hp_size h p = Some k \<Longrightarrow>
      \<exists>q h'. wirecall_mem_realloc no_allocator p n h = Some (q, h') \<and> realloc_post p k n h q h'"
    using c_realloc_post [OF h] by (simp add: wirecall_mem_realloc_def no_allocator_def)
  show "hp_size h p \<noteq> None \<Longrightarrow> \<exists>h'. wirecall_mem_free no_allocator p h = Some h' \<and> free_post h p h'"
    using c_free_post [OF h, of p] heap_ok_live_pos [OF h, of p]
    by (auto simp: wirecall_mem_free_def no_allocator_def)
qed (simp add: wirecall_mem_free_def)

lemma mem_contract_hook:
  assumes "hook_ok a"
  shows "mem_contract (wirecall_mem_alloc a) (wirecall_mem_realloc a) (wirecall_mem_free a)"
proof
  fix h n p k
  assume h: "heap_ok h"
  show "0 < n \<Longrightarrow> \<exists>p h'. wirecall_mem_alloc a n h = Some (p, h') \<and> alloc_post n h p h'"
    using assms h by (auto simp: wirecall_mem_alloc_def hook_ok_def)
  show "0 < n \<Longrightarrow> \<exists>p h'. wirecall_mem_realloc a 0 n h = Some (p, h') \<and> alloc_post n h p h'"
    using assms h by (auto simp: wirecall_mem_realloc_def hook_ok_def)
  show "0 < n \<Longrightarrow> hp_size h p = Some k \<Longrightarrow>
      \<exists>q h'. wirecall_mem_realloc a p n h = Some (q, h') \<and> realloc_post p k n h q h'"
    using assms h by (auto simp: wirecall_mem_realloc_def hook_ok_def)
  show "hp_size h p \<noteq> None \<Longrightarrow> \<exists>h'. wirecall_mem_free a p h = Some h' \<and> free_post h p h'"
    using assms h heap_ok_live_pos [OF h, of p] by (auto simp: wirecall_mem_free_def hook_ok_def)
qed (simp add: wirecall_mem_free_def)

lemma mem_contract_ok:
  "mem_ok g \<Longrightarrow> mem_contract (wirecall_mem_alloc g) (wirecall_mem_realloc g) (wirecall_mem_free g)"
  using mem_contract_no_allocator mem_contract_hook by (auto simp: mem_ok_def)

lemma hook_ok_embed: "hook_ok (embed_allocator stats)"
proof -
  have "\<exists>p h'. embed_alloc stats n h = Some (p, h') \<and> alloc_post n h p h'" if "heap_ok h" for h n
    using that c_malloc_post [of "h\<lparr>hp_words := w\<rparr>" for w] by (simp add: embed_alloc_def)
  moreover have "\<exists>p h'. embed_realloc stats 0 n h = Some (p, h') \<and> alloc_post n h p h'" if "heap_ok h" for h n
    using that c_malloc_post [of "h\<lparr>hp_words := w\<rparr>" for w] by (simp add: embed_realloc_def c_realloc_def)
  moreover have "\<exists>q h'. embed_realloc stats p n h = Some (q, h') \<and> realloc_post p k n h q h'"
    if "heap_ok h" "hp_size h p = Some k" for h n p k
    using that c_realloc_post [of "h\<lparr>hp_words := w\<rparr>" for w] by (simp add: embed_realloc_def)
  moreover have "\<exists>h'. embed_free stats p h = Some h' \<and> free_post h p h'"
    if "heap_ok h" "hp_size h p \<noteq> None" for h p
    using that c_free_post [of "h\<lparr>hp_words := w\<rparr>" p for w] by (simp add: embed_free_def)
  ultimately show ?thesis by (simp add: hook_ok_def embed_allocator_def)
qed

interpretation libc_mem: mem_contract "wirecall_mem_alloc no_allocator" "wirecall_mem_realloc no_allocator"
    "wirecall_mem_free no_allocator"
  by (rule mem_contract_no_allocator)

interpretation embed_mem: mem_contract "wirecall_mem_alloc (embed_allocator stats)"
    "wirecall_mem_realloc (embed_allocator stats)" "wirecall_mem_free (embed_allocator stats)" for stats
  by (rule mem_contract_hook [OF hook_ok_embed])

section \<open>Ownership\<close>

text \<open>
  The blocks of \<open>P\<close> keep their size and contents; and \<open>heap_owns B h0 h\<close>: since \<open>h0\<close> exactly the
  blocks \<open>B\<close> have been added, and what was live in \<open>h0\<close> is untouched.  A component that ends
  with \<open>heap_owns {} h0 h\<close> has leaked nothing.
\<close>

definition live :: "heap \<Rightarrow> nat set" where
  "live h = {p. hp_size h p \<noteq> None}"

definition heap_keep :: "nat set \<Rightarrow> heap \<Rightarrow> heap \<Rightarrow> bool" where
  "heap_keep P h h' \<longleftrightarrow> (\<forall>q\<in>P. hp_size h' q = hp_size h q \<and> hp_bytes h' q = hp_bytes h q)"

definition heap_owns :: "nat set \<Rightarrow> heap \<Rightarrow> heap \<Rightarrow> bool" where
  "heap_owns B h0 h \<longleftrightarrow> heap_ok h \<and> B \<inter> live h0 = {} \<and> live h = live h0 \<union> B \<and> heap_keep (live h0) h0 h"

lemma live_iff: "p \<in> live h \<longleftrightarrow> hp_size h p \<noteq> None"
  by (simp add: live_def)

lemma heap_keep_mono: "heap_keep P h h' \<Longrightarrow> Q \<subseteq> P \<Longrightarrow> heap_keep Q h h'"
  by (auto simp: heap_keep_def)

lemma heap_keep_trans: "heap_keep P h h' \<Longrightarrow> heap_keep P h' h'' \<Longrightarrow> heap_keep P h h''"
  by (simp add: heap_keep_def)

lemma heap_keep_refl [simp]: "heap_keep P h h"
  by (simp add: heap_keep_def)

lemma heap_owns_refl: "heap_ok h \<Longrightarrow> heap_owns {} h h"
  by (simp add: heap_owns_def)

lemma heap_owns_ok: "heap_owns B h0 h \<Longrightarrow> heap_ok h"
  by (simp add: heap_owns_def)

lemma heap_owns_live: "heap_owns B h0 h \<Longrightarrow> p \<in> B \<Longrightarrow> hp_size h p \<noteq> None"
  by (auto simp: heap_owns_def live_def)

lemma heap_owns_not_null: "heap_owns B h0 h \<Longrightarrow> 0 \<notin> B"
  using heap_owns_live heap_owns_ok by fastforce

lemma heap_owns_keep: "heap_owns B h0 h \<Longrightarrow> heap_keep (live h0) h0 h"
  by (simp add: heap_owns_def)

lemma heap_owns_trans:
  assumes "heap_owns B h0 h" "heap_owns C h h'"
  shows "heap_owns (B \<union> C) h0 h'"
  using assms by (auto simp: heap_owns_def heap_keep_def)

lemma heap_owns_same: "heap_owns {} h0 h \<Longrightarrow> heap_same h0 h"
  by (fastforce simp: heap_owns_def heap_keep_def heap_same_def live_def fun_eq_iff)

lemma alloc_post_keep: "alloc_post n h p h' \<Longrightarrow> heap_keep (live h) h h'"
  unfolding heap_keep_def
proof
  fix q
  assume "alloc_post n h p h'" "q \<in> live h"
  then show "hp_size h' q = hp_size h q \<and> hp_bytes h' q = hp_bytes h q"
    by (cases "q = p") (auto simp: heap_post_defs live_def split: if_splits)
qed

lemma alloc_post_ok: "alloc_post n h p h' \<Longrightarrow> heap_ok h'"
  by (simp add: alloc_post_def)

lemma alloc_post_owns: "alloc_post n h p h' \<Longrightarrow> heap_owns (if p = 0 then {} else {p}) h h'"
  using alloc_post_keep [of n h p h']
  by (auto simp: heap_owns_def alloc_post_def heap_same_def heap_same_but_def live_def split: if_splits)

lemma realloc_post_keep: "realloc_post p k n h q h' \<Longrightarrow> heap_keep (live h - {p}) h h'"
  by (auto simp: heap_post_defs heap_keep_def live_def fun_eq_iff split: if_splits)

lemma free_post_keep: "free_post h p h' \<Longrightarrow> heap_keep (live h - {p}) h h'"
  by (auto simp: heap_post_defs heap_keep_def live_def fun_eq_iff)

lemma heap_owns_realloc:
  assumes "heap_owns B h0 h" "p \<in> B" "realloc_post p k n h q h'"
  shows "if q = 0 then heap_owns B h0 h' else heap_owns (insert q (B - {p})) h0 h' \<and> (q = p \<or> q \<notin> B)"
proof -
  have disj: "B \<inter> live h0 = {}" and lv: "live h = live h0 \<union> B" and kp: "heap_keep (live h0) h0 h"
    using assms(1) by (simp_all add: heap_owns_def)
  have keep: "heap_keep (live h0) h0 h'"
    using kp heap_keep_mono [OF realloc_post_keep [OF assms(3)], of "live h0"] disj lv assms(2)
    by (blast intro: heap_keep_trans)
  show ?thesis
  proof (cases "q = 0")
    case True
    then show ?thesis using assms keep disj lv by (auto simp: heap_owns_def realloc_post_def heap_same_def live_def)
  next
    case False
    have eq: "hp_size h' r = (if r = q then Some n else if r = p then None else hp_size h r)" for r
      using False assms(3) by (auto simp: realloc_post_def)
    have new: "q = p \<or> q \<notin> live h" using False assms(3) by (auto simp: realloc_post_def live_def)
    have "live h' = insert q (live h - {p})"
      by (auto simp: live_def eq)
    then show ?thesis using False assms(2,3) keep disj lv new by (auto simp: heap_owns_def realloc_post_def)
  qed
qed

lemma heap_owns_free:
  assumes "heap_owns B h0 h" "p \<in> B" "free_post h p h'"
  shows "heap_owns (B - {p}) h0 h'"
proof -
  have disj: "B \<inter> live h0 = {}" and lv: "live h = live h0 \<union> B" and kp: "heap_keep (live h0) h0 h"
    using assms(1) by (simp_all add: heap_owns_def)
  have "heap_keep (live h0) h0 h'"
    using kp heap_keep_mono [OF free_post_keep [OF assms(3)], of "live h0"] disj lv assms(2)
    by (blast intro: heap_keep_trans)
  moreover have "hp_size h' q = (if q = p then None else hp_size h q)" for q
    using assms(3) by (auto simp: free_post_def heap_same_but_def)
  then have "live h' = live h - {p}"
    by (auto simp: live_def)
  ultimately show ?thesis using assms(2,3) disj lv by (auto simp: heap_owns_def free_post_def)
qed

lemma hp_write_Some:
  assumes "hp_size h p = Some k" "off + length bs \<le> k"
  shows "\<exists>b. hp_write p off bs h = Some (h\<lparr>hp_bytes := b\<rparr>) \<and> (\<forall>q. q \<noteq> p \<longrightarrow> b q = hp_bytes h q) \<and>
    map (b p) [off..<off + length bs] = bs \<and> (\<forall>i. i < off \<or> off + length bs \<le> i \<longrightarrow> b p i = hp_bytes h p i)"
proof -
  let ?b = "(hp_bytes h)(p := (\<lambda>i. if off \<le> i \<and> i < off + length bs then bs ! (i - off) else hp_bytes h p i))"
  have "hp_write p off bs h = Some (h\<lparr>hp_bytes := ?b\<rparr>)"
    using assms by (simp add: hp_write_def)
  moreover have "map (?b p) [off..<off + length bs] = bs"
    by (rule nth_equalityI) auto
  ultimately show ?thesis
    by (intro exI [of _ ?b]) auto
qed

lemma heap_owns_write:
  assumes "heap_owns B h0 h" "p \<in> B" "\<forall>q. q \<noteq> p \<longrightarrow> b q = hp_bytes h q"
  shows "heap_owns B h0 (h\<lparr>hp_bytes := b\<rparr>)"
proof -
  have "p \<notin> live h0" using assms(1,2) by (auto simp: heap_owns_def)
  then have "heap_keep (live h0) h0 (h\<lparr>hp_bytes := b\<rparr>)"
    using assms(1,3) by (auto simp: heap_owns_def heap_keep_def)
  then show ?thesis using assms(1) by (simp add: heap_owns_def live_def)
qed

text \<open>
  Taking the blocks \<open>A\<close> out of the picture: what owns them can be looked at as if it had been
  allocated last, and once they are freed, what else was owned is left.
\<close>

definition heap_minus :: "nat set \<Rightarrow> heap \<Rightarrow> heap" where
  "heap_minus A h = h\<lparr>hp_size := (\<lambda>p. if p \<in> A then None else hp_size h p)\<rparr>"

lemma live_heap_minus [simp]: "live (heap_minus A h) = live h - A"
  by (auto simp: heap_minus_def live_def)

lemma heap_minus_sel [simp]: "hp_bytes (heap_minus A h) = hp_bytes h"
  "hp_size (heap_minus A h) p = (if p \<in> A then None else hp_size h p)"
  by (simp_all add: heap_minus_def)

lemma heap_minus_owns: "heap_ok h \<Longrightarrow> A \<subseteq> live h \<Longrightarrow> heap_owns A (heap_minus A h) h"
  by (auto simp: heap_owns_def heap_keep_def)

lemma heap_owns_release:
  assumes "heap_owns (A \<union> B) h0 h" "A \<inter> B = {}" "heap_owns {} (heap_minus A h) h'"
  shows "heap_owns B h0 h'" "heap_keep (live h - A) h h'"
proof -
  show keep: "heap_keep (live h - A) h h'"
    using assms(3) by (auto simp: heap_owns_def heap_keep_def)
  have l: "live h = live h0 \<union> (A \<union> B)" "(A \<union> B) \<inter> live h0 = {}" "heap_keep (live h0) h0 h"
    using assms(1) by (simp_all add: heap_owns_def)
  have "live h0 \<subseteq> live h - A" using l(1,2) by blast
  then have "heap_keep (live h0) h0 h'"
    using l(3) heap_keep_mono [OF keep] heap_keep_trans by blast
  moreover have "live h' = live h0 \<union> B"
    using assms(2,3) l(1,2) by (auto simp: heap_owns_def)
  ultimately show "heap_owns B h0 h'"
    using assms(3) l(2) by (auto simp: heap_owns_def)
qed

lemma heap_owns_change:
  assumes "heap_owns (A \<union> B) h0 h" "heap_ok h'" "heap_keep (live h - A) h h'" "live h' = live h - A \<union> A'"
    and "A \<inter> B = {}" "(A' - A) \<inter> live h = {}"
  shows "heap_owns (A' \<union> B) h0 h'" "A' \<inter> B = {}"
proof -
  have l: "live h = live h0 \<union> (A \<union> B)" "(A \<union> B) \<inter> live h0 = {}" "heap_keep (live h0) h0 h"
    using assms(1) by (simp_all add: heap_owns_def)
  have "live h0 \<subseteq> live h - A" using l(1,2) by blast
  then have "heap_keep (live h0) h0 h'"
    using l(3) heap_keep_mono [OF assms(3)] heap_keep_trans by blast
  then show "heap_owns (A' \<union> B) h0 h'" "A' \<inter> B = {}"
    using assms(2,4,5,6) l(1,2) by (auto simp: heap_owns_def)
qed

section \<open>The memory of the library\<close>

text \<open>
  The allocation functions with an installed allocator \<open>g\<close>.  In a heap that satisfies
  \<open>reliable\<close> no allocation fails; with \<open>\<lambda>_. False\<close> for \<open>reliable\<close> this promises nothing, so that
  the facts proved here also hold for allocators that may fail at any time.
\<close>

locale library_memory =
  fixes g :: wirecall_allocator and reliable :: "heap \<Rightarrow> bool"
  assumes mem: "mem_ok g"
    and alloc_reliable: "reliable h \<Longrightarrow> heap_ok h \<Longrightarrow> 0 < n \<Longrightarrow>
           wirecall_mem_alloc g n h = Some (p, h') \<Longrightarrow> p \<noteq> 0 \<and> reliable h'"
    and realloc_reliable: "reliable h \<Longrightarrow> heap_ok h \<Longrightarrow> 0 < n \<Longrightarrow> p = 0 \<or> hp_size h p \<noteq> None \<Longrightarrow>
           wirecall_mem_realloc g p n h = Some (q, h') \<Longrightarrow> q \<noteq> 0 \<and> reliable h'"
    and free_reliable: "reliable h \<Longrightarrow> wirecall_mem_free g p h = Some h' \<Longrightarrow> reliable h'"
    and write_reliable: "reliable h \<Longrightarrow> reliable (h\<lparr>hp_bytes := b\<rparr>)"

sublocale library_memory \<subseteq> mem_contract "wirecall_mem_alloc g" "wirecall_mem_realloc g" "wirecall_mem_free g"
  by (rule mem_contract_ok [OF mem])

context library_memory
begin

lemma alloc_cases:
  assumes "heap_ok h" "0 < n"
  obtains (fail) h' where "wirecall_mem_alloc g n h = Some (0, h')" "heap_owns {} h h'" "\<not> reliable h"
  | (fresh) p h' where "wirecall_mem_alloc g n h = Some (p, h')" "p \<noteq> 0" "heap_owns {p} h h'" "hp_size h' p = Some n"
      "p \<notin> live h" "reliable h \<longrightarrow> reliable h'"
proof -
  obtain p h' where p: "wirecall_mem_alloc g n h = Some (p, h')" "alloc_post n h p h'"
    using alloc_law [OF assms] by blast
  then have "reliable h \<Longrightarrow> p \<noteq> 0 \<and> reliable h'"
    using alloc_reliable assms by blast
  then show ?thesis
    using p alloc_post_owns [OF p(2)] fail [of h'] fresh [of p h']
    by (cases "p = 0") (auto simp: alloc_post_def live_def)
qed

lemma realloc_cases:
  assumes "heap_ok h" "0 < n" "p = 0 \<or> hp_size h p = Some k"
  obtains (fail) h' where "wirecall_mem_realloc g p n h = Some (0, h')" "heap_ok h'" "heap_same h h'" "\<not> reliable h"
  | (fresh) q h' where "wirecall_mem_realloc g p n h = Some (q, h')" "q \<noteq> 0" "p = 0" "alloc_post n h q h'"
      "reliable h \<longrightarrow> reliable h'"
  | (grown) q h' where "wirecall_mem_realloc g p n h = Some (q, h')" "q \<noteq> 0" "p \<noteq> 0" "realloc_post p k n h q h'"
      "reliable h \<longrightarrow> reliable h'"
proof -
  have R: "q \<noteq> 0 \<and> reliable h'" if "reliable h" "wirecall_mem_realloc g p n h = Some (q, h')" for q h'
    using realloc_reliable [OF that(1) assms(1,2) _ that(2)] assms(3) by auto
  show ?thesis
  proof (cases "p = 0")
    case True
    obtain q h' where q: "wirecall_mem_realloc g p n h = Some (q, h')" "alloc_post n h q h'"
      using realloc_null_law [OF assms(1,2)] True by blast
    show ?thesis
    proof (cases "q = 0")
      case True
      then show ?thesis using q R by (intro fail) (auto simp: alloc_post_def)
    next
      case False
      then show ?thesis using q R \<open>p = 0\<close> by (intro fresh) auto
    qed
  next
    case False
    obtain q h' where q: "wirecall_mem_realloc g p n h = Some (q, h')" "realloc_post p k n h q h'"
      using realloc_law [OF assms(1,2)] False assms(3) by blast
    show ?thesis
    proof (cases "q = 0")
      case True
      then show ?thesis using q R by (intro fail) (auto simp: realloc_post_def)
    next
      case nz: False
      then show ?thesis using q R False by (intro grown) auto
    qed
  qed
qed

lemma free_owned:
  assumes "heap_owns B h0 h" "p \<in> B"
  obtains h' where "wirecall_mem_free g p h = Some h'" "heap_owns (B - {p}) h0 h'" "heap_keep (live h - {p}) h h'"
  using free_law [of h p] heap_owns_ok [OF assms(1)] heap_owns_live [OF assms]
    heap_owns_free [OF assms] free_post_keep by blast

lemma calloc_cases:
  assumes "heap_ok h" "0 < n" "n \<le> SIZE_MAX"
  obtains (fail) h' where "wirecall_mem_calloc g 1 n h = Some (0, h')" "heap_owns {} h h'" "\<not> reliable h"
  | (fresh) p h' where "wirecall_mem_calloc g 1 n h = Some (p, h')" "p \<noteq> 0" "heap_owns {p} h h'" "hp_size h' p = Some n"
      "p \<notin> live h" "reliable h \<longrightarrow> reliable h'" "\<forall>i<n. hp_bytes h' p i = 0"
  using assms(1,2)
proof (cases rule: alloc_cases)
  case fail': (fail h')
  then show ?thesis using assms(3) by (intro fail [of h']) (auto simp: wirecall_mem_calloc_def)
next
  case fresh': (fresh p h')
  obtain b where b: "hp_write p 0 (replicate n 0) h' = Some (h'\<lparr>hp_bytes := b\<rparr>)" "\<forall>q. q \<noteq> p \<longrightarrow> b q = hp_bytes h' q"
    "map (b p) [0..<n] = replicate n 0"
    using hp_write_Some [OF fresh'(4), of 0 "replicate n 0"] by auto
  have "b p i = 0" if "i < n" for i
    using arg_cong [OF b(3), of "\<lambda>xs. xs ! i"] that by simp
  then show ?thesis using fresh' b assms(3) heap_owns_write [OF fresh'(3) _ b(2)] write_reliable
    by (intro fresh [of p "h'\<lparr>hp_bytes := b\<rparr>"]) (auto simp: wirecall_mem_calloc_def)
qed

end

lemma library_memory_any: "mem_ok g \<Longrightarrow> library_memory g (\<lambda>_. False)"
  by unfold_locales auto

lemma mem_ok_no_allocator [simp]: "mem_ok no_allocator"
  by (simp add: mem_ok_def)

lemma mem_ok_embed [simp]: "mem_ok (embed_allocator stats)"
  by (simp add: mem_ok_def hook_ok_embed)

text \<open>With the C library's allocator and no failures in store, every allocation succeeds.\<close>

definition never_fails :: "heap \<Rightarrow> bool" where
  "never_fails h \<longleftrightarrow> (\<forall>t. \<not> hp_fail h t)"

interpretation plain_memory: library_memory no_allocator never_fails
  by (unfold_locales, rule mem_ok_no_allocator)
    (auto simp: never_fails_def wirecall_mem_alloc_def wirecall_mem_realloc_def wirecall_mem_free_def no_allocator_def
      c_malloc_def c_realloc_def c_free_def heap_ok_def Let_def split: if_splits option.splits)

interpretation embed_memory: library_memory "embed_allocator stats" never_fails for stats
  by (unfold_locales, rule mem_ok_embed)
    (auto simp: never_fails_def wirecall_mem_alloc_def wirecall_mem_realloc_def wirecall_mem_free_def
      embed_allocator_def embed_alloc_def embed_realloc_def embed_free_def
      c_malloc_def c_realloc_def c_free_def heap_ok_def Let_def split: if_splits option.splits)

text \<open>A block from \<open>calloc\<close> when nothing fails.\<close>

definition calloced :: "nat \<Rightarrow> heap \<Rightarrow> heap" where
  "calloced n h = h\<lparr>hp_tick := Suc (hp_tick h), hp_size := (hp_size h)(hp_next h := Some n), hp_next := Suc (hp_next h),
     hp_bytes := (hp_bytes h)(hp_next h := (\<lambda>i. if i < n then 0 else hp_bytes h (hp_next h) i))\<rparr>"

lemma calloced_sel [simp]:
  "hp_size (calloced n h) = (hp_size h)(hp_next h := Some n)" "hp_next (calloced n h) = Suc (hp_next h)"
  "hp_tick (calloced n h) = Suc (hp_tick h)" "hp_fail (calloced n h) = hp_fail h"
  "never_fails (calloced n h) = never_fails h"
  by (simp_all add: calloced_def never_fails_def)

lemma plain_calloc:
  assumes "\<not> hp_fail h (hp_tick h)" "0 < n" "n \<le> SIZE_MAX" "0 < hp_next h"
  shows "wirecall_mem_calloc no_allocator 1 n h = Some (hp_next h, calloced n h)"
  using assms
  by (simp add: wirecall_mem_calloc_def wirecall_mem_alloc_def no_allocator_def c_malloc_def
        hp_write_def calloced_def Let_def cong: if_cong)

lemma plain_calloc_fail:
  assumes "hp_fail h (hp_tick h)" "0 < n" "n \<le> SIZE_MAX"
  shows "wirecall_mem_calloc no_allocator 1 n h = Some (0, h\<lparr>hp_tick := Suc (hp_tick h)\<rparr>)"
  using assms by (simp add: wirecall_mem_calloc_def wirecall_mem_alloc_def no_allocator_def c_malloc_def)

end
