(* ===== verification/Payload.thy ===== *)
theory Payload
  imports Protocol Memory
begin

text \<open>
  Payloads: \<^verbatim>\<open>src/payload.c\<close>.  A writer appends tagged values to a growing buffer; the
  decoder turns a buffer back into an array of values that ends with a sentinel.

  The writer's buffer and the copies of strings and byte strings are blocks of the heap.
  The array of values is a block of the heap too; its cells are listed next to its address,
  up to the first one that has never been written, and every access to a cell is checked
  against the size of the block.  A \<open>double\<close> is its 64 bits.  The calls to the trace
  counters, which nothing else reads, are left out.
\<close>

section \<open>Types\<close>

record wirecall_writer =
  w_data :: nat
  w_len :: nat
  w_cap :: nat

definition zero_writer :: wirecall_writer where
  "zero_writer = \<lparr>w_data = 0, w_len = 0, w_cap = 0\<rparr>"

datatype wirecall_value =
    V_NULL
  | V_BOOL bool
  | V_I64 u64
  | V_U64 u64
  | V_F64 u64
  | V_BYTES nat u32
  | V_STRING nat u32
  | V_SENTINEL

definition WIRECALL_TYPE_NULL :: u8 where "WIRECALL_TYPE_NULL = 0"
definition WIRECALL_TYPE_BOOL :: u8 where "WIRECALL_TYPE_BOOL = 1"
definition WIRECALL_TYPE_I64 :: u8 where "WIRECALL_TYPE_I64 = 2"
definition WIRECALL_TYPE_U64 :: u8 where "WIRECALL_TYPE_U64 = 3"
definition WIRECALL_TYPE_F64 :: u8 where "WIRECALL_TYPE_F64 = 4"
definition WIRECALL_TYPE_BYTES :: u8 where "WIRECALL_TYPE_BYTES = 5"
definition WIRECALL_TYPE_STRING :: u8 where "WIRECALL_TYPE_STRING = 6"

lemmas type_defs = WIRECALL_TYPE_NULL_def WIRECALL_TYPE_BOOL_def WIRECALL_TYPE_I64_def WIRECALL_TYPE_U64_def
  WIRECALL_TYPE_F64_def WIRECALL_TYPE_BYTES_def WIRECALL_TYPE_STRING_def

section \<open>The writer\<close>

text \<open>The loop that doubles the capacity.\<close>

partial_function (option) writer_grow :: "nat \<Rightarrow> nat \<Rightarrow> nat option" where
  "writer_grow cap need =
     (if cap < need then
        (if cap > WIRECALL_MAX_PAYLOAD_SIZE div 2 then Some WIRECALL_MAX_PAYLOAD_SIZE
         else writer_grow (sz_mul cap 2) need)
      else Some cap)"

definition writer_reserve ::
  "wirecall_allocator \<Rightarrow> wirecall_writer option \<Rightarrow> nat \<Rightarrow> heap \<Rightarrow> (int \<times> wirecall_writer option \<times> heap) option" where
  "writer_reserve g writer extra h =
     (case writer of None \<Rightarrow> Some (-1, writer, h)
      | Some w \<Rightarrow>
          if extra > WIRECALL_MAX_PAYLOAD_SIZE \<or> w_len w > WIRECALL_MAX_PAYLOAD_SIZE - extra
          then Some (-1, writer, h)
          else let need = w_len w + extra
               in if need \<le> w_cap w then Some (0, writer, h)
               else do {
                 cap \<leftarrow> writer_grow (if w_cap w \<noteq> 0 then w_cap w else 64) need;
                 (nxt, h) \<leftarrow> wirecall_mem_realloc g (w_data w) cap h;
                 if nxt = 0 then Some (-1, writer, h)
                 else Some (0, Some (w\<lparr>w_data := nxt, w_cap := cap\<rparr>), h) })"

text \<open>\<open>data\<close> is the object that the pointer of the source points to; \<open>len\<close> bytes of it are copied.\<close>

definition writer_push ::
  "wirecall_allocator \<Rightarrow> wirecall_writer option \<Rightarrow> u8 list \<Rightarrow> nat \<Rightarrow> heap \<Rightarrow>
     (int \<times> wirecall_writer option \<times> heap) option" where
  "writer_push g writer data len h = do {
     (rc, writer, h) \<leftarrow> writer_reserve g writer len h;
     if rc \<noteq> 0 then Some (-1, writer, h)
     else case writer of None \<Rightarrow> None
       | Some w \<Rightarrow> do {
           h \<leftarrow> (if len > 0
                  then (if len \<le> length data then hp_write (w_data w) (w_len w) (take len data) h else None)
                  else Some h);
           Some (0, Some (w\<lparr>w_len := w_len w + len\<rparr>), h) } }"

definition wirecall_writer_init :: "wirecall_writer option \<Rightarrow> wirecall_writer option" where
  "wirecall_writer_init writer = (case writer of None \<Rightarrow> None | Some _ \<Rightarrow> Some zero_writer)"

definition wirecall_writer_reset :: "wirecall_writer option \<Rightarrow> wirecall_writer option" where
  "wirecall_writer_reset writer = (case writer of None \<Rightarrow> None | Some w \<Rightarrow> Some (w\<lparr>w_len := 0\<rparr>))"

definition wirecall_writer_free ::
  "wirecall_allocator \<Rightarrow> wirecall_writer option \<Rightarrow> heap \<Rightarrow> (wirecall_writer option \<times> heap) option" where
  "wirecall_writer_free g writer h =
     (case writer of None \<Rightarrow> Some (writer, h)
      | Some w \<Rightarrow> do { h \<leftarrow> wirecall_mem_free g (w_data w) h; Some (Some zero_writer, h) })"

definition wirecall_writer_null ::
  "wirecall_allocator \<Rightarrow> wirecall_writer option \<Rightarrow> heap \<Rightarrow> (int \<times> wirecall_writer option \<times> heap) option" where
  "wirecall_writer_null g writer h = writer_push g writer [WIRECALL_TYPE_NULL] 1 h"

definition wirecall_writer_bool ::
  "wirecall_allocator \<Rightarrow> wirecall_writer option \<Rightarrow> bool \<Rightarrow> heap \<Rightarrow> (int \<times> wirecall_writer option \<times> heap) option" where
  "wirecall_writer_bool g writer value h =
     writer_push g writer [WIRECALL_TYPE_BOOL, if value then 1 else 0] 2 h"

text \<open>The nine bytes \<open>data\<close> that the integer and floating point writers fill in.\<close>

definition scalar_data :: "u8 \<Rightarrow> u64 \<Rightarrow> u8 list option" where
  "scalar_data type value = do { data \<leftarrow> wr (replicate 9 0) 0 type; put_u64 data 1 value }"

definition wirecall_writer_i64 ::
  "wirecall_allocator \<Rightarrow> wirecall_writer option \<Rightarrow> u64 \<Rightarrow> heap \<Rightarrow> (int \<times> wirecall_writer option \<times> heap) option" where
  "wirecall_writer_i64 g writer value h = do {
     data \<leftarrow> scalar_data WIRECALL_TYPE_I64 value; writer_push g writer data 9 h }"

definition wirecall_writer_u64 ::
  "wirecall_allocator \<Rightarrow> wirecall_writer option \<Rightarrow> u64 \<Rightarrow> heap \<Rightarrow> (int \<times> wirecall_writer option \<times> heap) option" where
  "wirecall_writer_u64 g writer value h = do {
     data \<leftarrow> scalar_data WIRECALL_TYPE_U64 value; writer_push g writer data 9 h }"

definition wirecall_writer_f64 ::
  "wirecall_allocator \<Rightarrow> wirecall_writer option \<Rightarrow> u64 \<Rightarrow> heap \<Rightarrow> (int \<times> wirecall_writer option \<times> heap) option" where
  "wirecall_writer_f64 g writer bits h = do {
     data \<leftarrow> scalar_data WIRECALL_TYPE_F64 bits; writer_push g writer data 9 h }"

text \<open>The two writers of byte sequences, which differ in the type tag only.\<close>

definition sequence_data :: "u8 \<Rightarrow> u32 \<Rightarrow> u8 list option" where
  "sequence_data type len = do { prefix \<leftarrow> wr (replicate 5 0) 0 type; put_u32 prefix 1 len }"

definition wirecall_writer_bytes ::
  "wirecall_allocator \<Rightarrow> wirecall_writer option \<Rightarrow> u8 list option \<Rightarrow> u32 \<Rightarrow> heap \<Rightarrow>
     (int \<times> wirecall_writer option \<times> heap) option" where
  "wirecall_writer_bytes g writer data len h =
     (if len > 0 \<and> data = None then Some (-1, writer, h)
      else do {
        prefix \<leftarrow> sequence_data WIRECALL_TYPE_BYTES len;
        (rc, writer, h) \<leftarrow> writer_push g writer prefix 5 h;
        if rc \<noteq> 0 then Some (-1, writer, h)
        else writer_push g writer (payload_bytes data) (unat len) h })"

definition wirecall_writer_string ::
  "wirecall_allocator \<Rightarrow> wirecall_writer option \<Rightarrow> u8 list option \<Rightarrow> u32 \<Rightarrow> heap \<Rightarrow>
     (int \<times> wirecall_writer option \<times> heap) option" where
  "wirecall_writer_string g writer data len h =
     (if len > 0 \<and> data = None then Some (-1, writer, h)
      else do {
        prefix \<leftarrow> sequence_data WIRECALL_TYPE_STRING len;
        (rc, writer, h) \<leftarrow> writer_push g writer prefix 5 h;
        if rc \<noteq> 0 then Some (-1, writer, h)
        else writer_push g writer (payload_bytes data) (unat len) h })"

section \<open>Arrays of values\<close>

definition sizeof_value :: nat where
  "sizeof_value = 24"

definition cell_get :: "nat \<Rightarrow> wirecall_value list \<Rightarrow> nat \<Rightarrow> heap \<Rightarrow> wirecall_value option" where
  "cell_get values cells i h =
     (case hp_size h values of None \<Rightarrow> None
      | Some k \<Rightarrow> if (i + 1) * sizeof_value \<le> k \<and> i < length cells then Some (cells ! i) else None)"

definition cell_set ::
  "nat \<Rightarrow> wirecall_value list \<Rightarrow> nat \<Rightarrow> wirecall_value \<Rightarrow> heap \<Rightarrow> wirecall_value list option" where
  "cell_set values cells i v h =
     (case hp_size h values of None \<Rightarrow> None
      | Some k \<Rightarrow>
          if (i + 1) * sizeof_value \<le> k \<and> i \<le> length cells
          then Some (if i < length cells then cells[i := v] else cells @ [v]) else None)"

text \<open>\<open>values_cleanup_loop\<close> is the loop from \<open>i\<close> with \<open>n\<close> elements to go.\<close>

fun values_cleanup_loop ::
  "wirecall_allocator \<Rightarrow> nat \<Rightarrow> wirecall_value list \<Rightarrow> nat \<Rightarrow> nat \<Rightarrow> heap \<Rightarrow> heap option" where
  "values_cleanup_loop g values cells i 0 h = Some h"
| "values_cleanup_loop g values cells i (Suc n) h = do {
     v \<leftarrow> cell_get values cells i h;
     h \<leftarrow> (case v of V_BYTES p _ \<Rightarrow> wirecall_mem_free g p h
           | V_STRING p _ \<Rightarrow> wirecall_mem_free g p h
           | _ \<Rightarrow> Some h);
     values_cleanup_loop g values cells (i + 1) n h }"

definition values_cleanup :: "wirecall_allocator \<Rightarrow> nat \<Rightarrow> wirecall_value list \<Rightarrow> nat \<Rightarrow> heap \<Rightarrow> heap option" where
  "values_cleanup g values cells count h =
     (if values = 0 then Some h else values_cleanup_loop g values cells 0 count h)"

section \<open>The decoder\<close>

text \<open>
  The value at \<open>off\<close>, from \<open>value.type = data[off++]\<close> to the jump to \<open>store\<close> with the value
  and the next offset, or to \<open>malformed\<close> (the inner \<open>None\<close>).
\<close>

definition decode_sequence ::
  "wirecall_allocator \<Rightarrow> u8 list \<Rightarrow> nat \<Rightarrow> u8 \<Rightarrow> nat \<Rightarrow> heap \<Rightarrow> ((wirecall_value \<times> nat) option \<times> heap) option" where
  "decode_sequence g data len type off h =
     (if sz_add off 4 > len then Some (None, h)
      else do {
        value_len \<leftarrow> get_u32 data off;
        let off = sz_add off 4;
        if sz_add off (unat value_len) > len then Some (None, h)
        else do {
          let copy_len = (if type = WIRECALL_TYPE_STRING then sz_add (unat value_len) 1 else unat value_len);
          (copy, h) \<leftarrow> (if copy_len > 0 then wirecall_mem_alloc g copy_len h else Some (0, h));
          if copy_len > 0 \<and> copy = 0 then Some (None, h)
          else do {
            h \<leftarrow> (if value_len > 0
                   then (if off + unat value_len \<le> length data
                         then hp_write copy 0 (take (unat value_len) (drop off data)) h else None)
                   else Some h);
            h \<leftarrow> (if type = WIRECALL_TYPE_STRING then hp_write copy (unat value_len) [0] h else Some h);
            Some (Some (if type = WIRECALL_TYPE_BYTES then V_BYTES copy value_len else V_STRING copy value_len,
                        sz_add off (unat value_len)), h) } } })"

definition decode_value ::
  "wirecall_allocator \<Rightarrow> u8 list \<Rightarrow> nat \<Rightarrow> nat \<Rightarrow> heap \<Rightarrow> ((wirecall_value \<times> nat) option \<times> heap) option" where
  "decode_value g data len off h = do {
     type \<leftarrow> rd data off;
     let off = sz_add off 1;
     if unat type \<ge> 7 then Some (None, h)
     else if type = WIRECALL_TYPE_NULL then Some (Some (V_NULL, off), h)
     else if type = WIRECALL_TYPE_BOOL then
       (if sz_add off 1 > len then Some (None, h)
        else do {
          b \<leftarrow> rd data off;
          if b \<noteq> 0 \<and> b \<noteq> 1 then Some (None, h)
          else Some (Some (V_BOOL (b \<noteq> 0), sz_add off 1), h) })
     else if type = WIRECALL_TYPE_I64 then
       (if sz_add off 8 > len then Some (None, h)
        else do { v \<leftarrow> get_u64 data off; Some (Some (V_I64 v, sz_add off 8), h) })
     else if type = WIRECALL_TYPE_U64 then
       (if sz_add off 8 > len then Some (None, h)
        else do { v \<leftarrow> get_u64 data off; Some (Some (V_U64 v, sz_add off 8), h) })
     else if type = WIRECALL_TYPE_F64 then
       (if sz_add off 8 > len then Some (None, h)
        else do { v \<leftarrow> get_u64 data off; Some (Some (V_F64 v, sz_add off 8), h) })
     else decode_sequence g data len type off h }"

text \<open>Growth of the array when it is full; the inner \<open>None\<close> is the failed reallocation.\<close>

definition decode_grow ::
  "wirecall_allocator \<Rightarrow> nat \<Rightarrow> wirecall_value list \<Rightarrow> nat \<Rightarrow> nat \<Rightarrow> heap \<Rightarrow>
     ((nat \<times> wirecall_value list \<times> nat) option \<times> heap) option" where
  "decode_grow g values cells count cap h =
     (if count = cap then do {
        let next_cap = (if cap \<noteq> 0 then sz_mul cap 2 else 4);
        (nxt, h) \<leftarrow> wirecall_mem_realloc g values (sz_mul (sz_add next_cap 1) sizeof_value) h;
        if nxt = 0 then Some (None, h)
        else do {
          cells \<leftarrow> cell_set nxt cells count V_SENTINEL h;
          Some (Some (nxt, cells, next_cap), h) } }
      else Some (Some (values, cells, cap), h))"

definition decode_abort ::
  "wirecall_allocator \<Rightarrow> nat \<Rightarrow> wirecall_value list \<Rightarrow> nat \<Rightarrow> heap \<Rightarrow> heap option" where
  "decode_abort g values cells count h = do {
     h \<leftarrow> values_cleanup g values cells count h;
     wirecall_mem_free g values h }"

text \<open>The loop; its result is the error code, the array and the number of values in it.\<close>

partial_function (option) decode_loop ::
  "wirecall_allocator \<Rightarrow> u8 list \<Rightarrow> nat \<Rightarrow> nat \<Rightarrow> wirecall_value list \<Rightarrow> nat \<Rightarrow> nat \<Rightarrow> nat \<Rightarrow> heap \<Rightarrow>
     (int \<times> (nat \<times> wirecall_value list) \<times> nat \<times> heap) option" where
  "decode_loop g data len values cells count cap off h =
     (if off < len then do {
        (grown, h) \<leftarrow> decode_grow g values cells count cap h;
        (case grown of
           None \<Rightarrow> do { h \<leftarrow> decode_abort g values cells count h; Some (-1, (values, cells), count, h) }
         | Some (values, cells, cap) \<Rightarrow> do {
             (r, h) \<leftarrow> decode_value g data len off h;
             (case r of
                None \<Rightarrow> do { h \<leftarrow> decode_abort g values cells count h; Some (-1, (values, cells), count, h) }
              | Some (v, off) \<Rightarrow> do {
                  cells \<leftarrow> cell_set values cells count v h;
                  cells \<leftarrow> cell_set values cells (count + 1) V_SENTINEL h;
                  decode_loop g data len values cells (count + 1) cap off h }) }) }
      else Some (0, (values, cells), count, h))"

definition wirecall_payload_decode ::
  "wirecall_allocator \<Rightarrow> u8 list option \<Rightarrow> nat \<Rightarrow> (nat \<times> wirecall_value list) option \<Rightarrow> nat option \<Rightarrow> heap \<Rightarrow>
     (int \<times> (nat \<times> wirecall_value list) option \<times> nat option \<times> heap) option" where
  "wirecall_payload_decode g data len out_values out_count h =
     (if data = None \<and> len > 0 \<or> out_values = None \<or> out_count = None then Some (-1, out_values, out_count, h)
      else do {
        (rc, arr, count, h) \<leftarrow> decode_loop g (payload_bytes data) len 0 [] 0 0 0 h;
        Some (if rc = 0 then (rc, Some arr, Some count, h) else (rc, out_values, out_count, h)) })"

text \<open>The search for the sentinel in \<open>wirecall_values_free\<close>.\<close>

partial_function (option) values_count :: "nat \<Rightarrow> wirecall_value list \<Rightarrow> nat \<Rightarrow> heap \<Rightarrow> nat option" where
  "values_count values cells count h =
     Option.bind (cell_get values cells count h)
       (\<lambda>v. if v \<noteq> V_SENTINEL then values_count values cells (count + 1) h else Some count)"

definition wirecall_values_free :: "wirecall_allocator \<Rightarrow> nat \<Rightarrow> wirecall_value list \<Rightarrow> heap \<Rightarrow> heap option" where
  "wirecall_values_free g values cells h = do {
     h \<leftarrow> (if values \<noteq> 0 then do {
            count \<leftarrow> values_count values cells 0 h;
            values_cleanup g values cells count h }
          else Some h);
     wirecall_mem_free g values h }"

end
