(* ===== verification/Payload_Spec.thy ===== *)
theory Payload_Spec
  imports Payload
begin

text \<open>
  What a payload means: the values it stands for, their encoding and a grammar, on byte lists and
  without memory.  The encoding and the parser are inverse to each other, so that a payload
  has at most one reading and a value exactly one encoding.
\<close>

datatype payload_value =
    P_NULL
  | P_BOOL bool
  | P_I64 u64
  | P_U64 u64
  | P_F64 u64
  | P_BYTES "u8 list"
  | P_STRING "u8 list"

fun encode_value :: "payload_value \<Rightarrow> u8 list" where
  "encode_value P_NULL = [0]"
| "encode_value (P_BOOL b) = [1, if b then 1 else 0]"
| "encode_value (P_I64 v) = 2 # be64 v"
| "encode_value (P_U64 v) = 3 # be64 v"
| "encode_value (P_F64 v) = 4 # be64 v"
| "encode_value (P_BYTES bs) = 5 # be32 (word_of_nat (length bs)) @ bs"
| "encode_value (P_STRING bs) = 6 # be32 (word_of_nat (length bs)) @ bs"

definition encode_payload :: "payload_value list \<Rightarrow> u8 list" where
  "encode_payload vs = concat (map encode_value vs)"

text \<open>The values that have an encoding: the length of a sequence is a 32-bit field.\<close>

fun value_fits :: "payload_value \<Rightarrow> bool" where
  "value_fits (P_BYTES bs) = (length bs < 2 ^ 32)"
| "value_fits (P_STRING bs) = (length bs < 2 ^ 32)"
| "value_fits _ = True"

definition of_be32 :: "u8 list \<Rightarrow> u32" where
  "of_be32 bs = push_bit 24 (ucast (bs ! 0)) OR push_bit 16 (ucast (bs ! 1)) OR push_bit 8 (ucast (bs ! 2))
     OR ucast (bs ! 3)"

definition parse_scalar :: "(u64 \<Rightarrow> payload_value) \<Rightarrow> u8 list \<Rightarrow> (payload_value \<times> u8 list) option" where
  "parse_scalar f bs = (if length bs < 8 then None else Some (f (shift_bytes (take 8 bs) 0), drop 8 bs))"

definition parse_sequence :: "(u8 list \<Rightarrow> payload_value) \<Rightarrow> u8 list \<Rightarrow> (payload_value \<times> u8 list) option" where
  "parse_sequence f bs =
     (if length bs < 4 then None
      else let n = unat (of_be32 (take 4 bs))
           in if length bs < 4 + n then None else Some (f (take n (drop 4 bs)), drop (4 + n) bs))"

definition parse_bool :: "u8 list \<Rightarrow> (payload_value \<times> u8 list) option" where
  "parse_bool bs = (case bs of [] \<Rightarrow> None
     | b # r \<Rightarrow> if b = 0 then Some (P_BOOL False, r) else if b = 1 then Some (P_BOOL True, r) else None)"

fun parse_value :: "u8 list \<Rightarrow> (payload_value \<times> u8 list) option" where
  "parse_value [] = None"
| "parse_value (t # bs) =
     (if t = 0 then Some (P_NULL, bs)
      else if t = 1 then parse_bool bs
      else if t = 2 then parse_scalar P_I64 bs
      else if t = 3 then parse_scalar P_U64 bs
      else if t = 4 then parse_scalar P_F64 bs
      else if t = 5 then parse_sequence P_BYTES bs
      else if t = 6 then parse_sequence P_STRING bs
      else None)"

lemma parse_value_shorter: "parse_value bs = Some (v, r) \<Longrightarrow> length r < length bs"
  by (cases bs) (auto simp: parse_scalar_def parse_sequence_def parse_bool_def Let_def split: if_splits list.splits)

function parse_payload :: "u8 list \<Rightarrow> payload_value list option" where
  "parse_payload bs =
     (if bs = [] then Some []
      else case parse_value bs of None \<Rightarrow> None
        | Some (v, r) \<Rightarrow> (case parse_payload r of None \<Rightarrow> None | Some vs \<Rightarrow> Some (v # vs)))"
  by pat_completeness auto
termination
  by (relation "measure length") (auto dest: parse_value_shorter)

declare parse_payload.simps [simp del]

lemma parse_payload_Nil [simp]: "parse_payload [] = Some []"
  by (simp add: parse_payload.simps)

lemma parse_payload_step:
  "bs \<noteq> [] \<Longrightarrow> parse_payload bs = (case parse_value bs of None \<Rightarrow> None
     | Some (v, r) \<Rightarrow> (case parse_payload r of None \<Rightarrow> None | Some vs \<Rightarrow> Some (v # vs)))"
  by (subst parse_payload.simps) simp

section \<open>The grammar is unambiguous\<close>

lemma be32_of_be32:
  assumes "length bs = 4"
  shows "be32 (of_be32 bs) = bs"
proof -
  have "bs = [bs ! 0, bs ! 1, bs ! 2, bs ! 3]"
    using assms by (auto simp: length_Suc_conv numeral_eq_Suc)
  then show ?thesis
    unfolding of_be32_def be32_assemble by simp
qed

lemma of_be32_be32 [simp]: "of_be32 (be32 v) = v"
  by (simp add: be32_inject be32_of_be32)

lemma take_be32 [simp]: "take 4 (be32 v @ bs) = be32 v"
  by simp

lemma get_u32_of_be32: "off + 4 \<le> length inp \<Longrightarrow> get_u32 inp off = Some (of_be32 (take 4 (drop off inp)))"
  by (simp add: get_u32_def ub_simps of_be32_def)

lemma get_u64_shift: "off + 8 \<le> length inp \<Longrightarrow> get_u64 inp off = Some (shift_bytes (take 8 (drop off inp)) 0)"
  using get_u64_Some [of off inp] by (metis shift_bytes_be64)

lemma parse_value_encode: "value_fits v \<Longrightarrow> parse_value (encode_value v @ r) = Some (v, r)"
  by (cases v) (auto simp: parse_scalar_def parse_sequence_def parse_bool_def unat_of_nat)

lemma encode_parse_value:
  assumes "parse_value bs = Some (v, r)"
  shows "bs = encode_value v @ r \<and> value_fits v"
proof (cases bs)
  case Nil
  then show ?thesis using assms by simp
next
  case (Cons t b)
  have seq: "b = be32 (word_of_nat (length s)) @ s @ r \<and> length s < 2 ^ 32"
    if "parse_sequence f b = Some (f s, r)" "\<And>x y. f x = f y \<Longrightarrow> x = y" for f s
  proof -
    let ?n = "of_be32 (take 4 b)"
    have len: "4 + unat ?n \<le> length b" and s: "s = take (unat ?n) (drop 4 b)" and r: "r = drop (4 + unat ?n) b"
      using that by (auto simp: parse_sequence_def Let_def split: if_splits)
    have "word_of_nat (length s) = ?n" using len s by simp
    moreover have "b = take 4 b @ s @ r"
      using s r by (metis append_take_drop_id drop_drop add.commute)
    moreover have "length s < 2 ^ 32" using unsigned_less [of ?n] s len by simp
    ultimately show ?thesis using be32_of_be32 [of "take 4 b"] len by simp
  qed
  have sc: "b = be64 w @ r" if "parse_scalar f b = Some (f w, r)" "\<And>x y. f x = f y \<Longrightarrow> x = y" for f w
  proof -
    have "8 \<le> length b" "w = shift_bytes (take 8 b) 0" "r = drop 8 b"
      using that(1) that(2) [of w "shift_bytes (take 8 b) 0"] by (auto simp: parse_scalar_def split: if_splits)
    then show ?thesis using be64_shift_bytes [of "take 8 b"] by simp
  qed
  consider "t = 0" | "t = 1" | "t = 2" | "t = 3" | "t = 4" | "t = 5" | "t = 6"
    using assms Cons by (auto split: if_splits)
  then show ?thesis
  proof cases
    case 2
    then show ?thesis using assms Cons by (auto simp: parse_bool_def split: list.splits if_splits)
  next
    case 3
    then show ?thesis using assms Cons sc [of P_I64] by (auto simp: parse_scalar_def split: if_splits)
  next
    case 4
    then show ?thesis using assms Cons sc [of P_U64] by (auto simp: parse_scalar_def split: if_splits)
  next
    case 5
    then show ?thesis using assms Cons sc [of P_F64] by (auto simp: parse_scalar_def split: if_splits)
  next
    case 6
    then obtain s where "v = P_BYTES s" "parse_sequence P_BYTES b = Some (P_BYTES s, r)"
      using assms Cons by (auto simp: parse_sequence_def Let_def split: if_splits)
    then show ?thesis using seq [of P_BYTES s] Cons 6 by simp
  next
    case 7
    then obtain s where "v = P_STRING s" "parse_sequence P_STRING b = Some (P_STRING s, r)"
      using assms Cons by (auto simp: parse_sequence_def Let_def split: if_splits)
    then show ?thesis using seq [of P_STRING s] Cons 7 by simp
  qed (use assms Cons in auto)
qed

lemma encode_value_not_Nil [simp]: "encode_value v \<noteq> []"
  by (cases v) auto

lemma parse_encode_payload: "list_all value_fits vs \<Longrightarrow> parse_payload (encode_payload vs) = Some vs"
  by (induction vs) (auto simp: encode_payload_def parse_payload_step parse_value_encode)

lemma encode_parse_payload: "parse_payload bs = Some vs \<Longrightarrow> encode_payload vs = bs \<and> list_all value_fits vs"
proof (induction bs arbitrary: vs rule: length_induct)
  case (1 bs)
  show ?case
  proof (cases "bs = []")
    case True
    then show ?thesis using 1(2) by (auto simp: encode_payload_def)
  next
    case False
    then obtain v r vs' where *: "parse_value bs = Some (v, r)" "parse_payload r = Some vs'" "vs = v # vs'"
      using 1(2) by (auto simp: parse_payload_step split: option.splits)
    then have "encode_payload vs' = r \<and> list_all value_fits vs'"
      using 1(1) parse_value_shorter by blast
    then show ?thesis using encode_parse_value [OF *(1)] *(3) by (simp add: encode_payload_def)
  qed
qed

lemma encode_payload_append [simp]: "encode_payload (vs @ ws) = encode_payload vs @ encode_payload ws"
  by (simp add: encode_payload_def)

end
