(* ===== verification/Payload_Writer.thy ===== *)
theory Payload_Writer
  imports Payload_Spec "HOL-Library.Sublist"
begin

text \<open>
  Correctness of the writer: its invariant, and that every operation either appends exactly
  the encoding of its value or fails, without touching memory that the writer does not own.
\<close>

section \<open>The writer's invariant\<close>

definition writer_ok :: "wirecall_writer \<Rightarrow> heap \<Rightarrow> bool" where
  "writer_ok w h \<longleftrightarrow> w_len w \<le> w_cap w \<and> w_cap w \<le> WIRECALL_MAX_PAYLOAD_SIZE \<and>
     (if w_data w = 0 then w_cap w = 0 else hp_size h (w_data w) = Some (w_cap w))"

definition writer_view :: "wirecall_writer \<Rightarrow> heap \<Rightarrow> u8 list" where
  "writer_view w h = map (hp_bytes h (w_data w)) [0..<w_len w]"

definition writer_owned :: "wirecall_writer \<Rightarrow> nat set" where
  "writer_owned w = (if w_data w = 0 then {} else {w_data w})"

text \<open>Only the writer's block has changed; if it has moved, then to an address that was not live.\<close>

definition writer_frame :: "wirecall_writer \<Rightarrow> heap \<Rightarrow> wirecall_writer \<Rightarrow> heap \<Rightarrow> bool" where
  "writer_frame w h w' h' \<longleftrightarrow> heap_keep (live h - writer_owned w) h h' \<and>
     live h' = live h - writer_owned w \<union> writer_owned w' \<and>
     (w_data w' = w_data w \<or> w_data w' \<notin> live h)"

definition writer_inv :: "wirecall_writer \<Rightarrow> heap \<Rightarrow> bool" where
  "writer_inv w h \<longleftrightarrow> heap_ok h \<and> writer_ok w h"

lemma length_writer_view [simp]: "length (writer_view w h) = w_len w"
  by (simp add: writer_view_def)

lemma writer_inv_zero: "heap_ok h \<Longrightarrow> writer_inv zero_writer h"
  by (simp add: writer_inv_def writer_ok_def zero_writer_def)

lemma writer_view_zero [simp]: "writer_view zero_writer h = []"
  by (simp add: writer_view_def zero_writer_def)

lemma w_len_zero_writer [simp]: "w_len zero_writer = 0"
  by (simp add: zero_writer_def)

lemma writer_inv_owned: "writer_inv w h \<Longrightarrow> writer_owned w \<subseteq> live h"
  by (auto simp: writer_inv_def writer_ok_def writer_owned_def live_def split: if_splits)

lemma writer_inv_keep:
  assumes "writer_inv w h" "heap_keep (writer_owned w) h h'" "heap_ok h'"
  shows "writer_inv w h'"
  using assms by (auto simp: writer_inv_def writer_ok_def writer_owned_def heap_keep_def split: if_splits)

lemma writer_frame_refl: "writer_inv w h \<Longrightarrow> writer_frame w h w h"
  using writer_inv_owned [of w h] by (auto simp: writer_frame_def)

lemma writer_frame_trans:
  assumes "writer_frame w h w1 h1" "writer_frame w1 h1 w2 h2" "writer_inv w h"
  shows "writer_frame w h w2 h2"
proof -
  have "0 \<notin> live h" using assms(3) by (auto simp: writer_inv_def live_def)
  then have "live h - writer_owned w \<subseteq> live h1 - writer_owned w1"
    using assms(1) by (auto simp: writer_frame_def writer_owned_def split: if_splits)
  then have "heap_keep (live h - writer_owned w) h1 h2"
    using assms(2) by (auto simp: writer_frame_def intro: heap_keep_mono)
  moreover have "live h2 = live h - writer_owned w \<union> writer_owned w2"
    using assms(1,2) \<open>0 \<notin> live h\<close> by (auto simp: writer_frame_def writer_owned_def split: if_splits)
  moreover have "w_data w2 = w_data w \<or> w_data w2 \<notin> live h"
    using assms(1,2) \<open>0 \<notin> live h\<close> by (auto simp: writer_frame_def writer_owned_def split: if_splits)
  ultimately show ?thesis
    using assms(1) by (auto simp: writer_frame_def intro: heap_keep_trans)
qed

section \<open>Growing\<close>

lemma MAX_PAYLOAD_le_SIZE_MAX: "n \<le> 2 * WIRECALL_MAX_PAYLOAD_SIZE \<Longrightarrow> n \<le> SIZE_MAX"
  by (simp add: WIRECALL_MAX_PAYLOAD_SIZE_def SIZE_MAX_def)

lemma writer_grow_Some:
  assumes "0 < cap" "cap \<le> WIRECALL_MAX_PAYLOAD_SIZE" "need \<le> WIRECALL_MAX_PAYLOAD_SIZE"
  shows "\<exists>c. writer_grow cap need = Some c \<and> need \<le> c \<and> cap \<le> c \<and> c \<le> WIRECALL_MAX_PAYLOAD_SIZE"
  using assms
proof (induction "WIRECALL_MAX_PAYLOAD_SIZE - cap" arbitrary: cap rule: less_induct)
  case less
  show ?case
  proof (cases "cap < need \<and> cap \<le> WIRECALL_MAX_PAYLOAD_SIZE div 2")
    case True
    then have dbl: "sz_mul cap 2 = cap * 2" "cap * 2 \<le> WIRECALL_MAX_PAYLOAD_SIZE"
      by (auto intro!: sz_mul_exact MAX_PAYLOAD_le_SIZE_MAX)
    obtain c where "writer_grow (cap * 2) need = Some c" "need \<le> c" "cap * 2 \<le> c" "c \<le> WIRECALL_MAX_PAYLOAD_SIZE"
      using less(1) [of "cap * 2"] less(2-4) True dbl by fastforce
    then show ?thesis using True dbl by (subst writer_grow.simps) auto
  next
    case False
    then show ?thesis using less by (subst writer_grow.simps) auto
  qed
qed

text \<open>
  The outcome of appending \<open>bs\<close>: appended, or failed with the contents as before, and then
  the payload limit or an allocation failure is the reason.
\<close>

definition writer_post ::
  "(heap \<Rightarrow> bool) \<Rightarrow> wirecall_writer \<Rightarrow> heap \<Rightarrow> u8 list \<Rightarrow> int \<Rightarrow> wirecall_writer \<Rightarrow> heap \<Rightarrow> bool" where
  "writer_post reliable w h bs rc w' h' \<longleftrightarrow>
     writer_inv w' h' \<and> writer_frame w h w' h' \<and> (reliable h \<longrightarrow> reliable h') \<and>
     (rc = 0 \<and> writer_view w' h' = writer_view w h @ bs \<or>
      rc = -1 \<and> writer_view w' h' = writer_view w h \<and>
        (w_len w + length bs > WIRECALL_MAX_PAYLOAD_SIZE \<or> \<not> reliable h))"

context library_memory
begin

lemma writer_reserve_grow:
  assumes "writer_inv w h" "w_len w \<le> c" "w_cap w \<le> c" "0 < c" "c \<le> WIRECALL_MAX_PAYLOAD_SIZE"
    and "wirecall_mem_realloc g (w_data w) c h = Some (q, h')" "q \<noteq> 0"
  shows "writer_inv (w\<lparr>w_data := q, w_cap := c\<rparr>) h' \<and> writer_frame w h (w\<lparr>w_data := q, w_cap := c\<rparr>) h' \<and>
    writer_view (w\<lparr>w_data := q, w_cap := c\<rparr>) h' = writer_view w h"
proof -
  have ok: "heap_ok h" "w_data w = 0 \<or> hp_size h (w_data w) = Some (w_cap w)" "w_data w = 0 \<longrightarrow> w_cap w = 0"
    "w_len w \<le> w_cap w"
    using assms(1) by (auto simp: writer_inv_def writer_ok_def split: if_splits)
  from ok(1) assms(4) ok(2) show ?thesis
  proof (cases rule: realloc_cases)
    case (fail h1)
    then show ?thesis using assms(6,7) by simp
  next
    case (fresh q' h1)
    then have q: "alloc_post c h q h'" "q \<noteq> 0" "w_data w = 0" "w_len w = 0"
      using assms(6) ok by auto
    then have "live h' = insert q (live h)"
      using alloc_post_owns [OF q(1)] by (auto simp: heap_owns_def)
    then show ?thesis
      using q assms(2,5) alloc_post_keep [OF q(1)]
      by (auto simp: writer_inv_def writer_ok_def writer_frame_def writer_owned_def writer_view_def alloc_post_def live_iff)
  next
    case (grown q' h1)
    then have q: "realloc_post (w_data w) (w_cap w) c h q h'" "q \<noteq> 0" "w_data w \<noteq> 0"
      using assms(6) by auto
    have sz: "hp_size h' r = (if r = q then Some c else if r = w_data w then None else hp_size h r)" for r
      using q by (auto simp: realloc_post_def)
    have "live h' = insert q (live h - {w_data w})"
      by (auto simp: live_def sz)
    moreover have "q = w_data w \<or> q \<notin> live h"
      using q by (auto simp: realloc_post_def live_def)
    ultimately show ?thesis
      using q assms(2,3,5) ok(4) realloc_post_keep [OF q(1)]
      by (auto simp: writer_inv_def writer_ok_def writer_frame_def writer_owned_def writer_view_def realloc_post_def)
  qed
qed

lemma heap_same_writer:
  assumes "heap_same h h'" "heap_ok h'" "writer_inv w h"
  shows "writer_inv w h' \<and> writer_frame w h w h' \<and> writer_view w h' = writer_view w h"
proof -
  have "live h' = live h" "heap_keep (live h) h h'"
    using assms(1) by (auto simp: heap_same_def live_def heap_keep_def)
  moreover have "writer_view w h' = writer_view w h"
    using assms(1,3)
    by (cases "w_data w = 0") (auto simp: writer_view_def heap_same_def writer_inv_def writer_ok_def)
  ultimately show ?thesis
    using assms writer_inv_owned [OF assms(3)]
    by (auto simp: writer_inv_def writer_ok_def writer_frame_def heap_same_def intro: heap_keep_mono)
qed

lemma writer_reserve_post:
  assumes "writer_inv w h"
  obtains rc w' h' where "writer_reserve g (Some w) extra h = Some (rc, Some w', h')"
    "writer_inv w' h'" "writer_frame w h w' h'" "writer_view w' h' = writer_view w h" "w_len w' = w_len w"
    "reliable h \<longrightarrow> reliable h'"
    "rc = 0 \<and> w_len w + extra \<le> w_cap w' \<or> rc = -1 \<and> (w_len w + extra > WIRECALL_MAX_PAYLOAD_SIZE \<or> \<not> reliable h)"
proof -
  note outcome = that
  have ok: "heap_ok h" "w_data w = 0 \<or> hp_size h (w_data w) = Some (w_cap w)" "w_len w \<le> w_cap w"
    "w_cap w \<le> WIRECALL_MAX_PAYLOAD_SIZE"
    using assms by (auto simp: writer_inv_def writer_ok_def split: if_splits)
  consider "w_len w + extra > WIRECALL_MAX_PAYLOAD_SIZE" | "w_len w + extra \<le> w_cap w"
    | "w_len w + extra \<le> WIRECALL_MAX_PAYLOAD_SIZE" "w_cap w < w_len w + extra"
    by linarith
  then show ?thesis
  proof cases
    case 1
    then show ?thesis using assms
      by (intro outcome [of "-1" w h]) (auto simp: writer_reserve_def writer_frame_refl)
  next
    case 2
    then show ?thesis using assms ok
      by (intro outcome [of 0 w h]) (auto simp: writer_reserve_def writer_frame_refl)
  next
    case 3
    obtain c where c: "writer_grow (if w_cap w \<noteq> 0 then w_cap w else 64) (w_len w + extra) = Some c"
      "w_len w + extra \<le> c" "(if w_cap w \<noteq> 0 then w_cap w else 64) \<le> c" "c \<le> WIRECALL_MAX_PAYLOAD_SIZE"
    proof -
      have "0 < (if w_cap w \<noteq> 0 then w_cap w else 64)" by simp
      moreover have "(if w_cap w \<noteq> 0 then w_cap w else 64) \<le> WIRECALL_MAX_PAYLOAD_SIZE"
        using ok(4) by (simp add: WIRECALL_MAX_PAYLOAD_SIZE_def)
      ultimately show ?thesis using that writer_grow_Some 3(1) by blast
    qed
    have c0: "0 < c" "w_cap w \<le> c" "w_len w \<le> c" using c(2,3) by (auto split: if_splits)
    obtain q h' where q: "wirecall_mem_realloc g (w_data w) c h = Some (q, h')"
      "q = 0 \<and> heap_ok h' \<and> heap_same h h' \<and> \<not> reliable h \<or> q \<noteq> 0 \<and> (reliable h \<longrightarrow> reliable h')"
      using ok(1) c0(1) ok(2) by (cases rule: realloc_cases) auto
    have eq: "writer_reserve g (Some w) extra h =
        (if q = 0 then Some (-1, Some w, h') else Some (0, Some (w\<lparr>w_data := q, w_cap := c\<rparr>), h'))"
    proof -
      have "\<not> (extra > WIRECALL_MAX_PAYLOAD_SIZE \<or> w_len w > WIRECALL_MAX_PAYLOAD_SIZE - extra)"
        using 3(1) by arith
      then show ?thesis using 3 c(1) q(1) by (simp add: writer_reserve_def Let_def)
    qed
    show ?thesis
    proof (cases "q = 0")
      case True
      then show ?thesis using eq q(2) heap_same_writer [OF _ _ assms, of h']
        by (intro outcome [of "-1" w h']) auto
    next
      case False
      then show ?thesis using eq q(2) writer_reserve_grow [OF assms c0(3,2,1) c(4) q(1)] c(2)
        by (intro outcome [of 0 "w\<lparr>w_data := q, w_cap := c\<rparr>" h']) auto
    qed
  qed
qed

lemma writer_push_post:
  assumes "writer_inv w h" "len \<le> length bs"
  obtains rc w' h' where "writer_push g (Some w) bs len h = Some (rc, Some w', h')"
    "writer_post reliable w h (take len bs) rc w' h'"
proof -
  note outcome = that
  obtain rc w1 h1 where r: "writer_reserve g (Some w) len h = Some (rc, Some w1, h1)"
    "writer_inv w1 h1" "writer_frame w h w1 h1" "writer_view w1 h1 = writer_view w h" "w_len w1 = w_len w"
    "reliable h \<longrightarrow> reliable h1"
    "rc = 0 \<and> w_len w + len \<le> w_cap w1 \<or> rc = -1 \<and> (w_len w + len > WIRECALL_MAX_PAYLOAD_SIZE \<or> \<not> reliable h)"
    using writer_reserve_post [OF assms(1)] by blast
  consider "rc = -1" "w_len w + len > WIRECALL_MAX_PAYLOAD_SIZE \<or> \<not> reliable h"
    | "rc = 0" "len = 0" | "rc = 0" "0 < len" "w_len w + len \<le> w_cap w1"
    using r(7) by auto
  then show ?thesis
  proof cases
    case 1
    then show ?thesis using r assms(2)
      by (intro outcome [of "-1" w1 h1]) (auto simp: writer_push_def writer_post_def)
  next
    case 2
    then show ?thesis using r
      by (intro outcome [of 0 w1 h1]) (auto simp: writer_push_def writer_post_def)
  next
    case 3
    then have sz: "hp_size h1 (w_data w1) = Some (w_cap w1)" "w_data w1 \<noteq> 0"
      using r(2) by (auto simp: writer_inv_def writer_ok_def split: if_splits)
    obtain b where b: "hp_write (w_data w1) (w_len w1) (take len bs) h1 = Some (h1\<lparr>hp_bytes := b\<rparr>)"
      "\<forall>q. q \<noteq> w_data w1 \<longrightarrow> b q = hp_bytes h1 q"
      "map (b (w_data w1)) [w_len w1..<w_len w1 + len] = take len bs"
      "\<forall>i. i < w_len w1 \<longrightarrow> b (w_data w1) i = hp_bytes h1 (w_data w1) i"
      using hp_write_Some [OF sz(1), of "w_len w1" "take len bs"] 3 r(5) assms(2) by (auto simp: min_absorb2)
    let ?w = "w1\<lparr>w_len := w_len w1 + len\<rparr>" and ?h = "h1\<lparr>hp_bytes := b\<rparr>"
    have "writer_view ?w ?h = writer_view w h @ take len bs"
    proof -
      have "writer_view ?w ?h = map (b (w_data w1)) [0..<w_len w1] @ map (b (w_data w1)) [w_len w1..<w_len w1 + len]"
        using upt_add_eq_append [of 0 "w_len w1" len] by (simp add: writer_view_def)
      moreover have "map (b (w_data w1)) [0..<w_len w1] = writer_view w1 h1"
        using b(4) by (simp add: writer_view_def)
      ultimately show ?thesis using b(3) r(4) by simp
    qed
    moreover have "writer_frame w1 h1 ?w ?h"
      using b(2) sz(2) writer_inv_owned [OF r(2)]
      by (auto simp: writer_frame_def writer_owned_def live_def heap_keep_def split: if_splits)
    then have "writer_frame w h ?w ?h"
      using writer_frame_trans r(3) assms(1) by blast
    moreover have "writer_inv ?w ?h"
      using r(2,5) 3 sz by (auto simp: writer_inv_def writer_ok_def)
    ultimately show ?thesis
      using r 3 b(1) assms(2) write_reliable
      by (intro outcome [of 0 ?w ?h]) (auto simp: writer_push_def writer_post_def)
  qed
qed

end

section \<open>The operations\<close>

lemma scalar_data_eq: "scalar_data t v = Some (t # be64 v)"
proof -
  have "put_u64 ((replicate 9 0)[0 := t]) 1 v = Some (splice ((replicate 9 0)[0 := t]) 1 (be64 v))"
    by (rule put_u64_eq) simp
  then show ?thesis
    by (simp add: scalar_data_def wr_def splice_def eval_nat_numeral)
qed

lemma sequence_data_eq: "sequence_data t v = Some (t # be32 v)"
proof -
  have "put_u32 ((replicate 5 0)[0 := t]) 1 v = Some (splice ((replicate 5 0)[0 := t]) 1 (be32 v))"
    by (rule put_u32_eq) simp
  then show ?thesis
    by (simp add: sequence_data_def wr_def splice_def eval_nat_numeral)
qed

lemma payload_bytes_Some: "payload_bytes (Some bs) = bs"
  by (simp add: payload_bytes_def)

text \<open>The call that writes a value.\<close>

fun write_value ::
  "wirecall_allocator \<Rightarrow> wirecall_writer option \<Rightarrow> payload_value \<Rightarrow> heap \<Rightarrow> (int \<times> wirecall_writer option \<times> heap) option" where
  "write_value g w P_NULL h = wirecall_writer_null g w h"
| "write_value g w (P_BOOL b) h = wirecall_writer_bool g w b h"
| "write_value g w (P_I64 v) h = wirecall_writer_i64 g w v h"
| "write_value g w (P_U64 v) h = wirecall_writer_u64 g w v h"
| "write_value g w (P_F64 v) h = wirecall_writer_f64 g w v h"
| "write_value g w (P_BYTES bs) h = wirecall_writer_bytes g w (Some bs) (word_of_nat (length bs)) h"
| "write_value g w (P_STRING bs) h = wirecall_writer_string g w (Some bs) (word_of_nat (length bs)) h"

text \<open>Writing values one after the other until one fails.\<close>

fun write_values ::
  "wirecall_allocator \<Rightarrow> wirecall_writer option \<Rightarrow> payload_value list \<Rightarrow> heap \<Rightarrow> (int \<times> wirecall_writer option \<times> heap) option" where
  "write_values g w [] h = Some (0, w, h)"
| "write_values g w (v # vs) h = do {
     (rc, w, h) \<leftarrow> write_value g w v h;
     if rc \<noteq> 0 then Some (rc, w, h) else write_values g w vs h }"

text \<open>
  As \<open>writer_post\<close>, except that a failed call may have appended some of the bytes: those of the
  prefix of a sequence.
\<close>

definition value_post ::
  "(heap \<Rightarrow> bool) \<Rightarrow> wirecall_writer \<Rightarrow> heap \<Rightarrow> u8 list \<Rightarrow> int \<Rightarrow> wirecall_writer \<Rightarrow> heap \<Rightarrow> bool" where
  "value_post reliable w h bs rc w' h' \<longleftrightarrow>
     writer_inv w' h' \<and> writer_frame w h w' h' \<and> (reliable h \<longrightarrow> reliable h') \<and>
     (rc = 0 \<and> writer_view w' h' = writer_view w h @ bs \<or>
      rc = -1 \<and> (\<exists>p. prefix p bs \<and> writer_view w' h' = writer_view w h @ p) \<and>
        (w_len w + length bs > WIRECALL_MAX_PAYLOAD_SIZE \<or> \<not> reliable h))"

lemma writer_post_value_post: "writer_post reliable w h bs rc w' h' \<Longrightarrow> value_post reliable w h bs rc w' h'"
  by (auto simp: writer_post_def value_post_def)

lemma value_post_weaken: "value_post reliable w h bs (-1) w' h' \<Longrightarrow> value_post reliable w h (bs @ cs) (-1) w' h'"
  by (auto simp: value_post_def)

lemma value_post_rc: "value_post reliable w h bs rc w' h' \<Longrightarrow> rc = 0 \<or> rc = -1"
  by (auto simp: value_post_def)

lemma value_post_trans:
  assumes "value_post reliable w h bs 0 w1 h1" "value_post reliable w1 h1 cs rc w2 h2" "writer_inv w h"
  shows "value_post reliable w h (bs @ cs) rc w2 h2"
proof -
  have v: "writer_view w1 h1 = writer_view w h @ bs" and f: "writer_frame w h w2 h2"
    using assms writer_frame_trans by (simp_all add: value_post_def) blast
  have len: "w_len w1 = w_len w + length bs"
    using arg_cong [OF v, of length] by simp
  consider "rc = 0" "writer_view w2 h2 = writer_view w1 h1 @ cs"
    | p where "rc = -1" "prefix p cs" "writer_view w2 h2 = writer_view w1 h1 @ p"
      "w_len w1 + length cs > WIRECALL_MAX_PAYLOAD_SIZE \<or> \<not> reliable h1"
    using assms(2) unfolding value_post_def by blast
  then show ?thesis
  proof cases
    case 1
    then show ?thesis using assms(1,2) f v by (simp add: value_post_def)
  next
    case 2
    then have "prefix (bs @ p) (bs @ cs)" "writer_view w2 h2 = writer_view w h @ bs @ p"
      using v by simp_all
    then have "\<exists>p. prefix p (bs @ cs) \<and> writer_view w2 h2 = writer_view w h @ p"
      by blast
    moreover have "w_len w + length (bs @ cs) > WIRECALL_MAX_PAYLOAD_SIZE \<or> \<not> reliable h"
      using assms(1) 2 len by (auto simp: value_post_def)
    ultimately show ?thesis using assms(1,2) f 2(1) unfolding value_post_def by blast
  qed
qed

context library_memory
begin

lemma writer_push_all:
  assumes "writer_inv w h" "len = length bs"
  shows "\<exists>rc w' h'. writer_push g (Some w) bs len h = Some (rc, Some w', h') \<and> value_post reliable w h bs rc w' h'"
  using writer_push_post [OF assms(1), of len bs] assms(2) writer_post_value_post by fastforce

lemma writer_sequence_post:
  assumes "writer_inv w h"
  shows "\<exists>rc w' h'. do {
      (rc, w, h) \<leftarrow> writer_push g (Some w) (t # be32 n) 5 h;
      if rc \<noteq> 0 then Some (-1, w, h) else writer_push g w bs (length bs) h } = Some (rc, Some w', h') \<and>
    value_post reliable w h (t # be32 n @ bs) rc w' h'"
proof -
  obtain rc w1 h1 where 1: "writer_push g (Some w) (t # be32 n) 5 h = Some (rc, Some w1, h1)"
    "value_post reliable w h (t # be32 n) rc w1 h1"
    using writer_push_all [OF assms, of 5 "t # be32 n"] by auto
  show ?thesis
  proof (cases "rc = 0")
    case True
    then obtain rc' w2 h2 where 2: "writer_push g (Some w1) bs (length bs) h1 = Some (rc', Some w2, h2)"
      "value_post reliable w1 h1 bs rc' w2 h2"
      using writer_push_all [of w1 h1 "length bs" bs] 1(2) by (auto simp: value_post_def)
    have "value_post reliable w h ((t # be32 n) @ bs) rc' w2 h2"
      using value_post_trans 1(2) 2(2) True assms by blast
    then show ?thesis using 1(1) 2(1) True by simp
  next
    case False
    then have "rc = -1" using value_post_rc [OF 1(2)] by simp
    then show ?thesis using 1 value_post_weaken [of reliable w h "t # be32 n" w1 h1 bs] by simp
  qed
qed

lemma write_value_post:
  assumes "writer_inv w h" "value_fits v"
  shows "\<exists>rc w' h'. write_value g (Some w) v h = Some (rc, Some w', h') \<and>
    value_post reliable w h (encode_value v) rc w' h'"
proof (cases v)
  case (P_BYTES bs)
  then have fits: "unat (word_of_nat (length bs) :: u32) = length bs"
    using assms(2) by (simp add: unat_of_nat)
  from P_BYTES show ?thesis using writer_sequence_post [OF assms(1), of 5 "word_of_nat (length bs)" bs] fits
    by (simp add: wirecall_writer_bytes_def sequence_data_eq type_defs payload_bytes_Some cong: if_cong)
next
  case (P_STRING bs)
  then have fits: "unat (word_of_nat (length bs) :: u32) = length bs"
    using assms(2) by (simp add: unat_of_nat)
  from P_STRING show ?thesis using writer_sequence_post [OF assms(1), of 6 "word_of_nat (length bs)" bs] fits
    by (simp add: wirecall_writer_string_def sequence_data_eq type_defs payload_bytes_Some cong: if_cong)
next
  case P_NULL
  then show ?thesis using writer_push_all [OF assms(1), of 1 "[0]"] by (simp add: wirecall_writer_null_def type_defs)
next
  case (P_BOOL b)
  then show ?thesis using writer_push_all [OF assms(1), of 2 "[1, if b then 1 else 0]"]
    by (simp add: wirecall_writer_bool_def type_defs)
next
  case (P_I64 x)
  then show ?thesis using writer_push_all [OF assms(1), of 9 "2 # be64 x"]
    by (simp add: wirecall_writer_i64_def scalar_data_eq type_defs)
next
  case (P_U64 x)
  then show ?thesis using writer_push_all [OF assms(1), of 9 "3 # be64 x"]
    by (simp add: wirecall_writer_u64_def scalar_data_eq type_defs)
next
  case (P_F64 x)
  then show ?thesis using writer_push_all [OF assms(1), of 9 "4 # be64 x"]
    by (simp add: wirecall_writer_f64_def scalar_data_eq type_defs)
qed

lemma write_values_post:
  assumes "writer_inv w h" "list_all value_fits vs"
  shows "\<exists>rc w' h'. write_values g (Some w) vs h = Some (rc, Some w', h') \<and>
    value_post reliable w h (encode_payload vs) rc w' h'"
  using assms
proof (induction vs arbitrary: w h)
  case Nil
  then show ?case by (auto simp: value_post_def encode_payload_def writer_frame_refl)
next
  case (Cons v vs)
  obtain rc w1 h1 where 1: "write_value g (Some w) v h = Some (rc, Some w1, h1)"
    "value_post reliable w h (encode_value v) rc w1 h1"
    using write_value_post [of w h v] Cons.prems by auto
  show ?case
  proof (cases "rc = 0")
    case True
    obtain rc' w2 h2 where 2: "write_values g (Some w1) vs h1 = Some (rc', Some w2, h2)"
      "value_post reliable w1 h1 (encode_payload vs) rc' w2 h2"
      using Cons.IH [of w1 h1] Cons.prems 1(2) by (auto simp: value_post_def)
    then show ?thesis using value_post_trans [of reliable w h "encode_value v" w1 h1 "encode_payload vs"] 1 True Cons.prems
      by (auto simp: encode_payload_def)
  next
    case False
    then have "rc = -1" using value_post_rc [OF 1(2)] by simp
    then show ?thesis using 1 value_post_weaken [of reliable w h "encode_value v" w1 h1 "encode_payload vs"]
      by (simp add: encode_payload_def)
  qed
qed

end

end
