(* ===== verification/Payload_Decoder.thy ===== *)
theory Payload_Decoder
  imports Payload_Writer
begin

text \<open>
  Correctness of the decoder: it accepts exactly the payloads of the grammar, unless an
  allocation fails; the array it returns denotes the values of the payload; on failure it
  has released everything; and \<open>wirecall_values_free\<close> releases exactly what a successful
  call has allocated.
\<close>

section \<open>What a decoded array denotes\<close>

fun value_owns :: "wirecall_value \<Rightarrow> nat list" where
  "value_owns (V_BYTES p _) = (if p = 0 then [] else [p])"
| "value_owns (V_STRING p _) = (if p = 0 then [] else [p])"
| "value_owns _ = []"

definition array_owns :: "wirecall_value list \<Rightarrow> nat list" where
  "array_owns vals = concat (map value_owns vals)"

text \<open>A byte string is copied without, a string with a terminating zero byte; the empty byte string has no copy.\<close>

fun value_is :: "heap \<Rightarrow> wirecall_value \<Rightarrow> payload_value \<Rightarrow> bool" where
  "value_is h V_NULL pv = (pv = P_NULL)"
| "value_is h (V_BOOL b) pv = (pv = P_BOOL b)"
| "value_is h (V_I64 v) pv = (pv = P_I64 v)"
| "value_is h (V_U64 v) pv = (pv = P_U64 v)"
| "value_is h (V_F64 v) pv = (pv = P_F64 v)"
| "value_is h (V_BYTES p n) pv =
     (case pv of P_BYTES bs \<Rightarrow>
        unat n = length bs \<and> (if bs = [] then p = 0 else p \<noteq> 0 \<and> hp_read p 0 (length bs) h = Some bs)
      | _ \<Rightarrow> False)"
| "value_is h (V_STRING p n) pv =
     (case pv of P_STRING bs \<Rightarrow>
        unat n = length bs \<and> p \<noteq> 0 \<and> hp_read p 0 (length bs + 1) h = Some (bs @ [0])
      | _ \<Rightarrow> False)"
| "value_is h V_SENTINEL pv = False"

lemma value_is_not_sentinel: "value_is h v pv \<Longrightarrow> v \<noteq> V_SENTINEL"
  by auto

lemma hp_read_keep: "heap_keep P h h' \<Longrightarrow> p \<in> P \<Longrightarrow> hp_read p off n h' = hp_read p off n h"
  by (simp add: heap_keep_def hp_read_def cong: option.case_cong if_cong)

lemma value_is_keep:
  assumes "value_is h v pv" "heap_keep (set (value_owns v)) h h'"
  shows "value_is h' v pv"
  using assms hp_read_keep [OF assms(2)] by (cases v) (auto split: if_splits payload_value.splits)

lemma array_owns_simps [simp]:
  "array_owns [] = []" "array_owns (v # vals) = value_owns v @ array_owns vals"
  "array_owns (vals @ vals') = array_owns vals @ array_owns vals'"
  by (simp_all add: array_owns_def)

lemma array_is_keep:
  assumes "list_all2 (value_is h) vals pvs" "heap_keep (set (array_owns vals)) h h'"
  shows "list_all2 (value_is h') vals pvs"
  using assms
  by (induction rule: list_all2_induct) (auto intro: value_is_keep heap_keep_mono)

text \<open>
  The array at address \<open>values\<close> with \<open>cap\<close> cells and one for the sentinel.  Since \<open>h0\<close> the array
  and the copies that its values refer to have been allocated, and nothing else.
\<close>

definition decoded ::
  "heap \<Rightarrow> nat \<Rightarrow> wirecall_value list \<Rightarrow> nat \<Rightarrow> nat \<Rightarrow> wirecall_value list \<Rightarrow> payload_value list \<Rightarrow> heap \<Rightarrow> bool" where
  "decoded h0 values cells count cap vals pvs h \<longleftrightarrow>
     heap_owns (set (array_owns vals) \<union> (if values = 0 then {} else {values})) h0 h \<and>
     distinct (array_owns vals) \<and> values \<notin> set (array_owns vals) \<and>
     list_all2 (value_is h) vals pvs \<and> count = length vals \<and>
     (if values = 0 then cap = 0 \<and> vals = [] \<and> cells = []
      else 0 < cap \<and> hp_size h values = Some ((cap + 1) * sizeof_value) \<and> count \<le> cap \<and> cells = vals @ [V_SENTINEL])"

lemma decoded_start: "heap_ok h \<Longrightarrow> decoded h 0 [] 0 0 [] [] h"
  by (simp add: decoded_def heap_owns_refl)

text \<open>What is decoded stays so while its blocks are kept, as if it had been allocated last.\<close>

lemma decoded_minus_keep:
  assumes d: "decoded base values cells n cap vals pvs h" and A: "A = set (array_owns vals) \<union> (if values = 0 then {} else {values})"
    and keep: "heap_keep A h h'" and ok: "heap_ok h'"
  shows "decoded (heap_minus A h') values cells n cap vals pvs h'"
proof -
  have "A \<subseteq> live h" using d A by (auto simp: decoded_def heap_owns_def)
  then have "A \<subseteq> live h'" using keep by (auto simp: heap_keep_def live_def subset_iff)
  then have "heap_owns A (heap_minus A h') h'" using heap_minus_owns ok by blast
  moreover have "list_all2 (value_is h') vals pvs"
    using d keep A by (auto simp: decoded_def intro: array_is_keep heap_keep_mono)
  moreover have "values \<noteq> 0 \<longrightarrow> hp_size h' values = hp_size h values"
    using keep A by (auto simp: heap_keep_def)
  ultimately show ?thesis using d A by (auto simp: decoded_def)
qed

section \<open>Releasing an array\<close>

definition cells_fit :: "nat \<Rightarrow> nat \<Rightarrow> heap \<Rightarrow> bool" where
  "cells_fit values n h \<longleftrightarrow> (\<exists>k. hp_size h values = Some k \<and> n * sizeof_value \<le> k)"

lemma cell_get_Some: "cells_fit values n h \<Longrightarrow> i < n \<Longrightarrow> i < length cells \<Longrightarrow> cell_get values cells i h = Some (cells ! i)"
  by (auto simp: cells_fit_def cell_get_def sizeof_value_def)

lemma cell_set_Some:
  "cells_fit values n h \<Longrightarrow> i < n \<Longrightarrow> i \<le> length cells \<Longrightarrow>
     cell_set values cells i v h = Some (if i < length cells then cells[i := v] else cells @ [v])"
  by (auto simp: cells_fit_def cell_set_def sizeof_value_def)

context library_memory
begin

lemma cleanup_value:
  assumes "heap_owns (set (value_owns v) \<union> C) h0 h" "set (value_owns v) \<inter> C = {}"
  obtains h' where "(case v of V_BYTES p _ \<Rightarrow> wirecall_mem_free g p h | V_STRING p _ \<Rightarrow> wirecall_mem_free g p h
      | _ \<Rightarrow> Some h) = Some h'" "heap_owns C h0 h'" "heap_keep C h h'" "reliable h \<longrightarrow> reliable h'"
proof (cases "value_owns v = []")
  case True
  then have "(case v of V_BYTES p _ \<Rightarrow> wirecall_mem_free g p h | V_STRING p _ \<Rightarrow> wirecall_mem_free g p h
      | _ \<Rightarrow> Some h) = Some h"
    by (cases v) (auto simp: free_null_law split: if_splits)
  then show ?thesis using that assms True by simp
next
  case False
  then obtain p n where p: "v = V_BYTES p n \<or> v = V_STRING p n" "p \<noteq> 0"
    by (cases v) (auto split: if_splits)
  then have own: "value_owns v = [p]" by auto
  have C: "insert p C - {p} = C" "C \<subseteq> live h - {p}"
    using assms own by (auto simp: heap_owns_def)
  obtain h' where h': "wirecall_mem_free g p h = Some h'" "heap_owns (insert p C - {p}) h0 h'"
    "heap_keep (live h - {p}) h h'"
    using free_owned [of "insert p C" h0 h p] assms(1) own by auto
  show ?thesis
  proof (rule that)
    show "(case v of V_BYTES p _ \<Rightarrow> wirecall_mem_free g p h | V_STRING p _ \<Rightarrow> wirecall_mem_free g p h
      | _ \<Rightarrow> Some h) = Some h'"
      using p h'(1) by auto
    show "heap_owns C h0 h'" using h'(2) unfolding C(1) .
    show "heap_keep C h h'" using h'(3) C(2) by (rule heap_keep_mono)
    show "reliable h \<longrightarrow> reliable h'" using free_reliable [OF _ h'(1)] by blast
  qed
qed

lemma values_cleanup_loop_owns:
  assumes "heap_owns (set (array_owns vals) \<union> C) h0 h" "distinct (array_owns vals)"
    and "set (array_owns vals) \<inter> C = {}" "values \<in> C" "cells_fit values (length pre + length vals) h"
  shows "\<exists>h'. values_cleanup_loop g values (pre @ vals @ rest) (length pre) (length vals) h = Some h' \<and> heap_owns C h0 h' \<and>
    (reliable h \<longrightarrow> reliable h')"
  using assms
proof (induction vals arbitrary: pre h)
  case Nil
  then show ?case by simp
next
  case (Cons v vals)
  let ?C = "set (array_owns vals) \<union> C"
  have get: "cell_get values (pre @ (v # vals) @ rest) (length pre) h = Some v"
    using cell_get_Some [OF Cons.prems(5)] by simp
  have disj: "set (value_owns v) \<inter> ?C = {}" and own: "heap_owns (set (value_owns v) \<union> ?C) h0 h"
    using Cons.prems by (auto simp: Un_assoc)
  obtain h1 where h1: "(case v of V_BYTES p _ \<Rightarrow> wirecall_mem_free g p h | V_STRING p _ \<Rightarrow> wirecall_mem_free g p h
      | _ \<Rightarrow> Some h) = Some h1" "heap_owns ?C h0 h1" "heap_keep ?C h h1" "reliable h \<longrightarrow> reliable h1"
    using cleanup_value [OF own disj] by blast
  have "cells_fit values (length (pre @ [v]) + length vals) h1"
    using h1(3) Cons.prems(4,5) by (simp add: cells_fit_def heap_keep_def)
  then have "\<exists>h'. values_cleanup_loop g values ((pre @ [v]) @ vals @ rest) (length (pre @ [v])) (length vals) h1 = Some h' \<and>
      heap_owns C h0 h' \<and> (reliable h1 \<longrightarrow> reliable h')"
    using Cons.prems h1(2) by (intro Cons.IH) auto
  then show ?case using get h1(1,4) by auto
qed

lemma decode_abort_owns:
  assumes "decoded h0 values cells count cap vals pvs h"
  shows "\<exists>h'. decode_abort g values cells count h = Some h' \<and> heap_owns {} h0 h' \<and> (reliable h \<longrightarrow> reliable h')"
proof (cases "values = 0")
  case True
  then show ?thesis using assms by (auto simp: decoded_def decode_abort_def values_cleanup_def free_null_law)
next
  case False
  then have d: "heap_owns (set (array_owns vals) \<union> {values}) h0 h" "distinct (array_owns vals)"
    "set (array_owns vals) \<inter> {values} = {}" "count = length vals" "cells = [] @ vals @ [V_SENTINEL]"
    "cells_fit values (length ([] :: wirecall_value list) + length vals) h"
    using assms by (auto simp: decoded_def cells_fit_def sizeof_value_def split: if_splits)
  obtain h1 where h1: "values_cleanup_loop g values cells 0 count h = Some h1" "heap_owns {values} h0 h1" "reliable h \<longrightarrow> reliable h1"
    using values_cleanup_loop_owns [OF d(1,2,3) _ d(6), of "[V_SENTINEL]"] d(4,5) by auto
  then obtain h2 where "wirecall_mem_free g values h1 = Some h2" "heap_owns ({values} - {values}) h0 h2"
    using free_owned by blast
  then show ?thesis using False h1(1,3) free_reliable by (auto simp: decode_abort_def values_cleanup_def)
qed

lemma values_count_eq:
  assumes "cells_fit values (Suc (length pre + length vals)) h" "V_SENTINEL \<notin> set vals"
  shows "values_count values (pre @ vals @ [V_SENTINEL]) (length pre) h = Some (length pre + length vals)"
  using assms
proof (induction vals arbitrary: pre)
  case Nil
  then show ?case using cell_get_Some [of "values" "Suc (length pre)" h "length pre" "pre @ [V_SENTINEL]"]
    by (subst values_count.simps) simp
next
  case (Cons v vals)
  have "cell_get values (pre @ (v # vals) @ [V_SENTINEL]) (length pre) h = Some v"
    using cell_get_Some [OF Cons.prems(1)] by simp
  moreover have "values_count values ((pre @ [v]) @ vals @ [V_SENTINEL]) (length (pre @ [v])) h =
      Some (length (pre @ [v]) + length vals)"
    using Cons.prems by (intro Cons.IH) auto
  ultimately show ?case using Cons.prems(2) by (subst values_count.simps) auto
qed

lemma values_free_owns:
  assumes "decoded h0 values cells count cap vals pvs h"
  shows "\<exists>h'. wirecall_values_free g values cells h = Some h' \<and> heap_owns {} h0 h' \<and> (reliable h \<longrightarrow> reliable h')"
proof (cases "values = 0")
  case True
  then show ?thesis using assms by (auto simp: decoded_def wirecall_values_free_def free_null_law)
next
  case False
  have ns: "V_SENTINEL \<notin> set vals"
    using assms value_is_not_sentinel by (auto simp: decoded_def list_all2_conv_all_nth in_set_conv_nth)
  have "cells_fit values (Suc (length ([] :: wirecall_value list) + length vals)) h" "cells = [] @ vals @ [V_SENTINEL]"
    "count = length vals"
    using assms False by (auto simp: decoded_def cells_fit_def sizeof_value_def)
  then have "values_count values cells 0 h = Some count"
    using values_count_eq [of "values" "[]" vals h] ns by simp
  then show ?thesis using decode_abort_owns [OF assms] False
    by (simp add: wirecall_values_free_def decode_abort_def)
qed

end

section \<open>One value\<close>

text \<open>The outcome of decoding the value at \<open>off\<close> of a payload of \<open>len\<close> bytes.\<close>

definition value_outcome ::
  "(heap \<Rightarrow> bool) \<Rightarrow> u8 list \<Rightarrow> nat \<Rightarrow> nat \<Rightarrow> heap \<Rightarrow> (wirecall_value \<times> nat) option \<Rightarrow> heap \<Rightarrow> bool" where
  "value_outcome reliable data len off h r h' \<longleftrightarrow>
     (case r of
        None \<Rightarrow> heap_owns {} h h' \<and> (reliable h \<longrightarrow> reliable h') \<and> (parse_value (drop off (take len data)) = None \<or> \<not> reliable h)
      | Some (v, off') \<Rightarrow>
          off < off' \<and> off' \<le> len \<and> heap_owns (set (value_owns v)) h h' \<and> distinct (value_owns v) \<and>
          (reliable h \<longrightarrow> reliable h') \<and>
          (\<exists>pv. value_is h' v pv \<and> parse_value (drop off (take len data)) = Some (pv, drop off' (take len data))))"

lemma sz_add_payload: "a \<le> WIRECALL_MAX_PAYLOAD_SIZE \<Longrightarrow> b \<le> 2 ^ 33 \<Longrightarrow> sz_add a b = a + b"
  by (rule sz_add_exact) (simp add: WIRECALL_MAX_PAYLOAD_SIZE_def SIZE_MAX_def)

lemma take_take_drop: "off + n \<le> len \<Longrightarrow> take n (drop off (take len data)) = take n (drop off data)"
  by (simp add: drop_take min_absorb1)

lemma parse_at:
  assumes "off < len" "len \<le> length data"
  shows "drop off (take len data) = data ! off # drop (off + 1) (take len data)"
  using assms by (simp add: Cons_nth_drop_Suc [symmetric])

lemma unat_lt_7_cases: "unat (t :: u8) < 7 \<Longrightarrow> t = 0 \<or> t = 1 \<or> t = 2 \<or> t = 3 \<or> t = 4 \<or> t = 5 \<or> t = 6"
  unfolding word_unat_eq_iff by simp presburger

lemma hp_read_alloc: "hp_size h p = Some n \<Longrightarrow> hp_read p 0 n h = Some (map (hp_bytes h p) [0..<n])"
  by (simp add: hp_read_def)

context library_memory
begin

text \<open>A fresh block filled with the payload bytes, and a zero byte behind them if \<open>z\<close>.\<close>

lemma copy_owned:
  assumes "heap_owns {p} h0 h" "hp_size h p = Some (length bs + (if z then 1 else 0))"
  obtains h' where
    "do { h \<leftarrow> (if 0 < length bs then hp_write p 0 bs h else Some h);
          if z then hp_write p (length bs) [0] h else Some h } = Some h'"
    "heap_owns {p} h0 h'" "hp_read p 0 (length bs + (if z then 1 else 0)) h' = Some (bs @ (if z then [0] else []))"
    "reliable h \<longrightarrow> reliable h'"
proof -
  obtain b where b: "(if 0 < length bs then hp_write p 0 bs h else Some h) = Some (h\<lparr>hp_bytes := b\<rparr>)"
    "\<forall>q. q \<noteq> p \<longrightarrow> b q = hp_bytes h q" "map (b p) [0..<length bs] = bs"
  proof (cases "bs = []")
    case True
    then show ?thesis using that [of "hp_bytes h"] by simp
  next
    case False
    then show ?thesis using that hp_write_Some [OF assms(2), of 0 bs] by auto
  qed
  have own: "heap_owns {p} h0 (h\<lparr>hp_bytes := b\<rparr>)"
    using heap_owns_write [OF assms(1) _ b(2)] by simp
  show ?thesis
  proof (cases z)
    case False
    then show ?thesis using that [of "h\<lparr>hp_bytes := b\<rparr>"] b own assms(2) write_reliable by (simp add: hp_read_def)
  next
    case True
    have "hp_size (h\<lparr>hp_bytes := b\<rparr>) p = Some (length bs + 1)" using assms(2) True by simp
    then obtain c where c: "hp_write p (length bs) [0] (h\<lparr>hp_bytes := b\<rparr>) = Some (h\<lparr>hp_bytes := c\<rparr>)"
      "\<forall>q. q \<noteq> p \<longrightarrow> c q = b q" "c p (length bs) = 0" "\<forall>i < length bs. c p i = b p i"
      using hp_write_Some [of "h\<lparr>hp_bytes := b\<rparr>" p "length bs + 1" "length bs" "[0]"] by auto
    have "map (c p) [0..<length bs] = bs" using c(4) b(3) by (metis (mono_tags, lifting) atLeastLessThan_iff map_eq_conv set_upt)
    moreover have "heap_owns {p} h0 (h\<lparr>hp_bytes := c\<rparr>)"
      using heap_owns_write [OF own, of p c] c(2) by simp
    ultimately show ?thesis using that [of "h\<lparr>hp_bytes := c\<rparr>"] b c True assms(2) write_reliable
      by (simp add: hp_read_def)
  qed
qed

lemma decode_sequence_outcome:
  assumes "heap_ok h" "off < len" "len \<le> length data" "len \<le> WIRECALL_MAX_PAYLOAD_SIZE"
    and t: "data ! off = t" "t = WIRECALL_TYPE_BYTES \<or> t = WIRECALL_TYPE_STRING"
  shows "\<exists>r h'. decode_sequence g data len t (off + 1) h = Some (r, h') \<and> value_outcome reliable data len off h r h'"
proof -
  define rest where "rest = drop (off + 1) (take len data)"
  define f where "f = (if t = WIRECALL_TYPE_BYTES then P_BYTES else P_STRING)"
  have parse: "parse_value (drop off (take len data)) = parse_sequence f rest"
    using parse_at [OF assms(2,3)] t by (auto simp: f_def rest_def type_defs)
  have len_rest: "length rest = len - (off + 1)"
    using assms(2,3) by (simp add: rest_def)
  show ?thesis
  proof (cases "off + 5 \<le> len")
    case False
    then have "parse_sequence f rest = None" using len_rest by (simp add: parse_sequence_def)
    moreover have "sz_add (off + 1) 4 = off + 5" using assms(2,4) by (subst sz_add_payload) auto
    ultimately show ?thesis using False assms(1) parse
      by (auto simp: decode_sequence_def value_outcome_def heap_owns_refl)
  next
    case True
    define n where "n = of_be32 (take 4 rest)"
    have n: "get_u32 data (off + 1) = Some n"
      using True assms(3) take_take_drop [of "off + 1" 4 len data]
      by (simp add: get_u32_of_be32 n_def rest_def)
    have small: "unat n < 2 ^ 32" using unsigned_less [of n] by simp
    have add: "sz_add (off + 1) 4 = off + 5" "sz_add (off + 5) (unat n) = off + 5 + unat n" "sz_add (unat n) 1 = unat n + 1"
      using assms(2,4) True small sz_add_payload [of "off + 1" 4] sz_add_payload [of "off + 5" "unat n"]
        sz_add_exact [of "unat n" 1] by (auto simp: SIZE_MAX_def)
    show ?thesis
    proof (cases "off + 5 + unat n \<le> len")
      case False
      then have "parse_sequence f rest = None" using len_rest by (auto simp: parse_sequence_def Let_def n_def)
      then show ?thesis using False True assms(1) parse n add
        by (auto simp: decode_sequence_def value_outcome_def heap_owns_refl)
    next
      case fits: True
      define bs where "bs = take (unat n) (drop (off + 5) data)"
      have lbs: "length bs = unat n" using fits assms(3) by (simp add: bs_def)
      have "take (unat n) (drop 4 rest) = bs"
        using take_take_drop [of "off + 5" "unat n" len data] fits by (simp add: rest_def bs_def add.commute)
      moreover have "drop (4 + unat n) rest = drop (off + 5 + unat n) (take len data)"
        by (simp add: rest_def add_ac)
      moreover have "\<not> length rest < 4 + unat n"
        using len_rest fits by arith
      ultimately have ps: "parse_sequence f rest = Some (f bs, drop (off + 5 + unat n) (take len data))"
        by (simp add: parse_sequence_def n_def [symmetric])
      let ?z = "t = WIRECALL_TYPE_STRING"
      let ?m = "length bs + (if ?z then 1 else 0)"
      let ?v = "\<lambda>p. if t = WIRECALL_TYPE_BYTES then V_BYTES p n else V_STRING p n"
      show ?thesis
      proof (cases "?m = 0")
        case True
        then have "\<not> ?z" "bs = []" "unat n = 0" using lbs by (auto split: if_splits)
        then show ?thesis using t(2) fits n add ps parse assms(1)
          by (auto simp: decode_sequence_def value_outcome_def heap_owns_refl f_def unat_eq_zero)
      next
        case False
        then have pos: "0 < ?m" by simp
        have eq: "decode_sequence g data len t (off + 1) h = do {
            (copy, h) \<leftarrow> wirecall_mem_alloc g ?m h;
            if copy = 0 then Some (None, h)
            else do {
              h \<leftarrow> do { h \<leftarrow> (if 0 < length bs then hp_write copy 0 bs h else Some h);
                     if ?z then hp_write copy (length bs) [0] h else Some h };
              Some (Some (?v copy, off + 5 + unat n), h) } }"
        proof -
          have n0: "(n > 0) = (0 < length bs)" using lbs by (simp add: word_gt_0 unat_gt_0)
          have copy: "(if off + 5 + unat n \<le> length data then hp_write p 0 (take (unat n) (drop (off + 5) data)) h' else None)
              = hp_write p 0 bs h'" for p h'
            using fits assms(3) by (simp add: bs_def)
          have len: "\<not> sz_add (off + 1) 4 > len" "\<not> sz_add (off + 5) (unat n) > len"
            "(if ?z then sz_add (unat n) 1 else unat n) = ?m"
            using add True fits lbs by auto
          show ?thesis
          proof (cases ?z)
            case z: True
            then have "t \<noteq> WIRECALL_TYPE_BYTES" by (simp add: type_defs)
            with z show ?thesis
              using add True fits n0 copy lbs n
              by (simp add: decode_sequence_def Let_def cong: if_cong)
          next
            case z: False
            then show ?thesis
              using add True fits n0 copy lbs n pos
              by (simp add: decode_sequence_def Let_def cong: if_cong)
          qed
        qed
        from assms(1) pos show ?thesis
        proof (cases rule: alloc_cases)
          case (fail h1)
          then show ?thesis using eq by (auto simp: value_outcome_def)
        next
          case (fresh p h1)
          obtain h2 where h2: "do { h \<leftarrow> (if 0 < length bs then hp_write p 0 bs h1 else Some h1);
              if ?z then hp_write p (length bs) [0] h else Some h } = Some h2"
            "heap_owns {p} h h2" "hp_read p 0 ?m h2 = Some (bs @ (if ?z then [0] else []))" "reliable h1 \<longrightarrow> reliable h2"
            using copy_owned [OF fresh(3,4)] by blast
          have "value_is h2 (?v p) (f bs)"
            using t(2) h2(3) fresh(2) lbs pos by (auto simp: f_def type_defs)
          moreover have "value_owns (?v p) = [p]" using fresh(2) by simp
          moreover have "decode_sequence g data len t (off + 1) h = Some (Some (?v p, off + 5 + unat n), h2)"
            using fresh(2) unfolding eq fresh(1) bind.bind_lunit prod.case h2(1) by simp
          moreover have "value_outcome reliable data len off h (Some (?v p, off + 5 + unat n)) h2"
            using calculation(1,2) fresh(6) h2(2,4) ps parse fits unfolding value_outcome_def option.case prod.case by auto
          ultimately show ?thesis by blast
        qed
      qed
    qed
  qed
qed

lemma decode_scalar_outcome:
  assumes "heap_ok h" "off < len" "len \<le> length data" "len \<le> WIRECALL_MAX_PAYLOAD_SIZE"
    and "parse_value (drop off (take len data)) = parse_scalar f (drop (off + 1) (take len data))"
    and "\<And>x. value_is h (k x) (f x)" "\<And>x. value_owns (k x) = []"
  shows "\<exists>r. (if sz_add (off + 1) 8 > len then Some (None, h)
      else do { v \<leftarrow> get_u64 data (off + 1); Some (Some (k v, sz_add (off + 1) 8), h) }) = Some (r, h) \<and>
    value_outcome reliable data len off h r h"
proof -
  have add: "sz_add (off + 1) 8 = off + 9" using assms(2,4) sz_add_payload [of "off + 1" 8] by simp
  show ?thesis
  proof (cases "off + 9 \<le> len")
    case True
    then have "get_u64 data (off + 1) = Some (shift_bytes (take 8 (drop (off + 1) (take len data))) 0)"
      using assms(3) take_take_drop [of "off + 1" 8 len data] by (simp add: get_u64_shift)
    then show ?thesis using True add assms
      by (auto simp: value_outcome_def heap_owns_refl parse_scalar_def add_ac)
  next
    case False
    then show ?thesis using add assms by (auto simp: value_outcome_def heap_owns_refl parse_scalar_def)
  qed
qed

lemma decode_bool_outcome:
  assumes "heap_ok h" "off < len" "len \<le> length data" "len \<le> WIRECALL_MAX_PAYLOAD_SIZE"
    and "parse_value (drop off (take len data)) = parse_bool (drop (off + 1) (take len data))"
  shows "\<exists>r. (if sz_add (off + 1) 1 > len then Some (None, h)
      else do {
        b \<leftarrow> rd data (off + 1);
        if b \<noteq> 0 \<and> b \<noteq> 1 then Some (None, h) else Some (Some (V_BOOL (b \<noteq> 0), sz_add (off + 1) 1), h) }) = Some (r, h) \<and>
    value_outcome reliable data len off h r h"
proof -
  have add: "sz_add (off + 1) 1 = off + 2" using assms(2,4) sz_add_payload [of "off + 1" 1] by simp
  show ?thesis
  proof (cases "off + 2 \<le> len")
    case True
    then have "drop (off + 1) (take len data) = data ! (off + 1) # drop (off + 2) (take len data)"
      using parse_at [of "off + 1" len data] assms(3) by simp
    then show ?thesis using True add assms
      by (auto simp: value_outcome_def heap_owns_refl parse_bool_def rd_def)
  next
    case False
    then have "drop (off + 1) (take len data) = []" by simp
    then show ?thesis using False add assms by (auto simp: value_outcome_def heap_owns_refl parse_bool_def)
  qed
qed

lemma decode_value_outcome:
  assumes "heap_ok h" "off < len" "len \<le> length data" "len \<le> WIRECALL_MAX_PAYLOAD_SIZE"
  shows "\<exists>r h'. decode_value g data len off h = Some (r, h') \<and> value_outcome reliable data len off h r h'"
proof -
  define t where "t = data ! off"
  have rd: "rd data off = Some t" using assms(2,3) by (simp add: rd_def t_def)
  have add: "sz_add off (Suc 0) = Suc off" using assms(2,4) sz_add_payload [of off 1] by simp
  have parse: "parse_value (drop off (take len data)) = parse_value (t # drop (off + 1) (take len data))"
    using parse_at [OF assms(2,3)] t_def by simp
  note scalar = decode_scalar_outcome [OF assms]
  consider "t = 0" | "t = 1" | "t = 2" | "t = 3" | "t = 4" | "t = 5 \<or> t = 6" | "unat t \<ge> 7"
    using unat_lt_7_cases [of t] by force
  then show ?thesis
  proof cases
    case 1
    then show ?thesis using assms parse
      by (auto simp: decode_value_def rd add type_defs value_outcome_def heap_owns_refl)
  next
    case 2
    then show ?thesis using decode_bool_outcome [OF assms] parse by (auto simp: decode_value_def rd add type_defs cong: if_cong)
  next
    case 3
    then show ?thesis using scalar [of P_I64 V_I64] parse by (auto simp: decode_value_def rd add type_defs cong: if_cong)
  next
    case 4
    then show ?thesis using scalar [of P_U64 V_U64] parse by (auto simp: decode_value_def rd add type_defs cong: if_cong)
  next
    case 5
    then show ?thesis using scalar [of P_F64 V_F64] parse by (auto simp: decode_value_def rd add type_defs cong: if_cong)
  next
    case 6
    then have "decode_value g data len off h = decode_sequence g data len t (off + 1) h"
      by (auto simp: decode_value_def rd add type_defs)
    then show ?thesis using decode_sequence_outcome [OF assms t_def [symmetric]] 6 by (auto simp: type_defs)
  next
    case 7
    then have "parse_value (t # drop (off + 1) (take len data)) = None" by auto
    then show ?thesis using 7 parse assms(1) by (auto simp: decode_value_def rd add value_outcome_def heap_owns_refl)
  qed
qed

end

section \<open>The whole payload\<close>

text \<open>Replacing one owned block, or adding some, keeps what the array denotes.\<close>

lemma decoded_grow_fail:
  assumes "decoded h0 values cells count cap vals pvs h" "heap_owns {} h h'"
  shows "decoded h0 values cells count cap vals pvs h'"
proof -
  let ?B = "set (array_owns vals) \<union> (if values = 0 then {} else {values})"
  have own: "heap_owns ?B h0 h" using assms(1) by (simp add: decoded_def)
  then have own': "heap_owns ?B h0 h'" using heap_owns_trans [OF own assms(2)] by simp
  have keep: "heap_keep ?B h h'"
    using heap_owns_keep [OF assms(2)] own by (auto simp: heap_owns_def intro: heap_keep_mono)
  then have "list_all2 (value_is h') vals pvs"
    using assms(1) by (auto simp: decoded_def intro: array_is_keep heap_keep_mono)
  moreover have "values \<noteq> 0 \<longrightarrow> hp_size h' values = hp_size h values"
    using keep by (auto simp: heap_keep_def)
  ultimately show ?thesis using assms(1) own' by (auto simp: decoded_def)
qed

lemma decoded_store:
  assumes "decoded h0 values cells count cap vals pvs h" "values \<noteq> 0" "count < cap"
    and "heap_owns (set (value_owns v)) h h'" "distinct (value_owns v)" "value_is h' v pv"
  shows "\<exists>cells1. cell_set values cells count v h' = Some cells1 \<and>
    cell_set values cells1 (count + 1) V_SENTINEL h' = Some (vals @ [v, V_SENTINEL]) \<and>
    decoded h0 values (vals @ [v, V_SENTINEL]) (count + 1) cap (vals @ [v]) (pvs @ [pv]) h'"
proof -
  let ?B = "insert values (set (array_owns vals))"
  have d: "heap_owns ?B h0 h" "distinct (array_owns vals)" "values \<notin> set (array_owns vals)"
    "list_all2 (value_is h) vals pvs" "count = length vals" "hp_size h values = Some ((cap + 1) * sizeof_value)"
    "cells = vals @ [V_SENTINEL]" "0 < cap"
    using assms(1,2) by (auto simp: decoded_def)
  have B: "?B \<subseteq> live h" using d(1) by (auto simp: heap_owns_def)
  then have keep: "heap_keep ?B h h'"
    using heap_owns_keep [OF assms(4)] heap_keep_mono by blast
  have disj: "set (value_owns v) \<inter> ?B = {}"
    using assms(4) B by (auto simp: heap_owns_def)
  have sz: "hp_size h' values = Some ((cap + 1) * sizeof_value)"
    using keep d(6) by (simp add: heap_keep_def)
  then have fit: "cells_fit values (cap + 1) h'" by (simp add: cells_fit_def)
  have "list_all2 (value_is h') vals pvs"
    using d(4) array_is_keep keep heap_keep_mono by blast
  then have "list_all2 (value_is h') (vals @ [v]) (pvs @ [pv])"
    using assms(6) by (simp add: list_all2_appendI)
  moreover have "heap_owns (?B \<union> set (value_owns v)) h0 h'"
    using heap_owns_trans d(1) assms(4) by blast
  ultimately have "decoded h0 values (vals @ [v, V_SENTINEL]) (count + 1) cap (vals @ [v]) (pvs @ [pv]) h'"
    using assms(2,3,5) d sz disj by (auto simp: decoded_def Un_commute)
  moreover have "cell_set values cells count v h' = Some (vals @ [v])"
    using cell_set_Some [OF fit, of count cells v] assms(3) d(5,7) by simp
  moreover have "cell_set values (vals @ [v]) (count + 1) V_SENTINEL h' = Some (vals @ [v, V_SENTINEL])"
    using cell_set_Some [OF fit, of "count + 1" "vals @ [v]" V_SENTINEL] assms(3) d(5) by simp
  ultimately show ?thesis by blast
qed

text \<open>The capacity stays within four times the payload limit, so that no size computation wraps around.\<close>

definition cap_ok :: "nat \<Rightarrow> nat \<Rightarrow> bool" where
  "cap_ok cap count \<longleftrightarrow> cap \<le> 4 \<or> cap \<le> 2 * count"

lemma next_cap_exact:
  assumes "cap \<le> WIRECALL_MAX_PAYLOAD_SIZE"
  shows "(if cap \<noteq> 0 then sz_mul cap 2 else 4) = (if cap \<noteq> 0 then cap * 2 else 4)"
    "sz_mul (sz_add (if cap \<noteq> 0 then cap * 2 else 4) 1) sizeof_value = ((if cap \<noteq> 0 then cap * 2 else 4) + 1) * sizeof_value"
  using assms by (simp_all add: sz_mul_def sz_add_def SIZE_MAX_def WIRECALL_MAX_PAYLOAD_SIZE_def sizeof_value_def)

context library_memory
begin

text \<open>Reallocating the array: its address and size change, the copies stay.\<close>

lemma decoded_realloc:
  assumes "decoded h0 values cells count cap vals pvs h" "cap < cap'"
    and "wirecall_mem_realloc g values ((cap' + 1) * sizeof_value) h = Some (q, h')" "q \<noteq> 0"
  shows "cell_set q cells count V_SENTINEL h' = Some (vals @ [V_SENTINEL]) \<and>
    decoded h0 q (vals @ [V_SENTINEL]) count cap' vals pvs h' \<and> (reliable h \<longrightarrow> reliable h')"
proof -
  let ?A = "set (array_owns vals)"
  have d: "heap_owns (?A \<union> (if values = 0 then {} else {values})) h0 h" "distinct (array_owns vals)" "values \<notin> ?A"
    "list_all2 (value_is h) vals pvs" "count = length vals" "count \<le> cap"
    "if values = 0 then vals = [] \<and> cells = [] else cells = vals @ [V_SENTINEL]"
    "values = 0 \<or> hp_size h values = Some ((cap + 1) * sizeof_value)"
    using assms(1) by (auto simp: decoded_def split: if_splits)
  have n: "0 < (cap' + 1) * sizeof_value" by (simp add: sizeof_value_def)
  have post: "heap_owns (insert q ?A) h0 h' \<and> q \<notin> ?A \<and> heap_keep ?A h h' \<and>
      hp_size h' q = Some ((cap' + 1) * sizeof_value) \<and> (reliable h \<longrightarrow> reliable h')"
    using heap_owns_ok [OF d(1)] n d(8)
  proof (cases rule: realloc_cases)
    case (fail h1)
    then show ?thesis using assms(3,4) by simp
  next
    case (fresh q' h1)
    then have q: "alloc_post ((cap' + 1) * sizeof_value) h q h'" "values = 0" "reliable h \<longrightarrow> reliable h'"
      using assms(3) by auto
    then have "vals = []" "heap_owns {} h0 h" using d(1,7) by auto
    then show ?thesis using heap_owns_trans [OF _ alloc_post_owns [OF q(1)]] q(1,3) assms(4)
      by (auto simp: alloc_post_def heap_keep_def)
  next
    case (grown q' h1)
    then have q: "realloc_post values ((cap + 1) * sizeof_value) ((cap' + 1) * sizeof_value) h q h'" "values \<noteq> 0"
      "reliable h \<longrightarrow> reliable h'"
      using assms(3) by auto
    have own: "heap_owns (insert values ?A) h0 h" using d(1) q(2) by simp
    have "insert values ?A - {values} = ?A" using d(3) by simp
    then have "heap_owns (insert q ?A) h0 h'" "q = values \<or> q \<notin> insert values ?A"
      using heap_owns_realloc [OF own _ q(1)] assms(4) by auto
    moreover have "heap_keep ?A h h'"
      using realloc_post_keep [OF q(1)] own d(3) by (auto simp: heap_owns_def intro: heap_keep_mono)
    ultimately show ?thesis using q(1,3) assms(4) d(3) by (auto simp: realloc_post_def)
  qed
  then have "cells_fit q (cap' + 1) h'" by (simp add: cells_fit_def)
  then have "cell_set q cells count V_SENTINEL h' = Some (vals @ [V_SENTINEL])"
    using cell_set_Some [of q "cap' + 1" h' count cells V_SENTINEL] d(5,6,7) assms(2) by (auto split: if_splits)
  moreover have "list_all2 (value_is h') vals pvs"
    using d(4) post array_is_keep by blast
  ultimately show ?thesis using post d(2,5,6) assms(2,4) by (auto simp: decoded_def)
qed

lemma decode_grow_outcome:
  assumes "decoded h0 values cells count cap vals pvs h" "count < WIRECALL_MAX_PAYLOAD_SIZE" "cap_ok cap count"
  obtains (full) h' where "decode_grow g values cells count cap h = Some (None, h')"
      "decoded h0 values cells count cap vals pvs h'" "\<not> reliable h"
  | (room) values' cells' cap' h' where "decode_grow g values cells count cap h = Some (Some (values', cells', cap'), h')"
      "decoded h0 values' cells' count cap' vals pvs h'" "values' \<noteq> 0" "count < cap'" "cap_ok cap' count"
      "reliable h \<longrightarrow> reliable h'"
proof (cases "count = cap")
  case False
  then have "values \<noteq> 0" "count < cap" using assms(1) by (auto simp: decoded_def split: if_splits)
  then show ?thesis using room [of "values" cells cap h] assms False by (simp add: decode_grow_def)
next
  case True
  define cap' where "cap' = (if cap \<noteq> 0 then cap * 2 else 4)"
  have cap: "cap < cap'" "cap_ok cap' count" using True by (auto simp: cap'_def cap_ok_def)
  have n: "0 < (cap' + 1) * sizeof_value" by (simp add: sizeof_value_def)
  have v: "heap_ok h" "values = 0 \<or> hp_size h values = Some ((cap + 1) * sizeof_value)"
    using assms(1) heap_owns_ok by (auto simp: decoded_def split: if_splits)
  obtain q h' where q: "wirecall_mem_realloc g values ((cap' + 1) * sizeof_value) h = Some (q, h')"
      "q = 0 \<Longrightarrow> heap_owns {} h h' \<and> \<not> reliable h"
    using v(1) n v(2)
  proof (cases rule: realloc_cases)
    case (fail h1)
    then have "heap_owns {} h h1"
      by (auto simp: heap_owns_def heap_same_def heap_keep_def live_def fun_eq_iff)
    then show ?thesis using that fail by blast
  qed (use that in blast)+
  have eq: "decode_grow g values cells count cap h = (if q = 0 then Some (None, h')
      else do { cells \<leftarrow> cell_set q cells count V_SENTINEL h'; Some (Some (q, cells, cap'), h') })"
    using True assms(2) next_cap_exact [of cap] q(1) by (simp add: decode_grow_def cap'_def)
  show ?thesis
  proof (cases "q = 0")
    case True
    then show ?thesis using full [of h'] eq q(2) decoded_grow_fail [OF assms(1)] by simp
  next
    case False
    then show ?thesis using decoded_realloc [OF assms(1) cap(1) q(1)] eq room [of q "vals @ [V_SENTINEL]" cap' h'] cap True
      by simp
  qed
qed

lemma decode_loop_outcome:
  assumes "decoded h0 values cells count cap vals pvs h" "cap_ok cap count" "count \<le> off" "off \<le> len"
    and "len \<le> length data" "len \<le> WIRECALL_MAX_PAYLOAD_SIZE"
  shows "\<exists>rc values' cells' count' h'. decode_loop g data len values cells count cap off h = Some (rc, (values', cells'), count', h') \<and>
    (rc = 0 \<and> (\<exists>cap' vals' pvs'. decoded h0 values' cells' count' cap' vals' (pvs @ pvs') h' \<and>
                   parse_payload (drop off (take len data)) = Some pvs') \<or>
     rc = -1 \<and> heap_owns {} h0 h' \<and> (parse_payload (drop off (take len data)) = None \<or> \<not> reliable h)) \<and>
    (reliable h \<longrightarrow> reliable h')"
  using assms
proof (induction "len - off" arbitrary: "values" cells count cap vals pvs off h rule: less_induct)
  case less
  note d = less.prems(1)
  show ?case
  proof (cases "off < len")
    case False
    then have "parse_payload (drop off (take len data)) = Some []" by simp
    then show ?thesis using d False by (subst decode_loop.simps) (auto intro!: exI [of _ cap] exI [of _ vals])
  next
    case True
    have c: "count < WIRECALL_MAX_PAYLOAD_SIZE" using True less.prems by simp
    have ne: "drop off (take len data) \<noteq> []" using True less.prems by simp
    from d c less.prems(2) show ?thesis
    proof (cases rule: decode_grow_outcome)
      case (full h1)
      then obtain h2 where "decode_abort g values cells count h1 = Some h2" "heap_owns {} h0 h2"
        using decode_abort_owns by blast
      then show ?thesis using full True by (subst decode_loop.simps) auto
    next
      case (room values1 cells1 cap1 h1)
      have ok: "heap_ok h1" using room(2) heap_owns_ok by (auto simp: decoded_def)
      obtain r h2 where r: "decode_value g data len off h1 = Some (r, h2)" "value_outcome reliable data len off h1 r h2"
        using decode_value_outcome [OF ok True less.prems(5,6)] by blast
      show ?thesis
      proof (cases r)
        case None
        then have "heap_owns {} h1 h2" and bad: "parse_value (drop off (take len data)) = None \<or> \<not> reliable h1"
          and rel: "reliable h1 \<longrightarrow> reliable h2"
          using r(2) by (auto simp: value_outcome_def)
        then obtain h3 where h3: "decode_abort g values1 cells1 count h2 = Some h3" "heap_owns {} h0 h3" "reliable h2 \<longrightarrow> reliable h3"
          using decode_abort_owns decoded_grow_fail [OF room(2)] by blast
        have "parse_payload (drop off (take len data)) = None \<or> \<not> reliable h"
          using bad room(6) parse_payload_step [OF ne] by auto
        then show ?thesis using room(1,6) r(1) None h3 rel True by (subst decode_loop.simps) auto
      next
        case (Some vo)
        then obtain v off1 pv where v: "r = Some (v, off1)" "off < off1" "off1 \<le> len"
          "heap_owns (set (value_owns v)) h1 h2" "distinct (value_owns v)" "reliable h1 \<longrightarrow> reliable h2"
          "value_is h2 v pv" "parse_value (drop off (take len data)) = Some (pv, drop off1 (take len data))"
          using r(2) by (cases vo) (auto simp: value_outcome_def)
        obtain cells2 where st: "cell_set values1 cells1 count v h2 = Some cells2"
          "cell_set values1 cells2 (count + 1) V_SENTINEL h2 = Some (vals @ [v, V_SENTINEL])"
          "decoded h0 values1 (vals @ [v, V_SENTINEL]) (count + 1) cap1 (vals @ [v]) (pvs @ [pv]) h2"
          using decoded_store [OF room(2,3,4) v(4,5,7)] by blast
        have eq: "decode_loop g data len values cells count cap off h =
            decode_loop g data len values1 (vals @ [v, V_SENTINEL]) (count + 1) cap1 off1 h2"
          using True room(1) r(1) v(1) st(1,2) by (subst decode_loop.simps) simp
        have "cap_ok cap1 (count + 1)" using room(5) by (auto simp: cap_ok_def)
        then have IH: "\<exists>rc values' cells' count' h'.
            decode_loop g data len values1 (vals @ [v, V_SENTINEL]) (count + 1) cap1 off1 h2 = Some (rc, (values', cells'), count', h') \<and>
            (rc = 0 \<and> (\<exists>cap' vals' pvs'. decoded h0 values' cells' count' cap' vals' ((pvs @ [pv]) @ pvs') h' \<and>
                           parse_payload (drop off1 (take len data)) = Some pvs') \<or>
             rc = -1 \<and> heap_owns {} h0 h' \<and> (parse_payload (drop off1 (take len data)) = None \<or> \<not> reliable h2)) \<and>
            (reliable h2 \<longrightarrow> reliable h')"
          using v(2,3) less.prems st(3) by (intro less.hyps) auto
        have "parse_payload (drop off (take len data)) =
            (case parse_payload (drop off1 (take len data)) of None \<Rightarrow> None | Some pvs' \<Rightarrow> Some (pv # pvs'))"
          using parse_payload_step [OF ne] v(8) by simp
        then show ?thesis using IH v(6) room(6) unfolding eq by fastforce
      qed
    qed
  qed
qed

lemma payload_decode_outcome:
  assumes "heap_ok h" "payload_ok data len"
  shows "\<exists>rc arr' n' h'. wirecall_payload_decode g data len (Some arr) (Some n) h = Some (rc, arr', n', h') \<and>
    (rc = 0 \<and> (\<exists>values cells count cap vals pvs. arr' = Some (values, cells) \<and> n' = Some count \<and>
                   decoded h values cells count cap vals pvs h' \<and>
                   parse_payload (take len (payload_bytes data)) = Some pvs) \<or>
     rc = -1 \<and> arr' = Some arr \<and> n' = Some n \<and> heap_owns {} h h' \<and>
       (parse_payload (take len (payload_bytes data)) = None \<or> \<not> reliable h)) \<and>
    (reliable h \<longrightarrow> reliable h')"
proof -
  have null: "\<not> (data = None \<and> len > 0)" and len: "len \<le> length (payload_bytes data)" "len \<le> WIRECALL_MAX_PAYLOAD_SIZE"
    using payload_ok_not_null assms(2) by (auto simp: payload_ok_def)
  have "cap_ok 0 0" by (simp add: cap_ok_def)
  then obtain rc "values" cells count h' where
    "decode_loop g (payload_bytes data) len 0 [] 0 0 0 h = Some (rc, (values, cells), count, h')"
    "rc = 0 \<and> (\<exists>cap vals pvs. decoded h values cells count cap vals pvs h' \<and>
       parse_payload (take len (payload_bytes data)) = Some pvs) \<or>
     rc = -1 \<and> heap_owns {} h h' \<and> (parse_payload (take len (payload_bytes data)) = None \<or> \<not> reliable h)"
    "reliable h \<longrightarrow> reliable h'"
    using decode_loop_outcome [OF decoded_start [OF assms(1)] _ le0 le0 len] unfolding drop_0 append_Nil by blast
  then show ?thesis using null by (auto simp: wirecall_payload_decode_def)
qed

end

section \<open>Properties\<close>

text \<open>
  C2: Payloads survive the trip.  If memory does not run out and the encoding fits into the
  payload limit, then writing a list of values with the writer functions into a fresh writer succeeds,
  and \<open>wirecall_payload_decode\<close> on the writer's buffer succeeds and returns an array with one
  cell per value, closed by the sentinel, whose cells denote exactly the values written.
\<close>

theorem payload_roundtrip:
  assumes "heap_ok h" "never_fails h" "list_all value_fits vs"
    and "length (encode_payload vs) \<le> WIRECALL_MAX_PAYLOAD_SIZE"
  shows "\<exists>w h1 values cells cap vals h2.
    write_values no_allocator (wirecall_writer_init (Some w0)) vs h = Some (0, Some w, h1) \<and>
    wirecall_payload_decode no_allocator (Some (writer_view w h1)) (w_len w) (Some arr) (Some n) h1 =
      Some (0, Some (values, cells), Some (length vs), h2) \<and>
    decoded h1 values cells (length vs) cap vals vs h2"
proof -
  obtain rc w h1 where w: "write_values no_allocator (Some zero_writer) vs h = Some (rc, Some w, h1)"
    "value_post never_fails zero_writer h (encode_payload vs) rc w h1"
    using plain_memory.write_values_post [OF writer_inv_zero [OF assms(1)] assms(3)] by blast
  have ok: "rc = 0" "writer_view w h1 = encode_payload vs" "heap_ok h1" "never_fails h1"
    using w(2) assms(2,4) by (auto simp: value_post_def writer_inv_def)
  have len: "w_len w = length (encode_payload vs)"
    using arg_cong [OF ok(2), of length] by simp
  have "payload_ok (Some (writer_view w h1)) (w_len w)"
    using len assms(4) ok(2) by (simp add: payload_ok_def payload_bytes_Some)
  moreover have "parse_payload (take (w_len w) (payload_bytes (Some (writer_view w h1)))) = Some vs"
    using len ok(2) parse_encode_payload [OF assms(3)] by (simp add: payload_bytes_Some)
  ultimately obtain "values" cells count cap vals h2 where d:
    "wirecall_payload_decode no_allocator (Some (writer_view w h1)) (w_len w) (Some arr) (Some n) h1 =
      Some (0, Some (values, cells), Some count, h2)" "decoded h1 values cells count cap vals vs h2"
    using plain_memory.payload_decode_outcome [OF ok(3), of "Some (writer_view w h1)" "w_len w" arr n] ok(4) by auto
  moreover have "count = length vs"
    using d(2) list_all2_lengthD by (auto simp: decoded_def)
  ultimately show ?thesis using w(1) ok(1) by (auto simp: wirecall_writer_init_def)
qed

theorem payload_roundtrip_witness:
  "\<exists>w h1 values cells cap vals h2.
    write_values no_allocator (wirecall_writer_init (Some zero_writer)) [P_NULL, P_BOOL True, P_STRING [104, 105]] heap0 =
      Some (0, Some w, h1) \<and>
    wirecall_payload_decode no_allocator (Some (writer_view w h1)) (w_len w) (Some (0, [])) (Some 0) h1 =
      Some (0, Some (values, cells), Some (length [P_NULL, P_BOOL True, P_STRING [104, 105]]), h2) \<and>
    decoded h1 values cells (length [P_NULL, P_BOOL True, P_STRING [104, 105]]) cap vals
      [P_NULL, P_BOOL True, P_STRING [104, 105]] h2"
  by (rule payload_roundtrip)
    (simp_all add: never_fails_def heap0_def heap_ok_def encode_payload_def WIRECALL_MAX_PAYLOAD_SIZE_def)

text \<open>
  C3: The decoder is safe on every input.  For any bytes, any installed allocator that keeps
  the allocation contract and any pattern of allocation failures, \<open>wirecall_payload_decode\<close> terminates
  without an access outside the input, the array or a copy.  Either it returns \<open>0\<close>, the input
  has a reading in the payload grammar and the returned array denotes that reading, or it returns
  \<open>-1\<close>, has not written its results, and has released every block it allocated.
\<close>

theorem payload_decode_safe:
  assumes "mem_ok g" "heap_ok h" "payload_ok data len"
  shows "\<exists>rc arr' n' h'. wirecall_payload_decode g data len (Some arr) (Some n) h = Some (rc, arr', n', h') \<and>
    (rc = 0 \<and> (\<exists>values cells count cap vals pvs. arr' = Some (values, cells) \<and> n' = Some count \<and>
                   decoded h values cells count cap vals pvs h' \<and>
                   parse_payload (take len (payload_bytes data)) = Some pvs) \<or>
     rc = -1 \<and> arr' = Some arr \<and> n' = Some n \<and> heap_ok h' \<and> heap_same h h')"
proof -
  obtain rc arr' n' h' where "wirecall_payload_decode g data len (Some arr) (Some n) h = Some (rc, arr', n', h')"
    "rc = 0 \<and> (\<exists>values cells count cap vals pvs. arr' = Some (values, cells) \<and> n' = Some count \<and>
       decoded h values cells count cap vals pvs h' \<and> parse_payload (take len (payload_bytes data)) = Some pvs) \<or>
     rc = -1 \<and> arr' = Some arr \<and> n' = Some n \<and> heap_owns {} h h'"
    using library_memory.payload_decode_outcome [OF library_memory_any [OF assms(1)] assms(2,3), of arr n] by blast
  then show ?thesis
    using heap_owns_same [of h h'] heap_owns_ok [of "{}" h h'] by blast
qed

theorem payload_decode_safe_witness:
  "\<exists>rc arr' n' h'. wirecall_payload_decode (embed_allocator 7) (Some [5, 0, 0, 0, 9, 1]) 6 (Some (0, [])) (Some 0) heap0 =
      Some (rc, arr', n', h') \<and>
    (rc = 0 \<and> (\<exists>values cells count cap vals pvs. arr' = Some (values, cells) \<and> n' = Some count \<and>
                   decoded heap0 values cells count cap vals pvs h' \<and>
                   parse_payload (take 6 (payload_bytes (Some [5, 0, 0, 0, 9, 1]))) = Some pvs) \<or>
     rc = -1 \<and> arr' = Some (0, []) \<and> n' = Some 0 \<and> heap_ok h' \<and> heap_same heap0 h')"
  by (rule payload_decode_safe) (simp_all add: payload_ok_def payload_bytes_def WIRECALL_MAX_PAYLOAD_SIZE_def)

text \<open>
  C4: The decoder accepts exactly the payloads of the grammar: if no allocation fails, it returns \<open>0\<close>
  for the inputs that have a reading and \<open>-1\<close> for all others (an unknown type tag, a
  boolean that is neither 0 nor 1, a value that is cut off, a length that exceeds the input).
\<close>

theorem payload_decode_exact:
  assumes "heap_ok h" "never_fails h" "payload_ok data len"
  shows "\<exists>arr' n' h'. wirecall_payload_decode no_allocator data len (Some arr) (Some n) h =
    Some (if parse_payload (take len (payload_bytes data)) = None then -1 else 0, arr', n', h')"
  using plain_memory.payload_decode_outcome [OF assms(1,3), of arr n] assms(2) by auto

theorem payload_decode_exact_witness:
  "(\<exists>arr' n' h'. wirecall_payload_decode no_allocator (Some [1, 2]) 2 (Some (0, [])) (Some 0) heap0 =
    Some (if parse_payload (take 2 (payload_bytes (Some [1, 2]))) = None then -1 else 0, arr', n', h'))"
  by (rule payload_decode_exact)
    (simp_all add: never_fails_def heap0_def heap_ok_def payload_ok_def payload_bytes_def WIRECALL_MAX_PAYLOAD_SIZE_def)

text \<open>
  C5: Nothing leaks and nothing is freed twice.  The array that a successful
  \<open>wirecall_payload_decode\<close> returns can be passed to \<open>wirecall_values_free\<close>, which finds the sentinel,
  frees every copy and the array once, and leaves the live blocks and their contents as they were
  before the payload was decoded.
\<close>

theorem decode_free_restores:
  assumes "mem_ok g" "heap_ok h" "payload_ok data len"
    and "wirecall_payload_decode g data len (Some arr) (Some n) h = Some (0, Some (values, cells), Some count, h1)"
  shows "\<exists>h2. wirecall_values_free g values cells h1 = Some h2 \<and> heap_ok h2 \<and> heap_same h h2"
proof -
  obtain cap vals pvs where "decoded h values cells count cap vals pvs h1"
    using library_memory.payload_decode_outcome [OF library_memory_any [OF assms(1)] assms(2,3), of arr n] assms(4) by auto
  then show ?thesis
    using library_memory.values_free_owns [OF library_memory_any [OF assms(1)]] heap_owns_same heap_owns_ok by blast
qed

theorem decode_free_restores_witness:
  "\<exists>values cells count h1 h2.
     wirecall_payload_decode no_allocator (Some [6, 0, 0, 0, 1, 65, 0]) 7 (Some (0, [])) (Some 0) heap0 =
       Some (0, Some (values, cells), Some count, h1) \<and>
     wirecall_values_free no_allocator values cells h1 = Some h2 \<and> heap_ok h2 \<and> heap_same heap0 h2"
proof -
  have p: "payload_ok (Some [6, 0, 0, 0, 1, 65, 0]) 7"
    by (simp add: payload_ok_def payload_bytes_def WIRECALL_MAX_PAYLOAD_SIZE_def)
  have enc: "[6, 0, 0, 0, 1, 65, 0] = encode_payload [P_STRING [65], P_NULL]"
    by (simp add: encode_payload_def be32_def)
  have "parse_payload (take 7 (payload_bytes (Some [6, 0, 0, 0, 1, 65, 0]))) = Some [P_STRING [65], P_NULL]"
    using parse_encode_payload [of "[P_STRING [65], P_NULL]"] unfolding enc [symmetric] by (simp add: payload_bytes_def)
  then obtain "values" cells count h1 where d: "wirecall_payload_decode no_allocator (Some [6, 0, 0, 0, 1, 65, 0]) 7
      (Some (0, [])) (Some 0) heap0 = Some (0, Some (values, cells), Some count, h1)"
    using plain_memory.payload_decode_outcome [OF heap_ok_heap0 p, of "(0, [])" 0] by (auto simp: never_fails_def heap0_def)
  then show ?thesis using decode_free_restores [OF mem_ok_no_allocator heap_ok_heap0 p d] by blast
qed

text \<open>
  C7: The writer is safe and bounded.  From a writer in order, writing a value terminates
  without an access outside the buffer, for any allocator and any pattern of failures, and leaves a writer in order:
  its length is at most its capacity, its capacity is the size of its block and at most the payload limit.
  On success the contents are extended by exactly the encoding of the value, on failure
  by a prefix of it; no other live block is touched.
\<close>

theorem write_value_safe:
  assumes "mem_ok g" "writer_inv w h" "value_fits v"
  shows "\<exists>rc w' h'. write_value g (Some w) v h = Some (rc, Some w', h') \<and> writer_inv w' h' \<and> writer_frame w h w' h' \<and>
    (rc = 0 \<and> writer_view w' h' = writer_view w h @ encode_value v \<or>
     rc = -1 \<and> (\<exists>p. prefix p (encode_value v) \<and> writer_view w' h' = writer_view w h @ p))"
  using library_memory.write_value_post [OF library_memory_any [OF assms(1)] assms(2,3)]
  unfolding value_post_def by blast

theorem write_value_safe_witness:
  "\<exists>rc w' h'. write_value (embed_allocator 7) (Some zero_writer) (P_BYTES [1, 2, 3]) heap0 = Some (rc, Some w', h') \<and>
    writer_inv w' h' \<and> writer_frame zero_writer heap0 w' h' \<and>
    (rc = 0 \<and> writer_view w' h' = writer_view zero_writer heap0 @ encode_value (P_BYTES [1, 2, 3]) \<or>
     rc = -1 \<and> (\<exists>p. prefix p (encode_value (P_BYTES [1, 2, 3])) \<and> writer_view w' h' = writer_view zero_writer heap0 @ p))"
  by (rule write_value_safe) (simp_all add: writer_inv_zero)

end
