(* ===== verification/Arena.thy ===== *)
theory Arena
  imports Prelude
begin

text \<open>
  The slot arena of \<^verbatim>\<open>include/arena.h\<close>: a fixed region of equally sized slots, handed out
  from a watermark and recycled through a free list that is threaded through the first word
  of the freed slots.

  The memory of the region is a function from addresses to pointer-sized words.  The pages
  come from the operating system, whose answer (an address, or \<open>0\<close> for failure) is an argument.
  The contract, a set of live slots, is the locale \<open>slot_allocator\<close>; the arena is its interpretation.
\<close>

section \<open>The code\<close>

record wirecall_fixed_arena =
  ar_base :: nat
  ar_elem_size :: nat
  ar_capacity :: nat
  ar_watermark :: nat
  ar_bytes :: nat
  ar_free_list :: nat

definition zero_arena :: wirecall_fixed_arena where
  "zero_arena = \<lparr>ar_base = 0, ar_elem_size = 0, ar_capacity = 0, ar_watermark = 0, ar_bytes = 0, ar_free_list = 0\<rparr>"

type_synonym words = "nat \<Rightarrow> nat"

definition sizeof_ptr :: nat where
  "sizeof_ptr = 8"

definition wirecall_arena_align :: "nat \<Rightarrow> nat" where
  "wirecall_arena_align n = (
     let a = word_of_nat sizeof_ptr :: u64
     in unat ((word_of_nat n + a - 1) AND NOT (a - 1)))"

definition wirecall_fixed_arena_init :: "(nat \<Rightarrow> nat) \<Rightarrow> nat \<Rightarrow> nat \<Rightarrow> int \<times> wirecall_fixed_arena" where
  "wirecall_fixed_arena_init pages_alloc elem_size capacity = (
     let elem = wirecall_arena_align (if elem_size < sizeof_ptr then sizeof_ptr else elem_size);
         nbytes = sz_mul elem capacity;
         base = pages_alloc nbytes
     in if base = 0 then (-1, zero_arena)
        else (0, zero_arena\<lparr>ar_elem_size := elem, ar_capacity := capacity, ar_bytes := nbytes, ar_base := base\<rparr>))"

text \<open>The second component is the region that is given back, if there is one.\<close>

definition wirecall_fixed_arena_destroy :: "wirecall_fixed_arena \<Rightarrow> wirecall_fixed_arena \<times> (nat \<times> nat) option" where
  "wirecall_fixed_arena_destroy arena =
     (zero_arena, if ar_base arena \<noteq> 0 then Some (ar_base arena, ar_bytes arena) else None)"

definition memset_zero :: "nat \<Rightarrow> nat \<Rightarrow> words \<Rightarrow> words" where
  "memset_zero p n m = (\<lambda>a. if p \<le> a \<and> a < p + n then 0 else m a)"

definition wirecall_fixed_arena_alloc ::
  "wirecall_fixed_arena \<times> words \<Rightarrow> nat \<times> (wirecall_fixed_arena \<times> words)" where
  "wirecall_fixed_arena_alloc s = (
     let (arena, m) = s;
         (p, arena) =
           (if ar_free_list arena \<noteq> 0 then (ar_free_list arena, arena\<lparr>ar_free_list := m (ar_free_list arena)\<rparr>)
            else if ar_watermark arena < ar_capacity arena
            then (ar_base arena + ar_watermark arena * ar_elem_size arena, arena\<lparr>ar_watermark := ar_watermark arena + 1\<rparr>)
            else (0, arena))
     in (p, arena, if p \<noteq> 0 then memset_zero p (ar_elem_size arena) m else m))"

definition wirecall_fixed_arena_free ::
  "nat \<Rightarrow> wirecall_fixed_arena \<times> words \<Rightarrow> wirecall_fixed_arena \<times> words" where
  "wirecall_fixed_arena_free p s = (
     let (arena, m) = s
     in if p = 0 then (arena, m)
        else (arena\<lparr>ar_free_list := p\<rparr>, m(p := ar_free_list arena)))"

section \<open>The contract\<close>

text \<open>
  A slot allocator: \<open>inv s L\<close> says that the slots \<open>L\<close> are live in state \<open>s\<close>.  An allocation
  hands out a slot that is not live, and fails only when as many slots are live as there are.
\<close>

locale slot_allocator =
  fixes alloc :: "'s \<Rightarrow> nat \<times> 's"
    and free :: "nat \<Rightarrow> 's \<Rightarrow> 's"
    and inv :: "'s \<Rightarrow> nat set \<Rightarrow> bool"
    and capacity :: "'s \<Rightarrow> nat"
  assumes bound: "inv s L \<Longrightarrow> finite L \<and> card L \<le> capacity s \<and> 0 \<notin> L"
    and alloc_law: "inv s L \<Longrightarrow> alloc s = (p, s') \<Longrightarrow> p \<noteq> 0 \<Longrightarrow> p \<notin> L \<and> inv s' (insert p L)"
    and alloc_fails: "inv s L \<Longrightarrow> alloc s = (0, s') \<Longrightarrow> card L = capacity s \<and> inv s' L"
    and alloc_capacity: "alloc s = (p, s') \<Longrightarrow> capacity s' = capacity s"
    and free_law: "inv s L \<Longrightarrow> p \<in> L \<Longrightarrow> inv (free p s) (L - {p})"
    and free_capacity: "capacity (free p s) = capacity s"
begin

lemma alloc_succeeds: "inv s L \<Longrightarrow> card L < capacity s \<Longrightarrow> alloc s = (p, s') \<Longrightarrow> p \<noteq> 0"
  using alloc_fails by fastforce

text \<open>A slot that has been freed makes room for the next allocation.\<close>

lemma alloc_after_free:
  assumes "inv s L" "p \<in> L" "alloc (free p s) = (q, s')"
  shows "q \<noteq> 0 \<and> inv s' (insert q (L - {p})) \<and> q \<notin> L - {p}"
proof -
  have i: "inv (free p s) (L - {p})" using free_law assms by blast
  have "card (L - {p}) < capacity (free p s)"
    using bound [OF assms(1)] assms(2) card_Diff1_less [of L p] by (simp add: free_capacity)
  then show ?thesis using alloc_succeeds [OF i _ assms(3)] alloc_law [OF i assms(3)] by blast
qed

end

section \<open>Alignment\<close>

lemma and_not_7: "unat ((w :: u64) AND NOT 7) = 8 * (unat w div 8)"
  using unat_and_not_mask [of w 3] by (simp add: mask_eq_exp_minus_1)

lemma arena_align_eq: "n + 7 \<le> SIZE_MAX \<Longrightarrow> wirecall_arena_align n = 8 * ((n + 7) div 8)"
proof -
  assume n: "n + 7 \<le> SIZE_MAX"
  have "unat (word_of_nat (n + 7) :: u64) = n + 7"
    using n unfolding SIZE_MAX_def by (subst unat_of_nat) (simp del: of_nat_add)
  then show ?thesis
    using and_not_7 [of "word_of_nat (n + 7)"] by (simp add: wirecall_arena_align_def sizeof_ptr_def Let_def add.commute)
qed

lemma arena_align_bounds:
  assumes "n + 7 \<le> SIZE_MAX"
  shows "n \<le> wirecall_arena_align n" "wirecall_arena_align n \<le> n + 7" "8 dvd wirecall_arena_align n"
  using arena_align_eq [OF assms] by auto

section \<open>The arena implements the contract\<close>

text \<open>\<open>chain m p ps\<close>: the free list from \<open>p\<close> consists of the slots \<open>ps\<close>.\<close>

fun chain :: "words \<Rightarrow> nat \<Rightarrow> nat list \<Rightarrow> bool" where
  "chain m p [] = (p = 0)"
| "chain m p (q # qs) = (p = q \<and> q \<noteq> 0 \<and> chain m (m q) qs)"

definition slot :: "wirecall_fixed_arena \<Rightarrow> nat \<Rightarrow> nat" where
  "slot arena i = ar_base arena + i * ar_elem_size arena"

definition slots :: "wirecall_fixed_arena \<Rightarrow> nat set" where
  "slots arena = slot arena ` {..<ar_watermark arena}"

definition arena_inv :: "wirecall_fixed_arena \<times> words \<Rightarrow> nat set \<Rightarrow> bool" where
  "arena_inv s L \<longleftrightarrow> (\<exists>ps. chain (snd s) (ar_free_list (fst s)) ps \<and> distinct ps \<and>
     set ps \<inter> L = {} \<and> set ps \<union> L = slots (fst s)) \<and>
     0 < ar_base (fst s) \<and> 0 < ar_elem_size (fst s) \<and> ar_watermark (fst s) \<le> ar_capacity (fst s)"

lemma slot_inject: "0 < ar_elem_size a \<Longrightarrow> slot a i = slot a j \<longleftrightarrow> i = j"
  by (simp add: slot_def)

lemma slots_apart:
  assumes "0 < ar_elem_size a" "p \<in> slots a" "q \<in> slots a" "p < q"
  shows "p + ar_elem_size a \<le> q"
proof -
  obtain i j where ij: "p = slot a i" "q = slot a j" using assms(2,3) by (auto simp: slots_def)
  then have "i < j" using assms(1,4) by (simp add: slot_def)
  then have "(i + 1) * ar_elem_size a \<le> j * ar_elem_size a" by (intro mult_right_mono) auto
  then show ?thesis using ij by (simp add: slot_def)
qed

lemma chain_update: "p \<notin> set ps \<Longrightarrow> chain (m(p := v)) q ps = chain m q ps"
  by (induction ps arbitrary: q) auto

lemma chain_memset:
  assumes "0 < ar_elem_size a" "p \<in> slots a" "set ps \<subseteq> slots a" "p \<notin> set ps"
  shows "chain (memset_zero p (ar_elem_size a) m) q ps = chain m q ps"
  using assms(3,4)
proof (induction ps arbitrary: q)
  case (Cons r rs)
  have "memset_zero p (ar_elem_size a) m r = m r"
    using slots_apart [OF assms(1,2), of r] Cons.prems by (auto simp: memset_zero_def)
  then show ?case using Cons by simp
qed simp

lemma card_slots: "0 < ar_elem_size a \<Longrightarrow> card (slots a) = ar_watermark a"
  by (simp add: slots_def card_image inj_on_def slot_inject)

lemma arena_inv_bound:
  assumes "arena_inv s L"
  shows "finite L \<and> card L \<le> ar_capacity (fst s) \<and> 0 \<notin> L"
proof -
  have sub: "L \<subseteq> slots (fst s)" and a: "0 < ar_base (fst s)" "0 < ar_elem_size (fst s)"
    "ar_watermark (fst s) \<le> ar_capacity (fst s)"
    using assms by (auto simp: arena_inv_def)
  have fin: "finite (slots (fst s))" by (simp add: slots_def)
  have "card L \<le> card (slots (fst s))" using sub fin by (rule card_mono [rotated])
  then show ?thesis
    using a sub fin card_slots [OF a(2)] by (auto simp: slots_def slot_def intro: finite_subset)
qed

lemma slots_watermark:
  "slots (a\<lparr>ar_watermark := ar_watermark a + 1\<rparr>) = insert (slot a (ar_watermark a)) (slots a)"
  by (auto simp: slots_def slot_def lessThan_Suc)

lemma slots_free_list [simp]: "slots (a\<lparr>ar_free_list := p\<rparr>) = slots a"
  by (simp add: slots_def slot_def)

lemma arena_alloc_law:
  assumes "arena_inv s L" "wirecall_fixed_arena_alloc s = (p, s')" "p \<noteq> 0"
  shows "p \<notin> L \<and> arena_inv s' (insert p L)"
proof -
  obtain a m where s: "s = (a, m)" by fastforce
  obtain ps where ps: "chain m (ar_free_list a) ps" "distinct ps" "set ps \<inter> L = {}" "set ps \<union> L = slots a"
    and a: "0 < ar_base a" "0 < ar_elem_size a" "ar_watermark a \<le> ar_capacity a"
    using assms(1) s by (auto simp: arena_inv_def)
  have alloc: "wirecall_fixed_arena_alloc (a, m) = (p, s')" using assms(2) s by simp
  show ?thesis
  proof (cases "ar_free_list a = 0")
    case False
    have p: "p = ar_free_list a" and s': "s' = (a\<lparr>ar_free_list := m p\<rparr>, memset_zero p (ar_elem_size a) m)"
      using alloc False by (auto simp: wirecall_fixed_arena_alloc_def Let_def)
    obtain qs where qs: "ps = p # qs" "chain m (m p) qs"
      using ps(1) False p by (cases ps) simp_all
    have q: "distinct qs" "p \<notin> set qs" "set qs \<inter> insert p L = {}" "set qs \<union> insert p L = slots a" "p \<notin> L"
      using ps(2-4) qs(1) by auto
    then have "chain (memset_zero p (ar_elem_size a) m) (m p) qs"
      using chain_memset [OF a(2), of p qs m "m p"] qs(2) by blast
    then show ?thesis
      using q a s' unfolding arena_inv_def by (intro conjI exI [of _ qs]) simp_all
  next
    case True
    have nil: "ps = []" using ps(1) True by (cases ps) simp_all
    have w: "ar_watermark a < ar_capacity a"
      using alloc True assms(3) by (cases "ar_watermark a < ar_capacity a") (simp_all add: wirecall_fixed_arena_alloc_def Let_def)
    then have p: "p = slot a (ar_watermark a)"
      and s': "s' = (a\<lparr>ar_watermark := ar_watermark a + 1\<rparr>, memset_zero p (ar_elem_size a) m)"
      using alloc True a(1) by (auto simp: wirecall_fixed_arena_alloc_def slot_def Let_def)
    have "p \<notin> slots a" using a(2) by (auto simp: p slots_def slot_inject)
    moreover have "L = slots a" using ps(4) nil by simp
    ultimately show ?thesis
      using w a True slots_watermark [of a] p s' unfolding arena_inv_def
      by (intro conjI exI [of _ "[]"]) (simp_all del: One_nat_def add_Suc_right Nat.add_0_right)
  qed
qed

lemma arena_alloc_fails:
  assumes "arena_inv s L" "wirecall_fixed_arena_alloc s = (0, s')"
  shows "card L = ar_capacity (fst s) \<and> arena_inv s' L"
proof -
  obtain a m where s: "s = (a, m)" by fastforce
  obtain ps where ps: "chain m (ar_free_list a) ps" "set ps \<union> L = slots a" "0 < ar_base a" "0 < ar_elem_size a"
    "ar_watermark a \<le> ar_capacity a"
    using assms(1) s by (auto simp: arena_inv_def)
  have "ar_free_list a = 0" "\<not> ar_watermark a < ar_capacity a" "s' = s"
    using assms(2) s ps(3) by (auto simp: wirecall_fixed_arena_alloc_def Let_def split: if_splits)
  moreover from this have "L = slots a" using ps(1,2) by (cases ps) auto
  ultimately show ?thesis using assms(1) s ps(4,5) card_slots [of a] by simp
qed

lemma arena_free_law:
  assumes "arena_inv s L" "p \<in> L"
  shows "arena_inv (wirecall_fixed_arena_free p s) (L - {p})"
proof -
  obtain a m where s: "s = (a, m)" by fastforce
  obtain ps where ps: "chain m (ar_free_list a) ps" "distinct ps" "set ps \<inter> L = {}" "set ps \<union> L = slots a"
    and a: "0 < ar_base a" "0 < ar_elem_size a" "ar_watermark a \<le> ar_capacity a"
    using assms(1) s by (auto simp: arena_inv_def)
  have "p \<noteq> 0" using arena_inv_bound [OF assms(1)] assms(2) by metis
  moreover have "p \<notin> set ps" using ps(3) assms(2) by blast
  then have "chain (m(p := ar_free_list a)) p (p # ps)"
    using ps(1) calculation by (simp add: chain_update)
  ultimately show ?thesis
    using s ps a assms(2) by (auto simp: arena_inv_def wirecall_fixed_arena_free_def intro!: exI [of _ "p # ps"])
qed

interpretation arena: slot_allocator wirecall_fixed_arena_alloc wirecall_fixed_arena_free arena_inv "\<lambda>s. ar_capacity (fst s)"
proof
  show "arena_inv s L \<Longrightarrow> finite L \<and> card L \<le> ar_capacity (fst s) \<and> 0 \<notin> L" for s L
    by (rule arena_inv_bound)
  show "arena_inv s L \<Longrightarrow> wirecall_fixed_arena_alloc s = (p, s') \<Longrightarrow> p \<noteq> 0 \<Longrightarrow> p \<notin> L \<and> arena_inv s' (insert p L)" for s L p s'
    by (rule arena_alloc_law)
  show "arena_inv s L \<Longrightarrow> wirecall_fixed_arena_alloc s = (0, s') \<Longrightarrow> card L = ar_capacity (fst s) \<and> arena_inv s' L" for s L s'
    by (rule arena_alloc_fails)
  show "wirecall_fixed_arena_alloc s = (p, s') \<Longrightarrow> ar_capacity (fst s') = ar_capacity (fst s)" for s p s'
    by (auto simp: wirecall_fixed_arena_alloc_def Let_def split: if_splits prod.splits)
  show "arena_inv s L \<Longrightarrow> p \<in> L \<Longrightarrow> arena_inv (wirecall_fixed_arena_free p s) (L - {p})" for s L p
    by (rule arena_free_law)
  show "ar_capacity (fst (wirecall_fixed_arena_free p s)) = ar_capacity (fst s)" for p s
    by (auto simp: wirecall_fixed_arena_free_def Let_def split: prod.splits)
qed

lemma arena_init_inv:
  assumes "wirecall_fixed_arena_init pages_alloc elem_size capacity = (0, arena)" "elem_size + 7 \<le> SIZE_MAX"
  shows "arena_inv (arena, m) {}"
proof -
  let ?n = "if elem_size < sizeof_ptr then sizeof_ptr else elem_size"
  have "?n \<le> wirecall_arena_align ?n"
    using assms(2) by (intro arena_align_bounds) (auto simp: SIZE_MAX_def sizeof_ptr_def)
  then have "0 < wirecall_arena_align ?n" by (auto simp: sizeof_ptr_def split: if_splits)
  then show ?thesis
    using assms(1)
    by (auto simp: wirecall_fixed_arena_init_def arena_inv_def slots_def zero_arena_def Let_def
        intro!: exI [of _ "[]"] split: if_splits)
qed

section \<open>Properties\<close>

text \<open>Requests to an arena; a trace of them is sensible if it frees live slots only.\<close>

datatype slot_op = Slot_Alloc | Slot_Free nat

fun arena_run :: "slot_op list \<Rightarrow> (wirecall_fixed_arena \<times> words) \<times> nat set \<Rightarrow> ((wirecall_fixed_arena \<times> words) \<times> nat set) option" where
  "arena_run [] (s, L) = Some (s, L)"
| "arena_run (Slot_Alloc # ops) (s, L) = (
     let (p, s') = wirecall_fixed_arena_alloc s in arena_run ops (s', if p = 0 then L else insert p L))"
| "arena_run (Slot_Free p # ops) (s, L) =
     (if p \<in> L then arena_run ops (wirecall_fixed_arena_free p s, L - {p}) else None)"

definition same_region :: "wirecall_fixed_arena \<times> words \<Rightarrow> wirecall_fixed_arena \<times> words \<Rightarrow> bool" where
  "same_region s s' \<longleftrightarrow> ar_base (fst s') = ar_base (fst s) \<and> ar_elem_size (fst s') = ar_elem_size (fst s) \<and>
     ar_capacity (fst s') = ar_capacity (fst s) \<and> ar_bytes (fst s') = ar_bytes (fst s)"

lemma same_region_alloc: "wirecall_fixed_arena_alloc s = (p, s') \<Longrightarrow> same_region s s'"
  by (auto simp: same_region_def wirecall_fixed_arena_alloc_def Let_def split: if_splits prod.splits)

lemma same_region_free: "same_region s (wirecall_fixed_arena_free p s)"
  by (auto simp: same_region_def wirecall_fixed_arena_free_def Let_def split: prod.splits)

lemma arena_run_inv: "arena_inv s L \<Longrightarrow> arena_run ops (s, L) = Some (s', L') \<Longrightarrow> arena_inv s' L' \<and> same_region s s'"
proof (induction ops "(s, L)" arbitrary: s L rule: arena_run.induct)
  case (1 s L)
  then show ?case by (simp add: same_region_def)
next
  case (2 ops s L)
  obtain p s1 where p: "wirecall_fixed_arena_alloc s = (p, s1)" by (cases "wirecall_fixed_arena_alloc s")
  have "arena_inv s1 (if p = 0 then L else insert p L)"
    using arena.alloc_law [OF 2(2) p] arena.alloc_fails [OF 2(2), of s1] p by auto
  then show ?case using 2(1) [OF p [symmetric]] 2(3) p same_region_alloc [OF p] by (simp add: same_region_def)
next
  case (3 p ops s L)
  then show ?case using arena.free_law same_region_free [of s p] by (auto simp: same_region_def split: if_splits)
qed

lemma slots_within:
  assumes "x \<in> slots a" "ar_watermark a \<le> ar_capacity a"
  shows "x + ar_elem_size a \<le> ar_base a + ar_elem_size a * ar_capacity a"
proof -
  from assms(1) obtain i where i: "x = slot a i" "i < ar_watermark a" by (auto simp: slots_def)
  then have "(i + 1) * ar_elem_size a \<le> ar_capacity a * ar_elem_size a" using assms(2) by (intro mult_right_mono) auto
  then show ?thesis using i(1) by (simp add: slot_def mult.commute)
qed

lemma arena_init_fields:
  assumes "wirecall_fixed_arena_init pages_alloc elem_size capacity = (0, a)"
    and "wirecall_arena_align (max 8 elem_size) * capacity \<le> SIZE_MAX"
  shows "ar_capacity a = capacity" "ar_bytes a = ar_elem_size a * capacity"
  using assms sz_mul_exact [of "wirecall_arena_align (max 8 elem_size)" capacity]
  by (auto simp: wirecall_fixed_arena_init_def zero_arena_def sizeof_ptr_def max_def Let_def split: if_splits)

text \<open>
  C31: The arena hands out every slot to one owner at a time.  Start from a successful
  \<open>wirecall_fixed_arena_init\<close> and apply any sequence of allocations and of frees of live slots: the live
  slots never overlap, lie within the region that was mapped, are at most \<open>capacity\<close> many, and the next
  allocation fails exactly when \<open>capacity\<close> slots are live; otherwise it returns a slot that is
  not live and all zero.
\<close>

theorem arena_slots_exclusive:
  assumes "wirecall_fixed_arena_init pages_alloc elem_size capacity = (0, a0)"
    and "elem_size + 7 \<le> SIZE_MAX" "wirecall_arena_align (max 8 elem_size) * capacity \<le> SIZE_MAX"
    and "arena_run ops ((a0, m0), {}) = Some ((a, m), L)" "wirecall_fixed_arena_alloc (a, m) = (p, a', m')"
  shows "(\<forall>x\<in>L. ar_base a \<le> x \<and> x + ar_elem_size a \<le> ar_base a + ar_bytes a) \<and>
    (\<forall>x\<in>L. \<forall>y\<in>L. x < y \<longrightarrow> x + ar_elem_size a \<le> y) \<and>
    card L \<le> capacity \<and> (p = 0 \<longleftrightarrow> card L = capacity) \<and>
    (p \<noteq> 0 \<longrightarrow> p \<notin> L \<and> (\<forall>x. p \<le> x \<and> x < p + ar_elem_size a \<longrightarrow> m' x = 0))"
proof -
  have inv: "arena_inv (a, m) L" and reg: "same_region (a0, m0) (a, m)"
    using arena_run_inv [OF arena_init_inv [OF assms(1,2)] assms(4)] by auto
  have cap: "ar_capacity a = capacity" "ar_bytes a = ar_elem_size a * ar_capacity a"
    using arena_init_fields [OF assms(1,3)] reg by (simp_all add: same_region_def)
  have sub: "L \<subseteq> slots a" and e: "0 < ar_elem_size a" "ar_watermark a \<le> ar_capacity a"
    using inv by (auto simp: arena_inv_def)
  have "\<forall>x\<in>L. ar_base a \<le> x \<and> x + ar_elem_size a \<le> ar_base a + ar_bytes a"
    using slots_within [OF _ e(2)] sub cap(2) by (auto simp: slots_def slot_def subset_iff)
  moreover have "\<forall>x\<in>L. \<forall>y\<in>L. x < y \<longrightarrow> x + ar_elem_size a \<le> y"
    using slots_apart [OF e(1)] sub by blast
  moreover have "card L \<noteq> capacity" if "p \<noteq> 0"
  proof -
    have "card (insert p L) \<le> capacity" "p \<notin> L" "finite L"
      using arena.alloc_law [OF inv assms(5) that] arena.bound [of "(a', m')" "insert p L"] arena.bound [OF inv]
        arena.alloc_capacity [OF assms(5)] cap(1) by auto
    then show ?thesis by simp
  qed
  moreover have "p = 0 \<Longrightarrow> card L = capacity"
    using arena.alloc_fails [OF inv] assms(5) cap(1) by auto
  moreover have "m' x = 0" if "p \<noteq> 0" "p \<le> x" "x < p + ar_elem_size a" for x
    using assms(5) that by (auto simp: wirecall_fixed_arena_alloc_def memset_zero_def Let_def split: if_splits)
  ultimately show ?thesis
    using arena.alloc_law [OF inv assms(5)] arena.bound [OF inv] cap(1) by auto
qed

theorem arena_slots_exclusive_witness:
  "\<exists>a m L p a' m'. arena_run [Slot_Alloc, Slot_Alloc, Slot_Free 4096]
      ((snd (wirecall_fixed_arena_init (\<lambda>_. 4096) 20 2), \<lambda>_. 7), {}) = Some ((a, m), L) \<and>
    wirecall_fixed_arena_alloc (a, m) = (p, a', m') \<and> L = {4120} \<and> card L \<le> 2 \<and> p \<notin> L \<and> p = 4096"
proof -
  define a0 where "a0 = snd (wirecall_fixed_arena_init (\<lambda>_. 4096) 20 2)"
  have al: "wirecall_arena_align 20 = 24"
    using arena_align_eq [of 20] by (simp add: SIZE_MAX_def)
  have a0: "a0 = \<lparr>ar_base = 4096, ar_elem_size = 24, ar_capacity = 2, ar_watermark = 0, ar_bytes = 48, ar_free_list = 0\<rparr>"
    by (simp add: a0_def wirecall_fixed_arena_init_def al zero_arena_def sz_mul_def SIZE_MAX_def sizeof_ptr_def)
  have init: "wirecall_fixed_arena_init (\<lambda>_. 4096) 20 2 = (0, a0)"
    by (simp add: a0 wirecall_fixed_arena_init_def al zero_arena_def sz_mul_def SIZE_MAX_def sizeof_ptr_def)
  have "{4120, 4096} - {4096} = {4120 :: nat}" by auto
  then obtain a m L where run: "arena_run [Slot_Alloc, Slot_Alloc, Slot_Free 4096] ((a0, \<lambda>_. 7), {}) = Some ((a, m), L)"
    and L: "L = {4120}" and fl: "ar_free_list a = 4096"
    by (simp add: a0 wirecall_fixed_arena_alloc_def wirecall_fixed_arena_free_def Let_def)
  obtain p a' m' where al2: "wirecall_fixed_arena_alloc (a, m) = (p, a', m')" by (metis prod_cases3)
  have "p = 4096" using al2 fl by (simp add: wirecall_fixed_arena_alloc_def Let_def)
  moreover have "card L \<le> 2 \<and> (p \<noteq> 0 \<longrightarrow> p \<notin> L)"
    using arena_slots_exclusive [OF init _ _ run al2] al by (auto simp: SIZE_MAX_def)
  ultimately show ?thesis using run al2 L unfolding a0_def
    by (intro exI [of _ a] exI [of _ m] exI [of _ L] exI [of _ p] exI [of _ a'] exI [of _ m']) simp
qed

end
