(* ===== verification/Minicoro.thy ===== *)
theory Minicoro
  imports Prelude
begin

text \<open>
  The coroutine library \<^verbatim>\<open>include/minicoro.h\<close>, as the scheduler configures it: creation and
  destruction, the state machine behind resume and yield, and the storage stack.

  The coroutines of a thread are a partial map from addresses to structures; an address
  outside its domain is memory that is not (or no longer) allocated, and touching it is
  undefined (\<open>None\<close>), and so is a failing \<open>MCO_ASSERT\<close>.  The context switch itself is
  assembly: the size of a saved context, the result of building one and the behaviour of the
  code that is switched to are arguments.  The address sanitizer, thread sanitizer and Valgrind
  sections are switched off.
\<close>

section \<open>Types and constants\<close>

datatype mco_state = MCO_DEAD | MCO_NORMAL | MCO_RUNNING | MCO_SUSPENDED

datatype mco_result =
    MCO_SUCCESS
  | MCO_GENERIC_ERROR
  | MCO_INVALID_POINTER
  | MCO_INVALID_COROUTINE
  | MCO_NOT_SUSPENDED
  | MCO_NOT_RUNNING
  | MCO_MAKE_CONTEXT_ERROR
  | MCO_SWITCH_CONTEXT_ERROR
  | MCO_NOT_ENOUGH_SPACE
  | MCO_OUT_OF_MEMORY
  | MCO_INVALID_ARGUMENTS
  | MCO_INVALID_OPERATION
  | MCO_STACK_OVERFLOW

text \<open>The storage is the list of its bytes; callbacks are recorded as being set or not.\<close>

record mco_coro =
  mc_context :: nat
  mc_state :: mco_state
  mc_func :: nat
  mc_prev_co :: nat
  mc_user_data :: nat
  mc_coro_size :: nat
  mc_allocator_data :: nat
  mc_dealloc_cb :: bool
  mc_stack_base :: nat
  mc_stack_size :: nat
  mc_storage :: "u8 list"
  mc_bytes_stored :: nat
  mc_storage_size :: nat
  mc_magic_number :: nat

definition zero_coro :: mco_coro where
  "zero_coro = \<lparr>mc_context = 0, mc_state = MCO_DEAD, mc_func = 0, mc_prev_co = 0, mc_user_data = 0,
     mc_coro_size = 0, mc_allocator_data = 0, mc_dealloc_cb = False, mc_stack_base = 0, mc_stack_size = 0,
     mc_storage = [], mc_bytes_stored = 0, mc_storage_size = 0, mc_magic_number = 0\<rparr>"

record mco_desc =
  md_func :: nat
  md_user_data :: nat
  md_alloc_cb :: bool
  md_dealloc_cb :: bool
  md_allocator_data :: nat
  md_storage_size :: nat
  md_coro_size :: nat
  md_stack_size :: nat

definition MCO_MAGIC_NUMBER :: nat where "MCO_MAGIC_NUMBER = 0x7E3CB1A9"
definition MCO_MIN_STACK_SIZE :: nat where "MCO_MIN_STACK_SIZE = 32768"
definition MCO_DEFAULT_STORAGE_SIZE :: nat where "MCO_DEFAULT_STORAGE_SIZE = 1024"
definition MCO_DEFAULT_STACK_SIZE :: nat where "MCO_DEFAULT_STACK_SIZE = 1024 * 1024"
definition sizeof_mco_coro :: nat where "sizeof_mco_coro = 136"

text \<open>The coroutines of a thread and the one that is running (\<open>0\<close> outside of coroutines).\<close>

record mco_thread =
  mt_cos :: "nat \<Rightarrow> mco_coro option"
  mt_current_co :: nat

definition no_coroutines :: mco_thread where
  "no_coroutines = \<lparr>mt_cos = (\<lambda>_. None), mt_current_co = 0\<rparr>"

definition co_update :: "nat \<Rightarrow> (mco_coro \<Rightarrow> mco_coro) \<Rightarrow> mco_thread \<Rightarrow> mco_thread option" where
  "co_update co f t =
     (case mt_cos t co of None \<Rightarrow> None | Some c \<Rightarrow> Some (t\<lparr>mt_cos := (mt_cos t)(co := Some (f c))\<rparr>))"

section \<open>Layout\<close>

definition mco_align_forward :: "nat \<Rightarrow> nat \<Rightarrow> nat" where
  "mco_align_forward addr align =
     unat ((word_of_nat addr + (word_of_nat align - 1) :: u64) AND NOT (word_of_nat align - 1))"

definition mco_init_desc_sizes :: "nat \<Rightarrow> mco_desc \<Rightarrow> nat \<Rightarrow> mco_desc" where
  "mco_init_desc_sizes sizeof_context desc stack_size =
     desc\<lparr>md_coro_size :=
            sz_add (sz_add (sz_add (sz_add (mco_align_forward sizeof_mco_coro 16) (mco_align_forward sizeof_context 16))
              (mco_align_forward (md_storage_size desc) 16)) stack_size) 16,
          md_stack_size := stack_size\<rparr>"

definition mco_desc_init :: "nat \<Rightarrow> nat \<Rightarrow> nat \<Rightarrow> mco_desc" where
  "mco_desc_init sizeof_context func stack_size = (
     let stack_size = (if stack_size \<noteq> 0
                       then (if stack_size < MCO_MIN_STACK_SIZE then MCO_MIN_STACK_SIZE else stack_size)
                       else MCO_DEFAULT_STACK_SIZE);
         stack_size = mco_align_forward stack_size 16;
         desc = \<lparr>md_func = func, md_user_data = 0, md_alloc_cb = True, md_dealloc_cb = True, md_allocator_data = 0,
                 md_storage_size = MCO_DEFAULT_STORAGE_SIZE, md_coro_size = 0, md_stack_size = 0\<rparr>
     in mco_init_desc_sizes sizeof_context desc stack_size)"

definition mco_validate_desc :: "mco_desc option \<Rightarrow> mco_result" where
  "mco_validate_desc desc =
     (case desc of None \<Rightarrow> MCO_INVALID_ARGUMENTS
      | Some d \<Rightarrow>
          if md_func d = 0 then MCO_INVALID_ARGUMENTS
          else if md_stack_size d < MCO_MIN_STACK_SIZE then MCO_INVALID_ARGUMENTS
          else if md_coro_size d < sizeof_mco_coro then MCO_INVALID_ARGUMENTS
          else MCO_SUCCESS)"

text \<open>The addresses of context, storage and stack within the block of a coroutine.\<close>

definition mco_layout :: "nat \<Rightarrow> nat \<Rightarrow> mco_desc \<Rightarrow> nat \<times> nat \<times> nat" where
  "mco_layout sizeof_context co_addr desc = (
     let context_addr = mco_align_forward (sz_add co_addr sizeof_mco_coro) 16;
         storage_addr = mco_align_forward (sz_add context_addr sizeof_context) 16;
         stack_addr = mco_align_forward (sz_add storage_addr (md_storage_size desc)) 16
     in (context_addr, storage_addr, stack_addr))"

definition mco_create_context :: "nat \<Rightarrow> mco_result \<Rightarrow> nat \<Rightarrow> mco_coro \<Rightarrow> mco_desc \<Rightarrow> mco_result \<times> mco_coro" where
  "mco_create_context sizeof_context makectx co c desc = (
     let (context_addr, storage_addr, stack_addr) = mco_layout sizeof_context co desc
     in if makectx \<noteq> MCO_SUCCESS then (makectx, c)
        else (MCO_SUCCESS,
              c\<lparr>mc_context := context_addr, mc_stack_base := stack_addr, mc_stack_size := md_stack_size desc,
                mc_storage := replicate (md_storage_size desc) 0, mc_storage_size := md_storage_size desc\<rparr>))"

section \<open>Creation and destruction\<close>

definition mco_init ::
  "nat \<Rightarrow> mco_result \<Rightarrow> nat \<Rightarrow> mco_desc option \<Rightarrow> mco_thread \<Rightarrow> (mco_result \<times> mco_thread) option" where
  "mco_init sizeof_context makectx co desc t =
     (if co = 0 then Some (MCO_INVALID_COROUTINE, t)
      else do {
        t \<leftarrow> co_update co (\<lambda>_. zero_coro) t;
        let res = mco_validate_desc desc;
        (case desc of
           Some d \<Rightarrow>
             if res \<noteq> MCO_SUCCESS then Some (res, t)
             else let (res, c) = mco_create_context sizeof_context makectx co zero_coro d
                  in if res \<noteq> MCO_SUCCESS then do { t \<leftarrow> co_update co (\<lambda>_. c) t; Some (res, t) }
                     else do {
                       t \<leftarrow> co_update co (\<lambda>_. c\<lparr>mc_state := MCO_SUSPENDED, mc_dealloc_cb := md_dealloc_cb d,
                              mc_coro_size := md_coro_size d, mc_allocator_data := md_allocator_data d,
                              mc_func := md_func d, mc_user_data := md_user_data d,
                              mc_magic_number := MCO_MAGIC_NUMBER\<rparr>) t;
                       Some (MCO_SUCCESS, t) }
         | None \<Rightarrow> Some (res, t)) })"

definition mco_uninit :: "nat \<Rightarrow> mco_thread \<Rightarrow> (mco_result \<times> mco_thread) option" where
  "mco_uninit co t =
     (if co = 0 then Some (MCO_INVALID_COROUTINE, t)
      else case mt_cos t co of None \<Rightarrow> None
      | Some c \<Rightarrow>
          if \<not> (mc_state c = MCO_SUSPENDED \<or> mc_state c = MCO_DEAD) then Some (MCO_INVALID_OPERATION, t)
          else do { t \<leftarrow> co_update co (\<lambda>c. c\<lparr>mc_state := MCO_DEAD\<rparr>) t; Some (MCO_SUCCESS, t) })"

text \<open>
  \<open>mco_alloc\<close> and \<open>mco_dealloc\<close> map and unmap zeroed pages; \<open>addr\<close> is the address that the operating
  system returns, \<open>0\<close> if it has none.
\<close>

definition mco_alloc :: "nat \<Rightarrow> mco_thread \<Rightarrow> nat \<times> mco_thread" where
  "mco_alloc addr t = (addr, if addr \<noteq> 0 then t\<lparr>mt_cos := (mt_cos t)(addr := Some zero_coro)\<rparr> else t)"

definition mco_dealloc :: "nat \<Rightarrow> mco_thread \<Rightarrow> mco_thread option" where
  "mco_dealloc ptr t = (if mt_cos t ptr = None then None else Some (t\<lparr>mt_cos := (mt_cos t)(ptr := None)\<rparr>))"

text \<open>The second component of the result is \<open>*out_co\<close>, if that was written.\<close>

definition mco_create ::
  "nat \<Rightarrow> mco_result \<Rightarrow> nat \<Rightarrow> nat option \<Rightarrow> mco_desc option \<Rightarrow> mco_thread \<Rightarrow> (mco_result \<times> nat option \<times> mco_thread) option" where
  "mco_create sizeof_context makectx addr out_co desc t =
     (if out_co = None then Some (MCO_INVALID_POINTER, out_co, t)
      else case desc of None \<Rightarrow> Some (MCO_INVALID_ARGUMENTS, Some 0, t)
      | Some d \<Rightarrow>
          if \<not> md_alloc_cb d \<or> \<not> md_dealloc_cb d then Some (MCO_INVALID_ARGUMENTS, Some 0, t)
          else let (co, t) = mco_alloc addr t
               in if co = 0 then Some (MCO_OUT_OF_MEMORY, Some 0, t)
                  else do {
                    (res, t) \<leftarrow> mco_init sizeof_context makectx co desc t;
                    if res \<noteq> MCO_SUCCESS then do { t \<leftarrow> mco_dealloc co t; Some (res, Some 0, t) }
                    else Some (MCO_SUCCESS, Some co, t) })"

definition mco_destroy :: "nat \<Rightarrow> mco_thread \<Rightarrow> (mco_result \<times> mco_thread) option" where
  "mco_destroy co t =
     (if co = 0 then Some (MCO_INVALID_COROUTINE, t)
      else do {
        (res, t) \<leftarrow> mco_uninit co t;
        if res \<noteq> MCO_SUCCESS then Some (res, t)
        else case mt_cos t co of None \<Rightarrow> None
          | Some c \<Rightarrow> if \<not> mc_dealloc_cb c then Some (MCO_INVALID_POINTER, t)
                      else do { t \<leftarrow> mco_dealloc co t; Some (MCO_SUCCESS, t) } })"

section \<open>Switching\<close>

definition mco_running :: "mco_thread \<Rightarrow> nat" where
  "mco_running t = mt_current_co t"

definition mco_prepare_jumpin :: "nat \<Rightarrow> mco_thread \<Rightarrow> mco_thread option" where
  "mco_prepare_jumpin co t = do {
     let prev_co = mco_running t;
     c \<leftarrow> mt_cos t co;
     if mc_prev_co c \<noteq> 0 then None
     else do {
       t \<leftarrow> co_update co (\<lambda>c. c\<lparr>mc_prev_co := prev_co\<rparr>) t;
       t \<leftarrow> (if prev_co \<noteq> 0 then do {
               p \<leftarrow> mt_cos t prev_co;
               if mc_state p \<noteq> MCO_RUNNING then None
               else co_update prev_co (\<lambda>c. c\<lparr>mc_state := MCO_NORMAL\<rparr>) t }
             else Some t);
       Some (t\<lparr>mt_current_co := co\<rparr>) } }"

definition mco_prepare_jumpout :: "nat \<Rightarrow> mco_thread \<Rightarrow> mco_thread option" where
  "mco_prepare_jumpout co t = do {
     c \<leftarrow> mt_cos t co;
     let prev_co = mc_prev_co c;
     t \<leftarrow> co_update co (\<lambda>c. c\<lparr>mc_prev_co := 0\<rparr>) t;
     t \<leftarrow> (if prev_co \<noteq> 0 then co_update prev_co (\<lambda>c. c\<lparr>mc_state := MCO_RUNNING\<rparr>) t else Some t);
     Some (t\<lparr>mt_current_co := prev_co\<rparr>) }"

text \<open>What \<open>_mco_main\<close> does when the function of the coroutine has returned.\<close>

definition mco_main_return :: "nat \<Rightarrow> mco_thread \<Rightarrow> mco_thread option" where
  "mco_main_return co t = do {
     t \<leftarrow> co_update co (\<lambda>c. c\<lparr>mc_state := MCO_DEAD\<rparr>) t;
     mco_prepare_jumpout co t }"

text \<open>The part of \<open>mco_resume\<close> before the switch, with the error code if there is no switch.\<close>

definition mco_resume_enter :: "nat \<Rightarrow> mco_thread \<Rightarrow> (mco_result \<times> mco_thread) option" where
  "mco_resume_enter co t =
     (if co = 0 then Some (MCO_INVALID_COROUTINE, t)
      else case mt_cos t co of None \<Rightarrow> None
      | Some c \<Rightarrow>
          if mc_state c \<noteq> MCO_SUSPENDED then Some (MCO_NOT_SUSPENDED, t)
          else do {
            t \<leftarrow> co_update co (\<lambda>c. c\<lparr>mc_state := MCO_RUNNING\<rparr>) t;
            t \<leftarrow> mco_prepare_jumpin co t;
            Some (MCO_SUCCESS, t) })"

text \<open>\<open>switch\<close> is what happens from the switch into the coroutine to the switch back.\<close>

definition mco_resume ::
  "(nat \<Rightarrow> mco_thread \<Rightarrow> 'w \<Rightarrow> (mco_thread \<times> 'w) option) \<Rightarrow> nat \<Rightarrow> mco_thread \<Rightarrow> 'w \<Rightarrow> (mco_result \<times> mco_thread \<times> 'w) option" where
  "mco_resume switch co t w = do {
     (res, t) \<leftarrow> mco_resume_enter co t;
     if res \<noteq> MCO_SUCCESS then Some (res, t, w)
     else do { (t, w) \<leftarrow> switch co t w; Some (MCO_SUCCESS, t, w) } }"

text \<open>\<open>mco_yield\<close> up to the switch; \<open>stack_addr\<close> is the address of its local variable.\<close>

definition mco_yield :: "nat \<Rightarrow> nat \<Rightarrow> mco_thread \<Rightarrow> (mco_result \<times> mco_thread) option" where
  "mco_yield stack_addr co t =
     (if co = 0 then Some (MCO_INVALID_COROUTINE, t)
      else case mt_cos t co of None \<Rightarrow> None
      | Some c \<Rightarrow>
          let stack_min = mc_stack_base c; stack_max = sz_add stack_min (mc_stack_size c)
          in if mc_magic_number c \<noteq> MCO_MAGIC_NUMBER \<or> stack_addr < stack_min \<or> stack_addr > stack_max
             then Some (MCO_STACK_OVERFLOW, t)
             else if mc_state c \<noteq> MCO_RUNNING then Some (MCO_NOT_RUNNING, t)
             else do {
               t \<leftarrow> co_update co (\<lambda>c. c\<lparr>mc_state := MCO_SUSPENDED\<rparr>) t;
               t \<leftarrow> mco_prepare_jumpout co t;
               Some (MCO_SUCCESS, t) })"

definition mco_status :: "nat \<Rightarrow> mco_thread \<Rightarrow> mco_state option" where
  "mco_status co t = (if co \<noteq> 0 then (case mt_cos t co of None \<Rightarrow> None | Some c \<Rightarrow> Some (mc_state c)) else Some MCO_DEAD)"

definition mco_get_user_data :: "nat \<Rightarrow> mco_thread \<Rightarrow> nat option" where
  "mco_get_user_data co t = (if co \<noteq> 0 then (case mt_cos t co of None \<Rightarrow> None | Some c \<Rightarrow> Some (mc_user_data c)) else Some 0)"

section \<open>The storage\<close>

text \<open>The storage operations, on the structure itself; \<open>src\<close> and \<open>dest\<close> are the caller's objects.\<close>

definition mco_push :: "mco_coro option \<Rightarrow> u8 list option \<Rightarrow> nat \<Rightarrow> (mco_result \<times> mco_coro option) option" where
  "mco_push co src len =
     (case co of None \<Rightarrow> Some (MCO_INVALID_COROUTINE, co)
      | Some c \<Rightarrow>
          if len > 0 then
            (let bytes_stored = sz_add (mc_bytes_stored c) len
             in if bytes_stored > mc_storage_size c then Some (MCO_NOT_ENOUGH_SPACE, co)
                else case src of None \<Rightarrow> Some (MCO_INVALID_POINTER, co)
                | Some s \<Rightarrow> do {
                    st \<leftarrow> memcpy (mc_storage c) (mc_bytes_stored c) s 0 len;
                    Some (MCO_SUCCESS, Some (c\<lparr>mc_storage := st, mc_bytes_stored := bytes_stored\<rparr>)) })
          else Some (MCO_SUCCESS, co))"

definition mco_pop ::
  "mco_coro option \<Rightarrow> u8 list option \<Rightarrow> nat \<Rightarrow> (mco_result \<times> mco_coro option \<times> u8 list option) option" where
  "mco_pop co dest len =
     (case co of None \<Rightarrow> Some (MCO_INVALID_COROUTINE, co, dest)
      | Some c \<Rightarrow>
          if len > 0 then
            (if len > mc_bytes_stored c then Some (MCO_NOT_ENOUGH_SPACE, co, dest)
             else do {
               let bytes_stored = mc_bytes_stored c - len;
               dest \<leftarrow> (case dest of None \<Rightarrow> Some None
                         | Some d \<Rightarrow> do { d \<leftarrow> memcpy d 0 (mc_storage c) bytes_stored len; Some (Some d) });
               st \<leftarrow> memcpy (mc_storage c) bytes_stored (replicate len 0) 0 len;
               Some (MCO_SUCCESS, Some (c\<lparr>mc_storage := st, mc_bytes_stored := bytes_stored\<rparr>), dest) })
          else Some (MCO_SUCCESS, co, dest))"

definition mco_peek :: "mco_coro option \<Rightarrow> u8 list option \<Rightarrow> nat \<Rightarrow> (mco_result \<times> u8 list option) option" where
  "mco_peek co dest len =
     (case co of None \<Rightarrow> Some (MCO_INVALID_COROUTINE, dest)
      | Some c \<Rightarrow>
          if len > 0 then
            (if len > mc_bytes_stored c then Some (MCO_NOT_ENOUGH_SPACE, dest)
             else case dest of None \<Rightarrow> Some (MCO_INVALID_POINTER, dest)
             | Some d \<Rightarrow> do {
                 d \<leftarrow> memcpy d 0 (mc_storage c) (mc_bytes_stored c - len) len;
                 Some (MCO_SUCCESS, Some d) })
          else Some (MCO_SUCCESS, dest))"

definition mco_get_bytes_stored :: "mco_coro option \<Rightarrow> nat" where
  "mco_get_bytes_stored co = (case co of None \<Rightarrow> 0 | Some c \<Rightarrow> mc_bytes_stored c)"

definition mco_get_storage_size :: "mco_coro option \<Rightarrow> nat" where
  "mco_get_storage_size co = (case co of None \<Rightarrow> 0 | Some c \<Rightarrow> mc_storage_size c)"

fun mco_result_description :: "mco_result \<Rightarrow> string" where
  "mco_result_description MCO_SUCCESS = ''No error''"
| "mco_result_description MCO_GENERIC_ERROR = ''Generic error''"
| "mco_result_description MCO_INVALID_POINTER = ''Invalid pointer''"
| "mco_result_description MCO_INVALID_COROUTINE = ''Invalid coroutine''"
| "mco_result_description MCO_NOT_SUSPENDED = ''Coroutine not suspended''"
| "mco_result_description MCO_NOT_RUNNING = ''Coroutine not running''"
| "mco_result_description MCO_MAKE_CONTEXT_ERROR = ''Make context error''"
| "mco_result_description MCO_SWITCH_CONTEXT_ERROR = ''Switch context error''"
| "mco_result_description MCO_NOT_ENOUGH_SPACE = ''Not enough space''"
| "mco_result_description MCO_OUT_OF_MEMORY = ''Out of memory''"
| "mco_result_description MCO_INVALID_ARGUMENTS = ''Invalid arguments''"
| "mco_result_description MCO_INVALID_OPERATION = ''Invalid operation''"
| "mco_result_description MCO_STACK_OVERFLOW = ''Stack overflow''"

section \<open>The state machine\<close>

text \<open>The states that a thread can reach: any code may create, resume, yield and destroy at any time.\<close>

inductive mco_reach :: "mco_thread \<Rightarrow> bool" where
  start: "mco_reach no_coroutines"
| create: "mco_reach t \<Longrightarrow> mt_cos t addr = None \<Longrightarrow>
    mco_create sizeof_context makectx addr out_co desc t = Some (res, out, t') \<Longrightarrow> mco_reach t'"
| resume: "mco_reach t \<Longrightarrow> mco_resume_enter co t = Some (res, t') \<Longrightarrow> mco_reach t'"
| yield: "mco_reach t \<Longrightarrow> mco_yield stack_addr co t = Some (res, t') \<Longrightarrow> mco_reach t'"
| finish: "mco_reach t \<Longrightarrow> mco_running t \<noteq> 0 \<Longrightarrow> mco_main_return (mco_running t) t = Some t' \<Longrightarrow> mco_reach t'"
| destroy: "mco_reach t \<Longrightarrow> mco_destroy co t = Some (res, t') \<Longrightarrow> mco_reach t'"

text \<open>\<open>resumers pv p cs\<close>: the coroutine \<open>p\<close>, the one that resumed it, and so on, are \<open>cs\<close>.\<close>

fun resumers :: "(nat \<Rightarrow> nat option) \<Rightarrow> nat \<Rightarrow> nat list \<Rightarrow> bool" where
  "resumers pv p [] = (p = 0)"
| "resumers pv p (q # qs) = (p = q \<and> q \<noteq> 0 \<and> (\<exists>r. pv q = Some r \<and> resumers pv r qs))"

definition prevs :: "mco_thread \<Rightarrow> nat \<Rightarrow> nat option" where
  "prevs t p = map_option mc_prev_co (mt_cos t p)"

definition state_of :: "mco_thread \<Rightarrow> nat \<Rightarrow> mco_state option" where
  "state_of t p = map_option mc_state (mt_cos t p)"

definition mco_inv :: "mco_thread \<Rightarrow> nat list \<Rightarrow> bool" where
  "mco_inv t cs \<longleftrightarrow> resumers (prevs t) (mt_current_co t) cs \<and> distinct cs \<and> mt_cos t 0 = None \<and>
     (case cs of [] \<Rightarrow> True | q # qs \<Rightarrow> state_of t q = Some MCO_RUNNING \<and> (\<forall>r\<in>set qs. state_of t r = Some MCO_NORMAL)) \<and>
     (\<forall>p. p \<notin> set cs \<longrightarrow> state_of t p \<in> {None, Some MCO_SUSPENDED, Some MCO_DEAD} \<and> prevs t p \<in> {None, Some 0})"

lemma resumers_upd: "p \<notin> set cs \<Longrightarrow> resumers (pv(p := v)) q cs = resumers pv q cs"
  by (induction cs arbitrary: q) auto

lemma resumers_live: "resumers pv p cs \<Longrightarrow> q \<in> set cs \<Longrightarrow> pv q \<noteq> None"
  by (induction cs arbitrary: p) auto

lemma resumers_hd: "resumers pv p cs \<Longrightarrow> p \<noteq> 0 \<Longrightarrow> \<exists>qs r. cs = p # qs \<and> pv p = Some r \<and> resumers pv r qs"
  by (cases cs) auto

lemma mco_inv_start: "mco_inv no_coroutines []"
  by (simp add: mco_inv_def no_coroutines_def state_of_def prevs_def)

text \<open>What the updates do to the states and the links.\<close>

lemma co_update_Some:
  assumes "mt_cos t p = Some c"
  shows "co_update p f t = Some (t\<lparr>mt_cos := (mt_cos t)(p := Some (f c))\<rparr>)"
  using assms by (simp add: co_update_def)

lemma state_of_upd: "state_of (t\<lparr>mt_cos := (mt_cos t)(p := v)\<rparr>) = (state_of t)(p := map_option mc_state v)"
  by (auto simp: state_of_def)

lemma prevs_upd: "prevs (t\<lparr>mt_cos := (mt_cos t)(p := v)\<rparr>) = (prevs t)(p := map_option mc_prev_co v)"
  by (auto simp: prevs_def)

lemma state_of_current [simp]: "state_of (t\<lparr>mt_current_co := p\<rparr>) = state_of t" "prevs (t\<lparr>mt_current_co := p\<rparr>) = prevs t"
  by (auto simp: state_of_def prevs_def)

text \<open>A coroutine that is not active can be replaced by another inactive one, or disappear.\<close>

lemma mco_inv_replace:
  assumes "mco_inv t cs" "p \<notin> set cs" "p \<noteq> 0"
    and "v = None \<or> (\<exists>c. v = Some c \<and> mc_state c \<in> {MCO_SUSPENDED, MCO_DEAD} \<and> mc_prev_co c = 0)"
  shows "mco_inv (t\<lparr>mt_cos := (mt_cos t)(p := v)\<rparr>) cs"
proof -
  have "case cs of [] \<Rightarrow> True | q # qs \<Rightarrow> ((state_of t)(p := map_option mc_state v)) q = Some MCO_RUNNING \<and>
      (\<forall>r\<in>set qs. ((state_of t)(p := map_option mc_state v)) r = Some MCO_NORMAL)"
    using assms(1,2) by (cases cs) (auto simp: mco_inv_def)
  then show ?thesis
    using assms unfolding mco_inv_def state_of_upd prevs_upd by (auto simp: resumers_upd)
qed

lemma not_active:
  assumes "mco_inv t cs" "state_of t p \<in> {Some MCO_SUSPENDED, Some MCO_DEAD}"
  shows "p \<notin> set cs"
  using assms by (cases cs) (auto simp: mco_inv_def)

lemma inactive:
  assumes "mco_inv t cs" "mt_cos t p = Some c" "mc_state c \<in> {MCO_SUSPENDED, MCO_DEAD}"
  shows "p \<notin> set cs" "mc_prev_co c = 0" "p \<noteq> 0"
proof -
  show n: "p \<notin> set cs" using not_active [OF assms(1)] assms(2,3) by (auto simp: state_of_def)
  then have "prevs t p \<in> {None, Some 0}" using assms(1) unfolding mco_inv_def by blast
  then show "mc_prev_co c = 0" using assms(2) by (simp add: prevs_def)
  show "p \<noteq> 0" using assms(1,2) by (cases "p = 0") (auto simp: mco_inv_def)
qed

lemma mco_create_inv:
  assumes "mco_inv t cs" "mt_cos t addr = None" "mco_create sizeof_context makectx addr out_co desc t = Some (res, out, t')"
  shows "mco_inv t' cs"
proof -
  have n: "addr \<notin> set cs"
    using assms(1,2) resumers_live [of "prevs t" "mt_current_co t" cs addr] by (auto simp: mco_inv_def prevs_def)
  have undo: "t\<lparr>mt_cos := (mt_cos t)(addr := None)\<rparr> = t"
    using assms(2) by (simp add: fun_upd_idem)
  have "t' = t \<or> (addr \<noteq> 0 \<and> (\<exists>c. t' = t\<lparr>mt_cos := (mt_cos t)(addr := Some c)\<rparr> \<and> mc_state c = MCO_SUSPENDED \<and> mc_prev_co c = 0))"
    using assms(3) undo
    by (auto simp: mco_create_def mco_alloc_def mco_init_def mco_create_context_def mco_dealloc_def co_update_def zero_coro_def
        Let_def split: option.splits if_splits prod.splits)
  then show ?thesis
    using assms(1) mco_inv_replace [OF assms(1) n] by auto
qed

lemma mco_destroy_inv:
  assumes "mco_inv t cs" "mco_destroy co t = Some (res, t')"
  shows "mco_inv t' cs"
proof (cases "co = 0")
  case False
  then obtain c where c: "mt_cos t co = Some c"
    using assms(2) by (auto simp: mco_destroy_def mco_uninit_def split: option.splits)
  show ?thesis
  proof (cases "mc_state c \<in> {MCO_SUSPENDED, MCO_DEAD}")
    case True
    note i = inactive [OF assms(1) c True]
    have "t' = t\<lparr>mt_cos := (mt_cos t)(co := None)\<rparr> \<or> t' = t\<lparr>mt_cos := (mt_cos t)(co := Some (c\<lparr>mc_state := MCO_DEAD\<rparr>))\<rparr>"
      using assms(2) c True False
      by (auto simp: mco_destroy_def mco_uninit_def mco_dealloc_def co_update_def split: if_splits)
    then show ?thesis using mco_inv_replace [OF assms(1) i(1,3)] i(2) by auto
  next
    case active: False
    then show ?thesis using assms c False by (auto simp: mco_destroy_def mco_uninit_def)
  qed
qed (use assms in \<open>auto simp: mco_destroy_def\<close>)

lemma mco_resume_enter_ok:
  assumes "mco_inv t cs" "mt_cos t co = Some c" "mc_state c = MCO_SUSPENDED"
  obtains t' where "mco_resume_enter co t = Some (MCO_SUCCESS, t')" "mco_inv t' (co # cs)" "mco_running t' = co"
    "mt_cos t' co = Some (c\<lparr>mc_state := MCO_RUNNING, mc_prev_co := mco_running t\<rparr>)"
proof -
  note i = inactive [OF assms(1,2)]
  have co: "co \<notin> set cs" "mc_prev_co c = 0" "co \<noteq> 0" using i assms(3) by auto
  let ?c = "c\<lparr>mc_state := MCO_RUNNING, mc_prev_co := mco_running t\<rparr>"
  have res: "resumers (prevs t) (mt_current_co t) cs" and dist: "distinct cs" and null: "mt_cos t 0 = None"
    and rest: "\<forall>p. p \<notin> set cs \<longrightarrow> state_of t p \<in> {None, Some MCO_SUSPENDED, Some MCO_DEAD} \<and> prevs t p \<in> {None, Some 0}"
    using assms(1) by (auto simp: mco_inv_def)
  show ?thesis
  proof (cases "mco_running t = 0")
    case True
    then have nil: "cs = []" using res by (cases cs) (auto simp: mco_running_def)
    let ?t = "t\<lparr>mt_cos := (mt_cos t)(co := Some ?c)\<rparr>\<lparr>mt_current_co := co\<rparr>"
    have "mco_resume_enter co t = Some (MCO_SUCCESS, ?t)"
      using assms(2,3) co True
      by (simp add: mco_resume_enter_def mco_prepare_jumpin_def co_update_def mco_running_def Let_def)
    moreover have "mco_inv ?t [co]"
      using nil rest co null True unfolding mco_inv_def state_of_current state_of_upd prevs_upd by (auto simp: mco_running_def)
    ultimately show ?thesis using that [of ?t] nil by (simp add: mco_running_def)
  next
    case False
    let ?p = "mco_running t"
    obtain qs r where cs: "cs = ?p # qs" "prevs t ?p = Some r" "resumers (prevs t) r qs"
      using resumers_hd [OF res] False by (auto simp: mco_running_def)
    obtain d where d: "mt_cos t ?p = Some d" "mc_prev_co d = r" using cs(2) by (auto simp: prevs_def)
    have run: "mc_state d = MCO_RUNNING" and norm: "\<forall>q\<in>set qs. state_of t q = Some MCO_NORMAL"
      using assms(1) cs(1) d(1) by (auto simp: mco_inv_def state_of_def)
    have ne: "co \<noteq> ?p" "?p \<notin> set qs" using co(1) cs(1) dist by auto
    let ?t = "t\<lparr>mt_cos := (mt_cos t)(co := Some ?c, ?p := Some (d\<lparr>mc_state := MCO_NORMAL\<rparr>))\<rparr>\<lparr>mt_current_co := co\<rparr>"
    have "mco_resume_enter co t = Some (MCO_SUCCESS, ?t)"
      using assms(2,3) co False d(1) run ne
      by (simp add: mco_resume_enter_def mco_prepare_jumpin_def co_update_def mco_running_def Let_def)
    moreover have st: "state_of ?t = (state_of t)(co := Some MCO_RUNNING, ?p := Some MCO_NORMAL)"
      and pv: "prevs ?t = (prevs t)(co := Some ?p, ?p := Some r)"
      using d(2) ne by (auto simp: state_of_def prevs_def)
    have "(prevs t)(co := Some ?p, ?p := Some r) = (prevs t)(co := Some ?p)"
      using cs(2) ne by auto
    then have "resumers (prevs ?t) co (co # cs)"
      using pv co(1,3) res by (simp add: resumers_upd mco_running_def)
    then have "mco_inv ?t (co # cs)"
      using dist co null rest norm cs(1) ne st pv False unfolding mco_inv_def by auto
    ultimately show ?thesis using that [of ?t] ne by (simp add: mco_running_def)
  qed
qed

text \<open>The running coroutine gives way to the one that resumed it and becomes suspended or dead.\<close>

lemma mco_jumpout_ok:
  assumes "mco_inv t (p # qs)" "s \<in> {MCO_SUSPENDED, MCO_DEAD}"
  obtains t' where "do { t \<leftarrow> co_update p (\<lambda>c. c\<lparr>mc_state := s\<rparr>) t; mco_prepare_jumpout p t } = Some t'" "mco_inv t' qs"
proof -
  have res: "resumers (prevs t) (mt_current_co t) (p # qs)" and dist: "distinct (p # qs)" and null: "mt_cos t 0 = None"
    and norm: "\<forall>q\<in>set qs. state_of t q = Some MCO_NORMAL"
    and rest: "\<forall>x. x \<notin> set (p # qs) \<longrightarrow> state_of t x \<in> {None, Some MCO_SUSPENDED, Some MCO_DEAD} \<and> prevs t x \<in> {None, Some 0}"
    using assms(1) unfolding mco_inv_def by auto
  obtain c r where c: "mt_cos t p = Some c" "mc_prev_co c = r" "resumers (prevs t) r qs" "p \<noteq> 0"
    using res by (auto simp: prevs_def)
  let ?c = "c\<lparr>mc_state := s, mc_prev_co := 0\<rparr>"
  show ?thesis
  proof (cases "r = 0")
    case True
    then have nil: "qs = []" using c(3) by (cases qs) auto
    let ?t = "t\<lparr>mt_cos := (mt_cos t)(p := Some ?c)\<rparr>\<lparr>mt_current_co := 0\<rparr>"
    have "do { t \<leftarrow> co_update p (\<lambda>c. c\<lparr>mc_state := s\<rparr>) t; mco_prepare_jumpout p t } = Some ?t"
      using c True by (simp add: co_update_def mco_prepare_jumpout_def Let_def)
    moreover have "mco_inv ?t []"
      using rest nil null c(4) assms(2) unfolding mco_inv_def state_of_current state_of_upd prevs_upd by auto
    ultimately show ?thesis using that nil by blast
  next
    case False
    then obtain qs' r' where qs: "qs = r # qs'" "prevs t r = Some r'" "resumers (prevs t) r' qs'"
      using resumers_hd [OF c(3)] by blast
    obtain d where d: "mt_cos t r = Some d" "mc_prev_co d = r'" using qs(2) by (auto simp: prevs_def)
    have ne: "r \<noteq> p" "p \<notin> set qs'" using dist qs(1) by auto
    let ?t = "t\<lparr>mt_cos := (mt_cos t)(p := Some ?c, r := Some (d\<lparr>mc_state := MCO_RUNNING\<rparr>))\<rparr>\<lparr>mt_current_co := r\<rparr>"
    have "do { t \<leftarrow> co_update p (\<lambda>c. c\<lparr>mc_state := s\<rparr>) t; mco_prepare_jumpout p t } = Some ?t"
      using c False d ne by (simp add: co_update_def mco_prepare_jumpout_def Let_def)
    moreover have st: "state_of ?t = (state_of t)(p := Some s, r := Some MCO_RUNNING)"
      and pv: "prevs ?t = (prevs t)(p := Some 0)"
      using d qs(2) ne by (auto simp: state_of_def prevs_def)
    have "resumers (prevs ?t) r qs"
      using pv c(3) ne qs(1) by (simp add: resumers_upd)
    then have "mco_inv ?t qs"
      using dist null rest norm qs(1) ne st pv False assms(2) c(4) unfolding mco_inv_def by auto
    ultimately show ?thesis using that by blast
  qed
qed

lemma mco_yield_inv:
  assumes "mco_inv t cs" "mco_yield stack_addr co t = Some (res, t')"
  shows "\<exists>cs. mco_inv t' cs"
proof (cases "res = MCO_SUCCESS")
  case False
  then have "t' = t" using assms(2)
    by (auto simp: mco_yield_def Let_def split: if_splits option.splits Option.bind_splits)
  then show ?thesis using assms(1) by blast
next
  case True
  then obtain c where c: "mt_cos t co = Some c" "mc_state c = MCO_RUNNING" "co \<noteq> 0"
    "do { t \<leftarrow> co_update co (\<lambda>c. c\<lparr>mc_state := MCO_SUSPENDED\<rparr>) t; mco_prepare_jumpout co t } = Some t'"
    using assms(2) by (auto simp: mco_yield_def Let_def split: if_splits option.splits Option.bind_splits)
  have "co \<in> set cs" using assms(1) c(1,2) unfolding mco_inv_def by (force simp: state_of_def)
  then obtain qs where "cs = co # qs"
    using assms(1) c(1,2) by (cases cs) (auto simp: mco_inv_def state_of_def)
  then show ?thesis using mco_jumpout_ok [of t co qs MCO_SUSPENDED] assms(1) c(4) by auto
qed

lemma mco_running_stack: "mco_inv t cs \<Longrightarrow> mco_running t \<noteq> 0 \<Longrightarrow> \<exists>qs. cs = mco_running t # qs"
  using resumers_hd by (fastforce simp: mco_inv_def mco_running_def)

lemma mco_reach_inv: "mco_reach t \<Longrightarrow> \<exists>cs. mco_inv t cs"
proof (induction rule: mco_reach.induct)
  case start
  then show ?case using mco_inv_start by blast
next
  case (create t addr sizeof_context makectx out_co desc res out t')
  then show ?case using mco_create_inv by blast
next
  case (resume t co res t')
  then obtain cs where cs: "mco_inv t cs" by blast
  show ?case
  proof (cases "\<exists>c. mt_cos t co = Some c \<and> mc_state c = MCO_SUSPENDED")
    case True
    then show ?thesis using mco_resume_enter_ok [OF cs] resume.hyps(2) by (metis option.inject prod.inject)
  next
    case False
    then have "t' = t" using resume.hyps(2) by (auto simp: mco_resume_enter_def split: if_splits option.splits)
    then show ?thesis using cs by blast
  qed
next
  case (yield t stack_addr co res t')
  then show ?case using mco_yield_inv by blast
next
  case (finish t t')
  then obtain cs where "mco_inv t cs" by blast
  then show ?case
    using mco_running_stack [of t cs] mco_jumpout_ok [of t "mco_running t" _ MCO_DEAD] finish.hyps
    by (auto simp: mco_main_return_def)
next
  case (destroy t co res t')
  then show ?case using mco_destroy_inv by blast
qed

lemma state_running_iff:
  assumes "mco_inv t cs"
  shows "state_of t p = Some MCO_RUNNING \<longleftrightarrow> p = mco_running t \<and> p \<noteq> 0"
proof (cases cs)
  case Nil
  then have "state_of t p \<in> {None, Some MCO_SUSPENDED, Some MCO_DEAD}" "mco_running t = 0"
    using assms by (auto simp: mco_inv_def mco_running_def)
  then show ?thesis by auto
next
  case (Cons q qs)
  have "p \<notin> set cs \<Longrightarrow> state_of t p \<noteq> Some MCO_RUNNING" using assms by (auto simp: mco_inv_def)
  moreover have "q \<noteq> 0" "mco_running t = q" using assms Cons by (auto simp: mco_inv_def mco_running_def)
  moreover have "state_of t q = Some MCO_RUNNING" "\<forall>r\<in>set qs. state_of t r = Some MCO_NORMAL"
    using assms Cons by (auto simp: mco_inv_def)
  ultimately show ?thesis using Cons by force
qed

section \<open>Layout of a coroutine\<close>

lemma align16_eq:
  assumes "n + 15 \<le> SIZE_MAX"
  shows "mco_align_forward n 16 = 16 * ((n + 15) div 16)"
proof -
  have "unat (word_of_nat (n + 15) :: u64) = n + 15"
    using assms unfolding SIZE_MAX_def by (subst unat_of_nat) (simp del: of_nat_add)
  then show ?thesis
    using unat_and_not_mask [of "word_of_nat (n + 15)" 4]
    by (simp add: mco_align_forward_def mask_eq_exp_minus_1 add.commute)
qed

lemma align16_add: "16 * ((16 * k + n + 15) div 16) = 16 * k + 16 * ((n + 15) div (16 :: nat))"
  using div_mult_self2 [of 16 "n + 15" k] by (simp add: add_ac add_mult_distrib2)

text \<open>
  C34: The parts of a coroutine fit into its block.  For a description from \<open>mco_desc_init\<close> (with a saved
  context of at most a megabyte and a stack of at most \<open>2 ^ 60\<close> bytes) and for any block address for which the
  block does not wrap around the address space, structure, context, storage and stack follow each
  other without overlap, are 16-byte aligned behind the structure, and end within the
  \<open>coro_size\<close> bytes that \<open>mco_create\<close> allocates.
\<close>

theorem mco_layout_fits:
  assumes "sizeof_context \<le> 2 ^ 20" "stack_size \<le> 2 ^ 60"
    and "desc = mco_desc_init sizeof_context func stack_size" "co + md_coro_size desc \<le> SIZE_MAX"
    and "mco_layout sizeof_context co desc = (context_addr, storage_addr, stack_addr)"
  shows "co + sizeof_mco_coro \<le> context_addr \<and> context_addr + sizeof_context \<le> storage_addr \<and>
    storage_addr + md_storage_size desc \<le> stack_addr \<and> stack_addr + md_stack_size desc \<le> co + md_coro_size desc \<and>
    16 dvd context_addr \<and> 16 dvd storage_addr \<and> 16 dvd stack_addr \<and>
    MCO_MIN_STACK_SIZE \<le> md_stack_size desc \<and> stack_size \<le> md_stack_size desc \<and> 16 dvd md_stack_size desc"
proof -
  define want where "want = (if stack_size \<noteq> 0 then (if stack_size < MCO_MIN_STACK_SIZE then MCO_MIN_STACK_SIZE else stack_size)
    else MCO_DEFAULT_STACK_SIZE)"
  have want: "MCO_MIN_STACK_SIZE \<le> want" "stack_size \<le> want" "want \<le> 2 ^ 60"
    using assms(2) by (auto simp: want_def MCO_MIN_STACK_SIZE_def MCO_DEFAULT_STACK_SIZE_def)
  define stk where "stk = mco_align_forward want 16"
  have stk: "stk = 16 * ((want + 15) div 16)"
    unfolding stk_def using want(3) by (intro align16_eq) (simp add: SIZE_MAX_def)
  then have want_le: "want \<le> stk" by arith
  have ctx: "mco_align_forward sizeof_context 16 = 16 * ((sizeof_context + 15) div 16)"
    using assms(1) by (intro align16_eq) (simp add: SIZE_MAX_def)
  have small: "mco_align_forward sizeof_mco_coro 16 = 144" "mco_align_forward MCO_DEFAULT_STORAGE_SIZE 16 = 1024"
    using align16_eq [of 136] align16_eq [of 1024]
    by (simp_all add: sizeof_mco_coro_def MCO_DEFAULT_STORAGE_SIZE_def SIZE_MAX_def)
  have bnd: "16 * ((sizeof_context + 15) div 16) \<le> 2 ^ 20 + 15" "stk \<le> 2 ^ 60 + 15"
    using assms(1) want(3) stk by simp_all
  have desc: "md_coro_size desc = 144 + 16 * ((sizeof_context + 15) div 16) + 1024 + stk + 16"
    "md_stack_size desc = stk" "md_storage_size desc = 1024"
  proof -
    have "desc = mco_init_desc_sizes sizeof_context \<lparr>md_func = func, md_user_data = 0, md_alloc_cb = True, md_dealloc_cb = True,
        md_allocator_data = 0, md_storage_size = MCO_DEFAULT_STORAGE_SIZE, md_coro_size = 0, md_stack_size = 0\<rparr> stk"
      by (simp only: assms(3) mco_desc_init_def Let_def want_def stk_def)
    then show "md_coro_size desc = 144 + 16 * ((sizeof_context + 15) div 16) + 1024 + stk + 16"
      "md_stack_size desc = stk" "md_storage_size desc = 1024"
      using bnd by (simp_all add: mco_init_desc_sizes_def ctx small sz_add_def SIZE_MAX_def)
        (simp add: MCO_DEFAULT_STORAGE_SIZE_def)
  qed
  have co: "co + 144 + 16 * ((sizeof_context + 15) div 16) + 1024 + stk + 16 \<le> SIZE_MAX"
    using assms(4) desc(1) by simp
  have lay: "context_addr = mco_align_forward (sz_add co 136) 16" "storage_addr = mco_align_forward (sz_add context_addr sizeof_context) 16"
    "stack_addr = mco_align_forward (sz_add storage_addr 1024) 16"
    using assms(5) desc(3) by (auto simp: mco_layout_def sizeof_mco_coro_def Let_def)
  have sc: "sizeof_context \<le> 16 * ((sizeof_context + 15) div 16)" by arith
  have c: "context_addr = 16 * ((co + 136 + 15) div 16)"
    using co sz_add_exact [of co 136] align16_eq [of "co + 136"] lay(1) by simp
  then have c_le: "context_addr \<le> co + 151" and c_ge: "co + 136 \<le> context_addr" by arith+
  have "context_addr + sizeof_context + 15 \<le> SIZE_MAX" using c_le co sc by linarith
  then have t: "storage_addr = 16 * ((context_addr + sizeof_context + 15) div 16)"
    using sz_add_exact [of context_addr sizeof_context] align16_eq [of "context_addr + sizeof_context"] lay(2) by simp
  then have t_eq: "storage_addr = context_addr + 16 * ((sizeof_context + 15) div 16)"
    using align16_add [of "(co + 136 + 15) div 16" sizeof_context] c by (simp only:)
  then have "storage_addr + 1024 + 15 \<le> SIZE_MAX" using c_le co want(1) want_le by (simp add: MCO_MIN_STACK_SIZE_def)
  then have "stack_addr = 16 * ((storage_addr + 1024 + 15) div 16)"
    using sz_add_exact [of storage_addr 1024] align16_eq [of "storage_addr + 1024"] lay(3) by simp
  then have k_eq: "stack_addr = storage_addr + 1024"
    using align16_add [of "(co + 136 + 15) div 16 + (sizeof_context + 15) div 16" 1024] c t_eq by (simp add: add_mult_distrib2)
  have "co + 136 \<le> context_addr \<and> context_addr + sizeof_context \<le> storage_addr \<and> storage_addr + 1024 \<le> stack_addr \<and>
      stack_addr + stk \<le> co + (144 + 16 * ((sizeof_context + 15) div 16) + 1024 + stk + 16)"
    using c_le c_ge t_eq sc k_eq by linarith
  moreover have "16 dvd context_addr \<and> 16 dvd storage_addr \<and> 16 dvd stack_addr \<and> 16 dvd stk"
    using c t_eq k_eq stk by (simp add: dvd_add)
  moreover have "MCO_MIN_STACK_SIZE \<le> stk \<and> stack_size \<le> stk"
    using want(1,2) want_le by linarith
  ultimately show ?thesis
    using desc by (simp add: sizeof_mco_coro_def)
qed

theorem mco_layout_fits_witness:
  "\<exists>context_addr storage_addr stack_addr. mco_layout 128 4096 (mco_desc_init 128 1 0) = (context_addr, storage_addr, stack_addr) \<and>
    4096 + sizeof_mco_coro \<le> context_addr \<and> context_addr + 128 \<le> storage_addr \<and>
    stack_addr + md_stack_size (mco_desc_init 128 1 0) \<le> 4096 + md_coro_size (mco_desc_init 128 1 0)"
proof -
  obtain c s k where l: "mco_layout 128 4096 (mco_desc_init 128 1 0) = (c, s, k)" by (metis prod_cases3)
  have al: "mco_align_forward 136 16 = 144" "mco_align_forward 128 16 = 128" "mco_align_forward 1024 16 = 1024"
    "mco_align_forward 1048576 16 = 1048576"
    using align16_eq [of 136] align16_eq [of 128] align16_eq [of 1024] align16_eq [of 1048576] by (simp_all add: SIZE_MAX_def)
  have "4096 + md_coro_size (mco_desc_init 128 1 0) \<le> SIZE_MAX"
    by (simp add: mco_desc_init_def mco_init_desc_sizes_def sizeof_mco_coro_def MCO_DEFAULT_STORAGE_SIZE_def
        MCO_DEFAULT_STACK_SIZE_def al sz_add_def SIZE_MAX_def)
  then show ?thesis using mco_layout_fits [OF _ _ refl _ l] l by simp
qed

section \<open>Properties of the state machine and the storage\<close>

text \<open>
  C33: The coroutine state machine is sound.  In every state that a thread can reach by creating, resuming,
  yielding, finishing and destroying coroutines in any order and nesting: the coroutine in state
  \<open>MCO_RUNNING\<close> is the one that \<open>mco_running\<close> names, and there is no other; resuming a coroutine
  that exists succeeds exactly if it is suspended, makes it the running one, and changes nothing otherwise; a
  running or normal coroutine cannot be destroyed; and none of these calls fails an assertion or
  touches freed memory, nor does the return of a coroutine's function.
\<close>

theorem mco_state_machine:
  assumes "mco_reach t"
  shows "(\<forall>p. state_of t p = Some MCO_RUNNING \<longleftrightarrow> p = mco_running t \<and> p \<noteq> 0) \<and>
    (\<forall>co c. mt_cos t co = Some c \<longrightarrow>
       (\<exists>res t'. mco_resume_enter co t = Some (res, t') \<and>
         (if mc_state c = MCO_SUSPENDED then res = MCO_SUCCESS \<and> mco_running t' = co
          else res = MCO_NOT_SUSPENDED \<and> t' = t)) \<and>
       (\<exists>res t'. mco_destroy co t = Some (res, t') \<and>
         (mc_state c \<in> {MCO_RUNNING, MCO_NORMAL} \<longrightarrow> res = MCO_INVALID_OPERATION \<and> t' = t)) \<and>
       (\<forall>a. \<exists>res t'. mco_yield a co t = Some (res, t') \<and> (res = MCO_SUCCESS \<longrightarrow> co = mco_running t))) \<and>
    (mco_running t \<noteq> 0 \<longrightarrow> (\<exists>t'. mco_main_return (mco_running t) t = Some t'))"
proof -
  obtain cs where cs: "mco_inv t cs" using mco_reach_inv [OF assms] by blast
  have "mt_cos t 0 = None" using cs by (simp add: mco_inv_def)
  then have nz: "co \<noteq> 0" if "mt_cos t co = Some c" for co c using that by (cases "co = 0") auto
  have "\<exists>res t'. mco_resume_enter co t = Some (res, t') \<and>
      (if mc_state c = MCO_SUSPENDED then res = MCO_SUCCESS \<and> mco_running t' = co else res = MCO_NOT_SUSPENDED \<and> t' = t)"
    if "mt_cos t co = Some c" for co c
  proof (cases "mc_state c = MCO_SUSPENDED")
    case True
    then show ?thesis using mco_resume_enter_ok [OF cs that] by auto
  next
    case False
    then show ?thesis using that nz [OF that] by (simp add: mco_resume_enter_def)
  qed
  moreover have "\<exists>res t'. mco_destroy co t = Some (res, t') \<and>
      (mc_state c \<in> {MCO_RUNNING, MCO_NORMAL} \<longrightarrow> res = MCO_INVALID_OPERATION \<and> t' = t)"
    if "mt_cos t co = Some c" for co c
    using that nz [OF that] by (auto simp: mco_destroy_def mco_uninit_def mco_dealloc_def co_update_def)
  moreover have "\<exists>res t'. mco_yield a co t = Some (res, t') \<and> (res = MCO_SUCCESS \<longrightarrow> co = mco_running t)"
    if live: "mt_cos t co = Some c" for a co c
  proof (cases "mc_state c = MCO_RUNNING")
    case True
    then have co: "co = mco_running t" using state_running_iff [OF cs, of co] live by (simp add: state_of_def)
    then obtain qs where "cs = co # qs" using mco_running_stack [OF cs] nz [OF live] by auto
    then obtain t' where "do { t \<leftarrow> co_update co (\<lambda>c. c\<lparr>mc_state := MCO_SUSPENDED\<rparr>) t; mco_prepare_jumpout co t } = Some t'"
      using mco_jumpout_ok [of t co qs MCO_SUSPENDED] cs by auto
    then show ?thesis using co live nz [OF live] True
      by (auto simp: mco_yield_def Let_def split: Option.bind_splits)
  next
    case False
    then show ?thesis using live nz [OF live] by (simp add: mco_yield_def Let_def)
  qed
  moreover have "\<exists>t'. mco_main_return (mco_running t) t = Some t'" if "mco_running t \<noteq> 0"
    using mco_running_stack [OF cs that] mco_jumpout_ok [of t "mco_running t" _ MCO_DEAD] cs
    by (auto simp: mco_main_return_def)
  ultimately show ?thesis using state_running_iff [OF cs] by blast
qed

theorem mco_state_machine_witness:
  "\<exists>t t' co. mco_create 128 MCO_SUCCESS 4096 (Some 0) (Some (mco_desc_init 128 1 0)) no_coroutines = Some (MCO_SUCCESS, Some co, t) \<and>
    mco_resume_enter co t = Some (MCO_SUCCESS, t') \<and> mco_running t' = co"
proof -
  have al: "mco_align_forward 136 16 = 144" "mco_align_forward 128 16 = 128" "mco_align_forward 1024 16 = 1024"
    "mco_align_forward 1048576 16 = 1048576"
    using align16_eq [of 136] align16_eq [of 128] align16_eq [of 1024] align16_eq [of 1048576] by (simp_all add: SIZE_MAX_def)
  obtain t c where t: "mco_create 128 MCO_SUCCESS 4096 (Some 0) (Some (mco_desc_init 128 1 0)) no_coroutines =
      Some (MCO_SUCCESS, Some 4096, t)" "mt_cos t 4096 = Some c" "mc_state c = MCO_SUSPENDED"
    by (simp add: mco_create_def mco_alloc_def mco_init_def mco_create_context_def co_update_def mco_validate_desc_def
        mco_desc_init_def mco_init_desc_sizes_def no_coroutines_def sizeof_mco_coro_def MCO_DEFAULT_STORAGE_SIZE_def
        MCO_DEFAULT_STACK_SIZE_def MCO_MIN_STACK_SIZE_def al sz_add_def SIZE_MAX_def Let_def case_prod_beta)
  have "mco_reach t"
    by (rule mco_reach.create [OF mco_reach.start _ t(1)]) (simp add: no_coroutines_def)
  note sm = mco_state_machine [OF this]
  then have "\<exists>res t'. mco_resume_enter 4096 t = Some (res, t') \<and>
      (if mc_state c = MCO_SUSPENDED then res = MCO_SUCCESS \<and> mco_running t' = 4096 else res = MCO_NOT_SUSPENDED \<and> t' = t)"
    using t(2) by blast
  then show ?thesis using t(1,3) by auto
qed

definition storage_ok :: "mco_coro \<Rightarrow> bool" where
  "storage_ok c \<longleftrightarrow> length (mc_storage c) = mc_storage_size c \<and> mc_bytes_stored c \<le> mc_storage_size c \<and>
     mc_storage_size c < 2 ^ 63"

text \<open>
  C38: The storage of a coroutine is a stack of bytes.  Pushing \<open>len\<close> bytes succeeds exactly if there is room, and
  then a peek or a pop of \<open>len\<close> bytes returns the bytes that were pushed, the pop restores the number of
  stored bytes, and the bytes below are untouched; a push without room and a pop or peek of
  more than is stored fail with \<open>MCO_NOT_ENOUGH_SPACE\<close> and change nothing.
\<close>

theorem mco_storage_lifo:
  assumes "storage_ok c" "0 < length src" "length src < 2 ^ 63" "length dest = length src"
  shows "if mc_bytes_stored c + length src \<le> mc_storage_size c
    then \<exists>c1 c2. mco_push (Some c) (Some src) (length src) = Some (MCO_SUCCESS, Some c1) \<and> storage_ok c1 \<and>
      mco_peek (Some c1) (Some dest) (length src) = Some (MCO_SUCCESS, Some src) \<and>
      mco_pop (Some c1) (Some dest) (length src) = Some (MCO_SUCCESS, Some c2, Some src) \<and> storage_ok c2 \<and>
      mc_bytes_stored c2 = mc_bytes_stored c \<and>
      take (mc_bytes_stored c) (mc_storage c2) = take (mc_bytes_stored c) (mc_storage c)
    else mco_push (Some c) (Some src) (length src) = Some (MCO_NOT_ENOUGH_SPACE, Some c)"
proof -
  have add: "sz_add (mc_bytes_stored c) (length src) = mc_bytes_stored c + length src"
    using assms(1,3) by (intro sz_add_exact) (simp add: storage_ok_def SIZE_MAX_def)
  have tk: "take (length src) (drop (mc_bytes_stored c) (splice (mc_storage c) (mc_bytes_stored c) src)) = src"
    if "mc_bytes_stored c + length src \<le> length (mc_storage c)"
    using that by (simp add: splice_def)
  show ?thesis
    using assms add tk
    by (auto simp: mco_push_def mco_peek_def mco_pop_def memcpy_def storage_ok_def splice_whole Let_def)
      (simp_all add: splice_def)
qed

theorem mco_storage_lifo_witness:
  "\<exists>c1 c2. mco_push (Some (zero_coro\<lparr>mc_storage := replicate 8 0, mc_storage_size := 8\<rparr>)) (Some [1, 2]) (length [1, 2 :: u8]) =
      Some (MCO_SUCCESS, Some c1) \<and>
    mco_pop (Some c1) (Some [9, 9]) (length [1, 2 :: u8]) = Some (MCO_SUCCESS, Some c2, Some [1, 2])"
  using mco_storage_lifo [of "zero_coro\<lparr>mc_storage := replicate 8 0, mc_storage_size := 8\<rparr>" "[1, 2]" "[9, 9]"]
  by (auto simp: storage_ok_def zero_coro_def)

end
