(* ===== verification/Routes.thy ===== *)
theory Routes
  imports Memory
begin

text \<open>
  The route table: \<^verbatim>\<open>include/routes.h\<close> and \<^verbatim>\<open>src/routes.c\<close>.  A two-level table maps the 32-bit hash of a
  procedure id to a chain of routes.  Writers hold a lock, build a new chain and publish it;
  the old chain is freed at once if no reader is active, and otherwise retired until the
  last reader leaves.

  Routes and retired nodes are blocks of the heap; what they contain is kept beside it, by
  address, and an access to an address that is not live is undefined (\<open>None\<close>).  Calls of
  finalizers, which are code of the user, are recorded in the order in which they happen.
  Whether a page can be mapped is an argument.  The lock is not part of the state: each
  function here is one critical section, and the interleaving with readers is a matter of
  the theory \<open>Routes_Concurrent\<close>.
\<close>

section \<open>Types\<close>

record wirecall_route =
  rt_proc_id :: u64
  rt_handler :: nat
  rt_deferred_handler :: nat
  rt_user_data :: nat
  rt_finalizer :: nat
  rt_is_async :: bool
  rt_is_deferred :: bool
  rt_next :: nat

record wirecall_retired_route =
  rr_route :: nat
  rr_finalize_proc_id :: u64
  rr_finalize_all :: bool
  rr_finalize_one :: bool
  rr_next :: nat

definition WIRECALL_ROUTE_PAGE_BITS :: nat where "WIRECALL_ROUTE_PAGE_BITS = 16"
definition WIRECALL_ROUTE_PAGE_SIZE :: nat where "WIRECALL_ROUTE_PAGE_SIZE = 65536"
definition WIRECALL_ROUTE_PAGE_MASK :: u32 where "WIRECALL_ROUTE_PAGE_MASK = 65535"
definition WIRECALL_ROUTE_ROOT_SIZE :: nat where "WIRECALL_ROUTE_ROOT_SIZE = 65536"
definition sizeof_route :: nat where "sizeof_route = 56"
definition sizeof_retired :: nat where "sizeof_retired = 32"

lemmas route_consts = WIRECALL_ROUTE_PAGE_BITS_def WIRECALL_ROUTE_PAGE_SIZE_def WIRECALL_ROUTE_PAGE_MASK_def
  WIRECALL_ROUTE_ROOT_SIZE_def sizeof_route_def sizeof_retired_def

text \<open>
  The member \<open>pages\<close> is \<open>NULL\<close>, the address of the root table, or an address that has been
  unmapped.  The root table holds the pages that have been mapped; a page holds the first route
  of each chain.
\<close>

datatype root_table = Null_Pages | Mapped "nat \<Rightarrow> (nat \<Rightarrow> nat) option" | Unmapped

record wirecall_routes =
  rs_pages :: root_table
  rs_root_bytes :: nat
  rs_page_bytes :: nat
  rs_active_readers :: u32
  rs_retired :: nat

text \<open>The table, the contents of routes and retired nodes, the heap, and the finalizers called so far.\<close>

record route_state =
  r_table :: wirecall_routes
  r_nodes :: "nat \<Rightarrow> wirecall_route"
  r_rets :: "nat \<Rightarrow> wirecall_retired_route"
  r_heap :: heap
  r_finalized :: "(nat \<times> nat) list"

definition node_get :: "nat \<Rightarrow> route_state \<Rightarrow> wirecall_route option" where
  "node_get p s = (if hp_size (r_heap s) p = None then None else Some (r_nodes s p))"

definition node_put :: "nat \<Rightarrow> wirecall_route \<Rightarrow> route_state \<Rightarrow> route_state option" where
  "node_put p v s = (if hp_size (r_heap s) p = None then None else Some (s\<lparr>r_nodes := (r_nodes s)(p := v)\<rparr>))"

definition ret_get :: "nat \<Rightarrow> route_state \<Rightarrow> wirecall_retired_route option" where
  "ret_get p s = (if hp_size (r_heap s) p = None then None else Some (r_rets s p))"

definition ret_put :: "nat \<Rightarrow> wirecall_retired_route \<Rightarrow> route_state \<Rightarrow> route_state option" where
  "ret_put p v s = (if hp_size (r_heap s) p = None then None else Some (s\<lparr>r_rets := (r_rets s)(p := v)\<rparr>))"

definition zero_route :: wirecall_route where
  "zero_route = \<lparr>rt_proc_id = 0, rt_handler = 0, rt_deferred_handler = 0, rt_user_data = 0, rt_finalizer = 0,
     rt_is_async = False, rt_is_deferred = False, rt_next = 0\<rparr>"

definition zero_ret :: wirecall_retired_route where
  "zero_ret = \<lparr>rr_route = 0, rr_finalize_proc_id = 0, rr_finalize_all = False, rr_finalize_one = False, rr_next = 0\<rparr>"

text \<open>\<open>wirecall_mem_calloc\<close> of a route and of a retired node.\<close>

definition route_calloc :: "wirecall_allocator \<Rightarrow> route_state \<Rightarrow> (nat \<times> route_state) option" where
  "route_calloc g s = do {
     (p, h) \<leftarrow> wirecall_mem_calloc g 1 sizeof_route (r_heap s);
     Some (p, if p = 0 then s\<lparr>r_heap := h\<rparr> else s\<lparr>r_heap := h, r_nodes := (r_nodes s)(p := zero_route)\<rparr>) }"

definition ret_calloc :: "wirecall_allocator \<Rightarrow> route_state \<Rightarrow> (nat \<times> route_state) option" where
  "ret_calloc g s = do {
     (p, h) \<leftarrow> wirecall_mem_calloc g 1 sizeof_retired (r_heap s);
     Some (p, if p = 0 then s\<lparr>r_heap := h\<rparr> else s\<lparr>r_heap := h, r_rets := (r_rets s)(p := zero_ret)\<rparr>) }"

definition node_free :: "wirecall_allocator \<Rightarrow> nat \<Rightarrow> route_state \<Rightarrow> route_state option" where
  "node_free g p s = do { h \<leftarrow> wirecall_mem_free g p (r_heap s); Some (s\<lparr>r_heap := h\<rparr>) }"

section \<open>Chains\<close>

definition route_finalize :: "wirecall_route \<Rightarrow> route_state \<Rightarrow> route_state" where
  "route_finalize route s =
     (if rt_finalizer route \<noteq> 0 then s\<lparr>r_finalized := r_finalized s @ [(rt_finalizer route, rt_user_data route)]\<rparr> else s)"

partial_function (option) route_chain_free ::
  "wirecall_allocator \<Rightarrow> nat \<Rightarrow> bool \<Rightarrow> bool \<Rightarrow> u64 \<Rightarrow> route_state \<Rightarrow> route_state option" where
  "route_chain_free g route finalize_all finalize_one finalize_proc_id s =
     (if route \<noteq> 0 then do {
        r \<leftarrow> node_get route s;
        let s = (if finalize_all \<or> finalize_one \<and> rt_proc_id r = finalize_proc_id then route_finalize r s else s);
        s \<leftarrow> node_free g route s;
        route_chain_free g (rt_next r) finalize_all finalize_one finalize_proc_id s }
      else Some s)"

definition route_index :: "u64 \<Rightarrow> u32" where
  "route_index proc_id = (
     let proc_id = proc_id XOR drop_bit 33 proc_id;
         proc_id = proc_id * 0xff51afd7ed558ccd;
         proc_id = proc_id XOR drop_bit 33 proc_id;
         proc_id = proc_id * 0xc4ceb9fe1a85ec53;
         proc_id = proc_id XOR drop_bit 33 proc_id
     in ucast proc_id)"

section \<open>Retired chains\<close>

partial_function (option) free_retired_loop :: "wirecall_allocator \<Rightarrow> nat \<Rightarrow> route_state \<Rightarrow> route_state option" where
  "free_retired_loop g node s =
     (if node \<noteq> 0 then do {
        n \<leftarrow> ret_get node s;
        s \<leftarrow> route_chain_free g (rr_route n) (rr_finalize_all n) (rr_finalize_one n) (rr_finalize_proc_id n) s;
        s \<leftarrow> node_free g node s;
        free_retired_loop g (rr_next n) s }
      else Some s)"

definition free_retired :: "wirecall_allocator \<Rightarrow> route_state \<Rightarrow> route_state option" where
  "free_retired g s =
     (if rs_active_readers (r_table s) \<noteq> 0 then Some s
      else let node = rs_retired (r_table s)
           in free_retired_loop g node (s\<lparr>r_table := (r_table s)\<lparr>rs_retired := 0\<rparr>\<rparr>))"

definition retire_route :: "wirecall_allocator \<Rightarrow> nat \<Rightarrow> bool \<Rightarrow> u64 \<Rightarrow> route_state \<Rightarrow> (int \<times> route_state) option" where
  "retire_route g route finalize_one finalize_proc_id s =
     (if route = 0 then Some (0, s)
      else if rs_active_readers (r_table s) = 0
      then do { s \<leftarrow> route_chain_free g route False finalize_one finalize_proc_id s; Some (0, s) }
      else do {
        (node, s) \<leftarrow> ret_calloc g s;
        if node = 0 then Some (-1, s)
        else do {
          s \<leftarrow> ret_put node \<lparr>rr_route = route, rr_finalize_proc_id = finalize_proc_id, rr_finalize_all = False,
                 rr_finalize_one = finalize_one, rr_next = rs_retired (r_table s)\<rparr> s;
          s \<leftarrow> free_retired g (s\<lparr>r_table := (r_table s)\<lparr>rs_retired := node\<rparr>\<rparr>);
          Some (0, s) } })"

section \<open>The table\<close>

text \<open>Initialisation; \<open>map_ok\<close> and \<open>mutex_ok\<close> say whether the root table can be mapped and the lock created.\<close>

definition zero_routes :: wirecall_routes where
  "zero_routes = \<lparr>rs_pages = Null_Pages, rs_root_bytes = 0, rs_page_bytes = 0, rs_active_readers = 0, rs_retired = 0\<rparr>"

definition wirecall_routes_init :: "bool \<Rightarrow> bool \<Rightarrow> nat \<Rightarrow> route_state \<Rightarrow> int \<times> route_state" where
  "wirecall_routes_init map_ok mutex_ok routes s =
     (if routes = 0 then (-1, s)
      else let t = zero_routes\<lparr>rs_root_bytes := WIRECALL_ROUTE_ROOT_SIZE * 8, rs_page_bytes := WIRECALL_ROUTE_PAGE_SIZE * 8,
                     rs_pages := if map_ok then Mapped (\<lambda>_. None) else Null_Pages\<rparr>
           in if rs_pages t = Null_Pages then (-1, s\<lparr>r_table := t\<rparr>)
              else if \<not> mutex_ok then (-1, s\<lparr>r_table := zero_routes\<rparr>)
              else (0, s\<lparr>r_table := t\<lparr>rs_active_readers := 0\<rparr>\<rparr>))"

text \<open>The atomic loads and stores of a slot; the index must be within root table and page.\<close>

definition page_load :: "nat \<Rightarrow> route_state \<Rightarrow> (nat \<Rightarrow> nat) option option" where
  "page_load page_idx s =
     (case rs_pages (r_table s) of
        Mapped pages \<Rightarrow> if page_idx < WIRECALL_ROUTE_ROOT_SIZE then Some (pages page_idx) else None
      | _ \<Rightarrow> None)"

definition slot_load :: "(nat \<Rightarrow> nat) \<Rightarrow> nat \<Rightarrow> nat option" where
  "slot_load page slot_idx = (if slot_idx < WIRECALL_ROUTE_PAGE_SIZE then Some (page slot_idx) else None)"

definition page_store :: "nat \<Rightarrow> (nat \<Rightarrow> nat) \<Rightarrow> route_state \<Rightarrow> route_state option" where
  "page_store page_idx page s =
     (case rs_pages (r_table s) of
        Mapped pages \<Rightarrow> if page_idx < WIRECALL_ROUTE_ROOT_SIZE
          then Some (s\<lparr>r_table := (r_table s)\<lparr>rs_pages := Mapped (pages(page_idx := Some page))\<rparr>\<rparr>) else None
      | _ \<Rightarrow> None)"

definition page_of :: "u64 \<Rightarrow> nat" where
  "page_of proc_id = unat (drop_bit WIRECALL_ROUTE_PAGE_BITS (route_index proc_id))"

definition slot_of :: "u64 \<Rightarrow> nat" where
  "slot_of proc_id = unat (route_index proc_id AND WIRECALL_ROUTE_PAGE_MASK)"

text \<open>
  The loop that copies the chain at \<open>it\<close> without the route of \<open>proc_id\<close>.  \<open>copy_tail\<close> is the last
  node of the copy, \<open>0\<close> while \<open>*copy_tail\<close> is the variable \<open>copy_head\<close>.  The result says whether
  memory sufficed, the head of the copy, and whether the route was found.
\<close>

partial_function (option) copy_chain ::
  "wirecall_allocator \<Rightarrow> u64 \<Rightarrow> nat \<Rightarrow> nat \<Rightarrow> nat \<Rightarrow> bool \<Rightarrow> route_state \<Rightarrow> (bool \<times> nat \<times> bool \<times> route_state) option" where
  "copy_chain g proc_id it copy_head copy_tail found s =
     (if it \<noteq> 0 then do {
        r \<leftarrow> node_get it s;
        if rt_proc_id r = proc_id then copy_chain g proc_id (rt_next r) copy_head copy_tail True s
        else do {
          (copy, s) \<leftarrow> route_calloc g s;
          if copy = 0 then Some (False, copy_head, found, s)
          else do {
            s \<leftarrow> node_put copy (r\<lparr>rt_next := 0\<rparr>) s;
            (copy_head, s) \<leftarrow>
              (if copy_tail = 0 then Some (copy, s)
               else do {
                 t \<leftarrow> node_get copy_tail s;
                 s \<leftarrow> node_put copy_tail (t\<lparr>rt_next := copy\<rparr>) s;
                 Some (copy_head, s) });
            copy_chain g proc_id (rt_next r) copy_head copy found s } } }
      else Some (True, copy_head, found, s))"

text \<open>
  \<open>routes_add_route\<close> in two parts: up to the store that publishes the new chain, and the
  retirement of the old one.  The first part returns \<open>Inl\<close> with the error code when it gives up,
  and \<open>Inr\<close> with the old chain and whether it held a route of this id otherwise.
\<close>

definition routes_add_publish ::
  "wirecall_allocator \<Rightarrow> bool \<Rightarrow> nat \<Rightarrow> route_state \<Rightarrow> ((int + nat \<times> bool) \<times> route_state) option" where
  "routes_add_publish g page_ok route s = do {
     r \<leftarrow> node_get route s;
     let proc_id = rt_proc_id r;
     let page_idx = page_of proc_id;
     let slot_idx = slot_of proc_id;
     page \<leftarrow> page_load page_idx s;
     (case (page, page_ok) of
        (None, False) \<Rightarrow> do { s \<leftarrow> node_free g route s; Some (Inl (-1), s) }
      | _ \<Rightarrow> do {
          (page, s) \<leftarrow> (case page of Some page \<Rightarrow> Some (page, s)
             | None \<Rightarrow> do { s \<leftarrow> page_store page_idx (\<lambda>_. 0) s; Some (\<lambda>_. 0, s) });
          old \<leftarrow> slot_load page slot_idx;
          (ok, copy_head, replaced, s) \<leftarrow> copy_chain g proc_id old route route False s;
          if \<not> ok then do { s \<leftarrow> route_chain_free g copy_head False False 0 s; Some (Inl (-1), s) }
          else do {
            s \<leftarrow> page_store page_idx (page(slot_idx := copy_head)) s;
            Some (Inr (old, replaced), s) } }) }"

definition routes_add_route :: "wirecall_allocator \<Rightarrow> bool \<Rightarrow> nat \<Rightarrow> nat \<Rightarrow> route_state \<Rightarrow> (int \<times> route_state) option" where
  "routes_add_route g page_ok routes route s =
     (if routes = 0 \<or> route = 0 then Some (-1, s)
      else do {
        proc_id \<leftarrow> do { r \<leftarrow> node_get route s; Some (rt_proc_id r) };
        (res, s) \<leftarrow> routes_add_publish g page_ok route s;
        (case res of Inl rc \<Rightarrow> Some (rc, s)
         | Inr (old, replaced) \<Rightarrow> retire_route g old replaced proc_id s) })"

definition wirecall_routes_add_ex ::
  "wirecall_allocator \<Rightarrow> bool \<Rightarrow> nat \<Rightarrow> u64 \<Rightarrow> nat \<Rightarrow> nat \<Rightarrow> nat \<Rightarrow> bool \<Rightarrow> route_state \<Rightarrow> (int \<times> route_state) option" where
  "wirecall_routes_add_ex g page_ok routes proc_id handler user_data finalizer is_async s =
     (if routes = 0 \<or> handler = 0 then Some (-1, s)
      else do {
        (route, s) \<leftarrow> route_calloc g s;
        if route = 0 then Some (-1, s)
        else do {
          s \<leftarrow> node_put route (zero_route\<lparr>rt_proc_id := proc_id, rt_handler := handler, rt_user_data := user_data,
                 rt_finalizer := finalizer, rt_is_async := is_async\<rparr>) s;
          routes_add_route g page_ok routes route s } })"

definition wirecall_routes_add ::
  "wirecall_allocator \<Rightarrow> bool \<Rightarrow> nat \<Rightarrow> u64 \<Rightarrow> nat \<Rightarrow> nat \<Rightarrow> route_state \<Rightarrow> (int \<times> route_state) option" where
  "wirecall_routes_add g page_ok routes proc_id handler user_data s =
     wirecall_routes_add_ex g page_ok routes proc_id handler user_data 0 False s"

definition wirecall_routes_add_deferred_ex ::
  "wirecall_allocator \<Rightarrow> bool \<Rightarrow> nat \<Rightarrow> u64 \<Rightarrow> nat \<Rightarrow> nat \<Rightarrow> nat \<Rightarrow> route_state \<Rightarrow> (int \<times> route_state) option" where
  "wirecall_routes_add_deferred_ex g page_ok routes proc_id handler user_data finalizer s =
     (if routes = 0 \<or> handler = 0 then Some (-1, s)
      else do {
        (route, s) \<leftarrow> route_calloc g s;
        if route = 0 then Some (-1, s)
        else do {
          s \<leftarrow> node_put route (zero_route\<lparr>rt_proc_id := proc_id, rt_deferred_handler := handler, rt_user_data := user_data,
                 rt_finalizer := finalizer, rt_is_deferred := True\<rparr>) s;
          routes_add_route g page_ok routes route s } })"

text \<open>\<open>wirecall_routes_remove\<close>, likewise in two parts.\<close>

definition routes_remove_publish ::
  "wirecall_allocator \<Rightarrow> u64 \<Rightarrow> route_state \<Rightarrow> ((int + nat) \<times> route_state) option" where
  "routes_remove_publish g proc_id s = do {
     let page_idx = page_of proc_id;
     let slot_idx = slot_of proc_id;
     page \<leftarrow> page_load page_idx s;
     old \<leftarrow> (case page of Some page \<Rightarrow> slot_load page slot_idx | None \<Rightarrow> Some 0);
     (ok, copy_head, removed, s) \<leftarrow> copy_chain g proc_id old 0 0 False s;
     if \<not> ok then do { s \<leftarrow> route_chain_free g copy_head False False 0 s; Some (Inl (-1), s) }
     else (case (page, removed) of
             (Some page, True) \<Rightarrow> do {
               s \<leftarrow> page_store page_idx (page(slot_idx := copy_head)) s;
               Some (Inr old, s) }
           | _ \<Rightarrow> do { s \<leftarrow> route_chain_free g copy_head False False 0 s;
                      Some (if removed then Inr old else Inl (-1), s) }) }"

definition wirecall_routes_remove :: "wirecall_allocator \<Rightarrow> nat \<Rightarrow> u64 \<Rightarrow> route_state \<Rightarrow> (int \<times> route_state) option" where
  "wirecall_routes_remove g routes proc_id s =
     (if routes = 0 then Some (-1, s)
      else do {
        (res, s) \<leftarrow> routes_remove_publish g proc_id s;
        (case res of Inl rc \<Rightarrow> Some (rc, s) | Inr old \<Rightarrow> retire_route g old True proc_id s) })"

section \<open>Lookup\<close>

definition lookup_enter :: "route_state \<Rightarrow> route_state" where
  "lookup_enter s = s\<lparr>r_table := (r_table s)\<lparr>rs_active_readers := rs_active_readers (r_table s) + 1\<rparr>\<rparr>"

definition lookup_load :: "u64 \<Rightarrow> route_state \<Rightarrow> nat option" where
  "lookup_load proc_id s = do {
     page \<leftarrow> page_load (page_of proc_id) s;
     (case page of Some page \<Rightarrow> slot_load page (slot_of proc_id) | None \<Rightarrow> Some 0) }"

partial_function (option) lookup_walk :: "u64 \<Rightarrow> nat \<Rightarrow> route_state \<Rightarrow> nat option" where
  "lookup_walk proc_id route s =
     (if route \<noteq> 0 then do {
        r \<leftarrow> node_get route s;
        if rt_proc_id r \<noteq> proc_id then lookup_walk proc_id (rt_next r) s else Some route }
      else Some 0)"

text \<open>The decrement, and the clean-up by the last reader.\<close>

definition lookup_leave :: "wirecall_allocator \<Rightarrow> route_state \<Rightarrow> route_state option" where
  "lookup_leave g s = (
     let old = rs_active_readers (r_table s);
         s = s\<lparr>r_table := (r_table s)\<lparr>rs_active_readers := old - 1\<rparr>\<rparr>
     in if old = 1 then free_retired g s else Some s)"

definition wirecall_routes_lookup ::
  "wirecall_allocator \<Rightarrow> nat \<Rightarrow> u64 \<Rightarrow> wirecall_route option \<Rightarrow> route_state \<Rightarrow> (int \<times> wirecall_route option \<times> route_state) option" where
  "wirecall_routes_lookup g routes proc_id out s =
     (if routes = 0 \<or> out = None then Some (-1, out, s)
      else do {
        let s = lookup_enter s;
        route \<leftarrow> lookup_load proc_id s;
        route \<leftarrow> lookup_walk proc_id route s;
        out \<leftarrow> (if route \<noteq> 0 then do { r \<leftarrow> node_get route s; Some (Some r) } else Some out);
        s \<leftarrow> lookup_leave g s;
        Some (if route \<noteq> 0 then 0 else -1, out, s) })"

section \<open>Destruction\<close>

text \<open>The loops over the slots of a page and over the pages, with \<open>n\<close> left to do.\<close>

fun destroy_page :: "wirecall_allocator \<Rightarrow> (nat \<Rightarrow> nat) \<Rightarrow> nat \<Rightarrow> nat \<Rightarrow> route_state \<Rightarrow> route_state option" where
  "destroy_page g page i 0 s = Some s"
| "destroy_page g page i (Suc n) s = do {
     s \<leftarrow> route_chain_free g (page i) True False 0 s;
     destroy_page g page (i + 1) n s }"

fun destroy_pages ::
  "wirecall_allocator \<Rightarrow> (nat \<Rightarrow> (nat \<Rightarrow> nat) option) \<Rightarrow> nat \<Rightarrow> nat \<Rightarrow> route_state \<Rightarrow> route_state option" where
  "destroy_pages g pages page_idx 0 s = Some s"
| "destroy_pages g pages page_idx (Suc n) s = do {
     s \<leftarrow> (case pages page_idx of None \<Rightarrow> Some s
           | Some page \<Rightarrow> destroy_page g page 0 WIRECALL_ROUTE_PAGE_SIZE s);
     destroy_pages g pages (page_idx + 1) n s }"

definition wirecall_routes_destroy :: "wirecall_allocator \<Rightarrow> nat \<Rightarrow> route_state \<Rightarrow> route_state option" where
  "wirecall_routes_destroy g routes s =
     (if routes = 0 then Some s
      else do {
        s \<leftarrow> (case rs_pages (r_table s) of
                Null_Pages \<Rightarrow> Some s
              | Mapped pages \<Rightarrow> do {
                  s \<leftarrow> destroy_pages g pages 0 WIRECALL_ROUTE_ROOT_SIZE s;
                  Some (s\<lparr>r_table := (r_table s)\<lparr>rs_pages := Unmapped\<rparr>\<rparr>) }
              | Unmapped \<Rightarrow> None);
        s \<leftarrow> free_retired_loop g (rs_retired (r_table s)) s;
        Some (s\<lparr>r_table := (r_table s)\<lparr>rs_retired := 0\<rparr>\<rparr>) })"

section \<open>Chains as lists of addresses\<close>

fun chain :: "(nat \<Rightarrow> wirecall_route) \<Rightarrow> nat \<Rightarrow> nat list \<Rightarrow> bool" where
  "chain nd p [] \<longleftrightarrow> p = 0"
| "chain nd p (a # L) \<longleftrightarrow> p = a \<and> a \<noteq> 0 \<and> chain nd (rt_next (nd a)) L"

text \<open>What a route says, without its link; and the finalizers that freeing a chain calls.\<close>

definition content :: "(nat \<Rightarrow> wirecall_route) \<Rightarrow> nat \<Rightarrow> wirecall_route" where
  "content nd p = (nd p)\<lparr>rt_next := 0\<rparr>"

definition finalizer_of :: "wirecall_route \<Rightarrow> (nat \<times> nat) list" where
  "finalizer_of r = (if rt_finalizer r \<noteq> 0 then [(rt_finalizer r, rt_user_data r)] else [])"

definition finals :: "(nat \<Rightarrow> wirecall_route) \<Rightarrow> bool \<Rightarrow> bool \<Rightarrow> u64 \<Rightarrow> nat list \<Rightarrow> (nat \<times> nat) list" where
  "finals nd every one i L =
     concat (map (\<lambda>p. finalizer_of (nd p)) (filter (\<lambda>p. every \<or> one \<and> rt_proc_id (nd p) = i) L))"

lemma chain_0 [simp]: "chain nd 0 L \<longleftrightarrow> L = []"
  by (cases L) auto

lemma chain_not_0: "p \<noteq> 0 \<Longrightarrow> chain nd p L \<longleftrightarrow> (\<exists>K. L = p # K \<and> chain nd (rt_next (nd p)) K)"
  by (cases L) auto

lemma chain_cong: "(\<And>p. p \<in> set L \<Longrightarrow> nd' p = nd p) \<Longrightarrow> chain nd' p L = chain nd p L"
  by (induction L arbitrary: p) auto

lemma chain_snoc:
  assumes "chain nd p K" "K \<noteq> []" "q \<noteq> 0" "q \<notin> set K" "distinct K" "rt_next r = 0"
  shows "chain (nd(q := r, last K := (nd (last K))\<lparr>rt_next := q\<rparr>)) p (K @ [q])"
  using assms
proof (induction K arbitrary: p)
  case (Cons a K)
  then show ?case by (cases "K = []") auto
qed simp

lemma content_sel [simp]:
  "rt_proc_id (content nd p) = rt_proc_id (nd p)" "rt_finalizer (content nd p) = rt_finalizer (nd p)"
  "rt_user_data (content nd p) = rt_user_data (nd p)" "finalizer_of (content nd p) = finalizer_of (nd p)"
  "rt_next (content nd p) = 0"
  by (simp_all add: content_def finalizer_of_def)

lemma finals_simps [simp]:
  "finals nd e w i [] = []"
  "finals nd e w i (p # L) = (if e \<or> w \<and> rt_proc_id (nd p) = i then finalizer_of (nd p) else []) @ finals nd e w i L"
  "finals nd False False i L = []"
  by (simp_all add: finals_def)

lemma finals_append [simp]: "finals nd e w i (K @ L) = finals nd e w i K @ finals nd e w i L"
  by (simp add: finals_def)

lemma finals_cong: "(\<And>p. p \<in> set L \<Longrightarrow> nd' p = nd p) \<Longrightarrow> finals nd' e w i L = finals nd e w i L"
  by (induction L) auto

text \<open>In a chain without two routes of one id, \<open>finalize_one\<close> calls the finalizer of the route of this id.\<close>

lemma finals_one:
  assumes "distinct (map (\<lambda>p. rt_proc_id (nd p)) L)"
  shows "finals nd False True i L =
    (case find (\<lambda>r. rt_proc_id r = i) (map (content nd) L) of None \<Rightarrow> [] | Some r \<Rightarrow> finalizer_of r)"
  using assms
proof (induction L)
  case (Cons p L)
  have "finals nd False True i L = []" if "rt_proc_id (nd p) = i"
    using Cons.prems that by (induction L) auto
  then show ?case using Cons by auto
qed simp

lemma find_filter_neq: "i \<noteq> j \<Longrightarrow>
    find (\<lambda>r. rt_proc_id r = j) (filter (\<lambda>r. rt_proc_id r \<noteq> i) rs) = find (\<lambda>r. rt_proc_id r = j) rs"
  by (induction rs) auto

lemma find_filter_eq: "find (\<lambda>r. rt_proc_id r = i) (filter (\<lambda>r. rt_proc_id r \<noteq> i) rs) = None"
  by (induction rs) auto

section \<open>What the loops do\<close>

lemma node_get_live [simp]: "p \<in> live (r_heap s) \<Longrightarrow> node_get p s = Some (r_nodes s p)"
  by (simp add: node_get_def live_def)

lemma node_put_live [simp]: "p \<in> live (r_heap s) \<Longrightarrow> node_put p v s = Some (s\<lparr>r_nodes := (r_nodes s)(p := v)\<rparr>)"
  by (simp add: node_put_def live_def)

lemma ret_get_live [simp]: "p \<in> live (r_heap s) \<Longrightarrow> ret_get p s = Some (r_rets s p)"
  by (simp add: ret_get_def live_def)

lemma ret_put_live [simp]: "p \<in> live (r_heap s) \<Longrightarrow> ret_put p v s = Some (s\<lparr>r_rets := (r_rets s)(p := v)\<rparr>)"
  by (simp add: ret_put_def live_def)

lemma heap_owns_in_live: "heap_owns B h0 h \<Longrightarrow> p \<in> B \<Longrightarrow> p \<in> live h"
  by (simp add: heap_owns_def)

lemma route_finalize_eq: "route_finalize r s = s\<lparr>r_finalized := r_finalized s @ finalizer_of r\<rparr>"
  by (simp add: route_finalize_def finalizer_of_def)

context library_memory
begin

lemma node_free_owned:
  assumes "heap_owns B h0 (r_heap s)" "p \<in> B"
  obtains h' where "node_free g p s = Some (s\<lparr>r_heap := h'\<rparr>)" "heap_owns (B - {p}) h0 h'"
    "reliable (r_heap s) \<longrightarrow> reliable h'"
proof -
  obtain h' where "wirecall_mem_free g p (r_heap s) = Some h'" "heap_owns (B - {p}) h0 h'"
    using free_owned [OF assms] by blast
  then show ?thesis using free_reliable by (intro that [of h']) (auto simp: node_free_def)
qed

lemma chain_free:
  assumes "heap_owns B h0 (r_heap s)" "chain (r_nodes s) p L" "distinct L" "set L \<subseteq> B"
  obtains h' where
    "route_chain_free g p every one i s =
       Some (s\<lparr>r_heap := h', r_finalized := r_finalized s @ finals (r_nodes s) every one i L\<rparr>)"
    "heap_owns (B - set L) h0 h'" "reliable (r_heap s) \<longrightarrow> reliable h'"
proof -
  have "\<exists>h'. route_chain_free g p every one i s =
       Some (s\<lparr>r_heap := h', r_finalized := r_finalized s @ finals (r_nodes s) every one i L\<rparr>)
     \<and> heap_owns (B - set L) h0 h' \<and> (reliable (r_heap s) \<longrightarrow> reliable h')"
    using assms
  proof (induction L arbitrary: p s B)
    case Nil
    then show ?case by (intro exI [of _ "r_heap s"]) (simp add: route_chain_free.simps)
  next
    case (Cons a L)
    let ?f = "if every \<or> one \<and> rt_proc_id (r_nodes s a) = i then finalizer_of (r_nodes s a) else []"
    let ?s = "s\<lparr>r_finalized := r_finalized s @ ?f\<rparr>"
    have a: "a \<in> B" "p = a" "a \<noteq> 0" using Cons.prems by auto
    obtain h1 where h1: "node_free g a ?s = Some (?s\<lparr>r_heap := h1\<rparr>)" "heap_owns (B - {a}) h0 h1"
      "reliable (r_heap s) \<longrightarrow> reliable h1"
      using node_free_owned [of B h0 ?s a] Cons.prems(1) a by auto
    obtain h2 where h2: "route_chain_free g (rt_next (r_nodes s a)) every one i (?s\<lparr>r_heap := h1\<rparr>) =
        Some (?s\<lparr>r_heap := h2, r_finalized := r_finalized s @ ?f @ finals (r_nodes s) every one i L\<rparr>)"
      "heap_owns (B - {a} - set L) h0 h2" "reliable h1 \<longrightarrow> reliable h2"
      using Cons.IH [of "B - {a}" "?s\<lparr>r_heap := h1\<rparr>" "rt_next (r_nodes s a)"] h1 Cons.prems by auto
    have "node_get a s = Some (r_nodes s a)"
      using heap_owns_in_live [OF Cons.prems(1) a(1)] by simp
    then have "route_chain_free g p every one i s = route_chain_free g (rt_next (r_nodes s a)) every one i (?s\<lparr>r_heap := h1\<rparr>)"
      using a h1(1) by (subst route_chain_free.simps) (auto simp: route_finalize_eq)
    moreover have "B - set (a # L) = B - {a} - set L" by auto
    ultimately show ?case using h1(3) h2 by (intro exI [of _ h2]) auto
  qed
  then show ?thesis using that by blast
qed

end

text \<open>Retired nodes: each with the chain it keeps, from the newest to the oldest.\<close>

fun rets :: "(nat \<Rightarrow> wirecall_route) \<Rightarrow> (nat \<Rightarrow> wirecall_retired_route) \<Rightarrow> nat \<Rightarrow> (nat \<times> nat list) list \<Rightarrow> bool" where
  "rets nd rn p [] \<longleftrightarrow> p = 0"
| "rets nd rn p ((n, L) # R) \<longleftrightarrow> p = n \<and> n \<noteq> 0 \<and> chain nd (rr_route (rn n)) L \<and> rets nd rn (rr_next (rn n)) R"

definition ret_addrs :: "(nat \<times> nat list) list \<Rightarrow> nat list" where
  "ret_addrs R = concat (map (\<lambda>(n, L). n # L) R)"

definition ret_finals ::
  "(nat \<Rightarrow> wirecall_route) \<Rightarrow> (nat \<Rightarrow> wirecall_retired_route) \<Rightarrow> (nat \<times> nat list) list \<Rightarrow> (nat \<times> nat) list" where
  "ret_finals nd rn R = concat (map (\<lambda>(n, L).
     finals nd (rr_finalize_all (rn n)) (rr_finalize_one (rn n)) (rr_finalize_proc_id (rn n)) L) R)"

lemma ret_simps [simp]:
  "ret_addrs [] = []" "ret_addrs ((n, L) # R) = n # L @ ret_addrs R" "ret_finals nd rn [] = []"
  "ret_finals nd rn ((n, L) # R) =
     finals nd (rr_finalize_all (rn n)) (rr_finalize_one (rn n)) (rr_finalize_proc_id (rn n)) L @ ret_finals nd rn R"
  by (simp_all add: ret_addrs_def ret_finals_def)

lemma rets_cong: "(\<And>p. p \<in> set (ret_addrs R) \<Longrightarrow> nd' p = nd p \<and> rn' p = rn p) \<Longrightarrow> rets nd' rn' p R = rets nd rn p R"
proof (induction nd rn p R rule: rets.induct)
  case (2 nd rn p n L R)
  then show ?case using chain_cong [of L nd' nd] by auto
qed simp

lemma ret_finals_cong:
  "(\<And>p. p \<in> set (ret_addrs R) \<Longrightarrow> nd' p = nd p \<and> rn' p = rn p) \<Longrightarrow> ret_finals nd' rn' R = ret_finals nd rn R"
proof (induction R)
  case (Cons x R)
  obtain n L where "x = (n, L)" by (cases x)
  then show ?case using Cons finals_cong [of L nd' nd] by auto
qed simp

context library_memory
begin

lemma retired_loop:
  assumes "heap_owns B h0 (r_heap s)" "rets (r_nodes s) (r_rets s) p R" "distinct (ret_addrs R)" "set (ret_addrs R) \<subseteq> B"
  obtains h' where
    "free_retired_loop g p s =
       Some (s\<lparr>r_heap := h', r_finalized := r_finalized s @ ret_finals (r_nodes s) (r_rets s) R\<rparr>)"
    "heap_owns (B - set (ret_addrs R)) h0 h'" "reliable (r_heap s) \<longrightarrow> reliable h'"
proof -
  have "\<exists>h'. free_retired_loop g p s =
       Some (s\<lparr>r_heap := h', r_finalized := r_finalized s @ ret_finals (r_nodes s) (r_rets s) R\<rparr>)
     \<and> heap_owns (B - set (ret_addrs R)) h0 h' \<and> (reliable (r_heap s) \<longrightarrow> reliable h')"
    using assms
  proof (induction R arbitrary: p s B)
    case Nil
    then show ?case by (intro exI [of _ "r_heap s"]) (simp add: free_retired_loop.simps)
  next
    case (Cons x R)
    obtain n L where x: "x = (n, L)" by (cases x)
    let ?f = "finals (r_nodes s) (rr_finalize_all (r_rets s n)) (rr_finalize_one (r_rets s n))
      (rr_finalize_proc_id (r_rets s n)) L"
    have n: "n \<in> B" "p = n" "n \<noteq> 0" "chain (r_nodes s) (rr_route (r_rets s n)) L" "set L \<subseteq> B" "distinct L" "n \<notin> set L"
      "rets (r_nodes s) (r_rets s) (rr_next (r_rets s n)) R" "distinct (ret_addrs R)" "set (ret_addrs R) \<subseteq> B - set L - {n}"
      using Cons.prems x by auto
    obtain h1 where h1: "route_chain_free g (rr_route (r_rets s n)) (rr_finalize_all (r_rets s n))
        (rr_finalize_one (r_rets s n)) (rr_finalize_proc_id (r_rets s n)) s =
        Some (s\<lparr>r_heap := h1, r_finalized := r_finalized s @ ?f\<rparr>)"
      "heap_owns (B - set L) h0 h1" "reliable (r_heap s) \<longrightarrow> reliable h1"
      using chain_free [OF Cons.prems(1) n(4,6,5)] by metis
    let ?s1 = "s\<lparr>r_heap := h1, r_finalized := r_finalized s @ ?f\<rparr>"
    obtain h2 where h2: "node_free g n ?s1 = Some (?s1\<lparr>r_heap := h2\<rparr>)" "heap_owns (B - set L - {n}) h0 h2"
      "reliable h1 \<longrightarrow> reliable h2"
      using node_free_owned [of "B - set L" h0 ?s1 n] h1(2) n by auto
    obtain h3 where h3: "free_retired_loop g (rr_next (r_rets s n)) (?s1\<lparr>r_heap := h2\<rparr>) =
        Some (?s1\<lparr>r_heap := h3, r_finalized := r_finalized s @ ?f @ ret_finals (r_nodes s) (r_rets s) R\<rparr>)"
      "heap_owns (B - set L - {n} - set (ret_addrs R)) h0 h3" "reliable h2 \<longrightarrow> reliable h3"
      using Cons.IH [of "B - set L - {n}" "?s1\<lparr>r_heap := h2\<rparr>" "rr_next (r_rets s n)"] h2 n by auto
    have "ret_get n s = Some (r_rets s n)"
      using heap_owns_in_live [OF Cons.prems(1) n(1)] by simp
    then have "free_retired_loop g p s = free_retired_loop g (rr_next (r_rets s n)) (?s1\<lparr>r_heap := h2\<rparr>)"
      using n(2,3) h1(1) h2(1) by (subst free_retired_loop.simps) simp
    moreover have "B - set (ret_addrs (x # R)) = B - set L - {n} - set (ret_addrs R)" using x by auto
    ultimately show ?case using h1(3) h2(3) h3 x by (intro exI [of _ h3]) simp
  qed
  then show ?thesis using that by blast
qed

lemma route_calloc_cases:
  assumes "heap_owns B h0 (r_heap s)"
  obtains (fail) h' where "route_calloc g s = Some (0, s\<lparr>r_heap := h'\<rparr>)" "heap_owns B h0 h'" "\<not> reliable (r_heap s)"
  | (fresh) q h' where "route_calloc g s = Some (q, s\<lparr>r_heap := h', r_nodes := (r_nodes s)(q := zero_route)\<rparr>)"
      "q \<noteq> 0" "q \<notin> B" "heap_owns (insert q B) h0 h'" "reliable (r_heap s) \<longrightarrow> reliable h'"
proof -
  have "heap_ok (r_heap s)" "0 < sizeof_route" "sizeof_route \<le> SIZE_MAX"
    using heap_owns_ok [OF assms] by (simp_all add: sizeof_route_def SIZE_MAX_def)
  then show ?thesis
  proof (cases rule: calloc_cases)
    case (fail h')
    then show ?thesis using that(1) [of h'] heap_owns_trans [OF assms fail(2)] by (simp add: route_calloc_def)
  next
    case (fresh p h')
    then show ?thesis
      using that(2) [of p h'] heap_owns_trans [OF assms fresh(3)] assms
      by (auto simp: route_calloc_def heap_owns_def)
  qed
qed

lemma ret_calloc_cases:
  assumes "heap_owns B h0 (r_heap s)"
  obtains (fail) h' where "ret_calloc g s = Some (0, s\<lparr>r_heap := h'\<rparr>)" "heap_owns B h0 h'" "\<not> reliable (r_heap s)"
  | (fresh) q h' where "ret_calloc g s = Some (q, s\<lparr>r_heap := h', r_rets := (r_rets s)(q := zero_ret)\<rparr>)"
      "q \<noteq> 0" "q \<notin> B" "heap_owns (insert q B) h0 h'" "reliable (r_heap s) \<longrightarrow> reliable h'"
proof -
  have "heap_ok (r_heap s)" "0 < sizeof_retired" "sizeof_retired \<le> SIZE_MAX"
    using heap_owns_ok [OF assms] by (simp_all add: sizeof_retired_def SIZE_MAX_def)
  then show ?thesis
  proof (cases rule: calloc_cases)
    case (fail h')
    then show ?thesis using that(1) [of h'] heap_owns_trans [OF assms fail(2)] by (simp add: ret_calloc_def)
  next
    case (fresh p h')
    then show ?thesis
      using that(2) [of p h'] heap_owns_trans [OF assms fresh(3)] assms
      by (auto simp: ret_calloc_def heap_owns_def)
  qed
qed

end

section \<open>Copying a chain\<close>

text \<open>
  The copy \<open>K\<close> has been extended by the fresh nodes \<open>K'\<close>; nothing outside the copy has changed.
\<close>

definition copied ::
  "nat set \<Rightarrow> heap \<Rightarrow> (nat \<Rightarrow> wirecall_route) \<Rightarrow> nat list \<Rightarrow> nat \<Rightarrow> nat list \<Rightarrow> (nat \<Rightarrow> wirecall_route) \<Rightarrow> heap \<Rightarrow> bool" where
  "copied B h0 nd K p K' nd' h' \<longleftrightarrow> chain nd' p (K @ K') \<and> distinct (K @ K') \<and> set K' \<inter> B = {} \<and>
     heap_owns (B \<union> set K') h0 h' \<and> (\<forall>q\<in>B - set K. nd' q = nd q) \<and> map (content nd') K = map (content nd) K"

lemma copied_extend:
  assumes K: "chain nd p K" "distinct K" "set K \<subseteq> B" and q: "q \<noteq> 0" "q \<notin> B"
    and nd1: "nd1 = (if K = [] then nd(q := r) else nd(q := r, last K := (nd (last K))\<lparr>rt_next := q\<rparr>))"
    and r: "rt_next r = 0"
  shows "chain nd1 (if K = [] then q else p) (K @ [q])" "\<forall>x\<in>B - set K. nd1 x = nd x"
    "map (content nd1) (K @ [q]) = map (content nd) K @ [r]"
proof -
  have q': "q \<notin> set K" using K q by auto
  have off: "nd1 x = nd x" if "x \<noteq> q" "x \<notin> set K" for x
    using that last_in_set [of K] by (cases "K = []") (auto simp: nd1)
  have on: "content nd1 x = content nd x" if "x \<in> set K" for x
  proof -
    have "x \<noteq> q" using that q' by blast
    then show ?thesis by (simp add: nd1 content_def)
  qed
  have "nd1 q = r"
    using q' last_in_set [of K] by (cases "K = []") (auto simp: nd1)
  then have at: "content nd1 q = r"
    using r by (cases r) (simp add: content_def)
  show "chain nd1 (if K = [] then q else p) (K @ [q])"
    using chain_snoc [OF K(1) _ q(1) q' K(2) r] nd1 q r by (cases "K = []") simp_all
  show "\<forall>x\<in>B - set K. nd1 x = nd x"
  proof
    fix x
    assume "x \<in> B - set K"
    then show "nd1 x = nd x" using q(2) by (intro off) auto
  qed
  show "map (content nd1) (K @ [q]) = map (content nd) K @ [r]"
    using on at q' by (auto intro!: map_cong)
qed

lemma copied_trans:
  assumes "\<forall>x\<in>B - set K. nd1 x = nd x" "map (content nd1) (K @ [q]) = map (content nd) K @ [r]" "q \<notin> B" "set K \<subseteq> B"
    and "copied (insert q B) h0 nd1 (K @ [q]) p K' nd' h'"
  shows "copied B h0 nd K p (q # K') nd' h' \<and> map (content nd') (q # K') = r # map (content nd') K'"
proof -
  have "\<forall>x\<in>B - set K. nd' x = nd x"
    using assms by (auto simp: copied_def)
  then show ?thesis using assms by (auto simp: copied_def)
qed

context library_memory
begin

lemma copy_chain:
  assumes "heap_owns B h0 (r_heap s)" "chain (r_nodes s) it L" "set L \<subseteq> B"
    and "chain (r_nodes s) p K" "distinct K" "set K \<subseteq> B" "set K \<inter> set L = {}" "t = (if K = [] then 0 else last K)"
  shows "\<exists>ok p' found' h' nd' K'.
     copy_chain g i it p t found s = Some (ok, p', found', s\<lparr>r_heap := h', r_nodes := nd'\<rparr>) \<and>
     copied B h0 (r_nodes s) K p' K' nd' h' \<and> (reliable (r_heap s) \<longrightarrow> reliable h' \<and> ok) \<and>
     (ok \<longrightarrow> found' = (found \<or> i \<in> (\<lambda>q. rt_proc_id (r_nodes s q)) ` set L) \<and>
       map (content nd') K' = filter (\<lambda>r. rt_proc_id r \<noteq> i) (map (content (r_nodes s)) L))"
  using assms
proof (induction L arbitrary: it p t found s B K)
  case Nil
  then show ?case
    by (intro exI [of _ True] exI [of _ p] exI [of _ found] exI [of _ "r_heap s"] exI [of _ "r_nodes s"] exI [of _ "[]"])
      (simp add: copy_chain.simps copied_def)
next
  case (Cons a L)
  let ?nd = "r_nodes s"
  have a: "it = a" "a \<noteq> 0" "a \<in> B" "chain ?nd (rt_next (?nd a)) L" "set L \<subseteq> B" "set K \<inter> set L = {}" "a \<notin> set K"
    using Cons.prems by auto
  have get: "node_get a s = Some (?nd a)"
    using heap_owns_in_live [OF Cons.prems(1) a(3)] by simp
  show ?case
  proof (cases "rt_proc_id (?nd a) = i")
    case True
    have "copy_chain g i it p t found s = copy_chain g i (rt_next (?nd a)) p t True s"
      using a get True by (subst copy_chain.simps) simp
    then show ?thesis
      using Cons.IH [OF Cons.prems(1) a(4,5) Cons.prems(4,5,6) a(6) Cons.prems(8), of True] True by simp
  next
    case False
    from Cons.prems(1) show ?thesis
    proof (cases rule: route_calloc_cases)
      case (fail h')
      have "copy_chain g i it p t found s = Some (False, p, found, s\<lparr>r_heap := h', r_nodes := ?nd\<rparr>)"
        using a get False fail(1) by (subst copy_chain.simps) simp
      then show ?thesis using fail Cons.prems
        by (intro exI [of _ False] exI [of _ p] exI [of _ found] exI [of _ h'] exI [of _ ?nd] exI [of _ "[]"])
          (simp add: copied_def)
    next
      case (fresh q h1)
      let ?r = "(?nd a)\<lparr>rt_next := 0\<rparr>"
      define nd1 where "nd1 = (if K = [] then ?nd(q := ?r) else ?nd(q := ?r, last K := (?nd (last K))\<lparr>rt_next := q\<rparr>))"
      let ?s1 = "s\<lparr>r_heap := h1, r_nodes := nd1\<rparr>"
      let ?p1 = "if K = [] then q else p"
      have lk: "last K \<in> B" if "K \<noteq> []"
        using Cons.prems(6) last_in_set [OF that] by blast
      have lv: "q \<in> live h1" "K \<noteq> [] \<Longrightarrow> last K \<in> live h1" "K \<noteq> [] \<Longrightarrow> last K \<noteq> q" "K \<noteq> [] \<Longrightarrow> last K \<noteq> 0"
        using heap_owns_in_live [OF fresh(4)] lk fresh(3) heap_owns_not_null [OF Cons.prems(1)] by (blast, blast, blast, metis)
      have step: "copy_chain g i it p t found s = copy_chain g i (rt_next (?nd a)) ?p1 q found ?s1"
        using a get False fresh(1,2) lv Cons.prems(8)
        by (subst copy_chain.simps, cases "K = []") (simp_all add: nd1_def)
      have r0: "rt_next ?r = 0" by simp
      note ext = copied_extend [OF Cons.prems(4,5,6) fresh(2,3) nd1_def r0]
      have same: "nd1 x = ?nd x" if "x \<in> set L" for x
        using that a(5,6) ext(2) by blast
      have ch: "chain (r_nodes ?s1) (rt_next (?nd a)) L"
        using a(4) chain_cong [of L nd1 ?nd] same by simp
      have cont: "map (content nd1) L = map (content ?nd) L"
        and pids: "(\<lambda>q. rt_proc_id (nd1 q)) ` set L = (\<lambda>q. rt_proc_id (?nd q)) ` set L"
        using same by (simp_all add: content_def)
      have pre: "heap_owns (insert q B) h0 (r_heap ?s1)" "set L \<subseteq> insert q B" "chain (r_nodes ?s1) ?p1 (K @ [q])"
        "distinct (K @ [q])" "set (K @ [q]) \<subseteq> insert q B" "set (K @ [q]) \<inter> set L = {}"
        "q = (if K @ [q] = [] then 0 else last (K @ [q]))"
        using fresh(3,4) a(5,6) ext(1) Cons.prems(5,6) by auto
      obtain ok p' found' h' nd' K' where IH:
        "copy_chain g i (rt_next (?nd a)) ?p1 q found ?s1 = Some (ok, p', found', ?s1\<lparr>r_heap := h', r_nodes := nd'\<rparr>)"
        "copied (insert q B) h0 nd1 (K @ [q]) p' K' nd' h'" "reliable h1 \<longrightarrow> reliable h' \<and> ok"
        "ok \<longrightarrow> found' = (found \<or> i \<in> (\<lambda>q. rt_proc_id (nd1 q)) ` set L) \<and>
           map (content nd') K' = filter (\<lambda>r. rt_proc_id r \<noteq> i) (map (content nd1) L)"
        using Cons.IH [OF pre(1) ch pre(2-7), of found] by auto
      have cp: "copied B h0 ?nd K p' (q # K') nd' h' \<and> map (content nd') (q # K') = ?r # map (content nd') K'"
        using copied_trans [OF ext(2,3) fresh(3) Cons.prems(6) IH(2)] .
      have "?r = content ?nd a" by (simp add: content_def)
      then show ?thesis
        using step IH(1,3,4) cp False fresh(5) unfolding cont pids
        by (intro exI [of _ ok] exI [of _ p'] exI [of _ found'] exI [of _ h'] exI [of _ nd'] exI [of _ "q # K'"]) auto
    qed
  qed
qed

end

end
