(* ===== verification/Routes_Table.thy ===== *)
theory Routes_Table
  imports Routes "HOL-Library.Multiset"
begin

text \<open>
  The route table as a map from procedure ids to routes.  The invariant of the table relates
  its pages, chains and retired nodes to the heap; under it every operation is defined,
  behaves like the operation on the map, calls finalizers exactly when a registration ends,
  and neither leaks nor touches freed memory.
\<close>

section \<open>The invariant of the table\<close>

text \<open>
  \<open>C\<close> gives for each slot the addresses of its chain, \<open>R\<close> the retired nodes with their chains, and
  \<open>D\<close> the nodes that the table owns without reaching them: a route that is about to be installed,
  a chain that has just been replaced, and chains that were lost because retiring them failed.
\<close>

type_synonym chains = "nat \<times> nat \<Rightarrow> nat list"

definition home :: "u64 \<Rightarrow> nat \<times> nat" where
  "home i = (page_of i, slot_of i)"

definition first_route :: "(nat \<Rightarrow> (nat \<Rightarrow> nat) option) \<Rightarrow> nat \<times> nat \<Rightarrow> nat" where
  "first_route pages x = (case pages (fst x) of None \<Rightarrow> 0 | Some page \<Rightarrow> page (snd x))"

definition blocks :: "chains \<Rightarrow> (nat \<times> nat list) list \<Rightarrow> nat list \<Rightarrow> nat set" where
  "blocks C R D = (\<Union>x. set (C x)) \<union> set (ret_addrs R) \<union> set D"

definition pages_inv :: "(nat \<Rightarrow> wirecall_route) \<Rightarrow> root_table \<Rightarrow> chains \<Rightarrow> bool" where
  "pages_inv nd t C \<longleftrightarrow> (\<exists>pages. t = Mapped pages \<and> (\<forall>x. chain nd (first_route pages x) (C x))) \<and>
     (\<forall>x. \<forall>p\<in>set (C x). home (rt_proc_id (nd p)) = x) \<and> (\<forall>x. distinct (map (\<lambda>p. rt_proc_id (nd p)) (C x)))"

definition routes_inv :: "heap \<Rightarrow> chains \<Rightarrow> (nat \<times> nat list) list \<Rightarrow> nat list \<Rightarrow> route_state \<Rightarrow> bool" where
  "routes_inv h0 C R D s \<longleftrightarrow> pages_inv (r_nodes s) (rs_pages (r_table s)) C \<and>
     rets (r_nodes s) (r_rets s) (rs_retired (r_table s)) R \<and> distinct (ret_addrs R @ D) \<and>
     (\<Union>x. set (C x)) \<inter> set (ret_addrs R @ D) = {} \<and> heap_owns (blocks C R D) h0 (r_heap s)"

text \<open>The routes that the table holds, by id.\<close>

definition tbl :: "(nat \<Rightarrow> wirecall_route) \<Rightarrow> chains \<Rightarrow> u64 \<Rightarrow> wirecall_route option" where
  "tbl nd C i = find (\<lambda>r. rt_proc_id r = i) (map (content nd) (C (home i)))"

text \<open>The part of the state that an operation on chains keeps.\<close>

definition same_rest :: "nat set \<Rightarrow> route_state \<Rightarrow> route_state \<Rightarrow> bool" where
  "same_rest B s s' \<longleftrightarrow> (\<forall>p\<in>B. r_nodes s' p = r_nodes s p) \<and> r_rets s' = r_rets s \<and> r_finalized s' = r_finalized s \<and>
     rs_active_readers (r_table s') = rs_active_readers (r_table s) \<and> rs_retired (r_table s') = rs_retired (r_table s)"

lemma page_of_less [simp]: "page_of i < 65536"
proof -
  have "unat (route_index i) < 65536 * 65536"
    using unsigned_less [of "route_index i", where 'a = nat] by simp
  then have "drop_bit 16 (take_bit 32 (unat (route_index i))) < 65536"
    by (simp add: drop_bit_eq_div take_bit_nat_eq_self less_mult_imp_div_less)
  then show ?thesis by (simp add: page_of_def route_consts unsigned_drop_bit_eq)
qed

lemma slot_of_less [simp]: "slot_of i < 65536"
proof -
  have "route_index i AND 65535 \<le> 65535"
    by (rule word_and_le1)
  then have "unat (route_index i AND 65535) \<le> unat (65535 :: u32)"
    by (simp only: word_le_nat_alt)
  then show ?thesis by (simp add: slot_of_def route_consts)
qed

lemma page_of_in_range [simp]: "page_of i < WIRECALL_ROUTE_ROOT_SIZE" "slot_of i < WIRECALL_ROUTE_PAGE_SIZE"
  by (simp_all add: route_consts)

lemma first_route_update [simp]:
  "first_route (pages(i := Some page)) x = (if fst x = i then page (snd x) else first_route pages x)"
  by (simp add: first_route_def)

lemma pages_inv_nodes:
  assumes "pages_inv nd t C" "\<And>x p. p \<in> set (C x) \<Longrightarrow> nd' p = nd p"
  shows "pages_inv nd' t C"
proof -
  have m: "map (\<lambda>p. rt_proc_id (nd' p)) (C x) = map (\<lambda>p. rt_proc_id (nd p)) (C x)" for x
    using assms(2) by simp
  have c: "chain nd' p (C x) = chain nd p (C x)" for p x
    using assms(2) by (rule chain_cong)
  have h: "(\<forall>p\<in>set (C x). home (rt_proc_id (nd' p)) = x) = (\<forall>p\<in>set (C x). home (rt_proc_id (nd p)) = x)" for x
    using assms(2) by simp
  show ?thesis using assms(1) unfolding pages_inv_def m c h .
qed

lemma pages_inv_distinct: "pages_inv nd t C \<Longrightarrow> distinct (C x)"
  by (simp add: pages_inv_def distinct_map del: split_paired_All)

lemma pages_inv_publish:
  assumes inv: "pages_inv nd (Mapped pages) C" and ch: "chain nd p L"
    and ids: "\<And>q. q \<in> set L \<Longrightarrow> home (rt_proc_id (nd q)) = x" "distinct (map (\<lambda>q. rt_proc_id (nd q)) L)"
    and pg: "page = (case pages (fst x) of None \<Rightarrow> (\<lambda>_. 0) | Some page \<Rightarrow> page)"
  shows "pages_inv nd (Mapped (pages(fst x := Some (page(snd x := p))))) (C(x := L))"
proof -
  have "first_route (pages(fst x := Some (page(snd x := p)))) = (first_route pages)(x := p)"
    by (rule ext) (auto simp: first_route_def pg prod_eq_iff split: option.splits)
  then show ?thesis using assms by (simp add: pages_inv_def)
qed

lemma pages_inv_fresh_page:
  assumes "pages_inv nd (Mapped pages) C" "pages i = None"
  shows "pages_inv nd (Mapped (pages(i := Some (\<lambda>_. 0)))) C"
proof -
  have "first_route (pages(i := Some (\<lambda>_. 0))) = first_route pages"
    by (rule ext) (simp add: first_route_def assms)
  then show ?thesis using assms(1) by (simp add: pages_inv_def)
qed

lemma tbl_cong: "(\<And>p. p \<in> set (C (home i)) \<Longrightarrow> nd' p = nd p) \<Longrightarrow> tbl nd' C i = tbl nd C i"
  by (simp add: tbl_def content_def cong: map_cong)

lemma tbl_eq_None_iff: "tbl nd C i = None \<longleftrightarrow> i \<notin> (\<lambda>p. rt_proc_id (nd p)) ` set (C (home i))"
  by (auto simp: tbl_def find_None_iff)

lemma tbl_install:
  assumes "map (content nd') L = content nd q # filter (\<lambda>r. rt_proc_id r \<noteq> i) (map (content nd) (C (home i)))"
    and "rt_proc_id (nd q) = i" "\<And>x p. p \<in> set (C x) \<Longrightarrow> nd' p = nd p"
  shows "tbl nd' (C(home i := L)) = (tbl nd C)(i \<mapsto> content nd q)"
proof
  fix j
  show "tbl nd' (C(home i := L)) j = ((tbl nd C)(i \<mapsto> content nd q)) j"
    using assms tbl_cong [of C j nd' nd]
    by (cases "home j = home i") (auto simp: tbl_def find_filter_neq)
qed

lemma tbl_delete:
  assumes "map (content nd') L = filter (\<lambda>r. rt_proc_id r \<noteq> i) (map (content nd) (C (home i)))"
    and "\<And>x p. p \<in> set (C x) \<Longrightarrow> nd' p = nd p"
  shows "tbl nd' (C(home i := L)) = (tbl nd C)(i := None)"
proof
  fix j
  show "tbl nd' (C(home i := L)) j = ((tbl nd C)(i := None)) j"
    using assms tbl_cong [of C j nd' nd]
    by (cases "home j = home i") (auto simp: tbl_def find_filter_neq find_filter_eq)
qed

lemma pids_filter: "map (\<lambda>p. rt_proc_id (nd' p)) K = map rt_proc_id (map (content nd') K)"
  by simp


section \<open>Publishing a chain\<close>

lemma routes_inv_mapped:
  assumes "routes_inv h0 C R D s"
  obtains pages where "rs_pages (r_table s) = Mapped pages" "pages_inv (r_nodes s) (Mapped pages) C"
    "\<And>x. chain (r_nodes s) (first_route pages x) (C x)"
  using assms by (auto simp: routes_inv_def pages_inv_def)

lemma routes_inv_owns: "routes_inv h0 C R D s \<Longrightarrow> heap_owns (blocks C R D) h0 (r_heap s)"
  by (simp add: routes_inv_def)

lemma blocks_chain: "set (C x) \<subseteq> blocks C R D"
  by (auto simp: blocks_def)

text \<open>
  The state after a chain has been copied into \<open>K'\<close>, behind the new route \<open>q\<close> if there is one: the
  table is as before, and the copy is owned besides.
\<close>

lemma routes_inv_copied:
  assumes inv: "routes_inv h0 C R (K @ D) s"
    and cp: "copied (blocks C R (K @ D)) h0 (r_nodes s) K p K' nd' h'"
  shows "routes_inv h0 C R (K @ K' @ D) (s\<lparr>r_heap := h', r_nodes := nd'\<rparr>)"
    "\<forall>q\<in>blocks C R D. nd' q = r_nodes s q"
proof -
  let ?B = "blocks C R (K @ D)"
  have d: "distinct (ret_addrs R @ K @ D)" "(\<Union>x. set (C x)) \<inter> set (ret_addrs R @ K @ D) = {}"
    using inv by (simp_all add: routes_inv_def)
  have c: "distinct (K @ K')" "set K' \<inter> ?B = {}" "heap_owns (?B \<union> set K') h0 h'" "\<forall>q\<in>?B - set K. nd' q = r_nodes s q"
    using cp by (simp_all add: copied_def)
  have sub: "blocks C R D \<subseteq> ?B - set K"
    using d by (auto simp: blocks_def)
  then show same: "\<forall>q\<in>blocks C R D. nd' q = r_nodes s q"
    using c(4) by blast
  have "pages_inv nd' (rs_pages (r_table s)) C"
    using inv same by (auto simp: routes_inv_def blocks_def intro!: pages_inv_nodes [of "r_nodes s"])
  moreover have "rets nd' (r_rets s) (rs_retired (r_table s)) R"
    using inv same rets_cong [of R nd' "r_nodes s" "r_rets s" "r_rets s"] by (simp add: routes_inv_def blocks_def)
  moreover have "blocks C R (K @ K' @ D) = ?B \<union> set K'"
    by (auto simp: blocks_def)
  ultimately show "routes_inv h0 C R (K @ K' @ D) (s\<lparr>r_heap := h', r_nodes := nd'\<rparr>)"
    using d c(1,2,3) by (auto simp: routes_inv_def blocks_def)
qed

lemma chains_update_Un:
  fixes C :: chains
  shows "(\<Union>y. set ((C(x := L)) y)) = (\<Union>y\<in>- {x}. set (C y)) \<union> set L"
  by (auto split: if_splits)

lemma chains_split: "(\<Union>y. set (C y)) = (\<Union>y\<in>- {x}. set (C y)) \<union> set (C x)"
  by auto

lemma chains_apart:
  assumes "pages_inv nd t C"
  shows "(\<Union>y\<in>- {x}. set (C y)) \<inter> set (C x) = {}"
proof -
  have h: "home (rt_proc_id (nd p)) = y" if "p \<in> set (C y)" for p y
    using assms that unfolding pages_inv_def by blast
  have "y = x" if "p \<in> set (C y)" "p \<in> set (C x)" for p y
    using h [OF that(1)] h [OF that(2)] by (rule trans [OF sym])
  then show ?thesis by blast
qed

text \<open>Publishing \<open>L\<close> in place of the chain of slot \<open>x\<close>, which becomes unreachable.\<close>

lemma routes_inv_publish:
  assumes inv: "routes_inv h0 C R (L @ D) s" and pages: "rs_pages (r_table s) = Mapped pages"
    and ch: "chain (r_nodes s) p L"
    and ids: "\<And>q. q \<in> set L \<Longrightarrow> home (rt_proc_id (r_nodes s q)) = x" "distinct (map (\<lambda>q. rt_proc_id (r_nodes s q)) L)"
    and pg: "page = (case pages (fst x) of None \<Rightarrow> (\<lambda>_. 0) | Some page \<Rightarrow> page)"
  shows "routes_inv h0 (C(x := L)) R (C x @ D)
    (s\<lparr>r_table := (r_table s)\<lparr>rs_pages := Mapped (pages(fst x := Some (page(snd x := p))))\<rparr>\<rparr>)"
proof -
  have pi: "pages_inv (r_nodes s) (Mapped pages) C" and d: "distinct (ret_addrs R @ L @ D)"
    "(\<Union>y. set (C y)) \<inter> set (ret_addrs R @ L @ D) = {}" and rs: "rets (r_nodes s) (r_rets s) (rs_retired (r_table s)) R"
    and ow: "heap_owns (blocks C R (L @ D)) h0 (r_heap s)"
    using inv pages by (simp_all add: routes_inv_def)
  have dx: "distinct (C x)" and ap: "(\<Union>y\<in>- {x}. set (C y)) \<inter> set (C x) = {}"
    using pages_inv_distinct [OF pi] chains_apart [OF pi] by simp_all
  have "blocks (C(x := L)) R (C x @ D) = blocks C R (L @ D)"
    unfolding blocks_def chains_update_Un chains_split [of C x] by auto
  moreover have "distinct (ret_addrs R @ C x @ D)"
    using d dx by auto
  moreover have "(\<Union>y. set ((C(x := L)) y)) \<inter> set (ret_addrs R @ C x @ D) = {}"
    unfolding chains_update_Un using d ap chains_split [of C x] by auto
  ultimately show ?thesis
    using pages_inv_publish [OF pi ch ids pg] rs ow by (simp add: routes_inv_def)
qed


lemma routes_inv_drop:
  assumes "routes_inv h0 C R (K @ D) s" "heap_owns (blocks C R (K @ D) - set K) h0 h'"
  shows "routes_inv h0 C R D (s\<lparr>r_heap := h', r_finalized := f\<rparr>)"
proof -
  have "blocks C R (K @ D) - set K = blocks C R D"
    using assms(1) by (auto simp: routes_inv_def blocks_def)
  then show ?thesis using assms by (auto simp: routes_inv_def)
qed

lemma copied_ids:
  assumes "map (content nd') L = rs" "p \<in> set L"
  shows "rt_proc_id (nd' p) \<in> rt_proc_id ` set rs"
proof -
  have "content nd' p \<in> set rs" using assms by auto
  then have "rt_proc_id (content nd' p) \<in> rt_proc_id ` set rs" by (rule imageI)
  then show ?thesis by simp
qed

lemma copied_ids_distinct:
  assumes "map (content nd') L = rs" "distinct (map rt_proc_id rs)"
  shows "distinct (map (\<lambda>p. rt_proc_id (nd' p)) L)"
  using assms by (simp add: pids_filter)

context library_memory
begin

lemma free_limbo:
  assumes inv: "routes_inv h0 C R (K @ D) s" and ch: "chain (r_nodes s) p K"
  obtains h' where
    "route_chain_free g p every one i s =
       Some (s\<lparr>r_heap := h', r_finalized := r_finalized s @ finals (r_nodes s) every one i K\<rparr>)"
    "routes_inv h0 C R D (s\<lparr>r_heap := h', r_finalized := r_finalized s @ finals (r_nodes s) every one i K\<rparr>)"
    "reliable (r_heap s) \<longrightarrow> reliable h'"
proof -
  have "distinct K" "set K \<subseteq> blocks C R (K @ D)"
    using inv by (auto simp: routes_inv_def blocks_def)
  then obtain h' where "route_chain_free g p every one i s =
       Some (s\<lparr>r_heap := h', r_finalized := r_finalized s @ finals (r_nodes s) every one i K\<rparr>)"
    "heap_owns (blocks C R (K @ D) - set K) h0 h'" "reliable (r_heap s) \<longrightarrow> reliable h'"
    using chain_free [OF routes_inv_owns [OF inv] ch] by metis
  then show ?thesis using that routes_inv_drop [OF inv] by blast
qed

text \<open>Copying the chain of slot \<open>x\<close> without the route of \<open>i\<close>, behind \<open>K\<close>.\<close>

lemma copy_slot:
  assumes inv: "routes_inv h0 C R (K @ D) s" and ch: "chain (r_nodes s) it (C x)" "chain (r_nodes s) p K"
    and t: "t = (if K = [] then 0 else last K)"
  obtains ok p' found h' nd' K' where
    "copy_chain g i it p t False s = Some (ok, p', found, s\<lparr>r_heap := h', r_nodes := nd'\<rparr>)"
    "routes_inv h0 C R (K @ K' @ D) (s\<lparr>r_heap := h', r_nodes := nd'\<rparr>)" "chain nd' p' (K @ K')"
    "\<forall>q\<in>blocks C R D. nd' q = r_nodes s q" "map (content nd') K = map (content (r_nodes s)) K"
    "reliable (r_heap s) \<longrightarrow> reliable h' \<and> ok"
    "ok \<longrightarrow> found = (i \<in> (\<lambda>q. rt_proc_id (r_nodes s q)) ` set (C x)) \<and>
       map (content nd') K' = filter (\<lambda>r. rt_proc_id r \<noteq> i) (map (content (r_nodes s)) (C x))"
proof -
  have "(\<Union>x. set (C x)) \<inter> set K = {}" "distinct K" "set K \<subseteq> blocks C R (K @ D)"
    using inv by (auto simp: routes_inv_def blocks_def)
  moreover from this(1) have "set K \<inter> set (C x) = {}" by blast
  ultimately have "distinct K" "set K \<subseteq> blocks C R (K @ D)" "set K \<inter> set (C x) = {}" by simp_all
  then obtain ok p' found h' nd' K' where *:
    "copy_chain g i it p t False s = Some (ok, p', found, s\<lparr>r_heap := h', r_nodes := nd'\<rparr>)"
    "copied (blocks C R (K @ D)) h0 (r_nodes s) K p' K' nd' h'" "reliable (r_heap s) \<longrightarrow> reliable h' \<and> ok"
    "ok \<longrightarrow> found = (i \<in> (\<lambda>q. rt_proc_id (r_nodes s q)) ` set (C x)) \<and>
       map (content nd') K' = filter (\<lambda>r. rt_proc_id r \<noteq> i) (map (content (r_nodes s)) (C x))"
    using copy_chain [OF routes_inv_owns [OF inv] ch(1) blocks_chain ch(2) _ _ _ t, of i False] by auto
  have "chain nd' p' (K @ K')" "map (content nd') K = map (content (r_nodes s)) K"
    using *(2) by (auto simp: copied_def)
  then show ?thesis using that * routes_inv_copied [OF inv *(2)] by blast
qed

end


lemma install_ids:
  assumes inv: "pages_inv nd t C"
    and L: "map (content nd') L = pre @ filter (\<lambda>r. rt_proc_id r \<noteq> i) (map (content nd) (C (home i)))"
    and pre: "pre = [] \<or> (\<exists>r. pre = [r] \<and> rt_proc_id r = i)"
  shows "q \<in> set L \<Longrightarrow> home (rt_proc_id (nd' q)) = home i" "distinct (map (\<lambda>p. rt_proc_id (nd' p)) L)"
proof -
  assume "q \<in> set L"
  then have "rt_proc_id (nd' q) \<in> rt_proc_id ` set (pre @ map (content nd) (C (home i)))"
    using copied_ids [OF L \<open>q \<in> set L\<close>] by auto
  then consider "rt_proc_id (nd' q) = i" | p where "p \<in> set (C (home i))" "rt_proc_id (nd' q) = rt_proc_id (nd p)"
    using pre by auto
  then show "home (rt_proc_id (nd' q)) = home i"
    using inv unfolding pages_inv_def by cases (simp, metis)
next
  have "distinct (map rt_proc_id (map (content nd) (C (home i))))"
    using inv by (simp add: pages_inv_def comp_def del: split_paired_All)
  then have "distinct (map rt_proc_id (filter (\<lambda>r. rt_proc_id r \<noteq> i) (map (content nd) (C (home i)))))"
    by (rule distinct_map_filter)
  then show "distinct (map (\<lambda>p. rt_proc_id (nd' p)) L)"
    using pre by (intro copied_ids_distinct [OF L]) auto
qed

lemma page_load_mapped [simp]:
  "rs_pages (r_table s) = Mapped pages \<Longrightarrow> i < WIRECALL_ROUTE_ROOT_SIZE \<Longrightarrow> page_load i s = Some (pages i)"
  by (simp add: page_load_def)

lemma page_store_mapped [simp]:
  "rs_pages (r_table s) = Mapped pages \<Longrightarrow> i < WIRECALL_ROUTE_ROOT_SIZE \<Longrightarrow>
   page_store i page s = Some (s\<lparr>r_table := (r_table s)\<lparr>rs_pages := Mapped (pages(i := Some page))\<rparr>\<rparr>)"
  by (simp add: page_store_def)

lemma slot_load_in [simp]: "j < WIRECALL_ROUTE_PAGE_SIZE \<Longrightarrow> slot_load page j = Some (page j)"
  by (simp add: slot_load_def)

text \<open>The page of a slot, mapped if necessary.\<close>

definition with_page :: "nat \<Rightarrow> (nat \<Rightarrow> (nat \<Rightarrow> nat) option) \<Rightarrow> route_state \<Rightarrow> route_state" where
  "with_page i pages s =
     (if pages i = None then s\<lparr>r_table := (r_table s)\<lparr>rs_pages := Mapped (pages(i := Some (\<lambda>_. 0)))\<rparr>\<rparr> else s)"

lemma with_page_sel [simp]:
  "r_nodes (with_page i pages s) = r_nodes s" "r_heap (with_page i pages s) = r_heap s"
  "r_rets (with_page i pages s) = r_rets s" "r_finalized (with_page i pages s) = r_finalized s"
  "rs_active_readers (r_table (with_page i pages s)) = rs_active_readers (r_table s)"
  "rs_retired (r_table (with_page i pages s)) = rs_retired (r_table s)"
  by (simp_all add: with_page_def)

lemma with_page_inv:
  assumes "routes_inv h0 C R D s" "rs_pages (r_table s) = Mapped pages"
  shows "routes_inv h0 C R D (with_page i pages s)"
  using assms pages_inv_fresh_page [of "r_nodes s" pages C i] by (simp add: with_page_def routes_inv_def)

lemma routes_add_publish_eq:
  assumes "q \<in> live (r_heap s)" "rs_pages (r_table s) = Mapped pages" "x = home (rt_proc_id (r_nodes s q))"
    and "pages (fst x) = None \<longrightarrow> page_ok"
  shows "routes_add_publish g page_ok q s = do {
     (ok, copy_head, replaced, s) \<leftarrow>
        copy_chain g (rt_proc_id (r_nodes s q)) (first_route pages x) q q False (with_page (fst x) pages s);
     if \<not> ok then do { s \<leftarrow> route_chain_free g copy_head False False 0 s; Some (Inl (-1), s) }
     else do {
       s \<leftarrow> page_store (fst x) ((case pages (fst x) of None \<Rightarrow> \<lambda>_. 0 | Some page \<Rightarrow> page)(snd x := copy_head)) s;
       Some (Inr (first_route pages x, replaced), s) } }"
  using assms
  by (cases "pages (fst x)") (simp_all add: routes_add_publish_def home_def first_route_def with_page_def Let_def cong: if_cong)

context library_memory
begin

lemma add_publish:
  assumes inv: "routes_inv h0 C R (q # D) s" and q: "rt_next (r_nodes s q) = 0" "rt_proc_id (r_nodes s q) = i"
  obtains (failed) s' where "routes_add_publish g page_ok q s = Some (Inl (-1), s')"
      "routes_inv h0 C R D s'" "same_rest (blocks C R D) s s'" "\<not> (page_ok \<and> reliable (r_heap s))"
      "reliable (r_heap s) \<longrightarrow> reliable (r_heap s')"
  | (published) old replaced s' L where "routes_add_publish g page_ok q s = Some (Inr (old, replaced), s')"
      "routes_inv h0 (C(home i := L)) R (C (home i) @ D) s'" "same_rest (blocks C R D) s s'"
      "chain (r_nodes s') old (C (home i))" "replaced = (tbl (r_nodes s) C i \<noteq> None)"
      "map (content (r_nodes s')) L =
         content (r_nodes s) q # filter (\<lambda>r. rt_proc_id r \<noteq> i) (map (content (r_nodes s)) (C (home i)))"
      "reliable (r_heap s) \<longrightarrow> reliable (r_heap s')"
proof -
  obtain pages where pages: "rs_pages (r_table s) = Mapped pages" "pages_inv (r_nodes s) (Mapped pages) C"
    "\<And>x. chain (r_nodes s) (first_route pages x) (C x)"
    using routes_inv_mapped [OF inv] by blast
  let ?x = "home i"
  have q_in: "q \<in> blocks C R (q # D)" by (simp add: blocks_def)
  then have q_live: "q \<in> live (r_heap s)" and q0: "q \<noteq> 0"
    using routes_inv_owns [OF inv] heap_owns_in_live heap_owns_not_null by (blast, metis)
  show ?thesis
  proof (cases "pages (fst ?x) = None \<and> \<not> page_ok")
    case True
    obtain h' where h': "node_free g q s = Some (s\<lparr>r_heap := h'\<rparr>)" "heap_owns (blocks C R (q # D) - {q}) h0 h'"
      "reliable (r_heap s) \<longrightarrow> reliable h'"
      using node_free_owned [OF routes_inv_owns [OF inv] q_in] by blast
    have "routes_inv h0 C R D (s\<lparr>r_heap := h'\<rparr>)"
      using routes_inv_drop [of h0 C R "[q]" D s h' "r_finalized s"] inv h'(2) by simp
    moreover have "routes_add_publish g page_ok q s = Some (Inl (-1), s\<lparr>r_heap := h'\<rparr>)"
      using True q_live q(2) pages(1) h'(1) by (simp add: routes_add_publish_def home_def)
    ultimately show ?thesis using True h'(3) by (intro failed [of "s\<lparr>r_heap := h'\<rparr>"]) (simp_all add: same_rest_def)
  next
    case False
    let ?s1 = "with_page (fst ?x) pages s"
    have inv1: "routes_inv h0 C R ([q] @ D) ?s1"
      using with_page_inv [OF inv pages(1)] by simp
    have ch: "chain (r_nodes ?s1) (first_route pages ?x) (C ?x)" "chain (r_nodes ?s1) q [q]"
      "q = (if [q] = [] then 0 else last [q])"
      using pages(3) q q0 by simp_all
    obtain ok p' found h' nd' K' where cp:
      "copy_chain g i (first_route pages ?x) q q False ?s1 = Some (ok, p', found, ?s1\<lparr>r_heap := h', r_nodes := nd'\<rparr>)"
      "routes_inv h0 C R ([q] @ K' @ D) (?s1\<lparr>r_heap := h', r_nodes := nd'\<rparr>)" "chain nd' p' ([q] @ K')"
      "\<forall>y\<in>blocks C R D. nd' y = r_nodes ?s1 y" "map (content nd') [q] = map (content (r_nodes ?s1)) [q]"
      "reliable (r_heap ?s1) \<longrightarrow> reliable h' \<and> ok"
      "ok \<longrightarrow> found = (i \<in> (\<lambda>q. rt_proc_id (r_nodes ?s1 q)) ` set (C ?x)) \<and>
         map (content nd') K' = filter (\<lambda>r. rt_proc_id r \<noteq> i) (map (content (r_nodes ?s1)) (C ?x))"
      by (rule copy_slot [OF inv1 ch, where i = i]) blast
    note cp = cp [unfolded with_page_sel]
    have page: "pages (fst ?x) = None \<longrightarrow> page_ok" using False by blast
    note eq = routes_add_publish_eq [OF q_live pages(1), of ?x page_ok g, unfolded q(2), OF refl page]
    let ?s2 = "?s1\<lparr>r_heap := h', r_nodes := nd'\<rparr>"
    show ?thesis
    proof (cases ok)
      case not_ok: False
      obtain h2 where "route_chain_free g p' False False 0 ?s2 = Some (?s2\<lparr>r_heap := h2, r_finalized := r_finalized ?s2\<rparr>)"
        "routes_inv h0 C R D (?s2\<lparr>r_heap := h2, r_finalized := r_finalized ?s2\<rparr>)"
        using free_limbo [of h0 C R "[q] @ K'" D ?s2 p' False False 0] cp(2,3) by auto
      then show ?thesis using eq cp(1,4,6) not_ok
        by (intro failed) (auto simp: same_rest_def)
    next
      case ok: True
      let ?L = "[q] @ K'"
      have L: "map (content nd') ?L = [content (r_nodes s) q] @ filter (\<lambda>r. rt_proc_id r \<noteq> i) (map (content (r_nodes s)) (C ?x))"
        using cp(5,7) ok by simp
      note ids = install_ids [OF pages(2) L, simplified, OF q(2)]
      obtain pages1 where p1: "rs_pages (r_table ?s1) = Mapped pages1"
        "(case pages1 (fst ?x) of None \<Rightarrow> \<lambda>_. 0 | Some page \<Rightarrow> page) = (case pages (fst ?x) of None \<Rightarrow> \<lambda>_. 0 | Some page \<Rightarrow> page)"
        using pages(1) by (cases "pages (fst ?x)") (simp_all add: with_page_def)
      let ?s3 = "?s2\<lparr>r_table := (r_table ?s2)\<lparr>rs_pages := Mapped (pages1(fst ?x :=
        Some ((case pages1 (fst ?x) of None \<Rightarrow> \<lambda>_. 0 | Some page \<Rightarrow> page)(snd ?x := p'))))\<rparr>\<rparr>"
      have "routes_inv h0 (C(?x := ?L)) R (C ?x @ D) ?s3"
        using routes_inv_publish [of h0 C R ?L D ?s2 pages1 p' ?x] cp(2,3) p1 ids by simp
      moreover have "routes_add_publish g page_ok q s = Some (Inr (first_route pages ?x, found), ?s3)"
        using eq cp(1) ok p1 by (simp add: home_def)
      moreover have "chain nd' (first_route pages ?x) (C ?x)"
        using pages(3) [of ?x] chain_cong [of "C ?x" nd' "r_nodes s"] cp(4) by (auto simp: blocks_def)
      ultimately show ?thesis using cp(4,6,7) L ok
        by (intro published [of "first_route pages ?x" found ?s3 ?L]) (simp_all add: same_rest_def tbl_eq_None_iff)
    qed
  qed
qed

end

text \<open>A retired node \<open>n\<close> takes over the chain \<open>L\<close>.\<close>

lemma routes_inv_push:
  fixes one i
  assumes inv: "routes_inv h0 C R (L @ D) s" and ch: "chain (r_nodes s) old L"
    and n: "n \<noteq> 0" "n \<notin> blocks C R (L @ D)" "heap_owns (insert n (blocks C R (L @ D))) h0 h'"
  defines "node \<equiv> \<lparr>rr_route = old, rr_finalize_proc_id = i, rr_finalize_all = False, rr_finalize_one = one,
         rr_next = rs_retired (r_table s)\<rparr>"
  shows "routes_inv h0 C ((n, L) # R) D
      (s\<lparr>r_heap := h', r_rets := (r_rets s)(n := node), r_table := (r_table s)\<lparr>rs_retired := n\<rparr>\<rparr>)"
    "ret_finals (r_nodes s) ((r_rets s)(n := node)) ((n, L) # R) =
       finals (r_nodes s) False one i L @ ret_finals (r_nodes s) (r_rets s) R"
proof -
  have nR: "n \<notin> set (ret_addrs R)" using n(2) by (auto simp: blocks_def)
  then have "rets (r_nodes s) ((r_rets s)(n := node)) (rs_retired (r_table s)) R =
      rets (r_nodes s) (r_rets s) (rs_retired (r_table s)) R"
    by (intro rets_cong) auto
  then have "rets (r_nodes s) ((r_rets s)(n := node)) (rs_retired (r_table s)) R"
    using inv by (simp add: routes_inv_def)
  then show "routes_inv h0 C ((n, L) # R) D
      (s\<lparr>r_heap := h', r_rets := (r_rets s)(n := node), r_table := (r_table s)\<lparr>rs_retired := n\<rparr>\<rparr>)"
    using inv ch n by (auto simp: node_def routes_inv_def blocks_def insert_commute Un_ac)
  have "ret_finals (r_nodes s) ((r_rets s)(n := node)) R = ret_finals (r_nodes s) (r_rets s) R"
    using nR by (intro ret_finals_cong) auto
  then show "ret_finals (r_nodes s) ((r_rets s)(n := node)) ((n, L) # R) =
       finals (r_nodes s) False one i L @ ret_finals (r_nodes s) (r_rets s) R"
    by (simp add: node_def)
qed

lemma routes_remove_publish_eq:
  assumes "rs_pages (r_table s) = Mapped pages" "x = home i"
  shows "routes_remove_publish g i s = do {
     (ok, copy_head, removed, s) \<leftarrow> copy_chain g i (first_route pages x) 0 0 False s;
     if \<not> ok then do { s \<leftarrow> route_chain_free g copy_head False False 0 s; Some (Inl (-1), s) }
     else (case (pages (fst x), removed) of
             (Some page, True) \<Rightarrow> do {
               s \<leftarrow> page_store (fst x) (page(snd x := copy_head)) s;
               Some (Inr (first_route pages x), s) }
           | _ \<Rightarrow> do { s \<leftarrow> route_chain_free g copy_head False False 0 s;
                      Some (if removed then Inr (first_route pages x) else Inl (-1), s) }) }"
proof -
  have page: "page_load (page_of i) s = Some (pages (fst x))" "page_of i = fst x" "slot_of i = snd x"
    using assms by (simp_all add: home_def)
  have old: "(case pages (fst x) of None \<Rightarrow> Some 0 | Some page \<Rightarrow> slot_load page (snd x)) = Some (first_route pages x)"
    using assms by (auto simp: first_route_def home_def split: option.splits)
  show ?thesis unfolding routes_remove_publish_def Let_def page(1) bind.bind_lunit unfolding page(2,3) old bind.bind_lunit ..
qed

context library_memory
begin

lemma remove_publish:
  assumes inv: "routes_inv h0 C R D s"
  obtains (failed) s' where "routes_remove_publish g i s = Some (Inl (-1), s')"
      "routes_inv h0 C R D s'" "same_rest (blocks C R D) s s'" "tbl (r_nodes s) C i = None \<or> \<not> reliable (r_heap s)"
      "reliable (r_heap s) \<longrightarrow> reliable (r_heap s')"
  | (published) old s' L where "routes_remove_publish g i s = Some (Inr old, s')"
      "routes_inv h0 (C(home i := L)) R (C (home i) @ D) s'" "same_rest (blocks C R D) s s'"
      "chain (r_nodes s') old (C (home i))" "tbl (r_nodes s) C i \<noteq> None"
      "map (content (r_nodes s')) L = filter (\<lambda>r. rt_proc_id r \<noteq> i) (map (content (r_nodes s)) (C (home i)))"
      "reliable (r_heap s) \<longrightarrow> reliable (r_heap s')"
proof -
  obtain pages where pages: "rs_pages (r_table s) = Mapped pages" "pages_inv (r_nodes s) (Mapped pages) C"
    "\<And>x. chain (r_nodes s) (first_route pages x) (C x)"
    using routes_inv_mapped [OF inv] by blast
  let ?x = "home i"
  have pre: "routes_inv h0 C R ([] @ D) s" "chain (r_nodes s) 0 []" "(0 :: nat) = (if [] = ([] :: nat list) then 0 else last [])"
    using inv by simp_all
  obtain ok p' found h' nd' K' where cp:
    "copy_chain g i (first_route pages ?x) 0 0 False s = Some (ok, p', found, s\<lparr>r_heap := h', r_nodes := nd'\<rparr>)"
    "routes_inv h0 C R ([] @ K' @ D) (s\<lparr>r_heap := h', r_nodes := nd'\<rparr>)" "chain nd' p' ([] @ K')"
    "\<forall>y\<in>blocks C R D. nd' y = r_nodes s y" "reliable (r_heap s) \<longrightarrow> reliable h' \<and> ok"
    "ok \<longrightarrow> found = (i \<in> (\<lambda>q. rt_proc_id (r_nodes s q)) ` set (C ?x)) \<and>
       map (content nd') K' = filter (\<lambda>r. rt_proc_id r \<noteq> i) (map (content (r_nodes s)) (C ?x))"
    by (rule copy_slot [OF pre(1) pages(3) pre(2,3), where i = i and x = ?x]) blast
  note cp = cp [unfolded append_Nil]
  note eq = routes_remove_publish_eq [OF pages(1) refl, of g i]
  let ?s2 = "s\<lparr>r_heap := h', r_nodes := nd'\<rparr>"
  obtain h2 where fr: "route_chain_free g p' False False 0 ?s2 = Some (?s2\<lparr>r_heap := h2\<rparr>)"
    "routes_inv h0 C R D (?s2\<lparr>r_heap := h2\<rparr>)" "reliable h' \<longrightarrow> reliable h2"
    using free_limbo [of h0 C R K' D ?s2 p' False False 0] cp(2,3) by auto
  have rest: "same_rest (blocks C R D) s (?s2\<lparr>r_heap := h2\<rparr>)"
    using cp(4) by (simp add: same_rest_def)
  consider "\<not> ok" | "ok" "\<not> found" | "ok" "found" by blast
  then show ?thesis
  proof cases
    case 1
    then have "routes_remove_publish g i s = Some (Inl (-1), ?s2\<lparr>r_heap := h2\<rparr>)"
      using eq cp(1) fr(1) by simp
    then show ?thesis using failed fr(2) rest cp(5) 1 by simp
  next
    case 2
    then have "routes_remove_publish g i s = Some (Inl (-1), ?s2\<lparr>r_heap := h2\<rparr>)"
      using eq cp(1) fr(1) by (cases "pages (fst ?x)") simp_all
    then show ?thesis using failed fr(2,3) rest cp(5,6) 2 by (simp add: tbl_eq_None_iff)
  next
    case 3
    then have K': "map (content nd') K' = [] @ filter (\<lambda>r. rt_proc_id r \<noteq> i) (map (content (r_nodes s)) (C ?x))"
      and found: "tbl (r_nodes s) C i \<noteq> None"
      using cp(6) by (simp_all add: tbl_eq_None_iff)
    note ids = install_ids [OF pages(2) K', simplified]
    obtain page where page: "pages (fst ?x) = Some page"
      using pages(3) [of ?x] found by (cases "pages (fst ?x)") (auto simp: first_route_def tbl_def)
    let ?s3 = "?s2\<lparr>r_table := (r_table ?s2)\<lparr>rs_pages := Mapped (pages(fst ?x := Some (page(snd ?x := p'))))\<rparr>\<rparr>"
    have "routes_inv h0 (C(?x := K')) R (C ?x @ D) ?s3"
      using routes_inv_publish [of h0 C R K' D ?s2 pages p' ?x page] cp(2,3) pages(1) page ids by simp
    moreover have "routes_remove_publish g i s = Some (Inr (first_route pages ?x), ?s3)"
      using eq cp(1) 3 page pages(1) by (simp add: home_def)
    moreover have "chain nd' (first_route pages ?x) (C ?x)"
      using pages(3) [of ?x] chain_cong [of "C ?x" nd' "r_nodes s"] cp(4) by (auto simp: blocks_def)
    ultimately show ?thesis using cp(4,5) K' found
      by (intro published [of "first_route pages ?x" ?s3 K']) (simp_all add: same_rest_def)
  qed
qed

text \<open>
  Retiring the chain \<open>L\<close> that has just been replaced.  It is freed at once when there is no active
  reader; otherwise it is kept in a retired node, and if there is no memory for this node it is
  lost, with the finalizer it carries.
\<close>

lemma retire_route_cases:
  assumes inv: "routes_inv h0 C R (L @ D) s" and ch: "chain (r_nodes s) old L"
  obtains (freed) s' where "retire_route g old one i s = Some (0, s')" "rs_active_readers (r_table s) = 0 \<or> L = []"
      "routes_inv h0 C R D s'" "r_nodes s' = r_nodes s" "r_rets s' = r_rets s" "r_table s' = r_table s"
      "r_finalized s' = r_finalized s @ finals (r_nodes s) False one i L" "reliable (r_heap s) \<longrightarrow> reliable (r_heap s')"
  | (retired) n s' where "retire_route g old one i s = Some (0, s')" "rs_active_readers (r_table s) \<noteq> 0"
      "routes_inv h0 C ((n, L) # R) D s'" "r_nodes s' = r_nodes s" "r_finalized s' = r_finalized s"
      "ret_finals (r_nodes s') (r_rets s') ((n, L) # R) =
         finals (r_nodes s) False one i L @ ret_finals (r_nodes s) (r_rets s) R"
      "r_table s' = (r_table s)\<lparr>rs_retired := n\<rparr>" "reliable (r_heap s) \<longrightarrow> reliable (r_heap s')"
  | (lost) s' where "retire_route g old one i s = Some (-1, s')" "rs_active_readers (r_table s) \<noteq> 0" "L \<noteq> []"
      "routes_inv h0 C R (L @ D) s'" "r_nodes s' = r_nodes s" "r_rets s' = r_rets s" "r_table s' = r_table s"
      "r_finalized s' = r_finalized s" "\<not> reliable (r_heap s)"
proof (cases "old = 0")
  case True
  then show ?thesis using inv ch by (intro freed [of s]) (simp_all add: retire_route_def)
next
  case old: False
  then have L: "L \<noteq> []" using ch by auto
  show ?thesis
  proof (cases "rs_active_readers (r_table s) = 0")
    case True
    obtain h' where "route_chain_free g old False one i s =
         Some (s\<lparr>r_heap := h', r_finalized := r_finalized s @ finals (r_nodes s) False one i L\<rparr>)"
      "routes_inv h0 C R D (s\<lparr>r_heap := h', r_finalized := r_finalized s @ finals (r_nodes s) False one i L\<rparr>)"
      "reliable (r_heap s) \<longrightarrow> reliable h'"
      using free_limbo [OF inv ch] by blast
    then show ?thesis using old True
      by (intro freed [of "s\<lparr>r_heap := h', r_finalized := r_finalized s @ finals (r_nodes s) False one i L\<rparr>"])
        (simp_all add: retire_route_def)
  next
    case readers: False
    from routes_inv_owns [OF inv] show ?thesis
    proof (cases rule: ret_calloc_cases)
      case (fail h')
      then show ?thesis using inv old L readers
        by (intro lost [of "s\<lparr>r_heap := h'\<rparr>"]) (simp_all add: retire_route_def routes_inv_def)
    next
      case (fresh n h')
      let ?node = "\<lparr>rr_route = old, rr_finalize_proc_id = i, rr_finalize_all = False, rr_finalize_one = one,
         rr_next = rs_retired (r_table s)\<rparr>"
      let ?s = "s\<lparr>r_heap := h', r_rets := (r_rets s)(n := ?node), r_table := (r_table s)\<lparr>rs_retired := n\<rparr>\<rparr>"
      have n: "n \<in> live h'"
        using heap_owns_in_live [OF fresh(4)] by simp
      note push = routes_inv_push [OF inv ch fresh(2,3,4), where one = one and i = i]
      from push(1) have "routes_inv h0 C ((n, L) # R) D ?s" by simp
      moreover have "retire_route g old one i s = Some (0, ?s)"
        using old readers fresh(1,2) n by (simp add: retire_route_def free_retired_def)
      ultimately show ?thesis using readers fresh(5) push(2) by (intro retired [of ?s n]) simp_all
    qed
  qed
qed

end


section \<open>The operations on the map\<close>

lemma lookup_walk_chain:
  assumes "chain (r_nodes s) p L" "set L \<subseteq> live (r_heap s)"
  shows "\<exists>q. lookup_walk i p s = Some q \<and>
    (if q = 0 then find (\<lambda>r. rt_proc_id r = i) (map (content (r_nodes s)) L) = None
     else q \<in> set L \<and> find (\<lambda>r. rt_proc_id r = i) (map (content (r_nodes s)) L) = Some (content (r_nodes s) q))"
  using assms
proof (induction L arbitrary: p)
  case Nil
  then show ?case by (simp add: lookup_walk.simps)
next
  case (Cons a L)
  have step: "lookup_walk i p s =
      (if rt_proc_id (r_nodes s a) \<noteq> i then lookup_walk i (rt_next (r_nodes s a)) s else Some a)"
    using Cons.prems by (subst lookup_walk.simps) simp
  show ?case
  proof (cases "rt_proc_id (r_nodes s a) = i")
    case False
    obtain q where "lookup_walk i (rt_next (r_nodes s a)) s = Some q"
      "if q = 0 then find (\<lambda>r. rt_proc_id r = i) (map (content (r_nodes s)) L) = None
       else q \<in> set L \<and> find (\<lambda>r. rt_proc_id r = i) (map (content (r_nodes s)) L) = Some (content (r_nodes s) q)"
      using Cons.IH [of "rt_next (r_nodes s a)"] Cons.prems by auto
    then show ?thesis using step False by (intro exI [of _ q]) auto
  qed (use step Cons.prems in auto)
qed

lemma routes_inv_table:
  assumes "routes_inv h0 C R D s" "rs_pages t = rs_pages (r_table s)" "rs_retired t = rs_retired (r_table s)"
  shows "routes_inv h0 C R D (s\<lparr>r_table := t\<rparr>)"
  using assms by (simp add: routes_inv_def)

lemma lookup_load_inv:
  assumes "routes_inv h0 C R D s"
  obtains p where "lookup_load i s = Some p" "chain (r_nodes s) p (C (home i))"
proof -
  obtain pages where pages: "rs_pages (r_table s) = Mapped pages" "\<And>x. chain (r_nodes s) (first_route pages x) (C x)"
    using routes_inv_mapped [OF assms] by blast
  have "lookup_load i s = Some (first_route pages (home i))"
    using pages(1) by (cases "pages (page_of i)") (simp_all add: lookup_load_def first_route_def home_def)
  then show ?thesis using that pages(2) by blast
qed

lemma routes_inv_chain_live: "routes_inv h0 C R D s \<Longrightarrow> set (C x) \<subseteq> live (r_heap s)"
  using heap_owns_in_live [OF routes_inv_owns] blocks_chain by blast

context library_memory
begin

lemma free_retired_loop_inv:
  assumes inv: "routes_inv h0 C R D s"
  obtains s' where "free_retired_loop g (rs_retired (r_table s)) (s\<lparr>r_table := (r_table s)\<lparr>rs_retired := 0\<rparr>\<rparr>) = Some s'"
    "routes_inv h0 C [] D s'" "r_nodes s' = r_nodes s" "r_rets s' = r_rets s"
    "r_finalized s' = r_finalized s @ ret_finals (r_nodes s) (r_rets s) R" "r_table s' = (r_table s)\<lparr>rs_retired := 0\<rparr>"
    "reliable (r_heap s) \<longrightarrow> reliable (r_heap s')"
proof -
  let ?s = "s\<lparr>r_table := (r_table s)\<lparr>rs_retired := 0\<rparr>\<rparr>"
  have "rets (r_nodes ?s) (r_rets ?s) (rs_retired (r_table s)) R" "distinct (ret_addrs R)"
    "set (ret_addrs R) \<subseteq> blocks C R D" "heap_owns (blocks C R D) h0 (r_heap ?s)"
    using inv by (auto simp: routes_inv_def blocks_def)
  then obtain h' where h': "free_retired_loop g (rs_retired (r_table s)) ?s =
       Some (?s\<lparr>r_heap := h', r_finalized := r_finalized ?s @ ret_finals (r_nodes ?s) (r_rets ?s) R\<rparr>)"
    "heap_owns (blocks C R D - set (ret_addrs R)) h0 h'" "reliable (r_heap ?s) \<longrightarrow> reliable h'"
    using retired_loop by blast
  have "blocks C R D - set (ret_addrs R) = blocks C [] D"
    using inv by (auto simp: routes_inv_def blocks_def)
  then have "routes_inv h0 C [] D
      (?s\<lparr>r_heap := h', r_finalized := r_finalized ?s @ ret_finals (r_nodes ?s) (r_rets ?s) R\<rparr>)"
    using inv h'(2) by (auto simp: routes_inv_def)
  then show ?thesis using that h' by simp
qed

lemma free_retired_inv:
  assumes inv: "routes_inv h0 C R D s" and idle: "rs_active_readers (r_table s) = 0"
  obtains s' where "free_retired g s = Some s'" "routes_inv h0 C [] D s'" "r_nodes s' = r_nodes s" "r_rets s' = r_rets s"
    "r_finalized s' = r_finalized s @ ret_finals (r_nodes s) (r_rets s) R" "r_table s' = (r_table s)\<lparr>rs_retired := 0\<rparr>"
    "reliable (r_heap s) \<longrightarrow> reliable (r_heap s')"
  using free_retired_loop_inv [OF inv] idle by (simp add: free_retired_def Let_def) metis

lemma lookup_inv:
  assumes inv: "routes_inv h0 C R D s" and idle: "rs_active_readers (r_table s) = 0" and r: "routes \<noteq> 0"
  obtains out s' where "wirecall_routes_lookup g routes i (Some r0) s =
      Some (if tbl (r_nodes s) C i = None then -1 else 0, Some out, s')"
    "case tbl (r_nodes s) C i of None \<Rightarrow> out = r0 | Some r \<Rightarrow> out\<lparr>rt_next := 0\<rparr> = r"
    "routes_inv h0 C [] D s'" "r_nodes s' = r_nodes s" "rs_active_readers (r_table s') = 0"
    "r_finalized s' = r_finalized s @ ret_finals (r_nodes s) (r_rets s) R" "reliable (r_heap s) \<longrightarrow> reliable (r_heap s')"
proof -
  let ?s1 = "lookup_enter s"
  have inv1: "routes_inv h0 C R D ?s1"
    using routes_inv_table [OF inv] by (simp add: lookup_enter_def)
  have s1: "r_nodes ?s1 = r_nodes s" "r_heap ?s1 = r_heap s" by (simp_all add: lookup_enter_def)
  obtain p where p: "lookup_load i ?s1 = Some p" "chain (r_nodes ?s1) p (C (home i))"
    using lookup_load_inv [OF inv1] by blast
  obtain q where q: "lookup_walk i p ?s1 = Some q"
    "if q = 0 then tbl (r_nodes s) C i = None
     else q \<in> set (C (home i)) \<and> tbl (r_nodes s) C i = Some (content (r_nodes s) q)"
    using lookup_walk_chain [OF p(2) routes_inv_chain_live [OF inv1], of i] unfolding s1 tbl_def by blast
  let ?s2 = "?s1\<lparr>r_table := (r_table ?s1)\<lparr>rs_active_readers := 0\<rparr>\<rparr>"
  have inv2: "routes_inv h0 C R D ?s2"
    using routes_inv_table [OF inv1] by simp
  obtain s' where s': "free_retired g ?s2 = Some s'" "routes_inv h0 C [] D s'" "r_nodes s' = r_nodes ?s2"
    "r_finalized s' = r_finalized ?s2 @ ret_finals (r_nodes ?s2) (r_rets ?s2) R"
    "r_table s' = (r_table ?s2)\<lparr>rs_retired := 0\<rparr>" "reliable (r_heap ?s2) \<longrightarrow> reliable (r_heap s')"
    using free_retired_inv [OF inv2] by auto
  have leave: "lookup_leave g ?s1 = Some s'"
    using s'(1) idle by (simp add: lookup_leave_def lookup_enter_def)
  have get: "q \<noteq> 0 \<Longrightarrow> node_get q ?s1 = Some (r_nodes s q)"
    using q(2) routes_inv_chain_live [OF inv1, of "home i"] s1(1) by (simp add: subset_iff)
  show ?thesis
    using that [of "if q = 0 then r0 else r_nodes s q" s'] p(1) q leave get r s'(2-6)
    by (auto simp: wirecall_routes_lookup_def content_def lookup_enter_def split: if_splits)
qed

end


text \<open>
  The table with no reader inside, between two operations: the ghost parts are determined by
  the state, so that they can be hidden.
\<close>

definition table_ok :: "heap \<Rightarrow> (u64 \<Rightarrow> wirecall_route option) \<Rightarrow> route_state \<Rightarrow> bool" where
  "table_ok h0 m s \<longleftrightarrow> (\<exists>C. routes_inv h0 C [] [] s \<and> m = tbl (r_nodes s) C) \<and> rs_active_readers (r_table s) = 0"

definition old_finalizer :: "(u64 \<Rightarrow> wirecall_route option) \<Rightarrow> u64 \<Rightarrow> (nat \<times> nat) list" where
  "old_finalizer m i = (case m i of None \<Rightarrow> [] | Some r \<Rightarrow> finalizer_of r)"

lemma same_rest_chain: "same_rest (blocks C R D) s s' \<Longrightarrow> p \<in> set (C x) \<Longrightarrow> r_nodes s' p = r_nodes s p"
  using blocks_chain unfolding same_rest_def by blast

lemma same_rest_tbl: "same_rest (blocks C R D) s s' \<Longrightarrow> tbl (r_nodes s') C = tbl (r_nodes s) C"
  using same_rest_chain by (intro ext tbl_cong) blast

lemma finals_chain:
  assumes "routes_inv h0 C R D s"
  shows "finals (r_nodes s) False True i (C (home i)) = old_finalizer (tbl (r_nodes s) C) i"
proof -
  have "distinct (map (\<lambda>p. rt_proc_id (r_nodes s p)) (C (home i)))"
    using assms by (simp add: routes_inv_def pages_inv_def del: split_paired_All)
  then show ?thesis by (simp add: finals_one old_finalizer_def tbl_def)
qed

lemma finals_chain_none:
  "tbl nd C i = None \<Longrightarrow> old_finalizer (tbl nd C) i = []"
  by (simp add: old_finalizer_def)

context library_memory
begin

lemma add_route_table:
  assumes inv: "routes_inv h0 C [] [q] s" and idle: "rs_active_readers (r_table s) = 0"
    and q: "r_nodes s q = r" "rt_next r = 0" "rt_proc_id r = i" and routes: "routes \<noteq> 0"
  shows "\<exists>rc s'. routes_add_route g page_ok routes q s = Some (rc, s') \<and>
    (reliable (r_heap s) \<longrightarrow> reliable (r_heap s')) \<and>
    (if rc = 0 then table_ok h0 ((tbl (r_nodes s) C)(i \<mapsto> r)) s' \<and>
       r_finalized s' = r_finalized s @ old_finalizer (tbl (r_nodes s) C) i
     else rc = -1 \<and> table_ok h0 (tbl (r_nodes s) C) s' \<and> r_finalized s' = r_finalized s \<and> \<not> (page_ok \<and> reliable (r_heap s)))"
proof -
  have "q \<in> blocks C [] [q]" by (simp add: blocks_def)
  then have q_live: "q \<in> live (r_heap s)" and q0: "q \<noteq> 0"
    using routes_inv_owns [OF inv] heap_owns_in_live heap_owns_not_null by (blast, metis)
  have cq: "content (r_nodes s) q = r" using q by (cases r) (simp add: content_def)
  have q': "rt_next (r_nodes s q) = 0" "rt_proc_id (r_nodes s q) = i" using q by simp_all
  from inv q' show ?thesis
  proof (cases rule: add_publish [where page_ok = page_ok])
    case (failed s')
    then have "tbl (r_nodes s') C = tbl (r_nodes s) C"
      by (intro same_rest_tbl)
    moreover have "routes_add_route g page_ok routes q s = Some (-1, s')"
      using failed(1) q_live q0 routes by (simp add: routes_add_route_def)
    ultimately show ?thesis using failed idle
      by (auto simp: table_ok_def same_rest_def intro!: exI [of _ C])
  next
    case (published old replaced s' L)
    note same = same_rest_chain [OF published(3)]
    have i: "rs_active_readers (r_table s') = 0" "r_finalized s' = r_finalized s"
      using published(3) idle by (simp_all add: same_rest_def)
    have tbl: "tbl (r_nodes s') (C(home i := L)) = (tbl (r_nodes s) C)(i \<mapsto> r)"
      using tbl_install [where C = C, OF published(6) q'(2) same] cq by simp
    have fin: "finals (r_nodes s') False replaced i (C (home i)) = old_finalizer (tbl (r_nodes s) C) i"
      using finals_chain [OF inv, of i] finals_cong [of "C (home i)" "r_nodes s'" "r_nodes s"] same
        finals_chain_none [of "r_nodes s" C i] published(5) by (cases replaced) auto
    from published(2,4) show ?thesis
    proof (cases rule: retire_route_cases [where one = replaced and i = i])
      case (freed s2)
      then have "routes_add_route g page_ok routes q s = Some (0, s2)"
        using published(1) q_live q0 routes q' by (simp add: routes_add_route_def)
      moreover have "table_ok h0 ((tbl (r_nodes s) C)(i \<mapsto> r)) s2"
        using freed(3,4,6) tbl i(1) by (auto simp: table_ok_def)
      ultimately show ?thesis using freed(7,8) published(7) i(2) fin by auto
    qed (use i in simp_all)
  qed
qed

end


text \<open>A fresh route with contents \<open>r\<close>, owned by the table before it is installed.\<close>

lemma routes_inv_fresh:
  assumes inv: "routes_inv h0 C R D s" and q: "q \<notin> blocks C R D" "heap_owns (insert q (blocks C R D)) h0 h'"
  shows "routes_inv h0 C R (q # D) (s\<lparr>r_heap := h', r_nodes := (r_nodes s)(q := r)\<rparr>)"
    "tbl ((r_nodes s)(q := r)) C = tbl (r_nodes s) C"
proof -
  have off: "((r_nodes s)(q := r)) p = r_nodes s p" if "p \<in> blocks C R D" for p
  proof -
    have "p \<noteq> q" using that q(1) by metis
    then show ?thesis by simp
  qed
  have ch: "((r_nodes s)(q := r)) p = r_nodes s p" if "p \<in> set (C x)" for p x
    using that off [of p] blocks_chain by blast
  then show "tbl ((r_nodes s)(q := r)) C = tbl (r_nodes s) C"
    by (intro ext tbl_cong)
  have "rets ((r_nodes s)(q := r)) (r_rets s) (rs_retired (r_table s)) R = rets (r_nodes s) (r_rets s) (rs_retired (r_table s)) R"
    using off by (intro rets_cong) (simp add: blocks_def)
  moreover have "pages_inv (r_nodes s) (rs_pages (r_table s)) C"
    using inv by (simp add: routes_inv_def)
  then have "pages_inv ((r_nodes s)(q := r)) (rs_pages (r_table s)) C"
    using ch by (rule pages_inv_nodes)
  moreover have "q \<notin> set (ret_addrs R)" "q \<notin> set D" "q \<notin> (\<Union>x. set (C x))"
    using q(1) unfolding blocks_def by blast+
  moreover have "blocks C R (q # D) = insert q (blocks C R D)"
    by (auto simp: blocks_def)
  ultimately show "routes_inv h0 C R (q # D) (s\<lparr>r_heap := h', r_nodes := (r_nodes s)(q := r)\<rparr>)"
    using inv q(2) by (simp add: routes_inv_def)
qed

text \<open>The function that allocates a route, fills it with \<open>r\<close> and installs it.\<close>

definition install :: "wirecall_allocator \<Rightarrow> bool \<Rightarrow> nat \<Rightarrow> wirecall_route \<Rightarrow> route_state \<Rightarrow> (int \<times> route_state) option" where
  "install g page_ok routes r s = do {
     (route, s) \<leftarrow> route_calloc g s;
     if route = 0 then Some (-1, s)
     else do { s \<leftarrow> node_put route r s; routes_add_route g page_ok routes route s } }"

text \<open>What an operation that can fail leaves behind, when it would turn the map into \<open>m'\<close>.\<close>

definition table_post ::
  "heap \<Rightarrow> (u64 \<Rightarrow> wirecall_route option) \<Rightarrow> (u64 \<Rightarrow> wirecall_route option) \<Rightarrow> u64 \<Rightarrow> int \<Rightarrow> route_state \<Rightarrow> route_state \<Rightarrow> bool" where
  "table_post h0 m m' i rc s s' \<longleftrightarrow>
     rc = 0 \<and> table_ok h0 m' s' \<and> r_finalized s' = r_finalized s @ old_finalizer m i \<or>
     rc = -1 \<and> table_ok h0 m s' \<and> r_finalized s' = r_finalized s"

context library_memory
begin

lemma install_table:
  assumes ok: "table_ok h0 m s" and r: "rt_next r = 0" "rt_proc_id r = i" and routes: "routes \<noteq> 0"
  shows "\<exists>rc s'. install g page_ok routes r s = Some (rc, s') \<and> table_post h0 m (m(i \<mapsto> r)) i rc s s' \<and>
    (reliable (r_heap s) \<longrightarrow> reliable (r_heap s') \<and> (page_ok \<longrightarrow> rc = 0))"
proof -
  obtain C where C: "routes_inv h0 C [] [] s" "m = tbl (r_nodes s) C" and idle: "rs_active_readers (r_table s) = 0"
    using ok by (auto simp: table_ok_def)
  from routes_inv_owns [OF C(1)] show ?thesis
  proof (cases rule: route_calloc_cases)
    case (fail h')
    then have "install g page_ok routes r s = Some (-1, s\<lparr>r_heap := h'\<rparr>)" by (simp add: install_def)
    moreover have "routes_inv h0 C [] [] (s\<lparr>r_heap := h'\<rparr>)"
      using C(1) fail(2) by (simp add: routes_inv_def)
    ultimately show ?thesis using C(2) idle fail(3) by (auto simp: table_post_def table_ok_def)
  next
    case (fresh q h')
    let ?s = "s\<lparr>r_heap := h', r_nodes := (r_nodes s)(q := r)\<rparr>"
    have "q \<in> live h'" using heap_owns_in_live [OF fresh(4)] by simp
    then have eq: "install g page_ok routes r s = routes_add_route g page_ok routes q ?s"
      using fresh(1,2) by (simp add: install_def)
    have inv: "routes_inv h0 C [] [q] ?s" "tbl (r_nodes ?s) C = m"
      using routes_inv_fresh [OF C(1) fresh(3,4)] C(2) by simp_all
    have at: "rs_active_readers (r_table ?s) = 0" "r_nodes ?s q = r" "r_finalized ?s = r_finalized s" "r_heap ?s = h'"
      using idle by simp_all
    obtain rc s' where *: "routes_add_route g page_ok routes q ?s = Some (rc, s')" "reliable h' \<longrightarrow> reliable (r_heap s')"
      "if rc = 0 then table_ok h0 (m(i \<mapsto> r)) s' \<and> r_finalized s' = r_finalized s @ old_finalizer m i
       else rc = -1 \<and> table_ok h0 m s' \<and> r_finalized s' = r_finalized s \<and> \<not> (page_ok \<and> reliable h')"
      using add_route_table [OF inv(1) at(1,2) r routes, of page_ok] unfolding inv(2) at(3,4) by blast
    then show ?thesis using eq fresh(5)
      by (intro exI [of _ rc] exI [of _ s']) (auto simp: table_post_def split: if_splits)
  qed
qed

lemma remove_table:
  assumes ok: "table_ok h0 m s" and routes: "routes \<noteq> 0"
  shows "\<exists>rc s'. wirecall_routes_remove g routes i s = Some (rc, s') \<and> table_post h0 m (m(i := None)) i rc s s' \<and>
    (reliable (r_heap s) \<longrightarrow> reliable (r_heap s') \<and> (m i \<noteq> None \<longrightarrow> rc = 0)) \<and> (m i = None \<longrightarrow> rc = -1)"
proof -
  obtain C where C: "routes_inv h0 C [] [] s" "m = tbl (r_nodes s) C" and idle: "rs_active_readers (r_table s) = 0"
    using ok by (auto simp: table_ok_def)
  from C(1) show ?thesis
  proof (cases rule: remove_publish [where i = i])
    case (failed s')
    then have "wirecall_routes_remove g routes i s = Some (-1, s')" "table_post h0 m (m(i := None)) i (-1) s s'"
      using routes idle C(2) same_rest_tbl [OF failed(3)]
      by (auto simp: wirecall_routes_remove_def table_post_def table_ok_def same_rest_def)
    then show ?thesis using failed(4,5) C(2) by auto
  next
    case (published old s' L)
    note same = same_rest_chain [OF published(3)]
    have i: "rs_active_readers (r_table s') = 0" "r_finalized s' = r_finalized s"
      using published(3) idle by (simp_all add: same_rest_def)
    have tbl: "tbl (r_nodes s') (C(home i := L)) = m(i := None)"
      using tbl_delete [where C = C, OF published(6) same] C(2) by simp
    have fin: "finals (r_nodes s') False True i (C (home i)) = old_finalizer m i"
      using finals_chain [OF C(1), of i] finals_cong [of "C (home i)" "r_nodes s'" "r_nodes s"] same C(2) by auto
    from published(2,4) show ?thesis
    proof (cases rule: retire_route_cases [where one = True and i = i])
      case (freed s2)
      then have "wirecall_routes_remove g routes i s = Some (0, s2)"
        using published(1) routes by (simp add: wirecall_routes_remove_def)
      moreover have "table_ok h0 (m(i := None)) s2"
        using freed(3,4,6) tbl i(1) by (auto simp: table_ok_def)
      ultimately show ?thesis using freed(7,8) published(5,7) i(2) fin C(2) by (auto simp: table_post_def)
    qed (use i in simp_all)
  qed
qed

lemma lookup_table:
  assumes ok: "table_ok h0 m s" and routes: "routes \<noteq> 0"
  shows "\<exists>out s'. wirecall_routes_lookup g routes i (Some r0) s = Some (if m i = None then -1 else 0, Some out, s') \<and>
    (case m i of None \<Rightarrow> out = r0 | Some r \<Rightarrow> out\<lparr>rt_next := 0\<rparr> = r) \<and> table_ok h0 m s' \<and>
    r_finalized s' = r_finalized s \<and> (reliable (r_heap s) \<longrightarrow> reliable (r_heap s'))"
proof -
  obtain C where C: "routes_inv h0 C [] [] s" "m = tbl (r_nodes s) C" and idle: "rs_active_readers (r_table s) = 0"
    using ok by (auto simp: table_ok_def)
  obtain out s' where *: "wirecall_routes_lookup g routes i (Some r0) s = Some (if m i = None then -1 else 0, Some out, s')"
    "case m i of None \<Rightarrow> out = r0 | Some r \<Rightarrow> out\<lparr>rt_next := 0\<rparr> = r"
    "routes_inv h0 C [] [] s'" "r_nodes s' = r_nodes s" "rs_active_readers (r_table s') = 0"
    "r_finalized s' = r_finalized s" "reliable (r_heap s) \<longrightarrow> reliable (r_heap s')"
    using lookup_inv [OF C(1) idle routes, of i r0] unfolding C(2) ret_simps append_Nil2 by blast
  have "table_ok h0 m s'" using *(3,4,5) C(2) by (auto simp: table_ok_def)
  then show ?thesis using * by blast
qed

end


section \<open>Sequences of operations\<close>

text \<open>
  The calls a server makes, and what they do to a map from ids to routes and to the list of
  finalizers called so far.  \<open>ok\<close> says whether the call gets the memory it needs.
\<close>

datatype route_op =
    Add u64 nat nat nat bool
  | Add_Deferred u64 nat nat nat
  | Remove u64
  | Lookup u64

type_synonym table_spec = "(u64 \<Rightarrow> wirecall_route option) \<times> (nat \<times> nat) list"

definition handler_route :: "u64 \<Rightarrow> nat \<Rightarrow> nat \<Rightarrow> nat \<Rightarrow> bool \<Rightarrow> wirecall_route" where
  "handler_route i h u f a =
     zero_route\<lparr>rt_proc_id := i, rt_handler := h, rt_user_data := u, rt_finalizer := f, rt_is_async := a\<rparr>"

definition deferred_route :: "u64 \<Rightarrow> nat \<Rightarrow> nat \<Rightarrow> nat \<Rightarrow> wirecall_route" where
  "deferred_route i h u f =
     zero_route\<lparr>rt_proc_id := i, rt_deferred_handler := h, rt_user_data := u, rt_finalizer := f, rt_is_deferred := True\<rparr>"

definition spec_install :: "bool \<Rightarrow> wirecall_route \<Rightarrow> table_spec \<Rightarrow> (int \<times> wirecall_route option) \<times> table_spec" where
  "spec_install ok r = (\<lambda>(m, log).
     if ok then ((0, None), m(rt_proc_id r \<mapsto> r), log @ old_finalizer m (rt_proc_id r)) else ((-1, None), m, log))"

fun spec_op :: "bool \<Rightarrow> route_op \<Rightarrow> table_spec \<Rightarrow> (int \<times> wirecall_route option) \<times> table_spec" where
  "spec_op ok (Add i h u f a) ml = spec_install (ok \<and> h \<noteq> 0) (handler_route i h u f a) ml"
| "spec_op ok (Add_Deferred i h u f) ml = spec_install (ok \<and> h \<noteq> 0) (deferred_route i h u f) ml"
| "spec_op ok (Remove i) (m, log) =
     (if ok \<and> m i \<noteq> None then ((0, None), m(i := None), log @ old_finalizer m i) else ((-1, None), m, log))"
| "spec_op ok (Lookup i) (m, log) = ((if m i = None then -1 else 0, m i), m, log)"

fun spec_run :: "bool list \<Rightarrow> route_op list \<Rightarrow> table_spec \<Rightarrow> (int \<times> wirecall_route option) list \<times> table_spec" where
  "spec_run (ok # oks) (o1 # ops) ml = (let (res, ml) = spec_op ok o1 ml; (rest, ml) = spec_run oks ops ml in (res # rest, ml))"
| "spec_run oks ops ml = ([], ml)"

text \<open>The same calls on the table; of the result of a lookup the link is left out.\<close>

definition exec_op ::
  "wirecall_allocator \<Rightarrow> bool \<Rightarrow> route_op \<Rightarrow> route_state \<Rightarrow> ((int \<times> wirecall_route option) \<times> route_state) option" where
  "exec_op g page_ok o1 s =
     (case o1 of
        Add i h u f a \<Rightarrow> do { (rc, s) \<leftarrow> wirecall_routes_add_ex g page_ok 1 i h u f a s; Some ((rc, None), s) }
      | Add_Deferred i h u f \<Rightarrow> do { (rc, s) \<leftarrow> wirecall_routes_add_deferred_ex g page_ok 1 i h u f s; Some ((rc, None), s) }
      | Remove i \<Rightarrow> do { (rc, s) \<leftarrow> wirecall_routes_remove g 1 i s; Some ((rc, None), s) }
      | Lookup i \<Rightarrow> do {
          (rc, out, s) \<leftarrow> wirecall_routes_lookup g 1 i (Some zero_route) s;
          Some ((rc, if rc = 0 then map_option (\<lambda>r. r\<lparr>rt_next := 0\<rparr>) out else None), s) })"

fun run_ops :: "(bool \<Rightarrow> route_op \<Rightarrow> 's \<Rightarrow> (('r \<times> 's) option)) \<Rightarrow> (bool \<times> route_op) list \<Rightarrow> 's \<Rightarrow> ('r list \<times> 's) option" where
  "run_ops exec [] s = Some ([], s)"
| "run_ops exec ((page_ok, o1) # ops) s = do {
     (res, s) \<leftarrow> exec page_ok o1 s;
     (rest, s) \<leftarrow> run_ops exec ops s;
     Some (res # rest, s) }"

text \<open>The contract of a table: each call behaves like the specification, and only a lack of memory makes it fail.\<close>

locale table_contract =
  fixes exec :: "bool \<Rightarrow> route_op \<Rightarrow> 's \<Rightarrow> ((int \<times> wirecall_route option) \<times> 's) option"
    and holds :: "(u64 \<Rightarrow> wirecall_route option) \<Rightarrow> 's \<Rightarrow> bool"
    and log :: "'s \<Rightarrow> (nat \<times> nat) list" and plenty :: "'s \<Rightarrow> bool"
  assumes exec_law: "holds m s \<Longrightarrow> \<exists>ok res s' m'. exec page_ok o1 s = Some (res, s') \<and>
     spec_op ok o1 (m, log s) = (res, m', log s') \<and> holds m' s' \<and> (plenty s \<longrightarrow> plenty s' \<and> (page_ok \<longrightarrow> ok))"
begin

lemma run_refines:
  assumes "holds m s"
  shows "\<exists>oks res s' m'. run_ops exec ops s = Some (res, s') \<and> length oks = length ops \<and>
     spec_run oks (map snd ops) (m, log s) = (res, m', log s') \<and> holds m' s' \<and>
     (plenty s \<and> list_all fst ops \<longrightarrow> list_all (\<lambda>ok. ok) oks)"
  using assms
proof (induction ops arbitrary: m s)
  case Nil
  then show ?case by (intro exI [of _ "[]"]) auto
next
  case (Cons x ops)
  obtain page_ok o1 where x: "x = (page_ok, o1)" by (cases x)
  obtain ok r s1 m1 where 1: "exec page_ok o1 s = Some (r, s1)" "spec_op ok o1 (m, log s) = (r, m1, log s1)" "holds m1 s1"
    "plenty s \<longrightarrow> plenty s1 \<and> (page_ok \<longrightarrow> ok)"
    using exec_law [OF Cons.prems] by blast
  obtain oks rs s' m' where 2: "run_ops exec ops s1 = Some (rs, s')" "length oks = length ops"
    "spec_run oks (map snd ops) (m1, log s1) = (rs, m', log s')" "holds m' s'"
    "plenty s1 \<and> list_all fst ops \<longrightarrow> list_all (\<lambda>ok. ok) oks"
    using Cons.IH [OF 1(3)] by blast
  show ?case
    using 1 2 x by (intro exI [of _ "ok # oks"] exI [of _ "r # rs"] exI [of _ s'] exI [of _ m']) simp
qed

end

lemma add_ex_install:
  "routes \<noteq> 0 \<Longrightarrow> h \<noteq> 0 \<Longrightarrow>
   wirecall_routes_add_ex g page_ok routes i h u f a s = install g page_ok routes (handler_route i h u f a) s"
  by (simp add: wirecall_routes_add_ex_def install_def handler_route_def cong: if_cong)

lemma add_deferred_install:
  "routes \<noteq> 0 \<Longrightarrow> h \<noteq> 0 \<Longrightarrow>
   wirecall_routes_add_deferred_ex g page_ok routes i h u f s = install g page_ok routes (deferred_route i h u f) s"
  by (simp add: wirecall_routes_add_deferred_ex_def install_def deferred_route_def cong: if_cong)

lemma new_route_sel [simp]:
  "rt_next (handler_route i h u f a) = 0" "rt_proc_id (handler_route i h u f a) = i"
  "rt_next (deferred_route i h u f) = 0" "rt_proc_id (deferred_route i h u f) = i"
  by (simp_all add: handler_route_def deferred_route_def zero_route_def)

context library_memory
begin

lemma install_spec:
  assumes "table_ok h0 m s" "rt_next r = 0"
  shows "\<exists>ok res s' m'. do { (rc, s) \<leftarrow> install g page_ok 1 r s; Some ((rc, None), s) } = Some (res, s') \<and>
     spec_install ok r (m, r_finalized s) = (res, m', r_finalized s') \<and> table_ok h0 m' s' \<and>
     (reliable (r_heap s) \<longrightarrow> reliable (r_heap s') \<and> (page_ok \<longrightarrow> ok))"
proof -
  obtain rc s' where i: "install g page_ok 1 r s = Some (rc, s')"
    "table_post h0 m (m(rt_proc_id r \<mapsto> r)) (rt_proc_id r) rc s s'"
    "reliable (r_heap s) \<longrightarrow> reliable (r_heap s') \<and> (page_ok \<longrightarrow> rc = 0)"
    using install_table [OF assms refl, of 1 page_ok] by auto
  then show ?thesis
    by (intro exI [of _ "rc = 0"] exI [of _ "(rc, None)"] exI [of _ s']) (auto simp: spec_install_def table_post_def)
qed

lemma exec_op_law:
  assumes ok: "table_ok h0 m s"
  shows "\<exists>ok res s' m'. exec_op g page_ok o1 s = Some (res, s') \<and>
     spec_op ok o1 (m, r_finalized s) = (res, m', r_finalized s') \<and> table_ok h0 m' s' \<and>
     (reliable (r_heap s) \<longrightarrow> reliable (r_heap s') \<and> (page_ok \<longrightarrow> ok))"
proof (cases o1)
  case (Add i h u f a)
  show ?thesis
  proof (cases "h = 0")
    case True
    then show ?thesis using ok Add
      by (intro exI [of _ True] exI [of _ "(-1, None)"] exI [of _ s] exI [of _ m])
        (simp add: exec_op_def wirecall_routes_add_ex_def spec_install_def)
  next
    case False
    then show ?thesis using install_spec [OF ok, of "handler_route i h u f a" page_ok] Add
      by (simp add: exec_op_def add_ex_install)
  qed
next
  case (Add_Deferred i h u f)
  show ?thesis
  proof (cases "h = 0")
    case True
    then show ?thesis using ok Add_Deferred
      by (intro exI [of _ True] exI [of _ "(-1, None)"] exI [of _ s] exI [of _ m])
        (simp add: exec_op_def wirecall_routes_add_deferred_ex_def spec_install_def)
  next
    case False
    then show ?thesis using install_spec [OF ok, of "deferred_route i h u f" page_ok] Add_Deferred
      by (simp add: exec_op_def add_deferred_install)
  qed
next
  case (Remove i)
  obtain rc s' where r: "wirecall_routes_remove g 1 i s = Some (rc, s')" "table_post h0 m (m(i := None)) i rc s s'"
    "reliable (r_heap s) \<longrightarrow> reliable (r_heap s') \<and> (m i \<noteq> None \<longrightarrow> rc = 0)" "m i = None \<longrightarrow> rc = -1"
    using remove_table [OF ok, of 1 i] by auto
  then show ?thesis using Remove
    by (intro exI [of _ "rc = 0 \<or> m i = None"] exI [of _ "(rc, None)"] exI [of _ s'])
      (auto simp: exec_op_def table_post_def)
next
  case (Lookup i)
  obtain out s' where l: "wirecall_routes_lookup g 1 i (Some zero_route) s = Some (if m i = None then -1 else 0, Some out, s')"
    "case m i of None \<Rightarrow> out = zero_route | Some r \<Rightarrow> out\<lparr>rt_next := 0\<rparr> = r" "table_ok h0 m s'"
    "r_finalized s' = r_finalized s" "reliable (r_heap s) \<longrightarrow> reliable (r_heap s')"
    using lookup_table [OF ok, of 1 i zero_route] by auto
  then show ?thesis using Lookup
    by (intro exI [of _ True] exI [of _ "(if m i = None then -1 else 0, m i)"] exI [of _ s'] exI [of _ m])
      (auto simp: exec_op_def split: option.splits)
qed

lemma table_contract_exec:
  "table_contract (exec_op g) (table_ok h0) r_finalized (\<lambda>s. reliable (r_heap s))"
  by unfold_locales (rule exec_op_law)

end

interpretation plain_table: table_contract "exec_op no_allocator" "table_ok h0" r_finalized "\<lambda>s. never_fails (r_heap s)" for h0
  by (rule plain_memory.table_contract_exec)


section \<open>Destroying the table\<close>

context library_memory
begin

lemma destroy_page_chains:
  assumes "heap_owns B h0 (r_heap s)" "\<forall>j\<in>{i..<i + n}. chain (r_nodes s) (page j) (Ls j) \<and> distinct (Ls j) \<and> set (Ls j) \<subseteq> B"
    and "\<forall>j k. j \<noteq> k \<longrightarrow> set (Ls j) \<inter> set (Ls k) = {}"
  shows "\<exists>h'. destroy_page g page i n s =
       Some (s\<lparr>r_heap := h', r_finalized := r_finalized s @ finals (r_nodes s) True False 0 (concat (map Ls [i..<i + n]))\<rparr>) \<and>
     heap_owns (B - (\<Union>j\<in>{i..<i + n}. set (Ls j))) h0 h'"
  using assms
proof (induction n arbitrary: i s B)
  case 0
  then show ?case by (intro exI [of _ "r_heap s"]) simp
next
  case (Suc n)
  have i: "chain (r_nodes s) (page i) (Ls i)" "distinct (Ls i)" "set (Ls i) \<subseteq> B" using Suc.prems(2) by auto
  obtain h1 where h1: "route_chain_free g (page i) True False 0 s =
      Some (s\<lparr>r_heap := h1, r_finalized := r_finalized s @ finals (r_nodes s) True False 0 (Ls i)\<rparr>)"
    "heap_owns (B - set (Ls i)) h0 h1"
    using chain_free [OF Suc.prems(1) i] by blast
  let ?s1 = "s\<lparr>r_heap := h1, r_finalized := r_finalized s @ finals (r_nodes s) True False 0 (Ls i)\<rparr>"
  have rest: "\<forall>j\<in>{i + 1..<i + 1 + n}. chain (r_nodes ?s1) (page j) (Ls j) \<and> distinct (Ls j) \<and> set (Ls j) \<subseteq> B - set (Ls i)"
  proof
    fix j
    assume j: "j \<in> {i + 1..<i + 1 + n}"
    then have "j \<noteq> i" by auto
    then have "set (Ls j) \<inter> set (Ls i) = {}" using Suc.prems(3) by blast
    then show "chain (r_nodes ?s1) (page j) (Ls j) \<and> distinct (Ls j) \<and> set (Ls j) \<subseteq> B - set (Ls i)"
      using Suc.prems(2) j by auto
  qed
  obtain h' where h': "destroy_page g page (i + 1) n ?s1 = Some (?s1\<lparr>r_heap := h',
      r_finalized := r_finalized ?s1 @ finals (r_nodes ?s1) True False 0 (concat (map Ls [i + 1..<i + 1 + n]))\<rparr>)"
    "heap_owns (B - set (Ls i) - (\<Union>j\<in>{i + 1..<i + 1 + n}. set (Ls j))) h0 h'"
    using Suc.IH [OF _ rest Suc.prems(3)] h1(2) by auto
  have "{i..<i + Suc n} = insert i {i + 1..<i + 1 + n}" by auto
  then have "B - (\<Union>j\<in>{i..<i + Suc n}. set (Ls j)) = B - set (Ls i) - (\<Union>j\<in>{i + 1..<i + 1 + n}. set (Ls j))" by auto
  moreover have "[i..<i + Suc n] = i # [i + 1..<i + 1 + n]" by (simp add: upt_conv_Cons)
  ultimately show ?case using h1(1) h' by (intro exI [of _ h']) simp
qed

lemma destroy_pages_chains:
  assumes "heap_owns B h0 (r_heap s)" "\<forall>x. chain (r_nodes s) (first_route pages x) (C x) \<and> distinct (C x)"
    and "\<forall>x y. x \<noteq> y \<longrightarrow> set (C x) \<inter> set (C y) = {}" "\<forall>x\<in>{k..<k + n} \<times> UNIV. set (C x) \<subseteq> B"
  shows "\<exists>h'. destroy_pages g pages k n s = Some (s\<lparr>r_heap := h', r_finalized := r_finalized s @
       finals (r_nodes s) True False 0 (concat (map (\<lambda>k. concat (map (\<lambda>j. C (k, j)) [0..<WIRECALL_ROUTE_PAGE_SIZE])) [k..<k + n]))\<rparr>) \<and>
     heap_owns (B - (\<Union>x\<in>{k..<k + n} \<times> {0..<WIRECALL_ROUTE_PAGE_SIZE}. set (C x))) h0 h'"
  using assms
proof (induction n arbitrary: k s B)
  case 0
  then show ?case by (intro exI [of _ "r_heap s"]) simp
next
  case (Suc n)
  let ?L = "concat (map (\<lambda>j. C (k, j)) [0..<WIRECALL_ROUTE_PAGE_SIZE])"
  let ?B = "B - (\<Union>j\<in>{0..<WIRECALL_ROUTE_PAGE_SIZE}. set (C (k, j)))"
  have "\<exists>h1. (case pages k of None \<Rightarrow> Some s | Some page \<Rightarrow> destroy_page g page 0 WIRECALL_ROUTE_PAGE_SIZE s) =
      Some (s\<lparr>r_heap := h1, r_finalized := r_finalized s @ finals (r_nodes s) True False 0 ?L\<rparr>) \<and> heap_owns ?B h0 h1"
  proof (cases "pages k")
    case None
    have "C (k, j) = []" for j
      using spec [OF Suc.prems(2), of "(k, j)"] None by (simp add: first_route_def)
    then have "?L = []" "?B = B" by simp_all
    then show ?thesis using None Suc.prems(1) by (intro exI [of _ "r_heap s"]) (simp del: concat_eq_Nil_conv)
  next
    case (Some page)
    have "chain (r_nodes s) (page j) (C (k, j)) \<and> distinct (C (k, j)) \<and> set (C (k, j)) \<subseteq> B" for j
      using spec [OF Suc.prems(2), of "(k, j)"] Suc.prems(4) Some by (simp add: first_route_def)
    then show ?thesis
      using destroy_page_chains [OF Suc.prems(1), of 0 WIRECALL_ROUTE_PAGE_SIZE page "\<lambda>j. C (k, j)"] Suc.prems(3) Some by simp
  qed
  then obtain h1 where h1: "(case pages k of None \<Rightarrow> Some s | Some page \<Rightarrow> destroy_page g page 0 WIRECALL_ROUTE_PAGE_SIZE s) =
      Some (s\<lparr>r_heap := h1, r_finalized := r_finalized s @ finals (r_nodes s) True False 0 ?L\<rparr>)" "heap_owns ?B h0 h1"
    by blast
  let ?s1 = "s\<lparr>r_heap := h1, r_finalized := r_finalized s @ finals (r_nodes s) True False 0 ?L\<rparr>"
  have rest: "\<forall>x\<in>{k + 1..<k + 1 + n} \<times> UNIV. set (C x) \<subseteq> ?B"
  proof
    fix x :: "nat \<times> nat"
    assume x: "x \<in> {k + 1..<k + 1 + n} \<times> UNIV"
    then have "x \<noteq> (k, j)" for j by auto
    then have "set (C x) \<inter> set (C (k, j)) = {}" for j
      using Suc.prems(3) by blast
    then show "set (C x) \<subseteq> ?B" using Suc.prems(4) x by fastforce
  qed
  obtain h' where h': "destroy_pages g pages (k + 1) n ?s1 = Some (?s1\<lparr>r_heap := h', r_finalized := r_finalized ?s1 @
      finals (r_nodes ?s1) True False 0
        (concat (map (\<lambda>k. concat (map (\<lambda>j. C (k, j)) [0..<WIRECALL_ROUTE_PAGE_SIZE])) [k + 1..<k + 1 + n]))\<rparr>)"
    "heap_owns (?B - (\<Union>x\<in>{k + 1..<k + 1 + n} \<times> {0..<WIRECALL_ROUTE_PAGE_SIZE}. set (C x))) h0 h'"
    using Suc.IH [OF _ _ Suc.prems(3) rest, of ?s1] h1(2) Suc.prems(2) by auto
  have "{k..<k + Suc n} = insert k {k + 1..<k + 1 + n}" by auto
  then have "B - (\<Union>x\<in>{k..<k + Suc n} \<times> {0..<WIRECALL_ROUTE_PAGE_SIZE}. set (C x)) =
      ?B - (\<Union>x\<in>{k + 1..<k + 1 + n} \<times> {0..<WIRECALL_ROUTE_PAGE_SIZE}. set (C x))" by auto
  moreover have "[k..<k + Suc n] = k # [k + 1..<k + 1 + n]" by (simp add: upt_conv_Cons)
  ultimately show ?case using h1(1) h' by (intro exI [of _ h']) simp
qed

end


text \<open>The finalizers of the routes that a map holds.\<close>

definition held :: "(u64 \<Rightarrow> wirecall_route option) \<Rightarrow> (nat \<times> nat) multiset" where
  "held m = (\<Sum>i\<in>dom m. mset (old_finalizer m i))"

lemma mset_finals_all: "mset (finals nd True False 0 L) = (\<Sum>p\<leftarrow>L. mset (finalizer_of (nd p)))"
  by (induction L) auto

lemma tbl_Some:
  assumes "pages_inv nd t C" "p \<in> set (C x)"
  shows "tbl nd C (rt_proc_id (nd p)) = Some (content nd p)"
proof -
  let ?i = "rt_proc_id (nd p)"
  have x: "home ?i = x" "distinct (map (\<lambda>p. rt_proc_id (nd p)) (C x))"
    using assms by (simp_all add: pages_inv_def del: split_paired_All)
  have "find (\<lambda>r. rt_proc_id r = ?i) (map (content nd) L) = Some (content nd p)"
    if "p \<in> set L" "distinct (map (\<lambda>p. rt_proc_id (nd p)) L)" for L
    using that by (induction L) auto
  then show ?thesis using assms(2) x by (simp add: tbl_def)
qed

lemma dom_tbl:
  assumes "pages_inv nd t C"
  shows "bij_betw (\<lambda>p. rt_proc_id (nd p)) (\<Union>x. set (C x)) (dom (tbl nd C))"
proof (rule bij_betwI')
  fix p q
  assume pq: "p \<in> (\<Union>x. set (C x))" "q \<in> (\<Union>x. set (C x))"
  then obtain x y where xy: "p \<in> set (C x)" "q \<in> set (C y)" by blast
  show "(rt_proc_id (nd p) = rt_proc_id (nd q)) = (p = q)"
  proof
    assume eq: "rt_proc_id (nd p) = rt_proc_id (nd q)"
    have "home (rt_proc_id (nd p)) = x" "home (rt_proc_id (nd q)) = y" "inj_on (\<lambda>p. rt_proc_id (nd p)) (set (C x))"
      using assms xy by (simp_all add: pages_inv_def distinct_map del: split_paired_All)
    then show "p = q" using eq xy by (simp add: inj_on_def)
  qed simp
  show "rt_proc_id (nd p) \<in> dom (tbl nd C)"
    using tbl_Some [OF assms xy(1)] by blast
next
  fix i
  assume "i \<in> dom (tbl nd C)"
  then have "i \<in> (\<lambda>p. rt_proc_id (nd p)) ` set (C (home i))"
    using tbl_eq_None_iff [of nd C i] by auto
  then show "\<exists>p\<in>\<Union>x. set (C x). i = rt_proc_id (nd p)"
    by blast
qed

lemma chains_UN:
  fixes C :: chains
  assumes "\<And>x. C x \<noteq> [] \<Longrightarrow> x \<in> X"
  shows "(\<Union>x. set (C x)) = (\<Union>x\<in>X. set (C x))"
proof -
  have "set (C x) \<subseteq> (\<Union>x\<in>X. set (C x))" for x
    using assms [of x] by (cases "C x = []") (simp, blast)
  then show ?thesis by blast
qed

lemma held_tbl:
  assumes inv: "pages_inv nd t C" and fin: "finite X" and sub: "\<And>x. C x \<noteq> [] \<Longrightarrow> x \<in> X"
  shows "(\<Sum>x\<in>X. mset (finals nd True False 0 (C x))) = held (tbl nd C)" "finite (dom (tbl nd C))"
proof -
  have U: "(\<Union>x. set (C x)) = (\<Union>x\<in>X. set (C x))"
    using sub by (rule chains_UN)
  have dis: "set (C x) \<inter> set (C y) = {}" if "x \<noteq> y" for x y
    using chains_apart [OF inv, of y] that by blast
  have "(\<Sum>x\<in>X. mset (finals nd True False 0 (C x))) = (\<Sum>x\<in>X. \<Sum>p\<in>set (C x). mset (finalizer_of (nd p)))"
    using pages_inv_distinct [OF inv] by (simp add: mset_finals_all sum_list_distinct_conv_sum_set)
  also have "\<dots> = (\<Sum>p\<in>(\<Union>x\<in>X. set (C x)). mset (finalizer_of (nd p)))"
    using fin dis by (intro sum.UNION_disjoint [symmetric]) blast+
  also have "\<dots> = (\<Sum>p\<in>(\<Union>x. set (C x)). mset (old_finalizer (tbl nd C) (rt_proc_id (nd p))))"
    unfolding U
  proof (rule sum.cong [OF refl])
    fix p
    assume "p \<in> (\<Union>x\<in>X. set (C x))"
    then obtain x where "p \<in> set (C x)" by blast
    then show "mset (finalizer_of (nd p)) = mset (old_finalizer (tbl nd C) (rt_proc_id (nd p)))"
      using tbl_Some [OF inv] by (simp add: old_finalizer_def)
  qed
  also have "\<dots> = held (tbl nd C)"
    unfolding held_def by (rule sum.reindex_bij_betw [OF dom_tbl [OF inv]])
  finally show "(\<Sum>x\<in>X. mset (finals nd True False 0 (C x))) = held (tbl nd C)" .
  have "finite (\<Union>x. set (C x))" unfolding U using fin by simp
  then show "finite (dom (tbl nd C))"
    using bij_betw_finite [OF dom_tbl [OF inv]] by simp
qed

text \<open>The slots there are.\<close>

definition all_slots :: "(nat \<times> nat) set" where
  "all_slots = {0..<WIRECALL_ROUTE_ROOT_SIZE} \<times> {0..<WIRECALL_ROUTE_PAGE_SIZE}"

lemma chains_in_slots:
  assumes "pages_inv nd t C" "C x \<noteq> []"
  shows "x \<in> all_slots"
proof -
  obtain p where "p \<in> set (C x)" using assms(2) by (meson ex_in_conv set_empty)
  then have "home (rt_proc_id (nd p)) = x" using assms(1) by (simp add: pages_inv_def del: split_paired_All)
  then show ?thesis by (auto simp: home_def all_slots_def)
qed

lemma finals_concat: "mset (finals nd e w i (concat Ls)) = (\<Sum>L\<leftarrow>Ls. mset (finals nd e w i L))"
  by (induction Ls) auto

lemma destroy_finals:
  "mset (finals nd True False 0
     (concat (map (\<lambda>k. concat (map (\<lambda>j. C (k, j)) [0..<WIRECALL_ROUTE_PAGE_SIZE])) [0..<WIRECALL_ROUTE_ROOT_SIZE]))) =
   (\<Sum>x\<in>all_slots. mset (finals nd True False 0 (C x)))"
  unfolding all_slots_def finals_concat
  by (simp add: comp_def finals_concat sum.cartesian_product' sum_list_distinct_conv_sum_set)

context library_memory
begin

lemma destroy_table:
  assumes ok: "table_ok h0 m s" and routes: "routes \<noteq> 0"
  shows "\<exists>s'. wirecall_routes_destroy g routes s = Some s' \<and> heap_owns {} h0 (r_heap s') \<and>
    mset (r_finalized s') = mset (r_finalized s) + held m \<and> finite (dom m)"
proof -
  obtain C where C: "routes_inv h0 C [] [] s" "m = tbl (r_nodes s) C" using ok by (auto simp: table_ok_def)
  obtain pages where pages: "rs_pages (r_table s) = Mapped pages" "pages_inv (r_nodes s) (Mapped pages) C"
    "\<And>x. chain (r_nodes s) (first_route pages x) (C x)"
    using routes_inv_mapped [OF C(1)] by blast
  let ?B = "blocks C [] []"
  have retired: "rs_retired (r_table s) = 0" using C(1) by (simp add: routes_inv_def)
  have slots: "\<And>x. C x \<noteq> [] \<Longrightarrow> x \<in> all_slots" using chains_in_slots [OF pages(2)] .
  have dis: "\<forall>x y. x \<noteq> y \<longrightarrow> set (C x) \<inter> set (C y) = {}"
    using chains_apart [OF pages(2)] by blast
  have wf: "\<forall>x. chain (r_nodes s) (first_route pages x) (C x) \<and> distinct (C x)"
    using pages(3) pages_inv_distinct [OF pages(2)] by blast
  have sub: "\<forall>x\<in>{0..<0 + WIRECALL_ROUTE_ROOT_SIZE} \<times> UNIV. set (C x) \<subseteq> ?B"
    using blocks_chain by blast
  obtain h' where h': "destroy_pages g pages 0 WIRECALL_ROUTE_ROOT_SIZE s = Some (s\<lparr>r_heap := h', r_finalized := r_finalized s @
      finals (r_nodes s) True False 0
        (concat (map (\<lambda>k. concat (map (\<lambda>j. C (k, j)) [0..<WIRECALL_ROUTE_PAGE_SIZE])) [0..<WIRECALL_ROUTE_ROOT_SIZE]))\<rparr>)"
    "heap_owns (?B - (\<Union>x\<in>all_slots. set (C x))) h0 h'"
    using destroy_pages_chains [OF routes_inv_owns [OF C(1)] wf dis sub] unfolding all_slots_def add_0 by blast
  have "?B - (\<Union>x\<in>all_slots. set (C x)) = {}"
    using chains_UN [of C, OF slots] by (simp add: blocks_def)
  then have "heap_owns {} h0 h'"
    using h'(2) by (simp only:)
  moreover have "finite all_slots" by (simp add: all_slots_def)
  ultimately show ?thesis
    using h'(1) pages(1) retired routes held_tbl [OF pages(2) _ slots] C(2)
    by (simp add: wirecall_routes_destroy_def free_retired_loop.simps destroy_finals)
qed

end


section \<open>Accounting for finalizers\<close>

definition new_finalizer :: "route_op \<Rightarrow> (nat \<times> nat) list" where
  "new_finalizer o1 = (case o1 of Add i h u f a \<Rightarrow> finalizer_of (handler_route i h u f a)
     | Add_Deferred i h u f \<Rightarrow> finalizer_of (deferred_route i h u f) | _ \<Rightarrow> [])"

text \<open>The finalizers of the registrations that succeeded.\<close>

fun registered :: "(int \<times> wirecall_route option) list \<Rightarrow> route_op list \<Rightarrow> (nat \<times> nat) list" where
  "registered ((rc, out) # res) (o1 # ops) = (if rc = 0 then new_finalizer o1 else []) @ registered res ops"
| "registered res ops = []"

lemma held_split:
  assumes "finite (dom m)"
  shows "held m = mset (old_finalizer m i) + held (m(i := None))"
proof (cases "m i")
  case None
  then show ?thesis by (simp add: held_def old_finalizer_def fun_upd_idem)
next
  case (Some r)
  have "(\<Sum>j\<in>dom m - {i}. mset (old_finalizer m j)) = (\<Sum>j\<in>dom m - {i}. mset (old_finalizer (m(i := None)) j))"
    by (rule sum.cong) (auto simp: old_finalizer_def)
  then show ?thesis using assms Some sum.remove [of "dom m" i "\<lambda>j. mset (old_finalizer m j)"] by (auto simp: held_def)
qed

lemma spec_install_account:
  assumes "finite (dom m)" "spec_install ok r (m, log) = ((rc, out), m', log')"
  shows "finite (dom m')" "mset log' + held m' = mset log + held m + mset (if rc = 0 then finalizer_of r else [])"
proof -
  have "held (m(i \<mapsto> r)) = mset (finalizer_of r) + held (m(i := None))" for i
    using held_split [of "m(i \<mapsto> r)" i] assms(1) by (simp add: old_finalizer_def)
  then show "finite (dom m')" "mset log' + held m' = mset log + held m + mset (if rc = 0 then finalizer_of r else [])"
    using assms held_split [of m "rt_proc_id r"] by (auto simp: spec_install_def split: if_splits)
qed

lemma spec_op_account:
  assumes "finite (dom m)" "spec_op ok o1 (m, log) = ((rc, out), m', log')"
  shows "finite (dom m') \<and> mset log' + held m' = mset log + held m + mset (if rc = 0 then new_finalizer o1 else [])"
proof (cases o1)
  case (Add i h u f a)
  then show ?thesis using assms spec_install_account [of m] by (auto simp: new_finalizer_def)
next
  case (Add_Deferred i h u f)
  then show ?thesis using assms spec_install_account [of m] by (auto simp: new_finalizer_def)
next
  case (Remove i)
  then show ?thesis using assms held_split [of m i] by (auto simp: new_finalizer_def split: if_splits)
next
  case (Lookup i)
  then show ?thesis using assms by (auto simp: new_finalizer_def)
qed

lemma spec_run_account:
  assumes "length oks = length ops" "finite (dom m)" "spec_run oks ops (m, log) = (res, m', log')"
  shows "mset log' + held m' = mset log + held m + mset (registered res ops)"
  using assms
proof (induction oks ops arbitrary: m log res rule: list_induct2)
  case (Cons ok oks o1 ops)
  obtain rc out m1 log1 where 1: "spec_op ok o1 (m, log) = ((rc, out), m1, log1)"
    by (metis surj_pair)
  obtain rest where 2: "spec_run oks ops (m1, log1) = (rest, m', log')" "res = (rc, out) # rest"
    using Cons.prems(2) 1 by (auto simp: Let_def split: prod.splits)
  have "finite (dom m1) \<and> mset log1 + held m1 = mset log + held m + mset (if rc = 0 then new_finalizer o1 else [])"
    using spec_op_account [OF Cons.prems(1) 1] .
  then show ?case using Cons.IH [OF _ 2(1)] 2(2) by (simp add: ac_simps)
qed simp

lemma init_table:
  assumes "heap_ok (r_heap s0)" "wirecall_routes_init True True 1 s0 = (rc, s)"
  shows "table_ok (r_heap s0) Map.empty s" "rc = 0" "r_finalized s = r_finalized s0" "r_heap s = r_heap s0"
proof -
  have "tbl (r_nodes s) (\<lambda>_. []) = Map.empty" by (simp add: tbl_def fun_eq_iff)
  then show "table_ok (r_heap s0) Map.empty s" "rc = 0" "r_finalized s = r_finalized s0" "r_heap s = r_heap s0"
    using assms heap_owns_refl [OF assms(1)] unfolding table_ok_def
    by (auto simp: wirecall_routes_init_def zero_routes_def Let_def routes_inv_def pages_inv_def first_route_def blocks_def
        intro!: exI [of _ "\<lambda>_. []"])
qed

text \<open>
  C12: From a fresh table, any sequence of registrations, removals and lookups is defined and returns
  what it would return on a map from ids to routes; a call fails only if it is refused by the
  specification or gets no memory, and then the map is unchanged; with the allocator of the C library
  in a heap that never fails, and when pages can be mapped, no call fails for lack of memory.
  The finalizers called are, in order, those of the routes that were replaced or removed.
\<close>

theorem routes_refine_map:
  assumes g: "mem_ok g" and h: "heap_ok (r_heap s0)" and init: "wirecall_routes_init True True 1 s0 = (rc, s)"
  shows "\<exists>oks res s' m. run_ops (exec_op g) ops s = Some (res, s') \<and> length oks = length ops \<and>
    spec_run oks (map snd ops) (Map.empty, r_finalized s0) = (res, m, r_finalized s') \<and>
    (g = no_allocator \<and> never_fails (r_heap s0) \<and> list_all fst ops \<longrightarrow> list_all (\<lambda>ok. ok) oks)"
proof (cases "g = no_allocator")
  case True
  then show ?thesis
    using plain_table.run_refines [OF init_table(1) [OF h init], of ops] init_table(3,4) [OF h init] by fastforce
next
  case False
  note run = table_contract.run_refines [OF library_memory.table_contract_exec [OF library_memory_any [OF g]]]
  show ?thesis
    using run [OF init_table(1) [OF h init], of ops] init_table(3) [OF h init] False by fastforce
qed

definition start0 :: route_state where
  "start0 = \<lparr>r_table = zero_routes, r_nodes = (\<lambda>_. zero_route), r_rets = (\<lambda>_. zero_ret), r_heap = heap0, r_finalized = []\<rparr>"

lemma start0_init: "wirecall_routes_init True True 1 start0 = (0, snd (wirecall_routes_init True True 1 start0))"
  "heap_ok (r_heap start0)" "never_fails (r_heap start0)" "r_finalized start0 = []"
  by (simp_all add: start0_def wirecall_routes_init_def zero_routes_def never_fails_def heap0_def heap_ok_def)

definition ops0 :: "(bool \<times> route_op) list" where
  "ops0 = [(True, Add 1 5 7 9 False), (True, Add_Deferred 2 6 8 0), (True, Lookup 2), (True, Remove 1), (True, Lookup 1)]"

lemma ops0_spec:
  assumes "length oks = length ops0" "list_all (\<lambda>ok. ok) oks"
  shows "fst (spec_run oks (map snd ops0) (Map.empty, [])) =
      [(0, None), (0, None), (0, Some (deferred_route 2 6 8 0)), (0, None), (-1, None)]"
    "snd (snd (spec_run oks (map snd ops0) (Map.empty, []))) = [(9, 7)]"
  using assms
  by (auto simp: ops0_def length_Suc_conv spec_install_def old_finalizer_def finalizer_of_def handler_route_def
      deferred_route_def zero_route_def)

theorem routes_refine_map_witness:
  "\<exists>s'. run_ops (exec_op no_allocator) ops0 (snd (wirecall_routes_init True True 1 start0)) =
     Some ([(0, None), (0, None), (0, Some (deferred_route 2 6 8 0)), (0, None), (-1, None)], s') \<and> r_finalized s' = [(9, 7)]"
proof -
  have all: "list_all fst ops0" by (simp add: ops0_def)
  obtain oks res s' m where *: "run_ops (exec_op no_allocator) ops0 (snd (wirecall_routes_init True True 1 start0)) = Some (res, s')"
    "length oks = length ops0" "spec_run oks (map snd ops0) (Map.empty, []) = (res, m, r_finalized s')" "list_all (\<lambda>ok. ok) oks"
    using routes_refine_map [OF mem_ok_no_allocator start0_init(2,1), of ops0] start0_init(3,4) all by auto
  then show ?thesis using ops0_spec [OF *(2,4)] by simp
qed

text \<open>
  C14: When the table is destroyed after any such sequence, every block it ever allocated has been
  freed and the rest of the heap is untouched, and over the whole life of the table the finalizer of
  every registration that succeeded has been called exactly once.
\<close>

theorem routes_lifecycle:
  assumes g: "mem_ok g" and h: "heap_ok (r_heap s0)" and init: "wirecall_routes_init True True 1 s0 = (rc, s)"
    and run: "run_ops (exec_op g) ops s = Some (res, s')"
  shows "\<exists>s''. wirecall_routes_destroy g 1 s' = Some s'' \<and> heap_same (r_heap s0) (r_heap s'') \<and>
    mset (r_finalized s'') = mset (r_finalized s0) + mset (registered res (map snd ops))"
proof -
  note lm = library_memory_any [OF g]
  note st = init_table [OF h init]
  obtain oks m where m: "length oks = length ops"
    "spec_run oks (map snd ops) (Map.empty, r_finalized s0) = (res, m, r_finalized s')" "table_ok (r_heap s0) m s'"
    using table_contract.run_refines [OF library_memory.table_contract_exec [OF lm] st(1), of ops] run st(3) by auto
  obtain s'' where "wirecall_routes_destroy g 1 s' = Some s''" "heap_owns {} (r_heap s0) (r_heap s'')"
    "mset (r_finalized s'') = mset (r_finalized s') + held m"
    using library_memory.destroy_table [OF lm m(3), of 1] by auto
  moreover have "mset (r_finalized s') + held m = mset (r_finalized s0) + mset (registered res (map snd ops))"
    using spec_run_account [OF _ _ m(2)] m(1) by (simp add: held_def)
  ultimately show ?thesis using heap_owns_same by auto
qed

definition ops1 :: "(bool \<times> route_op) list" where
  "ops1 = [(True, Add 1 5 7 9 False), (True, Add_Deferred 2 6 8 0)]"

lemma ops1_spec:
  assumes "length oks = length ops1" "list_all (\<lambda>ok. ok) oks"
  shows "fst (spec_run oks (map snd ops1) (Map.empty, [])) = [(0, None), (0, None)]"
    "registered [(0, None), (0, None)] (map snd ops1) = [(9, 7)]"
  using assms
  by (auto simp: ops1_def length_Suc_conv spec_install_def new_finalizer_def finalizer_of_def handler_route_def
      deferred_route_def zero_route_def)

lemma ops1_run:
  "\<exists>s'. run_ops (exec_op no_allocator) ops1 (snd (wirecall_routes_init True True 1 start0)) = Some ([(0, None), (0, None)], s')"
proof -
  have all: "list_all fst ops1" by (simp add: ops1_def)
  obtain oks res s' m where *: "run_ops (exec_op no_allocator) ops1 (snd (wirecall_routes_init True True 1 start0)) = Some (res, s')"
    "length oks = length ops1" "spec_run oks (map snd ops1) (Map.empty, []) = (res, m, r_finalized s')" "list_all (\<lambda>ok. ok) oks"
    using plain_table.run_refines [OF init_table(1) [OF start0_init(2,1)], of ops1]
      init_table(3,4) [OF start0_init(2,1)] start0_init(3,4) all by auto
  then show ?thesis using ops1_spec(1) [OF *(2,4)] by simp
qed

theorem routes_lifecycle_witness:
  "\<exists>s' s''. run_ops (exec_op no_allocator) ops1 (snd (wirecall_routes_init True True 1 start0)) = Some ([(0, None), (0, None)], s') \<and>
     wirecall_routes_destroy no_allocator 1 s' = Some s'' \<and> heap_same (r_heap start0) (r_heap s'') \<and> r_finalized s'' = [(9, 7)]"
proof -
  obtain s' where run: "run_ops (exec_op no_allocator) ops1 (snd (wirecall_routes_init True True 1 start0)) = Some ([(0, None), (0, None)], s')"
    using ops1_run by blast
  obtain s'' where s'': "wirecall_routes_destroy no_allocator 1 s' = Some s''" "heap_same (r_heap start0) (r_heap s'')"
    "mset (r_finalized s'') = mset (r_finalized start0) + mset (registered [(0, None), (0, None)] (map snd ops1))"
    using routes_lifecycle [OF mem_ok_no_allocator start0_init(2,1) run] by blast
  have "registered [(0, None), (0, None)] (map snd ops1) = [(9, 7)]"
    using ops1_spec(2) [of "[True, True]"] by (simp add: ops1_def)
  then have "mset (r_finalized s'') = {#(9, 7)#}"
    using s''(3) start0_init(4) by simp
  then have "r_finalized s'' = [(9, 7)]"
    by (metis mset_single_iff)
  then show ?thesis using run s'' by blast
qed

end
