(* ===== verification/Routes_Concurrent.thy ===== *)
theory Routes_Concurrent
  imports Routes_Table
begin

text \<open>
  Lookups that run while the table changes.  Writers exclude each other by the lock; readers
  take no lock, but count themselves in \<open>active_readers\<close>, and a writer frees a chain only when it
  has seen this counter at zero after publishing the new chain.

  The functions of the theory \<open>Routes\<close> are cut into the steps between which other threads can run:
  the atomic accesses of a reader, and of a writer the store that publishes a chain, the test of
  the counter, and what follows.  The store may stay in the store buffer of the writer for a while:
  \<open>c_view\<close> is the root table that readers see.  With \<open>fence\<close> the buffer is drained before the counter
  is tested, as in a sequentially consistent execution; without it this is not enforced.
\<close>

section \<open>Threads and steps\<close>

text \<open>Where a reader is in \<open>wirecall_routes_lookup\<close>.\<close>

datatype reader =
    Outside
  | Entered u64
  | Page_Loaded u64
  | Walking u64 nat
  | Found u64 nat
  | Leaving u64 "wirecall_route option"
  | Cleanup u64 "wirecall_route option"
  | Finished u64 "wirecall_route option"

text \<open>What the thread that holds the lock does next, in \<open>retire_route\<close> and \<open>free_retired\<close>.\<close>

datatype holder =
    Unlocked
  | Published nat bool u64
  | Freeing nat bool u64
  | Retiring nat bool u64
  | Check_Retired
  | Free_Retired

record conc =
  c_state :: route_state
  c_view :: root_table
  c_readers :: "nat \<Rightarrow> reader"
  c_holder :: holder
  c_seen :: "nat \<Rightarrow> wirecall_route option"

definition reader_view :: "conc \<Rightarrow> route_state" where
  "reader_view c = (c_state c)\<lparr>r_table := (r_table (c_state c))\<lparr>rs_pages := c_view c\<rparr>\<rparr>"

definition set_reader :: "nat \<Rightarrow> reader \<Rightarrow> conc \<Rightarrow> conc" where
  "set_reader t r c = c\<lparr>c_readers := (c_readers c)(t := r)\<rparr>"

text \<open>The result of a lookup that is not interrupted; it is recorded when a reader loads its slot.\<close>

definition lookup_now :: "u64 \<Rightarrow> route_state \<Rightarrow> wirecall_route option" where
  "lookup_now i s = (case do { p \<leftarrow> lookup_load i s; lookup_walk i p s } of
     Some q \<Rightarrow> if q = 0 then None else Some ((r_nodes s q)\<lparr>rt_next := 0\<rparr>) | None \<Rightarrow> None)"

definition set_seen :: "nat \<Rightarrow> u64 \<Rightarrow> conc \<Rightarrow> conc" where
  "set_seen t i c = c\<lparr>c_seen := (c_seen c)(t := lookup_now i (reader_view c))\<rparr>"

text \<open>One step of a reader; \<open>None\<close> is an access to memory that is not live.\<close>

definition reader_step :: "nat \<Rightarrow> conc \<Rightarrow> conc option" where
  "reader_step t c =
     (case c_readers c t of
        Entered i \<Rightarrow> do {
          page \<leftarrow> page_load (page_of i) (reader_view c);
          Some (case page of None \<Rightarrow> set_reader t (Walking i 0) (set_seen t i c) | Some _ \<Rightarrow> set_reader t (Page_Loaded i) c) }
      | Page_Loaded i \<Rightarrow> do {
          p \<leftarrow> lookup_load i (reader_view c);
          Some (set_reader t (Walking i p) (set_seen t i c)) }
      | Walking i p \<Rightarrow>
          (if p = 0 then Some (set_reader t (Leaving i None) c)
           else do {
             r \<leftarrow> node_get p (c_state c);
             Some (set_reader t (if rt_proc_id r \<noteq> i then Walking i (rt_next r) else Found i p) c) })
      | Found i p \<Rightarrow> do {
          r \<leftarrow> node_get p (c_state c);
          Some (set_reader t (Leaving i (Some r)) c) }
      | Leaving i res \<Rightarrow> (
          let s = c_state c; old = rs_active_readers (r_table s);
              c = c\<lparr>c_state := s\<lparr>r_table := (r_table s)\<lparr>rs_active_readers := old - 1\<rparr>\<rparr>\<rparr>
          in Some (set_reader t (if old = 1 then Cleanup i res else Finished i res) c))
      | Cleanup i res \<Rightarrow> Some ((set_reader t (Finished i res) c)\<lparr>c_holder := Check_Retired\<rparr>)
      | _ \<Rightarrow> Some c)"

text \<open>The node that \<open>retire_route\<close> pushes, and the list that \<open>free_retired\<close> frees.\<close>

definition push_retired :: "wirecall_allocator \<Rightarrow> nat \<Rightarrow> bool \<Rightarrow> u64 \<Rightarrow> route_state \<Rightarrow> (bool \<times> route_state) option" where
  "push_retired g old one i s = do {
     (node, s) \<leftarrow> ret_calloc g s;
     if node = 0 then Some (False, s)
     else do {
       s \<leftarrow> ret_put node \<lparr>rr_route = old, rr_finalize_proc_id = i, rr_finalize_all = False, rr_finalize_one = one,
              rr_next = rs_retired (r_table s)\<rparr> s;
       Some (True, s\<lparr>r_table := (r_table s)\<lparr>rs_retired := node\<rparr>\<rparr>) } }"

definition detach_retired :: "wirecall_allocator \<Rightarrow> route_state \<Rightarrow> route_state option" where
  "detach_retired g s = free_retired_loop g (rs_retired (r_table s)) (s\<lparr>r_table := (r_table s)\<lparr>rs_retired := 0\<rparr>\<rparr>)"

definition holder_step :: "wirecall_allocator \<Rightarrow> conc \<Rightarrow> conc option" where
  "holder_step g c =
     (case c_holder c of
        Unlocked \<Rightarrow> Some c
      | Published old one i \<Rightarrow> Some (c\<lparr>c_holder :=
          if old = 0 then Unlocked
          else if rs_active_readers (r_table (c_state c)) = 0 then Freeing old one i else Retiring old one i\<rparr>)
      | Freeing old one i \<Rightarrow> do {
          s \<leftarrow> route_chain_free g old False one i (c_state c);
          Some (c\<lparr>c_state := s, c_holder := Unlocked\<rparr>) }
      | Retiring old one i \<Rightarrow> do {
          (ok, s) \<leftarrow> push_retired g old one i (c_state c);
          Some (c\<lparr>c_state := s, c_holder := if ok then Check_Retired else Unlocked\<rparr>) }
      | Check_Retired \<Rightarrow> Some (c\<lparr>c_holder := if rs_active_readers (r_table (c_state c)) \<noteq> 0 then Unlocked else Free_Retired\<rparr>)
      | Free_Retired \<Rightarrow> do {
          s \<leftarrow> detach_retired g (c_state c);
          Some (c\<lparr>c_state := s, c_holder := Unlocked\<rparr>) })"

text \<open>A writer allocates and fills its route, takes the lock, and copies and publishes the chain.\<close>

definition begin_install :: "wirecall_allocator \<Rightarrow> bool \<Rightarrow> wirecall_route \<Rightarrow> conc \<Rightarrow> conc option" where
  "begin_install g page_ok r c = do {
     (q, s) \<leftarrow> route_calloc g (c_state c);
     if q = 0 then Some (c\<lparr>c_state := s\<rparr>)
     else do {
       s \<leftarrow> node_put q r s;
       (res, s) \<leftarrow> routes_add_publish g page_ok q s;
       Some (case res of Inl rc \<Rightarrow> c\<lparr>c_state := s, c_view := rs_pages (r_table s)\<rparr>
         | Inr (old, replaced) \<Rightarrow> c\<lparr>c_state := s, c_holder := Published old replaced (rt_proc_id r)\<rparr>) } }"

definition begin_remove :: "wirecall_allocator \<Rightarrow> u64 \<Rightarrow> conc \<Rightarrow> conc option" where
  "begin_remove g i c = do {
     (res, s) \<leftarrow> routes_remove_publish g i (c_state c);
     Some (case res of Inl rc \<Rightarrow> c\<lparr>c_state := s, c_view := rs_pages (r_table s)\<rparr>
       | Inr old \<Rightarrow> c\<lparr>c_state := s, c_holder := Published old True i\<rparr>) }"

datatype action =
    Begin_Lookup nat u64
  | Reader nat
  | Begin_Install bool wirecall_route
  | Begin_Remove u64
  | Holder
  | Drain

definition max_readers :: nat where "max_readers = 4294967295"

definition is_published :: "holder \<Rightarrow> bool" where
  "is_published h = (case h of Published _ _ _ \<Rightarrow> True | _ \<Rightarrow> False)"

definition drained :: "conc \<Rightarrow> bool" where
  "drained c \<longleftrightarrow> c_view c = rs_pages (r_table (c_state c))"

text \<open>
  A lookup may begin in any of at most \<open>2 ^ 32 - 1\<close> threads.  The lock is needed to write and to
  clean up, and it is released, and taken again, only with an empty store buffer.
\<close>

definition enabled :: "bool \<Rightarrow> action \<Rightarrow> conc \<Rightarrow> bool" where
  "enabled fence a c =
     (case a of
        Begin_Lookup t i \<Rightarrow> t < max_readers \<and> (case c_readers c t of Outside \<Rightarrow> True | Finished _ _ \<Rightarrow> True | _ \<Rightarrow> False)
      | Reader t \<Rightarrow> (case c_readers c t of Outside \<Rightarrow> False | Finished _ _ \<Rightarrow> False
                    | Cleanup _ _ \<Rightarrow> c_holder c = Unlocked \<and> drained c | _ \<Rightarrow> True)
      | Begin_Install page_ok r \<Rightarrow> c_holder c = Unlocked \<and> drained c \<and> rt_next r = 0
      | Begin_Remove i \<Rightarrow> c_holder c = Unlocked \<and> drained c
      | Holder \<Rightarrow> c_holder c \<noteq> Unlocked \<and> (fence \<and> is_published (c_holder c) \<longrightarrow> drained c)
      | Drain \<Rightarrow> \<not> drained c)"

definition act :: "wirecall_allocator \<Rightarrow> action \<Rightarrow> conc \<Rightarrow> conc option" where
  "act g a c =
     (case a of
        Begin_Lookup t i \<Rightarrow> Some (set_reader t (Entered i) (c\<lparr>c_state := lookup_enter (c_state c)\<rparr>))
      | Reader t \<Rightarrow> reader_step t c
      | Begin_Install page_ok r \<Rightarrow> begin_install g page_ok r c
      | Begin_Remove i \<Rightarrow> begin_remove g i c
      | Holder \<Rightarrow> holder_step g c
      | Drain \<Rightarrow> Some (c\<lparr>c_view := rs_pages (r_table (c_state c))\<rparr>))"

inductive reach :: "bool \<Rightarrow> wirecall_allocator \<Rightarrow> conc \<Rightarrow> conc \<Rightarrow> bool" for fence g c0 where
  reach_start: "reach fence g c0 c0"
| reach_step: "reach fence g c0 c \<Longrightarrow> enabled fence a c \<Longrightarrow> act g a c = Some c' \<Longrightarrow> reach fence g c0 c'"

definition idle :: "route_state \<Rightarrow> conc" where
  "idle s = \<lparr>c_state = s, c_view = rs_pages (r_table s), c_readers = (\<lambda>_. Outside), c_holder = Unlocked, c_seen = (\<lambda>_. None)\<rparr>"

section \<open>The invariant\<close>

definition inside :: "reader \<Rightarrow> bool" where
  "inside r = (case r of Entered _ \<Rightarrow> True | Page_Loaded _ \<Rightarrow> True | Walking _ _ \<Rightarrow> True | Found _ _ \<Rightarrow> True
     | Leaving _ _ \<Rightarrow> True | _ \<Rightarrow> False)"

text \<open>A reader stands on a chain of nodes that cannot be freed, and the rest of it has the result that was recorded.\<close>

definition reader_ok :: "(nat \<Rightarrow> wirecall_route) \<Rightarrow> nat set \<Rightarrow> wirecall_route option \<Rightarrow> reader \<Rightarrow> bool" where
  "reader_ok nd safe seen r =
     (case r of
        Walking i p \<Rightarrow> \<exists>L. chain nd p L \<and> set L \<subseteq> safe \<and> find (\<lambda>r. rt_proc_id r = i) (map (content nd) L) = seen
      | Found i p \<Rightarrow> p \<in> safe \<and> seen = Some (content nd p)
      | Leaving i res \<Rightarrow> map_option (\<lambda>r. r\<lparr>rt_next := 0\<rparr>) res = seen
      | Cleanup i res \<Rightarrow> map_option (\<lambda>r. r\<lparr>rt_next := 0\<rparr>) res = seen
      | Finished i res \<Rightarrow> map_option (\<lambda>r. r\<lparr>rt_next := 0\<rparr>) res = seen
      | _ \<Rightarrow> True)"

text \<open>What the holder of the lock may be about to free, and the nodes that are safe from it.\<close>

definition holder_ok :: "(nat \<Rightarrow> wirecall_route) \<Rightarrow> chains \<Rightarrow> (nat \<times> nat list) list \<Rightarrow> nat list \<Rightarrow> nat set \<Rightarrow> holder \<Rightarrow> bool" where
  "holder_ok nd C R D safe h =
     (case h of
        Published old one i \<Rightarrow> \<exists>L D'. D = L @ D' \<and> chain nd old L \<and> safe = blocks C R D
      | Retiring old one i \<Rightarrow> \<exists>L D'. D = L @ D' \<and> chain nd old L \<and> safe = blocks C R D
      | Freeing old one i \<Rightarrow> \<exists>L D'. D = L @ D' \<and> chain nd old L \<and> safe = blocks C R D'
      | Free_Retired \<Rightarrow> safe = blocks C [] D
      | _ \<Rightarrow> safe = blocks C R D)"

definition counted :: "conc \<Rightarrow> bool" where
  "counted c \<longleftrightarrow> (\<forall>t. inside (c_readers c t) \<longrightarrow> t < max_readers) \<and>
     rs_active_readers (r_table (c_state c)) = of_nat (card {t. inside (c_readers c t)})"

definition view_ok :: "(nat \<Rightarrow> wirecall_route) \<Rightarrow> nat set \<Rightarrow> root_table \<Rightarrow> bool" where
  "view_ok nd safe v \<longleftrightarrow> (\<exists>pages. v = Mapped pages \<and> (\<forall>x. \<exists>L. chain nd (first_route pages x) L \<and> set L \<subseteq> safe))"

definition conc_inv :: "heap \<Rightarrow> conc \<Rightarrow> bool" where
  "conc_inv h0 c \<longleftrightarrow> counted c \<and> (\<exists>C R D safe. routes_inv h0 C R D (c_state c) \<and>
     holder_ok (r_nodes (c_state c)) C R D safe (c_holder c) \<and>
     view_ok (r_nodes (c_state c)) safe (c_view c) \<and> (drained c \<or> is_published (c_holder c)) \<and>
     (\<forall>t. reader_ok (r_nodes (c_state c)) safe (c_seen c t) (c_readers c t)))"

lemma finite_inside: "\<forall>t. inside (f t) \<longrightarrow> t < max_readers \<Longrightarrow> finite {t. inside (f t)}"
  by (rule finite_subset [of _ "{..<max_readers}"]) auto

lemma card_inside: "\<forall>t. inside (f t) \<longrightarrow> t < max_readers \<Longrightarrow> card {t. inside (f t)} \<le> max_readers"
  using card_mono [of "{..<max_readers}" "{t. inside (f t)}"] by auto

lemma counted_no_reader:
  assumes "counted c" "rs_active_readers (r_table (c_state c)) = 0"
  shows "\<not> inside (c_readers c t)"
proof
  assume "inside (c_readers c t)"
  then have "0 < card {t. inside (c_readers c t)}"
    using assms(1) finite_inside [of "c_readers c"] by (auto simp: counted_def card_gt_0_iff)
  moreover have "card {t. inside (c_readers c t)} \<le> max_readers"
    using assms(1) card_inside by (simp add: counted_def)
  moreover have "(of_nat (card {t. inside (c_readers c t)}) :: u32) = 0"
    using assms by (simp add: counted_def)
  ultimately show False
    by (auto simp: max_readers_def word_of_nat_eq_0_iff dest: dvd_imp_le)
qed

lemma counted_same:
  assumes "counted c" "rs_active_readers (r_table (c_state c')) = rs_active_readers (r_table (c_state c))"
    and "\<And>t. inside (c_readers c' t) = inside (c_readers c t)"
  shows "counted c'"
  using assms by (simp add: counted_def)

lemma set_reader_sel [simp]:
  "c_state (set_reader t r c) = c_state c" "c_view (set_reader t r c) = c_view c" "c_holder (set_reader t r c) = c_holder c"
  "c_seen (set_reader t r c) = c_seen c" "c_readers (set_reader t r c) = (c_readers c)(t := r)"
  "c_state (set_seen t i c) = c_state c" "c_view (set_seen t i c) = c_view c" "c_holder (set_seen t i c) = c_holder c"
  "c_readers (set_seen t i c) = c_readers c" "drained (set_reader t r c) = drained c" "drained (set_seen t i c) = drained c"
  by (simp_all add: set_reader_def set_seen_def drained_def)

lemma counted_enter:
  assumes "counted c" "\<not> inside (c_readers c t)" "t < max_readers"
  shows "counted (set_reader t (Entered i) (c\<lparr>c_state := lookup_enter (c_state c)\<rparr>))"
proof -
  have "{u. inside (((c_readers c)(t := Entered i)) u)} = insert t {u. inside (c_readers c u)}"
    by (auto simp: inside_def)
  then show ?thesis
    using assms finite_inside [of "c_readers c"] by (auto simp: counted_def lookup_enter_def)
qed

lemma counted_leave:
  assumes "counted c" "inside (c_readers c t)" "\<not> inside r"
  shows "counted (set_reader t r (c\<lparr>c_state := (c_state c)\<lparr>r_table :=
    (r_table (c_state c))\<lparr>rs_active_readers := rs_active_readers (r_table (c_state c)) - 1\<rparr>\<rparr>\<rparr>))"
proof -
  have eq: "{u. inside (((c_readers c)(t := r)) u)} = {u. inside (c_readers c u)} - {t}"
    using assms(3) by auto
  have fin: "finite {u. inside (c_readers c u)}"
    using assms(1) finite_inside by (simp add: counted_def)
  then have "card {u. inside (c_readers c u)} = Suc (card ({u. inside (c_readers c u)} - {t}))"
    using assms(2) card.remove by fastforce
  then have "rs_active_readers (r_table (c_state c)) = 1 + of_nat (card ({u. inside (c_readers c u)} - {t}))"
    using assms(1) by (simp add: counted_def)
  then have "rs_active_readers (r_table (c_state c)) - 1 = of_nat (card {u. inside (((c_readers c)(t := r)) u)})"
    unfolding eq by simp
  moreover have "\<forall>u. inside (((c_readers c)(t := r)) u) \<longrightarrow> u < max_readers"
    using assms(1,3) by (auto simp: counted_def)
  ultimately show ?thesis unfolding counted_def by simp
qed

lemma chain_same:
  assumes "chain nd p L" "set L \<subseteq> safe" "\<forall>q\<in>safe. nd' q = nd q"
  shows "chain nd' p L" "map (content nd') L = map (content nd) L"
  using assms chain_cong [of L nd' nd] by (auto simp: content_def subset_iff)

lemma reader_ok_mono:
  assumes "reader_ok nd safe seen r" "\<forall>q\<in>safe. nd' q = nd q" "safe \<subseteq> safe'"
  shows "reader_ok nd' safe' seen r"
proof (cases r)
  case (Walking i p)
  then obtain L where L: "chain nd p L" "set L \<subseteq> safe" "find (\<lambda>r. rt_proc_id r = i) (map (content nd) L) = seen"
    using assms(1) by (auto simp: reader_ok_def)
  note same = chain_same [OF L(1,2) assms(2)]
  have "chain nd' p L \<and> set L \<subseteq> safe' \<and> find (\<lambda>r. rt_proc_id r = i) (map (content nd') L) = seen"
    using same(1) L(2,3) assms(3) unfolding same(2) by blast
  then show ?thesis unfolding Walking reader_ok_def reader.case by blast
qed (use assms in \<open>auto simp: reader_ok_def content_def\<close>)

text \<open>A reader that is not inside stands on no node.\<close>

lemma reader_ok_outside: "\<not> inside r \<Longrightarrow> reader_ok nd safe seen r = reader_ok nd' safe' seen r"
  by (cases r) (auto simp: reader_ok_def inside_def)

lemma view_ok_mono:
  assumes "view_ok nd safe v" "\<forall>q\<in>safe. nd' q = nd q" "safe \<subseteq> safe'"
  shows "view_ok nd' safe' v"
  unfolding view_ok_def
proof -
  obtain pages where v: "v = Mapped pages" "\<forall>x. \<exists>L. chain nd (first_route pages x) L \<and> set L \<subseteq> safe"
    using assms(1) by (auto simp: view_ok_def)
  have "\<exists>L. chain nd' (first_route pages x) L \<and> set L \<subseteq> safe'" for x
    using spec [OF v(2), of x] chain_same(1) [OF _ _ assms(2)] assms(3) by blast
  then show "\<exists>pages. v = Mapped pages \<and> (\<forall>x. \<exists>L. chain nd' (first_route pages x) L \<and> set L \<subseteq> safe')"
    using v(1) by blast
qed

lemma view_ok_drained:
  assumes "routes_inv h0 C R D s" "(\<Union>x. set (C x)) \<subseteq> safe"
  shows "view_ok (r_nodes s) safe (rs_pages (r_table s))"
proof -
  obtain pages where "rs_pages (r_table s) = Mapped pages" "\<And>x. chain (r_nodes s) (first_route pages x) (C x)"
    using routes_inv_mapped [OF assms(1)] by blast
  then show ?thesis using assms(2) unfolding view_ok_def by blast
qed

lemma blocks_chains: "(\<Union>x. set (C x)) \<subseteq> blocks C R D"
  by (auto simp: blocks_def)

lemma holder_ok_chains: "holder_ok nd C R D safe h \<Longrightarrow> (\<Union>x. set (C x)) \<subseteq> safe"
  by (cases h) (auto simp: holder_ok_def blocks_def)

lemma holder_ok_blocks: "holder_ok nd C R D safe h \<Longrightarrow> safe \<subseteq> blocks C R D"
  by (cases h) (auto simp: holder_ok_def blocks_def)


section \<open>Every step keeps the invariant\<close>

lemma reader_view_sel [simp]:
  "r_nodes (reader_view c) = r_nodes (c_state c)" "r_heap (reader_view c) = r_heap (c_state c)"
  "rs_pages (r_table (reader_view c)) = c_view c"
  by (simp_all add: reader_view_def)

lemma view_lookup:
  assumes "view_ok (r_nodes (c_state c)) safe (c_view c)" "safe \<subseteq> live (r_heap (c_state c))"
  obtains p L where "lookup_load i (reader_view c) = Some p" "chain (r_nodes (c_state c)) p L" "set L \<subseteq> safe"
    "lookup_now i (reader_view c) = find (\<lambda>r. rt_proc_id r = i) (map (content (r_nodes (c_state c))) L)"
    "page_load (page_of i) (reader_view c) \<noteq> None" "page_load (page_of i) (reader_view c) = Some None \<Longrightarrow> L = []"
proof -
  obtain pages where pages: "c_view c = Mapped pages"
    "\<forall>x. \<exists>L. chain (r_nodes (c_state c)) (first_route pages x) L \<and> set L \<subseteq> safe"
    using assms(1) by (auto simp: view_ok_def)
  obtain L where L: "chain (r_nodes (c_state c)) (first_route pages (home i)) L" "set L \<subseteq> safe"
    using pages(2) by blast
  have load: "lookup_load i (reader_view c) = Some (first_route pages (home i))"
    using pages(1) by (cases "pages (page_of i)") (simp_all add: lookup_load_def first_route_def home_def)
  have "set L \<subseteq> live (r_heap (reader_view c))" "chain (r_nodes (reader_view c)) (first_route pages (home i)) L"
    using L assms(2) by auto
  then obtain q where "lookup_walk i (first_route pages (home i)) (reader_view c) = Some q"
    "if q = 0 then find (\<lambda>r. rt_proc_id r = i) (map (content (r_nodes (c_state c))) L) = None
     else q \<in> set L \<and> find (\<lambda>r. rt_proc_id r = i) (map (content (r_nodes (c_state c))) L) = Some (content (r_nodes (c_state c)) q)"
    using lookup_walk_chain [of "reader_view c" _ L i] unfolding reader_view_sel by blast
  then have "lookup_now i (reader_view c) = find (\<lambda>r. rt_proc_id r = i) (map (content (r_nodes (c_state c))) L)"
    using load by (auto simp: lookup_now_def content_def split: if_splits)
  moreover have "page_load (page_of i) (reader_view c) = Some (pages (page_of i))" using pages(1) by simp
  moreover have "L = []" if "pages (page_of i) = None"
    using L(1) that by (simp add: first_route_def home_def)
  ultimately show ?thesis using that [OF load L] by auto
qed

text \<open>The invariant with its ghost parts, and what a step of one reader must show.\<close>

definition conc_inv_at :: "heap \<Rightarrow> chains \<Rightarrow> (nat \<times> nat list) list \<Rightarrow> nat list \<Rightarrow> nat set \<Rightarrow> conc \<Rightarrow> bool" where
  "conc_inv_at h0 C R D safe c \<longleftrightarrow> routes_inv h0 C R D (c_state c) \<and>
     holder_ok (r_nodes (c_state c)) C R D safe (c_holder c) \<and>
     view_ok (r_nodes (c_state c)) safe (c_view c) \<and> (drained c \<or> is_published (c_holder c)) \<and>
     (\<forall>t. reader_ok (r_nodes (c_state c)) safe (c_seen c t) (c_readers c t))"

lemma conc_inv_iff: "conc_inv h0 c \<longleftrightarrow> counted c \<and> (\<exists>C R D safe. conc_inv_at h0 C R D safe c)"
  by (simp add: conc_inv_def conc_inv_at_def)

lemma conc_inv_set_reader:
  assumes "conc_inv_at h0 C R D safe c" "counted c" "inside r = inside (c_readers c t)"
    and "reader_ok (r_nodes (c_state c)) safe (c_seen c t) r"
  shows "conc_inv h0 (set_reader t r c)"
proof -
  have "counted (set_reader t r c)"
    by (rule counted_same [OF assms(2)]) (simp_all add: assms(3))
  moreover have "conc_inv_at h0 C R D safe (set_reader t r c)"
    using assms(1,4) by (simp add: conc_inv_at_def)
  ultimately show ?thesis unfolding conc_inv_iff by blast
qed

lemma conc_inv_at_seen:
  "conc_inv_at h0 C R D safe c \<Longrightarrow> c_readers c t = Entered i \<or> c_readers c t = Page_Loaded i \<Longrightarrow>
   conc_inv_at h0 C R D safe (set_seen t j c)"
  by (auto simp: conc_inv_at_def reader_ok_def set_seen_def drained_def)

lemma conc_inv_live:
  assumes "conc_inv_at h0 C R D safe c"
  shows "safe \<subseteq> live (r_heap (c_state c))"
proof -
  have "safe \<subseteq> blocks C R D" using assms holder_ok_blocks unfolding conc_inv_at_def by blast
  then show ?thesis
    using assms heap_owns_in_live [OF routes_inv_owns] by (auto simp: conc_inv_at_def)
qed

lemma step_loading:
  assumes at: "conc_inv_at h0 C R D safe c" and n: "counted c" and r: "c_readers c t = Entered i \<or> c_readers c t = Page_Loaded i"
  shows "\<exists>c'. reader_step t c = Some c' \<and> conc_inv h0 c'"
proof -
  obtain p L where L: "lookup_load i (reader_view c) = Some p" "chain (r_nodes (c_state c)) p L" "set L \<subseteq> safe"
    "lookup_now i (reader_view c) = find (\<lambda>r. rt_proc_id r = i) (map (content (r_nodes (c_state c))) L)"
    "page_load (page_of i) (reader_view c) \<noteq> None" "page_load (page_of i) (reader_view c) = Some None \<Longrightarrow> L = []"
    using view_lookup [of c safe i] conc_inv_live [OF at] at by (auto simp: conc_inv_at_def)
  have in1: "inside (c_readers c t)" using r by (auto simp: inside_def)
  have seen: "c_seen (set_seen t i c) t = find (\<lambda>r. rt_proc_id r = i) (map (content (r_nodes (c_state c))) L)"
    using L(4) by (simp add: set_seen_def)
  have n': "counted (set_seen t i c)" by (rule counted_same [OF n]) simp_all
  have walk: "conc_inv h0 (set_reader t (Walking i q) (set_seen t i c))" if "chain (r_nodes (c_state c)) q L" for q
    using that L(3) seen in1 by (intro conc_inv_set_reader [OF conc_inv_at_seen [OF at r] n'])
      (auto simp: inside_def reader_ok_def)
  from r show ?thesis
  proof
    assume e: "c_readers c t = Entered i"
    obtain page where page: "page_load (page_of i) (reader_view c) = Some page" using L(5) by auto
    show ?thesis
    proof (cases page)
      case None
      then have "L = []" using L(6) page by simp
      then show ?thesis using e page None walk [of 0] by (simp add: reader_step_def)
    next
      case (Some pg)
      have "conc_inv h0 (set_reader t (Page_Loaded i) c)"
        using in1 by (intro conc_inv_set_reader [OF at n]) (auto simp: inside_def reader_ok_def)
      then show ?thesis using e page Some by (simp add: reader_step_def)
    qed
  next
    assume "c_readers c t = Page_Loaded i"
    then show ?thesis using L(1) walk [OF L(2)] by (simp add: reader_step_def)
  qed
qed

lemma step_walking:
  assumes at: "conc_inv_at h0 C R D safe c" and n: "counted c" and r: "c_readers c t = Walking i p"
  shows "\<exists>c'. reader_step t c = Some c' \<and> conc_inv h0 c'"
proof -
  let ?nd = "r_nodes (c_state c)"
  obtain L where L: "chain ?nd p L" "set L \<subseteq> safe" "find (\<lambda>r. rt_proc_id r = i) (map (content ?nd) L) = c_seen c t"
  proof -
    have "reader_ok ?nd safe (c_seen c t) (Walking i p)" using at r unfolding conc_inv_at_def by metis
    then show ?thesis using that by (auto simp: reader_ok_def)
  qed
  have in1: "inside (c_readers c t)" using r by (simp add: inside_def)
  show ?thesis
  proof (cases L)
    case Nil
    have "conc_inv h0 (set_reader t (Leaving i None) c)"
      using in1 L Nil by (intro conc_inv_set_reader [OF at n]) (auto simp: inside_def reader_ok_def)
    then show ?thesis using r L Nil by (simp add: reader_step_def)
  next
    case (Cons a K)
    have a: "a \<in> live (r_heap (c_state c))" "p = a" "a \<noteq> 0"
      using conc_inv_live [OF at] L(1,2) Cons by auto
    have "reader_ok ?nd safe (c_seen c t) (if rt_proc_id (?nd a) \<noteq> i then Walking i (rt_next (?nd a)) else Found i a)"
      using L Cons by (auto simp: reader_ok_def)
    then have "conc_inv h0 (set_reader t (if rt_proc_id (?nd a) \<noteq> i then Walking i (rt_next (?nd a)) else Found i a) c)"
      using in1 by (intro conc_inv_set_reader [OF at n]) (auto simp: inside_def)
    then show ?thesis using r a by (simp add: reader_step_def)
  qed
qed

lemma step_found:
  assumes at: "conc_inv_at h0 C R D safe c" and n: "counted c" and r: "c_readers c t = Found i p"
  shows "\<exists>c'. reader_step t c = Some c' \<and> conc_inv h0 c'"
proof -
  have "reader_ok (r_nodes (c_state c)) safe (c_seen c t) (Found i p)" using at r unfolding conc_inv_at_def by metis
  then have p: "p \<in> safe" "c_seen c t = Some (content (r_nodes (c_state c)) p)" by (auto simp: reader_ok_def)
  have "conc_inv h0 (set_reader t (Leaving i (Some (r_nodes (c_state c) p))) c)"
    using p(2) r by (intro conc_inv_set_reader [OF at n]) (auto simp: inside_def reader_ok_def content_def)
  moreover have "p \<in> live (r_heap (c_state c))" using conc_inv_live [OF at] p(1) by blast
  ultimately show ?thesis using r by (simp add: reader_step_def)
qed

lemma step_leaving:
  assumes at: "conc_inv_at h0 C R D safe c" and n: "counted c" and r: "c_readers c t = Leaving i res"
  shows "\<exists>c'. reader_step t c = Some c' \<and> conc_inv h0 c'"
proof -
  let ?t = "r_table (c_state c)"
  let ?s = "(c_state c)\<lparr>r_table := ?t\<lparr>rs_active_readers := rs_active_readers ?t - 1\<rparr>\<rparr>"
  let ?r = "if rs_active_readers ?t = 1 then Cleanup i res else Finished i res"
  have "reader_ok (r_nodes (c_state c)) safe (c_seen c t) (Leaving i res)" using at r unfolding conc_inv_at_def by metis
  then have "reader_ok (r_nodes (c_state c)) safe (c_seen c t) ?r" by (simp add: reader_ok_def)
  moreover have "routes_inv h0 C R D ?s"
    using at routes_inv_table [of h0 C R D "c_state c"] by (simp add: conc_inv_at_def)
  ultimately have "conc_inv_at h0 C R D safe (set_reader t ?r (c\<lparr>c_state := ?s\<rparr>))"
    using at by (auto simp: conc_inv_at_def drained_def split: if_splits)
  moreover have "counted (set_reader t ?r (c\<lparr>c_state := ?s\<rparr>))"
    using r by (intro counted_leave [OF n]) (auto simp: inside_def)
  ultimately have "conc_inv h0 (set_reader t ?r (c\<lparr>c_state := ?s\<rparr>))"
    unfolding conc_inv_iff by blast
  then show ?thesis using r by (simp add: reader_step_def Let_def)
qed

lemma step_cleanup:
  assumes at: "conc_inv_at h0 C R D safe c" and n: "counted c" and r: "c_readers c t = Cleanup i res"
    and u: "c_holder c = Unlocked"
  shows "\<exists>c'. reader_step t c = Some c' \<and> conc_inv h0 c'"
proof -
  let ?c = "(set_reader t (Finished i res) c)\<lparr>c_holder := Check_Retired\<rparr>"
  have "reader_ok (r_nodes (c_state c)) safe (c_seen c t) (Cleanup i res)" using at r unfolding conc_inv_at_def by metis
  then have "conc_inv_at h0 C R D safe ?c"
    using at u by (auto simp: conc_inv_at_def reader_ok_def holder_ok_def is_published_def drained_def)
  moreover have "counted ?c"
    by (rule counted_same [OF n]) (auto simp: r inside_def)
  ultimately have "conc_inv h0 ?c" unfolding conc_inv_iff by blast
  then show ?thesis using r by (simp add: reader_step_def)
qed


lemma counted_state:
  assumes "counted c" "rs_active_readers (r_table s) = rs_active_readers (r_table (c_state c))"
  shows "counted (c\<lparr>c_state := s, c_holder := h\<rparr>)" "counted (c\<lparr>c_state := s, c_view := v\<rparr>)" "counted (c\<lparr>c_state := s\<rparr>)"
  using assms by (simp_all add: counted_def)

text \<open>
  A step of the holder that leaves the nodes alone: the readers stand on nodes that stay safe,
  or there are none.
\<close>

lemma conc_inv_holder:
  assumes at: "conc_inv_at h0 C R D safe c" and n: "counted c"
    and inv: "routes_inv h0 C R' D' s" "holder_ok (r_nodes s) C R' D' safe' h"
    and same: "r_nodes s = r_nodes (c_state c)" "rs_pages (r_table s) = rs_pages (r_table (c_state c))"
      "rs_active_readers (r_table s) = rs_active_readers (r_table (c_state c))"
    and dr: "drained c" and safe: "safe \<subseteq> safe' \<or> rs_active_readers (r_table (c_state c)) = 0"
  shows "conc_inv h0 (c\<lparr>c_state := s, c_holder := h\<rparr>)"
proof -
  have "view_ok (r_nodes s) safe' (c_view c)"
    using view_ok_drained [OF inv(1) holder_ok_chains [OF inv(2)]] dr same(2) by (simp add: drained_def)
  moreover have "reader_ok (r_nodes s) safe' (c_seen c t) (c_readers c t)" for t
    using safe
  proof
    assume "safe \<subseteq> safe'"
    then show ?thesis using at same(1) by (auto simp: conc_inv_at_def intro: reader_ok_mono)
  next
    assume "rs_active_readers (r_table (c_state c)) = 0"
    then have "\<not> inside (c_readers c t)" by (rule counted_no_reader [OF n])
    moreover have "reader_ok (r_nodes (c_state c)) safe (c_seen c t) (c_readers c t)"
      using at by (simp add: conc_inv_at_def)
    ultimately show ?thesis using reader_ok_outside by blast
  qed
  moreover have "drained (c\<lparr>c_state := s, c_holder := h\<rparr>)"
    using dr same(2) by (simp add: drained_def)
  ultimately have "conc_inv_at h0 C R' D' safe' (c\<lparr>c_state := s, c_holder := h\<rparr>)"
    using inv by (simp add: conc_inv_at_def)
  then show ?thesis using counted_state(1) [OF n same(3)] unfolding conc_inv_iff by blast
qed

context library_memory
begin

lemma step_published:
  assumes at: "conc_inv_at h0 C R D safe c" and n: "counted c" and h: "c_holder c = Published old one i" and dr: "drained c"
  shows "\<exists>c'. holder_step g c = Some c' \<and> conc_inv h0 c'"
proof -
  let ?s = "c_state c"
  have inv: "routes_inv h0 C R D ?s" using at by (simp add: conc_inv_at_def)
  obtain L D' where L: "D = L @ D'" "chain (r_nodes ?s) old L" "safe = blocks C R D"
    using at h by (auto simp: conc_inv_at_def holder_ok_def)
  let ?h = "if old = 0 then Unlocked else if rs_active_readers (r_table ?s) = 0 then Freeing old one i else Retiring old one i"
  have "conc_inv h0 (c\<lparr>c_state := ?s, c_holder := ?h\<rparr>)"
  proof (cases "old \<noteq> 0 \<and> rs_active_readers (r_table ?s) = 0")
    case True
    then show ?thesis using L(1,2)
      by (intro conc_inv_holder [OF at n inv, of "blocks C R D'"] dr) (auto simp: holder_ok_def)
  next
    case False
    then show ?thesis using L
      by (intro conc_inv_holder [OF at n inv, of "blocks C R D"] dr) (auto simp: holder_ok_def)
  qed
  then show ?thesis using h by (simp add: holder_step_def)
qed

lemma step_freeing:
  assumes at: "conc_inv_at h0 C R D safe c" and n: "counted c" and h: "c_holder c = Freeing old one i" and dr: "drained c"
  shows "\<exists>c'. holder_step g c = Some c' \<and> conc_inv h0 c'"
proof -
  let ?s = "c_state c"
  obtain L D' where L: "D = L @ D'" "chain (r_nodes ?s) old L" "safe = blocks C R D'"
    using at h by (auto simp: conc_inv_at_def holder_ok_def)
  have inv: "routes_inv h0 C R (L @ D') ?s" using at L(1) by (simp add: conc_inv_at_def)
  obtain h' where h': "route_chain_free g old False one i ?s =
      Some (?s\<lparr>r_heap := h', r_finalized := r_finalized ?s @ finals (r_nodes ?s) False one i L\<rparr>)"
    "routes_inv h0 C R D' (?s\<lparr>r_heap := h', r_finalized := r_finalized ?s @ finals (r_nodes ?s) False one i L\<rparr>)"
    using free_limbo [OF inv L(2)] by blast
  have "conc_inv h0 (c\<lparr>c_state := ?s\<lparr>r_heap := h', r_finalized := r_finalized ?s @ finals (r_nodes ?s) False one i L\<rparr>,
      c_holder := Unlocked\<rparr>)"
    using L(3) by (intro conc_inv_holder [OF at n h'(2), of "blocks C R D'"] dr) (auto simp: holder_ok_def)
  then show ?thesis using h h'(1) by (simp add: holder_step_def)
qed

lemma step_retiring:
  assumes at: "conc_inv_at h0 C R D safe c" and n: "counted c" and h: "c_holder c = Retiring old one i" and dr: "drained c"
  shows "\<exists>c'. holder_step g c = Some c' \<and> conc_inv h0 c'"
proof -
  let ?s = "c_state c"
  obtain L D' where L: "D = L @ D'" "chain (r_nodes ?s) old L" "safe = blocks C R D"
    using at h by (auto simp: conc_inv_at_def holder_ok_def)
  have inv: "routes_inv h0 C R (L @ D') ?s" using at L(1) by (simp add: conc_inv_at_def)
  from routes_inv_owns [OF inv] show ?thesis
  proof (cases rule: ret_calloc_cases)
    case (fail h')
    then have "routes_inv h0 C R (L @ D') (?s\<lparr>r_heap := h'\<rparr>)"
      using inv by (simp add: routes_inv_def)
    then have "conc_inv h0 (c\<lparr>c_state := ?s\<lparr>r_heap := h'\<rparr>, c_holder := Unlocked\<rparr>)"
      using L by (intro conc_inv_holder [OF at n, of R "L @ D'" _ "blocks C R D"] dr) (auto simp: holder_ok_def)
    then show ?thesis using h fail(1) by (simp add: holder_step_def push_retired_def)
  next
    case (fresh q h')
    let ?node = "\<lparr>rr_route = old, rr_finalize_proc_id = i, rr_finalize_all = False, rr_finalize_one = one,
         rr_next = rs_retired (r_table ?s)\<rparr>"
    let ?s' = "?s\<lparr>r_heap := h', r_rets := (r_rets ?s)(q := ?node), r_table := (r_table ?s)\<lparr>rs_retired := q\<rparr>\<rparr>"
    have "q \<in> live h'" using heap_owns_in_live [OF fresh(4)] by simp
    then have eq: "push_retired g old one i ?s = Some (True, ?s')"
      using fresh(1,2) by (simp add: push_retired_def)
    have "routes_inv h0 C ((q, L) # R) D' ?s'"
      using routes_inv_push(1) [OF inv L(2) fresh(2,3,4)] by simp
    moreover have "safe \<subseteq> blocks C ((q, L) # R) D'" using L by (auto simp: blocks_def)
    ultimately have "conc_inv h0 (c\<lparr>c_state := ?s', c_holder := Check_Retired\<rparr>)"
      by (intro conc_inv_holder [OF at n, of "(q, L) # R" D' _ "blocks C ((q, L) # R) D'"] dr) (auto simp: holder_ok_def)
    then show ?thesis using h eq by (simp add: holder_step_def)
  qed
qed

lemma step_retired:
  assumes at: "conc_inv_at h0 C R D safe c" and n: "counted c" and h: "c_holder c = Check_Retired \<or> c_holder c = Free_Retired"
    and dr: "drained c"
  shows "\<exists>c'. holder_step g c = Some c' \<and> conc_inv h0 c'"
  using h
proof
  assume h: "c_holder c = Check_Retired"
  let ?s = "c_state c"
  have inv: "routes_inv h0 C R D ?s" and safe: "safe = blocks C R D"
    using at h by (simp_all add: conc_inv_at_def holder_ok_def)
  let ?h = "if rs_active_readers (r_table ?s) \<noteq> 0 then Unlocked else Free_Retired"
  let ?safe = "if rs_active_readers (r_table ?s) \<noteq> 0 then blocks C R D else blocks C [] D"
  have "conc_inv h0 (c\<lparr>c_state := ?s, c_holder := ?h\<rparr>)"
    using safe by (intro conc_inv_holder [OF at n inv, of ?safe] dr) (auto simp: holder_ok_def)
  then show ?thesis using h by (simp add: holder_step_def)
next
  assume h: "c_holder c = Free_Retired"
  let ?s = "c_state c"
  have inv: "routes_inv h0 C R D ?s" and safe: "safe = blocks C [] D"
    using at h by (simp_all add: conc_inv_at_def holder_ok_def)
  obtain s' where s': "detach_retired g ?s = Some s'" "routes_inv h0 C [] D s'" "r_nodes s' = r_nodes ?s"
    "r_table s' = (r_table ?s)\<lparr>rs_retired := 0\<rparr>"
    using free_retired_loop_inv [OF inv] unfolding detach_retired_def by metis
  have "conc_inv h0 (c\<lparr>c_state := s', c_holder := Unlocked\<rparr>)"
    using safe s' by (intro conc_inv_holder [OF at n s'(2), of safe] dr) (auto simp: holder_ok_def)
  then show ?thesis using h s'(1) by (simp add: holder_step_def)
qed

end


text \<open>A writer that has published a chain, or has given up: the nodes that were safe are unchanged and still owned.\<close>

lemma conc_inv_begin:
  assumes at: "conc_inv_at h0 C R D safe c" and n: "counted c"
    and inv: "routes_inv h0 C' R D' s" "holder_ok (r_nodes s) C' R D' (blocks C' R D') h"
    and same: "\<forall>p\<in>safe. r_nodes s p = r_nodes (c_state c) p"
      "rs_active_readers (r_table s) = rs_active_readers (r_table (c_state c))"
    and safe: "safe \<subseteq> blocks C' R D'" and v: "v = rs_pages (r_table s) \<or> v = c_view c \<and> is_published h"
  shows "conc_inv h0 (c\<lparr>c_state := s, c_view := v, c_holder := h\<rparr>)"
proof -
  have "view_ok (r_nodes s) (blocks C' R D') v"
    using v
  proof
    assume "v = rs_pages (r_table s)"
    then show ?thesis using view_ok_drained [OF inv(1) blocks_chains] by simp
  next
    assume "v = c_view c \<and> is_published h"
    then show ?thesis using at view_ok_mono [OF _ same(1) safe] by (simp add: conc_inv_at_def)
  qed
  moreover have "reader_ok (r_nodes s) (blocks C' R D') (c_seen c t) (c_readers c t)" for t
    using at same(1) safe by (auto simp: conc_inv_at_def intro: reader_ok_mono)
  ultimately have "conc_inv_at h0 C' R D' (blocks C' R D') (c\<lparr>c_state := s, c_view := v, c_holder := h\<rparr>)"
    using inv v by (auto simp: conc_inv_at_def drained_def)
  moreover have "counted (c\<lparr>c_state := s, c_view := v, c_holder := h\<rparr>)"
    using n same(2) by (simp add: counted_def)
  ultimately show ?thesis unfolding conc_inv_iff by blast
qed

lemma blocks_publish: "blocks C R D \<subseteq> blocks (C(x := L)) R (C x @ D)"
  by (auto simp: blocks_def)

context library_memory
begin

lemma step_begin_remove:
  assumes at: "conc_inv_at h0 C R D safe c" and n: "counted c" and h: "c_holder c = Unlocked"
  shows "\<exists>c'. begin_remove g i c = Some c' \<and> conc_inv h0 c'"
proof -
  let ?s = "c_state c"
  have inv: "routes_inv h0 C R D ?s" and safe: "safe = blocks C R D"
    using at h by (simp_all add: conc_inv_at_def holder_ok_def)
  from inv show ?thesis
  proof (cases rule: remove_publish [where i = i])
    case (failed s')
    then have "conc_inv h0 (c\<lparr>c_state := s', c_view := rs_pages (r_table s'), c_holder := c_holder c\<rparr>)"
      using safe by (intro conc_inv_begin [OF at n failed(2)]) (auto simp: h holder_ok_def same_rest_def)
    then show ?thesis using failed(1) by (simp add: begin_remove_def)
  next
    case (published old s' L)
    have "conc_inv h0 (c\<lparr>c_state := s', c_view := c_view c, c_holder := Published old True i\<rparr>)"
    proof (rule conc_inv_begin [OF at n published(2)])
      show "holder_ok (r_nodes s') (C(home i := L)) R (C (home i) @ D) (blocks (C(home i := L)) R (C (home i) @ D)) (Published old True i)"
        using published(4) by (auto simp: holder_ok_def)
    qed (use published(3) safe blocks_publish [of C R D] in \<open>simp_all add: same_rest_def is_published_def\<close>)
    then show ?thesis using published(1) by (simp add: begin_remove_def)
  qed
qed

lemma step_begin_install:
  assumes at: "conc_inv_at h0 C R D safe c" and n: "counted c" and h: "c_holder c = Unlocked" and dr: "drained c"
    and r: "rt_next r = 0"
  shows "\<exists>c'. begin_install g page_ok r c = Some c' \<and> conc_inv h0 c'"
proof -
  let ?s = "c_state c"
  let ?i = "rt_proc_id r"
  have inv: "routes_inv h0 C R D ?s" and safe: "safe = blocks C R D"
    using at h by (simp_all add: conc_inv_at_def holder_ok_def)
  from routes_inv_owns [OF inv] show ?thesis
  proof (cases rule: route_calloc_cases)
    case (fail h')
    then have "routes_inv h0 C R D (?s\<lparr>r_heap := h'\<rparr>)" using inv by (simp add: routes_inv_def)
    then have "conc_inv h0 (c\<lparr>c_state := ?s\<lparr>r_heap := h'\<rparr>, c_view := c_view c, c_holder := c_holder c\<rparr>)"
      using safe dr by (intro conc_inv_begin [OF at n, of C D]) (auto simp: h holder_ok_def drained_def)
    then show ?thesis using fail(1) by (simp add: begin_install_def)
  next
    case (fresh q h')
    let ?s1 = "?s\<lparr>r_heap := h', r_nodes := (r_nodes ?s)(q := r)\<rparr>"
    have inv1: "routes_inv h0 C R (q # D) ?s1" using routes_inv_fresh(1) [OF inv fresh(3,4)] .
    have q: "rt_next (r_nodes ?s1 q) = 0" "rt_proc_id (r_nodes ?s1 q) = ?i" using r by simp_all
    have "q \<in> live h'" using heap_owns_in_live [OF fresh(4)] by simp
    then have eq: "begin_install g page_ok r c = do {
        (res, s) \<leftarrow> routes_add_publish g page_ok q ?s1;
        Some (case res of Inl rc \<Rightarrow> c\<lparr>c_state := s, c_view := rs_pages (r_table s)\<rparr>
          | Inr (old, replaced) \<Rightarrow> c\<lparr>c_state := s, c_holder := Published old replaced ?i\<rparr>) }"
      using fresh(1,2) by (simp add: begin_install_def)
    have nodes: "\<forall>p\<in>safe. r_nodes s' p = r_nodes ?s p" "rs_active_readers (r_table s') = rs_active_readers (r_table ?s)"
      if "same_rest (blocks C R D) ?s1 s'" for s'
      using that fresh(3) safe by (simp_all add: same_rest_def)
    from inv1 q show ?thesis
    proof (cases rule: add_publish [where page_ok = page_ok])
      case (failed s')
      have "conc_inv h0 (c\<lparr>c_state := s', c_view := rs_pages (r_table s'), c_holder := c_holder c\<rparr>)"
        using safe nodes [OF failed(3)] by (intro conc_inv_begin [OF at n failed(2)]) (auto simp: h holder_ok_def)
      then show ?thesis using eq failed(1) by simp
    next
      case (published old replaced s' L)
      have "conc_inv h0 (c\<lparr>c_state := s', c_view := c_view c, c_holder := Published old replaced ?i\<rparr>)"
      proof (rule conc_inv_begin [OF at n published(2)])
        show "holder_ok (r_nodes s') (C(home ?i := L)) R (C (home ?i) @ D) (blocks (C(home ?i := L)) R (C (home ?i) @ D))
            (Published old replaced ?i)"
          using published(4) by (auto simp: holder_ok_def)
      qed (use nodes [OF published(3)] safe blocks_publish [of C R D] in \<open>simp_all add: is_published_def\<close>)
      then show ?thesis using eq published(1) by simp
    qed
  qed
qed

text \<open>With the buffer drained before the counter is tested, every enabled step is defined and keeps the invariant.\<close>

lemma act_inv:
  assumes inv: "conc_inv h0 c" and en: "enabled True a c"
  shows "\<exists>c'. act g a c = Some c' \<and> conc_inv h0 c'"
proof -
  obtain C R D safe where at: "conc_inv_at h0 C R D safe c" and n: "counted c"
    using inv unfolding conc_inv_iff by blast
  show ?thesis
  proof (cases a)
    case (Begin_Lookup t i)
    have out: "\<not> inside (c_readers c t)" "t < max_readers"
      using en Begin_Lookup by (auto simp: enabled_def inside_def split: reader.splits)
    let ?c = "set_reader t (Entered i) (c\<lparr>c_state := lookup_enter (c_state c)\<rparr>)"
    have "routes_inv h0 C R D (lookup_enter (c_state c))"
      using at routes_inv_table [of h0 C R D "c_state c"] by (simp add: conc_inv_at_def lookup_enter_def)
    then have "conc_inv_at h0 C R D safe ?c"
      using at by (simp add: conc_inv_at_def lookup_enter_def drained_def reader_ok_def)
    then show ?thesis using counted_enter [OF n out, of i] Begin_Lookup unfolding conc_inv_iff act_def by auto
  next
    case (Reader t)
    then show ?thesis
      using en step_loading [OF at n, of t] step_walking [OF at n, of t] step_found [OF at n, of t]
        step_leaving [OF at n, of t] step_cleanup [OF at n, of t]
      by (cases "c_readers c t") (auto simp: act_def enabled_def)
  next
    case (Begin_Install page_ok r)
    then show ?thesis using en step_begin_install [OF at n] by (simp add: act_def enabled_def)
  next
    case (Begin_Remove i)
    then show ?thesis using en step_begin_remove [OF at n] by (simp add: act_def enabled_def)
  next
    case Holder
    have "drained c" using at en Holder by (auto simp: conc_inv_at_def enabled_def)
    then show ?thesis
      using en Holder step_published [OF at n] step_freeing [OF at n] step_retiring [OF at n] step_retired [OF at n]
      by (cases "c_holder c") (auto simp: act_def enabled_def)
  next
    case Drain
    let ?c = "c\<lparr>c_view := rs_pages (r_table (c_state c))\<rparr>"
    have "view_ok (r_nodes (c_state c)) safe (rs_pages (r_table (c_state c)))"
      using at view_ok_drained holder_ok_chains by (auto simp: conc_inv_at_def)
    then have "conc_inv_at h0 C R D safe ?c" using at by (auto simp: conc_inv_at_def drained_def)
    moreover have "counted ?c" using n by (simp add: counted_def)
    ultimately show ?thesis using Drain unfolding conc_inv_iff act_def by auto
  qed
qed

lemma reach_inv: "reach True g c0 c \<Longrightarrow> conc_inv h0 c0 \<Longrightarrow> conc_inv h0 c"
proof (induction rule: reach.induct)
  case (reach_step c a c')
  then show ?case using act_inv by fastforce
qed

end

lemma idle_inv:
  assumes "table_ok h0 m s"
  shows "conc_inv h0 (idle s)"
proof -
  obtain C where C: "routes_inv h0 C [] [] s" "rs_active_readers (r_table s) = 0"
    using assms by (auto simp: table_ok_def)
  have "counted (idle s)" using C(2) by (simp add: counted_def idle_def inside_def)
  moreover have "conc_inv_at h0 C [] [] (blocks C [] []) (idle s)"
    using C(1) view_ok_drained [OF C(1) blocks_chains]
    by (simp add: conc_inv_at_def idle_def holder_ok_def reader_ok_def drained_def)
  ultimately show ?thesis unfolding conc_inv_iff by blast
qed


section \<open>Readers and writers together\<close>

text \<open>
  C11: Start from a fresh table and let lookups in up to \<open>2 ^ 32 - 1\<close> threads, registrations and removals
  be interleaved in any way, under any allocator.  If the store that publishes a chain is visible
  before the counter of readers is tested, then no step of any thread ever touches memory that is not
  live, and a lookup returns exactly what it would have returned had it run alone at the moment at
  which it loaded its slot.
\<close>

theorem lookup_race_free:
  assumes g: "mem_ok g" and h: "heap_ok (r_heap s0)" and init: "wirecall_routes_init True True 1 s0 = (rc, s)"
    and reach: "reach True g (idle s) c"
  shows "(enabled True a c \<longrightarrow> act g a c \<noteq> None) \<and>
    (c_readers c t = Finished i res \<longrightarrow> map_option (\<lambda>r. r\<lparr>rt_next := 0\<rparr>) res = c_seen c t)"
proof -
  note lm = library_memory_any [OF g]
  have inv: "conc_inv (r_heap s0) c"
    using library_memory.reach_inv [OF lm reach idle_inv [OF init_table(1) [OF h init]]] .
  have "act g a c \<noteq> None" if "enabled True a c"
    using library_memory.act_inv [OF lm inv that] by auto
  moreover have "reader_ok (r_nodes (c_state c)) safe (c_seen c t) (c_readers c t)" if "conc_inv_at h0 C R D safe c" for h0 C R D safe
    using that by (simp add: conc_inv_at_def)
  then have "map_option (\<lambda>r. r\<lparr>rt_next := 0\<rparr>) res = c_seen c t" if "c_readers c t = Finished i res"
    using inv that unfolding conc_inv_iff by (fastforce simp: reader_ok_def)
  ultimately show ?thesis by blast
qed

lemma plain_route_calloc:
  "\<not> hp_fail (r_heap s) (hp_tick (r_heap s)) \<Longrightarrow> 0 < hp_next (r_heap s) \<Longrightarrow> route_calloc no_allocator s =
     Some (hp_next (r_heap s), s\<lparr>r_heap := calloced sizeof_route (r_heap s),
       r_nodes := (r_nodes s)(hp_next (r_heap s) := zero_route)\<rparr>)"
  using plain_calloc [of "r_heap s" sizeof_route] by (simp add: route_calloc_def sizeof_route_def SIZE_MAX_def)

lemma plain_ret_calloc_fail:
  "hp_fail (r_heap s) (hp_tick (r_heap s)) \<Longrightarrow> ret_calloc no_allocator s =
     Some (0, s\<lparr>r_heap := (r_heap s)\<lparr>hp_tick := Suc (hp_tick (r_heap s))\<rparr>\<rparr>)"
  using plain_calloc_fail [of "r_heap s" sizeof_retired] by (simp add: ret_calloc_def sizeof_retired_def SIZE_MAX_def)

lemma plain_node_free:
  "0 < p \<Longrightarrow> hp_size (r_heap s) p = Some n \<Longrightarrow> node_free no_allocator p s =
     Some (s\<lparr>r_heap := (r_heap s)\<lparr>hp_size := (hp_size (r_heap s))(p := None)\<rparr>\<rparr>)"
  by (simp add: node_free_def wirecall_mem_free_def no_allocator_def c_free_def)

lemma home_0: "page_of 0 = 0" "slot_of 0 = 0"
  by (simp_all add: page_of_def slot_of_def route_index_def)

text \<open>Two registrations of procedure \<open>0\<close> and a lookup; \<open>race n\<close> is the state after \<open>n\<close> steps.\<close>

definition race_route :: wirecall_route where
  "race_route = handler_route 0 5 0 0 False"

definition race_steps :: "action list" where
  "race_steps = [Begin_Install True race_route, Drain, Holder, Begin_Install True race_route, Holder,
     Begin_Lookup 0 0, Reader 0, Reader 0, Holder]"

fun run_actions :: "bool \<Rightarrow> wirecall_allocator \<Rightarrow> action list \<Rightarrow> conc \<Rightarrow> conc option" where
  "run_actions fence g [] c = Some c"
| "run_actions fence g (a # as) c =
     (if enabled fence a c then do { c \<leftarrow> act g a c; run_actions fence g as c } else None)"

lemma run_actions_reach: "reach fence g c0 c \<Longrightarrow> run_actions fence g as c = Some c' \<Longrightarrow> reach fence g c0 c'"
proof (induction as arbitrary: c)
  case (Cons a as)
  then obtain c1 where "enabled fence a c" "act g a c = Some c1" "run_actions fence g as c1 = Some c'"
    by (auto split: if_splits Option.bind_splits)
  then show ?case using Cons.IH [of c1] Cons.prems(1) reach_step by blast
qed simp


lemma fresh_table: "snd (wirecall_routes_init True True 1 (start0\<lparr>r_heap := h\<rparr>)) =
  \<lparr>r_table = \<lparr>rs_pages = Mapped Map.empty, rs_root_bytes = 524288, rs_page_bytes = 524288, rs_active_readers = 0, rs_retired = 0\<rparr>,
   r_nodes = (\<lambda>_. zero_route), r_rets = (\<lambda>_. zero_ret), r_heap = h, r_finalized = []\<rparr>"
  by (simp add: wirecall_routes_init_def start0_def zero_routes_def route_consts)

lemma heap0_sel: "hp_next heap0 = 1" "hp_size heap0 = (\<lambda>_. None)" "hp_tick heap0 = 0" "hp_fail heap0 = (\<lambda>_. False)"
  by (simp_all add: heap0_def)

lemma empty_neq_upd: "(Map.empty = [i \<mapsto> f]) = False"
  by (metis fun_upd_same option.distinct(1))

lemmas table_eval = plain_route_calloc plain_node_free heap0_sel home_0 route_consts node_put_def node_get_def
  routes_add_publish_def page_load_def page_store_def slot_load_def copy_chain.simps route_chain_free.simps
  route_finalize_def lookup_enter_def lookup_load_def handler_route_def zero_route_def

lemmas conc_eval = idle_def enabled_def drained_def is_published_def act_def begin_install_def holder_step_def
  set_reader_def set_seen_def reader_step_def reader_view_def max_readers_def empty_neq_upd race_steps_def race_route_def

definition lookup_steps :: "action list" where
  "lookup_steps = [Begin_Install True race_route, Drain, Holder, Begin_Lookup 0 0, Reader 0, Reader 0, Reader 0, Reader 0,
     Reader 0, Reader 0]"

lemma lookup_steps_run:
  "\<exists>c. run_actions True no_allocator lookup_steps (idle (snd (wirecall_routes_init True True 1 (start0\<lparr>r_heap := heap0\<rparr>)))) = Some c \<and>
     c_readers c 0 = Finished 0 (Some race_route) \<and> c_holder c = Check_Retired"
  unfolding fresh_table by (simp add: table_eval conc_eval lookup_steps_def)

theorem lookup_race_free_witness:
  "\<exists>c. reach True no_allocator (idle (snd (wirecall_routes_init True True 1 (start0\<lparr>r_heap := heap0\<rparr>)))) c \<and>
     c_readers c 0 = Finished 0 (Some race_route) \<and> c_seen c 0 = Some race_route \<and> act no_allocator Holder c \<noteq> None"
proof -
  let ?s0 = "start0\<lparr>r_heap := heap0\<rparr>"
  obtain c where c: "run_actions True no_allocator lookup_steps (idle (snd (wirecall_routes_init True True 1 ?s0))) = Some c"
    "c_readers c 0 = Finished 0 (Some race_route)" "c_holder c = Check_Retired"
    using lookup_steps_run by blast
  have r: "reach True no_allocator (idle (snd (wirecall_routes_init True True 1 ?s0))) c"
    using run_actions_reach [OF reach_start c(1)] .
  have "heap_ok (r_heap ?s0)" "wirecall_routes_init True True 1 ?s0 = (0, snd (wirecall_routes_init True True 1 ?s0))"
    using start0_init by (simp_all add: start0_def)
  note race_free = lookup_race_free [OF mem_ok_no_allocator this r, of Holder 0 0 "Some race_route"]
  have "enabled True Holder c" using c(3) by (simp add: enabled_def is_published_def)
  moreover have "race_route\<lparr>rt_next := 0\<rparr> = race_route"
    by (simp add: race_route_def handler_route_def zero_route_def)
  ultimately show ?thesis using race_free r c(2) by auto
qed

text \<open>Without interruption, the steps of the holder are \<open>retire_route\<close>.\<close>

lemma retire_route_steps:
  assumes "c_holder c = Published old one i" "retire_route g old one i (c_state c) = Some (rc, s')"
  shows "do { c \<leftarrow> holder_step g c; c \<leftarrow> holder_step g c; holder_step g c } = Some (c\<lparr>c_state := s', c_holder := Unlocked\<rparr>)"
  using assms
  by (auto simp: retire_route_def holder_step_def push_retired_def free_retired_def ret_put_def ret_calloc_def
      split: if_splits Option.bind_splits)

text \<open>
  C37: Without that guarantee the table is not safe.  The store that publishes the chain (release) may
  be delayed past the load of the reader counter (acquire), as on processors with store buffers; then
  a writer can see no reader and free the old chain while a reader, which entered after the test,
  still loads its address: there is a reachable state in which the next step of a lookup reads freed
  memory.
\<close>

theorem publish_reordering_unsafe:
  "\<exists>c. reach False no_allocator (idle (snd (wirecall_routes_init True True 1 (start0\<lparr>r_heap := heap0\<rparr>)))) c \<and>
     enabled False (Reader 0) c \<and> act no_allocator (Reader 0) c = None"
proof -
  let ?c = "idle (snd (wirecall_routes_init True True 1 (start0\<lparr>r_heap := heap0\<rparr>)))"
  have "\<exists>c. run_actions False no_allocator race_steps ?c = Some c \<and> enabled False (Reader 0) c \<and> act no_allocator (Reader 0) c = None"
    unfolding fresh_table by (simp add: table_eval conc_eval)
  then show ?thesis using run_actions_reach [OF reach_start] by blast
qed

text \<open>A registration of a known procedure that finds no memory for the node that would retire the old chain.\<close>

lemma publish_then_lost:
  assumes mem: "mem_ok g" and inv: "routes_inv h0 C R (q # D) s" and r: "r_nodes s q = r" "rt_next r = 0" "rt_proc_id r = i"
    and known: "tbl (r_nodes s) C i \<noteq> None" and readers: "rs_active_readers (r_table s) \<noteq> 0" and routes: "routes \<noteq> 0"
    and publish: "routes_add_publish g page_ok q s = Some (Inr (old, replaced), s1)" and fails: "ret_calloc g s1 = Some (0, s2)"
  shows "routes_add_route g page_ok routes q s = Some (-1, s2) \<and> r_finalized s2 = r_finalized s \<and>
    (\<exists>L. routes_inv h0 (C(home i := L)) R (C (home i) @ D) s2 \<and> tbl (r_nodes s2) (C(home i := L)) = (tbl (r_nodes s) C)(i \<mapsto> r))"
proof -
  have q: "rt_next (r_nodes s q) = 0" "rt_proc_id (r_nodes s q) = i" using r by simp_all
  have "q \<in> blocks C R (q # D)" by (simp add: blocks_def)
  then have live: "q \<in> live (r_heap s)" "q \<noteq> 0"
    using heap_owns_in_live [OF routes_inv_owns [OF inv]] heap_owns_not_null [OF routes_inv_owns [OF inv]] by (blast, metis)
  obtain L where L: "routes_inv h0 (C(home i := L)) R (C (home i) @ D) s1" "same_rest (blocks C R D) s s1" "chain (r_nodes s1) old (C (home i))"
    "map (content (r_nodes s1)) L = content (r_nodes s) q # filter (\<lambda>r. rt_proc_id r \<noteq> i) (map (content (r_nodes s)) (C (home i)))"
    using publish by (cases rule: library_memory.add_publish [OF library_memory_any [OF mem] inv q, of page_ok]) auto
  have t: "tbl (r_nodes s1) (C(home i := L)) = (tbl (r_nodes s) C)(i \<mapsto> r)"
    using tbl_install [of "r_nodes s1" L "r_nodes s" q i C, OF L(4) q(2)] same_rest_chain [OF L(2)] r(1,2) by (cases r) (simp add: content_def)
  have "C (home i) \<noteq> []" using known by (auto simp: tbl_def)
  then have old: "old \<noteq> 0" using L(3) by (cases "C (home i)") auto
  have at: "rs_active_readers (r_table s1) \<noteq> 0" "r_finalized s1 = r_finalized s" using L(2) readers by (simp_all add: same_rest_def)
  have ret: "retire_route g old replaced i s1 = Some (-1, s2)" using old at(1) fails by (simp add: retire_route_def)
  have "routes_inv h0 (C(home i := L)) R (C (home i) @ D) s2 \<and> r_nodes s2 = r_nodes s1 \<and> r_finalized s2 = r_finalized s1"
    using ret by (cases rule: library_memory.retire_route_cases [OF library_memory_any [OF mem] L(1,3), of replaced i]) simp_all
  moreover have "routes_add_route g page_ok routes q s = Some (-1, s2)"
    using routes live publish ret q(2) by (auto simp: routes_add_route_def node_get_def live_def)
  ultimately show ?thesis using t at(2) by auto
qed

text \<open>
  C39: When a reader is inside and the node that would retire the old chain cannot be allocated, the registration
  of a procedure that the table already holds reports failure although its route is in force.  This is so for every
  table, every allocator and every such registration: if the new route and the copies of the chain could be allocated,
  but not the node, then the call returns \<open>-1\<close>; the map of the table is updated and a lookup walks to the
  new route; and the nodes of the old chain are lost: they are in no chain of the table and not retired, their memory
  stays allocated, and no finalizer has been called.
\<close>

theorem add_fails_after_publish:
  assumes "mem_ok g" "routes_inv h0 C R D s" "rs_active_readers (r_table s) \<noteq> 0" "routes \<noteq> 0" "handler \<noteq> 0"
    and "tbl (r_nodes s) C i \<noteq> None"
    and "route_calloc g s = Some (q, s0)" "q \<noteq> 0" "node_put q (handler_route i handler u f a) s0 = Some s0'"
    and "routes_add_publish g page_ok q s0' = Some (Inr (old, replaced), s1)" "ret_calloc g s1 = Some (0, s2)"
  shows "wirecall_routes_add_ex g page_ok routes i handler u f a s = Some (-1, s2) \<and>
    (\<exists>C'. routes_inv h0 C' R (C (home i) @ D) s2 \<and> tbl (r_nodes s2) C' = (tbl (r_nodes s) C)(i \<mapsto> handler_route i handler u f a) \<and>
       C (home i) \<noteq> [] \<and> set (C (home i)) \<subseteq> live (r_heap s2) \<and> set (C (home i)) \<inter> ((\<Union>x. set (C' x)) \<union> set (ret_addrs R)) = {}) \<and>
    (\<exists>p n route. lookup_load i s2 = Some p \<and> lookup_walk i p s2 = Some n \<and> n \<noteq> 0 \<and> node_get n s2 = Some route \<and>
       route\<lparr>rt_next := 0\<rparr> = handler_route i handler u f a) \<and>
    r_finalized s2 = r_finalized s"
proof -
  let ?r = "handler_route i handler u f a"
  from routes_inv_owns [OF assms(2)] obtain h' where s0: "s0 = s\<lparr>r_heap := h', r_nodes := (r_nodes s)(q := zero_route)\<rparr>"
    and q: "q \<notin> blocks C R D" "heap_owns (insert q (blocks C R D)) h0 h'"
    using assms(7,8) by (cases rule: library_memory.route_calloc_cases [OF library_memory_any [OF assms(1)]]) auto
  have s0': "s0' = s\<lparr>r_heap := h', r_nodes := (r_nodes s)(q := ?r)\<rparr>"
    using assms(9) by (auto simp: node_put_def s0 split: if_splits)
  have inv: "routes_inv h0 C R (q # D) s0'" "tbl (r_nodes s0') C = tbl (r_nodes s) C"
    using routes_inv_fresh [OF assms(2) q] by (simp_all add: s0')
  have at: "r_nodes s0' q = ?r" "rs_active_readers (r_table s0') \<noteq> 0" "r_finalized s0' = r_finalized s"
    using assms(3) by (simp_all add: s0')
  obtain L where L: "routes_add_route g page_ok routes q s0' = Some (-1, s2)" "r_finalized s2 = r_finalized s"
    "routes_inv h0 (C(home i := L)) R (C (home i) @ D) s2" "tbl (r_nodes s2) (C(home i := L)) = (tbl (r_nodes s) C)(i \<mapsto> ?r)"
    using publish_then_lost [OF assms(1) inv(1) at(1) new_route_sel(1,2) _ at(2) assms(4,10,11)] inv(2) at(3) assms(6) by auto
  let ?C = "C(home i := L)"
  have "wirecall_routes_add_ex g page_ok routes i handler u f a s = Some (-1, s2)"
    using assms(4,5,7-9) L(1) by (simp add: add_ex_install install_def)
  moreover have "C (home i) \<noteq> []" using assms(6) by (auto simp: tbl_def)
  moreover have "set (C (home i)) \<subseteq> live (r_heap s2)" "set (C (home i)) \<inter> ((\<Union>x. set (?C x)) \<union> set (ret_addrs R)) = {}"
    using L(3) heap_owns_in_live [OF routes_inv_owns [OF L(3)]] unfolding routes_inv_def by (auto simp: blocks_def)
  moreover obtain p where p: "lookup_load i s2 = Some p" "chain (r_nodes s2) p (?C (home i))" using lookup_load_inv [OF L(3)] by blast
  moreover obtain n where n: "lookup_walk i p s2 = Some n"
    "if n = 0 then tbl (r_nodes s2) ?C i = None else n \<in> set (?C (home i)) \<and> tbl (r_nodes s2) ?C i = Some (content (r_nodes s2) n)"
    using lookup_walk_chain [OF p(2) routes_inv_chain_live [OF L(3)], of i] unfolding tbl_def by blast
  moreover have "n \<noteq> 0" "content (r_nodes s2) n = ?r" using n(2) L(4) by (auto split: if_splits)
  moreover have "node_get n s2 = Some (r_nodes s2 n)"
    using n(2) \<open>n \<noteq> 0\<close> routes_inv_chain_live [OF L(3), of "home i"] by (auto simp: node_get_def live_def)
  ultimately show ?thesis using L(2-4) unfolding content_def by blast
qed

text \<open>Procedure \<open>0\<close> is registered again while a reader is inside, and the third allocation fails.\<close>

definition heap_third_fails :: heap where
  "heap_third_fails = heap0\<lparr>hp_fail := (\<lambda>t. t = 2)\<rparr>"

lemma third_fails_run:
  "\<exists>s1 q s2 s3 s4 s5. wirecall_routes_add_ex no_allocator True 1 0 5 7 9 False
       (snd (wirecall_routes_init True True 1 (start0\<lparr>r_heap := heap_third_fails\<rparr>))) = Some (0, s1) \<and>
     route_calloc no_allocator (lookup_enter s1) = Some (q, s2) \<and> q \<noteq> 0 \<and> node_put q (handler_route 0 6 8 9 False) s2 = Some s3 \<and>
     routes_add_publish no_allocator True q s3 = Some (Inr (1, True), s4) \<and> ret_calloc no_allocator s4 = Some (0, s5) \<and>
     r_finalized (lookup_enter s1) = []"
  unfolding fresh_table heap_third_fails_def
  by (simp add: table_eval wirecall_routes_add_ex_def routes_add_route_def retire_route_def plain_ret_calloc_fail)

theorem add_fails_after_publish_witness:
  "\<exists>s1 s2 p n route. wirecall_routes_add_ex no_allocator True 1 0 5 7 9 False
       (snd (wirecall_routes_init True True 1 (start0\<lparr>r_heap := heap_third_fails\<rparr>))) = Some (0, s1) \<and>
     wirecall_routes_add_ex no_allocator True 1 0 6 8 9 False (lookup_enter s1) = Some (-1, s2) \<and>
     lookup_load 0 s2 = Some p \<and> lookup_walk 0 p s2 = Some n \<and> node_get n s2 = Some route \<and>
     route\<lparr>rt_next := 0\<rparr> = handler_route 0 6 8 9 False \<and> r_finalized s2 = []"
proof -
  let ?start = "start0\<lparr>r_heap := heap_third_fails\<rparr>" and ?r = "handler_route 0 5 7 9 False"
  obtain s1 q s2 s3 s4 s5 where run:
    "wirecall_routes_add_ex no_allocator True 1 0 5 7 9 False (snd (wirecall_routes_init True True 1 ?start)) = Some (0, s1)"
    "route_calloc no_allocator (lookup_enter s1) = Some (q, s2)" "q \<noteq> 0" "node_put q (handler_route 0 6 8 9 False) s2 = Some s3"
    "routes_add_publish no_allocator True q s3 = Some (Inr (1, True), s4)" "ret_calloc no_allocator s4 = Some (0, s5)"
    "r_finalized (lookup_enter s1) = []"
    using third_fails_run by blast
  have "heap_ok (r_heap ?start)" by (simp add: heap_ok_def heap_third_fails_def heap0_def)
  then have "table_ok heap_third_fails Map.empty (snd (wirecall_routes_init True True 1 ?start))"
    using init_table(1) [of ?start _ "snd (wirecall_routes_init True True 1 ?start)"] by (simp add: prod_eq_iff)
  from plain_memory.install_table [OF this, of ?r 0 1 True] have "table_ok heap_third_fails (Map.empty(0 \<mapsto> ?r)) s1"
    using run(1) by (auto simp: add_ex_install table_post_def)
  then obtain C where C: "routes_inv heap_third_fails C [] [] s1" "tbl (r_nodes s1) C = Map.empty(0 \<mapsto> ?r)"
    "rs_active_readers (r_table s1) = 0"
    unfolding table_ok_def by metis
  have inv: "routes_inv heap_third_fails C [] [] (lookup_enter s1)" using routes_inv_table [OF C(1)] by (simp add: lookup_enter_def)
  have at: "rs_active_readers (r_table (lookup_enter s1)) \<noteq> 0" "tbl (r_nodes (lookup_enter s1)) C 0 \<noteq> None"
    using C(2,3) by (simp_all add: lookup_enter_def)
  show ?thesis
    using add_fails_after_publish [OF mem_ok_no_allocator inv at(1) _ _ at(2) run(2-6), of 1] run(1,7) by auto
qed

end
