(* ===== verification/Scheduler.thy ===== *)
theory Scheduler
  imports Arena Minicoro Payload_Decoder
begin

text \<open>
  The scheduler of asynchronous calls: \<^verbatim>\<open>include/scheduler.h\<close> and \<^verbatim>\<open>src/scheduler.c\<close>.  A submitted
  call is copied into a slot of an arena, its payload is decoded, and it gets a coroutine in
  which its handler runs.  Calls wait in a queue that is linked through the slots; \<open>run_ready\<close>
  resumes the first call, puts it back if its handler has yielded, and otherwise reports its
  completion and frees it.

  Handlers and completion callbacks are code of the client.  They are arguments: a handler is a
  function from the state of its own stack frame, the call, the heap and the world outside to
  either a new frame (it has called \<open>wirecall_ctx_yield\<close>) or the code it returns.
\<close>

section \<open>Types\<close>

record wirecall_ctx =
  cx_call_id :: u64
  cx_proc_id :: u64
  cx_server :: nat

text \<open>The member \<open>args\<close> is an address with the cells of the array there, as in the theory \<open>Payload\<close>.\<close>

record wirecall_call =
  cl_co :: nat
  cl_ctx :: wirecall_ctx
  cl_handler :: nat
  cl_handler_data :: nat
  cl_payload :: nat
  cl_payload_len :: nat
  cl_args :: "nat \<times> wirecall_value list"
  cl_argc :: nat
  cl_response :: wirecall_writer
  cl_result :: int
  cl_error :: string
  cl_completed :: bool
  cl_done :: nat
  cl_done_data :: nat
  cl_next_ready :: nat

definition zero_call :: wirecall_call where
  "zero_call = \<lparr>cl_co = 0, cl_ctx = \<lparr>cx_call_id = 0, cx_proc_id = 0, cx_server = 0\<rparr>, cl_handler = 0, cl_handler_data = 0,
     cl_payload = 0, cl_payload_len = 0, cl_args = (0, []), cl_argc = 0, cl_response = zero_writer, cl_result = 0,
     cl_error = '''', cl_completed = False, cl_done = 0, cl_done_data = 0, cl_next_ready = 0\<rparr>"

record wirecall_scheduler =
  sc_head :: nat
  sc_tail :: nat
  sc_call_arena :: wirecall_fixed_arena

definition WIRECALL_CALL_ARENA_CAPACITY :: nat where "WIRECALL_CALL_ARENA_CAPACITY = 262144"
definition sizeof_call :: nat where "sizeof_call = 296"
definition sizeof_scheduler :: nat where "sizeof_scheduler = 64"
definition CALL_ENTRY :: nat where "CALL_ENTRY = 1"

text \<open>
  The state of a worker thread as far as the scheduler touches it: the slots of the arena with the
  calls in them, the coroutines of the thread with the frames of their handlers, the heap, and
  the world of handlers and callbacks.  A slot that is not allocated holds no call, and
  accesses to it are undefined (\<open>None\<close>).
\<close>

record ('f, 'w) sched =
  s_scheduler :: wirecall_scheduler
  s_words :: words
  s_calls :: "nat \<Rightarrow> wirecall_call option"
  s_thread :: mco_thread
  s_frames :: "nat \<Rightarrow> 'f option"
  s_heap :: heap
  s_world :: 'w

type_synonym ('f, 'w) handlers =
  "nat \<Rightarrow> 'f option \<Rightarrow> wirecall_call \<Rightarrow> heap \<Rightarrow> 'w \<Rightarrow> (('f + int) \<times> wirecall_writer \<times> heap \<times> 'w) option"

type_synonym 'w callbacks = "nat \<Rightarrow> wirecall_call \<Rightarrow> nat \<Rightarrow> heap \<Rightarrow> 'w \<Rightarrow> (heap \<times> 'w) option"

text \<open>
  What the operating system and the processor contribute: the size of a context, the address of
  the pages for a new coroutine, whether a context can be made, and the address of a local
  variable in a function that runs in a coroutine.
\<close>

record platform =
  pf_sizeof_context :: nat
  pf_pages :: "mco_thread \<Rightarrow> nat"
  pf_makectx :: mco_result
  pf_stack_addr :: "mco_coro \<Rightarrow> nat"

definition call_get :: "nat \<Rightarrow> ('f, 'w) sched \<Rightarrow> wirecall_call option" where
  "call_get p s = s_calls s p"

definition call_upd :: "nat \<Rightarrow> (wirecall_call \<Rightarrow> wirecall_call) \<Rightarrow> ('f, 'w) sched \<Rightarrow> ('f, 'w) sched option" where
  "call_upd p f s = (case s_calls s p of None \<Rightarrow> None | Some c \<Rightarrow> Some (s\<lparr>s_calls := (s_calls s)(p := Some (f c))\<rparr>))"

section \<open>Messages\<close>

fun decimal :: "nat \<Rightarrow> string" where
  "decimal n = (if n < 10 then [char_of (48 + n)] else decimal (n div 10) @ [char_of (48 + n mod 10)])"

definition show_int :: "int \<Rightarrow> string" where
  "show_int i = (if i < 0 then ''-'' @ decimal (nat (- i)) else decimal (nat i))"

text \<open>\<open>snprintf\<close> into the member \<open>error\<close>, which has 160 bytes.\<close>

definition error_text :: "string \<Rightarrow> string" where
  "error_text t = take 159 t"

section \<open>Freeing a call\<close>

definition call_free :: "wirecall_allocator \<Rightarrow> nat \<Rightarrow> ('f, 'w) sched \<Rightarrow> ('f, 'w) sched option" where
  "call_free g p s =
     (if p = 0 then Some s
      else do {
        c \<leftarrow> call_get p s;
        s \<leftarrow> (if cl_co c \<noteq> 0 then do { (res, t) \<leftarrow> mco_destroy (cl_co c) (s_thread s); Some (s\<lparr>s_thread := t\<rparr>) } else Some s);
        h \<leftarrow> wirecall_values_free g (fst (cl_args c)) (snd (cl_args c)) (s_heap s);
        (w, h) \<leftarrow> wirecall_writer_free g (Some (cl_response c)) h;
        h \<leftarrow> wirecall_mem_free g (cl_payload c) h;
        let (arena, m) = wirecall_fixed_arena_free p (sc_call_arena (s_scheduler s), s_words s);
        Some (s\<lparr>s_heap := h, s_scheduler := (s_scheduler s)\<lparr>sc_call_arena := arena\<rparr>, s_words := m,
                s_calls := (s_calls s)(p := None)\<rparr>) })"

section \<open>The queue\<close>

definition enqueue :: "nat \<Rightarrow> ('f, 'w) sched \<Rightarrow> (int \<times> ('f, 'w) sched) option" where
  "enqueue p s = do {
     s \<leftarrow> call_upd p (\<lambda>c. c\<lparr>cl_next_ready := 0\<rparr>) s;
     s \<leftarrow> (if sc_tail (s_scheduler s) \<noteq> 0 then call_upd (sc_tail (s_scheduler s)) (\<lambda>c. c\<lparr>cl_next_ready := p\<rparr>) s
           else Some (s\<lparr>s_scheduler := (s_scheduler s)\<lparr>sc_head := p\<rparr>\<rparr>));
     Some (0, s\<lparr>s_scheduler := (s_scheduler s)\<lparr>sc_tail := p\<rparr>\<rparr>) }"

definition dequeue :: "('f, 'w) sched \<Rightarrow> (nat \<times> ('f, 'w) sched) option" where
  "dequeue s = (
     let p = sc_head (s_scheduler s)
     in if p = 0 then Some (0, s)
        else do {
          c \<leftarrow> call_get p s;
          let s = s\<lparr>s_scheduler := (s_scheduler s)\<lparr>sc_head := cl_next_ready c\<rparr>\<rparr>;
          let s = (if sc_head (s_scheduler s) = 0 then s\<lparr>s_scheduler := (s_scheduler s)\<lparr>sc_tail := 0\<rparr>\<rparr> else s);
          s \<leftarrow> call_upd p (\<lambda>c. c\<lparr>cl_next_ready := 0\<rparr>) s;
          Some (p, s) })"

section \<open>Running a call\<close>

text \<open>\<open>wirecall_ctx_yield\<close>, which ignores its argument; the result says whether it has switched away.\<close>

definition wirecall_ctx_yield :: "platform \<Rightarrow> mco_thread \<Rightarrow> (bool \<times> mco_thread) option" where
  "wirecall_ctx_yield pf t = (
     let co = mco_running t
     in if co \<noteq> 0 then do {
          c \<leftarrow> mt_cos t co;
          (res, t) \<leftarrow> mco_yield (pf_stack_addr pf c) co t;
          Some (res = MCO_SUCCESS, t) }
        else Some (False, t))"

text \<open>The end of \<open>call_entry\<close>, when the handler has returned \<open>rc\<close>.\<close>

definition call_returned :: "int \<Rightarrow> wirecall_call \<Rightarrow> wirecall_call" where
  "call_returned rc c = (
     let c = c\<lparr>cl_result := rc, cl_completed := True\<rparr>
     in if cl_result c \<noteq> 0 \<and> cl_error c = '''' then c\<lparr>cl_error := error_text (''procedure returned '' @ show_int (cl_result c))\<rparr>
        else c)"

text \<open>
  From the switch into the coroutine \<open>co\<close> to the switch back: \<open>call_entry\<close> runs the handler until it
  yields or returns.  A yield that does not switch away lets the handler go on.
\<close>

partial_function (option) call_entry ::
  "platform \<Rightarrow> ('f, 'w) handlers \<Rightarrow> nat \<Rightarrow> ('f, 'w) sched \<Rightarrow> ('f, 'w) sched option" where
  "call_entry pf handler co s = do {
     p \<leftarrow> mco_get_user_data co (s_thread s);
     c \<leftarrow> call_get p s;
     (out, w, h, world) \<leftarrow> handler (cl_handler c) (s_frames s co) c (s_heap s) (s_world s);
     s \<leftarrow> call_upd p (\<lambda>c. c\<lparr>cl_response := w\<rparr>) (s\<lparr>s_heap := h, s_world := world\<rparr>);
     (case out of
        Inr rc \<Rightarrow> do {
          s \<leftarrow> call_upd p (call_returned rc) s;
          t \<leftarrow> mco_main_return co (s_thread s);
          Some (s\<lparr>s_thread := t\<rparr>) }
      | Inl f \<Rightarrow> do {
          (switched, t) \<leftarrow> wirecall_ctx_yield pf (s_thread s);
          let s = s\<lparr>s_thread := t, s_frames := (s_frames s)(co := Some f)\<rparr>;
          if switched then Some s else call_entry pf handler co s }) }"

definition call_resume :: "platform \<Rightarrow> ('f, 'w) handlers \<Rightarrow> nat \<Rightarrow> ('f, 'w) sched \<Rightarrow> (int \<times> ('f, 'w) sched) option" where
  "call_resume pf handler p s = do {
     c \<leftarrow> call_get p s;
     (rc, t, s) \<leftarrow> mco_resume (\<lambda>co t s. do { s \<leftarrow> call_entry pf handler co (s\<lparr>s_thread := t\<rparr>); Some (s_thread s, s) })
        (cl_co c) (s_thread s) s;
     let s = s\<lparr>s_thread := t\<rparr>;
     if rc \<noteq> MCO_SUCCESS then do {
       s \<leftarrow> call_upd p (\<lambda>c. c\<lparr>cl_error := error_text (''coroutine resume failed: '' @ mco_result_description rc),
              cl_result := -1, cl_completed := True\<rparr>) s;
       Some (-1, s) }
     else Some (0, s) }"

text \<open>A call of the completion callback at address \<open>done\<close>.\<close>

definition call_done :: "'w callbacks \<Rightarrow> nat \<Rightarrow> nat \<Rightarrow> nat \<Rightarrow> ('f, 'w) sched \<Rightarrow> ('f, 'w) sched option" where
  "call_done callback done_fn data p s =
     (if done_fn = 0 then None
      else do {
        c \<leftarrow> call_get p s;
        (h, world) \<leftarrow> callback done_fn c data (s_heap s) (s_world s);
        Some (s\<lparr>s_heap := h, s_world := world\<rparr>) })"

definition call_finish :: "wirecall_allocator \<Rightarrow> 'w callbacks \<Rightarrow> nat \<Rightarrow> ('f, 'w) sched \<Rightarrow> ('f, 'w) sched option" where
  "call_finish g callback p s = do {
     c \<leftarrow> call_get p s;
     s \<leftarrow> (if cl_done c \<noteq> 0 then call_done callback (cl_done c) (cl_done_data c) p s else Some s);
     call_free g p s }"

section \<open>The interface\<close>

text \<open>
  Initialisation; \<open>pages_alloc\<close> is the page allocator of the operating system.  The result is the
  address of the scheduler and its contents, or an error.
\<close>

definition wirecall_scheduler_init ::
  "wirecall_allocator \<Rightarrow> (nat \<Rightarrow> nat) \<Rightarrow> bool \<Rightarrow> heap \<Rightarrow> (int \<times> (nat \<times> wirecall_scheduler) option \<times> heap) option" where
  "wirecall_scheduler_init g pages_alloc out h =
     (if \<not> out then Some (-1, None, h)
      else do {
        (p, h) \<leftarrow> wirecall_mem_calloc g 1 sizeof_scheduler h;
        if p = 0 then Some (-1, None, h)
        else let (rc, arena) = wirecall_fixed_arena_init pages_alloc sizeof_call WIRECALL_CALL_ARENA_CAPACITY
             in if rc \<noteq> 0 then do { h \<leftarrow> wirecall_mem_free g p h; Some (-1, None, h) }
                else Some (0, Some (p, \<lparr>sc_head = 0, sc_tail = 0, sc_call_arena = arena\<rparr>), h) })"

partial_function (option) destroy_loop :: "wirecall_allocator \<Rightarrow> ('f, 'w) sched \<Rightarrow> ('f, 'w) sched option" where
  "destroy_loop g s = do {
     (p, s) \<leftarrow> dequeue s;
     if p \<noteq> 0 then do { s \<leftarrow> call_free g p s; destroy_loop g s } else Some s }"

text \<open>The second component of the result is the region of the arena that is given back.\<close>

definition wirecall_scheduler_destroy ::
  "wirecall_allocator \<Rightarrow> nat \<Rightarrow> ('f, 'w) sched \<Rightarrow> (('f, 'w) sched \<times> (nat \<times> nat) option) option" where
  "wirecall_scheduler_destroy g scheduler s =
     (if scheduler = 0 then Some (s, None)
      else do {
        s \<leftarrow> destroy_loop g s;
        let (arena, region) = wirecall_fixed_arena_destroy (sc_call_arena (s_scheduler s));
        h \<leftarrow> wirecall_mem_free g scheduler (s_heap s);
        Some (s\<lparr>s_heap := h, s_scheduler := (s_scheduler s)\<lparr>sc_call_arena := arena\<rparr>\<rparr>, region) })"

text \<open>A call that cannot be run is completed with an error at once.\<close>

definition submit_reject ::
  "wirecall_allocator \<Rightarrow> 'w callbacks \<Rightarrow> string \<Rightarrow> nat \<Rightarrow> nat \<Rightarrow> nat \<Rightarrow> ('f, 'w) sched \<Rightarrow> ('f, 'w) sched option" where
  "submit_reject g callback message done_fn done_data p s = do {
     s \<leftarrow> call_upd p (\<lambda>c. c\<lparr>cl_error := error_text message, cl_result := -1, cl_completed := True\<rparr>) s;
     s \<leftarrow> call_done callback done_fn done_data p s;
     call_free g p s }"

text \<open>The part of \<open>wirecall_scheduler_submit\<close> after the payload has been copied.\<close>

definition submit_decoded ::
  "platform \<Rightarrow> wirecall_allocator \<Rightarrow> 'w callbacks \<Rightarrow> nat \<Rightarrow> nat \<Rightarrow> nat \<Rightarrow> ('f, 'w) sched \<Rightarrow> (int \<times> ('f, 'w) sched) option" where
  "submit_decoded pf g callback done_fn done_data p s = do {
     c \<leftarrow> call_get p s;
     bytes \<leftarrow> (if cl_payload c = 0 then Some None
               else do { bs \<leftarrow> hp_read (cl_payload c) 0 (cl_payload_len c) (s_heap s); Some (Some bs) });
     (rc, args, argc, h) \<leftarrow> wirecall_payload_decode g bytes (cl_payload_len c) (Some (cl_args c)) (Some (cl_argc c)) (s_heap s);
     s \<leftarrow> call_upd p (\<lambda>c. c\<lparr>cl_args := the args, cl_argc := the argc\<rparr>) (s\<lparr>s_heap := h\<rparr>);
     if rc \<noteq> 0 then do { s \<leftarrow> submit_reject g callback ''malformed payload'' done_fn done_data p s; Some (0, s) }
     else do {
       let desc = (mco_desc_init (pf_sizeof_context pf) CALL_ENTRY 0)\<lparr>md_user_data := p\<rparr>;
       (res, co, t) \<leftarrow> mco_create (pf_sizeof_context pf) (pf_makectx pf) (pf_pages pf (s_thread s)) (Some 0) (Some desc) (s_thread s);
       s \<leftarrow> call_upd p (\<lambda>c. c\<lparr>cl_co := the co\<rparr>) (s\<lparr>s_thread := t, s_frames := (s_frames s)(the co := None)\<rparr>);
       if res \<noteq> MCO_SUCCESS then do {
         s \<leftarrow> submit_reject g callback (''coroutine create failed: '' @ mco_result_description res) done_fn done_data p s;
         Some (0, s) }
       else do {
         (rc, s) \<leftarrow> enqueue p s;
         if rc \<noteq> 0 then do { s \<leftarrow> call_free g p s; Some (-1, s) } else Some (0, s) } } }"

definition wirecall_scheduler_submit ::
  "platform \<Rightarrow> wirecall_allocator \<Rightarrow> 'w callbacks \<Rightarrow> nat \<Rightarrow> u64 \<Rightarrow> u64 \<Rightarrow> nat \<Rightarrow> nat \<Rightarrow> u8 list option \<Rightarrow> nat \<Rightarrow> nat \<Rightarrow> nat \<Rightarrow>
     ('f, 'w) sched \<Rightarrow> (int \<times> ('f, 'w) sched) option" where
  "wirecall_scheduler_submit pf g callback scheduler call_id proc_id handler handler_data payload payload_len done_fn done_data s =
     (if scheduler = 0 \<or> handler = 0 \<or> payload = None \<and> payload_len > 0 then Some (-1, s)
      else do {
        let (p, arena, m) = wirecall_fixed_arena_alloc (sc_call_arena (s_scheduler s), s_words s);
        let s = s\<lparr>s_scheduler := (s_scheduler s)\<lparr>sc_call_arena := arena\<rparr>, s_words := m\<rparr>;
        if p = 0 then Some (-1, s)
        else do {
          let c = zero_call\<lparr>cl_ctx := \<lparr>cx_call_id = call_id, cx_proc_id = proc_id, cx_server = 0\<rparr>, cl_handler := handler,
                    cl_handler_data := handler_data, cl_payload_len := payload_len, cl_done := done_fn,
                    cl_done_data := done_data, cl_response := the (wirecall_writer_init (Some zero_writer))\<rparr>;
          let s = s\<lparr>s_calls := (s_calls s)(p := Some c)\<rparr>;
          if payload_len > 0 then do {
            (q, h) \<leftarrow> wirecall_mem_alloc g payload_len (s_heap s);
            s \<leftarrow> call_upd p (\<lambda>c. c\<lparr>cl_payload := q\<rparr>) (s\<lparr>s_heap := h\<rparr>);
            if q = 0 then do { s \<leftarrow> call_free g p s; Some (-1, s) }
            else do {
              bs \<leftarrow> (if payload_len \<le> length (the payload) then Some (take payload_len (the payload)) else None);
              h \<leftarrow> hp_write q 0 bs (s_heap s);
              submit_decoded pf g callback done_fn done_data p (s\<lparr>s_heap := h\<rparr>) } }
          else submit_decoded pf g callback done_fn done_data p s } })"

text \<open>One iteration of the loop of \<open>wirecall_scheduler_run_ready\<close> for the call \<open>p\<close> that has been dequeued.\<close>

definition ready_step ::
  "platform \<Rightarrow> wirecall_allocator \<Rightarrow> ('f, 'w) handlers \<Rightarrow> 'w callbacks \<Rightarrow> nat \<Rightarrow> ('f, 'w) sched \<Rightarrow> ('f, 'w) sched option" where
  "ready_step pf g handler callback p s = do {
     (_, s) \<leftarrow> call_resume pf handler p s;
     c \<leftarrow> call_get p s;
     again \<leftarrow> (if \<not> cl_completed c then do { status \<leftarrow> mco_status (cl_co c) (s_thread s); Some (status = MCO_SUSPENDED) }
               else Some False);
     if again then do {
       (rc, s) \<leftarrow> enqueue p s;
       if rc = 0 then Some s
       else do {
         s \<leftarrow> call_upd p (\<lambda>c. c\<lparr>cl_error := error_text ''scheduler enqueue failed'', cl_result := -1, cl_completed := True\<rparr>) s;
         call_finish g callback p s } }
     else call_finish g callback p s }"

partial_function (option) run_ready_loop ::
  "platform \<Rightarrow> wirecall_allocator \<Rightarrow> ('f, 'w) handlers \<Rightarrow> 'w callbacks \<Rightarrow> ('f, 'w) sched \<Rightarrow> ('f, 'w) sched option" where
  "run_ready_loop pf g handler callback s = do {
     (p, s) \<leftarrow> dequeue s;
     if p \<noteq> 0 then do { s \<leftarrow> ready_step pf g handler callback p s; run_ready_loop pf g handler callback s }
     else Some s }"

definition wirecall_scheduler_run_ready ::
  "platform \<Rightarrow> wirecall_allocator \<Rightarrow> ('f, 'w) handlers \<Rightarrow> 'w callbacks \<Rightarrow> nat \<Rightarrow> ('f, 'w) sched \<Rightarrow> ('f, 'w) sched option" where
  "wirecall_scheduler_run_ready pf g handler callback scheduler s =
     (if scheduler = 0 then Some s else run_ready_loop pf g handler callback s)"

section \<open>What a callback can ask\<close>

definition wirecall_call_result :: "wirecall_call option \<Rightarrow> int" where
  "wirecall_call_result call = (case call of Some c \<Rightarrow> cl_result c | None \<Rightarrow> -1)"

definition wirecall_call_response :: "wirecall_call option \<Rightarrow> wirecall_writer option" where
  "wirecall_call_response call = (case call of Some c \<Rightarrow> Some (cl_response c) | None \<Rightarrow> None)"

definition wirecall_call_error :: "wirecall_call option \<Rightarrow> string" where
  "wirecall_call_error call =
     (case call of Some c \<Rightarrow> if cl_error c \<noteq> '''' then cl_error c else ''procedure failed'' | None \<Rightarrow> ''procedure failed'')"

definition wirecall_call_id :: "wirecall_call option \<Rightarrow> u64" where
  "wirecall_call_id call = (case call of Some c \<Rightarrow> cx_call_id (cl_ctx c) | None \<Rightarrow> 0)"

definition wirecall_call_proc_id :: "wirecall_call option \<Rightarrow> u64" where
  "wirecall_call_proc_id call = (case call of Some c \<Rightarrow> cx_proc_id (cl_ctx c) | None \<Rightarrow> 0)"

definition wirecall_ctx_call_id :: "wirecall_ctx option \<Rightarrow> u64" where
  "wirecall_ctx_call_id ctx = (case ctx of Some c \<Rightarrow> cx_call_id c | None \<Rightarrow> 0)"

definition wirecall_ctx_proc_id :: "wirecall_ctx option \<Rightarrow> u64" where
  "wirecall_ctx_proc_id ctx = (case ctx of Some c \<Rightarrow> cx_proc_id c | None \<Rightarrow> 0)"

end
