(* ===== verification/Scheduler_Inv.thy ===== *)
theory Scheduler_Inv
  imports Scheduler
begin

text \<open>
  The ready list of the scheduler is a queue; what a call owns, and that freeing the call gives
  exactly this back; and the invariant of the scheduler, which queue operations keep.
\<close>

section \<open>The ready list is a queue\<close>

text \<open>
  Operations on a queue, what they return on the model of a component with the operations \<open>enq\<close>
  and \<open>deq\<close>, and what they return on a plain list.  An element may be added when it is live and
  not waiting already.
\<close>

datatype queue_op = Enqueue nat | Dequeue

fun run_queue :: "(nat \<Rightarrow> 's \<Rightarrow> (int \<times> 's) option) \<Rightarrow> ('s \<Rightarrow> (nat \<times> 's) option) \<Rightarrow> queue_op list \<Rightarrow> 's \<Rightarrow> (nat list \<times> 's) option" where
  "run_queue enq deq [] s = Some ([], s)"
| "run_queue enq deq (Enqueue p # ops) s = do { (rc, s) \<leftarrow> enq p s; if rc = 0 then run_queue enq deq ops s else None }"
| "run_queue enq deq (Dequeue # ops) s = do { (p, s) \<leftarrow> deq s; (ps, s) \<leftarrow> run_queue enq deq ops s; Some (p # ps, s) }"

fun queue_spec :: "(nat \<Rightarrow> bool) \<Rightarrow> queue_op list \<Rightarrow> nat list \<Rightarrow> (nat list \<times> nat list) option" where
  "queue_spec alive [] Q = Some ([], Q)"
| "queue_spec alive (Enqueue p # ops) Q = (if alive p \<and> p \<notin> set Q then queue_spec alive ops (Q @ [p]) else None)"
| "queue_spec alive (Dequeue # ops) Q =
     (case queue_spec alive ops (tl Q) of None \<Rightarrow> None | Some (ps, Q') \<Rightarrow> Some ((if Q = [] then 0 else hd Q) # ps, Q'))"

text \<open>
  The interface of a queue whose elements are linked through a store: \<open>inv s Q\<close> says that \<open>Q\<close> is
  waiting, \<open>same s s'\<close> that the states differ in nothing but the links.
\<close>

locale fifo =
  fixes enq :: "nat \<Rightarrow> 's \<Rightarrow> (int \<times> 's) option" and deq :: "'s \<Rightarrow> (nat \<times> 's) option"
    and alive :: "'s \<Rightarrow> nat \<Rightarrow> bool" and inv :: "'s \<Rightarrow> nat list \<Rightarrow> bool" and same :: "'s \<Rightarrow> 's \<Rightarrow> bool"
  assumes enq_law: "inv s Q \<Longrightarrow> alive s p \<Longrightarrow> p \<notin> set Q \<Longrightarrow> \<exists>s'. enq p s = Some (0, s') \<and> inv s' (Q @ [p]) \<and> same s s'"
    and deq_empty: "inv s [] \<Longrightarrow> deq s = Some (0, s)"
    and deq_law: "inv s (p # Q) \<Longrightarrow> \<exists>s'. deq s = Some (p, s') \<and> inv s' Q \<and> same s s'"
    and same_refl: "same s s"
    and same_trans: "same s s1 \<Longrightarrow> same s1 s2 \<Longrightarrow> same s s2"
    and same_alive: "same s s1 \<Longrightarrow> alive s1 = alive s"
begin

lemma deq_hd: "inv s Q \<Longrightarrow> \<exists>s'. deq s = Some (if Q = [] then 0 else hd Q, s') \<and> inv s' (tl Q) \<and> same s s'"
  using deq_empty deq_law same_refl by (cases Q) auto

text \<open>Every sequence of operations returns what it returns on a list.\<close>

lemma run_queue_refines:
  assumes "inv s Q" "queue_spec (alive s) ops Q = Some (ps, Q')"
  shows "\<exists>s'. run_queue enq deq ops s = Some (ps, s') \<and> inv s' Q' \<and> same s s'"
  using assms
proof (induction ops arbitrary: s Q ps)
  case Nil
  then show ?case using same_refl by auto
next
  case (Cons a ops)
  show ?case
  proof (cases a)
    case (Enqueue p)
    then obtain s1 where s1: "enq p s = Some (0, s1)" "inv s1 (Q @ [p])" "same s s1"
      using enq_law [of s Q p] Cons.prems by (auto split: if_splits)
    then have "queue_spec (alive s1) ops (Q @ [p]) = Some (ps, Q')"
      using Cons.prems(2) Enqueue same_alive [OF s1(3)] by (auto split: if_splits)
    then obtain s2 where "run_queue enq deq ops s1 = Some (ps, s2)" "inv s2 Q'" "same s1 s2"
      using Cons.IH [OF s1(2)] by blast
    then show ?thesis using s1 same_trans Enqueue by auto
  next
    case Dequeue
    obtain s1 where s1: "deq s = Some (if Q = [] then 0 else hd Q, s1)" "inv s1 (tl Q)" "same s s1"
      using deq_hd Cons.prems(1) by blast
    obtain qs where qs: "queue_spec (alive s1) ops (tl Q) = Some (qs, Q')" "ps = (if Q = [] then 0 else hd Q) # qs"
      using Cons.prems(2) Dequeue same_alive [OF s1(3)] by (auto split: option.splits prod.splits)
    obtain s2 where "run_queue enq deq ops s1 = Some (qs, s2)" "inv s2 Q'" "same s1 s2"
      using Cons.IH [OF s1(2) qs(1)] by blast
    then show ?thesis using s1 same_trans qs(2) Dequeue by auto
  qed
qed

end

fun waiting :: "(nat \<Rightarrow> wirecall_call option) \<Rightarrow> nat \<Rightarrow> nat list \<Rightarrow> bool" where
  "waiting calls p [] \<longleftrightarrow> p = 0"
| "waiting calls p (q # Q) \<longleftrightarrow> p = q \<and> q \<noteq> 0 \<and> (\<exists>c. calls q = Some c \<and> waiting calls (cl_next_ready c) Q)"

definition queue_inv :: "('f, 'w) sched \<Rightarrow> nat list \<Rightarrow> bool" where
  "queue_inv s Q \<longleftrightarrow> waiting (s_calls s) (sc_head (s_scheduler s)) Q \<and> distinct Q \<and>
     sc_tail (s_scheduler s) = (if Q = [] then 0 else last Q)"

text \<open>Only the links and the ends of the queue differ.\<close>

definition unlinked :: "wirecall_call option \<Rightarrow> wirecall_call option" where
  "unlinked c = map_option (\<lambda>c. c\<lparr>cl_next_ready := 0\<rparr>) c"

definition same_calls :: "('f, 'w) sched \<Rightarrow> ('f, 'w) sched \<Rightarrow> bool" where
  "same_calls s s' \<longleftrightarrow> (\<forall>p. unlinked (s_calls s' p) = unlinked (s_calls s p)) \<and>
     sc_call_arena (s_scheduler s') = sc_call_arena (s_scheduler s) \<and> s_words s' = s_words s \<and> s_thread s' = s_thread s \<and>
     s_frames s' = s_frames s \<and> s_heap s' = s_heap s \<and> s_world s' = s_world s"

lemma waiting_cong:
  "(\<And>q. q \<in> set Q \<Longrightarrow> map_option cl_next_ready (calls' q) = map_option cl_next_ready (calls q)) \<Longrightarrow>
   waiting calls' p Q = waiting calls p Q"
proof (induction Q arbitrary: p)
  case (Cons q Q)
  have "map_option cl_next_ready (calls' q) = map_option cl_next_ready (calls q)" using Cons.prems by simp
  then show ?case using Cons by (cases "calls q"; cases "calls' q") auto
qed simp

lemma waiting_live: "waiting calls p Q \<Longrightarrow> q \<in> set Q \<Longrightarrow> q \<noteq> 0 \<and> calls q \<noteq> None"
  by (induction calls p Q rule: waiting.induct) auto

lemma waiting_upd: "q \<notin> set Q \<Longrightarrow> waiting (calls(q := v)) p Q = waiting calls p Q"
  by (rule waiting_cong) auto

lemma waiting_snoc:
  assumes "waiting calls p Q" "Q \<noteq> []" "distinct Q" "q \<notin> set Q" "q \<noteq> 0" "calls (last Q) = Some l" "calls q = Some c"
    "cl_next_ready c = 0"
  shows "waiting (calls(last Q := Some (l\<lparr>cl_next_ready := q\<rparr>))) p (Q @ [q])"
  using assms
proof (induction Q arbitrary: p)
  case (Cons a Q)
  show ?case
  proof (cases "Q = []")
    case False
    then have "a \<noteq> last Q" using Cons.prems(3) last_in_set [of Q] by auto
    then show ?thesis using Cons False by auto
  qed (use Cons.prems in auto)
qed simp

lemma unlinked_upd [simp]:
  "unlinked (Some (c\<lparr>cl_next_ready := q\<rparr>)) = unlinked (Some c)"
  by (simp add: unlinked_def)

lemma enqueue_queue:
  assumes inv: "queue_inv s Q" and p: "s_calls s p = Some c" "p \<noteq> 0" "p \<notin> set Q"
  shows "\<exists>s'. enqueue p s = Some (0, s') \<and> queue_inv s' (Q @ [p]) \<and> same_calls s s'"
proof -
  let ?c = "c\<lparr>cl_next_ready := 0\<rparr>"
  let ?calls = "(s_calls s)(p := Some ?c)"
  have w: "waiting ?calls (sc_head (s_scheduler s)) Q" "distinct Q"
    using inv p(3) by (simp_all add: queue_inv_def waiting_upd)
  show ?thesis
  proof (cases "Q = []")
    case True
    then show ?thesis using inv p
      by (auto simp: enqueue_def call_upd_def queue_inv_def same_calls_def)
  next
    case False
    let ?l = "last Q"
    have l: "?l \<in> set Q" "?l \<noteq> 0" "?l \<noteq> p" "sc_tail (s_scheduler s) = ?l"
      using False waiting_live [OF w(1)] p(3) inv by (auto simp: queue_inv_def dest: last_in_set)
    obtain d where d: "s_calls s ?l = Some d"
      using waiting_live [OF w(1) l(1)] l(3) by auto
    have "waiting (?calls(?l := Some (d\<lparr>cl_next_ready := p\<rparr>))) (sc_head (s_scheduler s)) (Q @ [p])"
      using False p d l(3) by (intro waiting_snoc [OF w(1) _ w(2)]) auto
    then show ?thesis using False p d l w(2)
      by (auto simp: enqueue_def call_upd_def queue_inv_def same_calls_def)
  qed
qed

lemma dequeue_queue:
  assumes inv: "queue_inv s (p # Q)"
  shows "\<exists>s'. dequeue s = Some (p, s') \<and> queue_inv s' Q \<and> same_calls s s'"
proof -
  obtain c where c: "s_calls s p = Some c" "waiting (s_calls s) (cl_next_ready c) Q" "p \<noteq> 0" "p \<notin> set Q" "distinct Q"
    "sc_head (s_scheduler s) = p"
    using inv by (auto simp: queue_inv_def)
  have w: "waiting ((s_calls s)(p := Some (c\<lparr>cl_next_ready := 0\<rparr>))) (cl_next_ready c) Q"
    using c(2,4) by (simp add: waiting_upd)
  have z: "cl_next_ready c = 0 \<longleftrightarrow> Q = []"
    using c(2) waiting_live [of "s_calls s"] by (cases Q) auto
  have t: "sc_tail (s_scheduler s) = (if Q = [] then p else last Q)" using inv by (auto simp: queue_inv_def)
  show ?thesis
    using c w z t by (cases "Q = []") (auto simp: dequeue_def call_get_def call_upd_def queue_inv_def same_calls_def Let_def)
qed

lemma dequeue_empty: "queue_inv s [] \<Longrightarrow> dequeue s = Some (0, s)"
  by (simp add: queue_inv_def dequeue_def)

lemma same_calls_live: "same_calls s s' \<Longrightarrow> s_calls s' p = None \<longleftrightarrow> s_calls s p = None"
  by (simp add: same_calls_def unlinked_def) (metis map_option_is_None)

lemma same_calls_ready:
  "same_calls s s' \<Longrightarrow> (\<lambda>p. p \<noteq> 0 \<and> s_calls s' p \<noteq> None) = (\<lambda>p. p \<noteq> 0 \<and> s_calls s p \<noteq> None)"
  using same_calls_live [of s s'] by (intro ext) simp

lemma same_calls_trans: "same_calls s s1 \<Longrightarrow> same_calls s1 s2 \<Longrightarrow> same_calls s s2"
  by (simp add: same_calls_def)

lemma ready_fifo: "fifo enqueue dequeue (\<lambda>s p. p \<noteq> 0 \<and> s_calls s p \<noteq> None) queue_inv same_calls"
proof (rule fifo.intro)
  fix s :: "('f, 'w) sched" and Q p
  assume inv: "queue_inv s Q" and "p \<noteq> 0 \<and> s_calls s p \<noteq> None" "p \<notin> set Q"
  then show "\<exists>s'. enqueue p s = Some (0, s') \<and> queue_inv s' (Q @ [p]) \<and> same_calls s s'"
    using enqueue_queue [OF inv, of p] by blast
next
  fix s :: "('f, 'w) sched"
  show "same_calls s s" by (simp add: same_calls_def)
qed (rule dequeue_empty dequeue_queue same_calls_trans same_calls_ready; assumption)+

interpretation ready: fifo enqueue dequeue "\<lambda>s p. p \<noteq> 0 \<and> s_calls s p \<noteq> None" queue_inv same_calls
  by (rule ready_fifo)

text \<open>
  C26: The ready list of the scheduler is a first-in first-out queue.  Every sequence of calls of
  \<open>enqueue\<close> and \<open>dequeue\<close>, in which no call is put in that is waiting already, dequeues the calls
  in the order a list would, with NULL where that list is empty, and changes nothing in the
  calls but their links.
\<close>

theorem ready_list_is_fifo:
  assumes "queue_inv s Q" "queue_spec (\<lambda>p. p \<noteq> 0 \<and> s_calls s p \<noteq> None) ops Q = Some (ps, Q')"
  shows "\<exists>s'. run_queue enqueue dequeue ops s = Some (ps, s') \<and> queue_inv s' Q' \<and> same_calls s s'"
  using assms by (rule ready.run_queue_refines)

definition queue_example :: "(unit, unit) sched" where
  "queue_example = \<lparr>s_scheduler = \<lparr>sc_head = 0, sc_tail = 0, sc_call_arena = snd (wirecall_fixed_arena_init (\<lambda>_. 4096) sizeof_call 4)\<rparr>,
     s_words = (\<lambda>_. 0), s_calls = (\<lambda>p. if p = 4096 \<or> p = 4416 \<or> p = 4736 then Some zero_call else None),
     s_thread = no_coroutines, s_frames = (\<lambda>_. None), s_heap = heap0, s_world = ()\<rparr>"

theorem ready_list_is_fifo_witness:
  "\<exists>s'. run_queue enqueue dequeue [Enqueue 4416, Enqueue 4096, Dequeue, Enqueue 4736, Dequeue, Dequeue, Dequeue, Enqueue 4416]
      queue_example = Some ([4416, 4096, 4736, 0], s') \<and> queue_inv s' [4416] \<and> same_calls queue_example s'"
  by (rule ready_list_is_fifo [where Q = "[]"]) (simp_all add: queue_example_def queue_inv_def)

section \<open>What a call owns\<close>

definition args_blocks :: "wirecall_value list \<Rightarrow> wirecall_call \<Rightarrow> nat set" where
  "args_blocks vals c = set (array_owns vals) \<union> (if fst (cl_args c) = 0 then {} else {fst (cl_args c)})"

definition payload_block :: "wirecall_call \<Rightarrow> nat set" where
  "payload_block c = (if cl_payload c = 0 then {} else {cl_payload c})"

text \<open>The blocks \<open>X\<close> are the decoded arguments, the copy of the payload and the response of the call.\<close>

definition call_res :: "wirecall_call \<Rightarrow> nat set \<Rightarrow> heap \<Rightarrow> bool" where
  "call_res c X h \<longleftrightarrow> writer_inv (cl_response c) h \<and> X \<subseteq> live h \<and>
     (\<exists>vals cap pvs. X = args_blocks vals c \<union> (payload_block c \<union> writer_owned (cl_response c)) \<and>
       args_blocks vals c \<inter> (payload_block c \<union> writer_owned (cl_response c)) = {} \<and>
       payload_block c \<inter> writer_owned (cl_response c) = {} \<and>
       decoded (heap_minus (args_blocks vals c) h) (fst (cl_args c)) (snd (cl_args c)) (cl_argc c) cap vals pvs h)"

lemma call_res_keep:
  assumes c: "call_res c X h" and keep: "heap_keep X h h'" and ok: "heap_ok h'"
  shows "call_res c X h'"
proof -
  obtain vals cap pvs where v: "X = args_blocks vals c \<union> (payload_block c \<union> writer_owned (cl_response c))"
    "args_blocks vals c \<inter> (payload_block c \<union> writer_owned (cl_response c)) = {}" "payload_block c \<inter> writer_owned (cl_response c) = {}"
    "decoded (heap_minus (args_blocks vals c) h) (fst (cl_args c)) (snd (cl_args c)) (cl_argc c) cap vals pvs h"
    and w: "writer_inv (cl_response c) h" "X \<subseteq> live h"
    using c by (auto simp: call_res_def)
  have "heap_keep (args_blocks vals c) h h'" "heap_keep (writer_owned (cl_response c)) h h'"
    using keep v(1) by (auto intro: heap_keep_mono)
  then have "decoded (heap_minus (args_blocks vals c) h') (fst (cl_args c)) (snd (cl_args c)) (cl_argc c) cap vals pvs h'"
    "writer_inv (cl_response c) h'"
    using decoded_minus_keep [OF v(4) _ _ ok] writer_inv_keep [OF w(1) _ ok] by (auto simp: args_blocks_def)
  moreover have "X \<subseteq> live h'" using w(2) keep by (auto simp: heap_keep_def live_def subset_iff)
  ultimately show ?thesis using v(1-3) unfolding call_res_def by blast
qed

lemma call_res_sel:
  assumes "cl_args c' = cl_args c" "cl_argc c' = cl_argc c" "cl_payload c' = cl_payload c" "cl_response c' = cl_response c"
  shows "call_res c' X h = call_res c X h"
  using assms by (simp add: call_res_def args_blocks_def payload_block_def)

text \<open>A handler has written to the response.\<close>

lemma call_res_writer:
  assumes c: "call_res c X h" and w: "writer_inv r h'" "writer_frame (cl_response c) h r h'"
  defines "X' \<equiv> X - writer_owned (cl_response c) \<union> writer_owned r"
  shows "call_res (c\<lparr>cl_response := r\<rparr>) X' h'" "heap_keep (live h - X) h h'" "live h' = live h - X \<union> X'" "(X' - X) \<inter> live h = {}"
proof -
  let ?W = "writer_owned (cl_response c)" and ?W' = "writer_owned r"
  obtain vals cap pvs where v: "X = args_blocks vals c \<union> (payload_block c \<union> ?W)"
    "args_blocks vals c \<inter> (payload_block c \<union> ?W) = {}" "payload_block c \<inter> ?W = {}"
    "decoded (heap_minus (args_blocks vals c) h) (fst (cl_args c)) (snd (cl_args c)) (cl_argc c) cap vals pvs h"
    and w0: "writer_inv (cl_response c) h" "X \<subseteq> live h"
    using c by (auto simp: call_res_def)
  have fr: "heap_keep (live h - ?W) h h'" "live h' = live h - ?W \<union> ?W'" "w_data r = w_data (cl_response c) \<or> w_data r \<notin> live h"
    using w(2) by (auto simp: writer_frame_def)
  then have W': "?W' \<inter> live h \<subseteq> ?W" by (auto simp: writer_owned_def split: if_splits)
  have A: "args_blocks vals c \<subseteq> live h - ?W" "payload_block c \<subseteq> live h - ?W"
    using v w0(2) by auto
  have "heap_keep (args_blocks vals c) h h'" using fr(1) A(1) heap_keep_mono by blast
  then have d: "decoded (heap_minus (args_blocks vals c) h') (fst (cl_args c)) (snd (cl_args c)) (cl_argc c) cap vals pvs h'"
    using decoded_minus_keep [OF v(4)] w(1) by (auto simp: args_blocks_def writer_inv_def)
  have eq: "\<And>vals. args_blocks vals (c\<lparr>cl_response := r\<rparr>) = args_blocks vals c" "payload_block (c\<lparr>cl_response := r\<rparr>) = payload_block c"
    by (simp_all add: args_blocks_def payload_block_def)
  have X': "X' = args_blocks vals c \<union> (payload_block c \<union> ?W')"
    using v(1-3) by (auto simp: X'_def)
  moreover have "X' \<subseteq> live h'" using fr(2) A unfolding X' by blast
  moreover have "args_blocks vals c \<inter> (payload_block c \<union> ?W') = {}" "payload_block c \<inter> ?W' = {}"
    using v(2,3) A W' by auto
  ultimately show "call_res (c\<lparr>cl_response := r\<rparr>) X' h'"
    using w(1) d unfolding call_res_def eq by (intro conjI exI [of _ vals] exI [of _ cap] exI [of _ pvs]) simp_all
  show "heap_keep (live h - X) h h'" using fr(1) v(1) by (auto intro: heap_keep_mono)
  show "live h' = live h - X \<union> X'" "(X' - X) \<inter> live h = {}"
    using fr(2) W' w0(2) v(1) unfolding X'_def by auto
qed

context library_memory
begin

lemma free_block:
  assumes "heap_owns (P \<union> B) h0 h" "P \<inter> B = {}" "P = (if p = 0 then {} else {p})"
  shows "\<exists>h'. wirecall_mem_free g p h = Some h' \<and> heap_owns B h0 h' \<and> heap_keep (live h - P) h h'"
proof (cases "p = 0")
  case True
  then show ?thesis using assms free_null_law by auto
next
  case False
  then obtain h' where "wirecall_mem_free g p h = Some h'" "heap_owns (P \<union> B - {p}) h0 h'" "heap_keep (live h - {p}) h h'"
    using free_owned [OF assms(1), of p] assms(3) by auto
  moreover have "P \<union> B - {p} = B" using assms(2,3) False by auto
  ultimately show ?thesis using assms(3) False by auto
qed

lemma call_res_free:
  assumes c: "call_res c X h" and own: "heap_owns (X \<union> B) h0 h" "X \<inter> B = {}"
  shows "\<exists>h1 h2 h3. wirecall_values_free g (fst (cl_args c)) (snd (cl_args c)) h = Some h1 \<and>
    wirecall_writer_free g (Some (cl_response c)) h1 = Some (Some zero_writer, h2) \<and>
    wirecall_mem_free g (cl_payload c) h2 = Some h3 \<and> heap_owns B h0 h3 \<and> heap_keep (live h - X) h h3"
proof -
  obtain vals cap pvs where v: "X = args_blocks vals c \<union> (payload_block c \<union> writer_owned (cl_response c))"
    "args_blocks vals c \<inter> (payload_block c \<union> writer_owned (cl_response c)) = {}" "payload_block c \<inter> writer_owned (cl_response c) = {}"
    "decoded (heap_minus (args_blocks vals c) h) (fst (cl_args c)) (snd (cl_args c)) (cl_argc c) cap vals pvs h"
    using c by (auto simp: call_res_def)
  let ?A = "args_blocks vals c" and ?P = "payload_block c" and ?W = "writer_owned (cl_response c)"
  obtain h1 where h1: "wirecall_values_free g (fst (cl_args c)) (snd (cl_args c)) h = Some h1" "heap_owns {} (heap_minus ?A h) h1"
    using values_free_owns [OF v(4)] by blast
  have "heap_owns (?A \<union> (?W \<union> (?P \<union> B))) h0 h" "?A \<inter> (?W \<union> (?P \<union> B)) = {}"
    using own v(1,2) by (auto simp: Un_ac)
  then have 1: "heap_owns (?W \<union> (?P \<union> B)) h0 h1" "heap_keep (live h - ?A) h h1"
    using heap_owns_release [OF _ _ h1(2)] by blast+
  have "?W \<inter> (?P \<union> B) = {}" using own(2) v(1,3) by auto
  then obtain h2 where h2: "wirecall_mem_free g (w_data (cl_response c)) h1 = Some h2" "heap_owns (?P \<union> B) h0 h2"
    "heap_keep (live h1 - ?W) h1 h2"
    using free_block [OF 1(1), of "w_data (cl_response c)"] by (auto simp: writer_owned_def)
  have "?P \<inter> B = {}" using own(2) v(1) by auto
  then obtain h3 where h3: "wirecall_mem_free g (cl_payload c) h2 = Some h3" "heap_owns B h0 h3" "heap_keep (live h2 - ?P) h2 h3"
    using free_block [OF h2(2), of "cl_payload c"] by (auto simp: payload_block_def)
  have "live h - X \<subseteq> live h - ?A" "live h - X \<subseteq> live h1 - ?W" "live h - X \<subseteq> live h2 - ?P"
    using v(1) own 1(1) h2(2) by (auto simp: heap_owns_def)
  then have "heap_keep (live h - X) h h3"
    using 1(2) h2(3) h3(3) by (meson heap_keep_mono heap_keep_trans)
  then show ?thesis using h1(1) h2(1) h3(1,2) by (simp add: wirecall_writer_free_def)
qed

end


section \<open>What is relied on of handlers and callbacks\<close>

text \<open>
  \<open>wb w\<close> are the blocks that the world owns, \<open>seen w\<close> the calls whose completion it has been told of.
  A handler changes nothing but its response, and the world in other respects; when it yields,
  its rank goes down.  A callback changes nothing but the world, and takes note of the call.
\<close>

definition handlers_ok ::
  "('w \<Rightarrow> nat set) \<Rightarrow> ('w \<Rightarrow> u64 list) \<Rightarrow> (nat \<Rightarrow> 'f option \<Rightarrow> nat) \<Rightarrow> ('f, 'w) handlers \<Rightarrow> bool" where
  "handlers_ok wb seen rank handler \<longleftrightarrow>
     (\<forall>f fr c h w X. f \<noteq> 0 \<longrightarrow> call_res c X h \<longrightarrow> (\<exists>out r h' w'. handler f fr c h w = Some (out, r, h', w') \<and>
        writer_inv r h' \<and> writer_frame (cl_response c) h r h' \<and> wb w' = wb w \<and> seen w' = seen w \<and>
        (\<forall>fr'. out = Inl fr' \<longrightarrow> rank f (Some fr') < rank f fr)))"

definition callbacks_ok :: "('w \<Rightarrow> nat set) \<Rightarrow> ('w \<Rightarrow> u64 list) \<Rightarrow> 'w callbacks \<Rightarrow> bool" where
  "callbacks_ok wb seen callback \<longleftrightarrow>
     (\<forall>d c data h w X. d \<noteq> 0 \<longrightarrow> call_res c X h \<longrightarrow> wb w \<subseteq> live h \<longrightarrow> X \<inter> wb w = {} \<longrightarrow>
        (\<exists>h' w'. callback d c data h w = Some (h', w') \<and> heap_ok h' \<and> heap_keep (live h - wb w) h h' \<and>
           live h' = live h - wb w \<union> wb w' \<and> (wb w' - wb w) \<inter> live h = {} \<and> seen w' = seen w @ [cx_call_id (cl_ctx c)]))"

text \<open>The pages for a new coroutine are not those of another one.\<close>

definition platform_ok :: "platform \<Rightarrow> bool" where
  "platform_ok pf \<longleftrightarrow> (\<forall>t. pf_pages pf t = 0 \<or> mt_cos t (pf_pages pf t) = None)"

section \<open>The invariant\<close>

definition call_inv :: "mco_thread \<Rightarrow> heap \<Rightarrow> nat set \<Rightarrow> nat \<Rightarrow> wirecall_call \<Rightarrow> bool" where
  "call_inv t h X p c \<longleftrightarrow> call_res c X h \<and> cl_handler c \<noteq> 0 \<and> cl_done c \<noteq> 0 \<and>
     (cl_co c = 0 \<or> (\<exists>k. mt_cos t (cl_co c) = Some k \<and> mc_user_data k = p \<and> mc_prev_co k = 0 \<and> mc_dealloc_cb k \<and>
        (mc_state k = MCO_SUSPENDED \<or> mc_state k = MCO_DEAD)))"

definition runnable :: "mco_thread \<Rightarrow> wirecall_call \<Rightarrow> bool" where
  "runnable t c \<longleftrightarrow> cl_co c \<noteq> 0 \<and> \<not> cl_completed c \<and> (\<exists>k. mt_cos t (cl_co c) = Some k \<and> mc_state k = MCO_SUSPENDED)"

text \<open>\<open>Q\<close> is waiting, and the call in slot \<open>p\<close> owns the blocks \<open>B p\<close>.\<close>

definition sched_inv :: "heap \<Rightarrow> ('w \<Rightarrow> nat set) \<Rightarrow> nat list \<Rightarrow> (nat \<Rightarrow> nat set) \<Rightarrow> ('f, 'w) sched \<Rightarrow> bool" where
  "sched_inv h0 wb Q B s \<longleftrightarrow> queue_inv s Q \<and>
     arena_inv (sc_call_arena (s_scheduler s), s_words s) (dom (s_calls s)) \<and> mt_current_co (s_thread s) = 0 \<and>
     heap_owns ((\<Union>p\<in>dom (s_calls s). B p) \<union> wb (s_world s)) h0 (s_heap s) \<and>
     (\<forall>p\<in>dom (s_calls s). \<forall>q\<in>dom (s_calls s). p \<noteq> q \<longrightarrow> B p \<inter> B q = {}) \<and>
     (\<forall>p\<in>dom (s_calls s). B p \<inter> wb (s_world s) = {}) \<and>
     (\<forall>p c. s_calls s p = Some c \<longrightarrow> call_inv (s_thread s) (s_heap s) (B p) p c) \<and>
     (\<forall>p c. s_calls s p = Some c \<longrightarrow> p \<in> set Q \<longrightarrow> runnable (s_thread s) c) \<and>
     (\<forall>co k. mt_cos (s_thread s) co = Some k \<longrightarrow> (\<exists>p c. s_calls s p = Some c \<and> cl_co c = co \<and> co \<noteq> 0))"

lemma unlinked_fields:
  assumes "unlinked (Some c') = unlinked (Some c)"
  shows "cl_co c' = cl_co c" "cl_ctx c' = cl_ctx c" "cl_handler c' = cl_handler c" "cl_payload c' = cl_payload c"
    "cl_args c' = cl_args c" "cl_argc c' = cl_argc c" "cl_response c' = cl_response c" "cl_completed c' = cl_completed c"
    "cl_done c' = cl_done c"
proof -
  have e: "c'\<lparr>cl_next_ready := 0\<rparr> = c\<lparr>cl_next_ready := 0\<rparr>" using assms by (simp add: unlinked_def)
  show "cl_co c' = cl_co c" using arg_cong [OF e, of cl_co] by simp
  show "cl_ctx c' = cl_ctx c" using arg_cong [OF e, of cl_ctx] by simp
  show "cl_handler c' = cl_handler c" using arg_cong [OF e, of cl_handler] by simp
  show "cl_payload c' = cl_payload c" using arg_cong [OF e, of cl_payload] by simp
  show "cl_args c' = cl_args c" using arg_cong [OF e, of cl_args] by simp
  show "cl_argc c' = cl_argc c" using arg_cong [OF e, of cl_argc] by simp
  show "cl_response c' = cl_response c" using arg_cong [OF e, of cl_response] by simp
  show "cl_completed c' = cl_completed c" using arg_cong [OF e, of cl_completed] by simp
  show "cl_done c' = cl_done c" using arg_cong [OF e, of cl_done] by simp
qed

lemma call_inv_unlinked:
  "unlinked (Some c') = unlinked (Some c) \<Longrightarrow> call_inv t h X p c' = call_inv t h X p c \<and> runnable t c' = runnable t c \<and>
   cl_co c' = cl_co c \<and> cl_handler c' = cl_handler c \<and> cl_ctx c' = cl_ctx c"
  using unlinked_fields [of c' c] call_res_sel [of c' c X h] by (simp add: call_inv_def runnable_def)

lemma same_calls_unlinked:
  assumes "same_calls s s'" "s_calls s' p = Some c'"
  obtains c where "s_calls s p = Some c" "unlinked (Some c') = unlinked (Some c)"
proof -
  have "unlinked (s_calls s' p) = unlinked (s_calls s p)" using assms(1) by (simp add: same_calls_def)
  then have "unlinked (s_calls s p) = unlinked (Some c')" using assms(2) by simp
  then show ?thesis using that by (cases "s_calls s p") (auto simp: unlinked_def)
qed

lemma same_calls_dom: "same_calls s s' \<Longrightarrow> dom (s_calls s') = dom (s_calls s)"
  using same_calls_live [of s s'] by (auto simp: dom_def)

lemma same_calls_sym: "same_calls s s' \<Longrightarrow> same_calls s' s"
  by (simp add: same_calls_def)

lemma sched_invD:
  assumes "sched_inv h0 wb Q B s"
  shows "queue_inv s Q" "arena_inv (sc_call_arena (s_scheduler s), s_words s) (dom (s_calls s))" "mt_current_co (s_thread s) = 0"
    "heap_owns ((\<Union>p\<in>dom (s_calls s). B p) \<union> wb (s_world s)) h0 (s_heap s)"
    "\<forall>p\<in>dom (s_calls s). \<forall>q\<in>dom (s_calls s). p \<noteq> q \<longrightarrow> B p \<inter> B q = {}" "\<forall>p\<in>dom (s_calls s). B p \<inter> wb (s_world s) = {}"
    "\<And>p c. s_calls s p = Some c \<Longrightarrow> call_inv (s_thread s) (s_heap s) (B p) p c"
    "\<And>p c. s_calls s p = Some c \<Longrightarrow> p \<in> set Q \<Longrightarrow> runnable (s_thread s) c"
    "\<And>co k. mt_cos (s_thread s) co = Some k \<Longrightarrow> \<exists>p c. s_calls s p = Some c \<and> cl_co c = co \<and> co \<noteq> 0"
proof -
  note i = assms [unfolded sched_inv_def]
  show "queue_inv s Q" "arena_inv (sc_call_arena (s_scheduler s), s_words s) (dom (s_calls s))" "mt_current_co (s_thread s) = 0"
    "heap_owns ((\<Union>p\<in>dom (s_calls s). B p) \<union> wb (s_world s)) h0 (s_heap s)"
    "\<forall>p\<in>dom (s_calls s). \<forall>q\<in>dom (s_calls s). p \<noteq> q \<longrightarrow> B p \<inter> B q = {}" "\<forall>p\<in>dom (s_calls s). B p \<inter> wb (s_world s) = {}"
    using i by blast+
  have "\<forall>p c. s_calls s p = Some c \<longrightarrow> call_inv (s_thread s) (s_heap s) (B p) p c" using i by (elim conjE) assumption
  then show "\<And>p c. s_calls s p = Some c \<Longrightarrow> call_inv (s_thread s) (s_heap s) (B p) p c" by simp
  have "\<forall>p c. s_calls s p = Some c \<longrightarrow> p \<in> set Q \<longrightarrow> runnable (s_thread s) c" using i by (elim conjE) assumption
  then show "\<And>p c. s_calls s p = Some c \<Longrightarrow> p \<in> set Q \<Longrightarrow> runnable (s_thread s) c" by simp
  have "\<forall>co k. mt_cos (s_thread s) co = Some k \<longrightarrow> (\<exists>p c. s_calls s p = Some c \<and> cl_co c = co \<and> co \<noteq> 0)" using i by (elim conjE) assumption
  then show "\<And>co k. mt_cos (s_thread s) co = Some k \<Longrightarrow> \<exists>p c. s_calls s p = Some c \<and> cl_co c = co \<and> co \<noteq> 0" by simp
qed

lemma sched_invI:
  assumes "queue_inv s Q" "arena_inv (sc_call_arena (s_scheduler s), s_words s) (dom (s_calls s))" "mt_current_co (s_thread s) = 0"
    "heap_owns ((\<Union>p\<in>dom (s_calls s). B p) \<union> wb (s_world s)) h0 (s_heap s)"
    "\<forall>p\<in>dom (s_calls s). \<forall>q\<in>dom (s_calls s). p \<noteq> q \<longrightarrow> B p \<inter> B q = {}" "\<forall>p\<in>dom (s_calls s). B p \<inter> wb (s_world s) = {}"
    "\<And>p c. s_calls s p = Some c \<Longrightarrow> call_inv (s_thread s) (s_heap s) (B p) p c"
    "\<And>p c. s_calls s p = Some c \<Longrightarrow> p \<in> set Q \<Longrightarrow> runnable (s_thread s) c"
    "\<And>co k. mt_cos (s_thread s) co = Some k \<Longrightarrow> \<exists>p c. s_calls s p = Some c \<and> cl_co c = co \<and> co \<noteq> 0"
  shows "sched_inv h0 wb Q B s"
  unfolding sched_inv_def using assms by (intro conjI allI impI) assumption+

text \<open>The queue may change as long as what waits can run.\<close>

lemma sched_inv_requeue:
  assumes inv: "sched_inv h0 wb Q B s" and same: "same_calls s s'" and q: "queue_inv s' Q'"
    and run: "\<And>p c. p \<in> set Q' \<Longrightarrow> s_calls s p = Some c \<Longrightarrow> runnable (s_thread s) c"
  shows "sched_inv h0 wb Q' B s'"
proof -
  have sel: "sc_call_arena (s_scheduler s') = sc_call_arena (s_scheduler s)" "s_words s' = s_words s" "s_thread s' = s_thread s"
    "s_heap s' = s_heap s" "s_world s' = s_world s" "dom (s_calls s') = dom (s_calls s)"
    using same same_calls_dom [OF same] by (simp_all add: same_calls_def)
  note d = sched_invD [OF inv]
  show ?thesis
  proof (rule sched_invI)
    fix p c'
    assume "s_calls s' p = Some c'"
    then obtain c where c: "s_calls s p = Some c" "unlinked (Some c') = unlinked (Some c)"
      using same_calls_unlinked [OF same] by blast
    show "call_inv (s_thread s') (s_heap s') (B p) p c'"
      using d(7) [OF c(1)] call_inv_unlinked [OF c(2)] sel by simp
    assume "p \<in> set Q'"
    then show "runnable (s_thread s') c'"
      using run [OF _ c(1)] call_inv_unlinked [OF c(2)] sel by simp
  next
    fix co k
    assume "mt_cos (s_thread s') co = Some k"
    then obtain p c where c: "s_calls s p = Some c" "cl_co c = co" "co \<noteq> 0" using d(9) [of co k] sel(3) by auto
    obtain c' where c': "s_calls s' p = Some c'" "unlinked (Some c) = unlinked (Some c')"
      using same_calls_unlinked [OF same_calls_sym [OF same] c(1)] by blast
    then show "\<exists>p c. s_calls s' p = Some c \<and> cl_co c = co \<and> co \<noteq> 0"
      using unlinked_fields(1) [OF c'(2)] c(2,3) by (intro exI [of _ p] exI [of _ c']) simp
  qed (use q d sel in simp_all)
qed


end
