(* ===== verification/Scheduler_Run.thy ===== *)
theory Scheduler_Run
  imports Scheduler_Inv "HOL-Library.Multiset"
begin

text \<open>
  Running the scheduler: what one resumption of a call does, that a call which has returned or failed is reported and freed, and
  that \<open>wirecall_scheduler_run_ready\<close> ends with every waiting call completed once.
\<close>

section \<open>Blocks that change hands\<close>

definition heap_swap :: "nat set \<Rightarrow> nat set \<Rightarrow> heap \<Rightarrow> heap \<Rightarrow> bool" where
  "heap_swap X X' h h' \<longleftrightarrow> heap_ok h' \<and> heap_keep (live h - X) h h' \<and> live h' = live h - X \<union> X' \<and> (X' - X) \<inter> live h = {}"

lemma heap_swap_refl: "heap_ok h \<Longrightarrow> X \<subseteq> live h \<Longrightarrow> heap_swap X X h h"
  by (auto simp: heap_swap_def heap_keep_def)

lemma heap_swap_owns:
  assumes own: "heap_owns (X \<union> R) h0 h" and disj: "X \<inter> R = {}" and sw: "heap_swap X X' h h'"
  shows "heap_owns (X' \<union> R) h0 h'" "X' \<inter> R = {}" "heap_keep R h h'"
proof -
  have o: "(X \<union> R) \<inter> live h0 = {}" "live h = live h0 \<union> (X \<union> R)" "heap_keep (live h0) h0 h" using own by (simp_all add: heap_owns_def)
  have s: "heap_ok h'" "heap_keep (live h - X) h h'" "live h' = live h - X \<union> X'" "(X' - X) \<inter> live h = {}" using sw by (simp_all add: heap_swap_def)
  have "live h0 \<subseteq> live h - X" "R \<subseteq> live h - X" using o(1,2) disj by auto
  then have k: "heap_keep (live h0) h h'" "heap_keep R h h'" using s(2) heap_keep_mono by blast+
  then show "heap_keep R h h'" by simp
  show "X' \<inter> R = {}" using s(4) o(2) disj by auto
  have "live h' = live h0 \<union> (X' \<union> R)" "(X' \<union> R) \<inter> live h0 = {}" using s(3,4) o(1,2) disj by auto
  then show "heap_owns (X' \<union> R) h0 h'" using s(1) heap_keep_trans [OF o(3) k(1)] by (simp add: heap_owns_def)
qed

lemma queue_inv_other:
  assumes "queue_inv s Q" "p \<notin> set Q" "s_calls s' = (s_calls s)(p := v)" "sc_head (s_scheduler s') = sc_head (s_scheduler s)"
    "sc_tail (s_scheduler s') = sc_tail (s_scheduler s)"
  shows "queue_inv s' Q"
  using assms by (simp add: queue_inv_def waiting_upd)

text \<open>Coroutines belong to one call each.\<close>

lemma co_unique:
  assumes "sched_inv h0 wb Q B s" "s_calls s p = Some c" "s_calls s q = Some d" "p \<noteq> q" "cl_co c \<noteq> 0"
  shows "cl_co d \<noteq> cl_co c"
  using sched_invD(7) [OF assms(1,2)] sched_invD(7) [OF assms(1,3)] assms(4,5) by (auto simp: call_inv_def)

lemma call_inv_other:
  assumes "call_inv t h X q d" "heap_keep X h h'" "heap_ok h'" "cl_co d \<noteq> 0 \<Longrightarrow> mt_cos t' (cl_co d) = mt_cos t (cl_co d)"
  shows "call_inv t' h' X q d"
  using assms call_res_keep [of d X h h'] by (auto simp: call_inv_def)

text \<open>One call that does not wait changes, with the blocks it owns and its coroutine; it may also get one.\<close>

lemma sched_inv_call:
  assumes inv: "sched_inv h0 wb Q B s" and p: "s_calls s p = Some c" "p \<notin> set Q"
    and sel: "s_calls s' = (s_calls s)(p := Some c')" "s_scheduler s' = s_scheduler s" "s_words s' = s_words s" "wb (s_world s') = wb (s_world s)"
    and sw: "heap_swap (B p) X' (s_heap s) (s_heap s')" and ci: "call_inv (s_thread s') (s_heap s') X' p c'"
    and th: "mt_current_co (s_thread s') = 0" "\<And>co. co \<noteq> cl_co c' \<or> co = 0 \<Longrightarrow> mt_cos (s_thread s') co = mt_cos (s_thread s) co"
      "cl_co c' = cl_co c \<or> cl_co c = 0 \<and> mt_cos (s_thread s) (cl_co c') = None"
  shows "sched_inv h0 wb Q (B(p := X')) s'"
proof -
  note d = sched_invD [OF inv]
  let ?D = "dom (s_calls s)" and ?R = "(\<Union>q\<in>dom (s_calls s) - {p}. B q) \<union> wb (s_world s)"
  have pD: "p \<in> ?D" and D': "dom (s_calls s') = ?D" using p(1) sel(1) by auto
  have "(\<Union>q\<in>?D. B q) \<union> wb (s_world s) = B p \<union> ?R" using pD by auto
  then have own: "heap_owns (B p \<union> ?R) h0 (s_heap s)" using d(4) by simp
  have disj: "B p \<inter> ?R = {}" using d(5,6) pD by auto
  note o = heap_swap_owns [OF own disj sw]
  have ok: "heap_ok (s_heap s')" using sw by (simp add: heap_swap_def)
  have X': "X' \<inter> B q = {}" if "q \<in> ?D" "q \<noteq> p" for q using o(2) that by blast
  have other: "q \<noteq> p \<and> s_calls s q = Some e" if "s_calls s' q = Some e" "q \<noteq> p" for q e using that sel(1) by simp
  have cos: "mt_cos (s_thread s') (cl_co e) = mt_cos (s_thread s) (cl_co e)" if "cl_co e \<noteq> 0" "s_calls s q = Some e" "q \<noteq> p" for q e
  proof -
    have "cl_co e \<noteq> cl_co c'" using th(3) co_unique [OF inv p(1) that(2)] d(7) [OF that(2)] that by (auto simp: call_inv_def)
    then show ?thesis using th(2) by simp
  qed
  show ?thesis
  proof (rule sched_invI)
    show "queue_inv s' Q" by (rule queue_inv_other [OF d(1) p(2) sel(1)]) (simp_all add: sel(2))
    show "arena_inv (sc_call_arena (s_scheduler s'), s_words s') (dom (s_calls s'))" using d(2) D' sel(2,3) by simp
    show "mt_current_co (s_thread s') = 0" by (rule th(1))
    have "(\<Union>q\<in>?D. (B(p := X')) q) \<union> wb (s_world s') = X' \<union> ?R" using pD sel(4) by auto
    then show "heap_owns ((\<Union>q\<in>dom (s_calls s'). (B(p := X')) q) \<union> wb (s_world s')) h0 (s_heap s')" using o(1) D' by simp
    show "\<forall>q\<in>dom (s_calls s'). \<forall>r\<in>dom (s_calls s'). q \<noteq> r \<longrightarrow> (B(p := X')) q \<inter> (B(p := X')) r = {}"
      unfolding D' using d(5) X' by (simp add: Int_commute)
    show "\<forall>q\<in>dom (s_calls s'). (B(p := X')) q \<inter> wb (s_world s') = {}" unfolding D' sel(4) using d(6) o(2) by auto
  next
    fix q e assume e: "s_calls s' q = Some e"
    show "call_inv (s_thread s') (s_heap s') ((B(p := X')) q) q e"
    proof (cases "q = p")
      case True
      then show ?thesis using e sel(1) ci by simp
    next
      case False
      then have q: "s_calls s q = Some e" using other [OF e] by simp
      have "heap_keep (B q) (s_heap s) (s_heap s')" using o(3) q False by (auto intro: heap_keep_mono)
      then show ?thesis using call_inv_other [OF d(7) [OF q] _ ok] cos [OF _ q False] False by simp
    qed
    assume "q \<in> set Q"
    then have "q \<noteq> p" using p(2) by auto
    then have q: "s_calls s q = Some e" using other [OF e] by simp
    have r: "runnable (s_thread s) e" using d(8) [OF q \<open>q \<in> set Q\<close>] .
    then have "cl_co e \<noteq> 0" by (simp add: runnable_def)
    then have "mt_cos (s_thread s') (cl_co e) = mt_cos (s_thread s) (cl_co e)" using cos q \<open>q \<noteq> p\<close> by blast
    then show "runnable (s_thread s') e" using r by (simp add: runnable_def)
  next
    fix co k assume co: "mt_cos (s_thread s') co = Some k"
    show "\<exists>q e. s_calls s' q = Some e \<and> cl_co e = co \<and> co \<noteq> 0"
    proof (cases "co = cl_co c'")
      case True
      then show ?thesis using sel(1) th(2) [of 0] d(9) co by (intro exI [of _ p] exI [of _ c']) (cases "co = 0"; auto)
    next
      case False
      then have "mt_cos (s_thread s) co = Some k" using th(2) [of co] co by simp
      then obtain q e where "s_calls s q = Some e" "cl_co e = co" "co \<noteq> 0" using d(9) by blast
      then show ?thesis using False p(1) sel(1) th(3) by (intro exI [of _ q] exI [of _ e]) auto
    qed
  qed
qed

section \<open>Resuming a call\<close>

text \<open>The coroutine \<open>co\<close>, which is \<open>k\<close> while it is suspended, in the thread \<open>t\<close>: while it runs, and after it has stopped in a state.\<close>

definition entered :: "nat \<Rightarrow> mco_coro \<Rightarrow> mco_thread \<Rightarrow> mco_thread" where
  "entered co k t = t\<lparr>mt_cos := (mt_cos t)(co := Some (k\<lparr>mc_state := MCO_RUNNING\<rparr>)), mt_current_co := co\<rparr>"

definition stopped :: "mco_state \<Rightarrow> nat \<Rightarrow> mco_coro \<Rightarrow> mco_thread \<Rightarrow> mco_thread" where
  "stopped st co k t = t\<lparr>mt_cos := (mt_cos t)(co := Some (k\<lparr>mc_state := st\<rparr>)), mt_current_co := 0\<rparr>"

definition at_rest :: "nat \<Rightarrow> nat \<Rightarrow> mco_coro \<Rightarrow> mco_thread \<Rightarrow> bool" where
  "at_rest p co k t \<longleftrightarrow> co \<noteq> 0 \<and> mt_current_co t = 0 \<and> mt_cos t co = Some k \<and> mc_user_data k = p \<and> mc_prev_co k = 0 \<and> mc_dealloc_cb k \<and>
     mc_state k = MCO_SUSPENDED"

lemma stopped_suspended: "at_rest p co k t \<Longrightarrow> stopped MCO_SUSPENDED co k t = t"
  by (cases t; cases k) (auto simp: stopped_def at_rest_def fun_upd_idem)

lemma resume_enter_rest: "at_rest p co k t \<Longrightarrow> mco_resume_enter co t = Some (MCO_SUCCESS, entered co k t)"
  by (cases k) (simp add: mco_resume_enter_def mco_prepare_jumpin_def co_update_def mco_running_def at_rest_def entered_def)

lemma main_return_entered: "at_rest p co k t \<Longrightarrow> mco_main_return co (entered co k t) = Some (stopped MCO_DEAD co k t)"
  by (cases k) (simp add: mco_main_return_def mco_prepare_jumpout_def co_update_def at_rest_def entered_def stopped_def)

lemma yield_entered:
  assumes "at_rest p co k t"
  shows "wirecall_ctx_yield pf (entered co k t) = Some (True, t) \<or> wirecall_ctx_yield pf (entered co k t) = Some (False, entered co k t)"
proof -
  have "mco_yield a co (entered co k t) = Some (MCO_SUCCESS, stopped MCO_SUSPENDED co k t) \<or>
      mco_yield a co (entered co k t) = Some (MCO_STACK_OVERFLOW, entered co k t)" for a
    using assms by (cases k) (simp add: mco_yield_def mco_prepare_jumpout_def co_update_def at_rest_def entered_def stopped_def Let_def)
  then have y: "mco_yield a co (entered co k t) = Some (MCO_SUCCESS, t) \<or> mco_yield a co (entered co k t) = Some (MCO_STACK_OVERFLOW, entered co k t)" for a
    by (simp add: stopped_suspended [OF assms])
  have "mt_current_co (entered co k t) = co" "mt_cos (entered co k t) co = Some (k\<lparr>mc_state := MCO_RUNNING\<rparr>)" "co \<noteq> 0"
    using assms by (simp_all add: entered_def at_rest_def)
  then show ?thesis using y [of "pf_stack_addr pf (k\<lparr>mc_state := MCO_RUNNING\<rparr>)"] by (auto simp: wirecall_ctx_yield_def mco_running_def)
qed

lemma user_data_entered: "at_rest p co k t \<Longrightarrow> mco_get_user_data co (entered co k t) = Some p"
  by (simp add: mco_get_user_data_def entered_def at_rest_def)

text \<open>
  What a resumption leaves of the call \<open>p\<close>: it has been completed and its coroutine is dead, or it is at rest again and its rank is smaller.
  Nothing else has changed.
\<close>

definition resumed :: "(nat \<Rightarrow> 'f option \<Rightarrow> nat) \<Rightarrow> ('w \<Rightarrow> u64 list) \<Rightarrow> nat \<Rightarrow> wirecall_call \<Rightarrow> ('f, 'w) sched \<Rightarrow> wirecall_call \<Rightarrow> ('f, 'w) sched \<Rightarrow> bool" where
  "resumed rank seen p c s c' s' \<longleftrightarrow> s_calls s' = (s_calls s)(p := Some c') \<and> s_scheduler s' = s_scheduler s \<and> s_words s' = s_words s \<and>
     (\<forall>co. co \<noteq> cl_co c \<longrightarrow> s_frames s' co = s_frames s co) \<and> seen (s_world s') = seen (s_world s) \<and>
     cl_co c' = cl_co c \<and> cl_ctx c' = cl_ctx c \<and> cl_handler c' = cl_handler c \<and>
     (cl_completed c' \<or> \<not> cl_completed c' \<and> (\<exists>k. at_rest p (cl_co c) k (s_thread s')) \<and>
        rank (cl_handler c) (s_frames s' (cl_co c)) < rank (cl_handler c) (s_frames s (cl_co c)))"

lemma handler_effect:
  assumes inv: "sched_inv h0 wb Q B s" and p: "s_calls s p = Some c" "p \<notin> set Q"
    and w: "writer_inv r h'" "writer_frame (cl_response c) (s_heap s) r h'" "wb w' = wb (s_world s)"
  shows "\<exists>X'. sched_inv h0 wb Q (B(p := X')) (s\<lparr>s_heap := h', s_world := w', s_calls := (s_calls s)(p := Some (c\<lparr>cl_response := r\<rparr>)), s_frames := fr\<rparr>)"
proof -
  note d = sched_invD [OF inv]
  have ci: "call_inv (s_thread s) (s_heap s) (B p) p c" by (rule d(7) [OF p(1)])
  then have "call_res c (B p) (s_heap s)" by (simp add: call_inv_def)
  note x = call_res_writer [OF this w(1,2)]
  let ?X = "B p - writer_owned (cl_response c) \<union> writer_owned r"
  have sw: "heap_swap (B p) ?X (s_heap s) h'" using x w(1) by (simp add: heap_swap_def writer_inv_def)
  have "call_inv (s_thread s) h' ?X p (c\<lparr>cl_response := r\<rparr>)" using ci x(1) by (simp add: call_inv_def)
  then have "sched_inv h0 wb Q (B(p := ?X)) (s\<lparr>s_heap := h', s_world := w', s_calls := (s_calls s)(p := Some (c\<lparr>cl_response := r\<rparr>)), s_frames := fr\<rparr>)"
    using w(3) d(3) sw by (intro sched_inv_call [OF inv p, where c' = "c\<lparr>cl_response := r\<rparr>"]) simp_all
  then show ?thesis by blast
qed

text \<open>The handler has returned: the call is completed, and its coroutine is dead.\<close>

lemma return_effect:
  assumes inv: "sched_inv h0 wb Q B s" and p: "s_calls s p = Some c" "p \<notin> set Q" and r: "at_rest p (cl_co c) k (s_thread s)"
    and c': "call_res c' (B p) (s_heap s) = call_res c (B p) (s_heap s)" "cl_co c' = cl_co c" "cl_handler c' = cl_handler c" "cl_done c' = cl_done c"
  shows "sched_inv h0 wb Q B (s\<lparr>s_thread := stopped MCO_DEAD (cl_co c) k (s_thread s), s_calls := (s_calls s)(p := Some c')\<rparr>)"
proof -
  note d = sched_invD [OF inv]
  have ci: "call_inv (s_thread s) (s_heap s) (B p) p c" by (rule d(7) [OF p(1)])
  have ok: "heap_ok (s_heap s)" "B p \<subseteq> live (s_heap s)" using d(4) ci by (auto simp: heap_owns_def call_inv_def call_res_def)
  have "call_inv (stopped MCO_DEAD (cl_co c) k (s_thread s)) (s_heap s) (B p) p c'"
    using ci r c' by (auto simp: call_inv_def at_rest_def stopped_def)
  then have "sched_inv h0 wb Q (B(p := B p)) (s\<lparr>s_thread := stopped MCO_DEAD (cl_co c) k (s_thread s), s_calls := (s_calls s)(p := Some c')\<rparr>)"
    using r c'(2) heap_swap_refl [OF ok]
    by (intro sched_inv_call [OF inv p, where c' = c']) (auto simp: stopped_def at_rest_def)
  then show ?thesis by simp
qed

lemma frames_thread: "(s :: ('f, 'w) sched)\<lparr>s_frames := fr, s_thread := t\<rparr> = s\<lparr>s_thread := t, s_frames := fr\<rparr>"
  by (cases s) simp

lemma call_entry_post:
  assumes H: "handlers_ok wb seen rank handler"
  shows "sched_inv h0 wb Q B s \<Longrightarrow> s_calls s p = Some c \<Longrightarrow> p \<notin> set Q \<Longrightarrow> at_rest p (cl_co c) k (s_thread s) \<Longrightarrow> \<not> cl_completed c \<Longrightarrow>
    \<exists>s' c' B'. call_entry pf handler (cl_co c) (s\<lparr>s_thread := entered (cl_co c) k (s_thread s)\<rparr>) = Some s' \<and>
      sched_inv h0 wb Q B' s' \<and> resumed rank seen p c s c' s'"
proof (induction "rank (cl_handler c) (s_frames s (cl_co c))" arbitrary: s c B rule: less_induct)
  case less
  note inv = less.prems(1) and p = less.prems(2,3) and rest = less.prems(4)
  have ci: "call_inv (s_thread s) (s_heap s) (B p) p c" by (rule sched_invD(7) [OF inv p(1)])
  let ?co = "cl_co c" and ?f = "cl_handler c"
  let ?s = "s\<lparr>s_thread := entered ?co k (s_thread s)\<rparr>"
  obtain out r h' w' where h: "handler ?f (s_frames s ?co) c (s_heap s) (s_world s) = Some (out, r, h', w')"
    "writer_inv r h'" "writer_frame (cl_response c) (s_heap s) r h'" "wb w' = wb (s_world s)" "seen w' = seen (s_world s)"
    "\<forall>fr'. out = Inl fr' \<longrightarrow> rank ?f (Some fr') < rank ?f (s_frames s ?co)"
    using H ci unfolding handlers_ok_def call_inv_def by blast
  let ?c = "c\<lparr>cl_response := r\<rparr>"
  let ?s1 = "\<lambda>fr. s\<lparr>s_heap := h', s_world := w', s_calls := (s_calls s)(p := Some ?c), s_frames := fr\<rparr>"
  have eff: "\<exists>X'. sched_inv h0 wb Q (B(p := X')) (?s1 fr)" for fr by (rule handler_effect [OF inv p h(2-4)])
  show ?case
  proof (cases out)
    case (Inr rc)
    obtain X' where "sched_inv h0 wb Q (B(p := X')) (?s1 (s_frames s))" using eff by blast
    let ?c' = "call_returned rc ?c"
    have sel: "cl_co ?c' = ?co" "cl_handler ?c' = ?f" "cl_ctx ?c' = cl_ctx c" "cl_done ?c' = cl_done ?c" "cl_completed ?c'"
      by (simp_all add: call_returned_def Let_def)
    have res: "call_res ?c' X h = call_res ?c X h" for X h by (rule call_res_sel) (simp_all add: call_returned_def Let_def)
    have "sched_inv h0 wb Q (B(p := X')) ((?s1 (s_frames s))\<lparr>s_thread := stopped MCO_DEAD ?co k (s_thread s), s_calls := (s_calls s)(p := Some ?c')\<rparr>)"
      using return_effect [OF \<open>sched_inv h0 wb Q (B(p := X')) (?s1 (s_frames s))\<close> _ p(2), of ?c k ?c'] rest sel res by simp
    moreover have "call_entry pf handler ?co ?s =
        Some ((?s1 (s_frames s))\<lparr>s_thread := stopped MCO_DEAD ?co k (s_thread s), s_calls := (s_calls s)(p := Some ?c')\<rparr>)"
      using h(1) Inr p(1) user_data_entered [OF rest] main_return_entered [OF rest]
      by (subst call_entry.simps) (simp add: call_get_def call_upd_def)
    ultimately show ?thesis using h(5) sel by (auto simp: resumed_def)
  next
    case (Inl fr)
    let ?frames = "(s_frames s)(?co := Some fr)"
    obtain X' where inv1: "sched_inv h0 wb Q (B(p := X')) (?s1 ?frames)" using eff by blast
    have lt: "rank ?f (Some fr) < rank ?f (s_frames s ?co)" using h(6) Inl by simp
    have e: "call_entry pf handler ?co ?s = (if fst (the (wirecall_ctx_yield pf (entered ?co k (s_thread s))))
        then Some ((?s1 ?frames)\<lparr>s_thread := s_thread s\<rparr>) else call_entry pf handler ?co ((?s1 ?frames)\<lparr>s_thread := entered ?co k (s_thread s)\<rparr>))"
      using h(1) Inl p(1) user_data_entered [OF rest] yield_entered [OF rest, of pf]
      by (subst call_entry.simps) (auto simp: call_get_def call_upd_def frames_thread)
    show ?thesis
    proof (cases "fst (the (wirecall_ctx_yield pf (entered ?co k (s_thread s))))")
      case True
      then have "call_entry pf handler ?co ?s = Some (?s1 ?frames)" using e by simp
      moreover have "resumed rank seen p c s ?c (?s1 ?frames)" using h(5) lt rest less.prems(5) by (auto simp: resumed_def)
      ultimately show ?thesis using inv1 by blast
    next
      case False
      have "\<exists>s' c' B'. call_entry pf handler (cl_co ?c) ((?s1 ?frames)\<lparr>s_thread := entered (cl_co ?c) k (s_thread (?s1 ?frames))\<rparr>) = Some s' \<and>
          sched_inv h0 wb Q B' s' \<and> resumed rank seen p ?c (?s1 ?frames) c' s'"
        using lt rest less.prems(5) p(2) inv1 by (intro less.hyps) simp_all
      then obtain s' c' B' where r: "call_entry pf handler ?co ?s = Some s'" "sched_inv h0 wb Q B' s'" "resumed rank seen p ?c (?s1 ?frames) c' s'"
        using e False by auto
      have "resumed rank seen p c s c' s'" using r(3) h(5) lt unfolding resumed_def by auto
      then show ?thesis using r(1,2) by blast
    qed
  qed
qed

lemma call_resume_post:
  assumes H: "handlers_ok wb seen rank handler" and inv: "sched_inv h0 wb Q B s" and p: "s_calls s p = Some c" "p \<notin> set Q"
    and run: "runnable (s_thread s) c"
  shows "\<exists>s' c' B'. call_resume pf handler p s = Some (0, s') \<and> sched_inv h0 wb Q B' s' \<and> resumed rank seen p c s c' s'"
proof -
  have ci: "call_inv (s_thread s) (s_heap s) (B p) p c" by (rule sched_invD(7) [OF inv p(1)])
  obtain k where rest: "at_rest p (cl_co c) k (s_thread s)" and nc: "\<not> cl_completed c"
    using ci run sched_invD(3) [OF inv] by (auto simp: call_inv_def runnable_def at_rest_def)
  obtain s' c' B' where r: "call_entry pf handler (cl_co c) (s\<lparr>s_thread := entered (cl_co c) k (s_thread s)\<rparr>) = Some s'"
    "sched_inv h0 wb Q B' s'" "resumed rank seen p c s c' s'"
    using call_entry_post [OF H inv p rest nc] by blast
  have "call_resume pf handler p s = Some (0, s')"
    using p(1) r(1) resume_enter_rest [OF rest] by (simp add: call_resume_def call_get_def mco_resume_def)
  then show ?thesis using r(2,3) by blast
qed

section \<open>Completing a call\<close>

lemma destroy_rest:
  assumes "call_inv t h X p c" "cl_co c \<noteq> 0"
  shows "mco_destroy (cl_co c) t = Some (MCO_SUCCESS, t\<lparr>mt_cos := (mt_cos t)(cl_co c := None)\<rparr>)"
  using assms by (auto simp: call_inv_def mco_destroy_def mco_uninit_def mco_dealloc_def co_update_def)

lemma sched_inv_drop:
  assumes inv: "sched_inv h0 wb Q B s" and p: "s_calls s p = Some c" "p \<notin> set Q"
    and sel: "s_calls s' = (s_calls s)(p := None)" "sc_head (s_scheduler s') = sc_head (s_scheduler s)" "sc_tail (s_scheduler s') = sc_tail (s_scheduler s)"
      "s_world s' = s_world s" "(sc_call_arena (s_scheduler s'), s_words s') = wirecall_fixed_arena_free p (sc_call_arena (s_scheduler s), s_words s)"
    and h: "heap_owns ((\<Union>q\<in>dom (s_calls s) - {p}. B q) \<union> wb (s_world s)) h0 (s_heap s')" "heap_keep (live (s_heap s) - B p) (s_heap s) (s_heap s')"
    and th: "mt_current_co (s_thread s') = 0" "\<And>co. mt_cos (s_thread s') co = (if co = cl_co c \<and> co \<noteq> 0 then None else mt_cos (s_thread s) co)"
  shows "sched_inv h0 wb Q B s'"
proof -
  note d = sched_invD [OF inv]
  let ?D = "dom (s_calls s)"
  have pD: "p \<in> ?D" and D': "dom (s_calls s') = ?D - {p}" using p(1) sel(1) by auto
  have other: "q \<noteq> p \<and> s_calls s q = Some e" if "s_calls s' q = Some e" for q e using that sel(1) by (auto split: if_splits)
  have cos: "mt_cos (s_thread s') (cl_co e) = mt_cos (s_thread s) (cl_co e)" if "s_calls s' q = Some e" for q e
    using co_unique [OF inv p(1), of q e] other [OF that] th(2) [of "cl_co e"] by (auto split: if_splits)
  show ?thesis
  proof (rule sched_invI)
    show "queue_inv s' Q" by (rule queue_inv_other [OF d(1) p(2) sel(1-3)])
    show "arena_inv (sc_call_arena (s_scheduler s'), s_words s') (dom (s_calls s'))"
      unfolding sel(5) D' by (rule arena.free_law [OF d(2) pD])
    show "mt_current_co (s_thread s') = 0" by (rule th(1))
    show "heap_owns ((\<Union>q\<in>dom (s_calls s'). B q) \<union> wb (s_world s')) h0 (s_heap s')" using h(1) unfolding D' sel(4) .
    show "\<forall>q\<in>dom (s_calls s'). \<forall>r\<in>dom (s_calls s'). q \<noteq> r \<longrightarrow> B q \<inter> B r = {}" unfolding D' using d(5) by simp
    show "\<forall>q\<in>dom (s_calls s'). B q \<inter> wb (s_world s') = {}" unfolding D' sel(4) using d(6) by simp
  next
    fix q e assume e: "s_calls s' q = Some e"
    then have q: "q \<noteq> p" "s_calls s q = Some e" using other by auto
    have "B q \<inter> B p = {}" "B q \<subseteq> live (s_heap s)" using d(5) d(7) [OF q(2)] q pD by (auto simp: call_inv_def call_res_def)
    then have "heap_keep (B q) (s_heap s) (s_heap s')" using h(2) by (auto intro: heap_keep_mono)
    then show "call_inv (s_thread s') (s_heap s') (B q) q e"
      using call_inv_other [OF d(7) [OF q(2)]] h(1) cos [OF e] by (simp add: heap_owns_def)
    assume "q \<in> set Q"
    then show "runnable (s_thread s') e" using d(8) [OF q(2)] cos [OF e] by (simp add: runnable_def)
  next
    fix co k assume co: "mt_cos (s_thread s') co = Some k"
    then have co1: "\<not> (co = cl_co c \<and> co \<noteq> 0)" "mt_cos (s_thread s) co = Some k" using th(2) [of co] by (auto split: if_splits)
    then obtain q e where q: "s_calls s q = Some e" "cl_co e = co" "co \<noteq> 0" using d(9) by blast
    then have "q \<noteq> p" using co1(1) p(1) by auto
    then show "\<exists>q e. s_calls s' q = Some e \<and> cl_co e = co \<and> co \<noteq> 0" using q sel(1) by (intro exI [of _ q] exI [of _ e]) simp
  qed
qed

lemma call_done_post:
  assumes C: "callbacks_ok wb seen callback" and inv: "sched_inv h0 wb Q B s" and p: "s_calls s p = Some c" and done_fn: "done_fn \<noteq> 0"
  shows "\<exists>h' w'. call_done callback done_fn data p s = Some (s\<lparr>s_heap := h', s_world := w'\<rparr>) \<and> sched_inv h0 wb Q B (s\<lparr>s_heap := h', s_world := w'\<rparr>) \<and>
    seen w' = seen (s_world s) @ [cx_call_id (cl_ctx c)]"
proof -
  note d = sched_invD [OF inv]
  let ?R = "\<Union>q\<in>dom (s_calls s). B q" and ?W = "wb (s_world s)"
  have own: "heap_owns (?W \<union> ?R) h0 (s_heap s)" "?W \<inter> ?R = {}" "?W \<subseteq> live (s_heap s)" using d(4,6) by (auto simp: Un_commute heap_owns_def)
  have res: "call_res c (B p) (s_heap s)" "B p \<inter> ?W = {}" using d(6) d(7) [OF p] p by (auto simp: call_inv_def)
  obtain h' w' where c: "callback done_fn c data (s_heap s) (s_world s) = Some (h', w')" "heap_swap ?W (wb w') (s_heap s) h'"
    "seen w' = seen (s_world s) @ [cx_call_id (cl_ctx c)]"
    using C done_fn res own(3) unfolding callbacks_ok_def heap_swap_def by blast
  note o = heap_swap_owns [OF own(1,2) c(2)]
  let ?s = "s\<lparr>s_heap := h', s_world := w'\<rparr>"
  have "sched_inv h0 wb Q B ?s"
  proof (rule sched_invI)
    show "heap_owns ((\<Union>q\<in>dom (s_calls ?s). B q) \<union> wb (s_world ?s)) h0 (s_heap ?s)" using o(1) by (simp add: Un_commute)
    show "\<forall>q\<in>dom (s_calls ?s). B q \<inter> wb (s_world ?s) = {}" using o(2) by auto
    fix q e assume "s_calls ?s q = Some e"
    then have q: "s_calls s q = Some e" by simp
    have "heap_keep (B q) (s_heap s) h'" using o(3) q by (auto intro: heap_keep_mono)
    then show "call_inv (s_thread ?s) (s_heap ?s) (B q) q e"
      using call_inv_other [OF d(7) [OF q]] o(1) by (simp add: heap_owns_def)
  qed (use d in \<open>simp_all add: queue_inv_def\<close>)
  then show ?thesis using c(1,3) p done_fn by (auto simp: call_done_def call_get_def)
qed

context library_memory
begin

lemma call_free_post:
  assumes inv: "sched_inv h0 wb Q B s" and p: "s_calls s p = Some c" "p \<notin> set Q"
  shows "\<exists>s'. call_free g p s = Some s' \<and> sched_inv h0 wb Q B s' \<and> s_calls s' = (s_calls s)(p := None) \<and> s_frames s' = s_frames s \<and>
    s_world s' = s_world s"
proof -
  note d = sched_invD [OF inv]
  let ?R = "(\<Union>q\<in>dom (s_calls s) - {p}. B q) \<union> wb (s_world s)"
  have pD: "p \<in> dom (s_calls s)" using p(1) by auto
  have p0: "p \<noteq> 0" using arena.bound [OF d(2)] pD by auto
  have ci: "call_inv (s_thread s) (s_heap s) (B p) p c" by (rule d(7) [OF p(1)])
  then have res: "call_res c (B p) (s_heap s)" by (simp add: call_inv_def)
  have "(\<Union>q\<in>dom (s_calls s). B q) \<union> wb (s_world s) = B p \<union> ?R" using pD by auto
  then have own: "heap_owns (B p \<union> ?R) h0 (s_heap s)" "B p \<inter> ?R = {}" using d(4-6) pD by auto
  obtain h1 h2 h3 where h: "wirecall_values_free g (fst (cl_args c)) (snd (cl_args c)) (s_heap s) = Some h1"
    "wirecall_writer_free g (Some (cl_response c)) h1 = Some (Some zero_writer, h2)" "wirecall_mem_free g (cl_payload c) h2 = Some h3"
    "heap_owns ?R h0 h3" "heap_keep (live (s_heap s) - B p) (s_heap s) h3"
    using call_res_free [OF res own] by blast
  obtain arena m where ar: "wirecall_fixed_arena_free p (sc_call_arena (s_scheduler s), s_words s) = (arena, m)" by fastforce
  define t where "t = (if cl_co c \<noteq> 0 then (s_thread s)\<lparr>mt_cos := (mt_cos (s_thread s))(cl_co c := None)\<rparr> else s_thread s)"
  define s' where "s' = s\<lparr>s_thread := t, s_heap := h3, s_scheduler := (s_scheduler s)\<lparr>sc_call_arena := arena\<rparr>, s_words := m, s_calls := (s_calls s)(p := None)\<rparr>"
  have "call_free g p s = Some s'"
    using p(1) p0 h(1-3) ar destroy_rest [OF ci] by (simp add: call_free_def call_get_def s'_def t_def)
  moreover have "sched_inv h0 wb Q B s'"
    using h(4,5) ar d(3) by (intro sched_inv_drop [OF inv p]) (simp_all add: s'_def t_def)
  ultimately show ?thesis by (simp add: s'_def)
qed

lemma call_finish_post:
  assumes C: "callbacks_ok wb seen callback" and inv: "sched_inv h0 wb Q B s" and p: "s_calls s p = Some c" "p \<notin> set Q"
  shows "\<exists>s'. call_finish g callback p s = Some s' \<and> sched_inv h0 wb Q B s' \<and> s_calls s' = (s_calls s)(p := None) \<and> s_frames s' = s_frames s \<and>
    seen (s_world s') = seen (s_world s) @ [cx_call_id (cl_ctx c)]"
proof -
  have "cl_done c \<noteq> 0" using sched_invD(7) [OF inv p(1)] by (simp add: call_inv_def)
  then obtain h' w' where r: "call_done callback (cl_done c) (cl_done_data c) p s = Some (s\<lparr>s_heap := h', s_world := w'\<rparr>)"
    "sched_inv h0 wb Q B (s\<lparr>s_heap := h', s_world := w'\<rparr>)" "seen w' = seen (s_world s) @ [cx_call_id (cl_ctx c)]"
    using call_done_post [OF C inv p(1)] by blast
  show ?thesis using call_free_post [OF r(2) _ p(2), of c] r(1,3) p(1) \<open>cl_done c \<noteq> 0\<close> by (auto simp: call_finish_def call_get_def)
qed

text \<open>One iteration: the call is completed, or it waits again at the end of the queue with a smaller rank.\<close>

lemma ready_step_post:
  assumes H: "handlers_ok wb seen rank handler" and C: "callbacks_ok wb seen callback"
    and inv: "sched_inv h0 wb Q B s" and p: "s_calls s p = Some c" "p \<notin> set Q" and run: "runnable (s_thread s) c"
  shows "\<exists>s' B' c'. ready_step pf g handler callback p s = Some s' \<and> (\<forall>co. co \<noteq> cl_co c \<longrightarrow> s_frames s' co = s_frames s co) \<and>
    (sched_inv h0 wb Q B' s' \<and> s_calls s' = (s_calls s)(p := None) \<and> seen (s_world s') = seen (s_world s) @ [cx_call_id (cl_ctx c)] \<or>
     sched_inv h0 wb (Q @ [p]) B' s' \<and> (\<forall>q. unlinked (s_calls s' q) = unlinked (((s_calls s)(p := Some c')) q)) \<and> seen (s_world s') = seen (s_world s) \<and>
       cl_co c' = cl_co c \<and> cl_ctx c' = cl_ctx c \<and> cl_handler c' = cl_handler c \<and>
       rank (cl_handler c) (s_frames s' (cl_co c)) < rank (cl_handler c) (s_frames s (cl_co c)))"
proof -
  obtain s1 c' B' where r: "call_resume pf handler p s = Some (0, s1)" "sched_inv h0 wb Q B' s1" "resumed rank seen p c s c' s1"
    using call_resume_post [OF H inv p run] by blast
  have c': "s_calls s1 p = Some c'" "s_calls s1 = (s_calls s)(p := Some c')" "cl_co c' = cl_co c" "cl_ctx c' = cl_ctx c" "cl_handler c' = cl_handler c"
    "seen (s_world s1) = seen (s_world s)" "\<forall>co. co \<noteq> cl_co c \<longrightarrow> s_frames s1 co = s_frames s co"
    using r(3) by (simp_all add: resumed_def)
  show ?thesis
  proof (cases "cl_completed c'")
    case True
    obtain s2 where s2: "call_finish g callback p s1 = Some s2" "sched_inv h0 wb Q B' s2" "s_calls s2 = (s_calls s1)(p := None)" "s_frames s2 = s_frames s1"
      "seen (s_world s2) = seen (s_world s1) @ [cx_call_id (cl_ctx c')]"
      using call_finish_post [OF C r(2) c'(1) p(2)] by blast
    have "ready_step pf g handler callback p s = Some s2" using r(1) c'(1) True s2(1) by (simp add: ready_step_def call_get_def)
    then show ?thesis using s2 c' by (intro exI [of _ s2] exI [of _ B'] exI [of _ c'] conjI disjI1) simp_all
  next
    case False
    then obtain k where k: "at_rest p (cl_co c) k (s_thread s1)" and lt: "rank (cl_handler c) (s_frames s1 (cl_co c)) < rank (cl_handler c) (s_frames s (cl_co c))"
      using r(3) by (auto simp: resumed_def)
    have p0: "p \<noteq> 0" using arena.bound [OF sched_invD(2) [OF inv]] p(1) by auto
    obtain s2 where s2: "enqueue p s1 = Some (0, s2)" "queue_inv s2 (Q @ [p])" "same_calls s1 s2"
      using enqueue_queue [OF sched_invD(1) [OF r(2)] c'(1) p0 p(2)] by blast
    have "runnable (s_thread s1) c'" using k False c'(3) by (auto simp: runnable_def at_rest_def)
    then have "sched_inv h0 wb (Q @ [p]) B' s2"
      using sched_invD(8) [OF r(2)] c'(1) by (intro sched_inv_requeue [OF r(2) s2(3,2)]) auto
    moreover have "ready_step pf g handler callback p s = Some s2"
      using r(1) c'(1,3) False k s2(1) by (simp add: ready_step_def call_get_def mco_status_def at_rest_def)
    moreover have "s_frames s2 = s_frames s1" "s_world s2 = s_world s1" "\<forall>q. unlinked (s_calls s2 q) = unlinked (s_calls s1 q)"
      using s2(3) by (simp_all add: same_calls_def)
    ultimately show ?thesis using c' lt by (intro exI [of _ s2] exI [of _ B'] exI [of _ c'] conjI disjI2) simp_all
  qed
qed

end

section \<open>Running all calls\<close>

text \<open>What is left to do for the calls that wait, and their ids.\<close>

definition rank_of :: "(nat \<Rightarrow> 'f option \<Rightarrow> nat) \<Rightarrow> ('f, 'w) sched \<Rightarrow> nat \<Rightarrow> nat" where
  "rank_of rank s p = (case s_calls s p of None \<Rightarrow> 0 | Some c \<Rightarrow> rank (cl_handler c) (s_frames s (cl_co c)))"

definition id_of :: "('f, 'w) sched \<Rightarrow> nat \<Rightarrow> u64" where
  "id_of s p = (case s_calls s p of None \<Rightarrow> 0 | Some c \<Rightarrow> cx_call_id (cl_ctx c))"

lemma of_unlinked:
  assumes "unlinked (s_calls s' p) = unlinked (Some c)"
  shows "id_of s' p = cx_call_id (cl_ctx c)" "rank_of rank s' p = rank (cl_handler c) (s_frames s' (cl_co c))" "p \<in> dom (s_calls s')"
proof -
  obtain c' where c': "s_calls s' p = Some c'" "unlinked (Some c') = unlinked (Some c)" using assms by (cases "s_calls s' p") (auto simp: unlinked_def)
  show "id_of s' p = cx_call_id (cl_ctx c)" "rank_of rank s' p = rank (cl_handler c) (s_frames s' (cl_co c))" "p \<in> dom (s_calls s')"
    using c'(1) unlinked_fields [OF c'(2)] by (auto simp: id_of_def rank_of_def)
qed

lemma of_other:
  assumes inv: "sched_inv h0 wb Q B s" and p: "s_calls s p = Some c" "cl_co c \<noteq> 0" and q: "q \<in> set Q" "q \<noteq> p"
    and s': "unlinked (s_calls s' q) = unlinked (s_calls s q)" "\<forall>co. co \<noteq> cl_co c \<longrightarrow> s_frames s' co = s_frames s co"
  shows "id_of s' q = id_of s q" "rank_of rank s' q = rank_of rank s q"
proof -
  obtain e where e: "s_calls s q = Some e" using waiting_live [OF _ q(1)] sched_invD(1) [OF inv] by (auto simp: queue_inv_def)
  have "cl_co e \<noteq> cl_co c" using co_unique [OF inv p(1) e] q(2) p(2) by auto
  then have "s_frames s' (cl_co e) = s_frames s (cl_co e)" using s'(2) by simp
  then show "id_of s' q = id_of s q" "rank_of rank s' q = rank_of rank s q"
    using of_unlinked [of s' q e] s'(1) e by (simp_all add: id_of_def rank_of_def)
qed

definition load :: "(nat \<Rightarrow> 'f option \<Rightarrow> nat) \<Rightarrow> ('f, 'w) sched \<Rightarrow> nat list \<Rightarrow> nat" where
  "load rank s Q = (\<Sum>p\<leftarrow>Q. Suc (rank_of rank s p))"

lemma of_same_calls:
  assumes "queue_inv s Q" "same_calls s s'" "q \<in> set Q"
  shows "id_of s' q = id_of s q" "rank_of rank s' q = rank_of rank s q"
proof -
  obtain e where "s_calls s q = Some e" using waiting_live [OF _ assms(3)] assms(1) by (auto simp: queue_inv_def)
  then show "id_of s' q = id_of s q" "rank_of rank s' q = rank_of rank s q"
    using of_unlinked [of s' q e] assms(2) by (simp_all add: id_of_def rank_of_def same_calls_def)
qed

lemma dequeue_first:
  assumes inv: "sched_inv h0 wb (p # Q) B s"
  shows "\<exists>s1 c. dequeue s = Some (p, s1) \<and> sched_inv h0 wb Q B s1 \<and> same_calls s s1 \<and> p \<notin> set Q \<and> p \<noteq> 0 \<and>
    s_calls s1 p = Some c \<and> runnable (s_thread s1) c"
proof -
  note d = sched_invD [OF inv]
  obtain s1 where s1: "dequeue s = Some (p, s1)" "queue_inv s1 Q" "same_calls s s1" using dequeue_queue [OF d(1)] by blast
  have p: "p \<notin> set Q" "p \<noteq> 0" using d(1) by (auto simp: queue_inv_def)
  obtain c0 where c0: "s_calls s p = Some c0" using d(1) by (auto simp: queue_inv_def)
  obtain c where c: "s_calls s1 p = Some c" "unlinked (Some c0) = unlinked (Some c)"
    using same_calls_unlinked [OF same_calls_sym [OF s1(3)] c0] by blast
  have "runnable (s_thread s1) c" using d(8) [OF c0] call_inv_unlinked [OF c(2)] s1(3) by (simp add: same_calls_def)
  moreover have "sched_inv h0 wb Q B s1" using d(8) by (intro sched_inv_requeue [OF inv s1(3,2)]) auto
  ultimately show ?thesis using s1 p c(1) by blast
qed

context library_memory
begin

text \<open>The first call has been completed, or there is less to do for it; nothing else has changed for the other calls.\<close>

lemma run_ready_iter:
  assumes H: "handlers_ok wb seen rank handler" and C: "callbacks_ok wb seen callback" and inv: "sched_inv h0 wb (p # Q) B s"
  shows "\<exists>s' B' Q' L. run_ready_loop pf g handler callback s = run_ready_loop pf g handler callback s' \<and> sched_inv h0 wb Q' B' s' \<and>
    load rank s' Q' < load rank s (p # Q) \<and> seen (s_world s') = seen (s_world s) @ L \<and>
    mset L + mset (map (id_of s') Q') = mset (map (id_of s) (p # Q)) \<and> dom (s_calls s') - set Q' = dom (s_calls s) - set (p # Q)"
proof -
  obtain s1 c where s1: "dequeue s = Some (p, s1)" "sched_inv h0 wb Q B s1" "same_calls s s1" "p \<notin> set Q" "p \<noteq> 0" "s_calls s1 p = Some c"
    "runnable (s_thread s1) c" using dequeue_first [OF inv] by blast
  note of1 = of_same_calls [OF sched_invD(1) [OF inv] s1(3)]
  have co: "cl_co c \<noteq> 0" and w1: "s_world s1 = s_world s" using s1(3,7) by (simp_all add: runnable_def same_calls_def)
  have D1: "dom (s_calls s) = dom (s_calls s1)" using same_calls_dom [OF s1(3)] by simp
  have first: "rank_of rank s p = rank (cl_handler c) (s_frames s1 (cl_co c))" "id_of s p = cx_call_id (cl_ctx c)"
    using of1 [of p] s1(6) by (simp_all add: rank_of_def id_of_def)
  obtain s2 B2 c' where r: "ready_step pf g handler callback p s1 = Some s2" "\<forall>co. co \<noteq> cl_co c \<longrightarrow> s_frames s2 co = s_frames s1 co"
    "sched_inv h0 wb Q B2 s2 \<and> s_calls s2 = (s_calls s1)(p := None) \<and> seen (s_world s2) = seen (s_world s1) @ [cx_call_id (cl_ctx c)] \<or>
     sched_inv h0 wb (Q @ [p]) B2 s2 \<and> (\<forall>q. unlinked (s_calls s2 q) = unlinked (((s_calls s1)(p := Some c')) q)) \<and> seen (s_world s2) = seen (s_world s1) \<and>
       cl_co c' = cl_co c \<and> cl_ctx c' = cl_ctx c \<and> cl_handler c' = cl_handler c \<and>
       rank (cl_handler c) (s_frames s2 (cl_co c)) < rank (cl_handler c) (s_frames s1 (cl_co c))"
    using ready_step_post [OF H C s1(2,6,4,7)] by blast
  have step: "run_ready_loop pf g handler callback s = run_ready_loop pf g handler callback s2"
    using s1(1,5) r(1) by (subst run_ready_loop.simps) simp
  have rest: "image_mset (id_of s2) (mset Q) = image_mset (id_of s) (mset Q)" "load rank s2 Q = load rank s Q"
    if u: "\<And>q. q \<noteq> p \<Longrightarrow> unlinked (s_calls s2 q) = unlinked (s_calls s1 q)"
  proof -
    have "id_of s2 q = id_of s q" "rank_of rank s2 q = rank_of rank s q" if "q \<in> set Q" for q
    proof -
      have "q \<noteq> p" using that s1(4) by auto
      then show "id_of s2 q = id_of s q" "rank_of rank s2 q = rank_of rank s q"
        using of_other [OF s1(2,6) co that _ u r(2)] of1 [of q] that by simp_all
    qed
    then show "image_mset (id_of s2) (mset Q) = image_mset (id_of s) (mset Q)" "load rank s2 Q = load rank s Q"
      by (auto simp: load_def intro!: image_mset_cong map_cong arg_cong [where f = sum_list])
  qed
  from r(3) show ?thesis
  proof (elim disjE conjE)
    assume a: "sched_inv h0 wb Q B2 s2" "s_calls s2 = (s_calls s1)(p := None)" "seen (s_world s2) = seen (s_world s1) @ [cx_call_id (cl_ctx c)]"
    have "image_mset (id_of s2) (mset Q) = image_mset (id_of s) (mset Q)" "load rank s2 Q = load rank s Q" using rest a(2) by simp_all
    then show ?thesis using step a w1 first D1
      by (intro exI [of _ s2] exI [of _ B2] exI [of _ Q] exI [of _ "[cx_call_id (cl_ctx c)]"]) (auto simp: load_def)
  next
    assume a: "sched_inv h0 wb (Q @ [p]) B2 s2" "\<forall>q. unlinked (s_calls s2 q) = unlinked (((s_calls s1)(p := Some c')) q)"
      "seen (s_world s2) = seen (s_world s1)" "cl_co c' = cl_co c" "cl_ctx c' = cl_ctx c" "cl_handler c' = cl_handler c"
      "rank (cl_handler c) (s_frames s2 (cl_co c)) < rank (cl_handler c) (s_frames s1 (cl_co c))"
    have q: "image_mset (id_of s2) (mset Q) = image_mset (id_of s) (mset Q)" "load rank s2 Q = load rank s Q" using rest a(2) by simp_all
    have "unlinked (s_calls s2 p) = unlinked (Some c')" using a(2) by simp
    note n = of_unlinked [OF this]
    have "(s_calls s2 q = None) = (s_calls s1 q = None)" for q using a(2) [rule_format, of q] s1(6)
      by (cases "s_calls s2 q"; cases "s_calls s1 q") (auto simp: unlinked_def split: if_splits)
    then have "dom (s_calls s2) = dom (s_calls s1)" by (auto simp: dom_def)
    then show ?thesis using step a q n w1 first D1
      by (intro exI [of _ s2] exI [of _ B2] exI [of _ "Q @ [p]"] exI [of _ "[]"]) (auto simp: load_def)
  qed
qed

lemma run_ready_loop_post:
  assumes H: "handlers_ok wb seen rank handler" and C: "callbacks_ok wb seen callback"
  shows "sched_inv h0 wb Q B s \<Longrightarrow> \<exists>s' B' L. run_ready_loop pf g handler callback s = Some s' \<and> sched_inv h0 wb [] B' s' \<and>
    dom (s_calls s') = dom (s_calls s) - set Q \<and> seen (s_world s') = seen (s_world s) @ L \<and> mset L = mset (map (id_of s) Q)"
proof (induction "load rank s Q" arbitrary: Q B s rule: less_induct)
  case less
  show ?case
  proof (cases Q)
    case Nil
    then have "run_ready_loop pf g handler callback s = Some s"
      using dequeue_empty [of s] sched_invD(1) [OF less.prems] by (subst run_ready_loop.simps) simp
    then show ?thesis using less.prems Nil by auto
  next
    case (Cons p Q0)
    obtain s1 B1 Q1 L1 where s1: "run_ready_loop pf g handler callback s = run_ready_loop pf g handler callback s1" "sched_inv h0 wb Q1 B1 s1"
      "load rank s1 Q1 < load rank s Q" "seen (s_world s1) = seen (s_world s) @ L1" "mset L1 + mset (map (id_of s1) Q1) = mset (map (id_of s) Q)"
      "dom (s_calls s1) - set Q1 = dom (s_calls s) - set Q"
      using run_ready_iter [OF H C less.prems [unfolded Cons]] unfolding Cons by blast
    obtain s' B' L where "run_ready_loop pf g handler callback s1 = Some s'" "sched_inv h0 wb [] B' s'" "dom (s_calls s') = dom (s_calls s1) - set Q1"
      "seen (s_world s') = seen (s_world s1) @ L" "mset L = mset (map (id_of s1) Q1)"
      using less.hyps [OF s1(3,2)] by blast
    then show ?thesis using s1 by (intro exI [of _ s'] exI [of _ B'] exI [of _ "L1 @ L"]) (simp add: union_commute)
  qed
qed

end

end
