(* ===== verification/Scheduler_Calls.thy ===== *)
theory Scheduler_Calls
  imports Scheduler_Run
begin

text \<open>
  Submitting calls, and the life of every call: a call that \<open>wirecall_scheduler_submit\<close> has taken is reported to its callback
  exactly once, at once or when the scheduler runs, and leaves nothing behind.
\<close>

section \<open>A new call\<close>

lemma heap_swap_grow: "heap_owns A h h' \<Longrightarrow> X \<subseteq> live h \<Longrightarrow> heap_swap X (X \<union> A) h h'"
  by (auto simp: heap_swap_def heap_owns_def heap_keep_def)

text \<open>A call that has no arguments and no response yet.\<close>

definition blank :: "wirecall_call \<Rightarrow> bool" where
  "blank c \<longleftrightarrow> cl_args c = (0, []) \<and> cl_argc c = 0 \<and> cl_response c = zero_writer \<and> cl_co c = 0 \<and> cl_handler c \<noteq> 0 \<and> cl_done c \<noteq> 0"

lemma zero_writer_owned [simp]: "writer_owned zero_writer = {}" "heap_ok h \<Longrightarrow> writer_inv zero_writer h"
  by (simp_all add: writer_owned_def zero_writer_def writer_inv_def writer_ok_def)

lemma blank_res:
  assumes "blank c" "heap_ok h" "payload_block c \<subseteq> live h"
  shows "call_res c (payload_block c) h"
proof -
  have "args_blocks [] c = {}" using assms(1) by (simp add: args_blocks_def blank_def)
  moreover have "heap_minus {} h = h" by (simp add: heap_minus_def)
  then have "decoded (heap_minus {} h) 0 [] 0 0 [] [] h" using decoded_start [OF assms(2)] by simp
  ultimately show ?thesis
    using assms unfolding call_res_def by (auto simp: blank_def intro!: exI [of _ "[]"])
qed

lemma blank_inv: "blank c \<Longrightarrow> heap_ok h \<Longrightarrow> payload_block c \<subseteq> live h \<Longrightarrow> call_inv t h (payload_block c) p c"
  using blank_res by (simp add: call_inv_def blank_def)

lemma decoded_res:
  assumes c: "blank c" "payload_block c \<subseteq> live h" and d: "decoded h arr cells n cap vals pvs h'"
  defines "A \<equiv> set (array_owns vals) \<union> (if arr = 0 then {} else {arr})"
  shows "call_res (c\<lparr>cl_args := (arr, cells), cl_argc := n\<rparr>) (payload_block c \<union> A) h'" "heap_owns A h h'"
proof -
  let ?c = "c\<lparr>cl_args := (arr, cells), cl_argc := n\<rparr>"
  show own: "heap_owns A h h'" using d by (simp add: decoded_def A_def)
  then have ok: "heap_ok h'" and lv: "A \<inter> live h = {}" "live h' = live h \<union> A" by (simp_all add: heap_owns_def)
  have eq: "args_blocks vals ?c = A" "payload_block ?c = payload_block c" "cl_response ?c = zero_writer"
    using c(1) by (simp_all add: args_blocks_def payload_block_def A_def blank_def)
  have "decoded (heap_minus A h') arr cells n cap vals pvs h'"
    by (rule decoded_minus_keep [OF d A_def [THEN meta_eq_to_obj_eq] _ ok]) (simp add: heap_keep_def)
  then show "call_res ?c (payload_block c \<union> A) h'"
    using c(2) lv ok unfolding call_res_def
    by (intro conjI exI [of _ vals] exI [of _ cap] exI [of _ pvs]) (auto simp: eq Un_ac)
qed

lemma sched_inv_new:
  assumes inv: "sched_inv h0 wb Q B s" and ar: "wirecall_fixed_arena_alloc (sc_call_arena (s_scheduler s), s_words s) = (p, arena, m)" "p \<noteq> 0"
    and c: "blank c" "cl_payload c = 0"
  shows "sched_inv h0 wb Q (B(p := {})) (s\<lparr>s_scheduler := (s_scheduler s)\<lparr>sc_call_arena := arena\<rparr>, s_words := m, s_calls := (s_calls s)(p := Some c)\<rparr>)"
    "s_calls s p = None" "p \<notin> set Q"
proof -
  note d = sched_invD [OF inv]
  let ?s = "s\<lparr>s_scheduler := (s_scheduler s)\<lparr>sc_call_arena := arena\<rparr>, s_words := m, s_calls := (s_calls s)(p := Some c)\<rparr>"
  have a: "p \<notin> dom (s_calls s)" "arena_inv (arena, m) (insert p (dom (s_calls s)))" using arena.alloc_law [OF d(2) ar] by simp_all
  then show np: "s_calls s p = None" by auto
  then show pQ: "p \<notin> set Q" using waiting_live [of "s_calls s" "sc_head (s_scheduler s)" Q p] d(1) by (auto simp: queue_inv_def)
  have D: "dom (s_calls ?s) = insert p (dom (s_calls s))" by simp
  have ok: "heap_ok (s_heap s)" using d(4) by (simp add: heap_owns_def)
  have other: "q \<noteq> p \<and> s_calls s q = Some e" if "s_calls ?s q = Some e" "q \<noteq> p" for q e using that by simp
  show "sched_inv h0 wb Q (B(p := {})) ?s"
  proof (rule sched_invI)
    show "queue_inv ?s Q" by (rule queue_inv_other [OF d(1) pQ, where v = "Some c"]) simp_all
    show "heap_owns ((\<Union>q\<in>dom (s_calls ?s). (B(p := {})) q) \<union> wb (s_world ?s)) h0 (s_heap ?s)"
    proof -
      have "(\<Union>q\<in>dom (s_calls ?s). (B(p := {})) q) = (\<Union>q\<in>dom (s_calls s). B q)" unfolding D using a(1) by auto
      then show ?thesis using d(4) by simp
    qed
    show "\<forall>q\<in>dom (s_calls ?s). \<forall>r\<in>dom (s_calls ?s). q \<noteq> r \<longrightarrow> (B(p := {})) q \<inter> (B(p := {})) r = {}" unfolding D using d(5) by auto
    show "\<forall>q\<in>dom (s_calls ?s). (B(p := {})) q \<inter> wb (s_world ?s) = {}" unfolding D using d(6) by auto
  next
    fix q e assume e: "s_calls ?s q = Some e"
    have "payload_block c = {}" using c(2) by (simp add: payload_block_def)
    then have "call_inv (s_thread s) (s_heap s) {} p c" using blank_inv [OF c(1) ok] by simp
    then show "call_inv (s_thread ?s) (s_heap ?s) ((B(p := {})) q) q e" using d(7) other [OF e] e by (cases "q = p") auto
    assume "q \<in> set Q"
    then show "runnable (s_thread ?s) e" using d(8) other [OF e] pQ by (cases "q = p") auto
  next
    fix co k assume "mt_cos (s_thread ?s) co = Some k"
    then obtain q e where "s_calls s q = Some e" "cl_co e = co" "co \<noteq> 0" using d(9) [of co k] by auto
    then show "\<exists>q e. s_calls ?s q = Some e \<and> cl_co e = co \<and> co \<noteq> 0" using np by (intro exI [of _ q] exI [of _ e]) auto
  qed (use a d in simp_all)
qed

lemma sched_inv_full:
  assumes inv: "sched_inv h0 wb Q B s" and ar: "wirecall_fixed_arena_alloc (sc_call_arena (s_scheduler s), s_words s) = (0, arena, m)"
  shows "sched_inv h0 wb Q B (s\<lparr>s_scheduler := (s_scheduler s)\<lparr>sc_call_arena := arena\<rparr>, s_words := m\<rparr>)"
proof -
  note d = sched_invD [OF inv]
  have "arena_inv (arena, m) (dom (s_calls s))" using arena.alloc_fails [OF d(2) ar] by simp
  then show ?thesis using d by (intro sched_invI) (simp_all add: queue_inv_def)
qed

text \<open>A call in which only what the scheduler does not look at has changed.\<close>

lemma sched_inv_fields:
  assumes inv: "sched_inv h0 wb Q B s" and p: "s_calls s p = Some c" "p \<notin> set Q"
    and c': "cl_args c' = cl_args c" "cl_argc c' = cl_argc c" "cl_payload c' = cl_payload c" "cl_response c' = cl_response c" "cl_co c' = cl_co c"
      "cl_handler c' = cl_handler c" "cl_done c' = cl_done c"
  shows "sched_inv h0 wb Q B (s\<lparr>s_calls := (s_calls s)(p := Some c')\<rparr>)"
proof -
  note d = sched_invD [OF inv]
  have ci: "call_inv (s_thread s) (s_heap s) (B p) p c" by (rule d(7) [OF p(1)])
  have ok: "heap_ok (s_heap s)" "B p \<subseteq> live (s_heap s)" using d(4) ci by (auto simp: heap_owns_def call_inv_def call_res_def)
  have "call_inv (s_thread s) (s_heap s) (B p) p c'" using ci call_res_sel [OF c'(1-4)] c'(5-7) by (simp add: call_inv_def)
  then have "sched_inv h0 wb Q (B(p := B p)) (s\<lparr>s_calls := (s_calls s)(p := Some c')\<rparr>)"
    using d(3) c'(5) heap_swap_refl [OF ok] by (intro sched_inv_call [OF inv p, where c' = c']) simp_all
  then show ?thesis by simp
qed

section \<open>Submission\<close>

lemma create_cases:
  assumes pg: "addr = 0 \<or> mt_cos t addr = None" and d: "md_alloc_cb d" "md_dealloc_cb d" "md_user_data d = p"
  obtains (fail) res t' where "mco_create sz makectx addr (Some 0) (Some d) t = Some (res, Some 0, t')" "res \<noteq> MCO_SUCCESS" "mt_cos t' = mt_cos t"
      "mt_current_co t' = mt_current_co t"
  | (created) co k t' where "mco_create sz makectx addr (Some 0) (Some d) t = Some (MCO_SUCCESS, Some co, t')" "co \<noteq> 0" "mt_cos t co = None"
      "mt_cos t' = (mt_cos t)(co := Some k)" "mt_current_co t' = mt_current_co t"
      "mc_user_data k = p" "mc_prev_co k = 0" "mc_dealloc_cb k" "mc_state k = MCO_SUSPENDED"
proof -
  note defs = mco_create_def mco_alloc_def mco_init_def mco_dealloc_def mco_create_context_def mco_layout_def co_update_def Let_def
  have idem: "(mt_cos t)(addr := None) = mt_cos t" if "addr \<noteq> 0" using pg that by auto
  consider "addr = 0" | "addr \<noteq> 0" "mco_validate_desc (Some d) \<noteq> MCO_SUCCESS" | "addr \<noteq> 0" "mco_validate_desc (Some d) = MCO_SUCCESS" "makectx \<noteq> MCO_SUCCESS"
    | "addr \<noteq> 0" "mco_validate_desc (Some d) = MCO_SUCCESS" "makectx = MCO_SUCCESS" by blast
  then show ?thesis
  proof cases
    case 1
    then have "mco_create sz makectx addr (Some 0) (Some d) t = Some (MCO_OUT_OF_MEMORY, Some 0, t)" using d by (simp add: defs)
    then show ?thesis by (rule fail) simp_all
  next
    case 2
    then have "mco_create sz makectx addr (Some 0) (Some d) t = Some (mco_validate_desc (Some d), Some 0, t\<lparr>mt_cos := (mt_cos t)(addr := None)\<rparr>)"
      using d by (simp add: defs)
    then show ?thesis using 2 idem by (intro fail) simp_all
  next
    case 3
    then have "mco_create sz makectx addr (Some 0) (Some d) t = Some (makectx, Some 0, t\<lparr>mt_cos := (mt_cos t)(addr := None)\<rparr>)"
      using d by (simp add: defs)
    then show ?thesis using 3 idem by (intro fail) simp_all
  next
    case 4
    then have "\<exists>k. mco_create sz makectx addr (Some 0) (Some d) t = Some (MCO_SUCCESS, Some addr, t\<lparr>mt_cos := (mt_cos t)(addr := Some k)\<rparr>) \<and>
        mc_user_data k = p \<and> mc_prev_co k = 0 \<and> mc_dealloc_cb k \<and> mc_state k = MCO_SUSPENDED"
      using d by (simp add: defs zero_coro_def) (rule exI, rule conjI, rule refl, simp)
    then show ?thesis using created 4(1) pg by force
  qed
qed

context library_memory
begin

lemma submit_reject_post:
  assumes C: "callbacks_ok wb seen callback" and inv: "sched_inv h0 wb Q B s" and p: "s_calls s p = Some c" "p \<notin> set Q" and done_fn: "done_fn \<noteq> 0"
  shows "\<exists>s'. submit_reject g callback message done_fn data p s = Some s' \<and> sched_inv h0 wb Q B s' \<and> s_calls s' = (s_calls s)(p := None) \<and>
    seen (s_world s') = seen (s_world s) @ [cx_call_id (cl_ctx c)]"
proof -
  let ?c = "c\<lparr>cl_error := error_text message, cl_result := -1, cl_completed := True\<rparr>"
  let ?s = "s\<lparr>s_calls := (s_calls s)(p := Some ?c)\<rparr>"
  have inv1: "sched_inv h0 wb Q B ?s" by (rule sched_inv_fields [OF inv p]) simp_all
  have p1: "s_calls ?s p = Some ?c" by simp
  obtain h' w' where r: "call_done callback done_fn data p ?s = Some (?s\<lparr>s_heap := h', s_world := w'\<rparr>)"
    "sched_inv h0 wb Q B (?s\<lparr>s_heap := h', s_world := w'\<rparr>)" "seen w' = seen (s_world ?s) @ [cx_call_id (cl_ctx ?c)]"
    using call_done_post [OF C inv1 p1 done_fn] by blast
  obtain s' where "call_free g p (?s\<lparr>s_heap := h', s_world := w'\<rparr>) = Some s'" "sched_inv h0 wb Q B s'"
    "s_calls s' = (s_calls (?s\<lparr>s_heap := h', s_world := w'\<rparr>))(p := None)" "s_world s' = w'"
    using call_free_post [OF r(2) _ p(2), of ?c] by auto
  then show ?thesis using r(1,3) p(1) by (simp add: submit_reject_def call_upd_def)
qed

end

text \<open>The calls that have been reported and those that wait, by their ids.\<close>

definition account :: "('w \<Rightarrow> u64 list) \<Rightarrow> ('f, 'w) sched \<Rightarrow> nat list \<Rightarrow> u64 multiset" where
  "account seen s Q = mset (seen (s_world s)) + image_mset (id_of s) (mset Q)"

lemma id_of_unlinked: "id_of s q = (case unlinked (s_calls s q) of None \<Rightarrow> 0 | Some c \<Rightarrow> cx_call_id (cl_ctx c))"
  by (auto simp: id_of_def unlinked_def split: option.splits)

lemma ids_cong: "(\<And>q. q \<in> set Q \<Longrightarrow> unlinked (s_calls s' q) = unlinked (s_calls s q)) \<Longrightarrow> image_mset (id_of s') (mset Q) = image_mset (id_of s) (mset Q)"
  by (rule image_mset_cong) (simp add: id_of_unlinked)

lemma account_reported:
  assumes "s_calls s' = (s_calls s)(p := v)" "p \<notin> set Q" "seen (s_world s') = seen (s_world s) @ L"
  shows "account seen s' Q = account seen s Q + mset L"
proof -
  have "image_mset (id_of s') (mset Q) = image_mset (id_of s) (mset Q)" using assms(1,2) by (intro ids_cong) auto
  then show ?thesis using assms(3) by (simp add: account_def)
qed

text \<open>The call gets its coroutine and joins the queue, or it is reported as failed.\<close>

definition call_placed :: "('w \<Rightarrow> nat set) \<Rightarrow> ('w \<Rightarrow> u64 list) \<Rightarrow> heap \<Rightarrow> nat list \<Rightarrow> nat \<Rightarrow> u64 \<Rightarrow> ('f, 'w) sched \<Rightarrow> ('f, 'w) sched \<Rightarrow> bool" where
  "call_placed wb seen h0 Q p call_id s s' \<longleftrightarrow> (\<exists>Q' B'. sched_inv h0 wb Q' B' s' \<and> account seen s' Q' = account seen s Q + {#call_id#} \<and>
     dom (s_calls s') - set Q' = dom (s_calls s) - insert p (set Q))"

lemma enqueue_placed:
  assumes inv: "sched_inv h0 wb Q B s" and p: "s_calls s p = Some c" "p \<notin> set Q" and run: "runnable (s_thread s) c"
  shows "\<exists>s'. enqueue p s = Some (0, s') \<and> call_placed wb seen h0 Q p (cx_call_id (cl_ctx c)) s s'"
proof -
  note d = sched_invD [OF inv]
  have p0: "p \<noteq> 0" using arena.bound [OF d(2)] p(1) by auto
  obtain s' where s': "enqueue p s = Some (0, s')" "queue_inv s' (Q @ [p])" "same_calls s s'" using enqueue_queue [OF d(1) p(1) p0 p(2)] by blast
  have "sched_inv h0 wb (Q @ [p]) B s'" using d(8) p(1) run by (intro sched_inv_requeue [OF inv s'(3,2)]) auto
  moreover have u: "unlinked (s_calls s' q) = unlinked (s_calls s q)" "s_world s' = s_world s" for q using s'(3) by (simp_all add: same_calls_def)
  then have "image_mset (id_of s') (mset Q) = image_mset (id_of s) (mset Q)" by (intro ids_cong) simp
  moreover have "id_of s' p = cx_call_id (cl_ctx c)" using of_unlinked(1) [of s' p c] u(1) [of p] p(1) by simp
  moreover have "dom (s_calls s') = dom (s_calls s)" by (rule same_calls_dom [OF s'(3)])
  ultimately show ?thesis using s'(1) u(2) unfolding call_placed_def account_def
    by (intro exI [of _ s'] conjI exI [of _ "Q @ [p]"] exI [of _ B]) auto
qed

context library_memory
begin

lemma reject_placed:
  assumes C: "callbacks_ok wb seen callback" and inv: "sched_inv h0 wb Q B s" and p: "s_calls s p = Some c" "p \<notin> set Q" and done_fn: "done_fn \<noteq> 0"
  shows "\<exists>s'. submit_reject g callback message done_fn data p s = Some s' \<and> call_placed wb seen h0 Q p (cx_call_id (cl_ctx c)) s s'"
proof -
  obtain s' where s': "submit_reject g callback message done_fn data p s = Some s'" "sched_inv h0 wb Q B s'" "s_calls s' = (s_calls s)(p := None)"
    "seen (s_world s') = seen (s_world s) @ [cx_call_id (cl_ctx c)]"
    using submit_reject_post [OF C inv p done_fn] by blast
  then have "account seen s' Q = account seen s Q + {#cx_call_id (cl_ctx c)#}" using account_reported [OF s'(3) p(2) s'(4)] by simp
  then show ?thesis using s' unfolding call_placed_def by (intro exI [of _ s'] conjI exI [of _ Q] exI [of _ B]) auto
qed

end

lemma call_placed_cong:
  assumes "call_placed wb seen h0 Q p i s1 s'" "s_calls s1 = (s_calls s)(p := v)" "v \<noteq> None" "s_calls s p \<noteq> None" "p \<notin> set Q" "s_world s1 = s_world s"
  shows "call_placed wb seen h0 Q p i s s'"
proof -
  have "account seen s1 Q = account seen s Q" using account_reported [of s1 s p v Q seen "[]"] assms(2,5,6) by simp
  moreover have "dom (s_calls s1) = dom (s_calls s)" using assms(2-4) by auto
  ultimately show ?thesis using assms(1) unfolding call_placed_def by simp
qed

context library_memory
begin

text \<open>With its arguments decoded, the call is placed.\<close>

lemma create_placed:
  assumes C: "callbacks_ok wb seen callback" and pf: "platform_ok pf" and inv: "sched_inv h0 wb Q B s"
    and p: "s_calls s p = Some c" "p \<notin> set Q" "cl_co c = 0" "\<not> cl_completed c" and done_fn: "done_fn \<noteq> 0"
    and desc: "desc = (mco_desc_init (pf_sizeof_context pf) CALL_ENTRY 0)\<lparr>md_user_data := p\<rparr>"
  shows "\<exists>s'. do { (res, co, t) \<leftarrow> mco_create (pf_sizeof_context pf) (pf_makectx pf) (pf_pages pf (s_thread s)) (Some 0) (Some desc) (s_thread s);
       s \<leftarrow> call_upd p (\<lambda>c. c\<lparr>cl_co := the co\<rparr>) (s\<lparr>s_thread := t, s_frames := (s_frames s)(the co := None)\<rparr>);
       if res \<noteq> MCO_SUCCESS then do {
         s \<leftarrow> submit_reject g callback (''coroutine create failed: '' @ mco_result_description res) done_fn done_data p s;
         Some (0, s) }
       else do {
         (rc, s) \<leftarrow> enqueue p s;
         if rc \<noteq> 0 then do { s \<leftarrow> call_free g p s; Some (-1, s) } else Some (0 :: int, s) } } = Some (0, s') \<and>
    call_placed wb seen h0 Q p (cx_call_id (cl_ctx c)) s s'"
proof -
  note d = sched_invD [OF inv]
  have ci: "call_inv (s_thread s) (s_heap s) (B p) p c" by (rule d(7) [OF p(1)])
  have ok: "heap_ok (s_heap s)" "B p \<subseteq> live (s_heap s)" using d(4) ci by (auto simp: heap_owns_def call_inv_def call_res_def)
  note sw = heap_swap_refl [OF ok]
  have dd: "md_alloc_cb desc" "md_dealloc_cb desc" "md_user_data desc = p" by (simp_all add: desc mco_desc_init_def mco_init_desc_sizes_def Let_def)
  have pg: "pf_pages pf (s_thread s) = 0 \<or> mt_cos (s_thread s) (pf_pages pf (s_thread s)) = None" using pf by (simp add: platform_ok_def)
  have res: "call_res (c\<lparr>cl_co := co\<rparr>) (B p) (s_heap s)" for co using ci call_res_sel [of "c\<lparr>cl_co := co\<rparr>" c] by (simp add: call_inv_def)
  from pg dd show ?thesis
  proof (cases rule: create_cases [where sz = "pf_sizeof_context pf" and makectx = "pf_makectx pf"])
    case (fail res t')
    let ?s = "s\<lparr>s_thread := t', s_frames := (s_frames s)(0 := None), s_calls := (s_calls s)(p := Some (c\<lparr>cl_co := 0\<rparr>))\<rparr>"
    have "call_inv t' (s_heap s) (B p) p (c\<lparr>cl_co := 0\<rparr>)" using ci res by (simp add: call_inv_def)
    then have "sched_inv h0 wb Q (B(p := B p)) ?s"
      using fail(3,4) d(3) sw p(3) by (intro sched_inv_call [OF inv p(1,2), where c' = "c\<lparr>cl_co := 0\<rparr>"]) simp_all
    then obtain s' where "submit_reject g callback (''coroutine create failed: '' @ mco_result_description res) done_fn done_data p ?s = Some s'"
      "call_placed wb seen h0 Q p (cx_call_id (cl_ctx c)) ?s s'"
      using reject_placed [OF C _ _ p(2) done_fn, of h0 B ?s "c\<lparr>cl_co := 0\<rparr>"] by auto
    then show ?thesis using fail(1,2) p(1,2) call_placed_cong [of wb seen h0 Q p _ ?s s' s] by (auto simp: call_upd_def)
  next
    case (created co k t')
    let ?c = "c\<lparr>cl_co := co\<rparr>"
    let ?s = "s\<lparr>s_thread := t', s_frames := (s_frames s)(co := None), s_calls := (s_calls s)(p := Some ?c)\<rparr>"
    have "call_inv t' (s_heap s) (B p) p ?c" using ci res created by (simp add: call_inv_def)
    then have inv1: "sched_inv h0 wb Q (B(p := B p)) ?s"
      using created(2-5) d(3) sw p(3) by (intro sched_inv_call [OF inv p(1,2), where c' = ?c]) auto
    have "runnable (s_thread ?s) ?c" using created p(4) by (simp add: runnable_def)
    then obtain s' where "enqueue p ?s = Some (0, s')" "call_placed wb seen h0 Q p (cx_call_id (cl_ctx c)) ?s s'"
      using enqueue_placed [OF inv1 _ p(2), of ?c seen] by auto
    then show ?thesis using created(1) p(1,2) call_placed_cong [of wb seen h0 Q p _ ?s s' s] by (auto simp: call_upd_def)
  qed
qed

lemma submit_decoded_post:
  assumes C: "callbacks_ok wb seen callback" and pf: "platform_ok pf" and inv: "sched_inv h0 wb Q B s"
    and p: "s_calls s p = Some c" "p \<notin> set Q" "blank c" "B p = payload_block c" "\<not> cl_completed c" and done_fn: "done_fn \<noteq> 0"
    and len: "cl_payload_len c \<le> WIRECALL_MAX_PAYLOAD_SIZE"
      "if cl_payload c = 0 then cl_payload_len c = 0 else hp_size (s_heap s) (cl_payload c) = Some (cl_payload_len c)"
  shows "\<exists>s'. submit_decoded pf g callback done_fn done_data p s = Some (0, s') \<and> call_placed wb seen h0 Q p (cx_call_id (cl_ctx c)) s s'"
proof -
  note d = sched_invD [OF inv]
  have ok: "heap_ok (s_heap s)" and lv: "payload_block c \<subseteq> live (s_heap s)"
    using d(4) d(7) [OF p(1)] p(4) by (auto simp: heap_owns_def call_inv_def call_res_def)
  obtain bytes where b: "(if cl_payload c = 0 then Some None else do { bs \<leftarrow> hp_read (cl_payload c) 0 (cl_payload_len c) (s_heap s); Some (Some bs) }) = Some bytes"
    "payload_ok bytes (cl_payload_len c)"
    using len by (auto simp: hp_read_def payload_ok_def payload_bytes_def split: if_splits)
  obtain rc arr' n' h' where r: "wirecall_payload_decode g bytes (cl_payload_len c) (Some (cl_args c)) (Some (cl_argc c)) (s_heap s) = Some (rc, arr', n', h')"
    "rc = 0 \<and> (\<exists>values cells count cap vals pvs. arr' = Some (values, cells) \<and> n' = Some count \<and> decoded (s_heap s) values cells count cap vals pvs h') \<or>
     rc = -1 \<and> arr' = Some (cl_args c) \<and> n' = Some (cl_argc c) \<and> heap_owns {} (s_heap s) h'"
    using payload_decode_outcome [OF ok b(2), of "cl_args c" "cl_argc c"] by blast
  let ?c = "c\<lparr>cl_args := the arr', cl_argc := the n'\<rparr>"
  let ?s = "s\<lparr>s_heap := h', s_calls := (s_calls s)(p := Some ?c)\<rparr>"
  have upd: "call_upd p (\<lambda>c. c\<lparr>cl_args := the arr', cl_argc := the n'\<rparr>) (s\<lparr>s_heap := h'\<rparr>) = Some ?s" using p(1) by (simp add: call_upd_def)
  have bl: "cl_co c = 0" "cl_handler c \<noteq> 0" "cl_done c \<noteq> 0" using p(3) by (simp_all add: blank_def)
  have inv1: "sched_inv h0 wb Q (B(p := payload_block c \<union> A)) ?s"
    if "heap_owns A (s_heap s) h'" "call_res ?c (payload_block c \<union> A) h'" for A
    using heap_swap_grow [OF that(1) lv] that(2) d(3) bl p(4)
    by (intro sched_inv_call [OF inv p(1,2), where c' = ?c]) (simp_all add: call_inv_def)
  have p1: "s_calls ?s p = Some ?c" by simp
  have placed: "call_placed wb seen h0 Q p (cx_call_id (cl_ctx c)) s s'" if "call_placed wb seen h0 Q p (cx_call_id (cl_ctx ?c)) ?s s'" for s'
    using that p(1,2) by (intro call_placed_cong [of wb seen h0 Q p _ ?s s' s "Some ?c"]) simp_all
  from r(2) show ?thesis
  proof (elim disjE conjE exE)
    fix "values" cells count cap vals pvs
    assume a: "rc = 0" "arr' = Some (values, cells)" "n' = Some count" "decoded (s_heap s) values cells count cap vals pvs h'"
    note dr = decoded_res [OF p(3) lv a(4)]
    have inv2: "sched_inv h0 wb Q (B(p := payload_block c \<union> (set (array_owns vals) \<union> (if values = 0 then {} else {values})))) ?s"
      by (rule inv1) (use dr a(2,3) in simp_all)
    show ?thesis
      using create_placed [OF C pf inv2 p1 p(2) _ _ done_fn refl, of done_data] bl(1) p(1,5) placed r(1) a(1) upd b(1)
      by (auto simp: submit_decoded_def call_get_def)
  next
    assume a: "rc = -1" "arr' = Some (cl_args c)" "n' = Some (cl_argc c)" "heap_owns {} (s_heap s) h'"
    have c: "?c = c" using a by simp
    have "payload_block c \<subseteq> live h'" "heap_ok h'" using a(4) lv by (auto simp: heap_owns_def)
    then have inv2: "sched_inv h0 wb Q (B(p := payload_block c \<union> {})) ?s" using blank_res [OF p(3)] c by (intro inv1 [OF a(4)]) simp
    show ?thesis
      using reject_placed [OF C inv2 p1 p(2) done_fn, of "''malformed payload''" done_data] p(1) placed r(1) a(1) upd b(1)
      by (auto simp: submit_decoded_def call_get_def)
  qed
qed

end

definition new_call :: "u64 \<Rightarrow> u64 \<Rightarrow> nat \<Rightarrow> nat \<Rightarrow> nat \<Rightarrow> nat \<Rightarrow> nat \<Rightarrow> wirecall_call" where
  "new_call call_id proc_id handler handler_data payload_len done_fn done_data =
     zero_call\<lparr>cl_ctx := \<lparr>cx_call_id = call_id, cx_proc_id = proc_id, cx_server = 0\<rparr>, cl_handler := handler,
       cl_handler_data := handler_data, cl_payload_len := payload_len, cl_done := done_fn,
       cl_done_data := done_data, cl_response := the (wirecall_writer_init (Some zero_writer))\<rparr>"

lemma new_call_sel [simp]:
  "cx_call_id (cl_ctx (new_call i a f fd n d dd)) = i" "cl_payload_len (new_call i a f fd n d dd) = n" "cl_payload (new_call i a f fd n d dd) = 0"
  "\<not> cl_completed (new_call i a f fd n d dd)" "f \<noteq> 0 \<Longrightarrow> d \<noteq> 0 \<Longrightarrow> blank (new_call i a f fd n d dd)"
  by (simp_all add: new_call_def zero_call_def blank_def wirecall_writer_init_def)

lemma blank_payload [simp]: "blank (c\<lparr>cl_payload := q\<rparr>) = blank c"
  by (simp add: blank_def)

text \<open>What a submission leaves: with result \<open>0\<close> the call is accounted for, with \<open>-1\<close> nothing has happened.\<close>

definition submit_done :: "('w \<Rightarrow> nat set) \<Rightarrow> ('w \<Rightarrow> u64 list) \<Rightarrow> heap \<Rightarrow> nat list \<Rightarrow> u64 \<Rightarrow> ('f, 'w) sched \<Rightarrow> int \<Rightarrow> ('f, 'w) sched \<Rightarrow> bool" where
  "submit_done wb seen h0 Q call_id s rc s' \<longleftrightarrow> (rc = 0 \<or> rc = -1) \<and> (\<exists>Q' B'. sched_inv h0 wb Q' B' s' \<and>
     account seen s' Q' = account seen s Q + (if rc = 0 then {#call_id#} else {#}) \<and> dom (s_calls s') - set Q' = dom (s_calls s) - set Q)"

lemma placed_done:
  assumes "call_placed wb seen h0 Q p call_id s1 s'" "s_calls s p = None" "s_calls s1 = (s_calls s)(p := v)" "p \<notin> set Q" "s_world s1 = s_world s"
  shows "submit_done wb seen h0 Q call_id s 0 s'"
proof -
  have "account seen s1 Q = account seen s Q" using account_reported [of s1 s p v Q seen "[]"] assms(3-5) by simp
  moreover have "dom (s_calls s1) - insert p (set Q) = dom (s_calls s) - set Q" using assms(2,3) by auto
  ultimately show ?thesis using assms(1) by (simp add: call_placed_def submit_done_def)
qed

lemma refused_done:
  assumes "sched_inv h0 wb Q B s'" "s_calls s' = s_calls s" "s_world s' = s_world s"
  shows "submit_done wb seen h0 Q call_id s (-1) s'"
proof -
  have "account seen s' Q = account seen s Q" using assms(2,3) ids_cong [of Q s' s] by (simp add: account_def)
  then show ?thesis using assms unfolding submit_done_def by auto
qed

context library_memory
begin

lemma submit_copied:
  assumes C: "callbacks_ok wb seen callback" and pf: "platform_ok pf" and inv: "sched_inv h0 wb Q B s"
    and p: "s_calls s p = Some c" "p \<notin> set Q" "B p = {}" "blank c" "cl_payload c = 0" "\<not> cl_completed c" and done_fn: "done_fn \<noteq> 0"
    and len: "0 < n" "cl_payload_len c = n" "payload_ok payload n"
  shows "\<exists>rc s'. do {
       (q, h) \<leftarrow> wirecall_mem_alloc g n (s_heap s);
       s \<leftarrow> call_upd p (\<lambda>c. c\<lparr>cl_payload := q\<rparr>) (s\<lparr>s_heap := h\<rparr>);
       if q = 0 then do { s \<leftarrow> call_free g p s; Some (-1, s) }
       else do {
         bs \<leftarrow> (if n \<le> length (the payload) then Some (take n (the payload)) else None);
         h \<leftarrow> hp_write q 0 bs (s_heap s);
         submit_decoded pf g callback done_fn done_data p (s\<lparr>s_heap := h\<rparr>) } } = Some (rc, s') \<and>
    (rc = 0 \<and> call_placed wb seen h0 Q p (cx_call_id (cl_ctx c)) s s' \<or>
     rc = -1 \<and> sched_inv h0 wb Q B s' \<and> s_calls s' = (s_calls s)(p := None) \<and> s_world s' = s_world s)"
proof -
  note d = sched_invD [OF inv]
  have ok: "heap_ok (s_heap s)" using d(4) by (simp add: heap_owns_def)
  have ln: "n \<le> length (the payload)" "n \<le> WIRECALL_MAX_PAYLOAD_SIZE"
    using len(1,3) payload_ok_not_null [OF len(3)] by (auto simp: payload_ok_def payload_bytes_def)
  have eq: "payload_block (c\<lparr>cl_payload := q\<rparr>) = (if q = 0 then {} else {q})" for q by (simp add: payload_block_def)
  have change: "sched_inv h0 wb Q (B(p := payload_block (c\<lparr>cl_payload := q\<rparr>))) (s\<lparr>s_heap := h', s_calls := (s_calls s)(p := Some (c\<lparr>cl_payload := q\<rparr>))\<rparr>)"
    if "heap_owns (payload_block (c\<lparr>cl_payload := q\<rparr>)) (s_heap s) h'" for q h'
  proof -
    have lv: "payload_block (c\<lparr>cl_payload := q\<rparr>) \<subseteq> live h'" "heap_ok h'" using that by (auto simp: heap_owns_def)
    have "call_inv (s_thread s) h' (payload_block (c\<lparr>cl_payload := q\<rparr>)) p (c\<lparr>cl_payload := q\<rparr>)" using p(4) by (intro blank_inv lv) simp
    then show ?thesis using heap_swap_grow [OF that, of "{}"] d(3) p(3)
      by (intro sched_inv_call [OF inv p(1,2), where c' = "c\<lparr>cl_payload := q\<rparr>"]) simp_all
  qed
  from ok len(1) show ?thesis
  proof (cases rule: alloc_cases)
    case (fail h')
    let ?s = "s\<lparr>s_heap := h', s_calls := (s_calls s)(p := Some (c\<lparr>cl_payload := 0\<rparr>))\<rparr>"
    have "sched_inv h0 wb Q B ?s" using change [of 0 h'] fail(2) eq p(3) by (simp add: fun_upd_idem)
    then show ?thesis using call_free_post [of h0 wb Q B ?s p "c\<lparr>cl_payload := 0\<rparr>"] p(2) fail(1) p(1) by (auto simp: call_upd_def)
  next
    case (fresh q h')
    obtain b where b: "hp_write q 0 (take n (the payload)) h' = Some (h'\<lparr>hp_bytes := b\<rparr>)" "\<forall>r. r \<noteq> q \<longrightarrow> b r = hp_bytes h' r"
      using hp_write_Some [OF fresh(4), of 0 "take n (the payload)"] by auto
    let ?c = "c\<lparr>cl_payload := q\<rparr>" and ?h = "h'\<lparr>hp_bytes := b\<rparr>"
    let ?s = "s\<lparr>s_heap := ?h, s_calls := (s_calls s)(p := Some ?c)\<rparr>"
    have "heap_owns {q} (s_heap s) ?h" using heap_owns_write [OF fresh(3) _ b(2)] by simp
    then have inv1: "sched_inv h0 wb Q (B(p := payload_block ?c)) ?s" using change [of q ?h] eq fresh(2) by simp
    have e: "\<exists>s'. submit_decoded pf g callback done_fn done_data p ?s = Some (0, s') \<and> call_placed wb seen h0 Q p (cx_call_id (cl_ctx ?c)) ?s s'"
      using p len ln fresh by (intro submit_decoded_post [OF C pf inv1 _ _ _ _ _ done_fn]) simp_all
    then obtain s' where s': "submit_decoded pf g callback done_fn done_data p ?s = Some (0, s')" "call_placed wb seen h0 Q p (cx_call_id (cl_ctx c)) ?s s'"
      by auto
    have "call_placed wb seen h0 Q p (cx_call_id (cl_ctx c)) s s'"
      using s'(2) p(1,2) by (intro call_placed_cong [of wb seen h0 Q p _ ?s s' s "Some ?c"]) simp_all
    moreover have comm: "s\<lparr>s_calls := (s_calls s)(p := Some ?c), s_heap := ?h\<rparr> = ?s" by (cases s) simp
    ultimately show ?thesis using fresh(1,2) b(1) ln(1) p(1) s'(1) by (auto simp: call_upd_def comm)
  qed
qed

lemma submit_post:
  assumes C: "callbacks_ok wb seen callback" and pf: "platform_ok pf" and inv: "sched_inv h0 wb Q B s"
    and done_fn: "done_fn \<noteq> 0" and len: "payload_ok payload n"
  shows "\<exists>rc s'. wirecall_scheduler_submit pf g callback scheduler call_id proc_id handler handler_data payload n done_fn done_data s = Some (rc, s') \<and>
    submit_done wb seen h0 Q call_id s rc s'"
proof (cases "scheduler = 0 \<or> handler = 0")
  case True
  then show ?thesis using refused_done [OF inv refl refl] by (auto simp: wirecall_scheduler_submit_def)
next
  case False
  obtain p arena m where ar: "wirecall_fixed_arena_alloc (sc_call_arena (s_scheduler s), s_words s) = (p, arena, m)" by (metis prod_cases3)
  have null: "\<not> (payload = None \<and> n > 0)" by (rule payload_ok_not_null [OF len])
  let ?s0 = "s\<lparr>s_scheduler := (s_scheduler s)\<lparr>sc_call_arena := arena\<rparr>, s_words := m\<rparr>"
  show ?thesis
  proof (cases "p = 0")
    case True
    then have "submit_done wb seen h0 Q call_id s (-1) ?s0" using sched_inv_full [OF inv] ar by (intro refused_done) simp_all
    then show ?thesis using False null ar True by (auto simp: wirecall_scheduler_submit_def)
  next
    case p0: False
    let ?c = "new_call call_id proc_id handler handler_data n done_fn done_data"
    let ?s = "s\<lparr>s_scheduler := (s_scheduler s)\<lparr>sc_call_arena := arena\<rparr>, s_words := m, s_calls := (s_calls s)(p := Some ?c)\<rparr>"
    have c: "blank ?c" using False done_fn by simp
    note new = sched_inv_new [OF inv ar p0 c new_call_sel(3)]
    have sub: "wirecall_scheduler_submit pf g callback scheduler call_id proc_id handler handler_data payload n done_fn done_data s =
      (if n > 0 then do {
         (q, h) \<leftarrow> wirecall_mem_alloc g n (s_heap ?s);
         s \<leftarrow> call_upd p (\<lambda>c. c\<lparr>cl_payload := q\<rparr>) (?s\<lparr>s_heap := h\<rparr>);
         if q = 0 then do { s \<leftarrow> call_free g p s; Some (-1, s) }
         else do {
           bs \<leftarrow> (if n \<le> length (the payload) then Some (take n (the payload)) else None);
           h \<leftarrow> hp_write q 0 bs (s_heap s);
           submit_decoded pf g callback done_fn done_data p (s\<lparr>s_heap := h\<rparr>) } }
       else submit_decoded pf g callback done_fn done_data p ?s)"
      using False null ar p0 by (cases payload) (simp_all add: wirecall_scheduler_submit_def new_call_def cong: if_cong)
    have pl: "payload_block ?c = {}" by (simp add: payload_block_def)
    have ln: "n \<le> WIRECALL_MAX_PAYLOAD_SIZE" using len by (simp add: payload_ok_def)
    have done_sub: "submit_done wb seen h0 Q call_id s 0 s'" if "call_placed wb seen h0 Q p call_id ?s s'" for s'
      using placed_done [OF that new(2) _ new(3), of "Some ?c"] by simp
    show ?thesis
    proof (cases "n > 0")
      case True
      have "s_calls ?s p = Some ?c" by simp
      from submit_copied [OF C pf new(1) this new(3) _ c _ _ done_fn True _ len, of done_data]
      obtain rc s' where r: "wirecall_scheduler_submit pf g callback scheduler call_id proc_id handler handler_data payload n done_fn done_data s = Some (rc, s')"
        "rc = 0 \<and> call_placed wb seen h0 Q p call_id ?s s' \<or>
         rc = -1 \<and> sched_inv h0 wb Q (B(p := {})) s' \<and> s_calls s' = (s_calls ?s)(p := None) \<and> s_world s' = s_world ?s"
        using sub True by auto
      have "(s_calls ?s)(p := None) = s_calls s" using new(2) by (auto simp: fun_eq_iff)
      then have "submit_done wb seen h0 Q call_id s rc s'" using r(2) done_sub refused_done [of h0 wb Q "B(p := {})" s' s] by auto
      then show ?thesis using r(1) by blast
    next
      case n0: False
      have "\<exists>s'. submit_decoded pf g callback done_fn done_data p ?s = Some (0, s') \<and> call_placed wb seen h0 Q p (cx_call_id (cl_ctx ?c)) ?s s'"
        using c new(3) ln n0 pl by (intro submit_decoded_post [OF C pf new(1) _ _ _ _ _ done_fn]) simp_all
      then show ?thesis using sub n0 done_sub by auto
    qed
  qed
qed

end

section \<open>The life of a call\<close>

text \<open>
  What a worker asks of its scheduler: to take a call (id, procedure, handler and its data, payload and its length, callback and
  its data), or to run.  The results are those of the submissions.
\<close>

datatype sched_op = Submit u64 u64 nat nat "u8 list option" nat nat nat | Run_Ready

fun run_sched ::
  "platform \<Rightarrow> wirecall_allocator \<Rightarrow> ('f, 'w) handlers \<Rightarrow> 'w callbacks \<Rightarrow> nat \<Rightarrow> sched_op list \<Rightarrow> ('f, 'w) sched \<Rightarrow> (int list \<times> ('f, 'w) sched) option" where
  "run_sched pf g handler callback scheduler [] s = Some ([], s)"
| "run_sched pf g handler callback scheduler (Submit call_id proc_id f data payload n done_fn done_data # ops) s = do {
     (rc, s) \<leftarrow> wirecall_scheduler_submit pf g callback scheduler call_id proc_id f data payload n done_fn done_data s;
     (rcs, s) \<leftarrow> run_sched pf g handler callback scheduler ops s;
     Some (rc # rcs, s) }"
| "run_sched pf g handler callback scheduler (Run_Ready # ops) s = do {
     s \<leftarrow> wirecall_scheduler_run_ready pf g handler callback scheduler s;
     run_sched pf g handler callback scheduler ops s }"

text \<open>A payload is as long as it is said to be and within the limit for packets, and there is a callback.\<close>

fun op_ok :: "sched_op \<Rightarrow> bool" where
  "op_ok (Submit call_id proc_id f data payload n done_fn done_data) \<longleftrightarrow> payload_ok payload n \<and> done_fn \<noteq> 0"
| "op_ok Run_Ready \<longleftrightarrow> True"

text \<open>The ids of the calls that were taken.\<close>

fun accepted :: "sched_op list \<Rightarrow> int list \<Rightarrow> u64 multiset" where
  "accepted (Submit call_id proc_id f data payload n done_fn done_data # ops) (rc # rcs) = (if rc = 0 then {#call_id#} else {#}) + accepted ops rcs"
| "accepted (Run_Ready # ops) rcs = accepted ops rcs"
| "accepted ops rcs = {#}"

context library_memory
begin

lemma run_ready_post:
  assumes H: "handlers_ok wb seen rank handler" and C: "callbacks_ok wb seen callback" and sc: "scheduler \<noteq> 0" and inv: "sched_inv h0 wb Q B s"
  shows "\<exists>s' B'. wirecall_scheduler_run_ready pf g handler callback scheduler s = Some s' \<and> sched_inv h0 wb [] B' s' \<and>
    account seen s' [] = account seen s Q \<and> dom (s_calls s') = dom (s_calls s) - set Q"
  using run_ready_loop_post [OF H C inv, of pf] sc by (auto simp: wirecall_scheduler_run_ready_def account_def)

lemma run_sched_post:
  assumes H: "handlers_ok wb seen rank handler" and C: "callbacks_ok wb seen callback" and pf: "platform_ok pf" and sc: "scheduler \<noteq> 0"
  shows "sched_inv h0 wb Q B s \<Longrightarrow> list_all op_ok ops \<Longrightarrow> \<exists>rcs s' Q' B'. run_sched pf g handler callback scheduler ops s = Some (rcs, s') \<and>
    sched_inv h0 wb Q' B' s' \<and> account seen s' Q' = account seen s Q + accepted ops rcs \<and> dom (s_calls s') - set Q' = dom (s_calls s) - set Q"
proof (induction ops arbitrary: Q B s)
  case Nil
  then show ?case by auto
next
  case (Cons a ops)
  show ?case
  proof (cases a)
    case (Submit i pid f data payload n done_fn done_data)
    then have "done_fn \<noteq> 0" "payload_ok payload n" using Cons.prems(2) by simp_all
    then obtain rc s1 where r: "wirecall_scheduler_submit pf g callback scheduler i pid f data payload n done_fn done_data s = Some (rc, s1)"
      "submit_done wb seen h0 Q i s rc s1" using submit_post [OF C pf Cons.prems(1)] by blast
    then obtain Q1 B1 where s1: "sched_inv h0 wb Q1 B1 s1" "account seen s1 Q1 = account seen s Q + (if rc = 0 then {#i#} else {#})"
      "dom (s_calls s1) - set Q1 = dom (s_calls s) - set Q" by (auto simp: submit_done_def)
    then obtain rcs s' Q' B' where "run_sched pf g handler callback scheduler ops s1 = Some (rcs, s')" "sched_inv h0 wb Q' B' s'"
      "account seen s' Q' = account seen s1 Q1 + accepted ops rcs" "dom (s_calls s') - set Q' = dom (s_calls s1) - set Q1"
      using Cons.IH [OF s1(1)] Cons.prems(2) by auto
    then show ?thesis using Submit r(1) s1 by (intro exI [of _ "rc # rcs"] exI [of _ s'] exI [of _ Q'] exI [of _ B']) (simp add: add.assoc)
  next
    case Run_Ready
    obtain s1 B1 where s1: "wirecall_scheduler_run_ready pf g handler callback scheduler s = Some s1" "sched_inv h0 wb [] B1 s1"
      "account seen s1 [] = account seen s Q" "dom (s_calls s1) = dom (s_calls s) - set Q"
      using run_ready_post [OF H C sc Cons.prems(1)] by blast
    then obtain rcs s' Q' B' where "run_sched pf g handler callback scheduler ops s1 = Some (rcs, s')" "sched_inv h0 wb Q' B' s'"
      "account seen s' Q' = account seen s1 [] + accepted ops rcs" "dom (s_calls s') - set Q' = dom (s_calls s1) - set []"
      using Cons.IH [OF s1(2)] Cons.prems(2) by auto
    then show ?thesis using Run_Ready s1 by (intro exI [of _ rcs] exI [of _ s'] exI [of _ Q'] exI [of _ B']) simp
  qed
qed

end

text \<open>
  C10: Every call that the scheduler takes is completed exactly once.  Let handlers write only to their responses and yield finitely often, let
  callbacks change nothing but their own memory, and let nothing be waiting.  Then every sequence of calls of \<open>wirecall_scheduler_submit\<close> and
  \<open>wirecall_scheduler_run_ready\<close>, followed by one more run, ends without undefined behaviour, whatever payloads are malformed and whatever allocations fail; the
  callbacks have been told of exactly the calls whose submission returned \<open>0\<close>, each once; and no slot, no coroutine and no block of memory is
  left of any call.
\<close>

theorem scheduler_completes_every_call:
  assumes "handlers_ok wb seen rank handler" "callbacks_ok wb seen callback" "platform_ok pf" "scheduler \<noteq> 0"
    and "sched_inv h0 wb [] B s" "s_calls s = Map.empty" "list_all op_ok ops"
  shows "\<exists>rcs s1 s2. run_sched pf no_allocator handler callback scheduler ops s = Some (rcs, s1) \<and>
    wirecall_scheduler_run_ready pf no_allocator handler callback scheduler s1 = Some s2 \<and>
    mset (seen (s_world s2)) = mset (seen (s_world s)) + accepted ops rcs \<and>
    s_calls s2 = Map.empty \<and> mt_cos (s_thread s2) = Map.empty \<and> heap_owns (wb (s_world s2)) h0 (s_heap s2)"
proof -
  obtain rcs s1 Q1 B1 where s1: "run_sched pf no_allocator handler callback scheduler ops s = Some (rcs, s1)" "sched_inv h0 wb Q1 B1 s1"
    "account seen s1 Q1 = account seen s [] + accepted ops rcs" "dom (s_calls s1) - set Q1 = dom (s_calls s) - set []"
    using plain_memory.run_sched_post [OF assms(1-5,7)] by blast
  obtain s2 B2 where s2: "wirecall_scheduler_run_ready pf no_allocator handler callback scheduler s1 = Some s2" "sched_inv h0 wb [] B2 s2"
    "account seen s2 [] = account seen s1 Q1" "dom (s_calls s2) = dom (s_calls s1) - set Q1"
    using plain_memory.run_ready_post [OF assms(1,2,4) s1(2)] by blast
  note d = sched_invD [OF s2(2)]
  have e: "s_calls s2 = Map.empty" using s2(4) s1(4) assms(6) by simp
  have "mt_cos (s_thread s2) co = None" for co using d(9) [of co] e by (cases "mt_cos (s_thread s2) co") auto
  then have "mt_cos (s_thread s2) = Map.empty" by (simp add: fun_eq_iff)
  moreover have "heap_owns (wb (s_world s2)) h0 (s_heap s2)" using d(4) e by simp
  moreover have "mset (seen (s_world s2)) = mset (seen (s_world s)) + accepted ops rcs" using s2(3) s1(3) by (simp add: account_def)
  ultimately show ?thesis using s1(1) s2(1) e by blast
qed

text \<open>A handler that yields once and then returns, a callback that takes a note, and an empty scheduler.\<close>

definition polite_handler :: "(unit, u64 list) handlers" where
  "polite_handler f fr c h w = Some (if fr = None then Inl () else Inr 0, cl_response c, h, w)"

definition noting :: "u64 list callbacks" where
  "noting d c data h w = Some (h, w @ [cx_call_id (cl_ctx c)])"

definition one_page :: platform where
  "one_page = \<lparr>pf_sizeof_context = 168, pf_pages = (\<lambda>t. if mt_cos t 8192 = None then 8192 else 0), pf_makectx = MCO_SUCCESS, pf_stack_addr = mc_stack_base\<rparr>"

definition empty_sched :: "(unit, u64 list) sched" where
  "empty_sched = \<lparr>s_scheduler = \<lparr>sc_head = 0, sc_tail = 0, sc_call_arena = snd (wirecall_fixed_arena_init (\<lambda>_. 4096) sizeof_call 4)\<rparr>,
     s_words = (\<lambda>_. 0), s_calls = Map.empty, s_thread = no_coroutines, s_frames = (\<lambda>_. None), s_heap = heap0, s_world = []\<rparr>"

lemma polite_handler_ok: "handlers_ok (\<lambda>_. {}) (\<lambda>w. w) (\<lambda>f fr. if fr = None then 1 else 0) polite_handler"
  by (auto simp: handlers_ok_def polite_handler_def call_res_def writer_frame_def heap_keep_def)

lemma noting_ok: "callbacks_ok (\<lambda>_. {}) (\<lambda>w. w) noting"
  by (auto simp: callbacks_ok_def noting_def heap_keep_def call_res_def writer_inv_def)

lemma empty_sched_inv: "sched_inv heap0 (\<lambda>_. {}) [] (\<lambda>_. {}) empty_sched"
proof -
  have "wirecall_fixed_arena_init (\<lambda>_. 4096) sizeof_call 4 = (0, snd (wirecall_fixed_arena_init (\<lambda>_. 4096) sizeof_call 4))"
    using arena_align_eq [of 296]
    by (simp add: wirecall_fixed_arena_init_def zero_arena_def sz_mul_def SIZE_MAX_def sizeof_ptr_def sizeof_call_def)
  then have "arena_inv (snd (wirecall_fixed_arena_init (\<lambda>_. 4096) sizeof_call 4), \<lambda>_. 0) {}"
    by (rule arena_init_inv) (simp add: SIZE_MAX_def sizeof_call_def)
  then show ?thesis
    by (intro sched_invI) (simp_all add: empty_sched_def queue_inv_def no_coroutines_def heap_owns_refl heap_ok_def heap0_def)
qed

theorem scheduler_completes_every_call_witness:
  "\<exists>rcs s1 s2. run_sched one_page no_allocator polite_handler noting 1
      [Submit 7 1 5 0 (Some [0]) 1 6 0, Run_Ready, Submit 8 1 5 0 (Some [99]) 1 6 0, Submit 9 1 0 0 None 0 6 0, Submit 10 1 5 0 None 0 6 0] empty_sched = Some (rcs, s1) \<and>
    wirecall_scheduler_run_ready one_page no_allocator polite_handler noting 1 s1 = Some s2 \<and>
    mset (s_world s2) = accepted [Submit 7 1 5 0 (Some [0]) 1 6 0, Run_Ready, Submit 8 1 5 0 (Some [99]) 1 6 0, Submit 9 1 0 0 None 0 6 0,
      Submit 10 1 5 0 None 0 6 0] rcs \<and> s_calls s2 = Map.empty"
proof -
  let ?ops = "[Submit 7 1 5 0 (Some [0]) 1 6 0, Run_Ready, Submit 8 1 5 0 (Some [99]) 1 6 0, Submit 9 1 0 0 None 0 6 0, Submit 10 1 5 0 None 0 6 0]"
  have pf: "platform_ok one_page" by (simp add: platform_ok_def one_page_def)
  have e: "s_calls empty_sched = Map.empty" "s_world empty_sched = []" by (simp_all add: empty_sched_def)
  have ops: "list_all op_ok ?ops" by (simp add: payload_ok_def payload_bytes_def WIRECALL_MAX_PAYLOAD_SIZE_def)
  have sc: "(1 :: nat) \<noteq> 0" by simp
  show ?thesis using scheduler_completes_every_call [OF polite_handler_ok noting_ok pf sc empty_sched_inv e(1) ops] e(2) by auto
qed

end
