(* ===== verification/Platform.thy ===== *)
theory Platform
  imports Memory
begin

text \<open>
  The platform layer in its POSIX variant, \<^verbatim>\<open>include/platform.h\<close>, and growing byte buffers.

  The operating system is not part of the program: its calls are the members of the record
  \<open>os\<close>, functions on the state \<open>'n\<close> of the world outside, and the theorems that depend on how
  they behave say so in their hypotheses.  A call that sets \<open>errno\<close> returns \<open>Inl\<close> of its value.
  Numbers of errors and flags are those of Linux.
\<close>

section \<open>System calls\<close>

datatype sockaddr =
    Sockaddr_in u16 "u8 list"
  | Sockaddr_in6 u16 "u8 list"
  | Sockaddr_other nat "u8 list"

record 'n os =
  os_sysconf :: "'n \<Rightarrow> int \<times> 'n"
  os_getaddrinfo :: "u8 list option \<Rightarrow> u8 list \<Rightarrow> bool \<Rightarrow> 'n \<Rightarrow> (int \<times> sockaddr list) \<times> 'n"
  os_socket :: "sockaddr \<Rightarrow> 'n \<Rightarrow> int \<times> 'n"
  os_connect :: "int \<Rightarrow> sockaddr \<Rightarrow> 'n \<Rightarrow> int \<times> 'n"
  os_bind :: "int \<Rightarrow> sockaddr \<Rightarrow> 'n \<Rightarrow> int \<times> 'n"
  os_getsockname :: "int \<Rightarrow> 'n \<Rightarrow> sockaddr option \<times> 'n"
  os_listen :: "int \<Rightarrow> 'n \<Rightarrow> int \<times> 'n"
  os_accept :: "int \<Rightarrow> 'n \<Rightarrow> (int + int) \<times> 'n"
  os_fcntl_get :: "int \<Rightarrow> 'n \<Rightarrow> int \<times> 'n"
  os_fcntl_set :: "int \<Rightarrow> u32 \<Rightarrow> 'n \<Rightarrow> int \<times> 'n"
  os_setsockopt :: "int \<Rightarrow> 'n \<Rightarrow> int \<times> 'n"
  os_close :: "int \<Rightarrow> 'n \<Rightarrow> int \<times> 'n"
  os_recv :: "int \<Rightarrow> nat \<Rightarrow> 'n \<Rightarrow> (int + u8 list) \<times> 'n"
  os_send :: "int \<Rightarrow> u8 list \<Rightarrow> 'n \<Rightarrow> (int + nat) \<times> 'n"
  os_sendmsg :: "int \<Rightarrow> u8 list list \<Rightarrow> 'n \<Rightarrow> (int + nat) \<times> 'n"
  os_clock :: "'n \<Rightarrow> (u64 \<times> u64) \<times> 'n"

definition EINTR :: int where "EINTR = 4"
definition EAGAIN :: int where "EAGAIN = 11"
definition EWOULDBLOCK :: int where "EWOULDBLOCK = 11"
definition O_NONBLOCK :: u32 where "O_NONBLOCK = 0x800"

section \<open>The wrappers\<close>

definition wirecall_cpu_count :: "'n os \<Rightarrow> 'n \<Rightarrow> u32 \<times> 'n" where
  "wirecall_cpu_count os n = (let (k, n) = os_sysconf os n in (if k > 0 then word_of_int k else 1, n))"

definition wirecall_socket_interrupted :: "int \<Rightarrow> bool" where
  "wirecall_socket_interrupted error \<longleftrightarrow> error = EINTR"

definition wirecall_socket_would_block :: "int \<Rightarrow> bool" where
  "wirecall_socket_would_block error \<longleftrightarrow> error = EAGAIN \<or> error = EWOULDBLOCK"

definition wirecall_socket_close :: "'n os \<Rightarrow> int \<Rightarrow> 'n \<Rightarrow> int \<times> 'n" where
  "wirecall_socket_close os fd n = os_close os fd n"

definition wirecall_socket_set_nonblock :: "'n os \<Rightarrow> int \<Rightarrow> 'n \<Rightarrow> int \<times> 'n" where
  "wirecall_socket_set_nonblock os fd n = (
     let (flags, n) = os_fcntl_get os fd n
     in if flags < 0 then (-1, n) else os_fcntl_set os fd (word_of_int flags OR O_NONBLOCK) n)"

definition wirecall_socket_create :: "'n os \<Rightarrow> sockaddr \<Rightarrow> 'n \<Rightarrow> int \<times> 'n" where
  "wirecall_socket_create os addr n = os_socket os addr n"

definition wirecall_socket_accept :: "'n os \<Rightarrow> int \<Rightarrow> 'n \<Rightarrow> (int + int) \<times> 'n" where
  "wirecall_socket_accept os fd n = os_accept os fd n"

definition wirecall_socket_connect :: "'n os \<Rightarrow> int \<Rightarrow> sockaddr \<Rightarrow> 'n \<Rightarrow> int \<times> 'n" where
  "wirecall_socket_connect os fd addr n = os_connect os fd addr n"

definition wirecall_socket_bind :: "'n os \<Rightarrow> int \<Rightarrow> sockaddr \<Rightarrow> 'n \<Rightarrow> int \<times> 'n" where
  "wirecall_socket_bind os fd addr n = os_bind os fd addr n"

definition wirecall_socket_getsockname :: "'n os \<Rightarrow> int \<Rightarrow> 'n \<Rightarrow> sockaddr option \<times> 'n" where
  "wirecall_socket_getsockname os fd n = os_getsockname os fd n"

definition wirecall_socket_listen :: "'n os \<Rightarrow> int \<Rightarrow> 'n \<Rightarrow> int \<times> 'n" where
  "wirecall_socket_listen os fd n = os_listen os fd n"

definition wirecall_socket_setsockopt :: "'n os \<Rightarrow> int \<Rightarrow> 'n \<Rightarrow> int \<times> 'n" where
  "wirecall_socket_setsockopt os fd n = os_setsockopt os fd n"

definition wirecall_socket_recv :: "'n os \<Rightarrow> int \<Rightarrow> nat \<Rightarrow> 'n \<Rightarrow> (int + u8 list) \<times> 'n" where
  "wirecall_socket_recv os fd len n = os_recv os fd len n"

definition wirecall_socket_send :: "'n os \<Rightarrow> int \<Rightarrow> u8 list \<Rightarrow> 'n \<Rightarrow> (int + nat) \<times> 'n" where
  "wirecall_socket_send os fd bs n = os_send os fd bs n"

definition wirecall_time_ns :: "'n os \<Rightarrow> 'n \<Rightarrow> u64 \<times> 'n" where
  "wirecall_time_ns os n = (let ((sec, nsec), n) = os_clock os n in (sec * 1000000000 + nsec, n))"

section \<open>Sizes\<close>

text \<open>A difference of \<open>size_t\<close> values wraps around as well.\<close>

definition sz_sub :: "nat \<Rightarrow> nat \<Rightarrow> nat" where
  "sz_sub a b = (if b \<le> a then a - b else a + Suc SIZE_MAX - b)"

lemma sz_sub_exact [simp]: "b \<le> a \<Longrightarrow> sz_sub a b = a - b"
  by (simp add: sz_sub_def)

text \<open>
  The loop \<^verbatim>\<open>while (next_cap < need) next_cap *= 2u;\<close> that the client and the server both have.
  The capacity wraps to \<open>0\<close> when no power of two times it reaches \<open>need\<close>, and then it never ends.
\<close>

partial_function (option) cap_loop :: "nat \<Rightarrow> nat \<Rightarrow> nat option" where
  "cap_loop next_cap need = (if next_cap < need then cap_loop (sz_mul next_cap 2) need else Some next_cap)"

lemma cap_loop_Some:
  assumes "0 < cap" "2 * need \<le> SIZE_MAX"
  shows "\<exists>c. cap_loop cap need = Some c \<and> need \<le> c \<and> cap \<le> c \<and> (c = cap \<or> c < 2 * need)"
  using assms
proof (induction "need - cap" arbitrary: cap rule: less_induct)
  case less
  show ?case
  proof (cases "cap < need")
    case True
    then have m: "sz_mul cap 2 = cap * 2" using less.prems by (intro sz_mul_exact) simp
    show ?thesis
    proof (cases "cap * 2 < need")
      case True
      then have "\<exists>c. cap_loop (cap * 2) need = Some c \<and> need \<le> c \<and> cap * 2 \<le> c \<and> (c = cap * 2 \<or> c < 2 * need)"
        using less.prems \<open>cap < need\<close> by (intro less.hyps) auto
      then show ?thesis using \<open>cap < need\<close> m True by (subst cap_loop.simps) auto
    next
      case False
      then have "cap_loop (cap * 2) need = Some (cap * 2)" by (subst cap_loop.simps) simp
      then show ?thesis using \<open>cap < need\<close> m False by (subst cap_loop.simps) auto
    qed
  next
    case False
    then show ?thesis by (subst cap_loop.simps) simp
  qed
qed

section \<open>Blocks that grow\<close>

text \<open>Only the block at \<open>p\<close> has changed, and is now at \<open>p'\<close>; if it has moved, then to an address that was not live.\<close>

definition blk :: "nat \<Rightarrow> nat set" where
  "blk p = (if p = 0 then {} else {p})"

definition block_frame :: "nat \<Rightarrow> heap \<Rightarrow> nat \<Rightarrow> heap \<Rightarrow> bool" where
  "block_frame p h p' h' \<longleftrightarrow> heap_keep (live h - blk p) h h' \<and> live h' = live h - blk p \<union> blk p' \<and> (p' = p \<or> p' \<notin> live h)"

lemma blk_simps [simp]: "blk 0 = {}" "p \<noteq> 0 \<Longrightarrow> blk p = {p}"
  by (simp_all add: blk_def)

lemma block_frame_refl: "blk p \<subseteq> live h \<Longrightarrow> block_frame p h p h"
  by (auto simp: block_frame_def)

lemma block_frame_same: "blk p \<subseteq> live h \<Longrightarrow> heap_same h h' \<Longrightarrow> block_frame p h p h'"
  by (auto simp: block_frame_def heap_same_def heap_keep_def live_def)

lemma block_frame_trans:
  assumes "block_frame p h p1 h1" "block_frame p1 h1 p2 h2" "heap_ok h"
  shows "block_frame p h p2 h2"
proof -
  have 0: "0 \<notin> live h" using assms(3) by (simp add: live_def)
  then have "live h - blk p \<subseteq> live h1 - blk p1"
    using assms(1) by (auto simp: block_frame_def blk_def split: if_splits)
  then have "heap_keep (live h - blk p) h1 h2"
    using assms(2) by (auto simp: block_frame_def intro: heap_keep_mono)
  moreover have "live h2 = live h - blk p \<union> blk p2" "p2 = p \<or> p2 \<notin> live h"
    using assms(1,2) 0 by (auto simp: block_frame_def blk_def split: if_splits)
  ultimately show ?thesis
    using assms(1) by (auto simp: block_frame_def intro: heap_keep_trans)
qed

lemma block_frame_write:
  "hp_size h p = Some k \<Longrightarrow> p \<noteq> 0 \<Longrightarrow> \<forall>q. q \<noteq> p \<longrightarrow> b q = hp_bytes h q \<Longrightarrow> block_frame p h p (h\<lparr>hp_bytes := b\<rparr>)"
  by (auto simp: block_frame_def blk_def heap_keep_def live_def)

lemma block_frame_keep: "block_frame p h p' h' \<Longrightarrow> P \<subseteq> live h \<Longrightarrow> P \<inter> blk p = {} \<Longrightarrow> heap_keep P h h'"
  by (auto simp: block_frame_def intro: heap_keep_mono)

lemma block_frame_owns:
  assumes "heap_owns (blk p \<union> B) h0 h" "block_frame p h p' h'" "blk p \<inter> B = {}" "heap_ok h'"
  shows "heap_owns (blk p' \<union> B) h0 h'" "blk p' \<inter> B = {}"
proof -
  have "0 \<notin> live h" using heap_owns_ok [OF assms(1)] by (simp add: live_def)
  then have "(blk p' - blk p) \<inter> live h = {}"
    using assms(2) by (auto simp: block_frame_def blk_def split: if_splits)
  then show "heap_owns (blk p' \<union> B) h0 h'" "blk p' \<inter> B = {}"
    using heap_owns_change [OF assms(1,4), of "blk p'"] assms(2,3) by (auto simp: block_frame_def)
qed

text \<open>The first \<open>n\<close> bytes of a block.\<close>

lemma hp_read_Some: "hp_size h p = Some k \<Longrightarrow> off + n \<le> k \<Longrightarrow> hp_read p off n h = Some (map (hp_bytes h p) [off..<off + n])"
  by (simp add: hp_read_def)

context library_memory
begin

lemma realloc_block:
  assumes "heap_ok h" "0 < n" "if p = 0 then k = 0 else hp_size h p = Some k" "k \<le> n"
  obtains (fail) h' where "wirecall_mem_realloc g p n h = Some (0, h')" "heap_ok h'" "heap_same h h'" "block_frame p h p h'"
      "\<not> reliable h"
  | (grown) q h' where "wirecall_mem_realloc g p n h = Some (q, h')" "q \<noteq> 0" "heap_ok h'" "hp_size h' q = Some n"
      "\<forall>i<k. hp_bytes h' q i = hp_bytes h p i" "block_frame p h q h'" "reliable h \<longrightarrow> reliable h'"
proof -
  have pk: "p = 0 \<or> hp_size h p = Some k" using assms(3) by (auto split: if_splits)
  have live: "blk p \<subseteq> live h" using assms(3) by (auto simp: blk_def live_def split: if_splits)
  from assms(1,2) pk show ?thesis
  proof (cases rule: realloc_cases)
    case f: (fail h')
    then show ?thesis using block_frame_same [OF live] by (intro fail)
  next
    case f: (fresh q h')
    have "block_frame p h q h'"
      using alloc_post_owns [OF f(4)] alloc_post_keep [OF f(4)] f(2,3)
      by (auto simp: block_frame_def heap_owns_def)
    then show ?thesis using f assms(3) by (intro grown [of q h']) (auto simp: alloc_post_def)
  next
    case f: (grown q h')
    have eq: "hp_size h' r = (if r = q then Some n else if r = p then None else hp_size h r)" for r
      using f(2,4) by (auto simp: realloc_post_def)
    have new: "q = p \<or> q \<notin> live h" using f(2,4) by (auto simp: realloc_post_def live_def)
    have "live h' = insert q (live h - {p})" by (auto simp: live_def eq)
    then have "block_frame p h q h'"
      using realloc_post_keep [OF f(4)] new f(2,3) by (simp add: block_frame_def)
    then show ?thesis using f assms(4) by (intro grown [of q h']) (auto simp: realloc_post_def)
  qed
qed

end

end
