(* ===== verification/Client.thy ===== *)
theory Client
  imports Platform Payload_Decoder Packet
begin

text \<open>
  The client, \<^verbatim>\<open>src/client.c\<close>: a connection with a read buffer, from which packets are cut as
  their bytes arrive, and the calls that send a request and wait for its response.

  The read buffer is a block of the heap.  A client is a record next to its address; the argument
  \<open>be\<close> is the byte order of the host and \<open>g\<close> the installed allocator.  Tracing is left out.
\<close>

section \<open>The client\<close>

record wirecall_client =
  c_fd :: int
  c_next_call_id :: u64
  c_read_buf :: nat
  c_read_off :: nat
  c_read_len :: nat
  c_read_cap :: nat
  c_integrity :: u32
  c_mac_key :: "u8 list"
  c_error :: "u8 list"

definition zero_client :: wirecall_client where
  "zero_client = \<lparr>c_fd = 0, c_next_call_id = 0, c_read_buf = 0, c_read_off = 0, c_read_len = 0, c_read_cap = 0,
     c_integrity = 0, c_mac_key = replicate 16 0, c_error = []\<rparr>"

definition sizeof_client :: nat where "sizeof_client = 232"

text \<open>The size of the member \<open>error\<close>.\<close>

definition sizeof_error :: nat where "sizeof_error = 160"

definition message_bytes :: "string \<Rightarrow> u8 list" where
  "message_bytes s = map (\<lambda>c. of_char c) s"

definition set_error :: "wirecall_client \<Rightarrow> string \<Rightarrow> wirecall_client" where
  "set_error c message = c\<lparr>c_error := take (sizeof_error - 1) (message_bytes message)\<rparr>"

section \<open>Sending\<close>

text \<open>
  The bytes of the vectors that are left when \<open>sent\<close> bytes are gone.  A list of byte lists is the
  array \<open>local\<close>, from its first element up to \<open>iov_count\<close>.
\<close>

fun iov_advance :: "nat \<Rightarrow> u8 list list \<Rightarrow> u8 list list" where
  "iov_advance sent [] = []"
| "iov_advance sent (v # vs) =
     (if sent \<ge> length v then iov_advance (sent - length v) vs
      else if sent > 0 then drop sent v # vs else v # vs)"

partial_function (option) send_iov_loop :: "'n os \<Rightarrow> int \<Rightarrow> u8 list list \<Rightarrow> 'n \<Rightarrow> (int \<times> 'n) option" where
  "send_iov_loop os fd iov n =
     (if length iov > 0 then
        (let (r, n) = os_sendmsg os fd iov n
         in case r of
              Inr sent \<Rightarrow> if sent > 0 then send_iov_loop os fd (iov_advance sent iov) n else Some (-1, n)
            | Inl error \<Rightarrow> if wirecall_socket_interrupted error then send_iov_loop os fd iov n else Some (-1, n))
      else Some (0, n))"

definition send_iov_full :: "'n os \<Rightarrow> int \<Rightarrow> u8 list list \<Rightarrow> 'n \<Rightarrow> (int \<times> 'n) option" where
  "send_iov_full os fd iov n =
     (if length iov \<le> 0 \<or> length iov > 2 then Some (-1, n) else send_iov_loop os fd iov n)"

section \<open>The read buffer\<close>

definition client_read_available :: "wirecall_client \<Rightarrow> nat" where
  "client_read_available c = sz_sub (c_read_len c) (c_read_off c)"

definition client_read_reserve ::
  "wirecall_allocator \<Rightarrow> nat \<Rightarrow> wirecall_client \<Rightarrow> heap \<Rightarrow> (int \<times> wirecall_client \<times> heap) option" where
  "client_read_reserve g need c h =
     (if client_read_available c \<ge> need then Some (0, c, h)
      else do {
        (c, h) \<leftarrow> (if c_read_off c > 0 then do {
            bs \<leftarrow> hp_read (c_read_buf c) (c_read_off c) (client_read_available c) h;
            h \<leftarrow> hp_write (c_read_buf c) 0 bs h;
            Some (c\<lparr>c_read_len := sz_sub (c_read_len c) (c_read_off c), c_read_off := 0\<rparr>, h) }
          else Some (c, h));
        if c_read_cap c \<ge> need then Some (0, c, h)
        else do {
          next_cap \<leftarrow> cap_loop (if c_read_cap c \<noteq> 0 then c_read_cap c else 65536) need;
          (nxt, h) \<leftarrow> wirecall_mem_realloc g (c_read_buf c) next_cap h;
          if nxt = 0 then Some (-1, c, h)
          else Some (0, c\<lparr>c_read_buf := nxt, c_read_cap := next_cap\<rparr>, h) } })"

partial_function (option) client_read_fill ::
  "'n os \<Rightarrow> wirecall_allocator \<Rightarrow> nat \<Rightarrow> wirecall_client \<Rightarrow> heap \<Rightarrow> 'n \<Rightarrow> (int \<times> wirecall_client \<times> heap \<times> 'n) option" where
  "client_read_fill os g need c h n =
     (if client_read_available c < need then do {
        (rc, c, h) \<leftarrow> client_read_reserve g need c h;
        if rc \<noteq> 0 then Some (-1, c, h, n)
        else do {
          (rc, c, h) \<leftarrow> (if c_read_len c = c_read_cap c then client_read_reserve g (sz_add (c_read_cap c) 1) c h
                         else Some (0, c, h));
          if rc \<noteq> 0 then Some (-1, c, h, n)
          else do {
            let (r, n) = wirecall_socket_recv os (c_fd c) (sz_sub (c_read_cap c) (c_read_len c)) n;
            case r of
              Inr bs \<Rightarrow>
                if bs \<noteq> [] then do {
                  h \<leftarrow> hp_write (c_read_buf c) (c_read_len c) bs h;
                  client_read_fill os g need (c\<lparr>c_read_len := c_read_len c + length bs\<rparr>) h n }
                else Some (-1, c, h, n)
            | Inl error \<Rightarrow>
                if wirecall_socket_interrupted error then client_read_fill os g need c h n else Some (-1, c, h, n) } } }
      else Some (0, c, h, n))"

section \<open>Packets\<close>

text \<open>The bytes at \<open>payload->data\<close>, or \<open>NULL\<close>.\<close>

definition writer_payload :: "wirecall_writer option \<Rightarrow> heap \<Rightarrow> u8 list option option" where
  "writer_payload payload h =
     (case payload of None \<Rightarrow> Some None
      | Some w \<Rightarrow> if w_data w = 0 then Some None
                  else do { bs \<leftarrow> hp_read (w_data w) 0 (w_len w) h; Some (Some bs) })"

definition send_packet ::
  "'n os \<Rightarrow> bool \<Rightarrow> wirecall_op \<Rightarrow> u64 \<Rightarrow> u64 \<Rightarrow> wirecall_writer option \<Rightarrow> wirecall_client \<Rightarrow> heap \<Rightarrow> 'n \<Rightarrow>
     (int \<times> wirecall_client \<times> 'n) option" where
  "send_packet os be op proc_id call_id payload c h n = do {
     let len = (case payload of None \<Rightarrow> 0 | Some w \<Rightarrow> w_len w);
     let header = zero_header\<lparr>h_op := op, h_flags := 0, h_proc_id := proc_id, h_size := word_of_nat len, h_call_id := call_id\<rparr>;
     data \<leftarrow> writer_payload payload h;
     (rc, header) \<leftarrow> wirecall_packet_sign_ex be (Some header) data len (c_integrity c) (Some (c_mac_key c));
     if rc \<noteq> 0 then Some (-1, set_error c ''send failed'', n)
     else do {
       (rc, buf) \<leftarrow> wirecall_header_encode header (Some (replicate WIRECALL_HEADER_SIZE 0));
       if rc \<noteq> 0 then Some (-1, set_error c ''send failed'', n)
       else do {
         iov \<leftarrow> (if payload \<noteq> None \<and> len > 0 then (case data of None \<Rightarrow> None | Some bs \<Rightarrow> Some [the buf, bs]) else Some [the buf]);
         (rc, n) \<leftarrow> send_iov_full os (c_fd c) iov n;
         if rc \<noteq> 0 then Some (-1, set_error c ''send failed'', n) else Some (0, c, n) } } }"

text \<open>The result has the header and the address of a copy of the payload.\<close>

definition recv_packet ::
  "'n os \<Rightarrow> bool \<Rightarrow> wirecall_allocator \<Rightarrow> wirecall_client \<Rightarrow> heap \<Rightarrow> 'n \<Rightarrow>
     (int \<times> wirecall_header \<times> nat \<times> wirecall_client \<times> heap \<times> 'n) option" where
  "recv_packet os be g c h n = do {
     (rc, c, h, n) \<leftarrow> client_read_fill os g WIRECALL_HEADER_SIZE c h n;
     if rc \<noteq> 0 then Some (-1, zero_header, 0, set_error c ''read failed'', h, n)
     else do {
       bytes \<leftarrow> hp_read (c_read_buf c) (c_read_off c) (client_read_available c) h;
       (rc, header) \<leftarrow> wirecall_header_decode (Some bytes) (Some zero_header);
       let header = the header;
       if rc \<noteq> 0 \<or> unat (h_size header) > WIRECALL_MAX_PAYLOAD_SIZE
       then Some (-1, header, 0, set_error c ''read failed'', h, n)
       else do {
         let size = unat (h_size header);
         let packet_size = WIRECALL_HEADER_SIZE + size;
         (rc, c, h, n) \<leftarrow> client_read_fill os g packet_size c h n;
         if rc \<noteq> 0 then Some (-1, header, 0, set_error c ''read failed'', h, n)
         else do {
           payload \<leftarrow> hp_read (c_read_buf c) (c_read_off c + WIRECALL_HEADER_SIZE) size h;
           rc \<leftarrow> wirecall_packet_verify_ex be (Some header) (Some payload) size (c_integrity c) (Some (c_mac_key c));
           if rc \<noteq> 0 then Some (-1, header, 0, set_error c ''packet integrity failed'', h, n)
           else do {
             (body, h) \<leftarrow> wirecall_mem_alloc g (if size \<noteq> 0 then size else 1) h;
             if body = 0 then Some (-1, header, 0, set_error c ''out of memory'', h, n)
             else do {
               h \<leftarrow> (if size > 0 then hp_write body 0 payload h else Some h);
               let c = c\<lparr>c_read_off := c_read_off c + packet_size\<rparr>;
               let c = (if c_read_off c = c_read_len c then c\<lparr>c_read_off := 0, c_read_len := 0\<rparr> else c);
               Some (0, header, body, c, h, n) } } } } } }"

section \<open>The interface\<close>

text \<open>\<open>client\<close> is the address of the client; freeing it ends the life of its record.\<close>

definition wirecall_client_close ::
  "'n os \<Rightarrow> bool \<Rightarrow> wirecall_allocator \<Rightarrow> nat \<Rightarrow> wirecall_client \<Rightarrow> heap \<Rightarrow> 'n \<Rightarrow> (heap \<times> 'n) option" where
  "wirecall_client_close os be g client c h n =
     (if client = 0 then Some (h, n)
      else do {
        (c, n) \<leftarrow> (if c_fd c \<ge> 0 then do {
            let call_id = c_next_call_id c;
            (rc, c, n) \<leftarrow> send_packet os be WIRECALL_OP_DISCONNECT 0 call_id None (c\<lparr>c_next_call_id := call_id + 1\<rparr>) h n;
            Some (c, snd (wirecall_socket_close os (c_fd c) n)) }
          else Some (c, n));
        h \<leftarrow> wirecall_mem_free g (c_read_buf c) h;
        h \<leftarrow> wirecall_mem_free g client h;
        Some (h, n) })"

text \<open>The loop over the addresses that the name has been resolved to; the result is the descriptor.\<close>

fun connect_loop :: "'n os \<Rightarrow> sockaddr list \<Rightarrow> 'n \<Rightarrow> int \<times> 'n" where
  "connect_loop os [] n = (-1, n)"
| "connect_loop os (ai # ais) n = (
     let (fd, n) = wirecall_socket_create os ai n
     in if fd < 0 then connect_loop os ais n
        else let (rc, n) = wirecall_socket_connect os fd ai n
             in if rc = 0 then (fd, n)
                else connect_loop os ais (snd (wirecall_socket_close os fd n)))"

text \<open>
  The list of addresses belongs to the resolver: \<open>os_getaddrinfo\<close> gives it as a value, so its release by \<open>freeaddrinfo\<close> has no
  counterpart, and neither has the socket option against \<open>SIGPIPE\<close>, which only some systems have.
\<close>

definition wirecall_client_connect ::
  "'n os \<Rightarrow> bool \<Rightarrow> wirecall_allocator \<Rightarrow> bool \<Rightarrow> u8 list option \<Rightarrow> u8 list option \<Rightarrow> heap \<Rightarrow> 'n \<Rightarrow>
     (int \<times> (nat \<times> wirecall_client) option \<times> heap \<times> 'n) option" where
  "wirecall_client_connect os be g out_client host port h n =
     (if \<not> out_client \<or> port = None then Some (-1, None, h, n)
      else do {
        (client, h) \<leftarrow> wirecall_mem_calloc g 1 sizeof_client h;
        if client = 0 then Some (-1, None, h, n)
        else do {
          let c = zero_client\<lparr>c_fd := -1, c_next_call_id := 1, c_integrity := WIRECALL_INTEGRITY_DEFAULT\<rparr>;
          let ((rc, res), n) = os_getaddrinfo os host (the port) False n;
          if rc \<noteq> 0 then do { (h, n) \<leftarrow> wirecall_client_close os be g client c h n; Some (-1, None, h, n) }
          else do {
            let (fd, n) = connect_loop os res n;
            let c = c\<lparr>c_fd := fd\<rparr>;
            if c_fd c < 0 then do { (h, n) \<leftarrow> wirecall_client_close os be g client c h n; Some (-1, None, h, n) }
            else Some (0, Some (client, c), h, n) } } })"

text \<open>The sixteen bytes of the key are copied; reading past its end would be undefined.\<close>

definition wirecall_client_set_integrity ::
  "wirecall_client option \<Rightarrow> u32 \<Rightarrow> u8 list option \<Rightarrow> (int \<times> wirecall_client option) option" where
  "wirecall_client_set_integrity client integrity mac_key =
     (case client of None \<Rightarrow> Some (-1, client)
      | Some c \<Rightarrow>
          if integrity AND NOT (WIRECALL_INTEGRITY_CHECKSUM OR WIRECALL_INTEGRITY_MAC) \<noteq> 0 \<or>
             integrity AND WIRECALL_INTEGRITY_MAC \<noteq> 0 \<and> mac_key = None
          then Some (-1, client)
          else let c = c\<lparr>c_integrity := integrity\<rparr>
               in case mac_key of
                    None \<Rightarrow> Some (0, Some c)
                  | Some key \<Rightarrow> if length key < 16 then None else Some (0, Some (c\<lparr>c_mac_key := take 16 key\<rparr>)))"

definition wirecall_client_ping ::
  "'n os \<Rightarrow> bool \<Rightarrow> wirecall_allocator \<Rightarrow> wirecall_client option \<Rightarrow> heap \<Rightarrow> 'n \<Rightarrow>
     (int \<times> wirecall_client option \<times> heap \<times> 'n) option" where
  "wirecall_client_ping os be g client h n =
     (case client of None \<Rightarrow> Some (-1, client, h, n)
      | Some c \<Rightarrow>
          if c_fd c < 0 then Some (-1, client, h, n)
          else do {
            let call_id = c_next_call_id c;
            (rc, c, n) \<leftarrow> send_packet os be WIRECALL_OP_PING 0 call_id None (c\<lparr>c_next_call_id := call_id + 1\<rparr>) h n;
            if rc \<noteq> 0 then Some (-1, Some c, h, n)
            else do {
              (rc, header, body, c, h, n) \<leftarrow> recv_packet os be g c h n;
              if rc \<noteq> 0 then Some (-1, Some c, h, n)
              else do {
                h \<leftarrow> wirecall_mem_free g body h;
                if h_op header \<noteq> WIRECALL_OP_RESPONSE \<or> h_call_id header \<noteq> call_id \<or> h_size header \<noteq> 0
                then Some (-1, Some (set_error c ''unexpected ping response''), h, n)
                else Some (0, Some c, h, n) } } })"

definition client_send_call_id ::
  "'n os \<Rightarrow> bool \<Rightarrow> u64 \<Rightarrow> wirecall_writer option \<Rightarrow> bool \<Rightarrow> wirecall_client option \<Rightarrow> heap \<Rightarrow> 'n \<Rightarrow>
     (int \<times> u64 option \<times> wirecall_client option \<times> 'n) option" where
  "client_send_call_id os be proc_id args out_call_id client h n =
     (case client of None \<Rightarrow> Some (-1, None, client, n)
      | Some c \<Rightarrow>
          if c_fd c < 0 \<or> \<not> out_call_id then Some (-1, None, client, n)
          else do {
            let call_id = c_next_call_id c;
            (rc, c, n) \<leftarrow> send_packet os be WIRECALL_OP_RPC proc_id call_id args (c\<lparr>c_next_call_id := call_id + 1\<rparr>) h n;
            if rc \<noteq> 0 then Some (-1, None, Some c, n) else Some (0, Some call_id, Some c, n) })"

definition wirecall_client_send_call_name ::
  "'n os \<Rightarrow> bool \<Rightarrow> u8 list option \<Rightarrow> wirecall_writer option \<Rightarrow> bool \<Rightarrow> wirecall_client option \<Rightarrow> heap \<Rightarrow> 'n \<Rightarrow>
     (int \<times> u64 option \<times> wirecall_client option \<times> 'n) option" where
  "wirecall_client_send_call_name os be proc_name args out_call_id client h n =
     do { proc_id \<leftarrow> wirecall_proc_id proc_name; client_send_call_id os be proc_id args out_call_id client h n }"

text \<open>
  The error message of a response with operation \<open>ERROR\<close>: its only value must be a string, of
  which the first 159 bytes are copied.
\<close>

definition response_error ::
  "wirecall_allocator \<Rightarrow> nat \<Rightarrow> nat \<Rightarrow> wirecall_client \<Rightarrow> heap \<Rightarrow> (wirecall_client \<times> heap) option" where
  "response_error g body len c h = do {
     bytes \<leftarrow> hp_read body 0 len h;
     (rc, arr, count, h) \<leftarrow> wirecall_payload_decode g (Some bytes) len (Some (0, [])) (Some 0) h;
     let (values, cells) = the arr;
     first \<leftarrow> (if rc = 0 \<and> the count = 1 then do { v \<leftarrow> cell_get values cells 0 h; Some (Some v) } else Some None);
     c \<leftarrow> (case first of
             Some (V_STRING p n) \<Rightarrow> do {
               let k = (if unat n \<ge> sizeof_error then sizeof_error - 1 else unat n);
               bs \<leftarrow> (if k = 0 then Some [] else hp_read p 0 k h);
               Some (c\<lparr>c_error := bs\<rparr>) }
           | _ \<Rightarrow> Some (set_error c ''server returned error''));
     h \<leftarrow> wirecall_values_free g values cells h;
     Some (c, h) }"

text \<open>What a response becomes, before its body is freed.\<close>

definition response_result ::
  "wirecall_allocator \<Rightarrow> wirecall_header \<Rightarrow> nat \<Rightarrow> wirecall_client \<Rightarrow> heap \<Rightarrow>
     (int \<times> (nat \<times> wirecall_value list) \<times> nat \<times> wirecall_client \<times> heap) option" where
  "response_result g header body c h =
     (if h_op header = WIRECALL_OP_RESPONSE then do {
        bytes \<leftarrow> hp_read body 0 (unat (h_size header)) h;
        (rc, arr, count, h) \<leftarrow> wirecall_payload_decode g (Some bytes) (unat (h_size header)) (Some (0, [])) (Some 0) h;
        Some (if rc = 0 then (0, the arr, the count, c, h)
              else (-1, the arr, the count, set_error c ''malformed response payload'', h)) }
      else if h_op header = WIRECALL_OP_ERROR then do {
        (c, h) \<leftarrow> response_error g body (unat (h_size header)) c h;
        Some (-1, (0, []), 0, c, h) }
      else Some (-1, (0, []), 0, set_error c ''unexpected response op'', h))"

text \<open>The results are the code, the call id, and the values with their number.\<close>

definition wirecall_client_recv_response ::
  "'n os \<Rightarrow> bool \<Rightarrow> wirecall_allocator \<Rightarrow> bool \<Rightarrow> bool \<Rightarrow> bool \<Rightarrow> wirecall_client option \<Rightarrow> heap \<Rightarrow> 'n \<Rightarrow>
     (int \<times> u64 \<times> (nat \<times> wirecall_value list) \<times> nat \<times> wirecall_client option \<times> heap \<times> 'n) option" where
  "wirecall_client_recv_response os be g out_call_id out_values out_count client h n =
     (case client of None \<Rightarrow> Some (-1, 0, (0, []), 0, client, h, n)
      | Some c \<Rightarrow>
          if c_fd c < 0 \<or> \<not> out_call_id \<or> \<not> out_values \<or> \<not> out_count then Some (-1, 0, (0, []), 0, client, h, n)
          else do {
            (rc, header, body, c, h, n) \<leftarrow> recv_packet os be g c h n;
            if rc \<noteq> 0 then Some (-1, 0, (0, []), 0, Some c, h, n)
            else do {
              (rc, arr, count, c, h) \<leftarrow> response_result g header body c h;
              h \<leftarrow> wirecall_mem_free g body h;
              Some (rc, h_call_id header, arr, count, Some c, h, n) } })"

definition client_call_id ::
  "'n os \<Rightarrow> bool \<Rightarrow> wirecall_allocator \<Rightarrow> u64 \<Rightarrow> wirecall_writer option \<Rightarrow> bool \<Rightarrow> bool \<Rightarrow> wirecall_client option \<Rightarrow> heap \<Rightarrow> 'n \<Rightarrow>
     (int \<times> (nat \<times> wirecall_value list) \<times> nat \<times> wirecall_client option \<times> heap \<times> 'n) option" where
  "client_call_id os be g proc_id args out_values out_count client h n =
     (if client = None \<or> c_fd (the client) < 0 \<or> \<not> out_values \<or> \<not> out_count then Some (-1, (0, []), 0, client, h, n)
      else do {
        (rc, call_id, client, n) \<leftarrow> client_send_call_id os be proc_id args True client h n;
        if rc \<noteq> 0 then Some (-1, (0, []), 0, client, h, n)
        else do {
          (rc, response_call_id, arr, count, client, h, n) \<leftarrow> wirecall_client_recv_response os be g True True True client h n;
          if rc = 0 \<and> response_call_id \<noteq> the call_id then do {
            h \<leftarrow> wirecall_values_free g (fst arr) (snd arr) h;
            Some (-1, (0, []), 0, map_option (\<lambda>c. set_error c ''unexpected call id'') client, h, n) }
          else Some (rc, arr, count, client, h, n) } })"

definition wirecall_client_call_name ::
  "'n os \<Rightarrow> bool \<Rightarrow> wirecall_allocator \<Rightarrow> u8 list option \<Rightarrow> wirecall_writer option \<Rightarrow> bool \<Rightarrow> bool \<Rightarrow> wirecall_client option \<Rightarrow>
     heap \<Rightarrow> 'n \<Rightarrow> (int \<times> (nat \<times> wirecall_value list) \<times> nat \<times> wirecall_client option \<times> heap \<times> 'n) option" where
  "wirecall_client_call_name os be g proc_name args out_values out_count client h n =
     do { proc_id \<leftarrow> wirecall_proc_id proc_name; client_call_id os be g proc_id args out_values out_count client h n }"

text \<open>The C string that a caller reads; it ends at the first zero byte.\<close>

definition wirecall_client_error :: "wirecall_client option \<Rightarrow> u8 list" where
  "wirecall_client_error client =
     (case client of
        Some c \<Rightarrow> if c_error c \<noteq> [] \<and> c_error c ! 0 \<noteq> 0 then takeWhile (\<lambda>b. b \<noteq> 0) (c_error c) else message_bytes ''client error''
      | None \<Rightarrow> message_bytes ''client error'')"

end
