(* ===== verification/Server.thy ===== *)
theory Server
  imports Client Scheduler Routes
begin

text \<open>
  The connections of a server, \<^verbatim>\<open>src/server.c\<close> up to \<open>connection_write\<close>: byte buffers, the queueing
  of packets, the three kinds of procedure calls, and the loops that read and write sockets.

  A worker owns connections and deferred calls in the slots of two arenas.  A slot that is not
  allocated holds no record, and accesses to it are undefined (\<open>None\<close>), so that a use after
  free shows up as such.  Workers are known by their index in the array \<open>workers\<close>.  The record of the
  server, with its workers, connections and calls, is the world that the completion callbacks of a
  scheduler work on: functions that need the scheduler of their worker have a \<open>sched\<close> with the
  server in its member \<open>s_world\<close> as their state, the others work on the heap and the server.

  Procedures, the event backend and the operating system are arguments, collected in the record
  \<open>env\<close>.  Mutexes and tracing are left out.
\<close>

section \<open>Types\<close>

definition WIRECALL_MAX_LISTENERS :: nat where "WIRECALL_MAX_LISTENERS = 8"
definition WIRECALL_READ_CHUNK :: nat where "WIRECALL_READ_CHUNK = 4096"
definition WIRECALL_EVENT_BATCH :: nat where "WIRECALL_EVENT_BATCH = 1024"
definition WIRECALL_CONNECTION_ARENA_CAPACITY :: nat where "WIRECALL_CONNECTION_ARENA_CAPACITY = 65536"
definition WIRECALL_DEFERRED_ARENA_CAPACITY :: nat where "WIRECALL_DEFERRED_ARENA_CAPACITY = 262144"
definition WIRECALL_MAX_WORKERS :: u32 where "WIRECALL_MAX_WORKERS = 128"

definition WIRECALL_FLAG_NONE :: u8 where "WIRECALL_FLAG_NONE = 0"

definition WIRECALL_BACKEND_READ :: u32 where "WIRECALL_BACKEND_READ = 1"
definition WIRECALL_BACKEND_WRITE :: u32 where "WIRECALL_BACKEND_WRITE = 2"
definition WIRECALL_BACKEND_WAKE :: u32 where "WIRECALL_BACKEND_WAKE = 4"

record wirecall_listener =
  ls_fd :: int
  ls_worker :: nat

record wirecall_connection =
  cn_fd :: int
  cn_worker :: nat
  cn_read_buf :: nat
  cn_read_len :: nat
  cn_read_cap :: nat
  cn_write_buf :: nat
  cn_write_len :: nat
  cn_write_cap :: nat
  cn_write_off :: nat
  cn_interests :: u32
  cn_closing :: bool
  cn_detached :: bool
  cn_write_queued :: bool
  cn_pending_deferred :: u32
  cn_next :: nat
  cn_write_next :: nat

definition zero_connection :: wirecall_connection where
  "zero_connection = \<lparr>cn_fd = 0, cn_worker = 0, cn_read_buf = 0, cn_read_len = 0, cn_read_cap = 0, cn_write_buf = 0,
     cn_write_len = 0, cn_write_cap = 0, cn_write_off = 0, cn_interests = 0, cn_closing = False, cn_detached = False,
     cn_write_queued = False, cn_pending_deferred = 0, cn_next = 0, cn_write_next = 0\<rparr>"

record wirecall_deferred =
  df_conn :: nat
  df_worker :: nat
  df_call_id :: u64
  df_proc_id :: u64
  df_payload :: nat
  df_payload_len :: nat
  df_args :: "nat \<times> wirecall_value list"
  df_argc :: nat
  df_response :: wirecall_writer
  df_result :: int
  df_error :: "u8 list"
  df_completed :: bool
  df_next_done :: nat

definition zero_deferred :: wirecall_deferred where
  "zero_deferred = \<lparr>df_conn = 0, df_worker = 0, df_call_id = 0, df_proc_id = 0, df_payload = 0, df_payload_len = 0,
     df_args = (0, []), df_argc = 0, df_response = zero_writer, df_result = 0, df_error = [], df_completed = False,
     df_next_done = 0\<rparr>"

record wirecall_pending_fd =
  pn_fd :: int
  pn_next :: nat

text \<open>The arenas come with the words that their free lists are kept in.  \<open>wk_listeners\<close> has 8 elements.\<close>

record wirecall_worker =
  wk_backend :: nat
  wk_scheduler :: nat
  wk_connection_arena :: "wirecall_fixed_arena \<times> words"
  wk_deferred_arena :: "wirecall_fixed_arena \<times> words"
  wk_listeners :: "wirecall_listener list"
  wk_listener_count :: nat
  wk_connections :: nat
  wk_pending_writes :: nat
  wk_pending_head :: nat
  wk_pending_tail :: nat
  wk_completed_head :: nat
  wk_completed_tail :: nat
  wk_pending_mutex_ready :: bool
  wk_completed_mutex_ready :: bool
  wk_thread_started :: bool
  wk_index :: u32

text \<open>
  The member \<open>workers\<close> is the address of the array, and the array is \<open>sv_worker\<close>.  Connections, deferred calls
  and pending descriptors of all workers are kept here, by address.
\<close>

record 'n wirecall_server =
  sv_routes :: route_state
  sv_workers :: nat
  sv_worker :: "nat \<Rightarrow> wirecall_worker option"
  sv_worker_count :: u32
  sv_workers_ready :: bool
  sv_next_worker :: u32
  sv_stopping :: bool
  sv_listening :: bool
  sv_routes_ready :: bool
  sv_port :: u16
  sv_integrity :: u32
  sv_mac_key :: "u8 list"
  sv_conns :: "nat \<Rightarrow> wirecall_connection option"
  sv_defs :: "nat \<Rightarrow> wirecall_deferred option"
  sv_fds :: "nat \<Rightarrow> wirecall_pending_fd"
  sv_net :: 'n

text \<open>The interface of the event backends, \<^verbatim>\<open>include/backend.h\<close>.  The first argument is the backend of a worker.\<close>

record wirecall_backend_event =
  ev_fd :: int
  ev_events :: u32
  ev_user :: nat

record 'n backend =
  bk_create :: "'n \<Rightarrow> (int \<times> nat) \<times> 'n"
  bk_destroy :: "nat \<Rightarrow> 'n \<Rightarrow> 'n"
  bk_register :: "nat \<Rightarrow> int \<Rightarrow> u32 \<Rightarrow> nat \<Rightarrow> 'n \<Rightarrow> int \<times> 'n"
  bk_modify :: "nat \<Rightarrow> int \<Rightarrow> u32 \<Rightarrow> nat \<Rightarrow> 'n \<Rightarrow> int \<times> 'n"
  bk_remove :: "nat \<Rightarrow> int \<Rightarrow> 'n \<Rightarrow> int \<times> 'n"
  bk_wake :: "nat \<Rightarrow> 'n \<Rightarrow> int \<times> 'n"
  bk_poll :: "nat \<Rightarrow> nat \<Rightarrow> 'n \<Rightarrow> (int \<times> wirecall_backend_event list) \<times> 'n"

text \<open>
  A synchronous procedure gets the context, its arguments with their number, the user data and an
  empty writer.  A deferred one may complete the call before it returns; what it does to the
  call is the list in the second component of its result, and the third is the response.  The
  last three members are those services of the platform that only the server uses.
\<close>

datatype deferred_act = Act_Complete | Act_Fail "u8 list option"

record ('f, 'n) env =
  e_os :: "'n os"
  e_be :: bool
  e_g :: wirecall_allocator
  e_backend :: "'n backend"
  e_platform :: platform
  e_handler :: "nat \<Rightarrow> wirecall_ctx \<Rightarrow> nat \<times> wirecall_value list \<Rightarrow> nat \<Rightarrow> nat \<Rightarrow> wirecall_writer \<Rightarrow> heap \<Rightarrow> 'n \<Rightarrow>
                  (int \<times> wirecall_writer \<times> heap \<times> 'n) option"
  e_deferred_handler :: "nat \<Rightarrow> wirecall_deferred \<Rightarrow> nat \<times> wirecall_value list \<Rightarrow> nat \<Rightarrow> nat \<Rightarrow> heap \<Rightarrow> 'n \<Rightarrow>
                  (int \<times> deferred_act list \<times> wirecall_writer \<times> heap \<times> 'n) option"
  e_async_handler :: "('f, 'n) handlers"
  e_mutex_init :: "'n \<Rightarrow> int \<times> 'n"
  e_pages_alloc :: "nat \<Rightarrow> 'n \<Rightarrow> nat \<times> 'n"
  e_pages_free :: "(nat \<times> nat) option \<Rightarrow> 'n \<Rightarrow> 'n"

definition conn_get :: "nat \<Rightarrow> 'n wirecall_server \<Rightarrow> wirecall_connection option" where
  "conn_get p v = sv_conns v p"

definition conn_upd ::
  "nat \<Rightarrow> (wirecall_connection \<Rightarrow> wirecall_connection) \<Rightarrow> 'n wirecall_server \<Rightarrow> 'n wirecall_server option" where
  "conn_upd p f v = (case sv_conns v p of None \<Rightarrow> None | Some c \<Rightarrow> Some (v\<lparr>sv_conns := (sv_conns v)(p := Some (f c))\<rparr>))"

definition def_get :: "nat \<Rightarrow> 'n wirecall_server \<Rightarrow> wirecall_deferred option" where
  "def_get p v = sv_defs v p"

definition def_upd ::
  "nat \<Rightarrow> (wirecall_deferred \<Rightarrow> wirecall_deferred) \<Rightarrow> 'n wirecall_server \<Rightarrow> 'n wirecall_server option" where
  "def_upd p f v = (case sv_defs v p of None \<Rightarrow> None | Some c \<Rightarrow> Some (v\<lparr>sv_defs := (sv_defs v)(p := Some (f c))\<rparr>))"

definition worker_get :: "nat \<Rightarrow> 'n wirecall_server \<Rightarrow> wirecall_worker option" where
  "worker_get i v = sv_worker v i"

definition worker_upd ::
  "nat \<Rightarrow> (wirecall_worker \<Rightarrow> wirecall_worker) \<Rightarrow> 'n wirecall_server \<Rightarrow> 'n wirecall_server option" where
  "worker_upd i f v = (case sv_worker v i of None \<Rightarrow> None | Some c \<Rightarrow> Some (v\<lparr>sv_worker := (sv_worker v)(i := Some (f c))\<rparr>))"

definition on_server ::
  "(heap \<Rightarrow> 'n wirecall_server \<Rightarrow> ('r \<times> heap \<times> 'n wirecall_server) option) \<Rightarrow> ('f, 'n wirecall_server) sched \<Rightarrow>
     ('r \<times> ('f, 'n wirecall_server) sched) option" where
  "on_server f s = do { (r, h, v) \<leftarrow> f (s_heap s) (s_world s); Some (r, s\<lparr>s_heap := h, s_world := v\<rparr>) }"

section \<open>Interests and buffers\<close>

definition connection_set_interests :: "('f, 'n) env \<Rightarrow> nat \<Rightarrow> u32 \<Rightarrow> 'n wirecall_server \<Rightarrow> (int \<times> 'n wirecall_server) option" where
  "connection_set_interests E p interests v = do {
     c \<leftarrow> conn_get p v;
     if cn_interests c = interests then Some (0, v)
     else do {
       w \<leftarrow> worker_get (cn_worker c) v;
       let (rc, n) = bk_modify (e_backend E) (wk_backend w) (cn_fd c) interests p (sv_net v);
       let v = v\<lparr>sv_net := n\<rparr>;
       if rc \<noteq> 0 then Some (-1, v)
       else do { v \<leftarrow> conn_upd p (\<lambda>c. c\<lparr>cn_interests := interests\<rparr>) v; Some (0, v) } } }"

definition append_bytes ::
  "wirecall_allocator \<Rightarrow> nat \<Rightarrow> nat \<Rightarrow> nat \<Rightarrow> u8 list option \<Rightarrow> nat \<Rightarrow> heap \<Rightarrow> (int \<times> nat \<times> nat \<times> nat \<times> heap) option" where
  "append_bytes g buf len cap data data_len h =
     (if data_len = 0 then Some (0, buf, len, cap, h)
      else if len > SIZE_MAX - data_len then Some (-1, buf, len, cap, h)
      else do {
        let need = len + data_len;
        (rc, buf, cap, h) \<leftarrow>
          (if need > cap then do {
             next_cap \<leftarrow> cap_loop (if cap \<noteq> 0 then cap else 4096) need;
             (nxt, h) \<leftarrow> wirecall_mem_realloc g buf next_cap h;
             Some (if nxt = 0 then (-1 :: int, buf, cap, h) else (0, nxt, next_cap, h)) }
           else Some (0, buf, cap, h));
        if rc \<noteq> 0 then Some (-1, buf, len, cap, h)
        else do {
          h \<leftarrow> (case data of
                  None \<Rightarrow> Some h
                | Some bs \<Rightarrow> if data_len \<le> length bs then hp_write buf len (take data_len bs) h else None);
          Some (0, buf, len + data_len, cap, h) } })"

definition reserve_bytes :: "wirecall_allocator \<Rightarrow> nat \<Rightarrow> nat \<Rightarrow> nat \<Rightarrow> heap \<Rightarrow> (int \<times> nat \<times> nat \<times> heap) option" where
  "reserve_bytes g buf cap need h =
     (if need \<le> cap then Some (0, buf, cap, h)
      else do {
        next_cap \<leftarrow> cap_loop (if cap \<noteq> 0 then cap else 4096) need;
        (nxt, h) \<leftarrow> wirecall_mem_realloc g buf next_cap h;
        Some (if nxt = 0 then (-1, buf, cap, h) else (0, nxt, next_cap, h)) })"

section \<open>Queueing packets\<close>

text \<open>\<open>i\<close> is the worker.\<close>

definition worker_queue_write :: "nat \<Rightarrow> nat \<Rightarrow> 'n wirecall_server \<Rightarrow> 'n wirecall_server option" where
  "worker_queue_write i p v = do {
     c \<leftarrow> conn_get p v;
     if cn_write_queued c then Some v
     else do {
       w \<leftarrow> worker_get i v;
       v \<leftarrow> conn_upd p (\<lambda>c. c\<lparr>cn_write_queued := True, cn_write_next := wk_pending_writes w\<rparr>) v;
       worker_upd i (\<lambda>w. w\<lparr>wk_pending_writes := p\<rparr>) v } }"

text \<open>\<open>append_bytes\<close> on the write buffer of a connection.\<close>

definition write_append ::
  "wirecall_allocator \<Rightarrow> nat \<Rightarrow> u8 list option \<Rightarrow> nat \<Rightarrow> heap \<Rightarrow> 'n wirecall_server \<Rightarrow> (int \<times> heap \<times> 'n wirecall_server) option" where
  "write_append g p data data_len h v = do {
     c \<leftarrow> conn_get p v;
     (rc, buf, len, cap, h) \<leftarrow> append_bytes g (cn_write_buf c) (cn_write_len c) (cn_write_cap c) data data_len h;
     v \<leftarrow> conn_upd p (\<lambda>c. c\<lparr>cn_write_buf := buf, cn_write_len := len, cn_write_cap := cap\<rparr>) v;
     Some (rc, h, v) }"

definition queue_packet ::
  "('f, 'n) env \<Rightarrow> nat \<Rightarrow> wirecall_op \<Rightarrow> u8 \<Rightarrow> u64 \<Rightarrow> u64 \<Rightarrow> u8 list option \<Rightarrow> nat \<Rightarrow> heap \<Rightarrow> 'n wirecall_server \<Rightarrow>
     (int \<times> heap \<times> 'n wirecall_server) option" where
  "queue_packet E p op flags proc_id call_id payload payload_len h v =
     (if p = 0 then Some (-1, h, v)
      else do {
        c \<leftarrow> conn_get p v;
        if cn_detached c \<or> cn_fd c < 0 then Some (-1, h, v)
        else if payload_len > WIRECALL_MAX_PAYLOAD_SIZE then Some (-1, h, v)
        else do {
          let header = zero_header\<lparr>h_op := op, h_flags := flags, h_proc_id := proc_id, h_size := word_of_nat payload_len,
                         h_call_id := call_id\<rparr>;
          (rc, header) \<leftarrow> wirecall_packet_sign_ex (e_be E) (Some header) payload payload_len (sv_integrity v) (Some (sv_mac_key v));
          if rc \<noteq> 0 then Some (-1, h, v)
          else do {
            (rc, header_buf) \<leftarrow> wirecall_header_encode header (Some (replicate WIRECALL_HEADER_SIZE 0));
            if rc \<noteq> 0 then Some (-1, h, v)
            else do {
              (rc, h, v) \<leftarrow> write_append (e_g E) p header_buf WIRECALL_HEADER_SIZE h v;
              if rc \<noteq> 0 then Some (-1, h, v)
              else do {
                (rc, h, v) \<leftarrow> write_append (e_g E) p payload payload_len h v;
                if rc \<noteq> 0 then Some (-1, h, v)
                else do { v \<leftarrow> worker_queue_write (cn_worker c) p v; Some (0, h, v) } } } } } })"

text \<open>A message is the list of its bytes, without the terminating zero.\<close>

definition queue_string_error ::
  "('f, 'n) env \<Rightarrow> nat \<Rightarrow> u64 \<Rightarrow> u64 \<Rightarrow> u8 list \<Rightarrow> heap \<Rightarrow> 'n wirecall_server \<Rightarrow> (int \<times> heap \<times> 'n wirecall_server) option" where
  "queue_string_error E p proc_id call_id message h v = do {
     (rc, writer, h) \<leftarrow> wirecall_writer_string (e_g E) (wirecall_writer_init (Some zero_writer)) (Some message) (word_of_nat (length message)) h;
     (rc, h, v) \<leftarrow> (if rc = 0 then do {
         data \<leftarrow> writer_payload writer h;
         queue_packet E p WIRECALL_OP_ERROR WIRECALL_FLAG_NONE proc_id call_id data (case writer of Some w \<Rightarrow> w_len w | None \<Rightarrow> 0) h v }
       else Some (rc, h, v));
     (writer, h) \<leftarrow> wirecall_writer_free (e_g E) writer h;
     Some (rc, h, v) }"

definition deferred_free :: "('f, 'n) env \<Rightarrow> nat \<Rightarrow> heap \<Rightarrow> 'n wirecall_server \<Rightarrow> (heap \<times> 'n wirecall_server) option" where
  "deferred_free E p h v =
     (if p = 0 then Some (h, v)
      else do {
        d \<leftarrow> def_get p v;
        h \<leftarrow> wirecall_values_free (e_g E) (fst (df_args d)) (snd (df_args d)) h;
        (response, h) \<leftarrow> wirecall_writer_free (e_g E) (Some (df_response d)) h;
        h \<leftarrow> wirecall_mem_free (e_g E) (df_payload d) h;
        v \<leftarrow> worker_upd (df_worker d) (\<lambda>w. w\<lparr>wk_deferred_arena := wirecall_fixed_arena_free p (wk_deferred_arena w)\<rparr>) v;
        Some (h, v\<lparr>sv_defs := (sv_defs v)(p := None)\<rparr>) })"

definition worker_queue_completed :: "('f, 'n) env \<Rightarrow> nat \<Rightarrow> nat \<Rightarrow> 'n wirecall_server \<Rightarrow> 'n wirecall_server option" where
  "worker_queue_completed E i p v = do {
     v \<leftarrow> def_upd p (\<lambda>d. d\<lparr>df_next_done := 0\<rparr>) v;
     w \<leftarrow> worker_get i v;
     v \<leftarrow> (if wk_completed_tail w \<noteq> 0 then def_upd (wk_completed_tail w) (\<lambda>d. d\<lparr>df_next_done := p\<rparr>) v
           else worker_upd i (\<lambda>w. w\<lparr>wk_completed_head := p\<rparr>) v);
     v \<leftarrow> worker_upd i (\<lambda>w. w\<lparr>wk_completed_tail := p\<rparr>) v;
     Some (v\<lparr>sv_net := snd (bk_wake (e_backend E) (wk_backend w) (sv_net v))\<rparr>) }"

section \<open>Destroying a connection\<close>

text \<open>The search for a connection in the two lists of worker \<open>i\<close>, and its removal; \<open>prev\<close> is \<open>0\<close> at the head of a list.\<close>

partial_function (option) unlink_connection :: "nat \<Rightarrow> nat \<Rightarrow> nat \<Rightarrow> nat \<Rightarrow> 'n wirecall_server \<Rightarrow> 'n wirecall_server option" where
  "unlink_connection i p prev link v =
     (if link \<noteq> 0 \<and> link \<noteq> p then do { c \<leftarrow> conn_get link v; unlink_connection i p link (cn_next c) v }
      else if link = p then do {
        c \<leftarrow> conn_get p v;
        if prev = 0 then worker_upd i (\<lambda>w. w\<lparr>wk_connections := cn_next c\<rparr>) v
        else conn_upd prev (\<lambda>d. d\<lparr>cn_next := cn_next c\<rparr>) v }
      else Some v)"

partial_function (option) unlink_write :: "nat \<Rightarrow> nat \<Rightarrow> nat \<Rightarrow> nat \<Rightarrow> 'n wirecall_server \<Rightarrow> 'n wirecall_server option" where
  "unlink_write i p prev link v =
     (if link \<noteq> 0 \<and> link \<noteq> p then do { c \<leftarrow> conn_get link v; unlink_write i p link (cn_write_next c) v }
      else if link = p then do {
        c \<leftarrow> conn_get p v;
        if prev = 0 then worker_upd i (\<lambda>w. w\<lparr>wk_pending_writes := cn_write_next c\<rparr>) v
        else conn_upd prev (\<lambda>d. d\<lparr>cn_write_next := cn_write_next c\<rparr>) v }
      else Some v)"

definition connection_detach :: "('f, 'n) env \<Rightarrow> nat \<Rightarrow> heap \<Rightarrow> 'n wirecall_server \<Rightarrow> (heap \<times> 'n wirecall_server) option" where
  "connection_detach E p h v = do {
     c \<leftarrow> conn_get p v;
     w \<leftarrow> worker_get (cn_worker c) v;
     let n = snd (bk_remove (e_backend E) (wk_backend w) (cn_fd c) (sv_net v));
     let n = snd (wirecall_socket_close (e_os E) (cn_fd c) n);
     h \<leftarrow> wirecall_mem_free (e_g E) (cn_read_buf c) h;
     h \<leftarrow> wirecall_mem_free (e_g E) (cn_write_buf c) h;
     v \<leftarrow> conn_upd p (\<lambda>c. c\<lparr>cn_fd := -1, cn_read_buf := 0, cn_write_buf := 0, cn_read_len := 0, cn_read_cap := 0,
            cn_write_len := 0, cn_write_cap := 0, cn_write_off := 0\<rparr>) (v\<lparr>sv_net := n\<rparr>);
     v \<leftarrow> unlink_connection (cn_worker c) p 0 (wk_connections w) v;
     c \<leftarrow> conn_get p v;
     v \<leftarrow> (if cn_write_queued c then do {
             w \<leftarrow> worker_get (cn_worker c) v;
             v \<leftarrow> unlink_write (cn_worker c) p 0 (wk_pending_writes w) v;
             conn_upd p (\<lambda>c. c\<lparr>cn_write_queued := False, cn_write_next := 0\<rparr>) v }
           else Some v);
     v \<leftarrow> conn_upd p (\<lambda>c. c\<lparr>cn_detached := True\<rparr>) v;
     Some (h, v) }"

definition connection_destroy :: "('f, 'n) env \<Rightarrow> nat \<Rightarrow> heap \<Rightarrow> 'n wirecall_server \<Rightarrow> (heap \<times> 'n wirecall_server) option" where
  "connection_destroy E p h v =
     (if p = 0 then Some (h, v)
      else do {
        c \<leftarrow> conn_get p v;
        (h, v) \<leftarrow> (if \<not> cn_detached c then connection_detach E p h v else Some (h, v));
        c \<leftarrow> conn_get p v;
        if cn_pending_deferred c \<noteq> 0 then Some (h, v)
        else do {
          v \<leftarrow> worker_upd (cn_worker c) (\<lambda>w. w\<lparr>wk_connection_arena := wirecall_fixed_arena_free p (wk_connection_arena w)\<rparr>) v;
          Some (h, v\<lparr>sv_conns := (sv_conns v)(p := None)\<rparr>) } })"

definition maybe_close :: "('f, 'n) env \<Rightarrow> nat \<Rightarrow> heap \<Rightarrow> 'n wirecall_server \<Rightarrow> (heap \<times> 'n wirecall_server) option" where
  "maybe_close E p h v = do {
     c \<leftarrow> conn_get p v;
     if cn_closing c \<and> cn_write_len c = cn_write_off c then connection_destroy E p h v else Some (h, v) }"

section \<open>Writing\<close>

text \<open>\<open>write_loop\<close> is the loop of \<open>connection_write\<close>; the result is \<open>True\<close> when everything has been written.\<close>

partial_function (option) write_loop :: "('f, 'n) env \<Rightarrow> nat \<Rightarrow> heap \<Rightarrow> 'n wirecall_server \<Rightarrow> (bool \<times> 'n wirecall_server) option" where
  "write_loop E p h v = do {
     c \<leftarrow> conn_get p v;
     if cn_write_off c < cn_write_len c then do {
       bs \<leftarrow> hp_read (cn_write_buf c) (cn_write_off c) (cn_write_len c - cn_write_off c) h;
       let (r, n) = wirecall_socket_send (e_os E) (cn_fd c) bs (sv_net v);
       let v = v\<lparr>sv_net := n\<rparr>;
       case r of
         Inr sent \<Rightarrow>
           if sent > 0 then do { v \<leftarrow> conn_upd p (\<lambda>c. c\<lparr>cn_write_off := cn_write_off c + sent\<rparr>) v; write_loop E p h v }
           else do { v \<leftarrow> conn_upd p (\<lambda>c. c\<lparr>cn_closing := True\<rparr>) v; Some (False, v) }
       | Inl error \<Rightarrow>
           if wirecall_socket_interrupted error then write_loop E p h v
           else if wirecall_socket_would_block error then do {
             (rc, v) \<leftarrow> connection_set_interests E p (WIRECALL_BACKEND_READ OR WIRECALL_BACKEND_WRITE) v;
             Some (False, v) }
           else do { v \<leftarrow> conn_upd p (\<lambda>c. c\<lparr>cn_closing := True\<rparr>) v; Some (False, v) } }
     else Some (True, v) }"

definition connection_write :: "('f, 'n) env \<Rightarrow> nat \<Rightarrow> heap \<Rightarrow> 'n wirecall_server \<Rightarrow> 'n wirecall_server option" where
  "connection_write E p h v = do {
     (all, v) \<leftarrow> write_loop E p h v;
     if \<not> all then Some v
     else do {
       v \<leftarrow> conn_upd p (\<lambda>c. c\<lparr>cn_write_len := 0, cn_write_off := 0\<rparr>) v;
       (rc, v) \<leftarrow> connection_set_interests E p WIRECALL_BACKEND_READ v;
       Some v } }"

partial_function (option) flush_loop :: "('f, 'n) env \<Rightarrow> nat \<Rightarrow> heap \<Rightarrow> 'n wirecall_server \<Rightarrow> (heap \<times> 'n wirecall_server) option" where
  "flush_loop E p h v =
     (if p \<noteq> 0 then do {
        c \<leftarrow> conn_get p v;
        let nxt = cn_write_next c;
        v \<leftarrow> conn_upd p (\<lambda>c. c\<lparr>cn_write_next := 0, cn_write_queued := False\<rparr>) v;
        v \<leftarrow> (if cn_write_off c < cn_write_len c \<and> \<not> cn_closing c then connection_write E p h v
              else if cn_write_off c < cn_write_len c then connection_write E p h v
              else Some v);
        (h, v) \<leftarrow> maybe_close E p h v;
        flush_loop E nxt h v }
      else Some (h, v))"

definition worker_flush_writes :: "('f, 'n) env \<Rightarrow> nat \<Rightarrow> heap \<Rightarrow> 'n wirecall_server \<Rightarrow> (heap \<times> 'n wirecall_server) option" where
  "worker_flush_writes E i h v = do {
     w \<leftarrow> worker_get i v;
     v \<leftarrow> worker_upd i (\<lambda>w. w\<lparr>wk_pending_writes := 0\<rparr>) v;
     flush_loop E (wk_pending_writes w) h v }"

section \<open>Deferred calls\<close>

definition wirecall_deferred_call_id :: "wirecall_deferred option \<Rightarrow> u64" where
  "wirecall_deferred_call_id call = (case call of Some d \<Rightarrow> df_call_id d | None \<Rightarrow> 0)"

definition wirecall_deferred_proc_id :: "wirecall_deferred option \<Rightarrow> u64" where
  "wirecall_deferred_proc_id call = (case call of Some d \<Rightarrow> df_proc_id d | None \<Rightarrow> 0)"

definition wirecall_deferred_response :: "wirecall_deferred option \<Rightarrow> wirecall_writer option" where
  "wirecall_deferred_response call = (case call of Some d \<Rightarrow> Some (df_response d) | None \<Rightarrow> None)"

definition wirecall_deferred_complete :: "('f, 'n) env \<Rightarrow> nat \<Rightarrow> 'n wirecall_server \<Rightarrow> (int \<times> 'n wirecall_server) option" where
  "wirecall_deferred_complete E p v =
     (if p = 0 then Some (-1, v)
      else do {
        d \<leftarrow> def_get p v;
        let already_completed = df_completed d;
        v \<leftarrow> def_upd p (\<lambda>d. d\<lparr>df_completed := True\<rparr>) v;
        if already_completed then Some (-1, v)
        else do {
          v \<leftarrow> def_upd p (\<lambda>d. d\<lparr>df_result := 0\<rparr>) v;
          v \<leftarrow> worker_queue_completed E (df_worker d) p v;
          Some (0, v) } })"

definition wirecall_deferred_fail ::
  "('f, 'n) env \<Rightarrow> nat \<Rightarrow> u8 list option \<Rightarrow> 'n wirecall_server \<Rightarrow> (int \<times> 'n wirecall_server) option" where
  "wirecall_deferred_fail E p message v =
     (if p = 0 then Some (-1, v)
      else do {
        d \<leftarrow> def_get p v;
        let already_completed = df_completed d;
        v \<leftarrow> def_upd p (\<lambda>d. d\<lparr>df_completed := True\<rparr>) v;
        if already_completed then Some (-1, v)
        else do {
          let error = (case message of
                         Some m \<Rightarrow> if m \<noteq> [] then m else message_bytes ''deferred procedure failed''
                       | None \<Rightarrow> message_bytes ''deferred procedure failed'');
          v \<leftarrow> def_upd p (\<lambda>d. d\<lparr>df_result := -1, df_error := take (sizeof_error - 1) error\<rparr>) v;
          v \<leftarrow> worker_queue_completed E (df_worker d) p v;
          Some (0, v) } })"

text \<open>What a procedure does with its call before it returns.\<close>

fun deferred_acts :: "('f, 'n) env \<Rightarrow> nat \<Rightarrow> deferred_act list \<Rightarrow> 'n wirecall_server \<Rightarrow> 'n wirecall_server option" where
  "deferred_acts E p [] v = Some v"
| "deferred_acts E p (Act_Complete # acts) v = do { (rc, v) \<leftarrow> wirecall_deferred_complete E p v; deferred_acts E p acts v }"
| "deferred_acts E p (Act_Fail m # acts) v = do { (rc, v) \<leftarrow> wirecall_deferred_fail E p m v; deferred_acts E p acts v }"

text \<open>From the decoded arguments on.\<close>

definition deferred_run ::
  "('f, 'n) env \<Rightarrow> nat \<Rightarrow> wirecall_route \<Rightarrow> nat \<Rightarrow> heap \<Rightarrow> 'n wirecall_server \<Rightarrow> (int \<times> heap \<times> 'n wirecall_server) option" where
  "deferred_run E p route call h v = do {
     v \<leftarrow> conn_upd p (\<lambda>c. c\<lparr>cn_pending_deferred := cn_pending_deferred c + 1\<rparr>) v;
     d \<leftarrow> def_get call v;
     (result, acts, response, h, n) \<leftarrow>
        e_deferred_handler E (rt_deferred_handler route) d (df_args d) (df_argc d) (rt_user_data route) h (sv_net v);
     v \<leftarrow> def_upd call (\<lambda>d. d\<lparr>df_response := response\<rparr>) (v\<lparr>sv_net := n\<rparr>);
     v \<leftarrow> deferred_acts E call acts v;
     d \<leftarrow> def_get call v;
     if result \<noteq> 0 \<and> \<not> df_completed d then do {
       (rc, v) \<leftarrow> wirecall_deferred_fail E call (Some (message_bytes ''deferred procedure failed'')) v;
       Some (0, h, v) }
     else Some (0, h, v) }"

definition deferred_alloc :: "nat \<Rightarrow> 'n wirecall_server \<Rightarrow> (nat \<times> 'n wirecall_server) option" where
  "deferred_alloc i v = do {
     w \<leftarrow> worker_get i v;
     let (call, arena) = wirecall_fixed_arena_alloc (wk_deferred_arena w);
     v \<leftarrow> worker_upd i (\<lambda>w. w\<lparr>wk_deferred_arena := arena\<rparr>) v;
     Some (call, if call = 0 then v else v\<lparr>sv_defs := (sv_defs v)(call := Some zero_deferred)\<rparr>) }"

text \<open>The copy of the payload; the result is \<open>-1\<close> when there is no memory for it.\<close>

definition deferred_payload ::
  "('f, 'n) env \<Rightarrow> wirecall_header \<Rightarrow> u8 list \<Rightarrow> nat \<Rightarrow> heap \<Rightarrow> 'n wirecall_server \<Rightarrow> (int \<times> heap \<times> 'n wirecall_server) option" where
  "deferred_payload E header payload call h v =
     (if h_size header > 0 then do {
        (q, h) \<leftarrow> wirecall_mem_alloc (e_g E) (unat (h_size header)) h;
        v \<leftarrow> def_upd call (\<lambda>d. d\<lparr>df_payload := q\<rparr>) v;
        if q = 0 then Some (-1, h, v)
        else do { h \<leftarrow> hp_write q 0 (take (unat (h_size header)) payload) h; Some (0, h, v) } }
      else Some (0, h, v))"

definition handle_deferred_call ::
  "('f, 'n) env \<Rightarrow> nat \<Rightarrow> wirecall_header \<Rightarrow> wirecall_route \<Rightarrow> u8 list \<Rightarrow> heap \<Rightarrow> 'n wirecall_server \<Rightarrow>
     (int \<times> heap \<times> 'n wirecall_server) option" where
  "handle_deferred_call E p header route payload h v = do {
     c \<leftarrow> conn_get p v;
     (call, v) \<leftarrow> deferred_alloc (cn_worker c) v;
     if call = 0 then
       queue_string_error E p (h_proc_id header) (h_call_id header) (message_bytes ''deferred call allocation failed'') h v
     else do {
       v \<leftarrow> def_upd call (\<lambda>d. d\<lparr>df_conn := p, df_worker := cn_worker c, df_call_id := h_call_id header, df_proc_id := h_proc_id header,
              df_payload_len := unat (h_size header), df_response := zero_writer, df_completed := False\<rparr>) v;
       (rc, h, v) \<leftarrow> deferred_payload E header payload call h v;
       if rc \<noteq> 0 then do {
         (h, v) \<leftarrow> deferred_free E call h v;
         queue_string_error E p (h_proc_id header) (h_call_id header) (message_bytes ''deferred payload allocation failed'') h v }
       else do {
         d \<leftarrow> def_get call v;
         bytes \<leftarrow> (if df_payload d = 0 then Some None
                   else do { bs \<leftarrow> hp_read (df_payload d) 0 (df_payload_len d) h; Some (Some bs) });
         (rc, args, argc, h) \<leftarrow> wirecall_payload_decode (e_g E) bytes (df_payload_len d) (Some (df_args d)) (Some (df_argc d)) h;
         v \<leftarrow> def_upd call (\<lambda>d. d\<lparr>df_args := the args, df_argc := the argc\<rparr>) v;
         if rc \<noteq> 0 then do {
           (h, v) \<leftarrow> deferred_free E call h v;
           queue_string_error E p (h_proc_id header) (h_call_id header) (message_bytes ''malformed payload'') h v }
         else deferred_run E p route call h v } } }"

section \<open>Synchronous calls\<close>

definition handle_sync_call ::
  "('f, 'n) env \<Rightarrow> nat \<Rightarrow> wirecall_header \<Rightarrow> wirecall_route \<Rightarrow> u8 list \<Rightarrow> heap \<Rightarrow> 'n wirecall_server \<Rightarrow>
     (int \<times> heap \<times> 'n wirecall_server) option" where
  "handle_sync_call E p header route payload h v = do {
     (rc, args, argc, h) \<leftarrow> wirecall_payload_decode (e_g E) (Some payload) (unat (h_size header)) (Some (0, [])) (Some 0) h;
     if rc \<noteq> 0 then queue_string_error E p (h_proc_id header) (h_call_id header) (message_bytes ''malformed payload'') h v
     else do {
       let ctx = \<lparr>cx_call_id = h_call_id header, cx_proc_id = h_proc_id header, cx_server = 0\<rparr>;
       (result, response, h, n) \<leftarrow>
          e_handler E (rt_handler route) ctx (the args) (the argc) (rt_user_data route) zero_writer h (sv_net v);
       let v = v\<lparr>sv_net := n\<rparr>;
       (rc, h, v) \<leftarrow> (if result = 0 then do {
            data \<leftarrow> writer_payload (Some response) h;
            queue_packet E p WIRECALL_OP_RESPONSE WIRECALL_FLAG_NONE (h_proc_id header) (h_call_id header) data (w_len response) h v }
          else queue_string_error E p (h_proc_id header) (h_call_id header) (message_bytes ''procedure failed'') h v);
       (response, h) \<leftarrow> wirecall_writer_free (e_g E) (Some response) h;
       h \<leftarrow> wirecall_values_free (e_g E) (fst (the args)) (snd (the args)) h;
       Some (rc, h, v) } }"

section \<open>Asynchronous calls\<close>

definition on_call_done :: "('f, 'n) env \<Rightarrow> wirecall_call \<Rightarrow> nat \<Rightarrow> heap \<Rightarrow> 'n wirecall_server \<Rightarrow> (heap \<times> 'n wirecall_server) option" where
  "on_call_done E call p h v =
     (if wirecall_call_result (Some call) = 0 then do {
        data \<leftarrow> writer_payload (wirecall_call_response (Some call)) h;
        (rc, h, v) \<leftarrow> queue_packet E p WIRECALL_OP_RESPONSE WIRECALL_FLAG_NONE (wirecall_call_proc_id (Some call))
          (wirecall_call_id (Some call)) data (w_len (cl_response call)) h v;
        Some (h, v) }
      else do {
        (rc, h, v) \<leftarrow> queue_string_error E p (wirecall_call_proc_id (Some call)) (wirecall_call_id (Some call))
          (message_bytes (wirecall_call_error (Some call))) h v;
        Some (h, v) })"

text \<open>The only callback that the server gives to its schedulers, as the function with address \<open>ON_CALL_DONE\<close>.\<close>

definition ON_CALL_DONE :: nat where "ON_CALL_DONE = 2"

definition server_callbacks :: "('f, 'n) env \<Rightarrow> 'n wirecall_server callbacks" where
  "server_callbacks E done_fn call data h v = (if done_fn = ON_CALL_DONE then on_call_done E call data h v else None)"

text \<open>Asynchronous procedures, like the others, act on the heap and the world outside.\<close>

definition server_handlers :: "('f, 'n) env \<Rightarrow> ('f, 'n wirecall_server) handlers" where
  "server_handlers E fn frame call h v = do {
     (out, response, h, n) \<leftarrow> e_async_handler E fn frame call h (sv_net v);
     Some (out, response, h, v\<lparr>sv_net := n\<rparr>) }"

section \<open>Packets\<close>

text \<open>The lookup in the routes of the server, which are in the same heap.  The member \<open>routes\<close> is not at \<open>NULL\<close>.\<close>

definition ROUTES :: nat where "ROUTES = 8"

definition server_lookup ::
  "('f, 'n) env \<Rightarrow> u64 \<Rightarrow> heap \<Rightarrow> 'n wirecall_server \<Rightarrow> ((int \<times> wirecall_route option) \<times> heap \<times> 'n wirecall_server) option" where
  "server_lookup E proc_id h v = do {
     (rc, route, s) \<leftarrow> wirecall_routes_lookup (e_g E) ROUTES proc_id (Some zero_route) ((sv_routes v)\<lparr>r_heap := h\<rparr>);
     Some ((rc, route), r_heap s, v\<lparr>sv_routes := s\<rparr>) }"

definition handle_rpc ::
  "('f, 'n) env \<Rightarrow> nat \<Rightarrow> wirecall_header \<Rightarrow> u8 list \<Rightarrow> ('f, 'n wirecall_server) sched \<Rightarrow>
     (int \<times> ('f, 'n wirecall_server) sched) option" where
  "handle_rpc E p header payload s = do {
     ((rc, route), s) \<leftarrow> on_server (server_lookup E (h_proc_id header)) s;
     let route = the route;
     if rc \<noteq> 0 then
       on_server (queue_string_error E p (h_proc_id header) (h_call_id header) (message_bytes ''unknown procedure'')) s
     else if rt_is_deferred route then on_server (handle_deferred_call E p header route payload) s
     else if \<not> rt_is_async route then on_server (handle_sync_call E p header route payload) s
     else do {
       c \<leftarrow> conn_get p (s_world s);
       w \<leftarrow> worker_get (cn_worker c) (s_world s);
       (rc, s) \<leftarrow> wirecall_scheduler_submit (e_platform E) (e_g E) (server_callbacks E) (wk_scheduler w) (h_call_id header)
          (h_proc_id header) (rt_handler route) (rt_user_data route) (Some payload) (unat (h_size header)) ON_CALL_DONE p s;
       if rc \<noteq> 0 then
         on_server (queue_string_error E p (h_proc_id header) (h_call_id header) (message_bytes ''scheduler failure'')) s
       else Some (0, s) } }"

definition connection_close :: "nat \<Rightarrow> ('f, 'n wirecall_server) sched \<Rightarrow> ('f, 'n wirecall_server) sched option" where
  "connection_close p s = do {
     v \<leftarrow> conn_upd p (\<lambda>c. c\<lparr>cn_closing := True\<rparr>) (s_world s);
     Some (s\<lparr>s_world := v\<rparr>) }"

definition handle_packet ::
  "('f, 'n) env \<Rightarrow> nat \<Rightarrow> wirecall_header \<Rightarrow> u8 list \<Rightarrow> ('f, 'n wirecall_server) sched \<Rightarrow>
     (int \<times> ('f, 'n wirecall_server) sched) option" where
  "handle_packet E p header payload s =
     (if h_op header = WIRECALL_OP_RPC then handle_rpc E p header payload s
      else if h_op header = WIRECALL_OP_PING then
        on_server (queue_packet E p WIRECALL_OP_RESPONSE WIRECALL_FLAG_NONE 0 (h_call_id header) None 0) s
      else if h_op header = WIRECALL_OP_DISCONNECT then do { s \<leftarrow> connection_close p s; Some (0, s) }
      else on_server (queue_string_error E p (h_proc_id header) (h_call_id header) (message_bytes ''unsupported operation'')) s)"

section \<open>Reading\<close>

text \<open>
  The loop of \<open>parse_available\<close> with the function that handles packets as an argument; the result is the offset at which
  it stops.
\<close>

partial_function (option) parse_loop ::
  "(wirecall_header \<Rightarrow> u8 list \<Rightarrow> ('f, 'n wirecall_server) sched \<Rightarrow> (int \<times> ('f, 'n wirecall_server) sched) option) \<Rightarrow>
     bool \<Rightarrow> nat \<Rightarrow> nat \<Rightarrow> ('f, 'n wirecall_server) sched \<Rightarrow> (nat \<times> ('f, 'n wirecall_server) sched) option" where
  "parse_loop handle be p off s = do {
     c \<leftarrow> conn_get p (s_world s);
     if sz_sub (cn_read_len c) off \<ge> WIRECALL_HEADER_SIZE then do {
       bytes \<leftarrow> hp_read (cn_read_buf c) off (sz_sub (cn_read_len c) off) (s_heap s);
       (rc, header) \<leftarrow> wirecall_header_decode (Some bytes) (Some zero_header);
       let header = the header;
       if rc \<noteq> 0 then do { s \<leftarrow> connection_close p s; Some (off, s) }
       else if sz_sub (sz_sub (cn_read_len c) off) WIRECALL_HEADER_SIZE < unat (h_size header) then Some (off, s)
       else do {
         payload \<leftarrow> hp_read (cn_read_buf c) (off + WIRECALL_HEADER_SIZE) (unat (h_size header)) (s_heap s);
         rc \<leftarrow> wirecall_packet_verify_ex be (Some header) (Some payload) (unat (h_size header)) (sv_integrity (s_world s))
            (Some (sv_mac_key (s_world s)));
         if rc \<noteq> 0 then do { s \<leftarrow> connection_close p s; Some (off, s) }
         else do {
           (rc, s) \<leftarrow> handle header payload s;
           if rc \<noteq> 0 then do { s \<leftarrow> connection_close p s; Some (off, s) }
           else parse_loop handle be p (off + (WIRECALL_HEADER_SIZE + unat (h_size header))) s } } }
     else Some (off, s) }"

definition parse_available ::
  "('f, 'n) env \<Rightarrow> nat \<Rightarrow> ('f, 'n wirecall_server) sched \<Rightarrow> ('f, 'n wirecall_server) sched option" where
  "parse_available E p s = do {
     (off, s) \<leftarrow> parse_loop (handle_packet E p) (e_be E) p 0 s;
     if off > 0 then do {
       c \<leftarrow> conn_get p (s_world s);
       bs \<leftarrow> hp_read (cn_read_buf c) off (sz_sub (cn_read_len c) off) (s_heap s);
       h \<leftarrow> hp_write (cn_read_buf c) 0 bs (s_heap s);
       v \<leftarrow> conn_upd p (\<lambda>c. c\<lparr>cn_read_len := sz_sub (cn_read_len c) off\<rparr>) (s_world s);
       Some (s\<lparr>s_heap := h, s_world := v\<rparr>) }
     else Some s }"

definition read_reserve :: "('f, 'n) env \<Rightarrow> nat \<Rightarrow> heap \<Rightarrow> 'n wirecall_server \<Rightarrow> (int \<times> heap \<times> 'n wirecall_server) option" where
  "read_reserve E p h v = do {
     c \<leftarrow> conn_get p v;
     if sz_sub (cn_read_cap c) (cn_read_len c) < WIRECALL_READ_CHUNK then do {
       (rc, buf, cap, h) \<leftarrow> reserve_bytes (e_g E) (cn_read_buf c) (cn_read_cap c) (sz_add (cn_read_len c) WIRECALL_READ_CHUNK) h;
       v \<leftarrow> conn_upd p (\<lambda>c. c\<lparr>cn_read_buf := buf, cn_read_cap := cap\<rparr>) v;
       Some (rc, h, v) }
     else Some (0, h, v) }"

partial_function (option) connection_read ::
  "('f, 'n) env \<Rightarrow> nat \<Rightarrow> ('f, 'n wirecall_server) sched \<Rightarrow> ('f, 'n wirecall_server) sched option" where
  "connection_read E p s = do {
     (rc, s) \<leftarrow> on_server (read_reserve E p) s;
     if rc \<noteq> 0 then connection_close p s
     else do {
       c \<leftarrow> conn_get p (s_world s);
       let (r, n) = wirecall_socket_recv (e_os E) (cn_fd c) (sz_sub (cn_read_cap c) (cn_read_len c)) (sv_net (s_world s));
       let s = s\<lparr>s_world := (s_world s)\<lparr>sv_net := n\<rparr>\<rparr>;
       case r of
         Inr bs \<Rightarrow>
           if bs \<noteq> [] then do {
             h \<leftarrow> hp_write (cn_read_buf c) (cn_read_len c) bs (s_heap s);
             v \<leftarrow> conn_upd p (\<lambda>c. c\<lparr>cn_read_len := cn_read_len c + length bs\<rparr>) (s_world s);
             s \<leftarrow> parse_available E p (s\<lparr>s_heap := h, s_world := v\<rparr>);
             c \<leftarrow> conn_get p (s_world s);
             if cn_closing c then Some s else connection_read E p s }
           else connection_close p s
       | Inl error \<Rightarrow>
           if wirecall_socket_would_block error then Some s
           else if wirecall_socket_interrupted error then connection_read E p s
           else connection_close p s } }"

end
