(* ===== verification/Server_Worker.thy ===== *)
theory Server_Worker
  imports Server
begin

text \<open>
  The workers of a server and its interface, \<^verbatim>\<open>src/server.c\<close> from \<open>worker_add_connection\<close> on: accepting and
  handing over connections, sending the responses of deferred calls, the event loop, and
  setting up and tearing down.

  The state of the interface functions is a \<open>system\<close>: the heap, the server and what each worker has besides
  (its scheduler with the coroutines).  Worker threads are not modelled: \<open>worker_run\<close> is the code of one of
  them, and what the others do while it waits for events is an argument.
\<close>

section \<open>Connections\<close>

definition sizeof_connection :: nat where "sizeof_connection = 112"
definition sizeof_deferred :: nat where "sizeof_deferred = 264"
definition sizeof_pending_fd :: nat where "sizeof_pending_fd = 16"

definition connection_alloc :: "nat \<Rightarrow> 'n wirecall_server \<Rightarrow> (nat \<times> 'n wirecall_server) option" where
  "connection_alloc i v = do {
     w \<leftarrow> worker_get i v;
     let (conn, arena) = wirecall_fixed_arena_alloc (wk_connection_arena w);
     v \<leftarrow> worker_upd i (\<lambda>w. w\<lparr>wk_connection_arena := arena\<rparr>) v;
     Some (conn, if conn = 0 then v else v\<lparr>sv_conns := (sv_conns v)(conn := Some zero_connection)\<rparr>) }"

definition worker_add_connection ::
  "('f, 'n) env \<Rightarrow> nat \<Rightarrow> int \<Rightarrow> heap \<Rightarrow> 'n wirecall_server \<Rightarrow> (int \<times> heap \<times> 'n wirecall_server) option" where
  "worker_add_connection E i fd h v = do {
     (conn, v) \<leftarrow> connection_alloc i v;
     if conn = 0 then Some (-1, h, v\<lparr>sv_net := snd (wirecall_socket_close (e_os E) fd (sv_net v))\<rparr>)
     else do {
       w \<leftarrow> worker_get i v;
       v \<leftarrow> conn_upd conn (\<lambda>c. c\<lparr>cn_fd := fd, cn_worker := i, cn_next := wk_connections w\<rparr>) v;
       v \<leftarrow> worker_upd i (\<lambda>w. w\<lparr>wk_connections := conn\<rparr>) v;
       let (rc, n) = bk_register (e_backend E) (wk_backend w) fd WIRECALL_BACKEND_READ conn (sv_net v);
       let v = v\<lparr>sv_net := n\<rparr>;
       if rc \<noteq> 0 then do { (h, v) \<leftarrow> connection_destroy E conn h v; Some (-1, h, v) }
       else do {
         v \<leftarrow> conn_upd conn (\<lambda>c. c\<lparr>cn_interests := WIRECALL_BACKEND_READ\<rparr>) v;
         Some (0, h, v) } } }"

text \<open>A pending descriptor is a block of the heap with contents beside it.\<close>

definition fd_get :: "nat \<Rightarrow> heap \<Rightarrow> 'n wirecall_server \<Rightarrow> wirecall_pending_fd option" where
  "fd_get q h v = (if hp_size h q = None then None else Some (sv_fds v q))"

definition fd_upd ::
  "nat \<Rightarrow> (wirecall_pending_fd \<Rightarrow> wirecall_pending_fd) \<Rightarrow> heap \<Rightarrow> 'n wirecall_server \<Rightarrow> 'n wirecall_server option" where
  "fd_upd q f h v = (if hp_size h q = None then None else Some (v\<lparr>sv_fds := (sv_fds v)(q := f (sv_fds v q))\<rparr>))"

definition worker_enqueue_connection ::
  "('f, 'n) env \<Rightarrow> nat \<Rightarrow> int \<Rightarrow> heap \<Rightarrow> 'n wirecall_server \<Rightarrow> (heap \<times> 'n wirecall_server) option" where
  "worker_enqueue_connection E i fd h v = do {
     (pending, h) \<leftarrow> wirecall_mem_alloc (e_g E) sizeof_pending_fd h;
     if pending = 0 then Some (h, v\<lparr>sv_net := snd (wirecall_socket_close (e_os E) fd (sv_net v))\<rparr>)
     else do {
       v \<leftarrow> fd_upd pending (\<lambda>q. q\<lparr>pn_fd := fd, pn_next := 0\<rparr>) h v;
       w \<leftarrow> worker_get i v;
       v \<leftarrow> (if wk_pending_tail w \<noteq> 0 then fd_upd (wk_pending_tail w) (\<lambda>q. q\<lparr>pn_next := pending\<rparr>) h v
             else worker_upd i (\<lambda>w. w\<lparr>wk_pending_head := pending\<rparr>) v);
       v \<leftarrow> worker_upd i (\<lambda>w. w\<lparr>wk_pending_tail := pending\<rparr>) v;
       Some (h, v\<lparr>sv_net := snd (bk_wake (e_backend E) (wk_backend w) (sv_net v))\<rparr>) } }"

partial_function (option) drain_pending_loop ::
  "('f, 'n) env \<Rightarrow> nat \<Rightarrow> nat \<Rightarrow> heap \<Rightarrow> 'n wirecall_server \<Rightarrow> (heap \<times> 'n wirecall_server) option" where
  "drain_pending_loop E i pending h v =
     (if pending \<noteq> 0 then do {
        q \<leftarrow> fd_get pending h v;
        (rc, h, v) \<leftarrow> worker_add_connection E i (pn_fd q) h v;
        h \<leftarrow> wirecall_mem_free (e_g E) pending h;
        drain_pending_loop E i (pn_next q) h v }
      else Some (h, v))"

definition worker_drain_pending :: "('f, 'n) env \<Rightarrow> nat \<Rightarrow> heap \<Rightarrow> 'n wirecall_server \<Rightarrow> (heap \<times> 'n wirecall_server) option" where
  "worker_drain_pending E i h v = do {
     w \<leftarrow> worker_get i v;
     v \<leftarrow> worker_upd i (\<lambda>w. w\<lparr>wk_pending_head := 0, wk_pending_tail := 0\<rparr>) v;
     drain_pending_loop E i (wk_pending_head w) h v }"

section \<open>Completed deferred calls\<close>

definition completed_respond ::
  "('f, 'n) env \<Rightarrow> wirecall_deferred \<Rightarrow> heap \<Rightarrow> 'n wirecall_server \<Rightarrow> (heap \<times> 'n wirecall_server) option" where
  "completed_respond E d h v =
     (if df_conn d = 0 then Some (h, v)
      else do {
        c \<leftarrow> conn_get (df_conn d) v;
        if \<not> cn_detached c \<and> \<not> cn_closing c then
          (if df_result d = 0 then do {
             data \<leftarrow> writer_payload (Some (df_response d)) h;
             (rc, h, v) \<leftarrow> queue_packet E (df_conn d) WIRECALL_OP_RESPONSE WIRECALL_FLAG_NONE (df_proc_id d) (df_call_id d) data
                (w_len (df_response d)) h v;
             Some (h, v) }
           else do {
             (rc, h, v) \<leftarrow> queue_string_error E (df_conn d) (df_proc_id d) (df_call_id d)
                (if df_error d \<noteq> [] then df_error d else message_bytes ''deferred procedure failed'') h v;
             Some (h, v) })
        else Some (h, v) })"

definition completed_release ::
  "('f, 'n) env \<Rightarrow> nat \<Rightarrow> nat \<Rightarrow> heap \<Rightarrow> 'n wirecall_server \<Rightarrow> (heap \<times> 'n wirecall_server) option" where
  "completed_release E conn call h v = do {
     v \<leftarrow> (if conn = 0 then Some v
           else conn_upd conn (\<lambda>c. if cn_pending_deferred c > 0 then c\<lparr>cn_pending_deferred := cn_pending_deferred c - 1\<rparr> else c) v);
     (h, v) \<leftarrow> deferred_free E call h v;
     if conn = 0 then Some (h, v)
     else do {
       c \<leftarrow> conn_get conn v;
       if cn_detached c \<and> cn_pending_deferred c = 0 then connection_destroy E conn h v else Some (h, v) } }"

partial_function (option) drain_completed_loop ::
  "('f, 'n) env \<Rightarrow> nat \<Rightarrow> heap \<Rightarrow> 'n wirecall_server \<Rightarrow> (heap \<times> 'n wirecall_server) option" where
  "drain_completed_loop E call h v =
     (if call \<noteq> 0 then do {
        d \<leftarrow> def_get call v;
        (h, v) \<leftarrow> completed_respond E d h v;
        (h, v) \<leftarrow> completed_release E (df_conn d) call h v;
        drain_completed_loop E (df_next_done d) h v }
      else Some (h, v))"

definition worker_drain_completed :: "('f, 'n) env \<Rightarrow> nat \<Rightarrow> heap \<Rightarrow> 'n wirecall_server \<Rightarrow> (heap \<times> 'n wirecall_server) option" where
  "worker_drain_completed E i h v = do {
     w \<leftarrow> worker_get i v;
     v \<leftarrow> worker_upd i (\<lambda>w. w\<lparr>wk_completed_head := 0, wk_completed_tail := 0\<rparr>) v;
     drain_completed_loop E (wk_completed_head w) h v }"

section \<open>Accepting\<close>

partial_function (option) accept_ready ::
  "('f, 'n) env \<Rightarrow> int \<Rightarrow> heap \<Rightarrow> 'n wirecall_server \<Rightarrow> (heap \<times> 'n wirecall_server) option" where
  "accept_ready E listener_fd h v = (
     let (r, n) = wirecall_socket_accept (e_os E) listener_fd (sv_net v);
         v = v\<lparr>sv_net := n\<rparr>
     in case r of
          Inl error \<Rightarrow> if wirecall_socket_interrupted error then accept_ready E listener_fd h v else Some (h, v)
        | Inr fd \<Rightarrow> (
            let (rc, n) = wirecall_socket_set_nonblock (e_os E) fd (sv_net v)
            in if rc \<noteq> 0 then accept_ready E listener_fd h (v\<lparr>sv_net := snd (wirecall_socket_close (e_os E) fd n)\<rparr>)
               else if sv_worker_count v = 0 then None
               else do {
                 let idx = sv_next_worker v mod sv_worker_count v;
                 let v = v\<lparr>sv_net := n, sv_next_worker := sv_next_worker v + 1\<rparr>;
                 (h, v) \<leftarrow> worker_enqueue_connection E (unat idx) fd h v;
                 accept_ready E listener_fd h v }))"

section \<open>The event loop\<close>

text \<open>
  The address of a listener within the array of workers, and which listener an address is that of.  Addresses
  of listeners and connections are even, and the lowest bit of the user data tells them apart.
\<close>

definition sizeof_worker :: nat where "sizeof_worker = 408"
definition offsetof_listeners :: nat where "offsetof_listeners = 120"
definition sizeof_listener :: nat where "sizeof_listener = 16"

definition listener_addr :: "nat \<Rightarrow> nat \<Rightarrow> nat \<Rightarrow> nat" where
  "listener_addr workers i k = workers + i * sizeof_worker + (offsetof_listeners + k * sizeof_listener)"

definition listener_at :: "nat \<Rightarrow> 'n wirecall_server \<Rightarrow> wirecall_listener option" where
  "listener_at a v = (
     let i = (a - sv_workers v) div sizeof_worker;
         k = ((a - sv_workers v) mod sizeof_worker - offsetof_listeners) div sizeof_listener
     in do {
          w \<leftarrow> worker_get i v;
          if a = listener_addr (sv_workers v) i k \<and> k < length (wk_listeners w) then Some (wk_listeners w ! k) else None })"

definition handle_event ::
  "('f, 'n) env \<Rightarrow> nat \<Rightarrow> wirecall_backend_event \<Rightarrow> ('f, 'n wirecall_server) sched \<Rightarrow> ('f, 'n wirecall_server) sched option" where
  "handle_event E i ev s =
     (if ev_events ev AND WIRECALL_BACKEND_WAKE \<noteq> 0 then do {
        (h, v) \<leftarrow> worker_drain_pending E i (s_heap s) (s_world s);
        (h, v) \<leftarrow> worker_drain_completed E i h v;
        Some (s\<lparr>s_heap := h, s_world := v\<rparr>) }
      else if odd (ev_user ev) then do {
        l \<leftarrow> listener_at (ev_user ev - 1) (s_world s);
        (h, v) \<leftarrow> accept_ready E (ls_fd l) (s_heap s) (s_world s);
        Some (s\<lparr>s_heap := h, s_world := v\<rparr>) }
      else do {
        let conn = ev_user ev;
        c \<leftarrow> conn_get conn (s_world s);
        s \<leftarrow> (if ev_events ev AND WIRECALL_BACKEND_READ \<noteq> 0 \<and> \<not> cn_closing c then connection_read E conn s else Some s);
        c \<leftarrow> conn_get conn (s_world s);
        v \<leftarrow> (if ev_events ev AND WIRECALL_BACKEND_WRITE \<noteq> 0 \<and> \<not> cn_closing c then connection_write E conn (s_heap s) (s_world s)
              else Some (s_world s));
        (h, v) \<leftarrow> maybe_close E conn (s_heap s) v;
        Some (s\<lparr>s_heap := h, s_world := v\<rparr>) })"

fun handle_events ::
  "('f, 'n) env \<Rightarrow> nat \<Rightarrow> wirecall_backend_event list \<Rightarrow> ('f, 'n wirecall_server) sched \<Rightarrow> ('f, 'n wirecall_server) sched option" where
  "handle_events E i [] s = Some s"
| "handle_events E i (ev # evs) s = do { s \<leftarrow> handle_event E i ev s; handle_events E i evs s }"

text \<open>What follows the events in a round of the loop.\<close>

definition worker_finish_round ::
  "('f, 'n) env \<Rightarrow> nat \<Rightarrow> ('f, 'n wirecall_server) sched \<Rightarrow> ('f, 'n wirecall_server) sched option" where
  "worker_finish_round E i s = do {
     w \<leftarrow> worker_get i (s_world s);
     s \<leftarrow> wirecall_scheduler_run_ready (e_platform E) (e_g E) (server_handlers E) (server_callbacks E) (wk_scheduler w) s;
     (h, v) \<leftarrow> worker_drain_completed E i (s_heap s) (s_world s);
     (h, v) \<leftarrow> worker_flush_writes E i h v;
     Some (s\<lparr>s_heap := h, s_world := v\<rparr>) }"

text \<open>\<open>others\<close> is what other threads do while this one waits in \<open>wirecall_backend_poll\<close>.\<close>

partial_function (option) worker_run ::
  "('f, 'n) env \<Rightarrow> (heap \<Rightarrow> 'n wirecall_server \<Rightarrow> heap \<times> 'n wirecall_server) \<Rightarrow> nat \<Rightarrow> ('f, 'n wirecall_server) sched \<Rightarrow>
     (int \<times> ('f, 'n wirecall_server) sched) option" where
  "worker_run E others i s =
     (if \<not> sv_stopping (s_world s) then do {
        let (h, v) = others (s_heap s) (s_world s);
        w \<leftarrow> worker_get i v;
        let ((k, events), n) = bk_poll (e_backend E) (wk_backend w) WIRECALL_EVENT_BATCH (sv_net v);
        let s = s\<lparr>s_heap := h, s_world := v\<lparr>sv_net := n\<rparr>\<rparr>;
        if k < 0 then Some (-1, s)
        else do {
          s \<leftarrow> handle_events E i events s;
          s \<leftarrow> worker_finish_round E i s;
          worker_run E others i s } }
      else Some (0, s))"

section \<open>Setting up workers\<close>

record ('f, 'n) system =
  sy_heap :: heap
  sy_server :: "'n wirecall_server"
  sy_scheds :: "nat \<Rightarrow> ('f, 'n wirecall_server) sched"

text \<open>A function of worker \<open>i\<close>, which has its scheduler and coroutines besides what all share.\<close>

definition on_worker ::
  "nat \<Rightarrow> (('f, 'n wirecall_server) sched \<Rightarrow> ('r \<times> ('f, 'n wirecall_server) sched) option) \<Rightarrow> ('f, 'n) system \<Rightarrow>
     ('r \<times> ('f, 'n) system) option" where
  "on_worker i f y = do {
     (r, s) \<leftarrow> f ((sy_scheds y i)\<lparr>s_heap := sy_heap y, s_world := sy_server y\<rparr>);
     Some (r, y\<lparr>sy_heap := s_heap s, sy_server := s_world s, sy_scheds := (sy_scheds y)(i := s)\<rparr>) }"

definition on_system ::
  "(heap \<Rightarrow> 'n wirecall_server \<Rightarrow> (heap \<times> 'n wirecall_server) option) \<Rightarrow> ('f, 'n) system \<Rightarrow> ('f, 'n) system option" where
  "on_system f y = do { (h, v) \<leftarrow> f (sy_heap y) (sy_server y); Some (y\<lparr>sy_heap := h, sy_server := v\<rparr>) }"

definition net_do :: "('n \<Rightarrow> 'r \<times> 'n) \<Rightarrow> 'n wirecall_server \<Rightarrow> 'r \<times> 'n wirecall_server" where
  "net_do f v = (let (r, n) = f (sv_net v) in (r, v\<lparr>sv_net := n\<rparr>))"

definition cpu_count :: "'n os \<Rightarrow> 'n \<Rightarrow> u32 \<times> 'n" where
  "cpu_count os n = (
     let (k, n) = wirecall_cpu_count os n
     in (if k = 0 then 1 else if k > WIRECALL_MAX_WORKERS then WIRECALL_MAX_WORKERS else k, n))"

definition zero_worker :: wirecall_worker where
  "zero_worker = \<lparr>wk_backend = 0, wk_scheduler = 0, wk_connection_arena = (zero_arena, \<lambda>_. 0), wk_deferred_arena = (zero_arena, \<lambda>_. 0),
     wk_listeners = replicate WIRECALL_MAX_LISTENERS \<lparr>ls_fd = 0, ls_worker = 0\<rparr>, wk_listener_count = 0, wk_connections = 0,
     wk_pending_writes = 0, wk_pending_head = 0, wk_pending_tail = 0, wk_completed_head = 0, wk_completed_tail = 0,
     wk_pending_mutex_ready = False, wk_completed_mutex_ready = False, wk_thread_started = False, wk_index = 0\<rparr>"

text \<open>The page allocator in the state of the world, for \<open>wirecall_fixed_arena_init\<close>, which asks it once.\<close>

definition arena_init :: "('f, 'n) env \<Rightarrow> nat \<Rightarrow> nat \<Rightarrow> 'n \<Rightarrow> (int \<times> wirecall_fixed_arena) \<times> 'n" where
  "arena_init E elem_size capacity n =
     (wirecall_fixed_arena_init (\<lambda>k. fst (e_pages_alloc E k n)) elem_size capacity,
      snd (e_pages_alloc E (sz_mul (wirecall_arena_align (if elem_size < sizeof_ptr then sizeof_ptr else elem_size)) capacity) n))"

text \<open>The end of \<open>worker_init\<close>: the scheduler.\<close>

definition worker_init_scheduler :: "('f, 'n) env \<Rightarrow> nat \<Rightarrow> ('f, 'n) system \<Rightarrow> (int \<times> ('f, 'n) system) option" where
  "worker_init_scheduler E i y = do {
     let n = sv_net (sy_server y);
     (rc, out, h) \<leftarrow> wirecall_scheduler_init (e_g E) (\<lambda>k. fst (e_pages_alloc E k n)) True (sy_heap y);
     let v = (sy_server y)\<lparr>sv_net := snd (e_pages_alloc E (sz_mul (wirecall_arena_align sizeof_call) WIRECALL_CALL_ARENA_CAPACITY) n)\<rparr>;
     case out of
       None \<Rightarrow> Some (-1, y\<lparr>sy_heap := h, sy_server := v\<rparr>)
     | Some (p, sc) \<Rightarrow> do {
         v \<leftarrow> worker_upd i (\<lambda>w. w\<lparr>wk_scheduler := p\<rparr>) v;
         Some (0, y\<lparr>sy_heap := h, sy_server := v, sy_scheds := (sy_scheds y)(i := (sy_scheds y i)\<lparr>s_scheduler := sc\<rparr>)\<rparr>) } }"

definition worker_init :: "('f, 'n) env \<Rightarrow> nat \<Rightarrow> ('f, 'n) system \<Rightarrow> (int \<times> ('f, 'n) system) option" where
  "worker_init E i y = do {
     v \<leftarrow> worker_upd i (\<lambda>_. zero_worker\<lparr>wk_index := word_of_nat i, wk_listeners := replicate WIRECALL_MAX_LISTENERS \<lparr>ls_fd = -1, ls_worker = 0\<rparr>\<rparr>)
           (sy_server y);
     let (rc, v) = net_do (e_mutex_init E) v;
     if rc \<noteq> 0 then Some (-1, y\<lparr>sy_server := v\<rparr>)
     else do {
       v \<leftarrow> worker_upd i (\<lambda>w. w\<lparr>wk_pending_mutex_ready := True\<rparr>) v;
       let (rc, v) = net_do (e_mutex_init E) v;
       if rc \<noteq> 0 then Some (-1, y\<lparr>sy_server := v\<rparr>)
       else do {
         v \<leftarrow> worker_upd i (\<lambda>w. w\<lparr>wk_completed_mutex_ready := True\<rparr>) v;
         let ((rc, backend), v) = net_do (bk_create (e_backend E)) v;
         v \<leftarrow> worker_upd i (\<lambda>w. w\<lparr>wk_backend := backend\<rparr>) v;
         if rc \<noteq> 0 then Some (-1, y\<lparr>sy_server := v\<rparr>)
         else do {
           let ((rc, arena), v) = net_do (arena_init E sizeof_connection WIRECALL_CONNECTION_ARENA_CAPACITY) v;
           v \<leftarrow> worker_upd i (\<lambda>w. w\<lparr>wk_connection_arena := (arena, \<lambda>_. 0)\<rparr>) v;
           if rc \<noteq> 0 then Some (-1, y\<lparr>sy_server := v\<rparr>)
           else do {
             let ((rc, arena), v) = net_do (arena_init E sizeof_deferred WIRECALL_DEFERRED_ARENA_CAPACITY) v;
             v \<leftarrow> worker_upd i (\<lambda>w. w\<lparr>wk_deferred_arena := (arena, \<lambda>_. 0)\<rparr>) v;
             if rc \<noteq> 0 then Some (-1, y\<lparr>sy_server := v\<rparr>)
             else worker_init_scheduler E i (y\<lparr>sy_server := v\<rparr>) } } } } }"

section \<open>Tearing down workers\<close>

partial_function (option) destroy_connections ::
  "('f, 'n) env \<Rightarrow> nat \<Rightarrow> heap \<Rightarrow> 'n wirecall_server \<Rightarrow> (heap \<times> 'n wirecall_server) option" where
  "destroy_connections E conn h v =
     (if conn \<noteq> 0 then do {
        c \<leftarrow> conn_get conn v;
        (h, v) \<leftarrow> connection_destroy E conn h v;
        destroy_connections E (cn_next c) h v }
      else Some (h, v))"

text \<open>The listeners from \<open>k\<close> on, of which \<open>m\<close> are left.\<close>

fun destroy_listeners :: "('f, 'n) env \<Rightarrow> nat \<Rightarrow> nat \<Rightarrow> nat \<Rightarrow> 'n wirecall_server \<Rightarrow> 'n wirecall_server option" where
  "destroy_listeners E i k 0 v = Some v"
| "destroy_listeners E i k (Suc m) v = do {
     w \<leftarrow> worker_get i v;
     if length (wk_listeners w) \<le> k then None
     else do {
       let l = wk_listeners w ! k;
       v \<leftarrow> (if ls_fd l \<ge> 0 then do {
               let (rc, v) = net_do (bk_remove (e_backend E) (wk_backend w) (ls_fd l)) v;
               let (rc, v) = net_do (wirecall_socket_close (e_os E) (ls_fd l)) v;
               worker_upd i (\<lambda>w. w\<lparr>wk_listeners := (wk_listeners w)[k := l\<lparr>ls_fd := -1\<rparr>]\<rparr>) v }
             else Some v);
       destroy_listeners E i (k + 1) m v } }"

partial_function (option) destroy_pending ::
  "('f, 'n) env \<Rightarrow> nat \<Rightarrow> heap \<Rightarrow> 'n wirecall_server \<Rightarrow> (heap \<times> 'n wirecall_server) option" where
  "destroy_pending E pending h v =
     (if pending \<noteq> 0 then do {
        q \<leftarrow> fd_get pending h v;
        let (rc, v) = net_do (wirecall_socket_close (e_os E) (pn_fd q)) v;
        h \<leftarrow> wirecall_mem_free (e_g E) pending h;
        destroy_pending E (pn_next q) h v }
      else Some (h, v))"

partial_function (option) destroy_completed ::
  "('f, 'n) env \<Rightarrow> nat \<Rightarrow> heap \<Rightarrow> 'n wirecall_server \<Rightarrow> (heap \<times> 'n wirecall_server) option" where
  "destroy_completed E call h v =
     (if call \<noteq> 0 then do {
        d \<leftarrow> def_get call v;
        v \<leftarrow> (if df_conn d = 0 then Some v
              else conn_upd (df_conn d)
                (\<lambda>c. if cn_pending_deferred c > 0 then c\<lparr>cn_pending_deferred := cn_pending_deferred c - 1\<rparr> else c) v);
        (h, v) \<leftarrow> deferred_free E call h v;
        destroy_completed E (df_next_done d) h v }
      else Some (h, v))"

text \<open>\<open>worker_destroy\<close> up to the scheduler; it is called only with workers that exist.\<close>

definition worker_destroy_queues :: "('f, 'n) env \<Rightarrow> nat \<Rightarrow> heap \<Rightarrow> 'n wirecall_server \<Rightarrow> (heap \<times> 'n wirecall_server) option" where
  "worker_destroy_queues E i h v = do {
     w \<leftarrow> worker_get i v;
     (h, v) \<leftarrow> destroy_connections E (wk_connections w) h v;
     v \<leftarrow> destroy_listeners E i 0 (wk_listener_count w) v;
     (h, v) \<leftarrow> (if wk_pending_mutex_ready w then do {
          w \<leftarrow> worker_get i v;
          v \<leftarrow> worker_upd i (\<lambda>w. w\<lparr>wk_pending_head := 0, wk_pending_tail := 0\<rparr>) v;
          destroy_pending E (wk_pending_head w) h v }
        else Some (h, v));
     if wk_completed_mutex_ready w then do {
       w \<leftarrow> worker_get i v;
       v \<leftarrow> worker_upd i (\<lambda>w. w\<lparr>wk_completed_head := 0, wk_completed_tail := 0\<rparr>) v;
       destroy_completed E (wk_completed_head w) h v }
     else Some (h, v) }"

text \<open>When the arenas are gone, so are the connections and calls of the worker in them.\<close>

definition arenas_unmap :: "nat \<Rightarrow> 'n wirecall_server \<Rightarrow> 'n wirecall_server" where
  "arenas_unmap i v = v\<lparr>
     sv_conns := (\<lambda>p. case sv_conns v p of None \<Rightarrow> None | Some c \<Rightarrow> if cn_worker c = i then None else Some c),
     sv_defs := (\<lambda>p. case sv_defs v p of None \<Rightarrow> None | Some d \<Rightarrow> if df_worker d = i then None else Some d)\<rparr>"

definition worker_destroy :: "('f, 'n) env \<Rightarrow> nat \<Rightarrow> ('f, 'n) system \<Rightarrow> ('f, 'n) system option" where
  "worker_destroy E i y = do {
     y \<leftarrow> on_system (worker_destroy_queues E i) y;
     w \<leftarrow> worker_get i (sy_server y);
     (region, y) \<leftarrow> on_worker i (\<lambda>s. do { (s, region) \<leftarrow> wirecall_scheduler_destroy (e_g E) (wk_scheduler w) s; Some (region, s) }) y;
     let v = sy_server y;
     let n = e_pages_free E region (sv_net v);
     let n = e_pages_free E (snd (wirecall_fixed_arena_destroy (fst (wk_deferred_arena w)))) n;
     let n = e_pages_free E (snd (wirecall_fixed_arena_destroy (fst (wk_connection_arena w)))) n;
     let n = bk_destroy (e_backend E) (wk_backend w) n;
     v \<leftarrow> worker_upd i (\<lambda>_. zero_worker) (arenas_unmap i (v\<lparr>sv_net := n\<rparr>));
     Some (y\<lparr>sy_server := v\<rparr>) }"

text \<open>\<open>worker_destroy\<close> for the workers from \<open>j\<close> on, of which \<open>m\<close> are left.\<close>

fun destroy_workers :: "('f, 'n) env \<Rightarrow> nat \<Rightarrow> nat \<Rightarrow> ('f, 'n) system \<Rightarrow> ('f, 'n) system option" where
  "destroy_workers E j 0 y = Some y"
| "destroy_workers E j (Suc m) y = do { y \<leftarrow> worker_destroy E j y; destroy_workers E (j + 1) m y }"

fun init_workers :: "('f, 'n) env \<Rightarrow> nat \<Rightarrow> nat \<Rightarrow> ('f, 'n) system \<Rightarrow> (int \<times> ('f, 'n) system) option" where
  "init_workers E i 0 y = Some (0, y)"
| "init_workers E i (Suc m) y = do {
     (rc, y) \<leftarrow> worker_init E i y;
     if rc \<noteq> 0 then do {
       y \<leftarrow> destroy_workers E 0 (i + 1) y;
       h \<leftarrow> wirecall_mem_free (e_g E) (sv_workers (sy_server y)) (sy_heap y);
       Some (-1, y\<lparr>sy_heap := h, sy_server := (sy_server y)\<lparr>sv_workers := 0, sv_worker := (\<lambda>_. None)\<rparr>\<rparr>) }
     else init_workers E (i + 1) m y }"

definition server_ensure_workers :: "('f, 'n) env \<Rightarrow> ('f, 'n) system \<Rightarrow> (int \<times> ('f, 'n) system) option" where
  "server_ensure_workers E y =
     (if sv_workers_ready (sy_server y) then Some (0, y)
      else do {
        let v = (if sv_worker_count (sy_server y) = 0
                 then (let (k, v) = net_do (cpu_count (e_os E)) (sy_server y) in v\<lparr>sv_worker_count := k\<rparr>)
                 else sy_server y);
        (workers, h) \<leftarrow> wirecall_mem_calloc (e_g E) (unat (sv_worker_count v)) sizeof_worker (sy_heap y);
        let v = v\<lparr>sv_workers := workers\<rparr>;
        if workers = 0 then Some (-1, y\<lparr>sy_heap := h, sy_server := v\<rparr>)
        else do {
          let v = v\<lparr>sv_worker := (\<lambda>i. if i < unat (sv_worker_count v) then Some zero_worker else None)\<rparr>;
          (rc, y) \<leftarrow> init_workers E 0 (unat (sv_worker_count v)) (y\<lparr>sy_heap := h, sy_server := v\<rparr>);
          Some (rc, if rc \<noteq> 0 then y else y\<lparr>sy_server := (sy_server y)\<lparr>sv_workers_ready := True\<rparr>\<rparr>) } })"

end
