(* ===== verification/Server_Api.thy ===== *)
theory Server_Api
  imports Server_Worker
begin

text \<open>
  The functions that \<^verbatim>\<open>include/wirecall/server.h\<close> declares, apart from those for deferred calls.  The server is at
  an address, where \<open>0\<close> is \<open>NULL\<close>; its contents are in the \<open>system\<close>.
\<close>

section \<open>Configuration\<close>

definition sizeof_server :: nat where "sizeof_server = 136"

definition zero_server :: "'n \<Rightarrow> route_state \<Rightarrow> 'n wirecall_server" where
  "zero_server n routes = \<lparr>sv_routes = routes, sv_workers = 0, sv_worker = (\<lambda>_. None), sv_worker_count = 0, sv_workers_ready = False,
     sv_next_worker = 0, sv_stopping = False, sv_listening = False, sv_routes_ready = False, sv_port = 0, sv_integrity = 0,
     sv_mac_key = replicate 16 0, sv_conns = (\<lambda>_. None), sv_defs = (\<lambda>_. None), sv_fds = (\<lambda>_. \<lparr>pn_fd = 0, pn_next = 0\<rparr>), sv_net = n\<rparr>"

definition wirecall_server_set_workers :: "nat \<Rightarrow> u32 \<Rightarrow> ('f, 'n) system \<Rightarrow> int \<times> ('f, 'n) system" where
  "wirecall_server_set_workers server worker_count y =
     (if server = 0 \<or> sv_workers_ready (sy_server y) \<or> sv_listening (sy_server y) \<or> worker_count = 0 \<or> worker_count > WIRECALL_MAX_WORKERS
      then (-1, y)
      else (0, y\<lparr>sy_server := (sy_server y)\<lparr>sv_worker_count := worker_count\<rparr>\<rparr>))"

definition wirecall_server_set_integrity ::
  "nat \<Rightarrow> u32 \<Rightarrow> u8 list option \<Rightarrow> ('f, 'n) system \<Rightarrow> (int \<times> ('f, 'n) system) option" where
  "wirecall_server_set_integrity server integrity mac_key y =
     (if server = 0 \<or> sv_workers_ready (sy_server y) \<or> sv_listening (sy_server y) \<or>
         integrity AND NOT (WIRECALL_INTEGRITY_CHECKSUM OR WIRECALL_INTEGRITY_MAC) \<noteq> 0 \<or>
         integrity AND WIRECALL_INTEGRITY_MAC \<noteq> 0 \<and> mac_key = None
      then Some (-1, y)
      else do {
        let v = (sy_server y)\<lparr>sv_integrity := integrity\<rparr>;
        case mac_key of
          None \<Rightarrow> Some (0, y\<lparr>sy_server := v\<rparr>)
        | Some key \<Rightarrow> if length key < 16 then None else Some (0, y\<lparr>sy_server := v\<lparr>sv_mac_key := take 16 key\<rparr>\<rparr>) })"

definition wirecall_server_port :: "nat \<Rightarrow> ('f, 'n) system \<Rightarrow> u16" where
  "wirecall_server_port server y = (if server \<noteq> 0 then sv_port (sy_server y) else 0)"

section \<open>Stopping and destroying\<close>

text \<open>The workers from \<open>i\<close> on, of which \<open>m\<close> are left, are woken up.\<close>

fun stop_loop :: "('f, 'n) env \<Rightarrow> nat \<Rightarrow> nat \<Rightarrow> 'n wirecall_server \<Rightarrow> 'n wirecall_server option" where
  "stop_loop E i 0 v = Some v"
| "stop_loop E i (Suc m) v = do {
     v \<leftarrow> (if sv_workers v \<noteq> 0 then do {
             w \<leftarrow> worker_get i v;
             Some (if wk_backend w \<noteq> 0 then snd (net_do (bk_wake (e_backend E) (wk_backend w)) v) else v) }
           else Some v);
     stop_loop E (i + 1) m v }"

definition wirecall_server_stop :: "('f, 'n) env \<Rightarrow> nat \<Rightarrow> ('f, 'n) system \<Rightarrow> ('f, 'n) system option" where
  "wirecall_server_stop E server y =
     (if server = 0 then Some y
      else do {
        v \<leftarrow> stop_loop E 0 (unat (sv_worker_count (sy_server y))) ((sy_server y)\<lparr>sv_stopping := True\<rparr>);
        Some (y\<lparr>sy_server := v\<rparr>) })"

text \<open>
  \<open>joined\<close> is what the thread of a worker still does before it is joined.
\<close>

type_synonym ('f, 'n) thread = "nat \<Rightarrow> ('f, 'n) system \<Rightarrow> ('f, 'n) system option"

definition thread_join :: "('f, 'n) thread \<Rightarrow> nat \<Rightarrow> ('f, 'n) system \<Rightarrow> ('f, 'n) system option" where
  "thread_join joined i y = do {
     y \<leftarrow> joined i y;
     v \<leftarrow> worker_upd i (\<lambda>w. w\<lparr>wk_thread_started := False\<rparr>) (sy_server y);
     Some (y\<lparr>sy_server := v\<rparr>) }"

fun join_and_destroy :: "('f, 'n) env \<Rightarrow> ('f, 'n) thread \<Rightarrow> nat \<Rightarrow> nat \<Rightarrow> ('f, 'n) system \<Rightarrow> ('f, 'n) system option" where
  "join_and_destroy E joined i 0 y = Some y"
| "join_and_destroy E joined i (Suc m) y = do {
     w \<leftarrow> worker_get i (sy_server y);
     y \<leftarrow> (if wk_thread_started w then thread_join joined i y else Some y);
     y \<leftarrow> worker_destroy E i y;
     join_and_destroy E joined (i + 1) m y }"

definition wirecall_server_destroy :: "('f, 'n) env \<Rightarrow> ('f, 'n) thread \<Rightarrow> nat \<Rightarrow> ('f, 'n) system \<Rightarrow> ('f, 'n) system option" where
  "wirecall_server_destroy E joined server y =
     (if server = 0 then Some y
      else do {
        y \<leftarrow> (if sv_workers (sy_server y) \<noteq> 0 then do {
            y \<leftarrow> wirecall_server_stop E server y;
            y \<leftarrow> join_and_destroy E joined 0 (unat (sv_worker_count (sy_server y))) y;
            h \<leftarrow> wirecall_mem_free (e_g E) (sv_workers (sy_server y)) (sy_heap y);
            Some (y\<lparr>sy_heap := h, sy_server := (sy_server y)\<lparr>sv_worker := (\<lambda>_. None)\<rparr>\<rparr>) }
          else Some y);
        y \<leftarrow> (if sv_routes_ready (sy_server y) then do {
            r \<leftarrow> wirecall_routes_destroy (e_g E) ROUTES ((sv_routes (sy_server y))\<lparr>r_heap := sy_heap y\<rparr>);
            Some (y\<lparr>sy_heap := r_heap r, sy_server := (sy_server y)\<lparr>sv_routes := r\<rparr>\<rparr>) }
          else Some y);
        h \<leftarrow> wirecall_mem_free (e_g E) server (sy_heap y);
        Some (y\<lparr>sy_heap := h\<rparr>) })"

section \<open>Creating\<close>

text \<open>
  \<open>map_ok\<close> and \<open>mutex_ok\<close> say whether the root table of the routes can be mapped and its mutex made.  The second component of
  the result is what is stored at \<open>out_server\<close>.
\<close>

definition wirecall_server_init ::
  "('f, 'n) env \<Rightarrow> ('f, 'n) thread \<Rightarrow> bool \<Rightarrow> bool \<Rightarrow> bool \<Rightarrow> ('f, 'n) system \<Rightarrow> (int \<times> nat \<times> ('f, 'n) system) option" where
  "wirecall_server_init E joined map_ok mutex_ok out_server y =
     (if \<not> out_server then Some (-1, 0, y)
      else do {
        (server, h) \<leftarrow> wirecall_mem_calloc (e_g E) 1 sizeof_server (sy_heap y);
        if server = 0 then Some (-1, 0, y\<lparr>sy_heap := h\<rparr>)
        else do {
          let v = zero_server (sv_net (sy_server y)) (sv_routes (sy_server y));
          let (k, v) = net_do (cpu_count (e_os E)) v;
          let v = v\<lparr>sv_stopping := False, sv_next_worker := 0, sv_integrity := WIRECALL_INTEGRITY_DEFAULT, sv_worker_count := k\<rparr>;
          let (rc, r) = wirecall_routes_init map_ok mutex_ok ROUTES ((sv_routes v)\<lparr>r_heap := h\<rparr>);
          let y = y\<lparr>sy_heap := r_heap r, sy_server := v\<lparr>sv_routes := r\<rparr>\<rparr>;
          if rc \<noteq> 0 then do { y \<leftarrow> wirecall_server_destroy E joined server y; Some (-1, 0, y) }
          else Some (0, server, y\<lparr>sy_server := (sy_server y)\<lparr>sv_routes_ready := True\<rparr>\<rparr>) } })"

section \<open>Binding and listening\<close>

definition sockaddr_set_port :: "sockaddr \<Rightarrow> u16 \<Rightarrow> sockaddr" where
  "sockaddr_set_port addr port =
     (case addr of Sockaddr_in _ a \<Rightarrow> Sockaddr_in port a | Sockaddr_in6 _ a \<Rightarrow> Sockaddr_in6 port a | _ \<Rightarrow> addr)"

definition sockaddr_get_port :: "sockaddr \<Rightarrow> u16" where
  "sockaddr_get_port addr = (case addr of Sockaddr_in p _ \<Rightarrow> p | Sockaddr_in6 p _ \<Rightarrow> p | _ \<Rightarrow> 0)"

text \<open>One address: the descriptor of the bound socket, or nothing, and the port of the server.\<close>

definition bind_address :: "'n os \<Rightarrow> sockaddr \<Rightarrow> u16 \<Rightarrow> 'n \<Rightarrow> (int option \<times> u16) \<times> 'n" where
  "bind_address os ai port n = (
     let (fd, n) = wirecall_socket_create os ai n
     in if fd < 0 then ((None, port), n)
        else let (_, n) = wirecall_socket_setsockopt os fd n;
                 addr = (if port \<noteq> 0 then sockaddr_set_port ai port else ai);
                 (rc, n) = wirecall_socket_set_nonblock os fd n;
                 (rc, n) = (if rc \<noteq> 0 then (rc, n) else wirecall_socket_bind os fd addr n)
             in if rc \<noteq> 0 then ((None, port), snd (wirecall_socket_close os fd n))
                else if port = 0
                then let (bound, n) = wirecall_socket_getsockname os fd n
                     in ((Some fd, case bound of Some a \<Rightarrow> sockaddr_get_port a | None \<Rightarrow> port), n)
                else ((Some fd, port), n))"

fun bind_loop :: "('f, 'n) env \<Rightarrow> sockaddr list \<Rightarrow> int \<Rightarrow> 'n wirecall_server \<Rightarrow> (int \<times> 'n wirecall_server) option" where
  "bind_loop E [] ok v = Some (ok, v)"
| "bind_loop E (ai # ais) ok v = do {
     w \<leftarrow> worker_get 0 v;
     if wk_listener_count w \<ge> WIRECALL_MAX_LISTENERS then Some (ok, v)
     else let ((fd, port), v) = net_do (bind_address (e_os E) ai (sv_port v)) v
          in case fd of
               None \<Rightarrow> bind_loop E ais ok v
             | Some fd \<Rightarrow> do {
                 v \<leftarrow> worker_upd 0 (\<lambda>w. w\<lparr>wk_listeners := (wk_listeners w)[wk_listener_count w := \<lparr>ls_fd = fd, ls_worker = 0\<rparr>],
                        wk_listener_count := wk_listener_count w + 1\<rparr>) (v\<lparr>sv_port := port\<rparr>);
                 bind_loop E ais 0 v } }"

definition wirecall_server_bind ::
  "('f, 'n) env \<Rightarrow> nat \<Rightarrow> u8 list option \<Rightarrow> u8 list option \<Rightarrow> ('f, 'n) system \<Rightarrow> (int \<times> ('f, 'n) system) option" where
  "wirecall_server_bind E server host port y =
     (case port of
        None \<Rightarrow> Some (-1, y)
      | Some port \<Rightarrow>
          if server = 0 then Some (-1, y)
          else do {
            (rc, y) \<leftarrow> server_ensure_workers E y;
            if rc \<noteq> 0 then Some (-1, y)
            else do {
              let ((rc, res), v) = net_do (os_getaddrinfo (e_os E) host port True) (sy_server y);
              if rc \<noteq> 0 then Some (-1, y\<lparr>sy_server := v\<rparr>)
              else do { (ok, v) \<leftarrow> bind_loop E res (-1) v; Some (ok, y\<lparr>sy_server := v\<rparr>) } } })"

text \<open>The listeners of worker \<open>i\<close> from \<open>k\<close> on, of which \<open>m\<close> are left, and the workers from \<open>i\<close> on, likewise.\<close>

fun listen_listeners :: "('f, 'n) env \<Rightarrow> nat \<Rightarrow> nat \<Rightarrow> nat \<Rightarrow> 'n wirecall_server \<Rightarrow> (int \<times> 'n wirecall_server) option" where
  "listen_listeners E i k 0 v = Some (0, v)"
| "listen_listeners E i k (Suc m) v = do {
     w \<leftarrow> worker_get i v;
     if length (wk_listeners w) \<le> k then None
     else do {
       let fd = ls_fd (wk_listeners w ! k);
       let (rc, v) = net_do (wirecall_socket_listen (e_os E) fd) v;
       if rc \<noteq> 0 then Some (-1, v)
       else do {
         let user = listener_addr (sv_workers v) i k + 1;
         let (rc, v) = net_do (bk_register (e_backend E) (wk_backend w) fd WIRECALL_BACKEND_READ user) v;
         if rc \<noteq> 0 then Some (-1, v) else listen_listeners E i (k + 1) m v } } }"

fun listen_workers :: "('f, 'n) env \<Rightarrow> nat \<Rightarrow> nat \<Rightarrow> 'n wirecall_server \<Rightarrow> (int \<times> 'n wirecall_server) option" where
  "listen_workers E i 0 v = Some (0, v)"
| "listen_workers E i (Suc m) v = do {
     w \<leftarrow> worker_get i v;
     (rc, v) \<leftarrow> listen_listeners E i 0 (wk_listener_count w) v;
     if rc \<noteq> 0 then Some (-1, v) else listen_workers E (i + 1) m v }"

definition wirecall_server_listen :: "('f, 'n) env \<Rightarrow> nat \<Rightarrow> ('f, 'n) system \<Rightarrow> (int \<times> ('f, 'n) system) option" where
  "wirecall_server_listen E server y =
     (if server = 0 then Some (-1, y)
      else do {
        (rc, v) \<leftarrow> listen_workers E 0 (unat (sv_worker_count (sy_server y))) (sy_server y);
        Some (rc, y\<lparr>sy_server := if rc \<noteq> 0 then v else v\<lparr>sv_listening := True\<rparr>\<rparr>) })"

section \<open>Running\<close>

text \<open>
  \<open>wirecall_thread_create\<close> is the argument \<open>create\<close>.  Threads are started from worker \<open>i\<close> on, with \<open>m\<close> left; those that run when one cannot be
  started are joined, and otherwise all of them.
\<close>

fun join_threads :: "('f, 'n) thread \<Rightarrow> nat \<Rightarrow> nat \<Rightarrow> ('f, 'n) system \<Rightarrow> ('f, 'n) system option" where
  "join_threads joined i 0 y = Some y"
| "join_threads joined i (Suc m) y = do { y \<leftarrow> thread_join joined i y; join_threads joined (i + 1) m y }"

fun start_threads ::
  "('f, 'n) env \<Rightarrow> (nat \<Rightarrow> 'n \<Rightarrow> int \<times> 'n) \<Rightarrow> ('f, 'n) thread \<Rightarrow> nat \<Rightarrow> nat \<Rightarrow> nat \<Rightarrow> ('f, 'n) system \<Rightarrow> (int \<times> ('f, 'n) system) option" where
  "start_threads E create joined server i 0 y = Some (0, y)"
| "start_threads E create joined server i (Suc m) y = do {
     let (rc, v) = net_do (create i) (sy_server y);
     let y = y\<lparr>sy_server := v\<rparr>;
     if rc \<noteq> 0 then do {
       y \<leftarrow> wirecall_server_stop E server y;
       y \<leftarrow> join_threads joined 0 i y;
       Some (-1, y) }
     else do {
       v \<leftarrow> worker_upd i (\<lambda>w. w\<lparr>wk_thread_started := True\<rparr>) (sy_server y);
       start_threads E create joined server (i + 1) m (y\<lparr>sy_server := v\<rparr>) } }"

definition wirecall_server_run ::
  "('f, 'n) env \<Rightarrow> (heap \<Rightarrow> 'n wirecall_server \<Rightarrow> heap \<times> 'n wirecall_server) \<Rightarrow> (nat \<Rightarrow> 'n \<Rightarrow> int \<times> 'n) \<Rightarrow> ('f, 'n) thread \<Rightarrow> nat \<Rightarrow>
     ('f, 'n) system \<Rightarrow> (int \<times> ('f, 'n) system) option" where
  "wirecall_server_run E others create joined server y =
     (if server = 0 \<or> \<not> sv_listening (sy_server y) then Some (-1, y)
      else if sv_worker_count (sy_server y) = 1 then on_worker 0 (worker_run E others 0) y
      else do {
        let count = unat (sv_worker_count (sy_server y));
        (rc, y) \<leftarrow> start_threads E create joined server 0 count y;
        if rc \<noteq> 0 then Some (-1, y)
        else do { y \<leftarrow> join_threads joined 0 count y; Some (0, y) } })"

section \<open>Routes\<close>

text \<open>\<open>page_ok\<close> says whether a page of the table can be mapped.\<close>

definition on_routes ::
  "(route_state \<Rightarrow> (int \<times> route_state) option) \<Rightarrow> ('f, 'n) system \<Rightarrow> (int \<times> ('f, 'n) system) option" where
  "on_routes f y = do {
     (rc, r) \<leftarrow> f ((sv_routes (sy_server y))\<lparr>r_heap := sy_heap y\<rparr>);
     Some (rc, y\<lparr>sy_heap := r_heap r, sy_server := (sy_server y)\<lparr>sv_routes := r\<rparr>\<rparr>) }"

definition server_add_route_id ::
  "('f, 'n) env \<Rightarrow> bool \<Rightarrow> nat \<Rightarrow> u64 \<Rightarrow> nat \<Rightarrow> nat \<Rightarrow> nat \<Rightarrow> ('f, 'n) system \<Rightarrow> (int \<times> ('f, 'n) system) option" where
  "server_add_route_id E page_ok server proc_id handler user_data finalizer y =
     (if server \<noteq> 0 then on_routes (wirecall_routes_add_ex (e_g E) page_ok ROUTES proc_id handler user_data finalizer False) y else Some (-1, y))"

definition wirecall_server_add_route_name_ex ::
  "('f, 'n) env \<Rightarrow> bool \<Rightarrow> nat \<Rightarrow> u8 list option \<Rightarrow> nat \<Rightarrow> nat \<Rightarrow> nat \<Rightarrow> ('f, 'n) system \<Rightarrow> (int \<times> ('f, 'n) system) option" where
  "wirecall_server_add_route_name_ex E page_ok server proc_name handler user_data finalizer y =
     do { proc_id \<leftarrow> wirecall_proc_id proc_name; server_add_route_id E page_ok server proc_id handler user_data finalizer y }"

definition wirecall_server_add_route_name ::
  "('f, 'n) env \<Rightarrow> bool \<Rightarrow> nat \<Rightarrow> u8 list option \<Rightarrow> nat \<Rightarrow> nat \<Rightarrow> ('f, 'n) system \<Rightarrow> (int \<times> ('f, 'n) system) option" where
  "wirecall_server_add_route_name E page_ok server proc_name handler user_data y =
     wirecall_server_add_route_name_ex E page_ok server proc_name handler user_data 0 y"

definition server_add_async_route_id ::
  "('f, 'n) env \<Rightarrow> bool \<Rightarrow> nat \<Rightarrow> u64 \<Rightarrow> nat \<Rightarrow> nat \<Rightarrow> nat \<Rightarrow> ('f, 'n) system \<Rightarrow> (int \<times> ('f, 'n) system) option" where
  "server_add_async_route_id E page_ok server proc_id handler user_data finalizer y =
     (if server \<noteq> 0 then on_routes (wirecall_routes_add_ex (e_g E) page_ok ROUTES proc_id handler user_data finalizer True) y else Some (-1, y))"

definition wirecall_server_add_async_route_name_ex ::
  "('f, 'n) env \<Rightarrow> bool \<Rightarrow> nat \<Rightarrow> u8 list option \<Rightarrow> nat \<Rightarrow> nat \<Rightarrow> nat \<Rightarrow> ('f, 'n) system \<Rightarrow> (int \<times> ('f, 'n) system) option" where
  "wirecall_server_add_async_route_name_ex E page_ok server proc_name handler user_data finalizer y =
     do { proc_id \<leftarrow> wirecall_proc_id proc_name; server_add_async_route_id E page_ok server proc_id handler user_data finalizer y }"

definition wirecall_server_add_async_route_name ::
  "('f, 'n) env \<Rightarrow> bool \<Rightarrow> nat \<Rightarrow> u8 list option \<Rightarrow> nat \<Rightarrow> nat \<Rightarrow> ('f, 'n) system \<Rightarrow> (int \<times> ('f, 'n) system) option" where
  "wirecall_server_add_async_route_name E page_ok server proc_name handler user_data y =
     wirecall_server_add_async_route_name_ex E page_ok server proc_name handler user_data 0 y"

definition server_add_deferred_route_id ::
  "('f, 'n) env \<Rightarrow> bool \<Rightarrow> nat \<Rightarrow> u64 \<Rightarrow> nat \<Rightarrow> nat \<Rightarrow> nat \<Rightarrow> ('f, 'n) system \<Rightarrow> (int \<times> ('f, 'n) system) option" where
  "server_add_deferred_route_id E page_ok server proc_id handler user_data finalizer y =
     (if server \<noteq> 0 then on_routes (wirecall_routes_add_deferred_ex (e_g E) page_ok ROUTES proc_id handler user_data finalizer) y else Some (-1, y))"

definition wirecall_server_add_deferred_route_name_ex ::
  "('f, 'n) env \<Rightarrow> bool \<Rightarrow> nat \<Rightarrow> u8 list option \<Rightarrow> nat \<Rightarrow> nat \<Rightarrow> nat \<Rightarrow> ('f, 'n) system \<Rightarrow> (int \<times> ('f, 'n) system) option" where
  "wirecall_server_add_deferred_route_name_ex E page_ok server proc_name handler user_data finalizer y =
     do { proc_id \<leftarrow> wirecall_proc_id proc_name; server_add_deferred_route_id E page_ok server proc_id handler user_data finalizer y }"

definition wirecall_server_add_deferred_route_name ::
  "('f, 'n) env \<Rightarrow> bool \<Rightarrow> nat \<Rightarrow> u8 list option \<Rightarrow> nat \<Rightarrow> nat \<Rightarrow> ('f, 'n) system \<Rightarrow> (int \<times> ('f, 'n) system) option" where
  "wirecall_server_add_deferred_route_name E page_ok server proc_name handler user_data y =
     wirecall_server_add_deferred_route_name_ex E page_ok server proc_name handler user_data 0 y"

definition server_remove_route_id :: "('f, 'n) env \<Rightarrow> nat \<Rightarrow> u64 \<Rightarrow> ('f, 'n) system \<Rightarrow> (int \<times> ('f, 'n) system) option" where
  "server_remove_route_id E server proc_id y =
     (if server \<noteq> 0 then on_routes (wirecall_routes_remove (e_g E) ROUTES proc_id) y else Some (-1, y))"

definition wirecall_server_remove_route_name ::
  "('f, 'n) env \<Rightarrow> nat \<Rightarrow> u8 list option \<Rightarrow> ('f, 'n) system \<Rightarrow> (int \<times> ('f, 'n) system) option" where
  "wirecall_server_remove_route_name E server proc_name y =
     do { proc_id \<leftarrow> wirecall_proc_id proc_name; server_remove_route_id E server proc_id y }"

end
