(* ===== verification/Framing.thy ===== *)
theory Framing
  imports Packet
begin

text \<open>
  Packets in a stream of bytes: the specification that the client and the server, which cut
  packets from their read buffers, are compared with.
\<close>

datatype cut =
    Short
  | Bad_header
  | Bad_signature
  | Packet wirecall_header "u8 list" "u8 list"

text \<open>The first packet of \<open>bs\<close>, with its payload and the bytes behind it.\<close>

definition cut_packet :: "bool \<Rightarrow> u32 \<Rightarrow> u8 list \<Rightarrow> u8 list \<Rightarrow> cut" where
  "cut_packet be integrity key bs =
     (if length bs < WIRECALL_HEADER_SIZE then Short
      else case wirecall_header_decode (Some bs) (Some zero_header) of
        Some (rc, Some header) \<Rightarrow>
          if rc \<noteq> 0 then Bad_header
          else let size = unat (h_size header) in
            if length bs < WIRECALL_HEADER_SIZE + size then Short
            else if wirecall_packet_verify_ex be (Some header) (Some (take size (drop WIRECALL_HEADER_SIZE bs))) size integrity (Some key) = Some 0
            then Packet header (take size (drop WIRECALL_HEADER_SIZE bs)) (drop (WIRECALL_HEADER_SIZE + size) bs)
            else Bad_signature
      | _ \<Rightarrow> Bad_header)"

fun cut_append :: "cut \<Rightarrow> u8 list \<Rightarrow> cut" where
  "cut_append (Packet header payload rest) xs = Packet header payload (rest @ xs)"
| "cut_append r xs = r"

lemma header_decode_ok:
  assumes "header_valid h" "h_op h = ucast (bs ! 0)" "header_bytes h = take WIRECALL_HEADER_SIZE bs"
  shows "wirecall_header_decode (Some bs) (Some out) = Some (0, Some h)"
proof -
  have "bs = header_bytes h @ drop WIRECALL_HEADER_SIZE bs" using assms(3) by simp
  moreover have "h\<lparr>h_op := ucast (ucast (h_op h) :: u8)\<rparr> = h"
    using assms(2) by simp
  ultimately show ?thesis using header_decode_bytes [OF assms(1), of "drop WIRECALL_HEADER_SIZE bs" out] by simp
qed

text \<open>Decoding looks at the first 34 bytes only.\<close>

lemma header_decode_append:
  assumes len: "WIRECALL_HEADER_SIZE \<le> length bs"
  shows "(\<exists>h. wirecall_header_decode (Some bs) (Some out) = Some (0, Some h) \<and>
            wirecall_header_decode (Some (bs @ xs)) (Some out) = Some (0, Some h) \<and> header_valid h \<and> h_op h = ucast (bs ! 0)) \<or>
         (\<exists>h h'. wirecall_header_decode (Some bs) (Some out) = Some (-1, Some h) \<and>
            wirecall_header_decode (Some (bs @ xs)) (Some out) = Some (-1, Some h'))"
proof -
  have pos: "0 < length bs" using len by (auto simp: WIRECALL_HEADER_SIZE_def)
  have hd: "(bs @ xs) ! 0 = bs ! 0" "take WIRECALL_HEADER_SIZE (bs @ xs) = take WIRECALL_HEADER_SIZE bs"
    using len pos by (auto simp: nth_append)
  from len show ?thesis
  proof (cases rule: header_decode_cases [where out = out])
    case bad_op
    then have "wirecall_header_decode (Some (bs @ xs)) (Some out) = Some (-1, Some out)"
      using hd(1) pos by (simp add: wirecall_header_decode_def rd_def)
    then show ?thesis using bad_op by blast
  next
    case (ok h)
    then have "wirecall_header_decode (Some (bs @ xs)) (Some out) = Some (0, Some h)"
      using hd by (intro header_decode_ok) auto
    then show ?thesis using ok by blast
  next
    case (bad_size h)
    have "WIRECALL_HEADER_SIZE \<le> length (bs @ xs)" using len by simp
    then show ?thesis
    proof (cases rule: header_decode_cases [where out = out])
      case bad_op
      then show ?thesis using bad_size by blast
    next
      case (ok h')
      then have "header_bytes h = header_bytes h'" using bad_size(3) hd(2) by simp
      then have "header_valid h" using ok(1) header_bytes_inject [of h h'] by (simp add: header_valid_def)
      then show ?thesis using bad_size(2) by simp
    next
      case (bad_size h')
      then show ?thesis using \<open>wirecall_header_decode (Some bs) (Some out) = Some (-1, Some h)\<close> by blast
    qed
  qed
qed

lemma header_decode_more:
  assumes "wirecall_header_decode (Some bs) (Some out) = Some (0, Some h)" "WIRECALL_HEADER_SIZE \<le> length bs"
  shows "wirecall_header_decode (Some (bs @ xs)) (Some out) = Some (0, Some h)"
  using header_decode_append [OF assms(2), of out xs] assms(1) by auto

text \<open>Once a packet can be cut, or the stream is seen to be bad, what follows does not change that.\<close>

lemma cut_packet_append:
  assumes "cut_packet be integrity key bs \<noteq> Short"
  shows "cut_packet be integrity key (bs @ xs) = cut_append (cut_packet be integrity key bs) xs"
proof -
  have len: "WIRECALL_HEADER_SIZE \<le> length bs" using assms by (auto simp: cut_packet_def split: if_splits)
  show ?thesis
    using header_decode_append [OF len, of zero_header xs]
  proof (elim disjE exE conjE)
    fix h
    assume h: "wirecall_header_decode (Some bs) (Some zero_header) = Some (0, Some h)"
      "wirecall_header_decode (Some (bs @ xs)) (Some zero_header) = Some (0, Some h)"
    then have "WIRECALL_HEADER_SIZE + unat (h_size h) \<le> length bs"
      using assms len by (auto simp: cut_packet_def Let_def split: if_splits)
    then show ?thesis using h len by (simp add: cut_packet_def Let_def)
  qed (use len in \<open>simp add: cut_packet_def\<close>)
qed

text \<open>A packet that has been signed is cut from the front of the stream.\<close>

lemma cut_packet_signed:
  assumes "op_enum (h_op h)" "length p = unat (h_size h)" "length p \<le> WIRECALL_MAX_PAYLOAD_SIZE"
    and "wirecall_packet_verify_ex be (Some h) (Some p) (length p) integrity (Some key) = Some 0"
  shows "cut_packet be integrity key (header_bytes h @ p @ rest) = Packet h p rest"
proof -
  have v: "header_valid h" "h\<lparr>h_op := ucast (ucast (h_op h) :: u8)\<rparr> = h"
    using assms(1-3) op_enum_valid [OF assms(1)] by (simp_all add: header_valid_def)
  then have "wirecall_header_decode (Some (header_bytes h @ p @ rest)) (Some zero_header) = Some (0, Some h)"
    using header_decode_bytes [OF v(1), of "p @ rest" zero_header] by simp
  then show ?thesis using assms(2,4) by (simp add: cut_packet_def Let_def)
qed

lemma cut_packet_PacketD:
  assumes "cut_packet be integrity key bs = Packet h p rest"
  shows "length p = unat (h_size h)" "length p \<le> WIRECALL_MAX_PAYLOAD_SIZE" "length bs = WIRECALL_HEADER_SIZE + length p + length rest"
    "op_enum (h_op h)" "bs = header_bytes h @ p @ rest"
    "wirecall_packet_verify_ex be (Some h) (Some p) (length p) integrity (Some key) = Some 0"
proof -
  have len: "WIRECALL_HEADER_SIZE \<le> length bs" using assms by (auto simp: cut_packet_def split: if_splits)
  obtain k where ok: "header_valid k" "header_bytes k = take WIRECALL_HEADER_SIZE bs" "h_op k = ucast (bs ! 0)"
    "wirecall_header_decode (Some bs) (Some zero_header) = Some (0, Some k)"
    using len
  proof (cases rule: header_decode_cases [where out = zero_header])
    case (ok k)
    then show ?thesis by (rule that)
  qed (use assms len in \<open>auto simp: cut_packet_def split: if_splits\<close>)
  let ?n = "unat (h_size k)"
  have n: "WIRECALL_HEADER_SIZE + ?n \<le> length bs" "h = k" "p = take ?n (drop WIRECALL_HEADER_SIZE bs)"
    "rest = drop (WIRECALL_HEADER_SIZE + ?n) bs"
    "wirecall_packet_verify_ex be (Some k) (Some (take ?n (drop WIRECALL_HEADER_SIZE bs))) ?n integrity (Some key) = Some 0"
    using assms ok len by (auto simp: cut_packet_def Let_def split: if_splits)
  have lp: "length p = ?n" using n(1,3) by simp
  then show "length p = unat (h_size h)" "length p \<le> WIRECALL_MAX_PAYLOAD_SIZE" "length bs = WIRECALL_HEADER_SIZE + length p + length rest"
    using n(1,2,4) ok(1) by (simp_all add: header_valid_def)
  show "op_enum (h_op h)" using ok(1,3) n(2) by (auto simp: op_enum_def header_valid_def valid_op_def op_defs)
  show "bs = header_bytes h @ p @ rest"
    unfolding n(2,3,4) ok(2) by (metis append_take_drop_id drop_drop add.commute)
  show "wirecall_packet_verify_ex be (Some h) (Some p) (length p) integrity (Some key) = Some 0"
    using n(2,5) lp unfolding n(3) [symmetric] by simp
qed

lemma cut_packet_short:
  assumes "wirecall_header_decode (Some (bs @ xs)) (Some zero_header) = Some (0, Some h)"
    and "length bs < WIRECALL_HEADER_SIZE + unat (h_size h)"
  shows "cut_packet be integrity key bs = Short"
proof (cases "length bs < WIRECALL_HEADER_SIZE")
  case False
  then have "wirecall_header_decode (Some bs) (Some zero_header) = Some (0, Some h)"
    using header_decode_append [of bs zero_header xs] assms(1) by auto
  then show ?thesis using assms(2) by (simp add: cut_packet_def Let_def)
qed (simp add: cut_packet_def)

text \<open>A null pointer is as good as one to no bytes.\<close>

lemma packet_verify_null:
  "wirecall_packet_verify_ex be header None 0 integrity key = wirecall_packet_verify_ex be header (Some []) 0 integrity key"
proof -
  have "wirecall_packet_checksum be header None 0 = wirecall_packet_checksum be header (Some []) 0"
    "wirecall_packet_mac be header None 0 key = wirecall_packet_mac be header (Some []) 0 key"
    by (simp_all add: wirecall_packet_checksum_def wirecall_packet_mac_def payload_bytes_def cong: option.case_cong)
  then show ?thesis by (cases header) (simp_all add: wirecall_packet_verify_ex_def cong: if_cong)
qed

text \<open>
  What signing and encoding put on the wire, and that it is cut off again on the other side by
  whoever has the same key.
\<close>

lemma packet_on_wire:
  assumes "op_enum (h_op h)" "sign_ok h data (length p) integrity (Some key)" "payload_bytes data = p"
  shows "\<exists>h1. wirecall_packet_sign_ex be (Some h) data (length p) integrity (Some key) = Some (0, Some h1) \<and>
    h1 = h\<lparr>h_checksum := h_checksum h1, h_mac := h_mac h1\<rparr> \<and>
    wirecall_header_encode (Some h1) (Some (replicate WIRECALL_HEADER_SIZE 0)) = Some (0, Some (header_bytes h1)) \<and>
    (\<forall>rest. cut_packet be integrity key (header_bytes h1 @ p @ rest) = Packet h1 p rest)"
proof -
  obtain c m where s: "wirecall_packet_sign_ex be (Some h) data (length p) integrity (Some key) = Some (0, Some (h\<lparr>h_checksum := c, h_mac := m\<rparr>))"
    "\<And>h'. (ucast (h_op h') :: u8) = ucast (h_op h) \<Longrightarrow> h_flags h' = h_flags h \<Longrightarrow> h_size h' = h_size h \<Longrightarrow>
      h_proc_id h' = h_proc_id h \<Longrightarrow> h_call_id h' = h_call_id h \<Longrightarrow> h_checksum h' = c \<Longrightarrow> h_mac h' = m \<Longrightarrow>
      wirecall_packet_verify_ex be (Some h') data (length p) integrity (Some key) = Some 0"
    using packet_sign_verify_aux [OF assms(2)] by blast
  let ?h = "h\<lparr>h_checksum := c, h_mac := m\<rparr>"
  have size: "length p = unat (h_size ?h)" "length p \<le> WIRECALL_MAX_PAYLOAD_SIZE"
    using assms(2) by (simp_all add: sign_ok_def payload_ok_def)
  have "wirecall_packet_verify_ex be (Some ?h) data (length p) integrity (Some key) = Some 0" using s(2) [of ?h] by simp
  then have "wirecall_packet_verify_ex be (Some ?h) (Some p) (length p) integrity (Some key) = Some 0"
    using assms(3) packet_verify_null by (cases data) (auto simp: payload_bytes_def)
  then have "cut_packet be integrity key (header_bytes ?h @ p @ rest) = Packet ?h p rest" for rest
    using assms(1) size by (intro cut_packet_signed) auto
  moreover have "header_valid ?h" using op_enum_valid [OF assms(1)] size by (simp add: header_valid_def)
  ultimately show ?thesis using s(1) header_encode_valid [of ?h "replicate WIRECALL_HEADER_SIZE 0"] by auto
qed

text \<open>A header that makes a packet with payload \<open>p\<close>, for those who have the same key.\<close>

definition wire_packet :: "bool \<Rightarrow> u32 \<Rightarrow> u8 list \<Rightarrow> wirecall_op \<Rightarrow> u64 \<Rightarrow> u64 \<Rightarrow> u8 list \<Rightarrow> wirecall_header \<Rightarrow> bool" where
  "wire_packet be integrity key op proc_id call_id p header \<longleftrightarrow> h_op header = op \<and> h_flags header = 0 \<and> h_proc_id header = proc_id \<and>
     h_call_id header = call_id \<and> unat (h_size header) = length p \<and>
     (\<forall>rest. cut_packet be integrity key (header_bytes header @ p @ rest) = Packet header p rest)"

lemma packet_made:
  assumes "op_enum op" "length p \<le> WIRECALL_MAX_PAYLOAD_SIZE" "payload_bytes data = p" "length key = 16"
  shows "\<exists>h1. wirecall_packet_sign_ex be (Some (zero_header\<lparr>h_op := op, h_flags := 0, h_proc_id := proc_id,
      h_size := word_of_nat (length p), h_call_id := call_id\<rparr>)) data (length p) integrity (Some key) = Some (0, Some h1) \<and>
    wirecall_header_encode (Some h1) (Some (replicate WIRECALL_HEADER_SIZE 0)) = Some (0, Some (header_bytes h1)) \<and>
    wire_packet be integrity key op proc_id call_id p h1"
proof -
  let ?h = "zero_header\<lparr>h_op := op, h_flags := 0, h_proc_id := proc_id, h_size := word_of_nat (length p), h_call_id := call_id\<rparr>"
  have sz: "unat (word_of_nat (length p) :: u32) = length p"
    using assms(2) by (simp add: unsigned_of_nat take_bit_nat_eq_self WIRECALL_MAX_PAYLOAD_SIZE_def)
  have "sign_ok ?h data (length p) integrity (Some key)"
    using sz assms by (simp add: sign_ok_def payload_ok_def key_ok_def)
  then obtain h1 where h1: "wirecall_packet_sign_ex be (Some ?h) data (length p) integrity (Some key) = Some (0, Some h1)"
    "h1 = ?h\<lparr>h_checksum := h_checksum h1, h_mac := h_mac h1\<rparr>"
    "wirecall_header_encode (Some h1) (Some (replicate WIRECALL_HEADER_SIZE 0)) = Some (0, Some (header_bytes h1))"
    "\<forall>rest. cut_packet be integrity key (header_bytes h1 @ p @ rest) = Packet h1 p rest"
    using packet_on_wire [of ?h data p integrity key be] assms(1,3) by auto
  have "h_op h1 = op" "h_flags h1 = 0" "h_proc_id h1 = proc_id" "h_call_id h1 = call_id" "h_size h1 = word_of_nat (length p)"
    by (subst h1(2), simp)+
  then have "wire_packet be integrity key op proc_id call_id p h1" using h1(4) sz by (simp add: wire_packet_def)
  then show ?thesis using h1(1,3) by blast
qed

section \<open>The packets of a stream\<close>

text \<open>The cases that the code which cuts packets distinguishes.\<close>

lemma cut_packet_cases:
  assumes "length key = 16"
  obtains (few) "length bs < WIRECALL_HEADER_SIZE" "cut_packet be integrity key bs = Short"
  | (bad_header) h where "WIRECALL_HEADER_SIZE \<le> length bs" "wirecall_header_decode (Some bs) (Some zero_header) = Some (-1, Some h)"
      "cut_packet be integrity key bs = Bad_header"
  | (part) h where "WIRECALL_HEADER_SIZE \<le> length bs" "wirecall_header_decode (Some bs) (Some zero_header) = Some (0, Some h)"
      "length bs < WIRECALL_HEADER_SIZE + unat (h_size h)" "cut_packet be integrity key bs = Short"
  | (whole) h rc where "wirecall_header_decode (Some bs) (Some zero_header) = Some (0, Some h)" "WIRECALL_HEADER_SIZE + unat (h_size h) \<le> length bs"
      "wirecall_packet_verify_ex be (Some h) (Some (take (unat (h_size h)) (drop WIRECALL_HEADER_SIZE bs))) (unat (h_size h)) integrity (Some key) = Some rc"
      "cut_packet be integrity key bs = (if rc = 0 then Packet h (take (unat (h_size h)) (drop WIRECALL_HEADER_SIZE bs))
         (drop (WIRECALL_HEADER_SIZE + unat (h_size h)) bs) else Bad_signature)"
proof (cases "length bs < WIRECALL_HEADER_SIZE")
  case True
  then show ?thesis using few by (simp add: cut_packet_def)
next
  case False
  then have len: "WIRECALL_HEADER_SIZE \<le> length bs" by simp
  from header_decode_append [OF len, of zero_header "[]"] show ?thesis
  proof (elim disjE exE conjE)
    fix h h' assume "wirecall_header_decode (Some bs) (Some zero_header) = Some (-1, Some h)"
    then show ?thesis using bad_header [of h] len by (simp add: cut_packet_def)
  next
    fix h assume h: "wirecall_header_decode (Some bs) (Some zero_header) = Some (0, Some h)" "header_valid h"
    let ?n = "unat (h_size h)"
    show ?thesis
    proof (cases "length bs < WIRECALL_HEADER_SIZE + ?n")
      case True
      then show ?thesis using part [of h] h len by (simp add: cut_packet_def)
    next
      case False
      let ?p = "take ?n (drop WIRECALL_HEADER_SIZE bs)"
      have "payload_ok (Some ?p) ?n" using False h(2) by (simp add: payload_ok_def payload_bytes_def header_valid_def)
      then obtain rc where rc: "wirecall_packet_verify_ex be (Some h) (Some ?p) ?n integrity (Some key) = Some rc"
        using packet_verify_Some [of "Some ?p" ?n "Some key" be h integrity] assms by (auto simp: key_ok_def)
      have "cut_packet be integrity key bs = (if rc = 0 then Packet h ?p (drop (WIRECALL_HEADER_SIZE + ?n) bs) else Bad_signature)"
        using h(1) len False rc by (simp add: cut_packet_def Let_def)
      then show ?thesis using whole [OF h(1) _ rc] False by simp
    qed
  qed
qed

text \<open>The packets at the front of \<open>bs\<close>, what is left, and whether that is malformed.\<close>

function packets :: "bool \<Rightarrow> u32 \<Rightarrow> u8 list \<Rightarrow> u8 list \<Rightarrow> (wirecall_header \<times> u8 list) list \<times> u8 list \<times> bool" where
  "packets be integrity key bs =
     (case cut_packet be integrity key bs of
        Packet h p rest \<Rightarrow> (let (ps, r, bad) = packets be integrity key rest in ((h, p) # ps, r, bad))
      | Short \<Rightarrow> ([], bs, False)
      | Bad_header \<Rightarrow> ([], bs, True)
      | Bad_signature \<Rightarrow> ([], bs, True))"
  by pat_completeness auto
termination
  by (relation "measure (\<lambda>(be, integrity, key, bs). length bs)") (auto dest: cut_packet_PacketD(3) simp: WIRECALL_HEADER_SIZE_def)

declare packets.simps [simp del]

lemma packets_cut:
  "cut_packet be integrity key bs = Short \<Longrightarrow> packets be integrity key bs = ([], bs, False)"
  "cut_packet be integrity key bs = Bad_header \<Longrightarrow> packets be integrity key bs = ([], bs, True)"
  "cut_packet be integrity key bs = Bad_signature \<Longrightarrow> packets be integrity key bs = ([], bs, True)"
  by (simp_all add: packets.simps)

lemma packets_Cons:
  assumes "cut_packet be integrity key bs = Packet h p rest" "packets be integrity key rest = (ps, r, bad)"
  shows "packets be integrity key bs = ((h, p) # ps, r, bad)"
  using assms by (simp add: packets.simps [of be integrity key bs])

text \<open>Bytes that arrive later only add packets: the stream can be handled piece by piece.\<close>

lemma packets_append:
  assumes "packets be integrity key bs = (ps, r, False)"
  shows "packets be integrity key (bs @ xs) = (let (qs, r', bad) = packets be integrity key (r @ xs) in (ps @ qs, r', bad))"
  using assms
proof (induction "length bs" arbitrary: bs ps rule: less_induct)
  case less
  show ?case
  proof (cases "cut_packet be integrity key bs")
    case Short
    then show ?thesis using less.prems by (simp add: packets_cut Let_def split: prod.splits)
  next
    case (Packet h p rest)
    obtain ps' r' bad where r: "packets be integrity key rest = (ps', r', bad)" by (cases "packets be integrity key rest") auto
    then have eq: "ps = (h, p) # ps'" "r' = r" "bad = False" using less.prems packets_Cons [OF Packet r] by simp_all
    have "length rest < length bs" using cut_packet_PacketD(3) [OF Packet] by (simp add: WIRECALL_HEADER_SIZE_def)
    then have IH: "packets be integrity key (rest @ xs) = (let (qs, r', bad) = packets be integrity key (r @ xs) in (ps' @ qs, r', bad))"
      using less.hyps [of rest ps'] r eq by simp
    have c: "cut_packet be integrity key (bs @ xs) = Packet h p (rest @ xs)" using cut_packet_append [of be integrity key bs xs] Packet by simp
    obtain qs r2 bad2 where q: "packets be integrity key (r @ xs) = (qs, r2, bad2)" by (cases "packets be integrity key (r @ xs)") auto
    then show ?thesis using packets_Cons [OF c] IH eq(1) by simp
  qed (use less.prems in \<open>simp_all add: packets_cut\<close>)
qed

lemma packets_append_bad:
  assumes "packets be integrity key bs = (ps, r, True)"
  shows "packets be integrity key (bs @ xs) = (ps, r @ xs, True)"
  using assms
proof (induction "length bs" arbitrary: bs ps rule: less_induct)
  case less
  show ?case
  proof (cases "cut_packet be integrity key bs")
    case Short
    then show ?thesis using less.prems by (simp add: packets_cut)
  next
    case (Packet h p rest)
    obtain ps' r' bad where r: "packets be integrity key rest = (ps', r', bad)" by (cases "packets be integrity key rest") auto
    then have eq: "ps = (h, p) # ps'" "r' = r" "bad = True" using less.prems packets_Cons [OF Packet r] by simp_all
    have "length rest < length bs" using cut_packet_PacketD(3) [OF Packet] by (simp add: WIRECALL_HEADER_SIZE_def)
    then have "packets be integrity key (rest @ xs) = (ps', r @ xs, True)" using less.hyps r eq by simp
    moreover have "cut_packet be integrity key (bs @ xs) = Packet h p (rest @ xs)" using cut_packet_append [of be integrity key bs xs] Packet by simp
    ultimately show ?thesis using packets_Cons eq(1) by simp
  qed (use less.prems cut_packet_append [of be integrity key bs xs] in \<open>simp_all add: packets_cut\<close>)
qed

text \<open>The packets of a part of a stream are among the first packets of the stream.\<close>

lemma packets_prefix:
  assumes "packets be integrity key bs = (ps, r, bad)" "packets be integrity key (bs @ xs) = (ps', r', bad')"
  shows "\<exists>qs. ps' = ps @ qs"
  using assms packets_append [of be integrity key bs ps r xs] packets_append_bad [of be integrity key bs ps r xs]
  by (cases bad) (auto split: prod.splits)


lemma packets_rest:
  assumes "packets be integrity key bs = (ps, r, False)"
  shows "packets be integrity key r = ([], r, False)"
  using assms
proof (induction "length bs" arbitrary: bs ps rule: less_induct)
  case less
  show ?case
  proof (cases "cut_packet be integrity key bs")
    case Short
    then show ?thesis using less.prems by (auto simp: packets_cut)
  next
    case (Packet h p rest)
    obtain ps' r' bad where r: "packets be integrity key rest = (ps', r', bad)" by (cases "packets be integrity key rest") auto
    then have "r' = r" "bad = False" using less.prems packets_Cons [OF Packet r] by simp_all
    moreover have "length rest < length bs" using cut_packet_PacketD(3) [OF Packet] by (simp add: WIRECALL_HEADER_SIZE_def)
    ultimately show ?thesis using less.hyps r by blast
  qed (use less.prems in \<open>simp_all add: packets_cut\<close>)
qed


end
