(* ===== verification/Client_Inv.thy ===== *)
theory Client_Inv
  imports Client Framing "HOL-Library.Product_Lexorder"
begin

text \<open>
  Correctness of the client: packets are cut from the byte stream exactly as they were put in,
  however the stream is broken into pieces, nothing that a server sends makes the client
  touch memory it must not touch, and what it allocates is given back.
\<close>

section \<open>What is relied on of the sockets\<close>

text \<open>
  \<open>inbox n\<close> are bytes that the peer has sent and that are not received yet; more may follow.
  While there are any, \<open>recv\<close> delivers some of them or is interrupted, and it is not interrupted
  forever.  With \<open>\<lambda>_. []\<close> for \<open>inbox\<close> this says only that \<open>recv\<close> keeps to the buffer.
\<close>

definition recv_ok :: "'n os \<Rightarrow> int \<Rightarrow> ('n \<Rightarrow> u8 list) \<Rightarrow> ('n \<Rightarrow> nat) \<Rightarrow> bool" where
  "recv_ok os fd inbox patience \<longleftrightarrow>
     (\<forall>n len. 0 < len \<longrightarrow>
        (case os_recv os fd len n of
           (Inr bs, n') \<Rightarrow> length bs \<le> len \<and> (\<exists>extra. inbox n @ extra = bs @ inbox n') \<and> (bs = [] \<longrightarrow> inbox n = [])
         | (Inl e, n') \<Rightarrow> (\<exists>extra. inbox n @ extra = inbox n') \<and>
             (if e = EINTR then patience n' < patience n else inbox n = [])))"

text \<open>\<open>outbox n\<close> is what has been sent.  With \<open>steady\<close>, sending does not fail.\<close>

definition send_ok :: "'n os \<Rightarrow> int \<Rightarrow> ('n \<Rightarrow> u8 list) \<Rightarrow> ('n \<Rightarrow> nat) \<Rightarrow> bool \<Rightarrow> bool" where
  "send_ok os fd outbox patience steady \<longleftrightarrow>
     (\<forall>n iov. concat iov \<noteq> [] \<longrightarrow>
        (case os_sendmsg os fd iov n of
           (Inr k, n') \<Rightarrow> k \<le> length (concat iov) \<and> outbox n' = outbox n @ take k (concat iov) \<and> (steady \<longrightarrow> 0 < k)
         | (Inl e, n') \<Rightarrow> outbox n' = outbox n \<and> (if e = EINTR then patience n' < patience n else \<not> steady)))"

lemma recv_okD:
  assumes "recv_ok os fd inbox patience" "0 < len"
  obtains (got) bs n' extra where "os_recv os fd len n = (Inr bs, n')" "bs \<noteq> []" "length bs \<le> len" "inbox n @ extra = bs @ inbox n'"
  | (eof) n' where "os_recv os fd len n = (Inr [], n')" "inbox n = []"
  | (intr) n' extra where "os_recv os fd len n = (Inl EINTR, n')" "inbox n @ extra = inbox n'" "patience n' < patience n"
  | (fail) e n' where "os_recv os fd len n = (Inl e, n')" "e \<noteq> EINTR" "inbox n = []"
proof -
  obtain r n' where r: "os_recv os fd len n = (r, n')" by force
  have *: "case (r, n') of
           (Inr bs, n') \<Rightarrow> length bs \<le> len \<and> (\<exists>extra. inbox n @ extra = bs @ inbox n') \<and> (bs = [] \<longrightarrow> inbox n = [])
         | (Inl e, n') \<Rightarrow> (\<exists>extra. inbox n @ extra = inbox n') \<and> (if e = EINTR then patience n' < patience n else inbox n = [])"
    using mp [OF spec [OF spec [OF assms(1) [unfolded recv_ok_def], of n], of len] assms(2)] unfolding r .
  show ?thesis
  proof (cases r)
    case (Inl e)
    then show ?thesis using * r intr fail by (cases "e = EINTR") auto
  next
    case (Inr bs)
    then show ?thesis using * r got eof by (cases "bs = []") auto
  qed
qed

section \<open>Sending\<close>

lemma concat_iov_advance: "concat (iov_advance sent iov) = drop sent (concat iov)"
  by (induction sent iov rule: iov_advance.induct) auto

lemma iov_advance_nonempty: "\<forall>v\<in>set iov. v \<noteq> [] \<Longrightarrow> \<forall>v\<in>set (iov_advance sent iov). v \<noteq> []"
  by (induction sent iov rule: iov_advance.induct) auto

lemma concat_nonempty: "\<forall>v\<in>set iov. v \<noteq> [] \<Longrightarrow> concat iov = [] \<longleftrightarrow> iov = []"
  by (cases iov) auto

lemma send_iov_loop_post:
  assumes ok: "send_ok os fd outbox patience steady" and "\<forall>v\<in>set iov. v \<noteq> []"
  shows "\<exists>rc n'. send_iov_loop os fd iov n = Some (rc, n') \<and>
    (rc = 0 \<and> outbox n' = outbox n @ concat iov \<or>
     rc = -1 \<and> \<not> steady \<and> (\<exists>k < length (concat iov). outbox n' = outbox n @ take k (concat iov)))"
  using assms(2)
proof (induction "(length (concat iov), patience n)" arbitrary: iov n rule: less_induct)
  case (less iov n)
  show ?case
  proof (cases "iov = []")
    case True
    then show ?thesis by (subst send_iov_loop.simps) simp
  next
    case False
    then have ne: "concat iov \<noteq> []" using concat_nonempty less.prems by blast
    have none: "\<exists>k < length (concat iov). outbox n' = outbox n @ take k (concat iov)" if "outbox n' = outbox n" for n'
      using that ne by (intro exI [of _ 0] conjI) (simp_all only: length_greater_0_conv take_0 append_Nil2 simp_thms)
    obtain r n1 where r: "os_sendmsg os fd iov n = (r, n1)" by force
    have step: "send_iov_loop os fd iov n = (case r of
          Inr sent \<Rightarrow> if sent > 0 then send_iov_loop os fd (iov_advance sent iov) n1 else Some (-1, n1)
        | Inl error \<Rightarrow> if wirecall_socket_interrupted error then send_iov_loop os fd iov n1 else Some (-1, n1))"
      using False r by (subst send_iov_loop.simps) simp
    have *: "case (r, n1) of
           (Inr k, n') \<Rightarrow> k \<le> length (concat iov) \<and> outbox n' = outbox n @ take k (concat iov) \<and> (steady \<longrightarrow> 0 < k)
         | (Inl e, n') \<Rightarrow> outbox n' = outbox n \<and> (if e = EINTR then patience n' < patience n else \<not> steady)"
      using mp [OF spec [OF spec [OF ok [unfolded send_ok_def], of n], of iov] ne] unfolding r .
    show ?thesis
    proof (cases r)
      case (Inl e)
      show ?thesis
      proof (cases "e = EINTR")
        case True
        then have "patience n1 < patience n" "outbox n1 = outbox n" using * Inl by auto
        then show ?thesis using less.hyps [of iov n1] less.prems step Inl True
          by (auto simp: wirecall_socket_interrupted_def)
      next
        case False
        then have "outbox n1 = outbox n" "\<not> steady" "send_iov_loop os fd iov n = Some (-1, n1)"
          using * step Inl by (auto simp: wirecall_socket_interrupted_def)
        then show ?thesis using none by blast
      qed
    next
      case (Inr k)
      have k: "k \<le> length (concat iov)" "outbox n1 = outbox n @ take k (concat iov)" "steady \<longrightarrow> 0 < k" using * Inr by auto
      show ?thesis
      proof (cases "k = 0")
        case True
        then have "outbox n1 = outbox n" "\<not> steady" "send_iov_loop os fd iov n = Some (-1, n1)"
          using k step Inr by simp_all
        then show ?thesis using none by blast
      next
        case False
        let ?iov = "iov_advance k iov"
        have len: "length (concat ?iov) < length (concat iov)" using False k(1) ne by (simp add: concat_iov_advance)
        obtain rc n2 where n2: "send_iov_loop os fd ?iov n1 = Some (rc, n2)"
          "rc = 0 \<and> outbox n2 = outbox n1 @ concat ?iov \<or>
           rc = -1 \<and> \<not> steady \<and> (\<exists>j < length (concat ?iov). outbox n2 = outbox n1 @ take j (concat ?iov))"
          using less.hyps [of ?iov n1] len iov_advance_nonempty [OF less.prems] by auto
        have e1: "outbox n1 @ concat ?iov = outbox n @ concat iov" using k(2) by (simp add: concat_iov_advance)
        have e2: "outbox n1 @ take j (concat ?iov) = outbox n @ take (k + j) (concat iov)" for j
          using k(1,2) by (simp add: concat_iov_advance take_add)
        have e3: "j < length (concat ?iov) \<Longrightarrow> k + j < length (concat iov)" for j
          using k(1) by (simp add: concat_iov_advance)
        have "rc = 0 \<and> outbox n2 = outbox n @ concat iov \<or>
           rc = -1 \<and> \<not> steady \<and> (\<exists>j < length (concat iov). outbox n2 = outbox n @ take j (concat iov))"
          using n2(2) e3 unfolding e1 e2 by blast
        then show ?thesis using step Inr False n2(1) by auto
      qed
    qed
  qed
qed

section \<open>The read buffer\<close>

text \<open>The capacity stays below twice the largest packet.\<close>

definition CLIENT_CAP_LIMIT :: nat where
  "CLIENT_CAP_LIMIT = 2 * (WIRECALL_HEADER_SIZE + WIRECALL_MAX_PAYLOAD_SIZE)"

definition client_ok :: "wirecall_client \<Rightarrow> heap \<Rightarrow> bool" where
  "client_ok c h \<longleftrightarrow> heap_ok h \<and> c_read_off c \<le> c_read_len c \<and> c_read_len c \<le> c_read_cap c \<and> c_read_cap c \<le> CLIENT_CAP_LIMIT \<and>
     (if c_read_buf c = 0 then c_read_cap c = 0 else hp_size h (c_read_buf c) = Some (c_read_cap c)) \<and> length (c_mac_key c) = 16"

text \<open>The bytes received and not consumed yet.\<close>

definition client_view :: "wirecall_client \<Rightarrow> heap \<Rightarrow> u8 list" where
  "client_view c h = map (hp_bytes h (c_read_buf c)) [c_read_off c..<c_read_len c]"

definition client_same :: "wirecall_client \<Rightarrow> wirecall_client \<Rightarrow> bool" where
  "client_same c c' \<longleftrightarrow> c_fd c' = c_fd c \<and> c_next_call_id c' = c_next_call_id c \<and> c_integrity c' = c_integrity c \<and>
     c_mac_key c' = c_mac_key c \<and> c_error c' = c_error c"

lemma length_client_view [simp]: "length (client_view c h) = c_read_len c - c_read_off c"
  by (simp add: client_view_def)

lemma client_same_refl [simp]: "client_same c c"
  by (simp add: client_same_def)

lemma client_same_trans: "client_same c c1 \<Longrightarrow> client_same c1 c2 \<Longrightarrow> client_same c c2"
  by (simp add: client_same_def)

lemma available_view: "client_ok c h \<Longrightarrow> client_read_available c = length (client_view c h)"
  by (simp add: client_read_available_def client_ok_def)

lemma client_ok_blk: "client_ok c h \<Longrightarrow> blk (c_read_buf c) \<subseteq> live h"
  by (auto simp: client_ok_def blk_def live_def split: if_splits)

lemma map_upt_shift: "map f [a..<b] = map (\<lambda>i. f (a + i)) [0..<b - a]"
  by (rule nth_equalityI) auto

text \<open>Moving the unread bytes to the front.\<close>

lemma client_compact:
  assumes ok: "client_ok c h" and off: "0 < c_read_off c"
  defines "c' \<equiv> c\<lparr>c_read_len := c_read_len c - c_read_off c, c_read_off := 0\<rparr>"
  shows "\<exists>b bs. hp_read (c_read_buf c) (c_read_off c) (client_read_available c) h = Some bs \<and>
    hp_write (c_read_buf c) 0 bs h = Some (h\<lparr>hp_bytes := b\<rparr>) \<and> client_ok c' (h\<lparr>hp_bytes := b\<rparr>) \<and>
    client_view c' (h\<lparr>hp_bytes := b\<rparr>) = client_view c h \<and> block_frame (c_read_buf c) h (c_read_buf c) (h\<lparr>hp_bytes := b\<rparr>)"
proof -
  let ?p = "c_read_buf c" and ?n = "c_read_len c - c_read_off c"
  have c: "c_read_off c \<le> c_read_len c" "c_read_len c \<le> c_read_cap c" "?p \<noteq> 0" "hp_size h ?p = Some (c_read_cap c)"
    using ok off by (auto simp: client_ok_def split: if_splits)
  have rd: "hp_read ?p (c_read_off c) (client_read_available c) h = Some (client_view c h)"
    using c by (simp add: hp_read_Some client_read_available_def client_view_def)
  have le: "0 + length (client_view c h) \<le> c_read_cap c" using c(1,2) by simp
  obtain b where b: "hp_write ?p 0 (client_view c h) h = Some (h\<lparr>hp_bytes := b\<rparr>)" "\<forall>q. q \<noteq> ?p \<longrightarrow> b q = hp_bytes h q"
    "map (b ?p) [0..<?n] = client_view c h"
    using hp_write_Some [OF c(4) le] by auto
  have "client_view c' (h\<lparr>hp_bytes := b\<rparr>) = client_view c h"
    using b(3) by (simp add: client_view_def c'_def)
  moreover have "client_ok c' (h\<lparr>hp_bytes := b\<rparr>)" using ok c by (simp add: client_ok_def c'_def)
  ultimately show ?thesis using rd b(1,2) block_frame_write [OF c(4,3)] by blast
qed

definition reserve_post ::
  "(heap \<Rightarrow> bool) \<Rightarrow> nat \<Rightarrow> wirecall_client \<Rightarrow> heap \<Rightarrow> int \<Rightarrow> wirecall_client \<Rightarrow> heap \<Rightarrow> bool" where
  "reserve_post reliable need c h rc c' h' \<longleftrightarrow>
     client_ok c' h' \<and> client_same c c' \<and> client_view c' h' = client_view c h \<and> block_frame (c_read_buf c) h (c_read_buf c') h' \<and>
     (reliable h \<longrightarrow> reliable h') \<and> (rc = 0 \<and> need \<le> c_read_cap c' \<and> c_read_off c' = 0 \<or> rc = -1 \<and> \<not> reliable h)"

lemma need_small: "need \<le> WIRECALL_HEADER_SIZE + WIRECALL_MAX_PAYLOAD_SIZE \<Longrightarrow> 2 * need \<le> SIZE_MAX \<and> 2 * need \<le> CLIENT_CAP_LIMIT"
  by (simp add: CLIENT_CAP_LIMIT_def WIRECALL_HEADER_SIZE_def WIRECALL_MAX_PAYLOAD_SIZE_def SIZE_MAX_def)

context library_memory
begin

lemma client_grow:
  assumes ok: "client_ok c h" and need: "c_read_cap c < need" "need \<le> WIRECALL_HEADER_SIZE + WIRECALL_MAX_PAYLOAD_SIZE"
    and off: "c_read_off c = 0"
  shows "\<exists>cap q h'. cap_loop (if c_read_cap c \<noteq> 0 then c_read_cap c else 65536) need = Some cap \<and>
    wirecall_mem_realloc g (c_read_buf c) cap h = Some (q, h') \<and>
    (if q = 0 then reserve_post reliable need c h (-1) c h' else reserve_post reliable need c h 0 (c\<lparr>c_read_buf := q, c_read_cap := cap\<rparr>) h')"
proof -
  let ?p = "c_read_buf c" and ?k = "c_read_cap c"
  have c: "heap_ok h" "c_read_len c \<le> ?k" "if ?p = 0 then ?k = 0 else hp_size h ?p = Some ?k"
    using ok by (auto simp: client_ok_def)
  have small: "2 * need \<le> SIZE_MAX" "2 * need \<le> CLIENT_CAP_LIMIT" "65536 \<le> CLIENT_CAP_LIMIT"
    using need_small [OF need(2)] by (simp_all add: CLIENT_CAP_LIMIT_def WIRECALL_HEADER_SIZE_def WIRECALL_MAX_PAYLOAD_SIZE_def)
  obtain cap where cap: "cap_loop (if ?k \<noteq> 0 then ?k else 65536) need = Some cap" "need \<le> cap"
    "cap = (if ?k \<noteq> 0 then ?k else 65536) \<or> cap < 2 * need"
    using cap_loop_Some [OF _ small(1), of "if ?k \<noteq> 0 then ?k else 65536"] by (cases "?k = 0") auto
  have lim: "cap \<le> CLIENT_CAP_LIMIT" "?k \<le> cap" "0 < cap" using cap(2,3) small need(1) by (auto split: if_splits)
  from c(1) lim(3) c(3) lim(2) show ?thesis
  proof (cases rule: realloc_block)
    case (fail h')
    then have "client_view c h' = client_view c h" "client_ok c h'"
      using ok by (auto simp: client_view_def client_ok_def heap_same_def split: if_splits)
    then show ?thesis using fail cap(1) by (auto simp: reserve_post_def)
  next
    case (grown q h')
    let ?c = "c\<lparr>c_read_buf := q, c_read_cap := cap\<rparr>"
    have "client_view ?c h' = client_view c h"
      using grown(5) off c(2) by (simp add: client_view_def)
    moreover have "client_ok ?c h'" using ok grown lim c(2) by (auto simp: client_ok_def)
    ultimately have "reserve_post reliable need c h 0 ?c h'"
      using grown cap(2) off by (simp add: reserve_post_def client_same_def)
    then show ?thesis using grown(1,2) cap(1) by auto
  qed
qed

lemma client_read_reserve_post:
  assumes ok: "client_ok c h" and need: "client_read_available c < need" "need \<le> WIRECALL_HEADER_SIZE + WIRECALL_MAX_PAYLOAD_SIZE"
  shows "\<exists>rc c' h'. client_read_reserve g need c h = Some (rc, c', h') \<and> reserve_post reliable need c h rc c' h'"
proof -
  obtain c1 h1 where c1: "(if c_read_off c > 0 then do {
            bs \<leftarrow> hp_read (c_read_buf c) (c_read_off c) (client_read_available c) h;
            h \<leftarrow> hp_write (c_read_buf c) 0 bs h;
            Some (c\<lparr>c_read_len := sz_sub (c_read_len c) (c_read_off c), c_read_off := 0\<rparr>, h) }
          else Some (c, h)) = Some (c1, h1)"
    and ok1: "client_ok c1 h1" "client_same c c1" "client_view c1 h1 = client_view c h" "c_read_off c1 = 0"
      "block_frame (c_read_buf c) h (c_read_buf c1) h1" "reliable h \<longrightarrow> reliable h1"
  proof (cases "c_read_off c > 0")
    case True
    then show ?thesis using client_compact [OF ok True] that write_reliable ok
      by (auto simp: client_same_def client_ok_def)
  next
    case False
    then show ?thesis using that [of c h] ok block_frame_refl [OF client_ok_blk [OF ok]] by simp
  qed
  have ok0: "heap_ok h" using ok by (simp add: client_ok_def)
  have eq: "client_read_reserve g need c h =
       (if c_read_cap c1 \<ge> need then Some (0, c1, h1)
        else do {
          next_cap \<leftarrow> cap_loop (if c_read_cap c1 \<noteq> 0 then c_read_cap c1 else 65536) need;
          (nxt, h) \<leftarrow> wirecall_mem_realloc g (c_read_buf c1) next_cap h1;
          if nxt = 0 then Some (-1, c1, h)
          else Some (0, c1\<lparr>c_read_buf := nxt, c_read_cap := next_cap\<rparr>, h) })"
    using need(1) c1 by (simp add: client_read_reserve_def)
  show ?thesis
  proof (cases "c_read_cap c1 \<ge> need")
    case True
    then show ?thesis using eq ok1 by (auto simp: reserve_post_def)
  next
    case False
    then obtain cap q h' where q: "cap_loop (if c_read_cap c1 \<noteq> 0 then c_read_cap c1 else 65536) need = Some cap"
      "wirecall_mem_realloc g (c_read_buf c1) cap h1 = Some (q, h')"
      "if q = 0 then reserve_post reliable need c1 h1 (-1) c1 h'
       else reserve_post reliable need c1 h1 0 (c1\<lparr>c_read_buf := q, c_read_cap := cap\<rparr>) h'"
      using client_grow [OF ok1(1) _ need(2) ok1(4)] by force
    have tr: "reserve_post reliable need c h rc c' h'" if "reserve_post reliable need c1 h1 rc c' h'" for rc c'
      using that ok1 client_same_trans [OF ok1(2)] block_frame_trans [OF ok1(5) _ ok0]
      unfolding reserve_post_def by metis
    show ?thesis using False eq q tr by (cases "q = 0") auto
  qed
qed

end

text \<open>
  After filling, the bytes in the buffer and those to come are the ones there were before, with
  \<open>extra\<close> that have arrived in the meantime.
\<close>

definition fill_post ::
  "(heap \<Rightarrow> bool) \<Rightarrow> ('n \<Rightarrow> u8 list) \<Rightarrow> nat \<Rightarrow> wirecall_client \<Rightarrow> heap \<Rightarrow> 'n \<Rightarrow> int \<Rightarrow> wirecall_client \<Rightarrow> heap \<Rightarrow> 'n \<Rightarrow> bool" where
  "fill_post reliable inbox need c h n rc c' h' n' \<longleftrightarrow>
     client_ok c' h' \<and> client_same c c' \<and> block_frame (c_read_buf c) h (c_read_buf c') h' \<and> (reliable h \<longrightarrow> reliable h') \<and>
     (\<exists>extra. client_view c h @ inbox n @ extra = client_view c' h' @ inbox n') \<and>
     (rc = 0 \<and> need \<le> length (client_view c' h') \<or> rc = -1 \<and> (\<not> reliable h \<or> length (client_view c h @ inbox n) < need))"

lemma fill_post_trans:
  assumes "heap_ok h" "client_same c c1" "block_frame (c_read_buf c) h (c_read_buf c1) h1" "reliable h \<longrightarrow> reliable h1"
    and "client_view c h @ inbox n @ extra = client_view c1 h1 @ inbox n1"
    and "fill_post reliable inbox need c1 h1 n1 rc c2 h2 n2"
  shows "fill_post reliable inbox need c h n rc c2 h2 n2"
proof -
  obtain extra1 where m: "client_view c1 h1 @ inbox n1 @ extra1 = client_view c2 h2 @ inbox n2"
    using assms(6) by (auto simp: fill_post_def)
  have "client_view c h @ inbox n @ (extra @ extra1) = client_view c2 h2 @ inbox n2"
    using arg_cong [OF assms(5), of "\<lambda>xs. xs @ extra1"] m by simp
  moreover have "length (client_view c h @ inbox n) \<le> length (client_view c1 h1 @ inbox n1)"
    using arg_cong [OF assms(5), of length] by simp
  moreover have "client_same c c2" "block_frame (c_read_buf c) h (c_read_buf c2) h2"
    using assms(6) client_same_trans [OF assms(2)] block_frame_trans [OF assms(3) _ assms(1)] by (auto simp: fill_post_def)
  ultimately show ?thesis
    using assms(4,6) unfolding fill_post_def by (meson order_le_less_trans)
qed

text \<open>Received bytes are stored behind the unread ones.\<close>

lemma client_store:
  assumes ok: "client_ok c h" and p: "c_read_buf c \<noteq> 0" and fits: "length bs \<le> c_read_cap c - c_read_len c"
  defines "c' \<equiv> c\<lparr>c_read_len := c_read_len c + length bs\<rparr>"
  shows "\<exists>b. hp_write (c_read_buf c) (c_read_len c) bs h = Some (h\<lparr>hp_bytes := b\<rparr>) \<and> client_ok c' (h\<lparr>hp_bytes := b\<rparr>) \<and>
    client_view c' (h\<lparr>hp_bytes := b\<rparr>) = client_view c h @ bs \<and> block_frame (c_read_buf c) h (c_read_buf c) (h\<lparr>hp_bytes := b\<rparr>)"
proof -
  let ?p = "c_read_buf c"
  have c: "c_read_off c \<le> c_read_len c" "c_read_len c \<le> c_read_cap c" "hp_size h ?p = Some (c_read_cap c)"
    using ok p by (auto simp: client_ok_def)
  have le: "c_read_len c + length bs \<le> c_read_cap c" using fits c(2) by simp
  obtain b where b: "hp_write ?p (c_read_len c) bs h = Some (h\<lparr>hp_bytes := b\<rparr>)" "\<forall>q. q \<noteq> ?p \<longrightarrow> b q = hp_bytes h q"
    "map (b ?p) [c_read_len c..<c_read_len c + length bs] = bs"
    "\<forall>i. i < c_read_len c \<or> c_read_len c + length bs \<le> i \<longrightarrow> b ?p i = hp_bytes h ?p i"
    using hp_write_Some [OF c(3) le] by blast
  have "[c_read_off c..<c_read_len c + length bs] = [c_read_off c..<c_read_len c] @ [c_read_len c..<c_read_len c + length bs]"
    using c(1) upt_add_eq_append by blast
  moreover have "map (b ?p) [c_read_off c..<c_read_len c] = map (hp_bytes h ?p) [c_read_off c..<c_read_len c]"
    using b(4) by simp
  ultimately have "client_view c' (h\<lparr>hp_bytes := b\<rparr>) = client_view c h @ bs"
    using b(3) by (simp add: client_view_def c'_def)
  moreover have "client_ok c' (h\<lparr>hp_bytes := b\<rparr>)" using ok c le by (simp add: client_ok_def c'_def)
  ultimately show ?thesis using b(1,2) block_frame_write [OF c(3) p] by blast
qed

context library_memory
begin

text \<open>One round of the loop: it has ended, or goes on with more bytes or after an interruption.\<close>

lemma client_read_fill_step:
  assumes ok: "client_ok c h" and recv: "recv_ok os (c_fd c) inbox patience"
    and need: "client_read_available c < need" "need \<le> WIRECALL_HEADER_SIZE + WIRECALL_MAX_PAYLOAD_SIZE"
  obtains (stop) c' h' n' where "client_read_fill os g need c h n = Some (-1, c', h', n')"
      "fill_post reliable inbox need c h n (-1) c' h' n'"
  | (again) c' h' n' extra where "client_read_fill os g need c h n = client_read_fill os g need c' h' n'"
      "client_ok c' h'" "client_same c c'" "block_frame (c_read_buf c) h (c_read_buf c') h'" "reliable h \<longrightarrow> reliable h'"
      "client_view c h @ inbox n @ extra = client_view c' h' @ inbox n'"
      "(need - length (client_view c' h'), patience n') < (need - length (client_view c h), patience n)"
proof -
  obtain rc c1 h1 where c1: "client_read_reserve g need c h = Some (rc, c1, h1)" "reserve_post reliable need c h rc c1 h1"
    using client_read_reserve_post [OF ok need] by blast
  have p: "client_ok c1 h1" "client_same c c1" "client_view c1 h1 = client_view c h" "block_frame (c_read_buf c) h (c_read_buf c1) h1"
    "reliable h \<longrightarrow> reliable h1"
    using c1(2) by (auto simp: reserve_post_def)
  have len: "length (client_view c h) < need" using need(1) available_view [OF ok] by simp
  show ?thesis
  proof (cases "rc = 0")
    case False
    then have "client_read_fill os g need c h n = Some (-1, c1, h1, n)"
      using c1(1) need(1) by (subst client_read_fill.simps) simp
    moreover have "fill_post reliable inbox need c h n (-1) c1 h1 n"
      using False c1(2) by (auto simp: fill_post_def reserve_post_def)
    ultimately show ?thesis by (rule stop)
  next
    case True
    have cap: "need \<le> c_read_cap c1" "c_read_off c1 = 0" using c1(2) True by (auto simp: reserve_post_def)
    then have lt: "c_read_len c1 < c_read_cap c1"
      using len arg_cong [OF p(3), of length] by simp
    then have buf: "c_read_buf c1 \<noteq> 0" using p(1) by (auto simp: client_ok_def split: if_splits)
    have fd: "c_fd c1 = c_fd c" using p(2) by (simp add: client_same_def)
    let ?k = "c_read_cap c1 - c_read_len c1"
    have eq: "client_read_fill os g need c h n =
       (case os_recv os (c_fd c) ?k n of
          (Inr bs, n) \<Rightarrow> if bs \<noteq> [] then do {
                  h \<leftarrow> hp_write (c_read_buf c1) (c_read_len c1) bs h1;
                  client_read_fill os g need (c1\<lparr>c_read_len := c_read_len c1 + length bs\<rparr>) h n }
                else Some (-1, c1, h1, n)
        | (Inl error, n) \<Rightarrow> if wirecall_socket_interrupted error then client_read_fill os g need c1 h1 n else Some (-1, c1, h1, n))"
      using c1(1) True need(1) lt fd
      by (subst client_read_fill.simps) (simp add: wirecall_socket_recv_def split: prod.splits sum.splits)
    have "0 < ?k" using lt by simp
    with recv show ?thesis
    proof (cases rule: recv_okD [where n = n])
      case (got bs n' extra)
      obtain b where b: "hp_write (c_read_buf c1) (c_read_len c1) bs h1 = Some (h1\<lparr>hp_bytes := b\<rparr>)"
        "client_ok (c1\<lparr>c_read_len := c_read_len c1 + length bs\<rparr>) (h1\<lparr>hp_bytes := b\<rparr>)"
        "client_view (c1\<lparr>c_read_len := c_read_len c1 + length bs\<rparr>) (h1\<lparr>hp_bytes := b\<rparr>) = client_view c1 h1 @ bs"
        "block_frame (c_read_buf c1) h1 (c_read_buf c1) (h1\<lparr>hp_bytes := b\<rparr>)"
        using client_store [OF p(1) buf got(3)] by blast
      let ?c = "c1\<lparr>c_read_len := c_read_len c1 + length bs\<rparr>"
      have "heap_ok h" using ok by (simp add: client_ok_def)
      then have "block_frame (c_read_buf c) h (c_read_buf ?c) (h1\<lparr>hp_bytes := b\<rparr>)"
        using block_frame_trans [OF p(4) b(4)] by simp
      moreover have "need - length (client_view ?c (h1\<lparr>hp_bytes := b\<rparr>)) < need - length (client_view c h)"
        unfolding b(3) p(3) length_append using len got(2) by (simp add: diff_less_mono2)
      moreover have "client_view c h @ inbox n @ extra = client_view ?c (h1\<lparr>hp_bytes := b\<rparr>) @ inbox n'"
        unfolding b(3) p(3) using got(4) by simp
      moreover have "client_same c ?c" using p(2) by (simp add: client_same_def)
      moreover have "reliable h \<longrightarrow> reliable (h1\<lparr>hp_bytes := b\<rparr>)" using p(5) write_reliable by blast
      moreover have "client_read_fill os g need c h n = client_read_fill os g need ?c (h1\<lparr>hp_bytes := b\<rparr>) n'"
        using eq got(1,2) b(1) by simp
      ultimately show ?thesis using again b(2) by (metis less_prod_simp)
    next
      case (eof n')
      then have "fill_post reliable inbox need c h n (-1) c1 h1 n'"
        using p len by (simp add: fill_post_def)
      then show ?thesis using stop eq eof(1) by simp
    next
      case (intr n' extra)
      then have "client_view c h @ inbox n @ extra = client_view c1 h1 @ inbox n'" using p(3) by simp
      then show ?thesis
        using again [of c1 h1 n' extra] eq intr p by (simp add: wirecall_socket_interrupted_def)
    next
      case (fail e n')
      then have "fill_post reliable inbox need c h n (-1) c1 h1 n'"
        using p len by (simp add: fill_post_def)
      then show ?thesis using stop eq fail(1,2) by (simp add: wirecall_socket_interrupted_def)
    qed
  qed
qed

lemma client_read_fill_post:
  assumes "client_ok c h" "recv_ok os (c_fd c) inbox patience" "need \<le> WIRECALL_HEADER_SIZE + WIRECALL_MAX_PAYLOAD_SIZE"
  shows "\<exists>rc c' h' n'. client_read_fill os g need c h n = Some (rc, c', h', n') \<and> fill_post reliable inbox need c h n rc c' h' n'"
  using assms(1,2)
proof (induction "(need - length (client_view c h), patience n)" arbitrary: c h n rule: less_induct)
  case (less c h n)
  note ok = less.prems
  show ?case
  proof (cases "client_read_available c < need")
    case True
    from ok(1,2) True assms(3) show ?thesis
    proof (cases rule: client_read_fill_step [where n = n])
      case (stop c' h' n')
      then show ?thesis by blast
    next
      case (again c' h' n' extra)
      have "recv_ok os (c_fd c') inbox patience" using ok(2) again(3) by (simp add: client_same_def)
      then obtain rc c2 h2 n2 where 2: "client_read_fill os g need c' h' n' = Some (rc, c2, h2, n2)"
        "fill_post reliable inbox need c' h' n' rc c2 h2 n2"
        using less.hyps [OF again(7,2)] by blast
      have "heap_ok h" using ok(1) by (simp add: client_ok_def)
      then have "fill_post reliable inbox need c h n rc c2 h2 n2"
        using fill_post_trans [OF _ again(3-6) 2(2)] by blast
      then show ?thesis using again(1) 2(1) by auto
    qed
  next
    case False
    then have "client_read_fill os g need c h n = Some (0, c, h, n)" by (subst client_read_fill.simps) simp
    moreover have "fill_post reliable inbox need c h n 0 c h n"
      using False ok(1) available_view [OF ok(1)] block_frame_refl [OF client_ok_blk [OF ok(1)]] by (auto simp: fill_post_def)
    ultimately show ?thesis by blast
  qed
qed

end

section \<open>Receiving a packet\<close>

lemma client_ok_keep:
  assumes "client_ok c h" "heap_keep (blk (c_read_buf c)) h h'" "heap_ok h'"
  shows "client_ok c h'" "client_view c h' = client_view c h"
proof -
  show "client_ok c h'" using assms by (auto simp: client_ok_def heap_keep_def blk_def split: if_splits)
  show "client_view c h' = client_view c h"
    using assms by (cases "c_read_buf c = 0") (auto simp: client_ok_def client_view_def heap_keep_def)
qed

lemma client_buf:
  assumes "client_ok c h" "0 < length (client_view c h)"
  shows "c_read_buf c \<noteq> 0" "hp_size h (c_read_buf c) = Some (c_read_cap c)" "c_read_len c \<le> c_read_cap c" "c_read_off c \<le> c_read_len c"
  using assms by (auto simp: client_ok_def split: if_splits)

lemma client_read_at:
  assumes ok: "client_ok c h" and "0 < length (client_view c h)" "k + m \<le> length (client_view c h)"
  shows "hp_read (c_read_buf c) (c_read_off c + k) m h = Some (take m (drop k (client_view c h)))"
proof -
  note b = client_buf [OF ok assms(2)]
  have le: "c_read_off c + k + m \<le> c_read_cap c" using assms(3) b(3,4) by simp
  have "map (hp_bytes h (c_read_buf c)) [c_read_off c + k..<c_read_off c + k + m] = take m (drop k (client_view c h))"
    using assms(3) b(4) by (simp add: client_view_def drop_map take_map take_upt)
  then show ?thesis using hp_read_Some [OF b(2) le] by simp
qed

lemma client_read_view:
  assumes ok: "client_ok c h" and "0 < length (client_view c h)"
  shows "hp_read (c_read_buf c) (c_read_off c) (client_read_available c) h = Some (client_view c h)"
  using client_read_at [OF assms, of 0 "length (client_view c h)"] available_view [OF ok] by simp

definition consumed :: "nat \<Rightarrow> wirecall_client \<Rightarrow> wirecall_client" where
  "consumed k c = (let c = c\<lparr>c_read_off := c_read_off c + k\<rparr>
     in if c_read_off c = c_read_len c then c\<lparr>c_read_off := 0, c_read_len := 0\<rparr> else c)"

lemma client_consume:
  assumes "client_ok c h" "k \<le> length (client_view c h)"
  shows "client_ok (consumed k c) h" "client_view (consumed k c) h = drop k (client_view c h)" "client_same c (consumed k c)"
    "c_read_buf (consumed k c) = c_read_buf c"
  using assms by (auto simp: consumed_def client_ok_def client_view_def client_same_def drop_map Let_def split: if_splits)

lemma client_error_ok [simp]:
  "client_ok (set_error c m) h = client_ok c h" "client_view (set_error c m) h = client_view c h"
  "c_read_buf (set_error c m) = c_read_buf c"
  by (simp_all add: set_error_def client_ok_def client_view_def)

text \<open>As \<open>client_same\<close>, but the error message may differ.\<close>

definition client_like :: "wirecall_client \<Rightarrow> wirecall_client \<Rightarrow> bool" where
  "client_like c c' \<longleftrightarrow> c_fd c' = c_fd c \<and> c_next_call_id c' = c_next_call_id c \<and> c_integrity c' = c_integrity c \<and>
     c_mac_key c' = c_mac_key c"

lemma client_same_like: "client_same c c' \<Longrightarrow> client_like c c'"
  by (simp add: client_same_def client_like_def)

lemma client_like_error [simp]: "client_like c (set_error c' m) = client_like c c'"
  by (simp add: client_like_def set_error_def)

text \<open>The bytes that have been or will be received, as the client cuts them.\<close>

definition client_cut :: "bool \<Rightarrow> wirecall_client \<Rightarrow> u8 list \<Rightarrow> cut" where
  "client_cut be c bs = cut_packet be (c_integrity c) (c_mac_key c) bs"

lemma client_cut_same: "client_same c c' \<Longrightarrow> client_cut be c' = client_cut be c"
  by (simp add: client_cut_def client_same_def fun_eq_iff)

definition recv_post ::
  "(heap \<Rightarrow> bool) \<Rightarrow> ('n \<Rightarrow> u8 list) \<Rightarrow> bool \<Rightarrow> wirecall_client \<Rightarrow> heap \<Rightarrow> 'n \<Rightarrow>
     int \<Rightarrow> wirecall_header \<Rightarrow> nat \<Rightarrow> wirecall_client \<Rightarrow> heap \<Rightarrow> 'n \<Rightarrow> bool" where
  "recv_post reliable inbox be c h n rc header body c' h' n' \<longleftrightarrow>
     client_ok c' h' \<and> client_like c c' \<and> (reliable h \<longrightarrow> reliable h') \<and>
     (\<exists>h1 extra. block_frame (c_read_buf c) h (c_read_buf c') h1 \<and> heap_owns (blk body) h1 h' \<and>
        (rc = 0 \<and> body \<noteq> 0 \<and> c_error c' = c_error c \<and>
           (\<exists>p. client_cut be c (client_view c h @ inbox n @ extra) = Packet header p (client_view c' h' @ inbox n') \<and>
                hp_size h' body = Some (if p = [] then 1 else length p) \<and> map (hp_bytes h' body) [0..<length p] = p) \<or>
         rc = -1 \<and> body = 0 \<and> client_view c h @ inbox n @ extra = client_view c' h' @ inbox n' \<and>
           (\<not> reliable h \<or> (\<forall>header p rest. client_cut be c (client_view c h @ inbox n) \<noteq> Packet header p rest))))"

lemma cut_prefix:
  assumes "client_cut be c xs = Packet header p rest"
  shows "\<exists>rest'. client_cut be c (xs @ ys) = Packet header p rest'"
  using cut_packet_append [of be "c_integrity c" "c_mac_key c" xs ys] assms by (simp add: client_cut_def)

text \<open>The receiver fails: nothing is consumed and nothing stays allocated.\<close>

lemma recv_post_fail:
  assumes "fill_post reliable inbox need c h n rc c1 h1 n1" "heap_owns {} h1 h'" "reliable h1 \<longrightarrow> reliable h'"
    and "\<not> reliable h \<or> (\<forall>header p rest. client_cut be c (client_view c h @ inbox n) \<noteq> Packet header p rest)"
  shows "recv_post reliable inbox be c h n (-1) header 0 (set_error c1 m) h' n1"
proof -
  obtain extra where x: "client_view c h @ inbox n @ extra = client_view c1 h1 @ inbox n1" "client_ok c1 h1"
    "client_same c c1" "block_frame (c_read_buf c) h (c_read_buf c1) h1" "reliable h \<longrightarrow> reliable h1"
    using assms(1) by (auto simp: fill_post_def)
  have "heap_keep (blk (c_read_buf c1)) h1 h'"
    using heap_owns_keep [OF assms(2)] client_ok_blk [OF x(2)] heap_keep_mono by blast
  then have "client_ok c1 h'" "client_view c1 h' = client_view c1 h1"
    using client_ok_keep [OF x(2)] heap_owns_ok [OF assms(2)] by blast+
  then show ?thesis
    using x assms(2-4) client_same_like [OF x(3)] unfolding recv_post_def by (auto intro!: exI [of _ h1] exI [of _ extra])
qed

text \<open>The end of \<open>recv_packet\<close>, with the whole packet in the buffer.\<close>

definition recv_finish ::
  "bool \<Rightarrow> wirecall_allocator \<Rightarrow> wirecall_header \<Rightarrow> wirecall_client \<Rightarrow> heap \<Rightarrow> 'n \<Rightarrow>
     (int \<times> wirecall_header \<times> nat \<times> wirecall_client \<times> heap \<times> 'n) option" where
  "recv_finish be g header c h n = do {
     let size = unat (h_size header);
     payload \<leftarrow> hp_read (c_read_buf c) (c_read_off c + WIRECALL_HEADER_SIZE) size h;
     rc \<leftarrow> wirecall_packet_verify_ex be (Some header) (Some payload) size (c_integrity c) (Some (c_mac_key c));
     if rc \<noteq> 0 then Some (-1, header, 0, set_error c ''packet integrity failed'', h, n)
     else do {
       (body, h) \<leftarrow> wirecall_mem_alloc g (if size \<noteq> 0 then size else 1) h;
       if body = 0 then Some (-1, header, 0, set_error c ''out of memory'', h, n)
       else do {
         h \<leftarrow> (if size > 0 then hp_write body 0 payload h else Some h);
         Some (0, header, body, consumed (WIRECALL_HEADER_SIZE + size) c, h, n) } } }"

context library_memory
begin

lemma alloc_copy:
  assumes "heap_ok h" "0 < k" "length p \<le> k"
  obtains (fail) h' where "wirecall_mem_alloc g k h = Some (0, h')" "heap_owns {} h h'" "\<not> reliable h"
  | (copy) q h1 h' where "wirecall_mem_alloc g k h = Some (q, h1)" "q \<noteq> 0"
      "(if length p > 0 then hp_write q 0 p h1 else Some h1) = Some h'" "heap_owns {q} h h'" "hp_size h' q = Some k"
      "map (hp_bytes h' q) [0..<length p] = p" "reliable h \<longrightarrow> reliable h'"
  using assms(1,2)
proof (cases rule: alloc_cases)
  case f: (fail h')
  then show ?thesis by (rule fail)
next
  case f: (fresh q h')
  show ?thesis
  proof (cases "length p > 0")
    case True
    obtain b where b: "hp_write q 0 p h' = Some (h'\<lparr>hp_bytes := b\<rparr>)" "\<forall>r. r \<noteq> q \<longrightarrow> b r = hp_bytes h' r"
      "map (b q) [0..<length p] = p"
      using hp_write_Some [OF f(4), of 0 p] assms(3) by auto
    then have "map (hp_bytes (h'\<lparr>hp_bytes := b\<rparr>) q) [0..<length p] = p" by simp
    then show ?thesis using copy [of q h' "h'\<lparr>hp_bytes := b\<rparr>"] f True b heap_owns_write [OF f(3) _ b(2)] write_reliable by auto
  next
    case False
    then show ?thesis using copy [of q h' h'] f by auto
  qed
qed

lemma recv_finish_post:
  assumes fill: "fill_post reliable inbox need c h n 0 c2 h2 n2"
    and x: "client_view c h @ inbox n @ extra = client_view c2 h2 @ inbox n2"
    and dec: "wirecall_header_decode (Some (client_view c2 h2 @ inbox n2)) (Some zero_header) = Some (0, Some hdr)"
    and size: "unat (h_size hdr) \<le> WIRECALL_MAX_PAYLOAD_SIZE" and need: "need = WIRECALL_HEADER_SIZE + unat (h_size hdr)"
  shows "\<exists>rc body c' h'. recv_finish be g hdr c2 h2 n2 = Some (rc, hdr, body, c', h', n2) \<and>
    recv_post reliable inbox be c h n rc hdr body c' h' n2"
proof -
  let ?s = "unat (h_size hdr)" and ?v = "client_view c2 h2"
  have f: "client_ok c2 h2" "client_same c c2" "block_frame (c_read_buf c) h (c_read_buf c2) h2" "reliable h \<longrightarrow> reliable h2"
    "WIRECALL_HEADER_SIZE + ?s \<le> length ?v"
    using fill need by (auto simp: fill_post_def)
  define p where "p = take ?s (drop WIRECALL_HEADER_SIZE ?v)"
  have len: "length p = ?s" "0 < length ?v" using f(5) by (auto simp: p_def WIRECALL_HEADER_SIZE_def)
  have rd: "hp_read (c_read_buf c2) (c_read_off c2 + WIRECALL_HEADER_SIZE) ?s h2 = Some p"
    using client_read_at [OF f(1) len(2) f(5)] by (simp add: p_def)
  have key: "key_ok (Some (c_mac_key c2))" "payload_ok (Some p) ?s"
    using f(1) len size by (auto simp: key_ok_def client_ok_def payload_ok_def payload_bytes_def)
  let ?ver = "wirecall_packet_verify_ex be (Some hdr) (Some p) ?s (c_integrity c2) (Some (c_mac_key c2))"
  have ver: "?ver = Some 0 \<or> ?ver = Some (-1)" using packet_verify_Some [OF key(2,1)] by blast
  have cut: "client_cut be c (client_view c h @ inbox n @ extra) =
      (if ?ver = Some 0 then Packet hdr p (drop (WIRECALL_HEADER_SIZE + ?s) ?v @ inbox n2) else Bad_signature)"
    unfolding client_cut_same [OF f(2), symmetric] x using dec f(5)
    by (simp add: client_cut_def cut_packet_def Let_def p_def)
  have heap2: "heap_ok h2" using f(1) by (simp add: client_ok_def)
  show ?thesis
  proof (cases "?ver = Some 0")
    case False
    have "client_cut be c (client_view c h @ inbox n) \<noteq> Packet hx q r" for hx q r
      using cut_prefix [of be c "client_view c h @ inbox n" hx q r extra] cut False by auto
    then have "recv_post reliable inbox be c h n (-1) hdr 0 (set_error c2 ''packet integrity failed'') h2 n2"
      using recv_post_fail [OF fill] heap_owns_refl [OF heap2] by blast
    moreover have "recv_finish be g hdr c2 h2 n2 = Some (-1, hdr, 0, set_error c2 ''packet integrity failed'', h2, n2)"
      using rd ver False by (auto simp: recv_finish_def)
    ultimately show ?thesis by blast
  next
    case True
    let ?k = "if ?s \<noteq> 0 then ?s else 1"
    have "0 < ?k" "length p \<le> ?k" using len by auto
    with heap2 show ?thesis
    proof (cases rule: alloc_copy)
      case (fail h')
      then have "recv_post reliable inbox be c h n (-1) hdr 0 (set_error c2 ''out of memory'') h' n2"
        using recv_post_fail [OF fill] f(4) by blast
      moreover have "recv_finish be g hdr c2 h2 n2 = Some (-1, hdr, 0, set_error c2 ''out of memory'', h', n2)"
        using rd True fail(1) by (simp add: recv_finish_def)
      ultimately show ?thesis by blast
    next
      case (copy q h3 h')
      let ?c = "consumed (WIRECALL_HEADER_SIZE + ?s) c2"
      note con = client_consume [OF f(1,5)]
      have k: "heap_keep (blk (c_read_buf ?c)) h2 h'"
        using heap_owns_keep [OF copy(4)] client_ok_blk [OF f(1)] con(4) heap_keep_mono by metis
      have c: "client_ok ?c h'" "client_view ?c h' = drop (WIRECALL_HEADER_SIZE + ?s) ?v"
        using client_ok_keep [OF con(1) k heap_owns_ok [OF copy(4)]] con(2) by auto
      have "client_cut be c (client_view c h @ inbox n @ extra) = Packet hdr p (client_view ?c h' @ inbox n2)"
        using cut True c(2) by simp
      moreover have "hp_size h' q = Some (if p = [] then 1 else length p)" using copy(5) len(1) by auto
      moreover have "client_like c ?c" "c_error ?c = c_error c" using f(2) con(3) by (auto simp: client_same_def client_like_def)
      moreover have "block_frame (c_read_buf c) h (c_read_buf ?c) h2" "heap_owns (blk q) h2 h'" using f(3) con(4) copy(2,4) by auto
      ultimately have "recv_post reliable inbox be c h n 0 hdr q ?c h' n2"
        using c(1) copy(2,6,7) f(4) unfolding recv_post_def by blast
      moreover have "recv_finish be g hdr c2 h2 n2 = Some (0, hdr, q, ?c, h', n2)"
        using rd True copy(1-3) len(1) by (simp add: recv_finish_def)
      ultimately show ?thesis by blast
    qed
  qed
qed

end

lemma recv_packet_eq:
  "recv_packet os be g c h n = do {
     (rc, c, h, n) \<leftarrow> client_read_fill os g WIRECALL_HEADER_SIZE c h n;
     if rc \<noteq> 0 then Some (-1, zero_header, 0, set_error c ''read failed'', h, n)
     else do {
       bytes \<leftarrow> hp_read (c_read_buf c) (c_read_off c) (client_read_available c) h;
       (rc, header) \<leftarrow> wirecall_header_decode (Some bytes) (Some zero_header);
       let header = the header;
       if rc \<noteq> 0 \<or> unat (h_size header) > WIRECALL_MAX_PAYLOAD_SIZE
       then Some (-1, header, 0, set_error c ''read failed'', h, n)
       else do {
         (rc, c, h, n) \<leftarrow> client_read_fill os g (WIRECALL_HEADER_SIZE + unat (h_size header)) c h n;
         if rc \<noteq> 0 then Some (-1, header, 0, set_error c ''read failed'', h, n)
         else recv_finish be g header c h n } } }"
  unfolding recv_packet_def recv_finish_def consumed_def Let_def ..

context library_memory
begin

lemma recv_packet_post:
  assumes ok: "client_ok c h" and recv: "recv_ok os (c_fd c) inbox patience"
  shows "\<exists>rc header body c' h' n'. recv_packet os be g c h n = Some (rc, header, body, c', h', n') \<and>
    recv_post reliable inbox be c h n rc header body c' h' n'"
proof -
  let ?t = "client_view c h @ inbox n"
  obtain rc1 c1 h1 n1 where f1: "client_read_fill os g WIRECALL_HEADER_SIZE c h n = Some (rc1, c1, h1, n1)"
    "fill_post reliable inbox WIRECALL_HEADER_SIZE c h n rc1 c1 h1 n1"
    using client_read_fill_post [OF ok recv, of WIRECALL_HEADER_SIZE n] by auto
  obtain x1 where p1: "client_ok c1 h1" "client_same c c1" "client_view c h @ inbox n @ x1 = client_view c1 h1 @ inbox n1"
    "reliable h \<longrightarrow> reliable h1" "block_frame (c_read_buf c) h (c_read_buf c1) h1"
    using f1(2) by (auto simp: fill_post_def)
  have own1: "heap_owns {} h1 h1" using p1(1) heap_owns_refl by (simp add: client_ok_def)
  show ?thesis
  proof (cases "rc1 = 0")
    case False
    then have "\<not> reliable h \<or> length ?t < WIRECALL_HEADER_SIZE" using f1(2) by (auto simp: fill_post_def)
    then have "\<not> reliable h \<or> (\<forall>header p rest. client_cut be c ?t \<noteq> Packet header p rest)"
      by (auto simp: client_cut_def cut_packet_def)
    then have "recv_post reliable inbox be c h n (-1) zero_header 0 (set_error c1 ''read failed'') h1 n1"
      using recv_post_fail [OF f1(2) own1] by blast
    then show ?thesis using False f1(1) by (auto simp: recv_packet_eq)
  next
    case True
    let ?v = "client_view c1 h1"
    have len: "WIRECALL_HEADER_SIZE \<le> length ?v" "0 < length ?v"
      using f1(2) True by (auto simp: fill_post_def WIRECALL_HEADER_SIZE_def)
    note rd = client_read_view [OF p1(1) len(2)]
    from header_decode_append [OF len(1), of zero_header "inbox n1"] show ?thesis
    proof (elim disjE exE conjE)
      fix hx hy
      assume d: "wirecall_header_decode (Some ?v) (Some zero_header) = Some (-1, Some hx)"
        "wirecall_header_decode (Some (?v @ inbox n1)) (Some zero_header) = Some (-1, Some hy)"
      have "client_cut be c (?t @ x1) = Bad_header"
        using d(2) len(1) unfolding append_assoc p1(3) by (simp add: client_cut_def cut_packet_def)
      then have "\<forall>header p rest. client_cut be c ?t \<noteq> Packet header p rest"
        using cut_prefix [of be c ?t _ _ _ x1] by auto
      then have "recv_post reliable inbox be c h n (-1) hx 0 (set_error c1 ''read failed'') h1 n1"
        using recv_post_fail [OF f1(2) own1] by blast
      then show ?thesis using True f1(1) rd d(1) by (auto simp: recv_packet_eq)
    next
      fix hdr
      assume d: "wirecall_header_decode (Some ?v) (Some zero_header) = Some (0, Some hdr)"
        "wirecall_header_decode (Some (?v @ inbox n1)) (Some zero_header) = Some (0, Some hdr)" "header_valid hdr"
      let ?need = "WIRECALL_HEADER_SIZE + unat (h_size hdr)"
      have size: "unat (h_size hdr) \<le> WIRECALL_MAX_PAYLOAD_SIZE" using d(3) by (simp add: header_valid_def)
      have "recv_ok os (c_fd c1) inbox patience" using recv p1(2) by (simp add: client_same_def)
      then obtain rc2 c2 h2 n2 where f2: "client_read_fill os g ?need c1 h1 n1 = Some (rc2, c2, h2, n2)"
        "fill_post reliable inbox ?need c1 h1 n1 rc2 c2 h2 n2"
        using client_read_fill_post [OF p1(1), of os inbox patience ?need n1] size by auto
      obtain x2 where x2: "client_view c1 h1 @ inbox n1 @ x2 = client_view c2 h2 @ inbox n2"
        using f2(2) by (auto simp: fill_post_def)
      have "heap_ok h" using ok by (simp add: client_ok_def)
      then have fill: "fill_post reliable inbox ?need c h n rc2 c2 h2 n2"
        using fill_post_trans [OF _ p1(2,5,4,3) f2(2)] by blast
      show ?thesis
      proof (cases "rc2 = 0")
        case False
        then have "\<not> reliable h \<or> length ?t < ?need" using fill by (auto simp: fill_post_def)
        moreover have "client_cut be c ?t = Short" if "length ?t < ?need"
          unfolding client_cut_def using cut_packet_short [of ?t x1 hdr] d(2) p1(3) that by simp
        ultimately have "\<not> reliable h \<or> (\<forall>header p rest. client_cut be c ?t \<noteq> Packet header p rest)" by auto
        moreover have "heap_owns {} h2 h2" using f2(2) heap_owns_refl by (simp add: fill_post_def client_ok_def)
        ultimately have "recv_post reliable inbox be c h n (-1) hdr 0 (set_error c2 ''read failed'') h2 n2"
          using recv_post_fail [OF fill] by blast
        then show ?thesis using True False f1(1) rd d(1) f2(1) size by (auto simp: recv_packet_eq)
      next
        case zero: True
        have "wirecall_header_decode (Some (client_view c2 h2 @ inbox n2)) (Some zero_header) = Some (0, Some hdr)"
          using header_decode_more [OF d(2), of x2] len(1) x2 by simp
        moreover have "client_view c h @ inbox n @ (x1 @ x2) = client_view c2 h2 @ inbox n2"
          using arg_cong [OF p1(3), of "\<lambda>xs. xs @ x2"] x2 by simp
        ultimately obtain rc body c' h' where "recv_finish be g hdr c2 h2 n2 = Some (rc, hdr, body, c', h', n2)"
          "recv_post reliable inbox be c h n rc hdr body c' h' n2"
          using recv_finish_post [OF fill [unfolded zero] _ _ size refl] by blast
        then show ?thesis using True zero f1(1) rd d(1) f2(1) size by (auto simp: recv_packet_eq)
      qed
    qed
  qed
qed

end

section \<open>Sending a packet\<close>

definition payload_of :: "wirecall_writer option \<Rightarrow> heap \<Rightarrow> u8 list" where
  "payload_of payload h = (case payload of None \<Rightarrow> [] | Some w \<Rightarrow> writer_view w h)"

definition payload_inv :: "wirecall_writer option \<Rightarrow> heap \<Rightarrow> bool" where
  "payload_inv payload h = (case payload of None \<Rightarrow> True | Some w \<Rightarrow> writer_inv w h)"

lemma writer_payload_Some:
  assumes "payload_inv payload h"
  shows "\<exists>data. writer_payload payload h = Some data \<and> payload_bytes data = payload_of payload h \<and>
    (payload_of payload h \<noteq> [] \<longrightarrow> data = Some (payload_of payload h))"
proof (cases payload)
  case (Some w)
  then have w: "w_len w \<le> w_cap w" "if w_data w = 0 then w_cap w = 0 else hp_size h (w_data w) = Some (w_cap w)"
    using assms by (auto simp: payload_inv_def writer_inv_def writer_ok_def)
  show ?thesis
  proof (cases "w_data w = 0")
    case True
    then show ?thesis using w Some by (simp add: writer_payload_def payload_of_def payload_bytes_def writer_view_def)
  next
    case False
    then have "hp_read (w_data w) 0 (w_len w) h = Some (writer_view w h)"
      using hp_read_Some [of h "w_data w" "w_cap w" 0 "w_len w"] w by (simp add: writer_view_def)
    then show ?thesis using False Some by (simp add: writer_payload_def payload_of_def payload_bytes_def)
  qed
qed (simp add: writer_payload_def payload_of_def payload_bytes_def)

lemma payload_len: "payload_inv payload h \<Longrightarrow>
  (case payload of None \<Rightarrow> 0 | Some w \<Rightarrow> w_len w) = length (payload_of payload h) \<and> length (payload_of payload h) \<le> WIRECALL_MAX_PAYLOAD_SIZE"
  by (auto simp: payload_inv_def payload_of_def writer_inv_def writer_ok_def split: option.splits)

text \<open>
  A packet goes out whole, signed such that it is cut from the stream at the other end; if
  sending fails, then part of it is gone, and not because of the client.
\<close>

definition sent_packet ::
  "bool \<Rightarrow> wirecall_client \<Rightarrow> wirecall_op \<Rightarrow> u64 \<Rightarrow> u64 \<Rightarrow> u8 list \<Rightarrow> wirecall_header \<Rightarrow> bool" where
  "sent_packet be c op proc_id call_id p header \<longleftrightarrow> h_op header = op \<and> h_flags header = 0 \<and> h_proc_id header = proc_id \<and>
     h_call_id header = call_id \<and> unat (h_size header) = length p \<and>
     (\<forall>rest. client_cut be c (header_bytes header @ p @ rest) = Packet header p rest)"

lemma send_packet_post:
  assumes send: "send_ok os (c_fd c) outbox patience steady" and key: "length (c_mac_key c) = 16"
    and op: "op_enum op" and w: "payload_inv payload h"
  shows "\<exists>rc c' n' header. send_packet os be op proc_id call_id payload c h n = Some (rc, c', n') \<and>
    sent_packet be c op proc_id call_id (payload_of payload h) header \<and>
    (rc = 0 \<and> c' = c \<and> outbox n' = outbox n @ header_bytes header @ payload_of payload h \<or>
     rc = -1 \<and> c' = set_error c ''send failed'' \<and> \<not> steady \<and>
       (\<exists>k. outbox n' = outbox n @ take k (header_bytes header @ payload_of payload h)))"
proof -
  let ?p = "payload_of payload h"
  obtain data where data: "writer_payload payload h = Some data" "payload_bytes data = ?p" "?p \<noteq> [] \<longrightarrow> data = Some ?p"
    using writer_payload_Some [OF w] by blast
  note len = payload_len [OF w]
  let ?h = "zero_header\<lparr>h_op := op, h_flags := 0, h_proc_id := proc_id, h_size := word_of_nat (length ?p), h_call_id := call_id\<rparr>"
  have lp: "length ?p \<le> WIRECALL_MAX_PAYLOAD_SIZE" using len by simp
  obtain h1 where h1: "wirecall_packet_sign_ex be (Some ?h) data (length ?p) (c_integrity c) (Some (c_mac_key c)) = Some (0, Some h1)"
    "wirecall_header_encode (Some h1) (Some (replicate WIRECALL_HEADER_SIZE 0)) = Some (0, Some (header_bytes h1))"
    "wire_packet be (c_integrity c) (c_mac_key c) op proc_id call_id ?p h1"
    using packet_made [OF op lp data(2) key, where be = be and proc_id = proc_id and call_id = call_id and integrity = "c_integrity c"] by blast
  have sent: "sent_packet be c op proc_id call_id ?p h1"
    using h1(3) by (simp add: sent_packet_def wire_packet_def client_cut_def)
  define iov where "iov = (if ?p \<noteq> [] then [header_bytes h1, ?p] else [header_bytes h1])"
  have "header_bytes h1 \<noteq> []" by (simp add: header_bytes_def)
  then have ne: "\<forall>v\<in>set iov. v \<noteq> []" "0 < length iov" "length iov \<le> 2" "concat iov = header_bytes h1 @ ?p"
    by (auto simp: iov_def)
  obtain rc n' where n': "send_iov_loop os (c_fd c) iov n = Some (rc, n')"
    "rc = 0 \<and> outbox n' = outbox n @ header_bytes h1 @ ?p \<or>
     rc = -1 \<and> \<not> steady \<and> (\<exists>k. outbox n' = outbox n @ take k (header_bytes h1 @ ?p))"
    using send_iov_loop_post [OF send ne(1), of n] unfolding ne(4) by blast
  have full: "send_iov_full os (c_fd c) iov n = Some (rc, n')" using n'(1) ne(2,3) by (simp add: send_iov_full_def)
  have iov: "(if payload \<noteq> None \<and> length ?p > 0 then (case data of None \<Rightarrow> None | Some bs \<Rightarrow> Some [header_bytes h1, bs])
      else Some [header_bytes h1]) = Some iov"
    using data(3) by (auto simp: iov_def payload_of_def split: option.splits)
  have "send_packet os be op proc_id call_id payload c h n =
      (if rc \<noteq> 0 then Some (-1, set_error c ''send failed'', n') else Some (0, c, n'))"
    unfolding send_packet_def using data(1) len h1(1,2) iov full by (simp split del: if_split cong: option.case_cong if_cong)
  then show ?thesis using sent n'(2) by auto
qed

end
