(* ===== verification/Server_Inv.thy ===== *)
theory Server_Inv
  imports Server_Worker Client_Inv Routes_Table
begin

text \<open>
  Correctness of the server's connections: bytes are appended to and removed from buffers in
  order, packets are queued whole and cut from the received bytes as they were sent, and the rest
  of the heap is left alone.
\<close>

section \<open>Buffers\<close>

text \<open>A block of \<open>cap\<close> bytes, or no block at all, of which the first \<open>len\<close> bytes are in use.\<close>

definition buf_ok :: "nat \<Rightarrow> nat \<Rightarrow> nat \<Rightarrow> heap \<Rightarrow> bool" where
  "buf_ok buf len cap h \<longleftrightarrow> (if buf = 0 then cap = 0 else hp_size h buf = Some cap) \<and> len \<le> cap"

definition buf_view :: "nat \<Rightarrow> nat \<Rightarrow> heap \<Rightarrow> u8 list" where
  "buf_view buf len h = map (hp_bytes h buf) [0..<len]"

lemma length_buf_view [simp]: "length (buf_view buf len h) = len"
  by (simp add: buf_view_def)

lemma buf_ok_blk: "buf_ok buf len cap h \<Longrightarrow> blk buf \<subseteq> live h"
  by (auto simp: buf_ok_def blk_def live_def)

lemma buf_keep:
  assumes "buf_ok buf len cap h" "heap_keep (blk buf) h h'"
  shows "buf_ok buf len cap h'" "buf_view buf len h' = buf_view buf len h"
  using assms by (auto simp: buf_ok_def buf_view_def heap_keep_def blk_def split: if_splits)

lemma hp_read_buf:
  assumes "buf_ok buf len cap h" "off + n \<le> len" "0 < len"
  shows "hp_read buf off n h = Some (take n (drop off (buf_view buf len h)))"
proof -
  have "hp_size h buf = Some cap" "len \<le> cap" using assms by (auto simp: buf_ok_def split: if_splits)
  then have "hp_read buf off n h = Some (map (hp_bytes h buf) [off..<off + n])" using assms(2) hp_read_Some [of h buf cap off n] by simp
  moreover have "take n (drop off [0..<len]) = [off..<off + n]" using assms(2) by (simp add: take_upt)
  ultimately show ?thesis by (simp add: buf_view_def take_map drop_map)
qed

lemma buf_store:
  assumes ok: "buf_ok buf len cap h" and fits: "len + length bs \<le> cap" and ne: "bs \<noteq> []"
  shows "\<exists>b. hp_write buf len bs h = Some (h\<lparr>hp_bytes := b\<rparr>) \<and> buf_ok buf (len + length bs) cap (h\<lparr>hp_bytes := b\<rparr>) \<and>
    buf_view buf (len + length bs) (h\<lparr>hp_bytes := b\<rparr>) = buf_view buf len h @ bs \<and> block_frame buf h buf (h\<lparr>hp_bytes := b\<rparr>)"
proof -
  have p: "buf \<noteq> 0" "hp_size h buf = Some cap" using ok fits ne by (auto simp: buf_ok_def split: if_splits)
  obtain b where b: "hp_write buf len bs h = Some (h\<lparr>hp_bytes := b\<rparr>)" "\<forall>q. q \<noteq> buf \<longrightarrow> b q = hp_bytes h q"
    "map (b buf) [len..<len + length bs] = bs" "\<forall>i. i < len \<or> len + length bs \<le> i \<longrightarrow> b buf i = hp_bytes h buf i"
    using hp_write_Some [OF p(2) fits] by blast
  have "[0..<len + length bs] = [0..<len] @ [len..<len + length bs]" using upt_add_eq_append by blast
  moreover have "map (b buf) [0..<len] = map (hp_bytes h buf) [0..<len]" using b(4) by simp
  ultimately have "buf_view buf (len + length bs) (h\<lparr>hp_bytes := b\<rparr>) = buf_view buf len h @ bs"
    using b(3) by (simp add: buf_view_def)
  moreover have "buf_ok buf (len + length bs) cap (h\<lparr>hp_bytes := b\<rparr>)" using p fits by (simp add: buf_ok_def)
  ultimately show ?thesis using b(1,2) block_frame_write [OF p(2,1)] by blast
qed

text \<open>Dropping \<open>off\<close> bytes at the front.\<close>

lemma buf_shift:
  assumes ok: "buf_ok buf len cap h" and off: "0 < off" "off \<le> len"
  shows "\<exists>b bs. hp_read buf off (len - off) h = Some bs \<and> hp_write buf 0 bs h = Some (h\<lparr>hp_bytes := b\<rparr>) \<and>
    buf_ok buf (len - off) cap (h\<lparr>hp_bytes := b\<rparr>) \<and> buf_view buf (len - off) (h\<lparr>hp_bytes := b\<rparr>) = drop off (buf_view buf len h) \<and>
    block_frame buf h buf (h\<lparr>hp_bytes := b\<rparr>)"
proof -
  have p: "buf \<noteq> 0" "hp_size h buf = Some cap" "len \<le> cap" using ok off by (auto simp: buf_ok_def split: if_splits)
  have rd: "hp_read buf off (len - off) h = Some (drop off (buf_view buf len h))"
    using hp_read_Some [OF p(2), of off "len - off"] off p(3) by (simp add: buf_view_def drop_map)
  have fits: "0 + length (drop off (buf_view buf len h)) \<le> cap" using p(3) by simp
  obtain b where b: "hp_write buf 0 (drop off (buf_view buf len h)) h = Some (h\<lparr>hp_bytes := b\<rparr>)" "\<forall>q. q \<noteq> buf \<longrightarrow> b q = hp_bytes h q"
    "map (b buf) [0..<len - off] = drop off (buf_view buf len h)"
    using hp_write_Some [OF p(2) fits] by auto
  then have "buf_view buf (len - off) (h\<lparr>hp_bytes := b\<rparr>) = drop off (buf_view buf len h)" by (simp add: buf_view_def)
  moreover have "buf_ok buf (len - off) cap (h\<lparr>hp_bytes := b\<rparr>)" using p by (simp add: buf_ok_def)
  ultimately show ?thesis using rd b(1,2) block_frame_write [OF p(2,1)] by blast
qed

text \<open>The buffer may have moved, and has got \<open>bs\<close> at its end.\<close>

definition buf_post ::
  "(heap \<Rightarrow> bool) \<Rightarrow> nat \<Rightarrow> nat \<Rightarrow> heap \<Rightarrow> u8 list \<Rightarrow> nat \<Rightarrow> nat \<Rightarrow> nat \<Rightarrow> heap \<Rightarrow> bool" where
  "buf_post reliable buf len h bs buf' len' cap' h' \<longleftrightarrow>
     heap_ok h' \<and> buf_ok buf' len' cap' h' \<and> buf_view buf' len' h' = buf_view buf len h @ bs \<and> block_frame buf h buf' h' \<and>
     (reliable h \<longrightarrow> reliable h')"

lemma buf_post_refl:
  "heap_ok h \<Longrightarrow> buf_ok buf len cap h \<Longrightarrow> buf_post reliable buf len h [] buf len cap h"
  by (simp add: buf_post_def block_frame_refl [OF buf_ok_blk])

lemma buf_post_len:
  assumes "buf_post reliable buf len h bs buf' len' cap' h'"
  shows "len' = len + length bs" "reliable h \<longrightarrow> reliable h'"
proof -
  have "length (buf_view buf' len' h') = length (buf_view buf len h @ bs)" using assms by (simp only: buf_post_def)
  then show "len' = len + length bs" "reliable h \<longrightarrow> reliable h'" using assms by (simp_all add: buf_post_def)
qed

lemma buf_post_trans:
  assumes "heap_ok h" "buf_post reliable buf len h bs buf1 len1 cap1 h1" "buf_post reliable buf1 len1 h1 bs1 buf2 len2 cap2 h2"
  shows "buf_post reliable buf len h (bs @ bs1) buf2 len2 cap2 h2"
  using assms block_frame_trans [of buf h buf1 h1 buf2 h2] by (auto simp: buf_post_def)

context library_memory
begin

lemma grow_post:
  assumes ok: "heap_ok h" "buf_ok buf len cap h" and need: "cap < need" "2 * need \<le> SIZE_MAX"
  obtains next_cap where "cap_loop (if cap \<noteq> 0 then cap else 4096) need = Some next_cap"
    "(\<exists>h'. wirecall_mem_realloc g buf next_cap h = Some (0, h') \<and> buf_post reliable buf len h [] buf len cap h' \<and> \<not> reliable h) \<or>
     (\<exists>q h'. wirecall_mem_realloc g buf next_cap h = Some (q, h') \<and> q \<noteq> 0 \<and> need \<le> next_cap \<and>
        buf_post reliable buf len h [] q len next_cap h' \<and> (next_cap \<le> 4096 \<or> next_cap < 2 * need))"
proof -
  obtain k where k: "cap_loop (if cap \<noteq> 0 then cap else 4096) need = Some k" "need \<le> k"
    "k = (if cap \<noteq> 0 then cap else 4096) \<or> k < 2 * need"
    using cap_loop_Some [OF _ need(2), of "if cap \<noteq> 0 then cap else 4096"] by (cases "cap = 0") auto
  have b: "if buf = 0 then cap = 0 else hp_size h buf = Some cap" "len \<le> cap" using ok(2) by (auto simp: buf_ok_def)
  have k2: "k \<le> 4096 \<or> k < 2 * need" using k(2,3) need(1) by (auto split: if_splits)
  have pos: "0 < k" "cap \<le> k" using k(2) need(1) by auto
  from ok(1) pos(1) b(1) pos(2) show ?thesis
  proof (cases rule: realloc_block)
    case (fail h')
    have "hp_size h' buf = hp_size h buf" "buf_view buf len h' = buf_view buf len h"
      using fail(3) ok(2) by (auto simp: heap_same_def buf_view_def buf_ok_def split: if_splits)
    then have "buf_post reliable buf len h [] buf len cap h'"
      using fail ok(2) by (auto simp: buf_post_def buf_ok_def)
    then show ?thesis using that k(1) fail by blast
  next
    case (grown q h')
    have "buf_view q len h' = buf_view buf len h" using grown(5) b(2) by (simp add: buf_view_def)
    then have "buf_post reliable buf len h [] q len k h'"
      using grown b(2) pos(2) by (simp add: buf_post_def buf_ok_def)
    then show ?thesis using that k(1,2) k2 grown(1,2) by blast
  qed
qed

lemma reserve_bytes_post:
  assumes ok: "heap_ok h" "buf_ok buf len cap h" and need: "2 * need \<le> SIZE_MAX"
  shows "\<exists>rc buf' cap' h'. reserve_bytes g buf cap need h = Some (rc, buf', cap', h') \<and> buf_post reliable buf len h [] buf' len cap' h' \<and>
    (rc = 0 \<and> need \<le> cap' \<and> (cap' = cap \<or> cap' \<le> 4096 \<or> cap' < 2 * need) \<or> rc = -1 \<and> cap' = cap \<and> \<not> reliable h)"
proof (cases "need \<le> cap")
  case True
  then show ?thesis using buf_post_refl [OF ok] by (simp add: reserve_bytes_def)
next
  case False
  then have "cap < need" by simp
  from ok this need show ?thesis
  proof (rule grow_post)
    fix k
    assume k: "cap_loop (if cap \<noteq> 0 then cap else 4096) need = Some k"
      "(\<exists>h'. wirecall_mem_realloc g buf k h = Some (0, h') \<and> buf_post reliable buf len h [] buf len cap h' \<and> \<not> reliable h) \<or>
       (\<exists>q h'. wirecall_mem_realloc g buf k h = Some (q, h') \<and> q \<noteq> 0 \<and> need \<le> k \<and>
          buf_post reliable buf len h [] q len k h' \<and> (k \<le> 4096 \<or> k < 2 * need))"
    have eq: "reserve_bytes g buf cap need h = do {
        (nxt, h) \<leftarrow> wirecall_mem_realloc g buf k h;
        Some (if nxt = 0 then (-1, buf, cap, h) else (0, nxt, k, h)) }"
      unfolding reserve_bytes_def k(1) using False by simp
    show ?thesis using k(2) unfolding eq by auto
  qed
qed

lemma append_bytes_post:
  assumes ok: "heap_ok h" "buf_ok buf len cap h" and need: "2 * (len + length bs) \<le> SIZE_MAX"
    and data: "payload_bytes data = bs" "data_len = length bs"
  shows "\<exists>rc buf' len' cap' h'. append_bytes g buf len cap data data_len h = Some (rc, buf', len', cap', h') \<and>
    (rc = 0 \<and> buf_post reliable buf len h bs buf' len' cap' h' \<or>
     rc = -1 \<and> \<not> reliable h \<and> len' = len \<and> buf_post reliable buf len h [] buf' len' cap' h')"
proof (cases "bs = []")
  case True
  then show ?thesis using data buf_post_refl [OF ok] by (simp add: append_bytes_def)
next
  case False
  then obtain d: "data = Some bs" and pos: "data_len \<noteq> 0" using data by (cases data) (auto simp: payload_bytes_def)
  have lim: "\<not> SIZE_MAX - data_len < len" using need data(2) by simp
  have store: "(case data of None \<Rightarrow> Some h
       | Some bs \<Rightarrow> if data_len \<le> length bs then hp_write buf len (take data_len bs) h else None) = hp_write buf len bs h" for buf h
    using d data(2) by simp
  have eq: "append_bytes g buf len cap data data_len h = do {
      (rc, buf, cap, h) \<leftarrow> reserve_bytes g buf cap (len + data_len) h;
      if rc \<noteq> 0 then Some (-1, buf, len, cap, h)
      else do { h \<leftarrow> hp_write buf len bs h; Some (0, buf, len + data_len, cap, h) } }"
    unfolding append_bytes_def Let_def store reserve_bytes_def using pos lim by (simp only: if_False not_le [symmetric] if_not_P) simp
  have n: "2 * (len + data_len) \<le> SIZE_MAX" using need data(2) by simp
  obtain rc q k h' where r: "reserve_bytes g buf cap (len + data_len) h = Some (rc, q, k, h')" "buf_post reliable buf len h [] q len k h'"
    "rc = 0 \<and> len + data_len \<le> k \<or> rc = -1 \<and> \<not> reliable h"
    using reserve_bytes_post [OF ok n] by blast
  show ?thesis
  proof (cases "rc = 0")
    case False
    then show ?thesis using eq r by auto
  next
    case True
    then have kk: "len + data_len \<le> k" using r(3) by simp
    have q: "buf_ok q len k h'" "heap_ok h'" using r(2) by (simp_all add: buf_post_def)
    have fit: "len + length bs \<le> k" using kk data(2) by simp
    obtain b where b: "hp_write q len bs h' = Some (h'\<lparr>hp_bytes := b\<rparr>)" "buf_ok q (len + length bs) k (h'\<lparr>hp_bytes := b\<rparr>)"
      "buf_view q (len + length bs) (h'\<lparr>hp_bytes := b\<rparr>) = buf_view q len h' @ bs" "block_frame q h' q (h'\<lparr>hp_bytes := b\<rparr>)"
      using buf_store [OF q(1) fit \<open>bs \<noteq> []\<close>] by blast
    have "buf_post reliable q len h' bs q (len + length bs) k (h'\<lparr>hp_bytes := b\<rparr>)"
      using b q(2) write_reliable by (simp add: buf_post_def)
    then have "buf_post reliable buf len h bs q (len + length bs) k (h'\<lparr>hp_bytes := b\<rparr>)"
      using buf_post_trans [OF ok(1) r(2)] by simp
    then show ?thesis using eq r(1) True b(1) data(2) by auto
  qed
qed

end

section \<open>Connections\<close>

text \<open>
  The buffers of a connection are blocks of their own.  Besides them the blocks \<open>B\<close> have been added to the heap
  \<open>h0\<close>, which has everything else.
\<close>

definition conn_ok :: "nat set \<Rightarrow> heap \<Rightarrow> wirecall_connection \<Rightarrow> heap \<Rightarrow> bool" where
  "conn_ok B h0 c h \<longleftrightarrow> heap_owns (blk (cn_read_buf c) \<union> (blk (cn_write_buf c) \<union> B)) h0 h \<and>
     blk (cn_read_buf c) \<inter> (blk (cn_write_buf c) \<union> B) = {} \<and> blk (cn_write_buf c) \<inter> B = {} \<and>
     buf_ok (cn_read_buf c) (cn_read_len c) (cn_read_cap c) h \<and> buf_ok (cn_write_buf c) (cn_write_len c) (cn_write_cap c) h \<and>
     cn_write_off c \<le> cn_write_len c"

text \<open>The bytes received and not handled yet, and those queued and not sent yet.\<close>

definition conn_in :: "wirecall_connection \<Rightarrow> heap \<Rightarrow> u8 list" where
  "conn_in c h = buf_view (cn_read_buf c) (cn_read_len c) h"

definition conn_out :: "wirecall_connection \<Rightarrow> heap \<Rightarrow> u8 list" where
  "conn_out c h = drop (cn_write_off c) (buf_view (cn_write_buf c) (cn_write_len c) h)"

lemma conn_ok_heap: "conn_ok B h0 c h \<Longrightarrow> heap_ok h"
  by (auto simp: conn_ok_def dest: heap_owns_ok)

lemma conn_ok_bufs: "conn_ok B h0 c h \<Longrightarrow> buf_ok (cn_read_buf c) (cn_read_len c) (cn_read_cap c) h"
  "conn_ok B h0 c h \<Longrightarrow> buf_ok (cn_write_buf c) (cn_write_len c) (cn_write_cap c) h"
  by (simp_all add: conn_ok_def)

lemma conn_ok_live: "conn_ok B h0 c h \<Longrightarrow> live h = live h0 \<union> (blk (cn_read_buf c) \<union> (blk (cn_write_buf c) \<union> B))"
  by (auto simp: conn_ok_def heap_owns_def)

text \<open>Changes of the write buffer and of the read buffer.\<close>

lemma conn_write_change:
  assumes ok: "conn_ok B h0 c h" and b: "buf_post reliable (cn_write_buf c) (cn_write_len c) h bs buf len cap h'"
  defines "c' \<equiv> c\<lparr>cn_write_buf := buf, cn_write_len := len, cn_write_cap := cap\<rparr>"
  shows "conn_ok B h0 c' h'" "conn_in c' h' = conn_in c h" "conn_out c' h' = conn_out c h @ bs" "heap_keep B h h'"
proof -
  let ?r = "blk (cn_read_buf c)" and ?w = "blk (cn_write_buf c)"
  have own: "heap_owns (?w \<union> (?r \<union> B)) h0 h" "?w \<inter> (?r \<union> B) = {}" "?r \<inter> B = {}"
    using ok unfolding conn_ok_def by (simp only: Un_left_commute, blast, blast)
  have fr: "block_frame (cn_write_buf c) h buf h'" "heap_ok h'" "buf_ok buf len cap h'"
    "buf_view buf len h' = buf_view (cn_write_buf c) (cn_write_len c) h @ bs"
    using b by (simp_all add: buf_post_def)
  note own' = block_frame_owns [OF own(1) fr(1) own(2) fr(2)]
  have k: "heap_keep (?r \<union> B) h h'"
    using block_frame_keep [OF fr(1), of "?r \<union> B"] own by (auto simp: heap_owns_def)
  then show "heap_keep B h h'" by (rule heap_keep_mono) simp
  have r: "buf_ok (cn_read_buf c) (cn_read_len c) (cn_read_cap c) h'"
    "buf_view (cn_read_buf c) (cn_read_len c) h' = buf_view (cn_read_buf c) (cn_read_len c) h"
    using buf_keep [OF conn_ok_bufs(1) [OF ok] heap_keep_mono [OF k Un_upper1]] by blast+
  then show "conn_in c' h' = conn_in c h" by (simp add: conn_in_def c'_def)
  have off: "cn_write_off c \<le> cn_write_len c" using ok by (simp add: conn_ok_def)
  then show "conn_out c' h' = conn_out c h @ bs" using fr(4) by (simp add: conn_out_def c'_def)
  have "cn_write_len c \<le> len" using arg_cong [OF fr(4), of length] by simp
  moreover have "heap_owns (?r \<union> (blk buf \<union> B)) h0 h'" using own'(1) by (simp only: Un_left_commute)
  moreover have "?r \<inter> (blk buf \<union> B) = {}" "blk buf \<inter> B = {}" using own'(2) own(3) by blast+
  ultimately show "conn_ok B h0 c' h'"
    unfolding conn_ok_def c'_def using r(1) fr(3) off by simp
qed

lemma conn_read_change:
  assumes ok: "conn_ok B h0 c h" and b: "block_frame (cn_read_buf c) h buf h'" "heap_ok h'" "buf_ok buf len cap h'"
  defines "c' \<equiv> c\<lparr>cn_read_buf := buf, cn_read_len := len, cn_read_cap := cap\<rparr>"
  shows "conn_ok B h0 c' h'" "conn_in c' h' = buf_view buf len h'" "conn_out c' h' = conn_out c h" "heap_keep B h h'"
proof -
  let ?r = "blk (cn_read_buf c)" and ?w = "blk (cn_write_buf c)"
  have own: "heap_owns (?r \<union> (?w \<union> B)) h0 h" "?r \<inter> (?w \<union> B) = {}" "?w \<inter> B = {}"
    using ok by (auto simp: conn_ok_def)
  note own' = block_frame_owns [OF own(1) b(1) own(2) b(2)]
  have k: "heap_keep (?w \<union> B) h h'"
    using block_frame_keep [OF b(1), of "?w \<union> B"] own by (auto simp: heap_owns_def)
  then show "heap_keep B h h'" by (rule heap_keep_mono) simp
  have w: "buf_ok (cn_write_buf c) (cn_write_len c) (cn_write_cap c) h'"
    "buf_view (cn_write_buf c) (cn_write_len c) h' = buf_view (cn_write_buf c) (cn_write_len c) h"
    using buf_keep [OF conn_ok_bufs(2) [OF ok] heap_keep_mono [OF k Un_upper1]] by blast+
  then show "conn_out c' h' = conn_out c h" by (simp add: conn_out_def c'_def)
  show "conn_in c' h' = buf_view buf len h'" by (simp add: conn_in_def c'_def)
  show "conn_ok B h0 c' h'" unfolding conn_ok_def c'_def using own' own(3) w(1) b(3) ok by (simp add: conn_ok_def)
qed

text \<open>Blocks that are added, and blocks that are given back.\<close>

lemma conn_ok_keep:
  assumes ok: "conn_ok B h0 c h" and own: "heap_owns (blk (cn_read_buf c) \<union> (blk (cn_write_buf c) \<union> B')) h0 h'"
    and k: "heap_keep (blk (cn_read_buf c) \<union> blk (cn_write_buf c)) h h'" and disj: "(blk (cn_read_buf c) \<union> blk (cn_write_buf c)) \<inter> B' = {}"
  shows "conn_ok B' h0 c h'" "conn_in c h' = conn_in c h" "conn_out c h' = conn_out c h"
proof -
  have r: "buf_ok (cn_read_buf c) (cn_read_len c) (cn_read_cap c) h'"
    "buf_view (cn_read_buf c) (cn_read_len c) h' = buf_view (cn_read_buf c) (cn_read_len c) h"
    using buf_keep [OF conn_ok_bufs(1) [OF ok] heap_keep_mono [OF k Un_upper1]] by blast+
  have w: "buf_ok (cn_write_buf c) (cn_write_len c) (cn_write_cap c) h'"
    "buf_view (cn_write_buf c) (cn_write_len c) h' = buf_view (cn_write_buf c) (cn_write_len c) h"
    using buf_keep [OF conn_ok_bufs(2) [OF ok] heap_keep_mono [OF k Un_upper2]] by blast+
  show "conn_in c h' = conn_in c h" "conn_out c h' = conn_out c h" using r(2) w(2) by (simp_all add: conn_in_def conn_out_def)
  have "blk (cn_read_buf c) \<inter> (blk (cn_write_buf c) \<union> B') = {}" "blk (cn_write_buf c) \<inter> B' = {}"
    using ok disj unfolding conn_ok_def by blast+
  then show "conn_ok B' h0 c h'" unfolding conn_ok_def using own r(1) w(1) ok by (simp add: conn_ok_def)
qed

lemma conn_ok_add:
  assumes ok: "conn_ok B h0 c h" and own: "heap_owns A h h'"
  shows "conn_ok (A \<union> B) h0 c h'" "conn_in c h' = conn_in c h" "conn_out c h' = conn_out c h" "A \<inter> B = {}" "heap_keep B h h'"
proof -
  let ?r = "blk (cn_read_buf c)" and ?w = "blk (cn_write_buf c)"
  have *: "heap_owns (?r \<union> (?w \<union> B)) h0 h" "?r \<inter> (?w \<union> B) = {}" "?w \<inter> B = {}" using ok by (auto simp: conn_ok_def)
  have l: "?r \<union> ?w \<union> B \<subseteq> live h" "A \<inter> live h = {}" using *(1) own by (auto simp: heap_owns_def)
  have k: "heap_keep (?r \<union> ?w) h h'" "heap_keep B h h'" using heap_keep_mono [OF heap_owns_keep [OF own]] l(1) by auto
  have "heap_owns (?r \<union> (?w \<union> (A \<union> B))) h0 h'" using heap_owns_trans [OF *(1) own] by (simp add: Un_ac)
  moreover have "(?r \<union> ?w) \<inter> (A \<union> B) = {}" using * l by auto
  ultimately show "conn_ok (A \<union> B) h0 c h'" "conn_in c h' = conn_in c h" "conn_out c h' = conn_out c h"
    using conn_ok_keep [OF ok _ k(1)] by auto
  show "A \<inter> B = {}" "heap_keep B h h'" using l k(2) by auto
qed

lemma conn_ok_release:
  assumes ok: "conn_ok (A \<union> B) h0 c h" and "A \<inter> B = {}" and own: "heap_owns {} (heap_minus A h) h'"
  shows "conn_ok B h0 c h'" "conn_in c h' = conn_in c h" "conn_out c h' = conn_out c h" "heap_keep B h h'"
proof -
  let ?r = "blk (cn_read_buf c)" and ?w = "blk (cn_write_buf c)"
  have *: "heap_owns (A \<union> (?r \<union> (?w \<union> B))) h0 h" "?r \<inter> (?w \<union> (A \<union> B)) = {}" "?w \<inter> (A \<union> B) = {}"
    using ok by (simp_all add: conn_ok_def Un_left_commute)
  have d: "A \<inter> (?r \<union> (?w \<union> B)) = {}" using * assms(2) by auto
  note r = heap_owns_release [OF *(1) d own]
  have "?r \<union> ?w \<union> B \<subseteq> live h - A" using *(1) d by (auto simp: heap_owns_def)
  then have k: "heap_keep (?r \<union> ?w) h h'" "heap_keep B h h'" using heap_keep_mono [OF r(2)] by auto
  have "(?r \<union> ?w) \<inter> B = {}" using * by auto
  then show "conn_ok B h0 c h'" "conn_in c h' = conn_in c h" "conn_out c h' = conn_out c h"
    using conn_ok_keep [OF ok r(1) k(1)] by auto
  show "heap_keep B h h'" by (rule k(2))
qed

text \<open>Fields that have nothing to do with the buffers.\<close>

lemma conn_ok_fields [simp]:
  "conn_ok B h0 (c\<lparr>cn_write_queued := q\<rparr>) h = conn_ok B h0 c h" "conn_ok B h0 (c\<lparr>cn_write_next := x\<rparr>) h = conn_ok B h0 c h"
  "conn_ok B h0 (c\<lparr>cn_closing := q\<rparr>) h = conn_ok B h0 c h" "conn_ok B h0 (c\<lparr>cn_interests := i\<rparr>) h = conn_ok B h0 c h"
  "conn_in (c\<lparr>cn_write_queued := q\<rparr>) h = conn_in c h" "conn_in (c\<lparr>cn_write_next := x\<rparr>) h = conn_in c h"
  "conn_in (c\<lparr>cn_closing := q\<rparr>) h = conn_in c h" "conn_in (c\<lparr>cn_interests := i\<rparr>) h = conn_in c h"
  "conn_out (c\<lparr>cn_write_queued := q\<rparr>) h = conn_out c h" "conn_out (c\<lparr>cn_write_next := x\<rparr>) h = conn_out c h"
  "conn_out (c\<lparr>cn_closing := q\<rparr>) h = conn_out c h" "conn_out (c\<lparr>cn_interests := i\<rparr>) h = conn_out c h"
  by (simp_all add: conn_ok_def conn_in_def conn_out_def)


section \<open>Queueing\<close>

text \<open>\<open>c'\<close> is \<open>c\<close> but for the write buffer and the place in the list of pending writes.\<close>

definition conn_like :: "wirecall_connection \<Rightarrow> wirecall_connection \<Rightarrow> bool" where
  "conn_like c c' \<longleftrightarrow> cn_fd c' = cn_fd c \<and> cn_worker c' = cn_worker c \<and> cn_read_buf c' = cn_read_buf c \<and> cn_read_len c' = cn_read_len c \<and>
     cn_read_cap c' = cn_read_cap c \<and> cn_write_off c' = cn_write_off c \<and> cn_interests c' = cn_interests c \<and> cn_closing c' = cn_closing c \<and>
     cn_detached c' = cn_detached c \<and> cn_pending_deferred c' = cn_pending_deferred c \<and> cn_next c' = cn_next c"

lemma conn_like_refl [simp]: "conn_like c c"
  by (simp add: conn_like_def)

lemma conn_like_trans: "conn_like c c1 \<Longrightarrow> conn_like c1 c2 \<Longrightarrow> conn_like c c2"
  by (simp add: conn_like_def)

text \<open>The server after something has been queued for connection \<open>p\<close> of worker \<open>i\<close>.\<close>

definition set_conn :: "nat \<Rightarrow> wirecall_connection \<Rightarrow> 'n wirecall_server \<Rightarrow> 'n wirecall_server" where
  "set_conn p c v = v\<lparr>sv_conns := (sv_conns v)(p := Some c)\<rparr>"

definition set_writes :: "nat \<Rightarrow> nat \<Rightarrow> 'n wirecall_server \<Rightarrow> 'n wirecall_server" where
  "set_writes i q v = v\<lparr>sv_worker := (sv_worker v)(i := map_option (\<lambda>w. w\<lparr>wk_pending_writes := q\<rparr>) (sv_worker v i))\<rparr>"

definition first_write :: "nat \<Rightarrow> 'n wirecall_server \<Rightarrow> nat" where
  "first_write i v = (case sv_worker v i of None \<Rightarrow> 0 | Some w \<Rightarrow> wk_pending_writes w)"

lemma set_conn_sel [simp]:
  "sv_conns (set_conn p c v) = (sv_conns v)(p := Some c)" "sv_worker (set_conn p c v) = sv_worker v" "sv_net (set_conn p c v) = sv_net v"
  "sv_integrity (set_conn p c v) = sv_integrity v" "sv_mac_key (set_conn p c v) = sv_mac_key v" "sv_routes (set_conn p c v) = sv_routes v"
  "sv_defs (set_conn p c v) = sv_defs v"
  by (simp_all add: set_conn_def)

lemma set_writes_sel [simp]:
  "sv_conns (set_writes i q v) = sv_conns v" "sv_net (set_writes i q v) = sv_net v"
  "sv_integrity (set_writes i q v) = sv_integrity v" "sv_mac_key (set_writes i q v) = sv_mac_key v" "sv_routes (set_writes i q v) = sv_routes v"
  "sv_defs (set_writes i q v) = sv_defs v" "sv_worker (set_writes i q v) j = None \<longleftrightarrow> sv_worker v j = None"
  by (simp_all add: set_writes_def)

lemma set_conn_again [simp]: "set_conn p c2 (set_conn p c1 v) = set_conn p c2 v"
  by (simp add: set_conn_def)

lemma set_conn_writes: "set_conn p c (set_writes i q v) = set_writes i q (set_conn p c v)"
  by (simp add: set_conn_def set_writes_def)

lemma set_writes_again [simp]: "set_writes i q2 (set_writes i q1 v) = set_writes i q2 v"
  by (cases "sv_worker v i") (simp_all add: set_writes_def)

lemma set_writes_same: "sv_worker v i \<noteq> None \<Longrightarrow> set_writes i (first_write i v) v = v"
  by (auto simp: set_writes_def first_write_def fun_upd_idem)

lemma set_conn_same: "sv_conns v p = Some c \<Longrightarrow> set_conn p c v = v"
  by (simp add: set_conn_def fun_upd_idem)

lemma conn_upd_Some: "sv_conns v p = Some c \<Longrightarrow> conn_upd p f v = Some (set_conn p (f c) v)"
  by (simp add: conn_upd_def set_conn_def)

lemma conn_get_Some [simp]: "conn_get p v = sv_conns v p"
  by (simp add: conn_get_def)

lemma worker_queue_write_post:
  assumes "sv_conns v p = Some c" "sv_worker v i \<noteq> None"
  shows "\<exists>c' q. worker_queue_write i p v = Some (set_writes i q (set_conn p c' v)) \<and> conn_like c c' \<and> cn_write_queued c' \<and>
    conn_ok B h0 c' h = conn_ok B h0 c h \<and> conn_in c' h = conn_in c h \<and> conn_out c' h = conn_out c h \<and>
    cn_write_len c' = cn_write_len c \<and>
    (if cn_write_queued c then q = first_write i v \<and> c' = c else q = p \<and> cn_write_next c' = first_write i v)"
proof (cases "cn_write_queued c")
  case True
  then have "worker_queue_write i p v = Some v" using assms by (simp add: worker_queue_write_def)
  moreover have "set_writes i (first_write i v) (set_conn p c v) = v"
    using set_conn_same [OF assms(1)] set_writes_same [OF assms(2)] by simp
  ultimately show ?thesis using True by (intro exI [of _ c] exI [of _ "first_write i v"]) simp
next
  case False
  obtain w where w: "sv_worker v i = Some w" using assms(2) by blast
  let ?c = "c\<lparr>cn_write_queued := True, cn_write_next := wk_pending_writes w\<rparr>"
  have "worker_queue_write i p v = Some (set_writes i p (set_conn p ?c v))"
    using False w assms(1) by (simp add: worker_queue_write_def worker_get_def conn_upd_Some worker_upd_def set_writes_def)
  moreover have "conn_like c ?c" "first_write i v = wk_pending_writes w" using w by (simp_all add: conn_like_def first_write_def)
  ultimately show ?thesis using False by (intro exI [of _ ?c] exI [of _ p]) simp
qed

context library_memory
begin

lemma write_append_post:
  assumes c: "sv_conns v p = Some c" and ok: "conn_ok B h0 c h" and need: "2 * (cn_write_len c + length bs) \<le> SIZE_MAX"
    and data: "payload_bytes data = bs" "data_len = length bs"
  shows "\<exists>rc h' c'. write_append g p data data_len h v = Some (rc, h', set_conn p c' v) \<and> conn_like c c' \<and> conn_ok B h0 c' h' \<and>
    cn_write_queued c' = cn_write_queued c \<and>
    conn_in c' h' = conn_in c h \<and> heap_keep B h h' \<and> (reliable h \<longrightarrow> reliable h') \<and>
    (rc = 0 \<and> conn_out c' h' = conn_out c h @ bs \<and> cn_write_len c' = cn_write_len c + length bs \<or>
     rc = -1 \<and> \<not> reliable h \<and> conn_out c' h' = conn_out c h \<and> cn_write_len c' = cn_write_len c)"
proof -
  obtain rc buf len cap h' where b: "append_bytes g (cn_write_buf c) (cn_write_len c) (cn_write_cap c) data data_len h = Some (rc, buf, len, cap, h')"
    "rc = 0 \<and> buf_post reliable (cn_write_buf c) (cn_write_len c) h bs buf len cap h' \<or>
     rc = -1 \<and> \<not> reliable h \<and> len = cn_write_len c \<and> buf_post reliable (cn_write_buf c) (cn_write_len c) h [] buf len cap h'"
    using append_bytes_post [OF conn_ok_heap [OF ok] conn_ok_bufs(2) [OF ok] need data] by blast
  let ?c = "c\<lparr>cn_write_buf := buf, cn_write_len := len, cn_write_cap := cap\<rparr>"
  have eq: "write_append g p data data_len h v = Some (rc, h', set_conn p ?c v)"
    using b(1) c by (simp add: write_append_def conn_upd_Some)
  have like: "conn_like c ?c" by (simp add: conn_like_def)
  show ?thesis
  proof (cases "rc = 0")
    case True
    then have "buf_post reliable (cn_write_buf c) (cn_write_len c) h bs buf len cap h'" using b(2) by simp
    note ch = conn_write_change [OF ok this]
    show ?thesis using buf_post_len [OF \<open>buf_post reliable _ _ h bs buf len cap h'\<close>] eq like ch True by (intro exI conjI) (assumption | simp)+
  next
    case False
    then have "buf_post reliable (cn_write_buf c) (cn_write_len c) h [] buf len cap h'" "rc = -1" "\<not> reliable h" using b(2) by blast+
    note ch = conn_write_change [OF ok this(1)]
    show ?thesis using buf_post_len [OF \<open>buf_post reliable _ _ h [] buf len cap h'\<close>] eq like ch False \<open>rc = -1\<close> \<open>\<not> reliable h\<close> by (intro exI conjI) (assumption | simp)+
  qed
qed

end


text \<open>
  What queueing a packet with payload \<open>bs\<close> for connection \<open>p\<close> does: the packet is behind those queued before, or
  memory has run out, and then a header without its payload may be there.
\<close>

definition queue_post ::
  "(heap \<Rightarrow> bool) \<Rightarrow> (u8 list \<Rightarrow> wirecall_header \<Rightarrow> bool) \<Rightarrow> nat set \<Rightarrow> heap \<Rightarrow> nat \<Rightarrow> wirecall_connection \<Rightarrow> heap \<Rightarrow> 'n wirecall_server \<Rightarrow> u8 list \<Rightarrow>
     int \<Rightarrow> wirecall_connection \<Rightarrow> heap \<Rightarrow> 'n wirecall_server \<Rightarrow> bool" where
  "queue_post reliable packet B h0 p c h v bs rc c' h' v' \<longleftrightarrow>
     (\<exists>q. v' = set_writes (cn_worker c) q (set_conn p c' v) \<and>
        (if rc = 0 \<and> \<not> cn_write_queued c then q = p \<and> cn_write_next c' = first_write (cn_worker c) v
         else q = first_write (cn_worker c) v)) \<and>
     conn_like c c' \<and> conn_ok B h0 c' h' \<and> conn_in c' h' = conn_in c h \<and> heap_keep B h h' \<and> (reliable h \<longrightarrow> reliable h') \<and>
     cn_write_len c' \<le> cn_write_len c + (WIRECALL_HEADER_SIZE + WIRECALL_MAX_PAYLOAD_SIZE) \<and>
     (rc = 0 \<and> cn_write_queued c' \<and>
        (\<exists>header. packet bs header \<and> conn_out c' h' = conn_out c h @ header_bytes header @ bs) \<or>
      rc = -1 \<and> \<not> reliable h \<and> (\<exists>header. conn_out c' h' = conn_out c h \<or> packet bs header \<and> conn_out c' h' = conn_out c h @ header_bytes header))"

definition conn_open :: "nat \<Rightarrow> 'n wirecall_server \<Rightarrow> wirecall_connection \<Rightarrow> bool" where
  "conn_open p v c \<longleftrightarrow> p \<noteq> 0 \<and> sv_conns v p = Some c \<and> \<not> cn_detached c \<and> 0 \<le> cn_fd c \<and> sv_worker v (cn_worker c) \<noteq> None \<and>
     length (sv_mac_key v) = 16"

abbreviation server_packet :: "('f, 'n) env \<Rightarrow> 'n wirecall_server \<Rightarrow> wirecall_op \<Rightarrow> u64 \<Rightarrow> u64 \<Rightarrow> u8 list \<Rightarrow> wirecall_header \<Rightarrow> bool" where
  "server_packet E v \<equiv> wire_packet (e_be E) (sv_integrity v) (sv_mac_key v)"

context library_memory
begin

lemma queue_packet_post:
  assumes g: "e_g E = g" and c: "conn_open p v c" and ok: "conn_ok B h0 c h" and op: "op_enum op"
    and bs: "payload_bytes data = bs" "data_len = length bs" "length bs \<le> WIRECALL_MAX_PAYLOAD_SIZE"
    and room: "2 * (cn_write_len c + WIRECALL_HEADER_SIZE + length bs) \<le> SIZE_MAX"
  shows "\<exists>rc c' h' v'. queue_packet E p op WIRECALL_FLAG_NONE proc_id call_id data data_len h v = Some (rc, h', v') \<and>
    queue_post reliable (server_packet E v op proc_id call_id) B h0 p c h v bs rc c' h' v'"
proof -
  have o: "p \<noteq> 0" "sv_conns v p = Some c" "\<not> cn_detached c" "\<not> cn_fd c < 0" "sv_worker v (cn_worker c) \<noteq> None" "length (sv_mac_key v) = 16"
    using c by (simp_all add: conn_open_def)
  let ?i = "cn_worker c" and ?H = WIRECALL_HEADER_SIZE and ?P = "server_packet E v op proc_id call_id"
  obtain h1 where h1: "wirecall_packet_sign_ex (e_be E) (Some (zero_header\<lparr>h_op := op, h_flags := 0, h_proc_id := proc_id,
      h_size := word_of_nat (length bs), h_call_id := call_id\<rparr>)) data (length bs) (sv_integrity v) (Some (sv_mac_key v)) = Some (0, Some h1)"
    "wirecall_header_encode (Some h1) (Some (replicate ?H 0)) = Some (0, Some (header_bytes h1))" "?P bs h1"
    using packet_made [OF op bs(3,1) o(6), where be = "e_be E" and proc_id = proc_id and call_id = call_id and integrity = "sv_integrity v"] by blast
  have n1: "2 * (cn_write_len c + length (header_bytes h1)) \<le> SIZE_MAX" using room by simp
  have p1: "payload_bytes (Some (header_bytes h1)) = header_bytes h1" "?H = length (header_bytes h1)" by (simp_all add: payload_bytes_def)
  obtain rc1 ha c1 where a: "write_append g p (Some (header_bytes h1)) ?H h v = Some (rc1, ha, set_conn p c1 v)"
    "conn_like c c1" "conn_ok B h0 c1 ha" "cn_write_queued c1 = cn_write_queued c" "conn_in c1 ha = conn_in c h" "heap_keep B h ha" "reliable h \<longrightarrow> reliable ha"
    "rc1 = 0 \<and> conn_out c1 ha = conn_out c h @ header_bytes h1 \<and> cn_write_len c1 = cn_write_len c + ?H \<or>
     rc1 = -1 \<and> \<not> reliable h \<and> conn_out c1 ha = conn_out c h \<and> cn_write_len c1 = cn_write_len c"
    using write_append_post [OF o(2) ok n1 p1] by (simp only: length_header_bytes) blast
  have eq: "queue_packet E p op WIRECALL_FLAG_NONE proc_id call_id data data_len h v =
      (if rc1 \<noteq> 0 then Some (-1, ha, set_conn p c1 v)
       else do {
         (rc, h, v) \<leftarrow> write_append g p data data_len ha (set_conn p c1 v);
         if rc \<noteq> 0 then Some (-1, h, v) else do { v \<leftarrow> worker_queue_write ?i p v; Some (0, h, v) } })"
    unfolding queue_packet_def WIRECALL_FLAG_NONE_def using o g bs(2,3) h1(1,2) a(1)
    by (simp split del: if_split cong: if_cong)
  have same: "set_writes ?i (first_write ?i v) (set_conn p x v) = set_conn p x v" for x
    using o(5) set_writes_same [of "set_conn p x v" ?i] by (simp add: first_write_def)
  show ?thesis
  proof (cases "rc1 = 0")
    case False
    then have "rc1 = -1" "\<not> reliable h" "conn_out c1 ha = conn_out c h" "cn_write_len c1 = cn_write_len c" using a(8) by simp_all
    then have "queue_post reliable ?P B h0 p c h v bs (-1) c1 ha (set_conn p c1 v)"
      unfolding queue_post_def using a(2-7) same by (intro conjI) (auto intro!: exI [of _ "first_write ?i v"])
    then show ?thesis using eq False by auto
  next
    case True
    then have a7: "conn_out c1 ha = conn_out c h @ header_bytes h1" "cn_write_len c1 = cn_write_len c + ?H" using a(8) by simp_all
    have o1: "sv_conns (set_conn p c1 v) p = Some c1" by simp
    have n2: "2 * (cn_write_len c1 + length bs) \<le> SIZE_MAX" using room a7(2) by simp
    obtain rc2 hb c2 where b: "write_append g p data data_len ha (set_conn p c1 v) = Some (rc2, hb, set_conn p c2 v)"
      "conn_like c1 c2" "conn_ok B h0 c2 hb" "cn_write_queued c2 = cn_write_queued c1" "conn_in c2 hb = conn_in c1 ha" "heap_keep B ha hb" "reliable ha \<longrightarrow> reliable hb"
      "rc2 = 0 \<and> conn_out c2 hb = conn_out c1 ha @ bs \<and> cn_write_len c2 = cn_write_len c1 + length bs \<or>
       rc2 = -1 \<and> \<not> reliable ha \<and> conn_out c2 hb = conn_out c1 ha \<and> cn_write_len c2 = cn_write_len c1"
      using write_append_post [OF o1 a(3) n2 bs(1,2)] unfolding set_conn_again by blast
    have like: "conn_like c c2" by (rule conn_like_trans [OF a(2) b(2)])
    have keep: "heap_keep B h hb" by (rule heap_keep_trans [OF a(6) b(6)])
    have rel: "reliable h \<longrightarrow> reliable hb" using a(7) b(7) by blast
    have inn: "conn_in c2 hb = conn_in c h" using a(5) b(5) by simp
    show ?thesis
    proof (cases "rc2 = 0")
      case False
      then have "rc2 = -1" "\<not> reliable h" "conn_out c2 hb = conn_out c h @ header_bytes h1" "cn_write_len c2 = cn_write_len c + ?H"
        using a(7) b(8) a7 by auto
      then have "queue_post reliable ?P B h0 p c h v bs (-1) c2 hb (set_conn p c2 v)"
        unfolding queue_post_def using like b(3) inn keep rel same h1(3) by (intro conjI) (auto intro!: exI [of _ "first_write ?i v"])
      then show ?thesis using eq True b(1) False by auto
    next
      case rc2: True
      then have out: "conn_out c2 hb = conn_out c h @ header_bytes h1 @ bs" "cn_write_len c2 = cn_write_len c + ?H + length bs"
        using b(8) a7 by simp_all
      have qd: "cn_write_queued c2 = cn_write_queued c" using a(4) b(4) by simp
      have o2: "sv_conns (set_conn p c2 v) p = Some c2" "sv_worker (set_conn p c2 v) ?i \<noteq> None" using o(5) by simp_all
      obtain c3 q where q: "worker_queue_write ?i p (set_conn p c2 v) = Some (set_writes ?i q (set_conn p c3 v))" "conn_like c2 c3"
        "cn_write_queued c3" "conn_ok B h0 c3 hb = conn_ok B h0 c2 hb" "conn_in c3 hb = conn_in c2 hb" "conn_out c3 hb = conn_out c2 hb"
        "cn_write_len c3 = cn_write_len c2"
        "if cn_write_queued c2 then q = first_write ?i (set_conn p c2 v) \<and> c3 = c2
         else q = p \<and> cn_write_next c3 = first_write ?i (set_conn p c2 v)"
        using worker_queue_write_post [OF o2, of B h0 hb] unfolding set_conn_again by blast
      have fw: "first_write ?i (set_conn p c2 v) = first_write ?i v" by (simp add: first_write_def)
      have "queue_post reliable ?P B h0 p c h v bs 0 c3 hb (set_writes ?i q (set_conn p c3 v))"
        unfolding queue_post_def using q(2-8) b(3) inn keep rel out h1(3) conn_like_trans [OF like q(2)] qd fw bs(3)
        by (intro conjI) (auto intro!: exI [of _ q])
      then show ?thesis using eq True rc2 b(1) q(1) by auto
    qed
  qed
qed

end


section \<open>Writing\<close>

text \<open>
  \<open>outbox n\<close> is what has been sent on the socket: \<open>send\<close> takes a part of the bytes, or none, and is not interrupted
  forever.  The backend does not send anything.
\<close>

definition socket_sends :: "'n os \<Rightarrow> int \<Rightarrow> ('n \<Rightarrow> u8 list) \<Rightarrow> ('n \<Rightarrow> nat) \<Rightarrow> bool" where
  "socket_sends os fd outbox patience \<longleftrightarrow>
     (\<forall>n bs. bs \<noteq> [] \<longrightarrow>
        (case os_send os fd bs n of
           (Inr k, n') \<Rightarrow> k \<le> length bs \<and> outbox n' = outbox n @ take k bs
         | (Inl e, n') \<Rightarrow> outbox n' = outbox n \<and> (e = EINTR \<longrightarrow> patience n' < patience n)))"

definition backend_quiet :: "'n backend \<Rightarrow> ('n \<Rightarrow> u8 list) \<Rightarrow> bool" where
  "backend_quiet bk outbox \<longleftrightarrow> (\<forall>b fd interests user n. outbox (snd (bk_modify bk b fd interests user n)) = outbox n)"

lemma socket_sendsD:
  assumes "socket_sends os fd outbox patience" "bs \<noteq> []"
  obtains (sent) k n' where "os_send os fd bs n = (Inr k, n')" "k \<le> length bs" "outbox n' = outbox n @ take k bs"
  | (intr) n' where "os_send os fd bs n = (Inl EINTR, n')" "outbox n' = outbox n" "patience n' < patience n"
  | (fail) e n' where "os_send os fd bs n = (Inl e, n')" "e \<noteq> EINTR" "outbox n' = outbox n"
proof -
  obtain r n' where r: "os_send os fd bs n = (r, n')" by force
  have *: "case (r, n') of
           (Inr k, n') \<Rightarrow> k \<le> length bs \<and> outbox n' = outbox n @ take k bs
         | (Inl e, n') \<Rightarrow> outbox n' = outbox n \<and> (e = EINTR \<longrightarrow> patience n' < patience n)"
    using mp [OF spec [OF spec [OF assms(1) [unfolded socket_sends_def], of n], of bs] assms(2)] unfolding r .
  show ?thesis
  proof (cases r)
    case (Inl e)
    then show ?thesis using * r intr fail by (cases "e = EINTR") auto
  next
    case (Inr k)
    then show ?thesis using * r sent by auto
  qed
qed

definition send_blocks :: "'n os \<Rightarrow> int \<Rightarrow> u8 list \<Rightarrow> bool" where
  "send_blocks os fd bs \<longleftrightarrow> (\<exists>e n n'. os_send os fd bs n = (Inl e, n') \<and> wirecall_socket_would_block e)"

text \<open>The server with another world, and connection \<open>p\<close> with other members.\<close>

definition write_post ::
  "('n \<Rightarrow> u8 list) \<Rightarrow> 'n os \<Rightarrow> nat set \<Rightarrow> heap \<Rightarrow> nat \<Rightarrow> wirecall_connection \<Rightarrow> heap \<Rightarrow> 'n wirecall_server \<Rightarrow> bool \<Rightarrow>
     wirecall_connection \<Rightarrow> 'n wirecall_server \<Rightarrow> bool" where
  "write_post outbox os B h0 p c h v all c' v' \<longleftrightarrow>
     v' = set_conn p c' (v\<lparr>sv_net := sv_net v'\<rparr>) \<and>
     c' = c\<lparr>cn_write_off := cn_write_off c', cn_write_len := cn_write_len c', cn_interests := cn_interests c', cn_closing := cn_closing c'\<rparr> \<and>
     conn_ok B h0 c' h \<and> outbox (sv_net v') @ conn_out c' h = outbox (sv_net v) @ conn_out c h \<and>
     (if all then conn_out c' h = [] \<and> cn_closing c' = cn_closing c
      else conn_out c' h \<noteq> [] \<and>
        (cn_closing c' \<or> send_blocks os (cn_fd c) (conn_out c' h)))"

lemma set_interests_post:
  assumes "sv_conns v p = Some c" "sv_worker v (cn_worker c) \<noteq> None" "backend_quiet (e_backend E) outbox"
  shows "\<exists>rc i n. connection_set_interests E p interests v = Some (rc, set_conn p (c\<lparr>cn_interests := i\<rparr>) (v\<lparr>sv_net := n\<rparr>)) \<and>
    outbox n = outbox (sv_net v) \<and> (rc = 0 \<longrightarrow> i = interests)"
proof (cases "cn_interests c = interests")
  case True
  then show ?thesis using assms(1)
    by (intro exI [of _ 0] exI [of _ "cn_interests c"] exI [of _ "sv_net v"]) (simp add: connection_set_interests_def set_conn_same)
next
  case False
  obtain w where w: "sv_worker v (cn_worker c) = Some w" using assms(2) by blast
  obtain rc n where m: "bk_modify (e_backend E) (wk_backend w) (cn_fd c) interests p (sv_net v) = (rc, n)" by force
  have n: "outbox n = outbox (sv_net v)" using assms(3) m by (auto simp: backend_quiet_def) (metis snd_conv)
  have s: "sv_conns (v\<lparr>sv_net := n\<rparr>) p = Some c" using assms(1) by simp
  have "connection_set_interests E p interests v =
      Some (if rc \<noteq> 0 then (-1, v\<lparr>sv_net := n\<rparr>) else (0, set_conn p (c\<lparr>cn_interests := interests\<rparr>) (v\<lparr>sv_net := n\<rparr>)))"
    using False w assms(1) m conn_upd_Some [OF s]
    by (simp add: connection_set_interests_def worker_get_def)
  moreover have "v\<lparr>sv_net := n\<rparr> = set_conn p (c\<lparr>cn_interests := cn_interests c\<rparr>) (v\<lparr>sv_net := n\<rparr>)"
    using set_conn_same [OF s] by simp
  ultimately show ?thesis
    using n by (intro exI [of _ "if rc \<noteq> 0 then -1 else 0"] exI [of _ "if rc \<noteq> 0 then cn_interests c else interests"] exI [of _ n]) simp
qed


lemma conn_out_advance:
  assumes "conn_ok B h0 c h" "k \<le> length (conn_out c h)"
  shows "conn_ok B h0 (c\<lparr>cn_write_off := cn_write_off c + k\<rparr>) h"
    "conn_out (c\<lparr>cn_write_off := cn_write_off c + k\<rparr>) h = drop k (conn_out c h)"
  using assms by (auto simp: conn_ok_def conn_out_def add.commute)

lemma write_loop_post:
  assumes sends: "socket_sends (e_os E) (cn_fd c) outbox patience" and quiet: "backend_quiet (e_backend E) outbox"
    and c: "sv_conns v p = Some c" and w: "sv_worker v (cn_worker c) \<noteq> None" and ok: "conn_ok B h0 c h"
  shows "\<exists>all c' v'. write_loop E p h v = Some (all, v') \<and> write_post outbox (e_os E) B h0 p c h v all c' v' \<and> cn_write_len c' = cn_write_len c"
  using assms
proof (induction "(length (conn_out c h), patience (sv_net v))" arbitrary: c v rule: less_induct)
  case (less c v)
  note c = less.prems(3) and ok = less.prems(5)
  let ?out = "conn_out c h" and ?n = "sv_net v"
  have len: "length ?out = cn_write_len c - cn_write_off c" using ok by (simp add: conn_out_def)
  have off: "cn_write_off c \<le> cn_write_len c" using ok by (simp add: conn_ok_def)
  show ?case
  proof (cases "cn_write_off c < cn_write_len c")
    case False
    then have "write_loop E p h v = Some (True, v)" using c by (subst write_loop.simps) simp
    moreover have "?out = []" using len False by simp
    then have "write_post outbox (e_os E) B h0 p c h v True c v"
      using ok set_conn_same [OF c] by (simp add: write_post_def)
    ultimately show ?thesis by blast
  next
    case True
    then have ne: "?out \<noteq> []" using len by auto
    have "hp_read (cn_write_buf c) (cn_write_off c) (cn_write_len c - cn_write_off c) h = Some ?out"
      using hp_read_buf [OF conn_ok_bufs(2) [OF ok], of "cn_write_off c" "cn_write_len c - cn_write_off c"] True by (simp add: conn_out_def)
    then have step: "write_loop E p h v = (let (r, n) = os_send (e_os E) (cn_fd c) ?out ?n; v = v\<lparr>sv_net := n\<rparr> in
       case r of
         Inr sent \<Rightarrow>
           if sent > 0 then do { v \<leftarrow> conn_upd p (\<lambda>c. c\<lparr>cn_write_off := cn_write_off c + sent\<rparr>) v; write_loop E p h v }
           else do { v \<leftarrow> conn_upd p (\<lambda>c. c\<lparr>cn_closing := True\<rparr>) v; Some (False, v) }
       | Inl error \<Rightarrow>
           if wirecall_socket_interrupted error then write_loop E p h v
           else if wirecall_socket_would_block error then do {
             (rc, v) \<leftarrow> connection_set_interests E p (WIRECALL_BACKEND_READ OR WIRECALL_BACKEND_WRITE) v;
             Some (False, v) }
           else do { v \<leftarrow> conn_upd p (\<lambda>c. c\<lparr>cn_closing := True\<rparr>) v; Some (False, v) })"
      using True c by (subst write_loop.simps) (simp add: wirecall_socket_send_def)
    have upd: "conn_upd p f (v\<lparr>sv_net := n\<rparr>) = Some (set_conn p (f c) (v\<lparr>sv_net := n\<rparr>))" for f n
      using c by (intro conn_upd_Some) simp
    have closed: "write_post outbox (e_os E) B h0 p c h v False (c\<lparr>cn_closing := True\<rparr>) (set_conn p (c\<lparr>cn_closing := True\<rparr>) (v\<lparr>sv_net := n\<rparr>))"
      if "outbox n = outbox ?n" for n
      using that ok ne by (simp add: write_post_def)
    from less.prems(1) ne show ?thesis
    proof (cases rule: socket_sendsD [where n = ?n])
      case (intr n')
      let ?v = "v\<lparr>sv_net := n'\<rparr>"
      have "\<exists>all c' v'. write_loop E p h ?v = Some (all, v') \<and> write_post outbox (e_os E) B h0 p c h ?v all c' v' \<and> cn_write_len c' = cn_write_len c"
        using intr(3) by (intro less.hyps less.prems(1,2)) (use c ok less.prems(4) in simp_all)
      then obtain all c' v' where r: "write_loop E p h ?v = Some (all, v')" "write_post outbox (e_os E) B h0 p c h ?v all c' v'" "cn_write_len c' = cn_write_len c"
        by blast
      moreover have "write_post outbox (e_os E) B h0 p c h v all c' v'" using r(2) intr(2) by (simp add: write_post_def)
      moreover have "write_loop E p h v = write_loop E p h ?v" using step intr(1) by (simp add: wirecall_socket_interrupted_def)
      ultimately show ?thesis by auto
    next
      case (fail e n')
      show ?thesis
      proof (cases "wirecall_socket_would_block e")
        case False
        then have "write_loop E p h v = Some (False, set_conn p (c\<lparr>cn_closing := True\<rparr>) (v\<lparr>sv_net := n'\<rparr>))"
          using step fail upd by (simp add: wirecall_socket_interrupted_def)
        then show ?thesis using closed [OF fail(3)] by (intro exI conjI) (assumption | simp)+
      next
        case blocked: True
        obtain rc i n where i: "connection_set_interests E p (WIRECALL_BACKEND_READ OR WIRECALL_BACKEND_WRITE) (v\<lparr>sv_net := n'\<rparr>) =
            Some (rc, set_conn p (c\<lparr>cn_interests := i\<rparr>) (v\<lparr>sv_net := n'\<rparr>\<lparr>sv_net := n\<rparr>))" "outbox n = outbox (sv_net (v\<lparr>sv_net := n'\<rparr>))"
          using set_interests_post [of "v\<lparr>sv_net := n'\<rparr>" p c E outbox] c less.prems(2,4) by fastforce
        let ?v = "set_conn p (c\<lparr>cn_interests := i\<rparr>) (v\<lparr>sv_net := n\<rparr>)"
        have "write_loop E p h v = Some (False, ?v)"
          using step fail(1,2) blocked i(1) by (simp add: wirecall_socket_interrupted_def)
        moreover have "write_post outbox (e_os E) B h0 p c h v False (c\<lparr>cn_interests := i\<rparr>) ?v"
          using ok ne fail(1,3) blocked i(2) by (auto simp: write_post_def send_blocks_def)
        ultimately show ?thesis by (intro exI conjI) (assumption | simp)+
      qed
    next
      case (sent k n')
      show ?thesis
      proof (cases "k = 0")
        case True
        then have "write_loop E p h v = Some (False, set_conn p (c\<lparr>cn_closing := True\<rparr>) (v\<lparr>sv_net := n'\<rparr>))" "outbox n' = outbox ?n"
          using step sent upd by simp_all
        then show ?thesis using closed by (intro exI conjI) (assumption | simp)+
      next
        case False
        let ?c = "c\<lparr>cn_write_off := cn_write_off c + k\<rparr>" and ?v = "set_conn p (c\<lparr>cn_write_off := cn_write_off c + k\<rparr>) (v\<lparr>sv_net := n'\<rparr>)"
        note adv = conn_out_advance [OF ok sent(2)]
        have "\<exists>all c' v'. write_loop E p h ?v = Some (all, v') \<and> write_post outbox (e_os E) B h0 p ?c h ?v all c' v' \<and> cn_write_len c' = cn_write_len ?c"
          using False ne less.prems(1,2,4) adv by (intro less.hyps) simp_all
        then obtain all c' v' where r: "write_loop E p h ?v = Some (all, v')" "write_post outbox (e_os E) B h0 p ?c h ?v all c' v'" "cn_write_len c' = cn_write_len c"
          by auto
        have "outbox n' @ drop k ?out = outbox ?n @ ?out" using sent(3) by simp
        then have "write_post outbox (e_os E) B h0 p c h v all c' v'"
          using r(2) adv(2) by (auto simp: write_post_def set_conn_def)
        moreover have "write_loop E p h v = write_loop E p h ?v" using step sent(1) False upd by simp
        ultimately show ?thesis using r(1,3) by auto
      qed
    qed
  qed
qed


lemma connection_write_post:
  assumes sends: "socket_sends (e_os E) (cn_fd c) outbox patience" and quiet: "backend_quiet (e_backend E) outbox"
    and c: "sv_conns v p = Some c" and w: "sv_worker v (cn_worker c) \<noteq> None" and ok: "conn_ok B h0 c h"
  shows "\<exists>all c' v'. connection_write E p h v = Some v' \<and> write_post outbox (e_os E) B h0 p c h v all c' v' \<and>
    (all \<longrightarrow> cn_write_len c' = 0 \<and> cn_write_off c' = 0)"
proof -
  obtain all c1 v1 where 1: "write_loop E p h v = Some (all, v1)" "write_post outbox (e_os E) B h0 p c h v all c1 v1"
    using write_loop_post [OF assms] by blast
  show ?thesis
  proof (cases all)
    case False
    then show ?thesis using 1 by (auto simp: connection_write_def)
  next
    case True
    let ?c = "c1\<lparr>cn_write_len := 0, cn_write_off := 0\<rparr>"
    have e: "conn_out c1 h = []" "cn_closing c1 = cn_closing c" using 1(2) True by (simp_all add: write_post_def)
    have v1: "v1 = set_conn p c1 (v\<lparr>sv_net := sv_net v1\<rparr>)" "conn_ok B h0 c1 h"
      "outbox (sv_net v1) @ conn_out c1 h = outbox (sv_net v) @ conn_out c h" "c1 = c\<lparr>cn_write_off := cn_write_off c1, cn_write_len := cn_write_len c1, cn_interests := cn_interests c1, cn_closing := cn_closing c1\<rparr>"
      using 1(2) unfolding write_post_def by blast+
    have s1: "sv_conns v1 p = Some c1" by (subst v1(1)) simp
    have s2: "sv_conns (set_conn p ?c v1) p = Some ?c" by simp
    have wk: "cn_worker c1 = cn_worker c" by (subst v1(4)) simp
    have "sv_worker v1 = sv_worker v" by (subst v1(1)) simp
    then have s3: "sv_worker (set_conn p ?c v1) (cn_worker ?c) \<noteq> None" using w wk by simp
    obtain rc i n where i: "connection_set_interests E p WIRECALL_BACKEND_READ (set_conn p ?c v1) =
        Some (rc, set_conn p (?c\<lparr>cn_interests := i\<rparr>) ((set_conn p ?c v1)\<lparr>sv_net := n\<rparr>))" "outbox n = outbox (sv_net (set_conn p ?c v1))"
      using set_interests_post [OF s2 s3 quiet] by blast
    let ?c2 = "?c\<lparr>cn_interests := i\<rparr>" and ?v2 = "set_conn p (?c\<lparr>cn_interests := i\<rparr>) ((set_conn p ?c v1)\<lparr>sv_net := n\<rparr>)"
    have "connection_write E p h v = Some ?v2"
      unfolding connection_write_def using 1(1) True conn_upd_Some [OF s1] i(1) by simp
    moreover have "?v2 = set_conn p ?c2 (v\<lparr>sv_net := n\<rparr>)" by (subst v1(1)) (simp add: set_conn_def)
    moreover have "conn_ok B h0 (c\<lparr>cn_write_off := 0, cn_write_len := 0\<rparr>) h" using ok by (simp add: conn_ok_def buf_ok_def)
    moreover have "conn_out (c\<lparr>cn_write_off := 0, cn_write_len := 0\<rparr>) h = []" by (simp add: conn_out_def buf_view_def)
    moreover have "?c2 = c\<lparr>cn_write_off := 0, cn_write_len := 0, cn_interests := i, cn_closing := cn_closing c\<rparr>"
      by (subst v1(4)) (simp add: e(2))
    ultimately have "connection_write E p h v = Some ?v2 \<and> write_post outbox (e_os E) B h0 p c h v True ?c2 ?v2"
      using v1(3) e i(2) by (simp add: write_post_def)
    then show ?thesis by (intro exI [of _ True] exI [of _ ?c2] exI [of _ ?v2]) simp
  qed
qed


end
