(* ===== verification/Server_Calls.thy ===== *)
theory Server_Calls
  imports Server_Inv
begin

text \<open>
  What the server answers: every packet of a connection gets the reply that a specification
  says, in order, however the bytes arrive, and nothing that a client sends makes the server
  touch memory it must not touch.
\<close>

section \<open>Writers\<close>

lemma writer_frame_zero: "writer_frame zero_writer h w h' \<Longrightarrow> writer_inv w h' \<Longrightarrow> heap_ok h \<Longrightarrow> heap_owns (writer_owned w) h h'"
  by (auto simp: writer_frame_def writer_inv_def heap_owns_def writer_owned_def zero_writer_def live_def)

lemma heap_minus_empty [simp]: "heap_minus {} h = h"
  by (simp add: heap_minus_def)

context library_memory
begin

lemma writer_free_post:
  assumes "writer_inv w h"
  shows "\<exists>h'. wirecall_writer_free g (Some w) h = Some (Some zero_writer, h') \<and> heap_owns {} (heap_minus (writer_owned w) h) h' \<and>
    (reliable h \<longrightarrow> reliable h')"
proof (cases "w_data w = 0")
  case True
  then have "writer_owned w = {}" by (simp add: writer_owned_def)
  moreover have "wirecall_writer_free g (Some w) h = Some (Some zero_writer, h)"
    using True free_null_law by (simp add: wirecall_writer_free_def)
  ultimately show ?thesis using heap_owns_refl assms by (simp add: writer_inv_def)
next
  case False
  then have W: "writer_owned w = {w_data w}" by (simp add: writer_owned_def)
  have "heap_owns (writer_owned w) (heap_minus (writer_owned w) h) h"
    using assms writer_inv_owned by (intro heap_minus_owns) (auto simp: writer_inv_def)
  then obtain h' where h': "wirecall_mem_free g (w_data w) h = Some h'" "heap_owns (writer_owned w - {w_data w}) (heap_minus (writer_owned w) h) h'"
    using free_owned [of "writer_owned w" _ h "w_data w"] W by blast
  moreover have "wirecall_writer_free g (Some w) h = Some (Some zero_writer, h')" using h'(1) by (simp add: wirecall_writer_free_def)
  ultimately show ?thesis using W free_reliable [OF _ h'(1)] by simp
qed

end

section \<open>Error replies\<close>

text \<open>There is room for one more packet of any size.\<close>

definition conn_room :: "nat \<Rightarrow> wirecall_connection \<Rightarrow> bool" where
  "conn_room k c \<longleftrightarrow> 2 * (cn_write_len c + k * (WIRECALL_HEADER_SIZE + WIRECALL_MAX_PAYLOAD_SIZE)) \<le> SIZE_MAX"

lemma conn_room_packet:
  "conn_room (Suc k) c \<Longrightarrow> length bs \<le> WIRECALL_MAX_PAYLOAD_SIZE \<Longrightarrow> 2 * (cn_write_len c + WIRECALL_HEADER_SIZE + length bs) \<le> SIZE_MAX"
  by (simp add: conn_room_def)

text \<open>Nothing has been queued, for lack of memory.\<close>

lemma queue_post_fail:
  assumes "conn_open p v c" "conn_ok B h0 c h'" "conn_in c h' = conn_in c h" "conn_out c h' = conn_out c h" "heap_keep B h h'"
    and "\<not> reliable h"
  shows "queue_post reliable packet B h0 p c h v bs (-1) c h' v"
proof -
  have "v = set_writes (cn_worker c) (first_write (cn_worker c) v) (set_conn p c v)"
    using assms(1) set_conn_same [of v p c] set_writes_same [of v "cn_worker c"] by (simp add: conn_open_def)
  then show ?thesis unfolding queue_post_def using assms by (intro conjI) (auto intro!: exI [of _ "first_write (cn_worker c) v"])
qed

lemma queue_post_release:
  assumes q: "queue_post reliable packet (A \<union> B) h0 p c h v bs rc c' h' v'" and "A \<inter> B = {}"
    and own: "heap_owns {} (heap_minus A h') h''" and rel: "reliable h' \<longrightarrow> reliable h''"
  shows "queue_post reliable packet B h0 p c h v bs rc c' h'' v'"
proof -
  have ok: "conn_ok (A \<union> B) h0 c' h'" "heap_keep (A \<union> B) h h'" using q unfolding queue_post_def by blast+
  note r = conn_ok_release [OF ok(1) assms(2) own]
  have "heap_keep B h h''" using heap_keep_mono [OF ok(2) Un_upper2] r(4) by (rule heap_keep_trans)
  then show ?thesis using q rel r unfolding queue_post_def by simp
qed

text \<open>Blocks that were added before queueing do not argc afterwards.\<close>

lemma queue_post_rebase:
  assumes q: "queue_post reliable packet B h0 p c h1 v bs rc c' h' v'"
    and "conn_in c h1 = conn_in c h" "conn_out c h1 = conn_out c h" "heap_keep B h h1" "reliable h \<longrightarrow> reliable h1"
  shows "queue_post reliable packet B h0 p c h v bs rc c' h' v'"
proof -
  have "heap_keep B h1 h'" using q unfolding queue_post_def by blast
  then have "heap_keep B h h'" by (rule heap_keep_trans [OF assms(4)])
  then show ?thesis using q assms(2,3,5) unfolding queue_post_def by auto
qed

context library_memory
begin

lemma queue_string_error_post:
  assumes g: "e_g E = g" and c: "conn_open p v c" and ok: "conn_ok B h0 c h" and len: "length m \<le> 1000" and room: "conn_room (Suc k) c"
  shows "\<exists>rc c' h' v'. queue_string_error E p proc_id call_id m h v = Some (rc, h', v') \<and>
    queue_post reliable (server_packet E v WIRECALL_OP_ERROR proc_id call_id) B h0 p c h v (encode_payload [P_STRING m]) rc c' h' v'"
proof -
  let ?bs = "encode_payload [P_STRING m]" and ?P = "server_packet E v WIRECALL_OP_ERROR proc_id call_id"
  have hok: "heap_ok h" by (rule conn_ok_heap [OF ok])
  have lbs: "length ?bs = length m + 5" "length ?bs \<le> WIRECALL_MAX_PAYLOAD_SIZE"
    using len by (simp_all add: encode_payload_def WIRECALL_MAX_PAYLOAD_SIZE_def)
  obtain rc w h1 where w: "write_value g (Some zero_writer) (P_STRING m) h = Some (rc, Some w, h1)"
    "value_post reliable zero_writer h (encode_value (P_STRING m)) rc w h1"
    using write_value_post [OF writer_inv_zero [OF hok], of "P_STRING m"] len by auto
  have wi: "writer_inv w h1" "writer_frame zero_writer h w h1" "reliable h \<longrightarrow> reliable h1" using w(2) by (simp_all add: value_post_def)
  note own = writer_frame_zero [OF wi(2,1) hok]
  note add = conn_ok_add [OF ok own]
  have str: "wirecall_writer_string g (wirecall_writer_init (Some zero_writer)) (Some m) (word_of_nat (length m)) h = Some (rc, Some w, h1)"
    using w(1) by (simp add: wirecall_writer_init_def)
  show ?thesis
  proof (cases "rc = 0")
    case False
    obtain h2 where h2: "wirecall_writer_free g (Some w) h1 = Some (Some zero_writer, h2)" "heap_owns {} (heap_minus (writer_owned w) h1) h2"
      using writer_free_post [OF wi(1)] by blast
    note rel = conn_ok_release [OF add(1,4) h2(2)]
    have bad: "\<not> reliable h" "rc = -1" using w(2) False lbs by (auto simp: value_post_def encode_payload_def)
    have "queue_string_error E p proc_id call_id m h v = Some (-1, h2, v)"
      unfolding queue_string_error_def g str using False bad(2) h2(1) by simp
    moreover have "heap_keep B h h2" by (rule heap_keep_trans [OF add(5) rel(4)])
    then have "queue_post reliable ?P B h0 p c h v ?bs (-1) c h2 v"
      using rel(1-3) add(2,3) bad(1) by (intro queue_post_fail [OF c]) simp_all
    ultimately show ?thesis by blast
  next
    case True
    then have view: "writer_view w h1 = ?bs" using w(2) by (simp add: value_post_def encode_payload_def)
    then have wl: "w_len w = length ?bs" using length_writer_view by metis
    obtain data where data: "writer_payload (Some w) h1 = Some data" "payload_bytes data = ?bs"
      using writer_payload_Some [of "Some w" h1] wi(1) view by (auto simp: payload_inv_def payload_of_def)
    have op: "op_enum WIRECALL_OP_ERROR" by (simp add: op_enum_def)
    obtain rc2 c' h2 v' where q: "queue_packet E p WIRECALL_OP_ERROR WIRECALL_FLAG_NONE proc_id call_id data (w_len w) h1 v = Some (rc2, h2, v')"
      "queue_post reliable ?P (writer_owned w \<union> B) h0 p c h1 v ?bs rc2 c' h2 v'"
      using queue_packet_post [OF g c add(1) op data(2) wl lbs(2) conn_room_packet [OF room lbs(2)], of proc_id call_id] by blast
    have keep: "heap_keep (writer_owned w \<union> B) h1 h2" "heap_ok h2"
      using q(2) conn_ok_heap unfolding queue_post_def by blast+
    have "writer_inv w h2" using writer_inv_keep [OF wi(1) heap_keep_mono [OF keep(1) Un_upper1] keep(2)] .
    then obtain h3 where h3: "wirecall_writer_free g (Some w) h2 = Some (Some zero_writer, h3)" "heap_owns {} (heap_minus (writer_owned w) h2) h3"
      "reliable h2 \<longrightarrow> reliable h3"
      using writer_free_post by blast
    have "queue_string_error E p proc_id call_id m h v = Some (rc2, h3, v')"
      unfolding queue_string_error_def g str using True data(1) q(1) h3(1) by simp
    moreover have "queue_post reliable ?P B h0 p c h1 v ?bs rc2 c' h3 v'"
      by (rule queue_post_release [OF q(2) add(4) h3(2,3)])
    then have "queue_post reliable ?P B h0 p c h v ?bs rc2 c' h3 v'"
      by (rule queue_post_rebase) (use add wi(3) in simp_all)
    ultimately show ?thesis by blast
  qed
qed

end

section \<open>Synchronous calls\<close>

text \<open>
  What is relied on of the procedures: they leave the heap alone but for the writer, and
  write the values that \<open>serve\<close> says for the decoded arguments; \<open>None\<close> stands for a failed
  procedure.  \<open>obs\<close> is the part of the world that belongs to the connection.
\<close>

type_synonym service = "nat \<Rightarrow> nat \<Rightarrow> payload_value list \<Rightarrow> payload_value list option"

definition handler_result :: "service \<Rightarrow> nat \<Rightarrow> nat \<Rightarrow> payload_value list \<Rightarrow> int \<Rightarrow> u8 list \<Rightarrow> bool" where
  "handler_result serve fn user_data pvs result out \<longleftrightarrow>
     (case serve fn user_data pvs of None \<Rightarrow> result \<noteq> 0 | Some vs \<Rightarrow> result = 0 \<and> out = encode_payload vs)"

definition handlers_ok :: "(heap \<Rightarrow> bool) \<Rightarrow> ('n \<Rightarrow> 'o) \<Rightarrow> service \<Rightarrow> ('f, 'n) env \<Rightarrow> bool" where
  "handlers_ok reliable obs serve E \<longleftrightarrow>
     (\<forall>fn ctx values cells argc user_data base cap vals pvs h n. decoded base values cells argc cap vals pvs h \<longrightarrow>
        (\<exists>result w h' n'. e_handler E fn ctx (values, cells) argc user_data zero_writer h n = Some (result, w, h', n') \<and>
           writer_inv w h' \<and> writer_frame zero_writer h w h' \<and> (reliable h \<longrightarrow> reliable h') \<and> obs n' = obs n \<and>
           (reliable h \<longrightarrow> handler_result serve fn user_data pvs result (writer_view w h'))))"

definition error_reply :: "string \<Rightarrow> wirecall_op \<times> u8 list" where
  "error_reply message = (WIRECALL_OP_ERROR, encode_payload [P_STRING (message_bytes message)])"

definition sync_reply :: "service \<Rightarrow> wirecall_route \<Rightarrow> u8 list \<Rightarrow> wirecall_op \<times> u8 list" where
  "sync_reply serve r p =
     (case parse_payload p of
        None \<Rightarrow> error_reply ''malformed payload''
      | Some pvs \<Rightarrow>
          (case serve (rt_handler r) (rt_user_data r) pvs of
             None \<Rightarrow> error_reply ''procedure failed''
           | Some vs \<Rightarrow> (WIRECALL_OP_RESPONSE, encode_payload vs)))"

lemma handlers_okD:
  assumes "handlers_ok reliable obs serve E" "decoded base values cells argc cap vals pvs h"
  obtains result w h' n' where "e_handler E fn ctx (values, cells) argc user_data zero_writer h n = Some (result, w, h', n')"
    "writer_inv w h'" "heap_owns (writer_owned w) h h'" "reliable h \<longrightarrow> reliable h'" "obs n' = obs n"
    "reliable h \<longrightarrow> handler_result serve fn user_data pvs result (writer_view w h')"
proof -
  have ok: "heap_ok h" using assms(2) heap_owns_ok by (auto simp: decoded_def)
  obtain result w h' n' where r: "e_handler E fn ctx (values, cells) argc user_data zero_writer h n = Some (result, w, h', n')"
    "writer_inv w h'" "writer_frame zero_writer h w h'" "reliable h \<longrightarrow> reliable h'" "obs n' = obs n"
    "reliable h \<longrightarrow> handler_result serve fn user_data pvs result (writer_view w h')"
    using assms unfolding handlers_ok_def by blast
  show ?thesis using that r writer_frame_zero [OF r(3,2) ok] by blast
qed

lemma conn_open_net [simp]: "conn_open p (v\<lparr>sv_net := n\<rparr>) c = conn_open p v c"
  by (simp add: conn_open_def)

definition args_of :: "nat \<Rightarrow> wirecall_value list \<Rightarrow> nat set" where
  "args_of values vals = set (array_owns vals) \<union> (if values = 0 then {} else {values})"

context library_memory
begin

text \<open>The answer is queued while the arguments \<open>X\<close> are allocated; then they are freed.\<close>

lemma free_args_post:
  assumes d: "decoded h values cells argc cap vals pvs h1"
    and q: "queue_post reliable packet (args_of values vals \<union> B) h0 p c h1 v bs rc c' h2 v'" and disj: "args_of values vals \<inter> B = {}"
  shows "\<exists>h3. wirecall_values_free g values cells h2 = Some h3 \<and> queue_post reliable packet B h0 p c h1 v bs rc c' h3 v'"
proof -
  let ?X = "args_of values vals"
  have k: "heap_keep ?X h1 h2" "heap_ok h2"
    using q conn_ok_heap heap_keep_mono [OF _ Un_upper1] unfolding queue_post_def by blast+
  have "decoded (heap_minus ?X h2) values cells argc cap vals pvs h2"
    using decoded_minus_keep [OF d args_of_def k] .
  then obtain h3 where h3: "wirecall_values_free g values cells h2 = Some h3" "heap_owns {} (heap_minus ?X h2) h3" "reliable h2 \<longrightarrow> reliable h3"
    using values_free_owns by blast
  then show ?thesis using queue_post_release [OF q disj h3(2,3)] by blast
qed

text \<open>The response that a procedure has written is queued, and the writer freed.\<close>

lemma queue_response_post:
  assumes g: "e_g E = g" and c: "conn_open p v c" and ok: "conn_ok B h0 c h" and own: "heap_owns (writer_owned w) h h1" and w: "writer_inv w h1"
    and rel: "reliable h \<longrightarrow> reliable h1" and room: "conn_room (Suc k) c"
  shows "\<exists>data rc c' h2 v' h3 op bs. writer_payload (Some w) h1 = Some data \<and>
    (if result = 0 then queue_packet E p WIRECALL_OP_RESPONSE WIRECALL_FLAG_NONE proc_id call_id data (w_len w) h1 v
     else queue_string_error E p proc_id call_id (message_bytes ''procedure failed'') h1 v) = Some (rc, h2, v') \<and>
    wirecall_writer_free g (Some w) h2 = Some (Some zero_writer, h3) \<and>
    (op, bs) = (if result = 0 then (WIRECALL_OP_RESPONSE, writer_view w h1) else error_reply ''procedure failed'') \<and>
    queue_post reliable (server_packet E v op proc_id call_id) B h0 p c h v bs rc c' h3 v'"
proof -
  note add = conn_ok_add [OF ok own]
  define m where "m = message_bytes ''procedure failed''"
  define op where "op = (if result = 0 then WIRECALL_OP_RESPONSE else WIRECALL_OP_ERROR)"
  define bs where "bs = (if result = 0 then writer_view w h1 else encode_payload [P_STRING m])"
  have op: "op_enum WIRECALL_OP_RESPONSE" by (simp add: op_enum_def)
  have len: "length (writer_view w h1) \<le> WIRECALL_MAX_PAYLOAD_SIZE" "length m \<le> 1000"
    using w by (simp_all add: writer_inv_def writer_ok_def m_def message_bytes_def)
  obtain data where data: "writer_payload (Some w) h1 = Some data" "payload_bytes data = writer_view w h1"
    using writer_payload_Some [of "Some w" h1] w by (auto simp: payload_inv_def payload_of_def)
  let ?r = "if result = 0 then queue_packet E p WIRECALL_OP_RESPONSE WIRECALL_FLAG_NONE proc_id call_id data (w_len w) h1 v
     else queue_string_error E p proc_id call_id m h1 v"
  obtain rc c' h2 v' where q: "?r = Some (rc, h2, v')"
    "queue_post reliable (server_packet E v op proc_id call_id) (writer_owned w \<union> B) h0 p c h1 v bs rc c' h2 v'"
  proof (cases "result = 0")
    case True
    then show ?thesis using that len(1)
        queue_packet_post [OF g c add(1) op data(2) _ _ conn_room_packet [OF room], of "w_len w" proc_id call_id] by (auto simp: op_def bs_def)
  next
    case False
    then show ?thesis using that queue_string_error_post [OF g c add(1) len(2) room, of proc_id call_id] by (auto simp: op_def bs_def)
  qed
  have keep: "heap_keep (writer_owned w \<union> B) h1 h2" "heap_ok h2"
    using q(2) conn_ok_heap unfolding queue_post_def by blast+
  have "writer_inv w h2" using writer_inv_keep [OF w heap_keep_mono [OF keep(1) Un_upper1] keep(2)] .
  then obtain h3 where h3: "wirecall_writer_free g (Some w) h2 = Some (Some zero_writer, h3)" "heap_owns {} (heap_minus (writer_owned w) h2) h3"
    "reliable h2 \<longrightarrow> reliable h3"
    using writer_free_post by blast
  have "queue_post reliable (server_packet E v op proc_id call_id) B h0 p c h1 v bs rc c' h3 v'"
    by (rule queue_post_release [OF q(2) add(4) h3(2,3)])
  then have "queue_post reliable (server_packet E v op proc_id call_id) B h0 p c h v bs rc c' h3 v'"
    by (rule queue_post_rebase) (use add rel in simp_all)
  moreover have "(op, bs) = (if result = 0 then (WIRECALL_OP_RESPONSE, writer_view w h1) else error_reply ''procedure failed'')"
    by (simp add: op_def bs_def error_reply_def m_def)
  ultimately show ?thesis using data(1) q(1) h3(1) unfolding m_def by (intro exI conjI)
qed

lemma handle_sync_call_post:
  assumes g: "e_g E = g" and c: "conn_open p v c" and ok: "conn_ok B h0 c h" and room: "conn_room (Suc k) c"
    and hs: "handlers_ok reliable obs serve E" and size: "unat (h_size header) = length payload" "length payload \<le> WIRECALL_MAX_PAYLOAD_SIZE"
  shows "\<exists>rc c' h' v' n op bs. handle_sync_call E p header route payload h v = Some (rc, h', v') \<and> obs n = obs (sv_net v) \<and>
    (reliable h \<longrightarrow> (op, bs) = sync_reply serve route payload) \<and>
    queue_post reliable (server_packet E v op (h_proc_id header) (h_call_id header)) B h0 p c h (v\<lparr>sv_net := n\<rparr>) bs rc c' h' v'"
proof -
  have hok: "heap_ok h" by (rule conn_ok_heap [OF ok])
  have e: "take (length payload) (payload_bytes (Some payload)) = payload" by (simp add: payload_bytes_def)
  have "payload_ok (Some payload) (length payload)" using size(2) by (simp add: payload_ok_def payload_bytes_def)
  then obtain rc arr n' h1 where d: "wirecall_payload_decode g (Some payload) (length payload) (Some (0, [])) (Some 0) h = Some (rc, arr, n', h1)"
    "rc = 0 \<and> (\<exists>values cells argc cap vals pvs. arr = Some (values, cells) \<and> n' = Some argc \<and>
        decoded h values cells argc cap vals pvs h1 \<and> parse_payload payload = Some pvs) \<or>
     rc = -1 \<and> arr = Some (0, []) \<and> n' = Some 0 \<and> heap_owns {} h h1 \<and> (parse_payload payload = None \<or> \<not> reliable h)"
    "reliable h \<longrightarrow> reliable h1"
    using payload_decode_outcome [OF hok, of "Some payload" "length payload" "(0, [])" 0] unfolding e by blast
  show ?thesis
  proof (cases "rc = 0")
    case False
    then have b: "heap_owns {} h h1" "parse_payload payload = None \<or> \<not> reliable h" using d(2) by simp_all
    note add = conn_ok_add [OF ok b(1), simplified]
    have len: "length (message_bytes ''malformed payload'') \<le> 1000" by (simp add: message_bytes_def)
    obtain rc2 c' h2 v' where q: "queue_string_error E p (h_proc_id header) (h_call_id header) (message_bytes ''malformed payload'') h1 v = Some (rc2, h2, v')"
      "queue_post reliable (server_packet E v WIRECALL_OP_ERROR (h_proc_id header) (h_call_id header)) B h0 p c h1 v
         (encode_payload [P_STRING (message_bytes ''malformed payload'')]) rc2 c' h2 v'"
      using queue_string_error_post [OF g c add(1) len room] by blast
    have "queue_post reliable (server_packet E v WIRECALL_OP_ERROR (h_proc_id header) (h_call_id header)) B h0 p c h v
         (encode_payload [P_STRING (message_bytes ''malformed payload'')]) rc2 c' h2 v'"
      by (rule queue_post_rebase [OF q(2)]) (use add d(3) in simp_all)
    moreover have "handle_sync_call E p header route payload h v = Some (rc2, h2, v')"
      unfolding handle_sync_call_def g size(1) using d(1) False q(1) by simp
    moreover have "reliable h \<longrightarrow> (WIRECALL_OP_ERROR, encode_payload [P_STRING (message_bytes ''malformed payload'')]) = sync_reply serve route payload"
      using b(2) by (auto simp: sync_reply_def error_reply_def)
    ultimately show ?thesis
      by (intro exI [of _ rc2] exI [of _ c'] exI [of _ h2] exI [of _ v'] exI [of _ "sv_net v"] exI [of _ WIRECALL_OP_ERROR]
        exI [of _ "encode_payload [P_STRING (message_bytes ''malformed payload'')]"]) simp
  next
    case True
    then obtain "values" cells argc cap vals pvs where a: "arr = Some (values, cells)" "n' = Some argc"
      "decoded h values cells argc cap vals pvs h1" "parse_payload payload = Some pvs"
      using d(2) by auto
    let ?X = "args_of values vals"
    have X: "heap_owns ?X h h1" using a(3) by (simp add: decoded_def args_of_def)
    note add = conn_ok_add [OF ok X]
    let ?ctx = "\<lparr>cx_call_id = h_call_id header, cx_proc_id = h_proc_id header, cx_server = 0\<rparr>"
    obtain result w h2 n where hr: "e_handler E (rt_handler route) ?ctx (values, cells) argc (rt_user_data route) zero_writer h1 (sv_net v) =
        Some (result, w, h2, n)" "writer_inv w h2" "heap_owns (writer_owned w) h1 h2" "reliable h1 \<longrightarrow> reliable h2" "obs n = obs (sv_net v)"
      "reliable h1 \<longrightarrow> handler_result serve (rt_handler route) (rt_user_data route) pvs result (writer_view w h2)"
      using handlers_okD [OF hs a(3)] by blast
    let ?v = "v\<lparr>sv_net := n\<rparr>"
    have c': "conn_open p ?v c" using c by simp
    obtain data rc2 c2 h3 v' h4 op bs where q: "writer_payload (Some w) h2 = Some data"
      "(if result = 0 then queue_packet E p WIRECALL_OP_RESPONSE WIRECALL_FLAG_NONE (h_proc_id header) (h_call_id header) data (w_len w) h2 ?v
        else queue_string_error E p (h_proc_id header) (h_call_id header) (message_bytes ''procedure failed'') h2 ?v) = Some (rc2, h3, v')"
      "wirecall_writer_free g (Some w) h3 = Some (Some zero_writer, h4)"
      "(op, bs) = (if result = 0 then (WIRECALL_OP_RESPONSE, writer_view w h2) else error_reply ''procedure failed'')"
      "queue_post reliable (server_packet E ?v op (h_proc_id header) (h_call_id header)) (?X \<union> B) h0 p c h1 ?v bs rc2 c2 h4 v'"
      using queue_response_post [OF g c' add(1) hr(3,2,4) room, of result "h_proc_id header" "h_call_id header"] by blast
    obtain h5 where h5: "wirecall_values_free g values cells h4 = Some h5"
      "queue_post reliable (server_packet E ?v op (h_proc_id header) (h_call_id header)) B h0 p c h1 ?v bs rc2 c2 h5 v'"
      using free_args_post [OF a(3) q(5) add(4)] by blast
    have "queue_post reliable (server_packet E ?v op (h_proc_id header) (h_call_id header)) B h0 p c h ?v bs rc2 c2 h5 v'"
      by (rule queue_post_rebase [OF h5(2)]) (use add d(3) in simp_all)
    moreover have "handle_sync_call E p header route payload h v = Some (rc2, h5, v')"
      unfolding handle_sync_call_def g size(1) using d(1) True a(1,2) hr(1) q(1-3) h5(1) by (cases "result = 0") simp_all
    moreover have "reliable h \<longrightarrow> (op, bs) = sync_reply serve route payload"
      using q(4) hr(6) d(3) a(4) by (auto simp: sync_reply_def handler_result_def split: option.splits if_splits)
    ultimately show ?thesis using hr(5) by (intro exI [of _ rc2] exI [of _ c2] exI [of _ h5] exI [of _ v'] exI [of _ n] exI [of _ op] exI [of _ bs]) simp
  qed
qed

end


section \<open>Packets\<close>

text \<open>The blocks \<open>A\<close> hold the routes of the table \<open>m\<close>, and no lookup is under way.\<close>

definition routes_known :: "nat set \<Rightarrow> (u64 \<Rightarrow> wirecall_route option) \<Rightarrow> heap \<Rightarrow> 'n wirecall_server \<Rightarrow> bool" where
  "routes_known A m h v \<longleftrightarrow> A \<subseteq> live h \<and> table_ok (heap_minus A h) m ((sv_routes v)\<lparr>r_heap := h\<rparr>)"

lemma routes_known_keep:
  assumes k: "routes_known A m h v" and "heap_keep A h h'" "heap_ok h'" "(sv_routes v')\<lparr>r_heap := h'\<rparr> = (sv_routes v)\<lparr>r_heap := h'\<rparr>"
  shows "routes_known A m h' v'"
proof -
  let ?s = "(sv_routes v)\<lparr>r_heap := h\<rparr>"
  obtain C where C: "routes_inv (heap_minus A h) C [] [] ?s" "m = tbl (r_nodes ?s) C" "rs_active_readers (r_table ?s) = 0" "A \<subseteq> live h"
    using k by (auto simp: routes_known_def table_ok_def)
  have "heap_owns (blocks C [] []) (heap_minus A h) h" using routes_inv_owns [OF C(1)] by simp
  then have B: "blocks C [] [] = A" using C(4) by (auto simp: heap_owns_def)
  have l: "A \<subseteq> live h'" using C(4) assms(2) by (auto simp: heap_keep_def live_def subset_iff)
  then have "heap_owns A (heap_minus A h') h'" by (rule heap_minus_owns [OF assms(3)])
  then have "routes_inv (heap_minus A h') C [] [] ((sv_routes v)\<lparr>r_heap := h'\<rparr>)"
    using C(1) B by (simp add: routes_inv_def)
  then show ?thesis unfolding routes_known_def table_ok_def assms(4) using C(2,3) l by auto
qed

lemma lookup_same:
  assumes ok: "table_ok h0 m s"
  shows "\<exists>out. wirecall_routes_lookup g ROUTES i (Some r0) s = Some (if m i = None then -1 else 0, Some out, s) \<and>
    (case m i of None \<Rightarrow> True | Some r \<Rightarrow> out\<lparr>rt_next := 0\<rparr> = r)"
proof -
  obtain C where C: "routes_inv h0 C [] [] s" "m = tbl (r_nodes s) C" and idle: "rs_active_readers (r_table s) = 0"
    using ok by (auto simp: table_ok_def)
  let ?s = "lookup_enter s"
  have inv: "routes_inv h0 C [] [] ?s" using routes_inv_table [OF C(1)] by (simp add: lookup_enter_def)
  have s1: "r_nodes ?s = r_nodes s" by (simp add: lookup_enter_def)
  obtain p where p: "lookup_load i ?s = Some p" "chain (r_nodes ?s) p (C (home i))" using lookup_load_inv [OF inv] by blast
  obtain q where q: "lookup_walk i p ?s = Some q"
    "if q = 0 then m i = None else q \<in> set (C (home i)) \<and> m i = Some (content (r_nodes s) q)"
    using lookup_walk_chain [OF p(2) routes_inv_chain_live [OF inv], of i] unfolding s1 C(2) tbl_def by blast
  have r0: "rs_retired (r_table s) = 0" using C(1) by (simp add: routes_inv_def)
  have "s\<lparr>r_table := (r_table s)\<lparr>rs_active_readers := 0, rs_retired := 0\<rparr>\<rparr> = s" using r0 idle by (cases s, cases "r_table s") simp
  then have leave: "lookup_leave g ?s = Some s"
    using r0 idle by (simp add: lookup_leave_def lookup_enter_def free_retired_def Let_def free_retired_loop.simps)
  have get: "q \<noteq> 0 \<Longrightarrow> node_get q ?s = Some (r_nodes s q)"
    using q(2) routes_inv_chain_live [OF inv, of "home i"] s1 by (simp add: subset_iff)
  show ?thesis
    using p(1) q leave get by (cases "q = 0") (auto simp: wirecall_routes_lookup_def ROUTES_def content_def)
qed

text \<open>What is answered to a packet, if anything: the operation, the procedure id and the payload.\<close>

definition reply_of :: "service \<Rightarrow> (u64 \<Rightarrow> wirecall_route option) \<Rightarrow> wirecall_header \<Rightarrow> u8 list \<Rightarrow> (wirecall_op \<times> u64 \<times> u8 list) option" where
  "reply_of serve m header payload =
     (let i = h_proc_id header; reply = (\<lambda>(op, bs). Some (op, i, bs))
      in if h_op header = WIRECALL_OP_RPC then
           (case m i of None \<Rightarrow> reply (error_reply ''unknown procedure'') | Some r \<Rightarrow> reply (sync_reply serve r payload))
         else if h_op header = WIRECALL_OP_PING then Some (WIRECALL_OP_RESPONSE, 0, [])
         else if h_op header = WIRECALL_OP_DISCONNECT then None
         else reply (error_reply ''unsupported operation''))"

text \<open>A reply on the wire, with the id of the call.\<close>

definition reply_wire :: "bool \<Rightarrow> u32 \<Rightarrow> u8 list \<Rightarrow> u64 \<Rightarrow> (wirecall_op \<times> u64 \<times> u8 list) option \<Rightarrow> u8 list \<Rightarrow> bool" where
  "reply_wire be integrity key call_id reply out \<longleftrightarrow>
     (case reply of
        None \<Rightarrow> out = []
      | Some (op, proc_id, bs) \<Rightarrow> \<exists>header. wire_packet be integrity key op proc_id call_id bs header \<and> out = header_bytes header @ bs)"

text \<open>Connection \<open>p\<close> is open and can be served with the routes \<open>m\<close>.\<close>

definition serving ::
  "nat set \<Rightarrow> (u64 \<Rightarrow> wirecall_route option) \<Rightarrow> heap \<Rightarrow> nat \<Rightarrow> wirecall_connection \<Rightarrow> ('f, 'n wirecall_server) sched \<Rightarrow> bool" where
  "serving A m h0 p c s \<longleftrightarrow> conn_open p (s_world s) c \<and> conn_ok A h0 c (s_heap s) \<and> routes_known A m (s_heap s) (s_world s)"

text \<open>What changes in the connection, the server and the rest of the state while packets are handled.\<close>

definition serve_frame ::
  "(heap \<Rightarrow> bool) \<Rightarrow> ('n \<Rightarrow> 'o) \<Rightarrow> wirecall_connection \<Rightarrow> ('f, 'n wirecall_server) sched \<Rightarrow> wirecall_connection \<Rightarrow> ('f, 'n wirecall_server) sched \<Rightarrow> bool" where
  "serve_frame reliable obs c s c' s' \<longleftrightarrow>
     conn_like (c\<lparr>cn_closing := cn_closing c'\<rparr>) c' \<and> conn_in c' (s_heap s') = conn_in c (s_heap s) \<and>
     obs (sv_net (s_world s')) = obs (sv_net (s_world s)) \<and> sv_integrity (s_world s') = sv_integrity (s_world s) \<and>
     sv_mac_key (s_world s') = sv_mac_key (s_world s) \<and> (reliable (s_heap s) \<longrightarrow> reliable (s_heap s')) \<and>
     s' = s\<lparr>s_heap := s_heap s', s_world := s_world s'\<rparr>"

definition handle_post ::
  "(heap \<Rightarrow> bool) \<Rightarrow> ('n \<Rightarrow> 'o) \<Rightarrow> (wirecall_op \<times> u64 \<times> u8 list) option \<Rightarrow> bool \<Rightarrow> u64 \<Rightarrow> bool \<Rightarrow> nat set \<Rightarrow> (u64 \<Rightarrow> wirecall_route option) \<Rightarrow>
     heap \<Rightarrow> nat \<Rightarrow> wirecall_connection \<Rightarrow> ('f, 'n wirecall_server) sched \<Rightarrow> int \<Rightarrow> wirecall_connection \<Rightarrow> ('f, 'n wirecall_server) sched \<Rightarrow> bool" where
  "handle_post reliable obs reply be call_id closing A m h0 p c s rc c' s' \<longleftrightarrow>
     serving A m h0 p c' s' \<and> serve_frame reliable obs c s c' s' \<and> cn_closing c' = closing \<and>
     cn_write_len c' \<le> cn_write_len c + (WIRECALL_HEADER_SIZE + WIRECALL_MAX_PAYLOAD_SIZE) \<and>
     (rc = 0 \<or> rc = -1 \<and> \<not> reliable (s_heap s)) \<and>
     (\<exists>out. conn_out c' (s_heap s') = conn_out c (s_heap s) @ out \<and>
        (reliable (s_heap s) \<longrightarrow> reply_wire be (sv_integrity (s_world s)) (sv_mac_key (s_world s)) call_id reply out))"


lemma conn_open_writes: "conn_open p (set_writes i q (set_conn p c' v)) c' \<longleftrightarrow>
    p \<noteq> 0 \<and> \<not> cn_detached c' \<and> 0 \<le> cn_fd c' \<and> sv_worker v (cn_worker c') \<noteq> None \<and> length (sv_mac_key v) = 16"
  by (simp add: conn_open_def)

text \<open>From what has been queued to what the handler of a packet promises.\<close>

lemma handle_post_queue:
  assumes s: "serving A m h0 p c s" and v: "v = (s_world s)\<lparr>sv_net := n, sv_routes := r\<rparr>" "obs n = obs (sv_net (s_world s))"
    "r\<lparr>r_heap := h'\<rparr> = (sv_routes (s_world s))\<lparr>r_heap := h'\<rparr>"
    and q: "queue_post reliable packet A h0 p c (s_heap s) v bs rc c' h' v'"
    and wire: "reliable (s_heap s) \<Longrightarrow> reply = Some (op, proc_id, bs) \<and>
      packet = wire_packet be (sv_integrity (s_world s)) (sv_mac_key (s_world s)) op proc_id call_id"
  shows "handle_post reliable obs reply be call_id (cn_closing c) A m h0 p c s rc c' (s\<lparr>s_heap := h', s_world := v'\<rparr>)"
proof -
  have o: "conn_open p (s_world s) c" "routes_known A m (s_heap s) (s_world s)" using s by (simp_all add: serving_def)
  obtain k where v': "v' = set_writes (cn_worker c) k (set_conn p c' v)" using q unfolding queue_post_def by blast
  have l: "conn_like c c'" "conn_ok A h0 c' h'" "heap_keep A (s_heap s) h'" "conn_in c' h' = conn_in c (s_heap s)"
    "reliable (s_heap s) \<longrightarrow> reliable h'" "cn_write_len c' \<le> cn_write_len c + (WIRECALL_HEADER_SIZE + WIRECALL_MAX_PAYLOAD_SIZE)"
    using q unfolding queue_post_def by blast+
  have out: "rc = 0 \<and> (\<exists>header. packet bs header \<and> conn_out c' h' = conn_out c (s_heap s) @ header_bytes header @ bs) \<or>
      rc = -1 \<and> \<not> reliable (s_heap s) \<and> (\<exists>xs. conn_out c' h' = conn_out c (s_heap s) @ xs)"
    using q append_Nil2 unfolding queue_post_def by metis
  have "conn_open p v' c'" unfolding v' conn_open_writes using o(1) l(1) v(1) by (simp add: conn_open_def conn_like_def)
  moreover have "routes_known A m h' v'"
    by (rule routes_known_keep [OF o(2) l(3) conn_ok_heap [OF l(2)]]) (simp add: v' v)
  moreover have "conn_like (c\<lparr>cn_closing := cn_closing c'\<rparr>) c'" "cn_closing c' = cn_closing c" using l(1) by (simp_all add: conn_like_def)
  moreover have "obs (sv_net v') = obs (sv_net (s_world s))" "sv_integrity v' = sv_integrity (s_world s)" "sv_mac_key v' = sv_mac_key (s_world s)"
    using v by (simp_all add: v')
  ultimately show ?thesis
    using l out wire unfolding handle_post_def serving_def serve_frame_def by (auto simp: reply_wire_def)
qed

context library_memory
begin

lemma handle_post_error:
  assumes g: "e_g E = g" and s: "serving A m h0 p c s" and room: "conn_room (Suc k) c" and len: "length message \<le> 1000"
  shows "\<exists>rc c' s'. on_server (queue_string_error E p proc_id call_id (message_bytes message)) s = Some (rc, s') \<and>
    handle_post reliable obs (Some (WIRECALL_OP_ERROR, proc_id, encode_payload [P_STRING (message_bytes message)])) (e_be E) call_id (cn_closing c)
      A m h0 p c s rc c' s'"
proof -
  have o: "conn_open p (s_world s) c" "conn_ok A h0 c (s_heap s)" "length (message_bytes message) \<le> 1000"
    using s len by (simp_all add: serving_def message_bytes_def)
  obtain rc c' h' v' where q: "queue_string_error E p proc_id call_id (message_bytes message) (s_heap s) (s_world s) = Some (rc, h', v')"
    "queue_post reliable (server_packet E (s_world s) WIRECALL_OP_ERROR proc_id call_id) A h0 p c (s_heap s) (s_world s)
       (encode_payload [P_STRING (message_bytes message)]) rc c' h' v'"
    using queue_string_error_post [OF g o room] by blast
  have "handle_post reliable obs (Some (WIRECALL_OP_ERROR, proc_id, encode_payload [P_STRING (message_bytes message)])) (e_be E) call_id (cn_closing c)
      A m h0 p c s rc c' (s\<lparr>s_heap := h', s_world := v'\<rparr>)"
    by (rule handle_post_queue [OF s _ _ _ q(2)]) auto
  then show ?thesis using q(1) by (auto simp: on_server_def)
qed

end


text \<open>A request for a procedure that is answered at once.\<close>

definition answered_at_once :: "(u64 \<Rightarrow> wirecall_route option) \<Rightarrow> wirecall_header \<Rightarrow> bool" where
  "answered_at_once m header \<longleftrightarrow>
     (h_op header = WIRECALL_OP_RPC \<longrightarrow> (case m (h_proc_id header) of None \<Rightarrow> True | Some r \<Rightarrow> \<not> rt_is_deferred r \<and> \<not> rt_is_async r))"

lemma server_lookup_known:
  assumes "routes_known A m h v"
  shows "\<exists>out. server_lookup E i h v = Some ((if m i = None then -1 else 0, Some out), h, v\<lparr>sv_routes := (sv_routes v)\<lparr>r_heap := h\<rparr>\<rparr>) \<and>
    (case m i of None \<Rightarrow> True | Some r \<Rightarrow> out\<lparr>rt_next := 0\<rparr> = r)"
  using assms lookup_same [of "heap_minus A h" m "(sv_routes v)\<lparr>r_heap := h\<rparr>" "e_g E" i zero_route]
  by (auto simp: server_lookup_def routes_known_def)

lemma serving_lookup:
  "serving A m h0 p c s \<Longrightarrow>
     serving A m h0 p c (s\<lparr>s_world := (s_world s)\<lparr>sv_routes := (sv_routes (s_world s))\<lparr>r_heap := s_heap s\<rparr>\<rparr>\<rparr>)"
  by (simp add: serving_def conn_open_def routes_known_def)

lemma handle_post_lookup:
  "handle_post reliable obs reply be call_id closing A m h0 p c (s\<lparr>s_world := (s_world s)\<lparr>sv_routes := r\<rparr>\<rparr>) rc c' s' \<Longrightarrow>
     handle_post reliable obs reply be call_id closing A m h0 p c s rc c' s'"
  by (auto simp: handle_post_def serve_frame_def)

context library_memory
begin

lemma handle_rpc_post:
  assumes g: "e_g E = g" and s: "serving A m h0 p c s" and room: "conn_room (Suc k) c" and hs: "handlers_ok reliable obs serve E"
    and size: "unat (h_size header) = length payload" "length payload \<le> WIRECALL_MAX_PAYLOAD_SIZE"
    and op: "h_op header = WIRECALL_OP_RPC" "answered_at_once m header"
  shows "\<exists>rc c' s'. handle_rpc E p header payload s = Some (rc, s') \<and>
    handle_post reliable obs (reply_of serve m header payload) (e_be E) (h_call_id header) (cn_closing c) A m h0 p c s rc c' s'"
proof -
  let ?i = "h_proc_id header" and ?v = "(s_world s)\<lparr>sv_routes := (sv_routes (s_world s))\<lparr>r_heap := s_heap s\<rparr>\<rparr>"
  let ?s = "s\<lparr>s_world := (s_world s)\<lparr>sv_routes := (sv_routes (s_world s))\<lparr>r_heap := s_heap s\<rparr>\<rparr>\<rparr>"
  obtain out where l: "server_lookup E ?i (s_heap s) (s_world s) = Some ((if m ?i = None then -1 else 0, Some out), s_heap s, ?v)"
    "case m ?i of None \<Rightarrow> True | Some r \<Rightarrow> out\<lparr>rt_next := 0\<rparr> = r"
    using server_lookup_known [of A m "s_heap s" "s_world s" E ?i] s by (auto simp: serving_def)
  have s1: "serving A m h0 p c ?s" by (rule serving_lookup [OF s])
  have on: "on_server (server_lookup E ?i) s = Some ((if m ?i = None then -1 else 0, Some out), ?s)" using l(1) by (simp add: on_server_def)
  show ?thesis
  proof (cases "m ?i")
    case None
    have len: "length ''unknown procedure'' \<le> 1000" by simp
    obtain rc c' s' where e: "on_server (queue_string_error E p ?i (h_call_id header) (message_bytes ''unknown procedure'')) ?s = Some (rc, s')"
      "handle_post reliable obs (Some (WIRECALL_OP_ERROR, ?i, encode_payload [P_STRING (message_bytes ''unknown procedure'')])) (e_be E)
         (h_call_id header) (cn_closing c) A m h0 p c ?s rc c' s'"
      using handle_post_error [OF g s1 room len, of ?i "h_call_id header" obs] by blast
    have "reply_of serve m header payload = Some (WIRECALL_OP_ERROR, ?i, encode_payload [P_STRING (message_bytes ''unknown procedure'')])"
      using None op(1) by (simp add: reply_of_def error_reply_def)
    then show ?thesis using e handle_post_lookup [OF e(2)] on None by (auto simp: handle_rpc_def)
  next
    case (Some r)
    then have r: "\<not> rt_is_deferred out" "\<not> rt_is_async out" "rt_handler out = rt_handler r" "rt_user_data out = rt_user_data r"
      using l(2) op by (auto simp: answered_at_once_def)
    have o: "conn_open p ?v c" "conn_ok A h0 c (s_heap s)" using s1 by (simp_all add: serving_def)
    obtain rc c' h' v' n op' bs where q: "handle_sync_call E p header out payload (s_heap s) ?v = Some (rc, h', v')" "obs n = obs (sv_net ?v)"
      "reliable (s_heap s) \<longrightarrow> (op', bs) = sync_reply serve out payload"
      "queue_post reliable (server_packet E ?v op' ?i (h_call_id header)) A h0 p c (s_heap s) (?v\<lparr>sv_net := n\<rparr>) bs rc c' h' v'"
      using handle_sync_call_post [OF g o room hs size, of out] by blast
    have eq: "sync_reply serve out payload = sync_reply serve r payload" using r(3,4) by (simp only: sync_reply_def)
    have "handle_post reliable obs (reply_of serve m header payload) (e_be E) (h_call_id header) (cn_closing c) A m h0 p c ?s rc c'
        (?s\<lparr>s_heap := h', s_world := v'\<rparr>)"
    proof (rule handle_post_queue [OF s1 _ _ _, where n = n and r = "sv_routes ?v" and v = "?v\<lparr>sv_net := n\<rparr>"])
      show "queue_post reliable (server_packet E ?v op' ?i (h_call_id header)) A h0 p c (s_heap ?s) (?v\<lparr>sv_net := n\<rparr>) bs rc c' h' v'"
        using q(4) by simp
    next
      assume "reliable (s_heap ?s)"
      then have "sync_reply serve r payload = (op', bs)" using q(3) eq by simp
      then show "reply_of serve m header payload = Some (op', ?i, bs) \<and> server_packet E ?v op' ?i (h_call_id header) =
          wire_packet (e_be E) (sv_integrity (s_world ?s)) (sv_mac_key (s_world ?s)) op' ?i (h_call_id header)"
        using Some op(1) by (simp add: reply_of_def)
    qed (use q(2) in simp_all)
    moreover have "handle_rpc E p header payload s = Some (rc, ?s\<lparr>s_heap := h', s_world := v'\<rparr>)"
      unfolding handle_rpc_def on using Some r(1,2) q(1) by (simp add: on_server_def)
    ultimately show ?thesis using handle_post_lookup by blast
  qed
qed

lemma handle_packet_post:
  assumes g: "e_g E = g" and s: "serving A m h0 p c s" and room: "conn_room (Suc k) c" and hs: "handlers_ok reliable obs serve E"
    and size: "unat (h_size header) = length payload" "length payload \<le> WIRECALL_MAX_PAYLOAD_SIZE"
    and op: "answered_at_once m header"
  shows "\<exists>rc c' s'. handle_packet E p header payload s = Some (rc, s') \<and>
    handle_post reliable obs (reply_of serve m header payload) (e_be E) (h_call_id header) (cn_closing c \<or> h_op header = WIRECALL_OP_DISCONNECT)
      A m h0 p c s rc c' s'"
proof -
  have o: "conn_open p (s_world s) c" "conn_ok A h0 c (s_heap s)" "sv_conns (s_world s) p = Some c"
    using s by (simp_all add: serving_def conn_open_def)
  consider "h_op header = WIRECALL_OP_RPC" | "h_op header = WIRECALL_OP_PING" | "h_op header = WIRECALL_OP_DISCONNECT"
    | "h_op header \<notin> {WIRECALL_OP_RPC, WIRECALL_OP_PING, WIRECALL_OP_DISCONNECT}" by blast
  then show ?thesis
  proof cases
    case 1
    then have "handle_packet E p header payload s = handle_rpc E p header payload s" "h_op header \<noteq> WIRECALL_OP_DISCONNECT"
      by (simp_all add: handle_packet_def op_defs)
    then show ?thesis using handle_rpc_post [OF g s room hs size 1 op] by simp
  next
    case 2
    have resp: "op_enum WIRECALL_OP_RESPONSE" "payload_bytes None = []" "0 = length ([] :: u8 list)" "length ([] :: u8 list) \<le> WIRECALL_MAX_PAYLOAD_SIZE"
      by (simp_all add: op_enum_def payload_bytes_def)
    obtain rc c' h' v' where q: "queue_packet E p WIRECALL_OP_RESPONSE WIRECALL_FLAG_NONE 0 (h_call_id header) None 0 (s_heap s) (s_world s) = Some (rc, h', v')"
      "queue_post reliable (server_packet E (s_world s) WIRECALL_OP_RESPONSE 0 (h_call_id header)) A h0 p c (s_heap s) (s_world s) [] rc c' h' v'"
      using queue_packet_post [OF g o(1,2) resp conn_room_packet [OF room resp(4)]] by blast
    have reply: "reply_of serve m header payload = Some (WIRECALL_OP_RESPONSE, 0, [])" "h_op header \<noteq> WIRECALL_OP_DISCONNECT"
      using 2 by (simp_all add: reply_of_def op_defs)
    have "handle_post reliable obs (reply_of serve m header payload) (e_be E) (h_call_id header) (cn_closing c) A m h0 p c s rc c'
        (s\<lparr>s_heap := h', s_world := v'\<rparr>)"
      unfolding reply by (rule handle_post_queue [OF s _ _ _ q(2)]) auto
    moreover have "handle_packet E p header payload s = Some (rc, s\<lparr>s_heap := h', s_world := v'\<rparr>)"
      using 2 q(1) by (simp add: handle_packet_def on_server_def op_defs)
    ultimately show ?thesis using reply(2) by auto
  next
    case 3
    let ?c = "c\<lparr>cn_closing := True\<rparr>" and ?s = "s\<lparr>s_world := set_conn p (c\<lparr>cn_closing := True\<rparr>) (s_world s)\<rparr>"
    have "handle_packet E p header payload s = Some (0, ?s)"
      using 3 conn_upd_Some [OF o(3)] by (simp add: handle_packet_def connection_close_def op_defs)
    moreover have "serving A m h0 p ?c ?s" using s by (simp add: serving_def conn_open_def routes_known_def)
    then have "handle_post reliable obs (reply_of serve m header payload) (e_be E) (h_call_id header) True A m h0 p c s 0 ?c ?s"
      using 3 by (simp add: handle_post_def serve_frame_def conn_like_def reply_of_def reply_wire_def op_defs)
    ultimately show ?thesis using 3 by auto
  next
    case 4
    have len: "length ''unsupported operation'' \<le> 1000" by simp
    have "reply_of serve m header payload = Some (WIRECALL_OP_ERROR, h_proc_id header, encode_payload [P_STRING (message_bytes ''unsupported operation'')])"
      using 4 by (simp add: reply_of_def error_reply_def)
    moreover have "handle_packet E p header payload s =
        on_server (queue_string_error E p (h_proc_id header) (h_call_id header) (message_bytes ''unsupported operation'')) s"
      using 4 by (simp add: handle_packet_def)
    ultimately show ?thesis using handle_post_error [OF g s room len, of "h_proc_id header" "h_call_id header" obs] 4 by simp
  qed
qed

end


section \<open>Streams\<close>

lemma serve_frame_trans:
  assumes "serve_frame reliable obs c s c1 s1" "serve_frame reliable obs c1 s1 c2 s2"
  shows "serve_frame reliable obs c s c2 s2"
proof -
  have "s2 = s1\<lparr>s_heap := s_heap s2, s_world := s_world s2\<rparr>" "s1 = s\<lparr>s_heap := s_heap s1, s_world := s_world s1\<rparr>"
    using assms unfolding serve_frame_def by blast+
  then have "s2 = s\<lparr>s_heap := s_heap s2, s_world := s_world s2\<rparr>" by (cases s, cases s1, cases s2) simp
  then show ?thesis using assms by (simp add: serve_frame_def conn_like_def)
qed

text \<open>
  The answers \<open>outs\<close> to the packets \<open>ps\<close>, and whether the connection is to be closed.
\<close>

definition replies :: "service \<Rightarrow> (u64 \<Rightarrow> wirecall_route option) \<Rightarrow> bool \<Rightarrow> u32 \<Rightarrow> u8 list \<Rightarrow> (wirecall_header \<times> u8 list) list \<Rightarrow> u8 list list \<Rightarrow> bool" where
  "replies serve m be integrity key ps outs \<longleftrightarrow>
     list_all2 (\<lambda>(header, payload) out. reply_wire be integrity key (h_call_id header) (reply_of serve m header payload) out) ps outs"

definition disconnects :: "(wirecall_header \<times> u8 list) list \<Rightarrow> bool" where
  "disconnects ps \<longleftrightarrow> (\<exists>(header, payload) \<in> set ps. h_op header = WIRECALL_OP_DISCONNECT)"

definition stream_post ::
  "(heap \<Rightarrow> bool) \<Rightarrow> ('n \<Rightarrow> 'o) \<Rightarrow> service \<Rightarrow> bool \<Rightarrow> nat set \<Rightarrow> (u64 \<Rightarrow> wirecall_route option) \<Rightarrow> heap \<Rightarrow> nat \<Rightarrow> wirecall_connection \<Rightarrow>
     ('f, 'n wirecall_server) sched \<Rightarrow> (wirecall_header \<times> u8 list) list \<Rightarrow> bool \<Rightarrow> wirecall_connection \<Rightarrow> ('f, 'n wirecall_server) sched \<Rightarrow> bool" where
  "stream_post reliable obs serve be A m h0 p c s ps bad c' s' \<longleftrightarrow>
     serving A m h0 p c' s' \<and> cn_write_len c' \<le> cn_write_len c + length ps * (WIRECALL_HEADER_SIZE + WIRECALL_MAX_PAYLOAD_SIZE) \<and>
     (\<exists>outs. conn_out c' (s_heap s') = conn_out c (s_heap s) @ concat outs \<and>
        (reliable (s_heap s) \<longrightarrow> replies serve m be (sv_integrity (s_world s)) (sv_mac_key (s_world s)) ps outs)) \<and>
     cn_closing c' = (cn_closing c \<or> bad \<or> disconnects ps)"

lemma serving_close:
  assumes "serving A m h0 p c s"
  shows "connection_close p s = Some (s\<lparr>s_world := set_conn p (c\<lparr>cn_closing := True\<rparr>) (s_world s)\<rparr>)"
    "serving A m h0 p (c\<lparr>cn_closing := True\<rparr>) (s\<lparr>s_world := set_conn p (c\<lparr>cn_closing := True\<rparr>) (s_world s)\<rparr>)"
    "serve_frame reliable obs c s (c\<lparr>cn_closing := True\<rparr>) (s\<lparr>s_world := set_conn p (c\<lparr>cn_closing := True\<rparr>) (s_world s)\<rparr>)"
  using assms by (simp_all add: connection_close_def conn_upd_Some serving_def conn_open_def routes_known_def serve_frame_def conn_like_def)

text \<open>Nothing but the mark for closing has changed.\<close>

lemma stream_post_stop:
  assumes "serving A m h0 p (c\<lparr>cn_closing := b\<rparr>) s'" "s_heap s' = s_heap s" "b = (cn_closing c \<or> bad)"
  shows "stream_post reliable obs serve be A m h0 p c s [] bad (c\<lparr>cn_closing := b\<rparr>) s'"
  using assms by (auto simp: stream_post_def replies_def disconnects_def intro: exI [of _ "[]"])

lemma stream_post_Cons:
  assumes h: "handle_post reliable obs (reply_of serve m header payload) be (h_call_id header) (cn_closing c \<or> h_op header = WIRECALL_OP_DISCONNECT)
      A m h0 p c s rc c1 s1"
    and st: "stream_post reliable obs serve be A m h0 p c1 s1 ps bad c' s'"
  shows "stream_post reliable obs serve be A m h0 p c s ((header, payload) # ps) bad c' s'"
proof -
  obtain out where out: "conn_out c1 (s_heap s1) = conn_out c (s_heap s) @ out"
    "reliable (s_heap s) \<longrightarrow> reply_wire be (sv_integrity (s_world s)) (sv_mac_key (s_world s)) (h_call_id header) (reply_of serve m header payload) out"
    using h unfolding handle_post_def by blast
  have same: "sv_integrity (s_world s1) = sv_integrity (s_world s)" "sv_mac_key (s_world s1) = sv_mac_key (s_world s)"
    "reliable (s_heap s) \<longrightarrow> reliable (s_heap s1)" "cn_closing c1 = (cn_closing c \<or> h_op header = WIRECALL_OP_DISCONNECT)"
    "cn_write_len c1 \<le> cn_write_len c + (WIRECALL_HEADER_SIZE + WIRECALL_MAX_PAYLOAD_SIZE)"
    using h unfolding handle_post_def serve_frame_def by blast+
  obtain outs where outs: "conn_out c' (s_heap s') = conn_out c1 (s_heap s1) @ concat outs"
    "reliable (s_heap s1) \<longrightarrow> replies serve m be (sv_integrity (s_world s1)) (sv_mac_key (s_world s1)) ps outs"
    using st unfolding stream_post_def by blast
  have "conn_out c' (s_heap s') = conn_out c (s_heap s) @ concat (out # outs) \<and>
      (reliable (s_heap s) \<longrightarrow> replies serve m be (sv_integrity (s_world s)) (sv_mac_key (s_world s)) ((header, payload) # ps) (out # outs))"
    using out outs same(1-3) by (simp add: replies_def)
  then show ?thesis using st same(3-5) unfolding stream_post_def
    by (intro conjI exI [of _ "out # outs"]) (auto simp: disconnects_def)
qed


lemma conn_room_step:
  "conn_room (Suc k) c \<Longrightarrow> cn_write_len c1 \<le> cn_write_len c + (WIRECALL_HEADER_SIZE + WIRECALL_MAX_PAYLOAD_SIZE) \<Longrightarrow> conn_room k c1"
  by (simp add: conn_room_def)

definition all_at_once :: "(u64 \<Rightarrow> wirecall_route option) \<Rightarrow> (wirecall_header \<times> u8 list) list \<Rightarrow> bool" where
  "all_at_once m ps \<longleftrightarrow> list_all (\<lambda>(header, payload). answered_at_once m header) ps"

definition parse_post ::
  "(heap \<Rightarrow> bool) \<Rightarrow> ('n \<Rightarrow> 'o) \<Rightarrow> service \<Rightarrow> bool \<Rightarrow> nat set \<Rightarrow> (u64 \<Rightarrow> wirecall_route option) \<Rightarrow> heap \<Rightarrow> nat \<Rightarrow> wirecall_connection \<Rightarrow>
     ('f, 'n wirecall_server) sched \<Rightarrow> (wirecall_header \<times> u8 list) list \<Rightarrow> u8 list \<Rightarrow> bool \<Rightarrow> nat \<Rightarrow> nat \<Rightarrow>
     wirecall_connection \<Rightarrow> ('f, 'n wirecall_server) sched \<Rightarrow> bool" where
  "parse_post reliable obs serve be A m h0 p c s ps rest bad off off' c' s' \<longleftrightarrow>
     off \<le> off' \<and> off' \<le> cn_read_len c \<and> serve_frame reliable obs c s c' s' \<and>
     (\<exists>ps' bad'. length ps' \<le> length ps \<and> stream_post reliable obs serve be A m h0 p c s ps' bad' c' s' \<and>
        (reliable (s_heap s) \<or> \<not> cn_closing c' \<longrightarrow> ps' = ps \<and> bad' = bad \<and> drop off' (conn_in c (s_heap s)) = rest))"

lemma parse_post_stop:
  assumes "serving A m h0 p (c\<lparr>cn_closing := b\<rparr>) s'" "serve_frame reliable obs c s (c\<lparr>cn_closing := b\<rparr>) s'" "s_heap s' = s_heap s"
    and "b = (cn_closing c \<or> bad)" "off \<le> cn_read_len c"
  shows "parse_post reliable obs serve be A m h0 p c s [] (drop off (conn_in c (s_heap s))) bad off off (c\<lparr>cn_closing := b\<rparr>) s'"
  unfolding parse_post_def using stream_post_stop [OF assms(1,3,4)] assms(2,5) by (intro conjI exI [of _ "[]"] exI [of _ bad]) simp_all

lemma serve_frame_refl [simp]: "serve_frame reliable obs c s c s"
  by (simp add: serve_frame_def)

lemma parse_post_Cons:
  assumes h: "handle_post reliable obs (reply_of serve m header payload) be (h_call_id header) (cn_closing c \<or> h_op header = WIRECALL_OP_DISCONNECT)
      A m h0 p c s rc c1 s1"
    and pp: "parse_post reliable obs serve be A m h0 p c1 s1 ps rest bad off1 off' c' s'" and "off \<le> off1"
  shows "parse_post reliable obs serve be A m h0 p c s ((header, payload) # ps) rest bad off off' c' s'"
proof -
  have f: "serve_frame reliable obs c s c1 s1" using h by (simp add: handle_post_def)
  have f1: "serve_frame reliable obs c1 s1 c' s'" using pp by (simp add: parse_post_def)
  have eq: "cn_read_len c1 = cn_read_len c" "conn_in c1 (s_heap s1) = conn_in c (s_heap s)" "reliable (s_heap s) \<longrightarrow> reliable (s_heap s1)"
    using f by (simp_all add: serve_frame_def conn_like_def)
  obtain ps' bad' where p: "length ps' \<le> length ps" "stream_post reliable obs serve be A m h0 p c1 s1 ps' bad' c' s'"
    "reliable (s_heap s1) \<or> \<not> cn_closing c' \<longrightarrow> ps' = ps \<and> bad' = bad \<and> drop off' (conn_in c1 (s_heap s1)) = rest"
    using pp unfolding parse_post_def by blast
  show ?thesis unfolding parse_post_def
    using stream_post_Cons [OF h p(2)] p(1,3) serve_frame_trans [OF f f1] pp assms(3) eq
    by (intro conjI exI [of _ "(header, payload) # ps'"] exI [of _ bad']) (simp_all add: parse_post_def)
qed

context library_memory
begin

text \<open>A packet that cannot be answered for lack of memory ends the loop.\<close>

lemma parse_post_fail:
  assumes h: "handle_post reliable obs (reply_of serve m header payload) be (h_call_id header) (cn_closing c \<or> h_op header = WIRECALL_OP_DISCONNECT)
      A m h0 p c s rc c1 s1" and "rc \<noteq> 0" "off \<le> cn_read_len c"
  shows "connection_close p s1 = Some (s1\<lparr>s_world := set_conn p (c1\<lparr>cn_closing := True\<rparr>) (s_world s1)\<rparr>)"
    "parse_post reliable obs serve be A m h0 p c s ((header, payload) # ps) rest bad off off (c1\<lparr>cn_closing := True\<rparr>)
       (s1\<lparr>s_world := set_conn p (c1\<lparr>cn_closing := True\<rparr>) (s_world s1)\<rparr>)"
proof -
  have s1: "serving A m h0 p c1 s1" "serve_frame reliable obs c s c1 s1" "\<not> reliable (s_heap s)" using h assms(2) by (simp_all add: handle_post_def)
  note cl = serving_close [OF s1(1)]
  show "connection_close p s1 = Some (s1\<lparr>s_world := set_conn p (c1\<lparr>cn_closing := True\<rparr>) (s_world s1)\<rparr>)" by (rule cl(1))
  have "stream_post reliable obs serve be A m h0 p c1 s1 [] True (c1\<lparr>cn_closing := True\<rparr>) (s1\<lparr>s_world := set_conn p (c1\<lparr>cn_closing := True\<rparr>) (s_world s1)\<rparr>)"
    by (rule stream_post_stop [OF cl(2)]) simp_all
  note stream_post_Cons [OF h this]
  then show "parse_post reliable obs serve be A m h0 p c s ((header, payload) # ps) rest bad off off (c1\<lparr>cn_closing := True\<rparr>)
       (s1\<lparr>s_world := set_conn p (c1\<lparr>cn_closing := True\<rparr>) (s_world s1)\<rparr>)"
    unfolding parse_post_def using s1(3) assms(3) serve_frame_trans [OF s1(2) cl(3)]
    by (intro conjI exI [of _ "[(header, payload)]"] exI [of _ True]) simp_all
qed

lemma parse_loop_post:
  assumes g: "e_g E = g" and hs: "handlers_ok reliable obs serve E"
    and "serving A m h0 p c s" "off \<le> cn_read_len c"
    and "packets (e_be E) (sv_integrity (s_world s)) (sv_mac_key (s_world s)) (drop off (conn_in c (s_heap s))) = (ps, rest, bad)"
    and "all_at_once m ps" "conn_room (length ps) c"
  shows "\<exists>off' c' s'. parse_loop (handle_packet E p) (e_be E) p off s = Some (off', s') \<and>
    parse_post reliable obs serve (e_be E) A m h0 p c s ps rest bad off off' c' s'"
  using assms(3-7)
proof (induction "cn_read_len c - off" arbitrary: c s off ps rule: less_induct)
  case less
  note s = less.prems(1) and off = less.prems(2) and pk = less.prems(3)
  let ?bs = "drop off (conn_in c (s_heap s))" and ?H = WIRECALL_HEADER_SIZE and ?v = "s_world s"
  have o: "sv_conns ?v p = Some c" "length (sv_mac_key ?v) = 16" and ok: "conn_ok A h0 c (s_heap s)"
    using s by (simp_all add: serving_def conn_open_def)
  have len: "length ?bs = cn_read_len c - off" "sz_sub (cn_read_len c) off = length ?bs" using off by (simp_all add: conn_in_def)
  have rd: "hp_read (cn_read_buf c) off (length ?bs) (s_heap s) = Some ?bs" if "?H \<le> length ?bs"
    using hp_read_buf [OF conn_ok_bufs(1) [OF ok], of off "length ?bs"] that len off by (simp add: conn_in_def WIRECALL_HEADER_SIZE_def)
  have stop: "parse_post reliable obs serve (e_be E) A m h0 p c s [] ?bs False off off c s"
    using parse_post_stop [where c = c and b = "cn_closing c" and s = s and s' = s and bad = False and off = off] s off by simp
  note cl = serving_close [OF s]
  have close: "connection_close p s = Some (s\<lparr>s_world := set_conn p (c\<lparr>cn_closing := True\<rparr>) ?v\<rparr>)"
    "parse_post reliable obs serve (e_be E) A m h0 p c s [] ?bs True off off (c\<lparr>cn_closing := True\<rparr>) (s\<lparr>s_world := set_conn p (c\<lparr>cn_closing := True\<rparr>) ?v\<rparr>)"
    by (rule cl(1), rule parse_post_stop [OF cl(2,3) _ _ off]) simp_all
  from o(2) show ?case
  proof (cases rule: cut_packet_cases [where be = "e_be E" and integrity = "sv_integrity ?v" and bs = ?bs])
    case few
    then have "parse_loop (handle_packet E p) (e_be E) p off s = Some (off, s)" using o(1) len by (subst parse_loop.simps) simp
    then show ?thesis using stop pk packets_cut(1) [OF few(2)] by auto
  next
    case (bad_header hd)
    then have "parse_loop (handle_packet E p) (e_be E) p off s = Some (off, s\<lparr>s_world := set_conn p (c\<lparr>cn_closing := True\<rparr>) ?v\<rparr>)"
      using o(1) len rd close(1) by (subst parse_loop.simps) simp
    then show ?thesis using close(2) pk packets_cut(2) [OF bad_header(3)] by auto
  next
    case (part hd)
    then have "cn_read_len c - (off + ?H) < unat (h_size hd)" using len by simp
    then have "parse_loop (handle_packet E p) (e_be E) p off s = Some (off, s)" using part o(1) len rd by (subst parse_loop.simps) simp
    then show ?thesis using stop pk packets_cut(1) [OF part(4)] by auto
  next
    case (whole hd rc)
    let ?n = "unat (h_size hd)" and ?q = "take (unat (h_size hd)) (drop ?H ?bs)"
    have fit: "?H \<le> length ?bs" "\<not> length ?bs - ?H < ?n" "off + ?H + ?n \<le> cn_read_len c" "0 < cn_read_len c"
      using whole(2) len(1) off by (auto simp: WIRECALL_HEADER_SIZE_def)
    have rq: "hp_read (cn_read_buf c) (off + ?H) ?n (s_heap s) = Some ?q"
      using hp_read_buf [OF conn_ok_bufs(1) [OF ok] fit(3,4)] by (simp add: conn_in_def add.commute)
    have step: "parse_loop (handle_packet E p) (e_be E) p off s =
        (if rc \<noteq> 0 then do { s \<leftarrow> connection_close p s; Some (off, s) }
         else do {
           (rc, s) \<leftarrow> handle_packet E p hd ?q s;
           if rc \<noteq> 0 then do { s \<leftarrow> connection_close p s; Some (off, s) }
           else parse_loop (handle_packet E p) (e_be E) p (off + (?H + ?n)) s })"
      using o(1) len(2) fit(1,2) rd whole(1,3) rq by (subst parse_loop.simps) simp
    show ?thesis
    proof (cases "rc = 0")
      case False
      then have "cut_packet (e_be E) (sv_integrity ?v) (sv_mac_key ?v) ?bs = Bad_signature" using whole(4) by simp
      then show ?thesis using step False close pk packets_cut(3) by auto
    next
      case True
      then have cut: "cut_packet (e_be E) (sv_integrity ?v) (sv_mac_key ?v) ?bs = Packet hd ?q (drop (?H + ?n) ?bs)" using whole(4) by simp
      obtain qs where qs: "packets (e_be E) (sv_integrity ?v) (sv_mac_key ?v) (drop (?H + ?n) ?bs) = (qs, rest, bad)" "ps = (hd, ?q) # qs"
        using pk packets_Cons [OF cut] by (cases "packets (e_be E) (sv_integrity ?v) (sv_mac_key ?v) (drop (?H + ?n) ?bs)") simp
      have at: "answered_at_once m hd" "all_at_once m qs" "conn_room (Suc (length qs)) c"
        using less.prems(4,5) qs(2) by (simp_all add: all_at_once_def)
      have size: "unat (h_size hd) = length ?q" "length ?q \<le> WIRECALL_MAX_PAYLOAD_SIZE"
        using cut_packet_PacketD(1,2) [OF cut] by simp_all
      obtain rc1 c1 s1 where h: "handle_packet E p hd ?q s = Some (rc1, s1)"
        "handle_post reliable obs (reply_of serve m hd ?q) (e_be E) (h_call_id hd) (cn_closing c \<or> h_op hd = WIRECALL_OP_DISCONNECT) A m h0 p c s rc1 c1 s1"
        using handle_packet_post [OF g s at(3) hs size at(1)] by blast
      show ?thesis
      proof (cases "rc1 = 0")
        case False
        note fl = parse_post_fail [OF h(2) False off]
        show ?thesis using step True h(1) False fl(1) fl(2) unfolding qs(2) by auto
      next
        case rc1: True
        have f: "serving A m h0 p c1 s1" "serve_frame reliable obs c s c1 s1"
          "cn_write_len c1 \<le> cn_write_len c + (?H + WIRECALL_MAX_PAYLOAD_SIZE)"
          using h(2) by (simp_all add: handle_post_def)
        have eq: "cn_read_len c1 = cn_read_len c" "conn_in c1 (s_heap s1) = conn_in c (s_heap s)" "sv_integrity (s_world s1) = sv_integrity ?v"
          "sv_mac_key (s_world s1) = sv_mac_key ?v"
          using f(2) by (simp_all add: serve_frame_def conn_like_def)
        have "cn_read_len c1 - (off + (?H + ?n)) < cn_read_len c - off" using fit(3) eq(1) by (simp add: WIRECALL_HEADER_SIZE_def)
        moreover have "packets (e_be E) (sv_integrity (s_world s1)) (sv_mac_key (s_world s1)) (drop (off + (?H + ?n)) (conn_in c1 (s_heap s1))) = (qs, rest, bad)"
          using qs(1) unfolding eq by (simp add: add.commute)
        ultimately obtain off' c' s' where r: "parse_loop (handle_packet E p) (e_be E) p (off + (?H + ?n)) s1 = Some (off', s')"
          "parse_post reliable obs serve (e_be E) A m h0 p c1 s1 qs rest bad (off + (?H + ?n)) off' c' s'"
          using less.hyps [of c1 "off + (?H + ?n)" s1 qs] f(1) fit(3) eq(1) at(2) conn_room_step [OF at(3) f(3)] by auto
        have "parse_post reliable obs serve (e_be E) A m h0 p c s ps rest bad off off' c' s'"
          unfolding qs(2) by (rule parse_post_Cons [OF h(2) r(2)]) simp
        then show ?thesis using step True h(1) rc1 r(1) by auto
      qed
    qed
  qed
qed

end


section \<open>Reading\<close>

text \<open>Changes of the read buffer, and of the world outside.\<close>

lemma serving_read_change:
  assumes s: "serving A m h0 p c s" and b: "block_frame (cn_read_buf c) (s_heap s) buf h'" "heap_ok h'" "buf_ok buf len cap h'"
  defines "c' \<equiv> c\<lparr>cn_read_buf := buf, cn_read_len := len, cn_read_cap := cap\<rparr>"
  shows "serving A m h0 p c' (s\<lparr>s_heap := h', s_world := set_conn p c' (s_world s)\<rparr>)"
    "conn_in c' h' = buf_view buf len h'" "conn_out c' h' = conn_out c (s_heap s)"
proof -
  have ok: "conn_ok A h0 c (s_heap s)" and rk: "routes_known A m (s_heap s) (s_world s)" and co: "conn_open p (s_world s) c"
    using s by (simp_all add: serving_def)
  note ch = conn_read_change [OF ok b, folded c'_def]
  have "routes_known A m h' (set_conn p c' (s_world s))" by (rule routes_known_keep [OF rk ch(4) b(2)]) simp
  then show "serving A m h0 p c' (s\<lparr>s_heap := h', s_world := set_conn p c' (s_world s)\<rparr>)"
    using ch(1) co by (simp add: serving_def conn_open_def c'_def)
  show "conn_in c' h' = buf_view buf len h'" "conn_out c' h' = conn_out c (s_heap s)" by (rule ch)+
qed

lemma serving_net [simp]: "serving A m h0 p c (s\<lparr>s_world := (s_world s)\<lparr>sv_net := n\<rparr>\<rparr>) = serving A m h0 p c s"
  by (simp add: serving_def conn_open_def routes_known_def)

text \<open>
  The connection has taken in bytes up to a remainder \<open>rest\<close> and has answered the packets \<open>ps\<close>.
\<close>

definition absorbed ::
  "(heap \<Rightarrow> bool) \<Rightarrow> service \<Rightarrow> bool \<Rightarrow> nat set \<Rightarrow> (u64 \<Rightarrow> wirecall_route option) \<Rightarrow> heap \<Rightarrow> nat \<Rightarrow> wirecall_connection \<Rightarrow>
     ('f, 'n wirecall_server) sched \<Rightarrow> (wirecall_header \<times> u8 list) list \<Rightarrow> u8 list \<Rightarrow> wirecall_connection \<Rightarrow> ('f, 'n wirecall_server) sched \<Rightarrow> bool" where
  "absorbed reliable serve be A m h0 p c s ps rest c' s' \<longleftrightarrow>
     serving A m h0 p c' s' \<and> cn_fd c' = cn_fd c \<and> cn_worker c' = cn_worker c \<and>
     sv_integrity (s_world s') = sv_integrity (s_world s) \<and> sv_mac_key (s_world s') = sv_mac_key (s_world s) \<and>
     (reliable (s_heap s) \<longrightarrow> reliable (s_heap s')) \<and> s' = s\<lparr>s_heap := s_heap s', s_world := s_world s'\<rparr> \<and>
     cn_write_len c' \<le> cn_write_len c + length ps * (WIRECALL_HEADER_SIZE + WIRECALL_MAX_PAYLOAD_SIZE) \<and>
     (reliable (s_heap s) \<or> \<not> cn_closing c' \<longrightarrow> conn_in c' (s_heap s') = rest) \<and>
     (\<exists>outs. conn_out c' (s_heap s') = conn_out c (s_heap s) @ concat outs \<and>
        (reliable (s_heap s) \<longrightarrow> replies serve m be (sv_integrity (s_world s)) (sv_mac_key (s_world s)) ps outs))"

lemma absorbed_same:
  assumes "serving A m h0 p c' s'" "conn_in c' (s_heap s') = conn_in c (s_heap s)" "conn_out c' (s_heap s') = conn_out c (s_heap s)"
    and "cn_fd c' = cn_fd c" "cn_worker c' = cn_worker c" "cn_write_len c' = cn_write_len c"
    and "sv_integrity (s_world s') = sv_integrity (s_world s)" "sv_mac_key (s_world s') = sv_mac_key (s_world s)"
    and "reliable (s_heap s) \<longrightarrow> reliable (s_heap s')" "s' = s\<lparr>s_heap := s_heap s', s_world := s_world s'\<rparr>"
  shows "absorbed reliable serve be A m h0 p c s [] (conn_in c (s_heap s)) c' s'"
  unfolding absorbed_def using assms by (intro conjI exI [of _ "[]"]) (simp_all add: replies_def)

lemma absorbed_trans:
  assumes a: "absorbed reliable serve be A m h0 p c s ps r c1 s1" and b: "absorbed reliable serve be A m h0 p c1 s1 qs r' c2 s2"
  shows "absorbed reliable serve be A m h0 p c s (ps @ qs) r' c2 s2"
proof -
  obtain outs where o: "conn_out c1 (s_heap s1) = conn_out c (s_heap s) @ concat outs"
    "reliable (s_heap s) \<longrightarrow> replies serve m be (sv_integrity (s_world s)) (sv_mac_key (s_world s)) ps outs"
    using a unfolding absorbed_def by blast
  obtain outs' where o': "conn_out c2 (s_heap s2) = conn_out c1 (s_heap s1) @ concat outs'"
    "reliable (s_heap s1) \<longrightarrow> replies serve m be (sv_integrity (s_world s1)) (sv_mac_key (s_world s1)) qs outs'"
    using b unfolding absorbed_def by blast
  have "s2 = s1\<lparr>s_heap := s_heap s2, s_world := s_world s2\<rparr>" "s1 = s\<lparr>s_heap := s_heap s1, s_world := s_world s1\<rparr>"
    using a b unfolding absorbed_def by blast+
  then have "s2 = s\<lparr>s_heap := s_heap s2, s_world := s_world s2\<rparr>" by (cases s, cases s1, cases s2) simp
  moreover have "reliable (s_heap s) \<longrightarrow> reliable (s_heap s1)" using a by (simp add: absorbed_def)
  moreover have "replies serve m be integrity key (ps @ qs) (outs @ outs')"
    if "replies serve m be integrity key ps outs" "replies serve m be integrity key qs outs'" for integrity key
    using that unfolding replies_def by (rule list_all2_appendI)
  ultimately show ?thesis using a b o o' unfolding absorbed_def
    by (intro conjI exI [of _ "outs @ outs'"]) (auto simp: algebra_simps)
qed

text \<open>The part of \<open>parse_available\<close> after the loop moves the remainder to the front.\<close>

context library_memory
begin

lemma parse_rest_moved:
  assumes s: "serving A m h0 p c s" and off: "off \<le> cn_read_len c"
  defines "c' \<equiv> c\<lparr>cn_read_len := cn_read_len c - off\<rparr>"
  shows "\<exists>h'. (if off > 0 then do {
       c \<leftarrow> conn_get p (s_world s);
       bs \<leftarrow> hp_read (cn_read_buf c) off (sz_sub (cn_read_len c) off) (s_heap s);
       h \<leftarrow> hp_write (cn_read_buf c) 0 bs (s_heap s);
       v \<leftarrow> conn_upd p (\<lambda>c. c\<lparr>cn_read_len := sz_sub (cn_read_len c) off\<rparr>) (s_world s);
       Some (s\<lparr>s_heap := h, s_world := v\<rparr>) }
     else Some s) = Some (s\<lparr>s_heap := h', s_world := set_conn p c' (s_world s)\<rparr>) \<and>
    serving A m h0 p c' (s\<lparr>s_heap := h', s_world := set_conn p c' (s_world s)\<rparr>) \<and> (reliable (s_heap s) \<longrightarrow> reliable h') \<and>
    conn_in c' h' = drop off (conn_in c (s_heap s)) \<and> conn_out c' h' = conn_out c (s_heap s)"
proof -
  have c: "sv_conns (s_world s) p = Some c" and ok: "conn_ok A h0 c (s_heap s)" using s by (simp_all add: serving_def conn_open_def)
  show ?thesis
  proof (cases "0 < off")
    case False
    then show ?thesis using s set_conn_same [OF c] by (intro exI [of _ "s_heap s"]) (simp add: c'_def)
  next
    case True
    obtain b bs where b: "hp_read (cn_read_buf c) off (cn_read_len c - off) (s_heap s) = Some bs"
      "hp_write (cn_read_buf c) 0 bs (s_heap s) = Some ((s_heap s)\<lparr>hp_bytes := b\<rparr>)"
      "buf_ok (cn_read_buf c) (cn_read_len c - off) (cn_read_cap c) ((s_heap s)\<lparr>hp_bytes := b\<rparr>)"
      "buf_view (cn_read_buf c) (cn_read_len c - off) ((s_heap s)\<lparr>hp_bytes := b\<rparr>) = drop off (buf_view (cn_read_buf c) (cn_read_len c) (s_heap s))"
      "block_frame (cn_read_buf c) (s_heap s) (cn_read_buf c) ((s_heap s)\<lparr>hp_bytes := b\<rparr>)"
      using buf_shift [OF conn_ok_bufs(1) [OF ok] True off] by blast
    have hb: "heap_ok ((s_heap s)\<lparr>hp_bytes := b\<rparr>)" using conn_ok_heap [OF ok] by (simp add: heap_ok_def)
    note ch = serving_read_change [OF s b(5) hb b(3)]
    have "c\<lparr>cn_read_buf := cn_read_buf c, cn_read_len := cn_read_len c - off, cn_read_cap := cn_read_cap c\<rparr> = c'" by (simp add: c'_def)
    note ch' = ch [unfolded this b(4)]
    show ?thesis using ch' True c b(1,2) off write_reliable
      by (intro exI [of _ "(s_heap s)\<lparr>hp_bytes := b\<rparr>"]) (simp add: conn_upd_Some conn_in_def c'_def [symmetric])
  qed
qed

lemma parse_available_post:
  assumes g: "e_g E = g" and hs: "handlers_ok reliable obs serve E" and s: "serving A m h0 p c s"
    and ps: "packets (e_be E) (sv_integrity (s_world s)) (sv_mac_key (s_world s)) (conn_in c (s_heap s)) = (ps, rest, bad)"
      "all_at_once m ps" "conn_room (length ps) c"
  shows "\<exists>c' s'. parse_available E p s = Some s' \<and> absorbed reliable serve (e_be E) A m h0 p c s ps rest c' s' \<and>
    obs (sv_net (s_world s')) = obs (sv_net (s_world s)) \<and> cn_read_len c' \<le> cn_read_len c \<and>
    (reliable (s_heap s) \<or> \<not> cn_closing c' \<longrightarrow> cn_closing c' = (cn_closing c \<or> bad \<or> disconnects ps))"
proof -
  obtain off c1 s1 where l: "parse_loop (handle_packet E p) (e_be E) p 0 s = Some (off, s1)"
    "parse_post reliable obs serve (e_be E) A m h0 p c s ps rest bad 0 off c1 s1"
    using parse_loop_post [OF g hs s le0 _ ps(2,3)] ps(1) unfolding drop_0 by blast
  then obtain qs bad' where q: "length qs \<le> length ps" "stream_post reliable obs serve (e_be E) A m h0 p c s qs bad' c1 s1"
    "reliable (s_heap s) \<or> \<not> cn_closing c1 \<longrightarrow> qs = ps \<and> bad' = bad \<and> drop off (conn_in c (s_heap s)) = rest"
    and f: "serve_frame reliable obs c s c1 s1" "off \<le> cn_read_len c"
    unfolding parse_post_def by blast
  have f1: "cn_fd c1 = cn_fd c" "cn_worker c1 = cn_worker c" "cn_read_len c1 = cn_read_len c" "conn_in c1 (s_heap s1) = conn_in c (s_heap s)"
    "obs (sv_net (s_world s1)) = obs (sv_net (s_world s))" "sv_integrity (s_world s1) = sv_integrity (s_world s)"
    "sv_mac_key (s_world s1) = sv_mac_key (s_world s)" "reliable (s_heap s) \<longrightarrow> reliable (s_heap s1)"
    using f(1) by (simp_all add: serve_frame_def conn_like_def)
  have f2: "s1 = s\<lparr>s_heap := s_heap s1, s_world := s_world s1\<rparr>" using f(1) unfolding serve_frame_def by blast
  have s1: "serving A m h0 p c1 s1" "cn_write_len c1 \<le> cn_write_len c + length qs * (WIRECALL_HEADER_SIZE + WIRECALL_MAX_PAYLOAD_SIZE)"
    "cn_closing c1 = (cn_closing c \<or> bad' \<or> disconnects qs)" using q(2) by (simp_all add: stream_post_def)
  have wl: "cn_write_len c1 \<le> cn_write_len c + length ps * (WIRECALL_HEADER_SIZE + WIRECALL_MAX_PAYLOAD_SIZE)"
    using s1(2) mult_le_mono1 [OF q(1)] by (meson add_left_mono order_trans)
  obtain outs where o: "conn_out c1 (s_heap s1) = conn_out c (s_heap s) @ concat outs"
    "reliable (s_heap s) \<longrightarrow> replies serve m (e_be E) (sv_integrity (s_world s)) (sv_mac_key (s_world s)) qs outs"
    using q(2) unfolding stream_post_def by blast
  let ?c = "c1\<lparr>cn_read_len := cn_read_len c1 - off\<rparr>"
  have "off \<le> cn_read_len c1" using f(2) f1(3) by simp
  then obtain h' where h': "parse_available E p s = Some (s1\<lparr>s_heap := h', s_world := set_conn p ?c (s_world s1)\<rparr>)"
      "serving A m h0 p ?c (s1\<lparr>s_heap := h', s_world := set_conn p ?c (s_world s1)\<rparr>)" "reliable (s_heap s1) \<longrightarrow> reliable h'"
      "conn_in ?c h' = drop off (conn_in c1 (s_heap s1))" "conn_out ?c h' = conn_out c1 (s_heap s1)"
    using parse_rest_moved [OF s1(1)] unfolding parse_available_def l(1) bind.bind_lunit prod.case by blast
  let ?s = "s1\<lparr>s_heap := h', s_world := set_conn p ?c (s_world s1)\<rparr>"
  have "?s = s\<lparr>s_heap := s_heap ?s, s_world := s_world ?s\<rparr>" using f2 by (cases s, cases s1) simp
  then have "absorbed reliable serve (e_be E) A m h0 p c s ps rest ?c ?s" unfolding absorbed_def
    using h' f1 wl o q(3) by (intro conjI exI [of _ outs]) (assumption | simp)+
  moreover have "obs (sv_net (s_world ?s)) = obs (sv_net (s_world s))" "cn_read_len ?c \<le> cn_read_len c" using f1(3,5) by simp_all
  moreover have "reliable (s_heap s) \<or> \<not> cn_closing ?c \<longrightarrow> cn_closing ?c = (cn_closing c \<or> bad \<or> disconnects ps)"
  proof -
    have "cn_closing ?c = cn_closing c1" by simp
    then show ?thesis using s1(3) q(3) by metis
  qed
  ultimately show ?thesis using h'(1) by blast
qed

end

end
