(* ===== verification/Client_Calls.thy ===== *)
theory Client_Calls
  imports Client_Inv
begin

text \<open>
  The calls of the client: what a response becomes, who owns the memory, and the properties of
  the client.
\<close>

section \<open>Decoding a received body\<close>

lemma decoded_rebase:
  assumes d: "decoded h2 values cells count cap vals pvs h3" and own: "heap_owns {q} h1 h2"
    and free: "heap_owns (set (array_owns vals) \<union> (if values = 0 then {} else {values})) h1 h4" "heap_keep (live h3 - {q}) h3 h4"
  shows "decoded h1 values cells count cap vals pvs h4"
proof -
  let ?A = "set (array_owns vals) \<union> (if values = 0 then {} else {values})"
  have "heap_owns ?A h2 h3" using d by (simp add: decoded_def)
  then have "?A \<subseteq> live h3 - {q}" using own by (auto simp: heap_owns_def)
  then have k: "heap_keep ?A h3 h4" using free(2) heap_keep_mono by blast
  then have "list_all2 (value_is h4) vals pvs"
    using d array_is_keep [of h3 vals pvs h4] heap_keep_mono [OF k] by (auto simp: decoded_def)
  moreover have "values \<noteq> 0 \<longrightarrow> hp_size h4 values = hp_size h3 values" using k by (auto simp: heap_keep_def)
  ultimately show ?thesis using d free(1) by (auto simp: decoded_def)
qed

context library_memory
begin

text \<open>The body is decoded and then freed.\<close>

lemma decode_body:
  assumes own: "heap_owns {body} h1 h2" and size: "hp_size h2 body = Some k" "length p \<le> k" "length p \<le> WIRECALL_MAX_PAYLOAD_SIZE"
    and p: "map (hp_bytes h2 body) [0..<length p] = p"
  obtains (ok) "values" cells count cap vals pvs h3 h4 where "hp_read body 0 (length p) h2 = Some p"
      "wirecall_payload_decode g (Some p) (length p) (Some (0, [])) (Some 0) h2 = Some (0, Some (values, cells), Some count, h3)"
      "parse_payload p = Some pvs" "decoded h2 values cells count cap vals pvs h3"
      "wirecall_mem_free g body h3 = Some h4" "decoded h1 values cells count cap vals pvs h4"
  | (bad) h3 h4 where "hp_read body 0 (length p) h2 = Some p"
      "wirecall_payload_decode g (Some p) (length p) (Some (0, [])) (Some 0) h2 = Some (-1, Some (0, []), Some 0, h3)"
      "heap_owns {} h2 h3" "wirecall_mem_free g body h3 = Some h4" "heap_owns {} h1 h4" "parse_payload p = None \<or> \<not> reliable h2"
proof -
  have rd: "hp_read body 0 (length p) h2 = Some p" using hp_read_Some [OF size(1), of 0 "length p"] size(2) p by simp
  have e: "take (length p) (payload_bytes (Some p)) = p" by (simp add: payload_bytes_def)
  have "payload_ok (Some p) (length p)" using size(3) by (simp add: payload_ok_def payload_bytes_def)
  then obtain rc arr n h3 where d: "wirecall_payload_decode g (Some p) (length p) (Some (0, [])) (Some 0) h2 = Some (rc, arr, n, h3)"
    "rc = 0 \<and> (\<exists>values cells count cap vals pvs. arr = Some (values, cells) \<and> n = Some count \<and>
        decoded h2 values cells count cap vals pvs h3 \<and> parse_payload p = Some pvs) \<or>
     rc = -1 \<and> arr = Some (0, []) \<and> n = Some 0 \<and> heap_owns {} h2 h3 \<and> (parse_payload p = None \<or> \<not> reliable h2)"
    using payload_decode_outcome [OF heap_owns_ok [OF own], of "Some p" "length p" "(0, [])" 0] unfolding e by blast
  show ?thesis
  proof (cases "rc = 0")
    case True
    then obtain "values" cells count cap vals pvs where v: "rc = 0" "arr = Some (values, cells)" "n = Some count" "decoded h2 values cells count cap vals pvs h3"
      "parse_payload p = Some pvs"
      using d(2) by auto
    let ?A = "set (array_owns vals) \<union> (if values = 0 then {} else {values})"
    have A: "heap_owns ?A h2 h3" using v(4) by (simp add: decoded_def)
    then have "heap_owns ({body} \<union> ?A) h1 h3" "body \<notin> ?A" using heap_owns_trans [OF own A] own by (auto simp: heap_owns_def)
    then obtain h4 where h4: "wirecall_mem_free g body h3 = Some h4" "heap_owns ?A h1 h4" "heap_keep (live h3 - {body}) h3 h4"
      using free_owned [of "{body} \<union> ?A" h1 h3 body] by auto
    show ?thesis using ok rd d(1) v h4(1) decoded_rebase [OF v(4) own h4(2,3)] by blast
  next
    case False
    then have b: "rc = -1" "arr = Some (0, [])" "n = Some 0" "heap_owns {} h2 h3" "parse_payload p = None \<or> \<not> reliable h2"
      using d(2) by auto
    have "heap_owns {body} h1 h3" using heap_owns_trans [OF own b(4)] by simp
    then obtain h4 where "wirecall_mem_free g body h3 = Some h4" "heap_owns {} h1 h4"
      using free_owned [of "{body}" h1 h3 body] by auto
    then show ?thesis using bad rd d(1) b by blast
  qed
qed

lemma hp_read_prefix: "hp_read p 0 n h = Some bs \<Longrightarrow> k \<le> n \<Longrightarrow> hp_read p 0 k h = Some (take k bs)"
  by (auto simp: hp_read_def take_map take_upt split: option.splits if_splits)

lemma response_error_post:
  assumes own: "heap_owns {body} h1 h2" and size: "hp_size h2 body = Some k" "length p \<le> k" "length p \<le> WIRECALL_MAX_PAYLOAD_SIZE"
    and p: "map (hp_bytes h2 body) [0..<length p] = p"
  shows "\<exists>e h3 h4. response_error g body (length p) c h2 = Some (c\<lparr>c_error := e\<rparr>, h3) \<and> length e < sizeof_error \<and>
    wirecall_mem_free g body h3 = Some h4 \<and> heap_owns {} h1 h4"
proof -
  define other where "other = take (sizeof_error - 1) (message_bytes ''server returned error'')"
  have other: "set_error c ''server returned error'' = c\<lparr>c_error := other\<rparr>" "length other < sizeof_error"
    by (simp_all add: set_error_def other_def sizeof_error_def)
  from own size p show ?thesis
  proof (cases rule: decode_body)
    case (bad h3 h4)
    have "wirecall_values_free g 0 [] h3 = Some h3" using free_null_law by (simp add: wirecall_values_free_def)
    then have "response_error g body (length p) c h2 = Some (c\<lparr>c_error := other\<rparr>, h3)"
      using bad(1,2) other(1) by (simp add: response_error_def)
    then show ?thesis using other(2) bad(4,5) by blast
  next
    case (ok "values" cells count cap vals pvs h3 h4)
    obtain h5 where h5: "wirecall_values_free g values cells h3 = Some h5" "heap_owns {} h2 h5"
      using values_free_owns [OF ok(4)] by blast
    have "heap_owns {body} h1 h5" using heap_owns_trans [OF own h5(2)] by simp
    then obtain h6 where h6: "wirecall_mem_free g body h5 = Some h6" "heap_owns {} h1 h6"
      using free_owned [of "{body}" h1 h5 body] by auto
    have "\<exists>e. response_error g body (length p) c h2 = Some (c\<lparr>c_error := e\<rparr>, h5) \<and> length e < sizeof_error"
    proof (cases "count = 1")
      case False
      then have "response_error g body (length p) c h2 = Some (c\<lparr>c_error := other\<rparr>, h5)"
        using ok(1,2) h5(1) other(1) by (simp add: response_error_def)
      then show ?thesis using other(2) by blast
    next
      case True
      have d: "list_all2 (value_is h3) vals pvs" "count = length vals"
        "if values = 0 then vals = [] else cells = vals @ [V_SENTINEL] \<and> hp_size h3 values = Some ((cap + 1) * sizeof_value)"
        using ok(4) unfolding decoded_def by (auto split: if_splits)
      obtain v where vals: "vals = [v]" using d(2) True by (cases vals) auto
      then obtain pv where v: "cells = [v, V_SENTINEL]" "values \<noteq> 0" "hp_size h3 values = Some ((cap + 1) * sizeof_value)"
        "value_is h3 v pv"
        using d(1,3) by (cases "values = 0") (auto simp: list_all2_Cons1)
      have get: "cell_get values cells 0 h3 = Some v" using v by (simp add: cell_get_def)
      show ?thesis
      proof (cases "\<exists>s n. v = V_STRING s n")
        case False
        then have "response_error g body (length p) c h2 = Some (c\<lparr>c_error := other\<rparr>, h5)"
          using ok(1,2) h5(1) other True get
          by (cases v) (simp_all add: response_error_def)
        then show ?thesis using other(2) by blast
      next
        case st: True
        then obtain s n bs where s: "v = V_STRING s n" "unat n = length bs" "hp_read s 0 (length bs + 1) h3 = Some (bs @ [0])"
          using v(4) by (auto split: payload_value.splits)
        define j where "j = (if unat n \<ge> sizeof_error then sizeof_error - 1 else unat n)"
        have j: "j \<le> length bs" "j < sizeof_error" using s(2) by (auto simp: sizeof_error_def j_def)
        then have "hp_read s 0 j h3 = Some (take j bs)" using hp_read_prefix [OF s(3), of j] by simp
        then have "response_error g body (length p) c h2 = Some (c\<lparr>c_error := take j bs\<rparr>, h5)"
          using ok(1,2) h5(1) True get s(1) unfolding response_error_def by (simp add: j_def [symmetric])
        moreover have "length (take j bs) < sizeof_error" using j by simp
        ultimately show ?thesis by blast
      qed
    qed
    then show ?thesis using h6 by blast
  qed
qed

end

section \<open>Responses\<close>

text \<open>
  Either the next packet is a response, and its values belong to the caller now, or nothing
  is allocated but perhaps a larger read buffer.  It fails for a reason: memory, or a next packet
  that is none, or is no response, or has a malformed payload.
\<close>

definition response_post ::
  "(heap \<Rightarrow> bool) \<Rightarrow> ('n \<Rightarrow> u8 list) \<Rightarrow> bool \<Rightarrow> wirecall_client \<Rightarrow> heap \<Rightarrow> 'n \<Rightarrow>
     int \<Rightarrow> u64 \<Rightarrow> nat \<times> wirecall_value list \<Rightarrow> nat \<Rightarrow> wirecall_client \<Rightarrow> heap \<Rightarrow> 'n \<Rightarrow> bool" where
  "response_post reliable inbox be c h n rc cid arr count c' h' n' \<longleftrightarrow>
     client_ok c' h' \<and> client_like c c' \<and>
     (\<exists>h1 extra. block_frame (c_read_buf c) h (c_read_buf c') h1 \<and>
        (rc = 0 \<and> c_error c' = c_error c \<and>
           (\<exists>header p cap vals pvs. client_cut be c (client_view c h @ inbox n @ extra) = Packet header p (client_view c' h' @ inbox n') \<and>
              h_op header = WIRECALL_OP_RESPONSE \<and> cid = h_call_id header \<and> parse_payload p = Some pvs \<and>
              decoded h1 (fst arr) (snd arr) count cap vals pvs h') \<or>
         rc = -1 \<and> arr = (0, []) \<and> count = 0 \<and> heap_owns {} h1 h' \<and>
           (\<not> reliable h \<or> \<not> (\<exists>header p rest. client_cut be c (client_view c h @ inbox n) = Packet header p rest \<and>
                                h_op header = WIRECALL_OP_RESPONSE \<and> parse_payload p \<noteq> None))))"

lemma client_ok_error [simp]:
  "client_ok (c\<lparr>c_error := e\<rparr>) h = client_ok c h" "client_view (c\<lparr>c_error := e\<rparr>) h = client_view c h"
  "client_like c0 (c\<lparr>c_error := e\<rparr>) = client_like c0 c"
  by (simp_all add: client_ok_def client_view_def client_like_def)

text \<open>Freeing the body leaves the client alone.\<close>

lemma client_after_body:
  assumes "client_ok c' h2" "block_frame (c_read_buf c) h (c_read_buf c') h1" "heap_owns {body} h1 h2" "client_ok c h"
    and "heap_owns X h1 h4"
  shows "client_ok c' h4" "client_view c' h4 = client_view c' h2"
proof -
  have b: "blk (c_read_buf c') \<subseteq> live h1"
    using assms(2) by (auto simp: block_frame_def)
  have k: "heap_keep (blk (c_read_buf c')) h1 h2" "heap_keep (blk (c_read_buf c')) h1 h4"
    using b heap_owns_keep [OF assms(3)] heap_owns_keep [OF assms(5)] heap_keep_mono by blast+
  then have "heap_keep (blk (c_read_buf c')) h2 h4" by (simp add: heap_keep_def)
  then show "client_ok c' h4" "client_view c' h4 = client_view c' h2"
    using client_ok_keep [OF assms(1)] heap_owns_ok [OF assms(5)] by blast+
qed

lemma recv_response_eq:
  "c_fd c \<ge> 0 \<Longrightarrow> wirecall_client_recv_response os be g True True True (Some c) h n = do {
     (rc, header, body, c, h, n) \<leftarrow> recv_packet os be g c h n;
     if rc \<noteq> 0 then Some (-1, 0, (0, []), 0, Some c, h, n)
     else do {
       (rc, arr, count, c, h) \<leftarrow> response_result g header body c h;
       h \<leftarrow> wirecall_mem_free g body h;
       Some (rc, h_call_id header, arr, count, Some c, h, n) } }"
  by (simp add: wirecall_client_recv_response_def)

context library_memory
begin

text \<open>What becomes of the body of the packet \<open>header p\<close>.\<close>

lemma response_result_cases:
  assumes own: "heap_owns {body} h1 h2" and size: "hp_size h2 body = Some (if p = [] then 1 else length p)"
    and p: "map (hp_bytes h2 body) [0..<length p] = p" "length p = unat (h_size header)" "length p \<le> WIRECALL_MAX_PAYLOAD_SIZE"
  obtains (ok) arr count h3 h4 cap vals pvs where "response_result g header body c h2 = Some (0, arr, count, c, h3)"
      "wirecall_mem_free g body h3 = Some h4" "h_op header = WIRECALL_OP_RESPONSE" "parse_payload p = Some pvs"
      "decoded h1 (fst arr) (snd arr) count cap vals pvs h4"
  | (bad) e h3 h4 where "response_result g header body c h2 = Some (-1, (0, []), 0, c\<lparr>c_error := e\<rparr>, h3)"
      "wirecall_mem_free g body h3 = Some h4" "heap_owns {} h1 h4"
      "h_op header \<noteq> WIRECALL_OP_RESPONSE \<or> parse_payload p = None \<or> \<not> reliable h2"
proof -
  have le: "length p \<le> (if p = [] then 1 else length p)" by simp
  have e: "\<exists>e. set_error c m = c\<lparr>c_error := e\<rparr>" for m by (auto simp: set_error_def)
  consider (res) "h_op header = WIRECALL_OP_RESPONSE" | (err) "h_op header \<noteq> WIRECALL_OP_RESPONSE" "h_op header = WIRECALL_OP_ERROR"
    | (other) "h_op header \<noteq> WIRECALL_OP_RESPONSE" "h_op header \<noteq> WIRECALL_OP_ERROR" by blast
  then show ?thesis
  proof cases
    case res
    from own size le p(3,1) show ?thesis
    proof (cases rule: decode_body)
      case o: (ok "values" cells count cap vals pvs h3 h4)
      then have "response_result g header body c h2 = Some (0, (values, cells), count, c, h3)"
        using res p(2) by (simp add: response_result_def)
      then show ?thesis using ok [of "(values, cells)"] o res by simp
    next
      case b: (bad h3 h4)
      then have "response_result g header body c h2 = Some (-1, (0, []), 0, set_error c ''malformed response payload'', h3)"
        using res p(2) by (simp add: response_result_def)
      then show ?thesis using bad b e by metis
    qed
  next
    case err
    then show ?thesis
      using response_error_post [OF own size le p(3,1), of c] bad p(2) by (force simp: response_result_def)
  next
    case other
    obtain h4 where "wirecall_mem_free g body h2 = Some h4" "heap_owns {} h1 h4"
      using free_owned [OF own] by auto
    moreover have "response_result g header body c h2 = Some (-1, (0, []), 0, set_error c ''unexpected response op'', h2)"
      using other by (simp add: response_result_def)
    ultimately show ?thesis using bad other e by metis
  qed
qed

lemma recv_response_post:
  assumes ok: "client_ok c h" and recv: "recv_ok os (c_fd c) inbox patience" and fd: "c_fd c \<ge> 0"
  shows "\<exists>rc cid arr count c' h' n'.
    wirecall_client_recv_response os be g True True True (Some c) h n = Some (rc, cid, arr, count, Some c', h', n') \<and>
    response_post reliable inbox be c h n rc cid arr count c' h' n'"
proof -
  obtain rc header body c2 h2 n2 where r: "recv_packet os be g c h n = Some (rc, header, body, c2, h2, n2)"
    "recv_post reliable inbox be c h n rc header body c2 h2 n2"
    using recv_packet_post [OF ok recv] by blast
  obtain h1 extra where x: "client_ok c2 h2" "client_like c c2" "block_frame (c_read_buf c) h (c_read_buf c2) h1"
    "heap_owns (blk body) h1 h2" "reliable h \<longrightarrow> reliable h2"
    "rc = 0 \<and> body \<noteq> 0 \<and> c_error c2 = c_error c \<and>
       (\<exists>p. client_cut be c (client_view c h @ inbox n @ extra) = Packet header p (client_view c2 h2 @ inbox n2) \<and>
            hp_size h2 body = Some (if p = [] then 1 else length p) \<and> map (hp_bytes h2 body) [0..<length p] = p) \<or>
     rc = -1 \<and> body = 0 \<and> client_view c h @ inbox n @ extra = client_view c2 h2 @ inbox n2 \<and>
       (\<not> reliable h \<or> (\<forall>header p rest. client_cut be c (client_view c h @ inbox n) \<noteq> Packet header p rest))"
    using r(2) unfolding recv_post_def by blast
  show ?thesis
  proof (cases "rc = 0")
    case False
    then have "heap_owns {} h1 h2" "\<not> reliable h \<or> (\<forall>header p rest. client_cut be c (client_view c h @ inbox n) \<noteq> Packet header p rest)"
      using x(4,6) by auto
    then have "response_post reliable inbox be c h n (-1) 0 (0, []) 0 c2 h2 n2"
      using x(1-3) unfolding response_post_def by blast
    then show ?thesis using r(1) False fd by (auto simp: recv_response_eq)
  next
    case True
    then obtain p where p: "client_cut be c (client_view c h @ inbox n @ extra) = Packet header p (client_view c2 h2 @ inbox n2)"
      "hp_size h2 body = Some (if p = [] then 1 else length p)" "map (hp_bytes h2 body) [0..<length p] = p" "body \<noteq> 0"
      "c_error c2 = c_error c"
      using x(6) by auto
    have own: "heap_owns {body} h1 h2" using x(4) p(4) by simp
    note len = cut_packet_PacketD(1,2) [OF p(1) [unfolded client_cut_def]]
    from own p(2,3) len show ?thesis
    proof (cases rule: response_result_cases [where c = c2])
      case o: (ok arr count h3 h4 cap vals pvs)
      have "heap_owns (set (array_owns vals) \<union> (if fst arr = 0 then {} else {fst arr})) h1 h4" using o(5) by (simp add: decoded_def)
      then have "client_ok c2 h4" "client_view c2 h4 = client_view c2 h2"
        using client_after_body [OF x(1,3) own ok] by blast+
      then have "response_post reliable inbox be c h n 0 (h_call_id header) arr count c2 h4 n2"
        using x(2,3) p(1,5) o(3-5) unfolding response_post_def by metis
      moreover have "wirecall_client_recv_response os be g True True True (Some c) h n =
          Some (0, h_call_id header, arr, count, Some c2, h4, n2)"
        using r(1) True fd o(1,2) by (simp add: recv_response_eq)
      ultimately show ?thesis by blast
    next
      case b: (bad e h3 h4)
      have c4: "client_ok (c2\<lparr>c_error := e\<rparr>) h4" using client_after_body [OF x(1,3) own ok b(3)] by simp
      have "\<not> (\<exists>hx q rest. client_cut be c (client_view c h @ inbox n) = Packet hx q rest \<and>
              h_op hx = WIRECALL_OP_RESPONSE \<and> parse_payload q \<noteq> None)" if "reliable h"
        using b(4) x(5) that p(1) cut_prefix [of be c "client_view c h @ inbox n" _ _ _ extra] by force
      then have "response_post reliable inbox be c h n (-1) (h_call_id header) (0, []) 0 (c2\<lparr>c_error := e\<rparr>) h4 n2"
        using c4 x(2,3) b(3) unfolding response_post_def by auto
      moreover have "wirecall_client_recv_response os be g True True True (Some c) h n =
          Some (-1, h_call_id header, (0, []), 0, Some (c2\<lparr>c_error := e\<rparr>), h4, n2)"
        using r(1) True fd b(1,2) by (simp add: recv_response_eq)
      ultimately show ?thesis by blast
    qed
  qed
qed

end

section \<open>Calls\<close>

definition call_post ::
  "('n \<Rightarrow> u8 list) \<Rightarrow> ('n \<Rightarrow> u8 list) \<Rightarrow> bool \<Rightarrow> u64 \<Rightarrow> u8 list \<Rightarrow> wirecall_client \<Rightarrow> heap \<Rightarrow> 'n \<Rightarrow>
     int \<Rightarrow> nat \<times> wirecall_value list \<Rightarrow> nat \<Rightarrow> wirecall_client \<Rightarrow> heap \<Rightarrow> 'n \<Rightarrow> bool" where
  "call_post inbox outbox be proc_id args c h n rc arr count c' h' n' \<longleftrightarrow>
     client_ok c' h' \<and> c_next_call_id c' = c_next_call_id c + 1 \<and>
     (\<exists>h1. block_frame (c_read_buf c) h (c_read_buf c') h1 \<and>
        (rc = 0 \<and> (\<exists>request n1 extra header p cap vals pvs.
             sent_packet be c WIRECALL_OP_RPC proc_id (c_next_call_id c) args request \<and>
             outbox n1 = outbox n @ header_bytes request @ args \<and>
             client_cut be c (client_view c h @ inbox n1 @ extra) = Packet header p (client_view c' h' @ inbox n') \<and>
             h_op header = WIRECALL_OP_RESPONSE \<and> h_call_id header = c_next_call_id c \<and> parse_payload p = Some pvs \<and>
             decoded h1 (fst arr) (snd arr) count cap vals pvs h') \<or>
         rc = -1 \<and> arr = (0, []) \<and> count = 0 \<and> heap_owns {} h1 h'))"

lemma op_enum_ops [simp]:
  "op_enum WIRECALL_OP_RPC" "op_enum WIRECALL_OP_PING" "op_enum WIRECALL_OP_DISCONNECT" "op_enum WIRECALL_OP_RESPONSE"
  "op_enum WIRECALL_OP_ERROR"
  by (simp_all add: op_enum_def)

context library_memory
begin

lemma values_free_client:
  assumes ok: "client_ok c' h'" and b: "block_frame (c_read_buf c) h (c_read_buf c') h1"
    and d: "decoded h1 (fst arr) (snd arr) count cap vals pvs h'"
  shows "\<exists>h4. wirecall_values_free g (fst arr) (snd arr) h' = Some h4 \<and> heap_owns {} h1 h4 \<and> client_ok c' h4"
proof -
  obtain h4 where h4: "wirecall_values_free g (fst arr) (snd arr) h' = Some h4" "heap_owns {} h1 h4"
    using values_free_owns [OF d] by blast
  have own: "heap_owns (set (array_owns vals) \<union> (if fst arr = 0 then {} else {fst arr})) h1 h'"
    using d by (simp add: decoded_def)
  have "blk (c_read_buf c') \<subseteq> live h1" using b by (auto simp: block_frame_def)
  then have "heap_keep (blk (c_read_buf c')) h1 h'" "heap_keep (blk (c_read_buf c')) h1 h4"
    using heap_owns_keep [OF own] heap_owns_keep [OF h4(2)] heap_keep_mono by blast+
  then have "client_ok c' h4" using client_ok_keep(1) [OF ok] heap_owns_ok [OF h4(2)] by (simp add: heap_keep_def)
  then show ?thesis using h4 by blast
qed

lemma client_call_post:
  assumes ok: "client_ok c h" and recv: "recv_ok os (c_fd c) inbox patience" and send: "send_ok os (c_fd c) outbox patience' steady"
    and fd: "c_fd c \<ge> 0" and args: "payload_inv args h"
  shows "\<exists>rc arr count c' h' n'. client_call_id os be g proc_id args True True (Some c) h n = Some (rc, arr, count, Some c', h', n') \<and>
    call_post inbox outbox be proc_id (payload_of args h) c h n rc arr count c' h' n'"
proof -
  let ?c = "c\<lparr>c_next_call_id := c_next_call_id c + 1\<rparr>" and ?p = "payload_of args h"
  have eq: "client_view ?c h = client_view c h" "client_cut be ?c = client_cut be c" "\<And>p r. sent_packet be ?c WIRECALL_OP_RPC proc_id (c_next_call_id c) p r = sent_packet be c WIRECALL_OP_RPC proc_id (c_next_call_id c) p r"
    by (simp_all add: client_view_def client_cut_def sent_packet_def fun_eq_iff)
  have sel: "c_read_buf ?c = c_read_buf c" by simp
  have ok1: "client_ok ?c h" using ok by (simp add: client_ok_def)
  have key: "length (c_mac_key ?c) = 16" using ok by (simp add: client_ok_def)
  obtain rc c1 n1 request where s: "send_packet os be WIRECALL_OP_RPC proc_id (c_next_call_id c) args ?c h n = Some (rc, c1, n1)"
    "sent_packet be c WIRECALL_OP_RPC proc_id (c_next_call_id c) ?p request"
    "rc = 0 \<and> c1 = ?c \<and> outbox n1 = outbox n @ header_bytes request @ ?p \<or> rc = -1 \<and> c1 = set_error ?c ''send failed''"
    using send_packet_post [of os ?c outbox patience' steady WIRECALL_OP_RPC args h be proc_id "c_next_call_id c" n] send key args eq(3) by auto
  have b: "block_frame (c_read_buf c) h (c_read_buf c) h" using block_frame_refl [OF client_ok_blk [OF ok]] .
  have none: "heap_owns {} h h" using heap_owns_refl ok by (simp add: client_ok_def)
  show ?thesis
  proof (cases "rc = 0")
    case False
    then have c1: "c1 = set_error ?c ''send failed''" using s(3) by auto
    then have "call_post inbox outbox be proc_id ?p c h n (-1) (0, []) 0 c1 h n1"
      using ok1 b none unfolding call_post_def by (auto simp: set_error_def intro!: exI [of _ h])
    moreover have "client_call_id os be g proc_id args True True (Some c) h n = Some (-1, (0, []), 0, Some c1, h, n1)"
      using s(1) False fd by (simp add: client_call_id_def client_send_call_id_def Let_def)
    ultimately show ?thesis by blast
  next
    case True
    then have c1: "c1 = ?c" and out: "outbox n1 = outbox n @ header_bytes request @ ?p" using s(3) by auto
    obtain rc2 cid arr count c' h' n' where r:
      "wirecall_client_recv_response os be g True True True (Some ?c) h n1 = Some (rc2, cid, arr, count, Some c', h', n')"
      "response_post reliable inbox be ?c h n1 rc2 cid arr count c' h' n'"
      using recv_response_post [OF ok1, of os inbox patience be n1] recv fd by auto
    obtain h1 extra where x: "client_ok c' h'" "client_like ?c c'" "block_frame (c_read_buf c) h (c_read_buf c') h1"
      "rc2 = 0 \<and> (\<exists>header p cap vals pvs. client_cut be c (client_view c h @ inbox n1 @ extra) = Packet header p (client_view c' h' @ inbox n') \<and>
          h_op header = WIRECALL_OP_RESPONSE \<and> cid = h_call_id header \<and> parse_payload p = Some pvs \<and>
          decoded h1 (fst arr) (snd arr) count cap vals pvs h') \<or>
       rc2 = -1 \<and> arr = (0, []) \<and> count = 0 \<and> heap_owns {} h1 h'"
      using r(2) unfolding response_post_def eq by (simp only: sel) blast
    have nxt: "c_next_call_id c' = c_next_call_id c + 1" using x(2) by (simp add: client_like_def)
    have eq2: "client_call_id os be g proc_id args True True (Some c) h n =
       (if rc2 = 0 \<and> cid \<noteq> c_next_call_id c then do {
            h \<leftarrow> wirecall_values_free g (fst arr) (snd arr) h';
            Some (-1, (0, []), 0, Some (set_error c' ''unexpected call id''), h, n') }
          else Some (rc2, arr, count, Some c', h', n'))"
      using s(1) True fd r(1) c1 by (simp add: client_call_id_def client_send_call_id_def Let_def)
    consider (bad) "rc2 = -1" "arr = (0, [])" "count = 0" "heap_owns {} h1 h'"
      | (good) header p cap vals pvs where "rc2 = 0" "client_cut be c (client_view c h @ inbox n1 @ extra) = Packet header p (client_view c' h' @ inbox n')"
          "h_op header = WIRECALL_OP_RESPONSE" "cid = h_call_id header" "parse_payload p = Some pvs"
          "decoded h1 (fst arr) (snd arr) count cap vals pvs h'"
      using x(4) by blast
    then show ?thesis
    proof cases
      case bad
      then have "call_post inbox outbox be proc_id ?p c h n (-1) (0, []) 0 c' h' n'"
        using x(1,3) nxt unfolding call_post_def by blast
      then show ?thesis using eq2 bad by auto
    next
      case good
      show ?thesis
      proof (cases "cid = c_next_call_id c")
        case True
        then have "h_call_id header = c_next_call_id c" using good(4) by simp
        then have "call_post inbox outbox be proc_id ?p c h n 0 arr count c' h' n'"
          using x(1,3) nxt good s(2) out unfolding call_post_def by blast
        then show ?thesis using eq2 good(1) True by auto
      next
        case False
        obtain h4 where h4: "wirecall_values_free g (fst arr) (snd arr) h' = Some h4" "heap_owns {} h1 h4" "client_ok c' h4"
          using values_free_client [OF x(1,3) good(6)] by blast
        then have "call_post inbox outbox be proc_id ?p c h n (-1) (0, []) 0 (set_error c' ''unexpected call id'') h4 n'"
          using x(3) nxt h4(2,3) unfolding call_post_def by (auto simp: set_error_def)
        then show ?thesis using eq2 good(1) False h4(1) by auto
      qed
    qed
  qed
qed

end

section \<open>Connecting and closing\<close>

text \<open>
  \<open>fds n\<close> are the descriptors that are open: \<open>socket\<close> opens a new one, \<open>close\<close> closes the one it is
  given, and the other calls leave them alone.
\<close>

definition fds_ok :: "'n os \<Rightarrow> ('n \<Rightarrow> int set) \<Rightarrow> bool" where
  "fds_ok os fds \<longleftrightarrow>
     (\<forall>ai n. case os_socket os ai n of (fd, n') \<Rightarrow> if fd < 0 then fds n' = fds n else fd \<notin> fds n \<and> fds n' = insert fd (fds n)) \<and>
     (\<forall>fd n. fds (snd (os_close os fd n)) = fds n - {fd}) \<and>
     (\<forall>fd ai n. fds (snd (os_connect os fd ai n)) = fds n) \<and>
     (\<forall>host port passive n. fds (snd (os_getaddrinfo os host port passive n)) = fds n) \<and>
     (\<forall>fd iov n. fds (snd (os_sendmsg os fd iov n)) = fds n)"

lemma fds_okD:
  assumes "fds_ok os fds"
  shows "os_socket os ai n = (fd, n') \<Longrightarrow> if fd < 0 then fds n' = fds n else fd \<notin> fds n \<and> fds n' = insert fd (fds n)"
    and "os_close os fd n = (rc, n') \<Longrightarrow> fds n' = fds n - {fd}"
    and "os_connect os fd ai n = (rc, n') \<Longrightarrow> fds n' = fds n"
    and "os_getaddrinfo os host port passive n = (r, n') \<Longrightarrow> fds n' = fds n"
    and "os_sendmsg os fd iov n = (q, n') \<Longrightarrow> fds n' = fds n"
  using assms unfolding fds_ok_def by (metis (mono_tags, lifting) case_prod_conv snd_conv)+

lemma connect_loop_fds:
  assumes ok: "fds_ok os fds" and "connect_loop os ais n = (fd, n')"
  shows "if fd < 0 then fds n' = fds n else fd \<notin> fds n \<and> fds n' = insert fd (fds n)"
  using assms(2)
proof (induction ais arbitrary: n)
  case (Cons ai ais)
  obtain fd1 n1 where s: "os_socket os ai n = (fd1, n1)" by force
  have f: "if fd1 < 0 then fds n1 = fds n else fd1 \<notin> fds n \<and> fds n1 = insert fd1 (fds n)"
    using fds_okD(1) [OF ok s] .
  show ?case
  proof (cases "fd1 < 0")
    case True
    then have l: "connect_loop os ais n1 = (fd, n')" and e: "fds n1 = fds n"
      using Cons.prems s f by (simp_all add: wirecall_socket_create_def)
    show ?thesis using Cons.IH [OF l] unfolding e .
  next
    case False
    obtain rc n2 where c: "os_connect os fd1 ai n1 = (rc, n2)" by force
    have n2: "fds n2 = fds n1" using fds_okD(3) [OF ok c] .
    show ?thesis
    proof (cases "rc = 0")
      case True
      then show ?thesis using Cons.prems False s c f n2 by (simp add: wirecall_socket_create_def wirecall_socket_connect_def)
    next
      case rc: False
      obtain r n3 where cl: "os_close os fd1 n2 = (r, n3)" by force
      have "fds n3 = fds n2 - {fd1}" using fds_okD(2) [OF ok cl] .
      then have e: "fds n3 = fds n" using f False n2 by auto
      have l: "connect_loop os ais n3 = (fd, n')"
        using Cons.prems False rc s c cl by (simp add: wirecall_socket_create_def wirecall_socket_connect_def wirecall_socket_close_def)
      show ?thesis using Cons.IH [OF l] unfolding e .
    qed
  qed
qed simp

lemma send_iov_loop_fds:
  assumes "send_iov_loop os fd iov n = Some r" "fds_ok os fds"
  shows "fds (snd r) = fds n"
proof -
  have "fds_ok os fds \<longrightarrow> fds (snd r) = fds n"
  proof (rule send_iov_loop.raw_induct [where P = "\<lambda>os fd iov n r. fds_ok os fds \<longrightarrow> fds (snd r) = fds n", OF _ assms(1)], intro impI)
    fix loop os fd iov n r
    assume IH: "\<And>os fd iov n y. loop os fd iov n = Some y \<Longrightarrow> fds_ok os fds \<longrightarrow> fds (snd y) = fds n"
      and step: "(if 0 < length iov
          then let (r, n) = os_sendmsg os fd iov n
               in case r of Inl error \<Rightarrow> if wirecall_socket_interrupted error then loop os fd iov n else Some (- 1, n)
                  | Inr sent \<Rightarrow> if 0 < sent then loop os fd (iov_advance sent iov) n else Some (- 1, n)
          else Some (0, n)) = Some r" and ok: "fds_ok os fds"
    obtain q n1 where q: "os_sendmsg os fd iov n = (q, n1)" by force
    have "fds n1 = fds n" using fds_okD(5) [OF ok q] .
    then show "fds (snd r) = fds n" using step q IH ok by (cases q) (auto split: if_splits)
  qed
  then show ?thesis using assms(2) by simp
qed

lemma send_packet_fds:
  assumes "send_packet os be op proc_id call_id payload c h n = Some (rc, c', n')" "fds_ok os fds"
  shows "fds n' = fds n \<and> c_fd c' = c_fd c \<and> c_read_buf c' = c_read_buf c"
  using assms send_iov_loop_fds [of os "c_fd c" _ n _ fds]
  by (auto simp: send_packet_def send_iov_full_def set_error_def Let_def split: bind_splits if_splits)

lemma zero_client_ok: "heap_ok h \<Longrightarrow> client_ok (zero_client\<lparr>c_fd := fd, c_next_call_id := k, c_integrity := i\<rparr>) h"
  by (simp add: client_ok_def zero_client_def)

text \<open>What a client and its buffer leave behind when they are closed.\<close>

context library_memory
begin

lemma client_close_post:
  assumes fds: "fds_ok os fds" and send: "send_ok os (c_fd c) outbox patience steady" and key: "length (c_mac_key c) = 16"
    and own: "heap_owns (blk (c_read_buf c) \<union> {client}) h0 h" "client \<noteq> 0" "client \<noteq> c_read_buf c"
  shows "\<exists>h' n'. wirecall_client_close os be g client c h n = Some (h', n') \<and> heap_owns {} h0 h' \<and>
    fds n' = (if c_fd c < 0 then fds n else fds n - {c_fd c})"
proof -
  obtain h1 where h1: "wirecall_mem_free g (c_read_buf c) h = Some h1" "heap_owns {client} h0 h1"
  proof (cases "c_read_buf c = 0")
    case True
    then show ?thesis using that [of h] own(1) free_null_law by simp
  next
    case False
    then have b: "c_read_buf c \<in> blk (c_read_buf c) \<union> {client}" "blk (c_read_buf c) \<union> {client} - {c_read_buf c} = {client}"
      using own(3) by auto
    show ?thesis using free_owned [OF own(1) b(1)] that unfolding b(2) by blast
  qed
  obtain h2 where h2: "wirecall_mem_free g client h1 = Some h2" "heap_owns {} h0 h2"
    using free_owned [OF h1(2), of client] by (metis Diff_cancel singletonI)
  show ?thesis
  proof (cases "c_fd c < 0")
    case True
    then show ?thesis using h1(1) h2 own(2) by (simp add: wirecall_client_close_def)
  next
    case False
    let ?c = "c\<lparr>c_next_call_id := c_next_call_id c + 1\<rparr>"
    have snd: "send_ok os (c_fd ?c) outbox patience steady" and key': "length (c_mac_key ?c) = 16" using send key by simp_all
    obtain rc c1 n1 where s: "send_packet os be WIRECALL_OP_DISCONNECT 0 (c_next_call_id c) None ?c h n = Some (rc, c1, n1)"
      using send_packet_post [OF snd key', of WIRECALL_OP_DISCONNECT None h be 0 "c_next_call_id c" n]
      by (auto simp only: payload_inv_def option.case op_enum_ops)
    then have c1: "fds n1 = fds n" "c_fd c1 = c_fd c" "c_read_buf c1 = c_read_buf c" using send_packet_fds [OF s fds] by simp_all
    obtain r n2 where cl: "os_close os (c_fd c) n1 = (r, n2)" by force
    have "fds n2 = fds n - {c_fd c}" using fds_okD(2) [OF fds cl] c1(1) by simp
    moreover have "wirecall_client_close os be g client c h n = Some (h2, n2)"
      using False s c1 cl h1(1) h2(1) own(2) by (simp add: wirecall_client_close_def wirecall_socket_close_def)
    ultimately show ?thesis using False h2(2) by simp
  qed
qed

lemma client_connect_post:
  assumes fds: "fds_ok os fds" and send: "\<And>fd. send_ok os fd outbox patience steady" and h: "heap_ok h"
  shows "\<exists>rc out h' n'. wirecall_client_connect os be g True host (Some port) h n = Some (rc, out, h', n') \<and>
    (rc = -1 \<and> out = None \<and> heap_owns {} h h' \<and> fds n' = fds n \<or>
     rc = 0 \<and> (\<exists>client c. out = Some (client, c) \<and> client \<noteq> 0 \<and> client_ok c h' \<and> c_read_buf c = 0 \<and> c_fd c \<ge> 0 \<and>
        c_fd c \<notin> fds n \<and> fds n' = insert (c_fd c) (fds n) \<and> heap_owns {client} h h'))"
proof -
  have sz: "0 < sizeof_client" "sizeof_client \<le> SIZE_MAX" by (simp_all add: sizeof_client_def SIZE_MAX_def)
  from h sz show ?thesis
  proof (cases rule: calloc_cases)
    case (fail h1)
    then show ?thesis by (auto simp: wirecall_client_connect_def)
  next
    case (fresh client h1)
    let ?c = "zero_client\<lparr>c_fd := -1, c_next_call_id := 1, c_integrity := WIRECALL_INTEGRITY_DEFAULT\<rparr>"
    have c0: "length (c_mac_key ?c) = 16" "c_read_buf ?c = 0" "client_ok ?c h1"
      using zero_client_ok [OF heap_owns_ok [OF fresh(3)]] by (simp_all add: zero_client_def)
    obtain rc res n1 where ga: "os_getaddrinfo os host port False n = ((rc, res), n1)" by (metis prod.exhaust)
    have n1: "fds n1 = fds n" using fds_okD(4) [OF fds ga] .
    have close: "\<exists>h' n'. wirecall_client_close os be g client (?c\<lparr>c_fd := fd\<rparr>) h1 m = Some (h', n') \<and> heap_owns {} h h' \<and> fds n' = fds m"
      if "fd < 0" for fd m
      using client_close_post [OF fds send, of "?c\<lparr>c_fd := fd\<rparr>" client h h1 be m] fresh(2,3) c0 that by simp
    show ?thesis
    proof (cases "rc = 0")
      case False
      have e: "?c\<lparr>c_fd := -1\<rparr> = ?c" by simp
      obtain h' n' where "wirecall_client_close os be g client ?c h1 n1 = Some (h', n')" "heap_owns {} h h'" "fds n' = fds n1"
        using close [of "-1" n1] unfolding e by auto
      then show ?thesis using fresh(1,2) ga False n1 by (auto simp: wirecall_client_connect_def)
    next
      case True
      obtain fd n2 where lp: "connect_loop os res n1 = (fd, n2)" by force
      note f = connect_loop_fds [OF fds lp]
      show ?thesis
      proof (cases "fd < 0")
        case neg: True
        obtain h' n' where "wirecall_client_close os be g client (?c\<lparr>c_fd := fd\<rparr>) h1 n2 = Some (h', n')" "heap_owns {} h h'" "fds n' = fds n2"
          using close [OF neg] by blast
        then show ?thesis using fresh(1,2) ga True n1 lp f neg by (auto simp: wirecall_client_connect_def)
      next
        case pos: False
        have "client_ok (?c\<lparr>c_fd := fd\<rparr>) h1" using heap_owns_ok [OF fresh(3)] by (simp add: client_ok_def zero_client_def)
        then show ?thesis using fresh(1-3) ga True n1 lp f pos c0(2) by (auto simp: wirecall_client_connect_def)
      qed
    qed
  qed
qed

end

section \<open>The properties\<close>

text \<open>An operating system to try them on: every other call is interrupted, and bytes come and go one or three at a time.\<close>

record drip =
  d_in :: "u8 list"
  d_out :: "u8 list"
  d_tick :: nat
  d_fds :: "int set"

definition drip_patience :: "drip \<Rightarrow> nat" where
  "drip_patience n = d_tick n mod 2"

definition drip_os :: "drip os" where
  "drip_os = \<lparr>os_sysconf = (\<lambda>n. (4, n)),
     os_getaddrinfo = (\<lambda>host port passive n. ((0, [Sockaddr_in 80 [1], Sockaddr_in6 80 [2]]), n)),
     os_socket = (\<lambda>ai n. if 3 \<in> d_fds n then (-1, n) else (3, n\<lparr>d_fds := insert 3 (d_fds n)\<rparr>)),
     os_connect = (\<lambda>fd ai n. (if ai = Sockaddr_in 80 [1] then -1 else 0, n)),
     os_bind = (\<lambda>fd ai n. (0, n)), os_getsockname = (\<lambda>fd n. (None, n)), os_listen = (\<lambda>fd n. (0, n)),
     os_accept = (\<lambda>fd n. (Inl EAGAIN, n)), os_fcntl_get = (\<lambda>fd n. (0, n)), os_fcntl_set = (\<lambda>fd f n. (0, n)),
     os_setsockopt = (\<lambda>fd n. (0, n)), os_close = (\<lambda>fd n. (0, n\<lparr>d_fds := d_fds n - {fd}\<rparr>)),
     os_recv = (\<lambda>fd len n. if odd (d_tick n) then (Inl EINTR, n\<lparr>d_tick := d_tick n + 1\<rparr>)
        else (Inr (take 1 (d_in n)), n\<lparr>d_in := drop 1 (d_in n), d_tick := d_tick n + 1\<rparr>)),
     os_send = (\<lambda>fd bs n. (Inr (length bs), n\<lparr>d_out := d_out n @ bs\<rparr>)),
     os_sendmsg = (\<lambda>fd iov n. if odd (d_tick n) then (Inl EINTR, n\<lparr>d_tick := d_tick n + 1\<rparr>)
        else (Inr (min 3 (length (concat iov))), n\<lparr>d_out := d_out n @ take 3 (concat iov), d_tick := d_tick n + 1\<rparr>)),
     os_clock = (\<lambda>n. ((0, 0), n))\<rparr>"

definition drip0 :: drip where
  "drip0 = \<lparr>d_in = [], d_out = [], d_tick = 1, d_fds = {}\<rparr>"

definition client0 :: wirecall_client where
  "client0 = zero_client\<lparr>c_fd := 3, c_next_call_id := 1, c_integrity := WIRECALL_INTEGRITY_DEFAULT\<rparr>"

lemma drip_recv: "recv_ok drip_os fd d_in drip_patience"
proof -
  have "length (take 1 xs) \<le> len \<and> (\<exists>extra. xs @ extra = take 1 xs @ drop 1 xs) \<and> (take 1 xs = [] \<longrightarrow> xs = [])"
    if "0 < len" for xs :: "u8 list" and len
    using that by (cases xs) (auto intro: exI [of _ "[]"])
  then show ?thesis unfolding recv_ok_def drip_os_def drip_patience_def by (auto simp: even_iff_mod_2_eq_zero mod_Suc)
qed

lemma drip_recv_any: "recv_ok drip_os fd (\<lambda>_. []) drip_patience"
  unfolding recv_ok_def drip_os_def drip_patience_def by (auto simp: even_iff_mod_2_eq_zero mod_Suc)

lemma drip_send: "send_ok drip_os fd d_out drip_patience True"
  unfolding send_ok_def drip_os_def drip_patience_def
  by (auto simp: even_iff_mod_2_eq_zero mod_Suc min_def)

lemma drip_fds: "fds_ok drip_os d_fds"
  by (simp add: fds_ok_def drip_os_def)

lemma client0_ok: "heap_ok h \<Longrightarrow> client_ok client0 h \<and> c_fd client0 = 3 \<and> client_view client0 h = [] \<and> length (c_mac_key client0) = 16"
  by (simp add: client0_def zero_client_def client_ok_def client_view_def)

text \<open>
  C13: Packets survive the trip through the client's read buffer.  Let the unread bytes of the
  client and those still in transit begin with a packet that somebody has signed and encoded with
  the client's key.  However the bytes arrive, in pieces of any size and with any
  number of interruptions, \<open>recv_packet\<close> returns with that packet's header and a copy of its payload, and what
  is left to read is what came behind it.
\<close>

theorem client_receives_packet:
  assumes "client_ok c h" "never_fails h" "recv_ok os (c_fd c) inbox patience"
    and "op_enum (h_op header0)" "sign_ok header0 (Some p) (length p) (c_integrity c) (Some (c_mac_key c))"
    and "wirecall_packet_sign_ex be (Some header0) (Some p) (length p) (c_integrity c) (Some (c_mac_key c)) = Some (0, Some header)"
    and "wirecall_header_encode (Some header) (Some (replicate WIRECALL_HEADER_SIZE 0)) = Some (0, Some bytes)"
    and "client_view c h @ inbox n = bytes @ p @ rest"
  shows "\<exists>body c' h' n' extra. recv_packet os be no_allocator c h n = Some (0, header, body, c', h', n') \<and>
    hp_read body 0 (length p) h' = Some p \<and> client_ok c' h' \<and> client_view c' h' @ inbox n' = rest @ extra"
proof -
  have w: "bytes = header_bytes header" "client_cut be c (header_bytes header @ p @ rest) = Packet header p rest"
    using packet_on_wire [OF assms(4,5), of be] assms(6,7) by (auto simp: payload_bytes_def client_cut_def)
  obtain rc header' body c' h' n' h1 extra where r: "recv_packet os be no_allocator c h n = Some (rc, header', body, c', h', n')"
    "client_ok c' h'"
    "rc = 0 \<and> (\<exists>q. client_cut be c (client_view c h @ inbox n @ extra) = Packet header' q (client_view c' h' @ inbox n') \<and>
          hp_size h' body = Some (if q = [] then 1 else length q) \<and> map (hp_bytes h' body) [0..<length q] = q) \<or>
     rc = -1 \<and> (\<forall>hx q rest. client_cut be c (client_view c h @ inbox n) \<noteq> Packet hx q rest)"
    using plain_memory.recv_packet_post [OF assms(1,3), of be n] assms(2) unfolding recv_post_def by blast
  then obtain q where q: "rc = 0" "client_cut be c (client_view c h @ inbox n @ extra) = Packet header' q (client_view c' h' @ inbox n')"
    "hp_size h' body = Some (if q = [] then 1 else length q)" "map (hp_bytes h' body) [0..<length q] = q"
    using w assms(8) by auto
  have "client_cut be c (client_view c h @ inbox n @ extra) = Packet header p (rest @ extra)"
    using cut_packet_append [of be "c_integrity c" "c_mac_key c" "header_bytes header @ p @ rest" extra] w assms(8)
    by (simp add: client_cut_def flip: append_assoc)
  then have "header' = header" "q = p" "client_view c' h' @ inbox n' = rest @ extra" using q(2) by auto
  moreover have "hp_read body 0 (length q) h' = Some q" using hp_read_Some [OF q(3), of 0 "length q"] q(4) by auto
  ultimately show ?thesis using r(1,2) q(1) by blast
qed

theorem client_receives_packet_witness:
  "\<exists>header bytes body c' h' n' extra.
    wirecall_packet_sign_ex False (Some (zero_header\<lparr>h_op := WIRECALL_OP_RESPONSE, h_size := 2, h_call_id := 1\<rparr>)) (Some [0, 0])
      (length [0, 0 :: u8]) (c_integrity client0) (Some (c_mac_key client0)) = Some (0, Some header) \<and>
    recv_packet drip_os False no_allocator client0 heap0 (drip0\<lparr>d_in := bytes @ [0, 0] @ [7]\<rparr>) = Some (0, header, body, c', h', n') \<and>
    hp_read body 0 (length [0, 0 :: u8]) h' = Some [0, 0] \<and> client_ok c' h' \<and> client_view c' h' @ d_in n' = [7] @ extra"
proof -
  let ?h = "zero_header\<lparr>h_op := WIRECALL_OP_RESPONSE, h_size := 2, h_call_id := 1\<rparr>"
  have nf: "never_fails heap0" by (simp add: never_fails_def heap0_def)
  have s: "sign_ok ?h (Some [0, 0]) (length [0, 0 :: u8]) (c_integrity client0) (Some (c_mac_key client0))"
    using client0_ok [of heap0] by (simp add: sign_ok_def payload_ok_def payload_bytes_def key_ok_def WIRECALL_MAX_PAYLOAD_SIZE_def)
  have o: "op_enum (h_op ?h)" by simp
  obtain header where h: "wirecall_packet_sign_ex False (Some ?h) (Some [0, 0]) (length [0, 0 :: u8]) (c_integrity client0) (Some (c_mac_key client0)) = Some (0, Some header)"
    "wirecall_header_encode (Some header) (Some (replicate WIRECALL_HEADER_SIZE 0)) = Some (0, Some (header_bytes header))"
    using packet_on_wire [OF o s, of False] by (auto simp: payload_bytes_def)
  have "client_view client0 heap0 @ d_in (drip0\<lparr>d_in := header_bytes header @ [0, 0] @ [7]\<rparr>) = header_bytes header @ [0, 0] @ [7]"
    using client0_ok [of heap0] by simp
  from client_receives_packet [OF conjunct1 [OF client0_ok [OF heap_ok_heap0]] nf drip_recv o s h this]
  show ?thesis using h(1) by blast
qed

text \<open>
  C27: Sending is complete and in order.  Whatever part of the data each system call accepts
  and however often it is interrupted, \<open>send_packet\<close> terminates; when it reports success, exactly the 34 bytes
  of a header with the given operation, ids and size and then the payload have been added to
  what was sent, and a peer with the same key cuts this packet off again; it fails only if the
  system call does.
\<close>

theorem client_sends_packet:
  assumes "send_ok os (c_fd c) outbox patience steady" "length (c_mac_key c) = 16" "op_enum op" "payload_inv payload h"
  shows "\<exists>rc c' n' header. send_packet os be op proc_id call_id payload c h n = Some (rc, c', n') \<and>
    sent_packet be c op proc_id call_id (payload_of payload h) header \<and>
    (rc = 0 \<and> c' = c \<and> outbox n' = outbox n @ header_bytes header @ payload_of payload h \<or>
     rc = -1 \<and> c' = set_error c ''send failed'' \<and> \<not> steady \<and>
       (\<exists>k. outbox n' = outbox n @ take k (header_bytes header @ payload_of payload h)))"
  using assms by (rule send_packet_post)

theorem client_sends_packet_witness:
  "\<exists>c' n' header. send_packet drip_os True WIRECALL_OP_PING 0 9 None client0 heap0 drip0 = Some (0, c', n') \<and>
    sent_packet True client0 WIRECALL_OP_PING 0 9 [] header \<and> d_out n' = header_bytes header"
  using client_sends_packet [OF drip_send, of client0 WIRECALL_OP_PING None heap0 True 0 9 drip0] client0_ok [of heap0]
  by (auto simp: payload_inv_def payload_of_def drip0_def)

text \<open>
  C15: No server can harm the client.  Whatever bytes arrive, and whichever allocations fail,
  \<open>wirecall_client_recv_response\<close> terminates without an access outside of live memory; it keeps the
  client's invariant; on success the values belong to the caller and everything else that was
  allocated on the way has been freed, and on failure nothing is left but the read buffer, which
  may have grown but never beyond twice the largest packet.
\<close>

theorem client_survives_any_server:
  assumes "mem_ok g" "client_ok c h" "c_fd c \<ge> 0" "recv_ok os (c_fd c) (\<lambda>_. []) patience"
  shows "\<exists>rc cid arr count c' h' n'.
    wirecall_client_recv_response os be g True True True (Some c) h n = Some (rc, cid, arr, count, Some c', h', n') \<and>
    client_ok c' h' \<and> c_read_cap c' \<le> CLIENT_CAP_LIMIT \<and>
    (\<exists>h1. block_frame (c_read_buf c) h (c_read_buf c') h1 \<and>
       (rc = 0 \<and> (\<exists>cap vals pvs. decoded h1 (fst arr) (snd arr) count cap vals pvs h') \<or>
        rc = -1 \<and> arr = (0, []) \<and> heap_owns {} h1 h'))"
proof -
  obtain rc cid arr count c' h' n' where r:
    "wirecall_client_recv_response os be g True True True (Some c) h n = Some (rc, cid, arr, count, Some c', h', n')"
    "response_post (\<lambda>_. False) (\<lambda>_. []) be c h n rc cid arr count c' h' n'"
    using library_memory.recv_response_post [OF library_memory_any [OF assms(1)] assms(2,4,3)] by blast
  then have "client_ok c' h'" "c_read_cap c' \<le> CLIENT_CAP_LIMIT" by (simp_all add: response_post_def client_ok_def)
  then show ?thesis using r unfolding response_post_def by blast
qed

theorem client_survives_any_server_witness:
  "\<exists>rc cid arr count c' h' n'.
    wirecall_client_recv_response drip_os False (embed_allocator 7) True True True (Some client0) heap0 (drip0\<lparr>d_in := replicate 40 255\<rparr>) =
      Some (rc, cid, arr, count, Some c', h', n') \<and>
    client_ok c' h' \<and> c_read_cap c' \<le> CLIENT_CAP_LIMIT \<and>
    (\<exists>h1. block_frame (c_read_buf client0) heap0 (c_read_buf c') h1 \<and>
       (rc = 0 \<and> (\<exists>cap vals pvs. decoded h1 (fst arr) (snd arr) count cap vals pvs h') \<or>
        rc = -1 \<and> arr = (0, []) \<and> heap_owns {} h1 h'))"
  by (rule client_survives_any_server [OF _ _ _ drip_recv_any]) (use client0_ok [of heap0] in simp_all)

text \<open>
  C8: A call returns the answer to its own request.  Whatever the allocator and the
  sockets do, \<open>client_call_id\<close> takes a new call id and terminates; when it succeeds, the whole request
  was sent under that id, the next packet of the stream was a response with the same id, and the
  values returned are the ones its payload stands for; a response to another call is never
  returned, and a failed call leaves nothing allocated.
\<close>

theorem client_call_answers_request:
  assumes "mem_ok g" "client_ok c h" "c_fd c \<ge> 0" "payload_inv args h"
    and "recv_ok os (c_fd c) inbox patience" "send_ok os (c_fd c) outbox patience' steady"
  shows "\<exists>rc arr count c' h' n'. client_call_id os be g proc_id args True True (Some c) h n = Some (rc, arr, count, Some c', h', n') \<and>
    client_ok c' h' \<and> c_next_call_id c' = c_next_call_id c + 1 \<and>
    (\<exists>h1. block_frame (c_read_buf c) h (c_read_buf c') h1 \<and>
       (rc = 0 \<and> (\<exists>request n1 extra header p cap vals pvs.
            sent_packet be c WIRECALL_OP_RPC proc_id (c_next_call_id c) (payload_of args h) request \<and>
            outbox n1 = outbox n @ header_bytes request @ payload_of args h \<and>
            client_cut be c (client_view c h @ inbox n1 @ extra) = Packet header p (client_view c' h' @ inbox n') \<and>
            h_op header = WIRECALL_OP_RESPONSE \<and> h_call_id header = c_next_call_id c \<and> parse_payload p = Some pvs \<and>
            decoded h1 (fst arr) (snd arr) count cap vals pvs h') \<or>
        rc = -1 \<and> arr = (0, []) \<and> count = 0 \<and> heap_owns {} h1 h'))"
  by (rule library_memory.client_call_post [OF library_memory_any [OF assms(1)] assms(2,5,6,3,4), unfolded call_post_def])

theorem client_call_answers_request_witness:
  "\<exists>rc arr count c' h' n'. client_call_id drip_os False no_allocator 77 None True True (Some client0) heap0
      (drip0\<lparr>d_in := replicate 40 1\<rparr>) = Some (rc, arr, count, Some c', h', n') \<and> c_next_call_id c' = 2"
proof -
  have "1 + 1 = (2 :: u64)" by simp
  then show ?thesis
    using client_call_answers_request [OF mem_ok_no_allocator conjunct1 [OF client0_ok [OF heap_ok_heap0]] _ _ drip_recv drip_send,
        of None False 77 "drip0\<lparr>d_in := replicate 40 1\<rparr>"]
    by (fastforce simp: client0_def payload_inv_def)
qed

text \<open>
  C35: Connecting and closing are balanced.  \<open>wirecall_client_connect\<close> either fails, and then every
  socket it has opened is closed and its memory is freed, or succeeds with a client that satisfies
  the invariant and exactly one new descriptor; closing that client gives back the memory and the
  descriptor.  The list of addresses that the resolver allocates is not part of the account.
\<close>

theorem client_connect_close_balanced:
  assumes "mem_ok g" "heap_ok h" "fds_ok os fds" "\<And>fd. send_ok os fd outbox patience steady"
  shows "\<exists>rc out h' n'. wirecall_client_connect os be g True host (Some port) h n = Some (rc, out, h', n') \<and>
    (rc = -1 \<and> out = None \<and> heap_owns {} h h' \<and> fds n' = fds n \<or>
     rc = 0 \<and> (\<exists>client c. out = Some (client, c) \<and> client_ok c h' \<and> c_fd c \<notin> fds n \<and> fds n' = insert (c_fd c) (fds n) \<and>
        heap_owns {client} h h' \<and>
        (\<exists>h'' n''. wirecall_client_close os be g client c h' n' = Some (h'', n'') \<and> heap_owns {} h h'' \<and> fds n'' = fds n)))"
proof -
  note mem = library_memory_any [OF assms(1)]
  obtain rc out h' n' where r: "wirecall_client_connect os be g True host (Some port) h n = Some (rc, out, h', n')"
    "rc = -1 \<and> out = None \<and> heap_owns {} h h' \<and> fds n' = fds n \<or>
     rc = 0 \<and> (\<exists>client c. out = Some (client, c) \<and> client \<noteq> 0 \<and> client_ok c h' \<and> c_read_buf c = 0 \<and> c_fd c \<ge> 0 \<and>
        c_fd c \<notin> fds n \<and> fds n' = insert (c_fd c) (fds n) \<and> heap_owns {client} h h')"
    using library_memory.client_connect_post [OF mem assms(3,4,2), of be host port n] by (elim exE conjE)
  show ?thesis
  proof (cases "rc = 0")
    case False
    then have "rc = -1 \<and> out = None \<and> heap_owns {} h h' \<and> fds n' = fds n" using r(2) by simp
    then show ?thesis using r(1) by (intro exI [of _ rc] exI [of _ out] exI [of _ h'] exI [of _ n'] conjI disjI1) simp_all
  next
    case True
    then have "\<exists>client c. out = Some (client, c) \<and> client \<noteq> 0 \<and> client_ok c h' \<and> c_read_buf c = 0 \<and> c_fd c \<ge> 0 \<and>
        c_fd c \<notin> fds n \<and> fds n' = insert (c_fd c) (fds n) \<and> heap_owns {client} h h'"
      using r(2) by simp
    then obtain client c where c: "out = Some (client, c)" "client \<noteq> 0" "client_ok c h'" "c_read_buf c = 0" "c_fd c \<ge> 0"
      "c_fd c \<notin> fds n" "fds n' = insert (c_fd c) (fds n)" "heap_owns {client} h h'"
      by (elim exE conjE)
    have ne: "client \<noteq> c_read_buf c" using c(2,4) by simp
    have key: "length (c_mac_key c) = 16" and own: "heap_owns (blk (c_read_buf c) \<union> {client}) h h'"
      using c(3,4,8) by (simp_all add: client_ok_def)
    obtain h'' n'' where cl: "wirecall_client_close os be g client c h' n' = Some (h'', n'')" "heap_owns {} h h''"
      "fds n'' = (if c_fd c < 0 then fds n' else fds n' - {c_fd c})"
      using library_memory.client_close_post [OF mem assms(3,4) key own c(2) ne, of be n'] by (elim exE conjE)
    have "fds n'' = fds n" using cl(3) c(5-7) by auto
    then show ?thesis using r(1) c True cl(1,2)
      by (intro exI [of _ rc] exI [of _ out] exI [of _ h'] exI [of _ n'] conjI disjI2 exI [of _ client] exI [of _ c]
          exI [of _ h''] exI [of _ n'']) simp_all
  qed
qed

theorem client_connect_close_balanced_witness:
  "\<exists>rc out h' n'. wirecall_client_connect drip_os False no_allocator True None (Some [56, 48]) heap0 drip0 = Some (rc, out, h', n') \<and>
    (rc = -1 \<and> out = None \<and> heap_owns {} heap0 h' \<and> d_fds n' = d_fds drip0 \<or>
     rc = 0 \<and> (\<exists>client c. out = Some (client, c) \<and> client_ok c h' \<and> c_fd c \<notin> d_fds drip0 \<and> d_fds n' = insert (c_fd c) (d_fds drip0) \<and>
        heap_owns {client} heap0 h' \<and>
        (\<exists>h'' n''. wirecall_client_close drip_os False no_allocator client c h' n' = Some (h'', n'') \<and> heap_owns {} heap0 h'' \<and>
           d_fds n'' = d_fds drip0)))"
  by (rule client_connect_close_balanced [OF mem_ok_no_allocator heap_ok_heap0 drip_fds drip_send])

end
