(* ===== verification/Server_Stream.thy ===== *)
theory Server_Stream
imports Server_Calls Client_Calls
begin

text \<open>
  A connection as a stream: \<open>connection_read\<close> takes in what the peer has sent, in whatever pieces the socket
  gives it, and answers the packets of the stream; \<open>connection_write\<close> sends the answers.
\<close>

section \<open>The socket\<close>

text \<open>
  \<open>inbox n\<close> are the bytes that wait on the socket: \<open>recv\<close> returns a part of them from the front, fails only when
  there are none, and is not interrupted forever.
\<close>

definition recv_stream :: "'n os \<Rightarrow> int \<Rightarrow> ('n \<Rightarrow> u8 list) \<Rightarrow> ('n \<Rightarrow> nat) \<Rightarrow> bool" where
  "recv_stream os fd inbox patience \<longleftrightarrow>
     (\<forall>n len. 0 < len \<longrightarrow>
        (case os_recv os fd len n of
           (Inr bs, n') \<Rightarrow> length bs \<le> len \<and> inbox n = bs @ inbox n' \<and> (bs = [] \<longrightarrow> inbox n = [])
         | (Inl e, n') \<Rightarrow> inbox n' = inbox n \<and> (if e = EINTR then patience n' < patience n else inbox n = [])))"

lemma recv_streamD:
  assumes "recv_stream os fd inbox patience" "0 < len"
  obtains (got) bs n' where "os_recv os fd len n = (Inr bs, n')" "bs \<noteq> []" "length bs \<le> len" "inbox n = bs @ inbox n'"
  | (eof) n' where "os_recv os fd len n = (Inr [], n')" "inbox n = []" "inbox n' = []"
  | (intr) n' where "os_recv os fd len n = (Inl EINTR, n')" "inbox n' = inbox n" "patience n' < patience n"
  | (fail) e n' where "os_recv os fd len n = (Inl e, n')" "e \<noteq> EINTR" "inbox n = []" "inbox n' = []"
proof -
  obtain r n' where r: "os_recv os fd len n = (r, n')" by force
  have *: "case (r, n') of
           (Inr bs, n') \<Rightarrow> length bs \<le> len \<and> inbox n = bs @ inbox n' \<and> (bs = [] \<longrightarrow> inbox n = [])
         | (Inl e, n') \<Rightarrow> inbox n' = inbox n \<and> (if e = EINTR then patience n' < patience n else inbox n = [])"
    using mp [OF spec [OF spec [OF assms(1) [unfolded recv_stream_def], of n], of len] assms(2)] unfolding r .
  show ?thesis
  proof (cases r)
    case (Inl e)
    then show ?thesis using * r intr [of n'] fail [of e n'] by (cases "e = EINTR") simp_all
  next
    case (Inr bs)
    then show ?thesis using * r got [of bs n'] eof [of n'] by (cases "bs = []") auto
  qed
qed

section \<open>Reading\<close>

definition read_room :: "nat \<Rightarrow> wirecall_connection \<Rightarrow> bool" where
  "read_room k c \<longleftrightarrow> 2 * (cn_read_len c + k + WIRECALL_READ_CHUNK) \<le> SIZE_MAX"

text \<open>The state with a read buffer of its own size.\<close>

definition reserve_post ::
  "(heap \<Rightarrow> bool) \<Rightarrow> nat set \<Rightarrow> (u64 \<Rightarrow> wirecall_route option) \<Rightarrow> heap \<Rightarrow> nat \<Rightarrow> wirecall_connection \<Rightarrow>
     ('f, 'n wirecall_server) sched \<Rightarrow> wirecall_connection \<Rightarrow> ('f, 'n wirecall_server) sched \<Rightarrow> bool" where
  "reserve_post reliable A m h0 p c s c' s' \<longleftrightarrow>
     serving A m h0 p c' s' \<and> c' = c\<lparr>cn_read_buf := cn_read_buf c', cn_read_cap := cn_read_cap c'\<rparr> \<and>
     s' = s\<lparr>s_heap := s_heap s', s_world := set_conn p c' (s_world s)\<rparr> \<and> (reliable (s_heap s) \<longrightarrow> reliable (s_heap s')) \<and>
     conn_in c' (s_heap s') = conn_in c (s_heap s) \<and> conn_out c' (s_heap s') = conn_out c (s_heap s)"

context library_memory
begin

lemma read_reserve_post:
  assumes g: "e_g E = g" and s: "serving A m h0 p c s" and room: "read_room k c"
  shows "\<exists>rc c' s'. on_server (read_reserve E p) s = Some (rc, s') \<and> reserve_post reliable A m h0 p c s c' s' \<and>
    (rc = 0 \<and> cn_read_len c + WIRECALL_READ_CHUNK \<le> cn_read_cap c' \<or> rc = -1 \<and> \<not> reliable (s_heap s))"
proof -
  have c: "sv_conns (s_world s) p = Some c" and ok: "conn_ok A h0 c (s_heap s)" using s by (simp_all add: serving_def conn_open_def)
  have le: "cn_read_len c \<le> cn_read_cap c" using conn_ok_bufs(1) [OF ok] by (simp add: buf_ok_def)
  show ?thesis
  proof (cases "cn_read_cap c - cn_read_len c < WIRECALL_READ_CHUNK")
    case False
    then have "on_server (read_reserve E p) s = Some (0, s)" using c le by (simp add: on_server_def read_reserve_def)
    moreover have "reserve_post reliable A m h0 p c s c s" using s set_conn_same [OF c] by (simp add: reserve_post_def)
    ultimately show ?thesis using False le by (intro exI [of _ 0] exI [of _ c] exI [of _ s]) simp
  next
    case True
    have need: "2 * (cn_read_len c + WIRECALL_READ_CHUNK) \<le> SIZE_MAX" using room by (simp add: read_room_def)
    obtain rc buf cap h' where r: "reserve_bytes g (cn_read_buf c) (cn_read_cap c) (cn_read_len c + WIRECALL_READ_CHUNK) (s_heap s) = Some (rc, buf, cap, h')"
      "buf_post reliable (cn_read_buf c) (cn_read_len c) (s_heap s) [] buf (cn_read_len c) cap h'"
      "rc = 0 \<and> cn_read_len c + WIRECALL_READ_CHUNK \<le> cap \<or> rc = -1 \<and> \<not> reliable (s_heap s)"
      using reserve_bytes_post [OF conn_ok_heap [OF ok] conn_ok_bufs(1) [OF ok] need] by blast
    have b: "block_frame (cn_read_buf c) (s_heap s) buf h'" "heap_ok h'" "buf_ok buf (cn_read_len c) cap h'"
      "buf_view buf (cn_read_len c) h' = conn_in c (s_heap s)" "reliable (s_heap s) \<longrightarrow> reliable h'"
      using r(2) by (simp_all add: buf_post_def conn_in_def)
    let ?c = "c\<lparr>cn_read_buf := buf, cn_read_cap := cap\<rparr>"
    let ?s = "s\<lparr>s_heap := h', s_world := set_conn p ?c (s_world s)\<rparr>"
    have e: "c\<lparr>cn_read_buf := buf, cn_read_len := cn_read_len c, cn_read_cap := cap\<rparr> = ?c" by simp
    note ch = serving_read_change [OF s b(1-3), unfolded e b(4)]
    have "on_server (read_reserve E p) s = Some (rc, ?s)"
      using c le True g r(1) need by (simp add: on_server_def read_reserve_def conn_upd_Some sz_add_exact)
    moreover have "reserve_post reliable A m h0 p c s ?c ?s" using ch b(5) by (simp add: reserve_post_def)
    ultimately show ?thesis using r(3) by (intro exI [of _ rc] exI [of _ ?c] exI [of _ ?s]) simp
  qed
qed

text \<open>Bytes that have arrived in the read buffer.\<close>

lemma serving_receive:
  assumes s: "serving A m h0 p c s" and fits: "cn_read_len c + length bs \<le> cn_read_cap c" and ne: "bs \<noteq> []"
  defines "c' \<equiv> c\<lparr>cn_read_len := cn_read_len c + length bs\<rparr>"
  shows "\<exists>h'. hp_write (cn_read_buf c) (cn_read_len c) bs (s_heap s) = Some h' \<and>
    serving A m h0 p c' (s\<lparr>s_heap := h', s_world := set_conn p c' ((s_world s)\<lparr>sv_net := n\<rparr>)\<rparr>) \<and>
    (reliable (s_heap s) \<longrightarrow> reliable h') \<and> conn_in c' h' = conn_in c (s_heap s) @ bs \<and> conn_out c' h' = conn_out c (s_heap s)"
proof -
  have ok: "conn_ok A h0 c (s_heap s)" using s by (simp add: serving_def)
  obtain b where b: "hp_write (cn_read_buf c) (cn_read_len c) bs (s_heap s) = Some ((s_heap s)\<lparr>hp_bytes := b\<rparr>)"
    "buf_ok (cn_read_buf c) (cn_read_len c + length bs) (cn_read_cap c) ((s_heap s)\<lparr>hp_bytes := b\<rparr>)"
    "buf_view (cn_read_buf c) (cn_read_len c + length bs) ((s_heap s)\<lparr>hp_bytes := b\<rparr>) = conn_in c (s_heap s) @ bs"
    "block_frame (cn_read_buf c) (s_heap s) (cn_read_buf c) ((s_heap s)\<lparr>hp_bytes := b\<rparr>)"
    using buf_store [OF conn_ok_bufs(1) [OF ok] fits ne] unfolding conn_in_def by blast
  have hb: "heap_ok ((s_heap s)\<lparr>hp_bytes := b\<rparr>)" using conn_ok_heap [OF ok] by (simp add: heap_ok_def)
  let ?s = "s\<lparr>s_world := (s_world s)\<lparr>sv_net := n\<rparr>\<rparr>"
  have "serving A m h0 p c ?s" using s by simp
  from serving_read_change [OF this, of "cn_read_buf c" "(s_heap s)\<lparr>hp_bytes := b\<rparr>", OF _ hb b(2)] b(3,4)
  show ?thesis using b(1) write_reliable by (intro exI [of _ "(s_heap s)\<lparr>hp_bytes := b\<rparr>"]) (simp add: c'_def)
qed

text \<open>One round of the loop: the end of the reading, an interruption, or bytes to be parsed.\<close>

lemma connection_read_step:
  assumes g: "e_g E = g" and s: "serving A m h0 p c s" and room: "read_room k c" and recv: "recv_stream (e_os E) (cn_fd c) inbox patience"
  obtains (fail) c' s' where "connection_read E p s = Some s'" "cn_closing c'" "\<not> reliable (s_heap s)"
      "absorbed reliable serve be A m h0 p c s [] (conn_in c (s_heap s)) c' s'" "inbox (sv_net (s_world s')) = inbox (sv_net (s_world s))"
  | (empty) c' s' where "connection_read E p s = Some s'" "absorbed reliable serve be A m h0 p c s [] (conn_in c (s_heap s)) c' s'"
      "inbox (sv_net (s_world s)) = []" "inbox (sv_net (s_world s')) = []"
  | (again) c' s' where "connection_read E p s = connection_read E p s'" "cn_closing c' = cn_closing c" "cn_read_len c' = cn_read_len c"
      "absorbed reliable serve be A m h0 p c s [] (conn_in c (s_heap s)) c' s'"
      "inbox (sv_net (s_world s')) = inbox (sv_net (s_world s))" "patience (sv_net (s_world s')) < patience (sv_net (s_world s))"
      "conn_in c' (s_heap s') = conn_in c (s_heap s)" "cn_write_len c' = cn_write_len c"
  | (got) bs c' s' where "connection_read E p s = do {
        s \<leftarrow> parse_available E p s'; c \<leftarrow> conn_get p (s_world s); if cn_closing c then Some s else connection_read E p s }"
      "bs \<noteq> []" "inbox (sv_net (s_world s)) = bs @ inbox (sv_net (s_world s'))" "cn_closing c' = cn_closing c"
      "cn_read_len c' = cn_read_len c + length bs" "conn_in c' (s_heap s') = conn_in c (s_heap s) @ bs"
      "absorbed reliable serve be A m h0 p c s [] (conn_in c (s_heap s) @ bs) c' s'" "cn_write_len c' = cn_write_len c"
proof -
  obtain rc c1 s1 where r: "on_server (read_reserve E p) s = Some (rc, s1)" "reserve_post reliable A m h0 p c s c1 s1"
    "rc = 0 \<and> cn_read_len c + WIRECALL_READ_CHUNK \<le> cn_read_cap c1 \<or> rc = -1 \<and> \<not> reliable (s_heap s)"
    using read_reserve_post [OF g s room] by blast
  have s1: "serving A m h0 p c1 s1" "s1 = s\<lparr>s_heap := s_heap s1, s_world := set_conn p c1 (s_world s)\<rparr>"
    "reliable (s_heap s) \<longrightarrow> reliable (s_heap s1)" "conn_in c1 (s_heap s1) = conn_in c (s_heap s)"
    "conn_out c1 (s_heap s1) = conn_out c (s_heap s)" and c1: "c1 = c\<lparr>cn_read_buf := cn_read_buf c1, cn_read_cap := cn_read_cap c1\<rparr>"
    using r(2) unfolding reserve_post_def by blast+
  have f1: "cn_fd c1 = cn_fd c" "cn_worker c1 = cn_worker c" "cn_write_len c1 = cn_write_len c" "cn_closing c1 = cn_closing c"
    "cn_read_len c1 = cn_read_len c" by (subst c1; simp)+
  have w1: "s_world s1 = set_conn p c1 (s_world s)" by (subst s1(2)) simp
  have sv1: "sv_conns (s_world s1) p = Some c1" using s1(1) by (simp add: serving_def conn_open_def)
  have net: "sv_net (s_world s1) = sv_net (s_world s)" "sv_integrity (s_world s1) = sv_integrity (s_world s)"
    "sv_mac_key (s_world s1) = sv_mac_key (s_world s)" unfolding w1 by simp_all
  have rec1: "s1\<lparr>s_heap := h, s_world := v\<rparr> = s\<lparr>s_heap := h, s_world := v\<rparr>" for h v by (subst s1(2)) simp
  have rec2: "s1\<lparr>s_world := v\<rparr> = s\<lparr>s_heap := s_heap s1, s_world := v\<rparr>" for v by (subst s1(2)) simp
  let ?n = "sv_net (s_world s)" and ?len = "cn_read_cap c1 - cn_read_len c"
  have abs: "absorbed reliable serve be A m h0 p c s [] (conn_in c (s_heap s)) c2 (s1\<lparr>s_world := v\<rparr>)"
    if "serving A m h0 p c2 (s1\<lparr>s_world := v\<rparr>)" "c2 = c1\<lparr>cn_closing := b\<rparr>" "sv_integrity v = sv_integrity (s_world s)" "sv_mac_key v = sv_mac_key (s_world s)"
    for c2 v b
    using that(1) s1(3-5) f1 that(3,4) by (intro absorbed_same) (simp_all add: that(2) rec2)
  show ?thesis
  proof (cases "rc = 0")
    case False
    note cl = serving_close [OF s1(1)]
    have "connection_read E p s = connection_close p s1" using r(1) False by (subst connection_read.simps) simp
    then show ?thesis using fail [OF _ _ _ abs [OF cl(2) refl]] cl(1) r(3) False net by simp
  next
    case True
    then have fits: "cn_read_len c + WIRECALL_READ_CHUNK \<le> cn_read_cap c1" using r(3) by simp
    have len: "0 < ?len" "sz_sub (cn_read_cap c1) (cn_read_len c1) = ?len" using fits f1(5) by (simp_all add: WIRECALL_READ_CHUNK_def)
    have step: "connection_read E p s = (let (r, n) = os_recv (e_os E) (cn_fd c) ?len ?n; s = s1\<lparr>s_world := (s_world s1)\<lparr>sv_net := n\<rparr>\<rparr> in
       case r of
         Inr bs \<Rightarrow>
           if bs \<noteq> [] then do {
             h \<leftarrow> hp_write (cn_read_buf c1) (cn_read_len c1) bs (s_heap s);
             v \<leftarrow> conn_upd p (\<lambda>c. c\<lparr>cn_read_len := cn_read_len c + length bs\<rparr>) (s_world s);
             s \<leftarrow> parse_available E p (s\<lparr>s_heap := h, s_world := v\<rparr>);
             c \<leftarrow> conn_get p (s_world s);
             if cn_closing c then Some s else connection_read E p s }
           else connection_close p s
       | Inl error \<Rightarrow>
           if wirecall_socket_would_block error then Some s
           else if wirecall_socket_interrupted error then connection_read E p s
           else connection_close p s)"
      using r(1) True sv1 len(2) f1(1) net(1) by (subst connection_read.simps) (simp add: wirecall_socket_recv_def)
    have cl: "connection_close p (s1\<lparr>s_world := (s_world s1)\<lparr>sv_net := n\<rparr>\<rparr>) =
          Some (s1\<lparr>s_world := set_conn p (c1\<lparr>cn_closing := True\<rparr>) ((s_world s1)\<lparr>sv_net := n\<rparr>)\<rparr>)"
        "serving A m h0 p (c1\<lparr>cn_closing := True\<rparr>) (s1\<lparr>s_world := set_conn p (c1\<lparr>cn_closing := True\<rparr>) ((s_world s1)\<lparr>sv_net := n\<rparr>)\<rparr>)" for n
      using serving_close(1,2) [of A m h0 p c1 "s1\<lparr>s_world := (s_world s1)\<lparr>sv_net := n\<rparr>\<rparr>"] s1(1) by simp_all
    have abs_cl: "absorbed reliable serve be A m h0 p c s [] (conn_in c (s_heap s)) (c1\<lparr>cn_closing := True\<rparr>)
        (s1\<lparr>s_world := set_conn p (c1\<lparr>cn_closing := True\<rparr>) ((s_world s1)\<lparr>sv_net := n\<rparr>)\<rparr>)" for n
      by (rule abs [OF cl(2) refl]) (simp_all add: net)
    have abs_c1: "absorbed reliable serve be A m h0 p c s [] (conn_in c (s_heap s)) c1 (s1\<lparr>s_world := (s_world s1)\<lparr>sv_net := n\<rparr>\<rparr>)" for n
      by (rule abs [where b = "cn_closing c1"]) (simp_all add: net s1(1))
    from recv len(1) show ?thesis
    proof (cases rule: recv_streamD [where n = ?n])
      case (got bs n')
      let ?c = "c1\<lparr>cn_read_len := cn_read_len c1 + length bs\<rparr>"
      have "cn_read_len c1 + length bs \<le> cn_read_cap c1" using got(3) len f1(5) fits by simp
      from serving_receive [OF s1(1) this got(2), of n']
      obtain h' where h': "hp_write (cn_read_buf c1) (cn_read_len c1) bs (s_heap s1) = Some h'"
        "serving A m h0 p ?c (s1\<lparr>s_heap := h', s_world := set_conn p ?c ((s_world s1)\<lparr>sv_net := n'\<rparr>)\<rparr>)"
        "reliable (s_heap s1) \<longrightarrow> reliable h'" "conn_in ?c h' = conn_in c1 (s_heap s1) @ bs" "conn_out ?c h' = conn_out c1 (s_heap s1)"
        by blast
      let ?s = "s1\<lparr>s_heap := h', s_world := set_conn p ?c ((s_world s1)\<lparr>sv_net := n'\<rparr>)\<rparr>"
      have "connection_read E p s = do {
          s \<leftarrow> parse_available E p ?s; c \<leftarrow> conn_get p (s_world s); if cn_closing c then Some s else connection_read E p s }"
        unfolding step got(1) using got(2) h'(1) sv1 by (simp add: conn_upd_Some)
      moreover have "absorbed reliable serve be A m h0 p c s [] (conn_in c (s_heap s) @ bs) ?c ?s"
        using h'(2-5) s1(3-5) f1 net rec1 unfolding absorbed_def by (intro conjI exI [of _ "[]"]) (simp_all add: replies_def)
      ultimately show ?thesis using got(2,4) h'(4) s1(4) f1 by (intro that(4) [of ?s bs ?c]) simp_all
    next
      case (eof n')
      have "connection_read E p s = Some (s1\<lparr>s_world := set_conn p (c1\<lparr>cn_closing := True\<rparr>) ((s_world s1)\<lparr>sv_net := n'\<rparr>)\<rparr>)"
        unfolding step eof(1) using cl(1) by simp
      then show ?thesis by (rule that(2) [OF _ abs_cl eof(2)]) (simp add: eof(3))
    next
      case (intr n')
      have "connection_read E p s = connection_read E p (s1\<lparr>s_world := (s_world s1)\<lparr>sv_net := n'\<rparr>\<rparr>)"
        unfolding step intr(1)
        by (simp add: wirecall_socket_would_block_def wirecall_socket_interrupted_def EINTR_def EAGAIN_def EWOULDBLOCK_def)
      then show ?thesis by (rule that(3) [OF _ f1(4,5) abs_c1]) (simp_all add: intr(2,3) s1(4) f1)
    next
      case (fail e n')
      show ?thesis
      proof (cases "wirecall_socket_would_block e")
        case True
        then have "connection_read E p s = Some (s1\<lparr>s_world := (s_world s1)\<lparr>sv_net := n'\<rparr>\<rparr>)" unfolding step fail(1) by simp
        then show ?thesis by (rule that(2) [OF _ abs_c1 fail(3)]) (simp add: fail(4))
      next
        case False
        then have "connection_read E p s = Some (s1\<lparr>s_world := set_conn p (c1\<lparr>cn_closing := True\<rparr>) ((s_world s1)\<lparr>sv_net := n'\<rparr>)\<rparr>)"
          unfolding step fail(1) using cl(1) fail(2) by (simp add: wirecall_socket_interrupted_def)
        then show ?thesis by (rule that(2) [OF _ abs_cl fail(3)]) (simp add: fail(4))
      qed
    qed
  qed
qed

end

text \<open>
  What a call of \<open>connection_read\<close> does: it takes \<open>got\<close> from the socket and answers the packets that are in it,
  together with the bytes left from before.  Nothing is left on the socket unless the stream is at its end.
\<close>

definition read_done ::
  "(heap \<Rightarrow> bool) \<Rightarrow> ('n \<Rightarrow> u8 list) \<Rightarrow> service \<Rightarrow> bool \<Rightarrow> nat set \<Rightarrow> (u64 \<Rightarrow> wirecall_route option) \<Rightarrow> heap \<Rightarrow> nat \<Rightarrow> wirecall_connection \<Rightarrow>
     ('f, 'n wirecall_server) sched \<Rightarrow> wirecall_connection \<Rightarrow> ('f, 'n wirecall_server) sched \<Rightarrow> bool" where
  "read_done reliable inbox serve be A m h0 p c s c' s' \<longleftrightarrow>
     (\<exists>got ps rest bad. inbox (sv_net (s_world s)) = got @ inbox (sv_net (s_world s')) \<and>
        packets be (sv_integrity (s_world s)) (sv_mac_key (s_world s)) (conn_in c (s_heap s) @ got) = (ps, rest, bad) \<and>
        absorbed reliable serve be A m h0 p c s ps rest c' s' \<and>
        (reliable (s_heap s) \<or> \<not> cn_closing c' \<longrightarrow>
           (bad \<or> disconnects ps \<longrightarrow> cn_closing c') \<and> (bad \<or> disconnects ps \<or> inbox (sv_net (s_world s')) = [])))"

lemma absorbedD:
  assumes "absorbed reliable serve be A m h0 p c s ps rest c' s'"
  shows "serving A m h0 p c' s'" "cn_fd c' = cn_fd c" "sv_integrity (s_world s') = sv_integrity (s_world s)"
    "sv_mac_key (s_world s') = sv_mac_key (s_world s)" "reliable (s_heap s) \<longrightarrow> reliable (s_heap s')"
    "cn_write_len c' \<le> cn_write_len c + length ps * (WIRECALL_HEADER_SIZE + WIRECALL_MAX_PAYLOAD_SIZE)"
    "reliable (s_heap s) \<or> \<not> cn_closing c' \<longrightarrow> conn_in c' (s_heap s') = rest"
  using assms by (simp_all add: absorbed_def)

lemma read_doneI:
  assumes "inbox (sv_net (s_world s)) = got @ inbox (sv_net (s_world s'))"
    and "packets be (sv_integrity (s_world s)) (sv_mac_key (s_world s)) (conn_in c (s_heap s) @ got) = (ps, rest, bad)"
    and "absorbed reliable serve be A m h0 p c s ps rest c' s'"
    and "reliable (s_heap s) \<or> \<not> cn_closing c' \<Longrightarrow>
      (bad \<or> disconnects ps \<longrightarrow> cn_closing c') \<and> (bad \<or> disconnects ps \<or> inbox (sv_net (s_world s')) = [])"
  shows "read_done reliable inbox serve be A m h0 p c s c' s'"
  unfolding read_done_def using assms by blast

lemma read_done_again:
  assumes a: "absorbed reliable serve be A m h0 p c s [] (conn_in c (s_heap s)) c1 s1"
    and "inbox (sv_net (s_world s1)) = inbox (sv_net (s_world s))" "conn_in c1 (s_heap s1) = conn_in c (s_heap s)"
    and d: "read_done reliable inbox serve be A m h0 p c1 s1 c' s'"
  shows "read_done reliable inbox serve be A m h0 p c s c' s'"
proof -
  obtain got ps rest bad where x: "inbox (sv_net (s_world s1)) = got @ inbox (sv_net (s_world s'))"
    "packets be (sv_integrity (s_world s1)) (sv_mac_key (s_world s1)) (conn_in c1 (s_heap s1) @ got) = (ps, rest, bad)"
    "absorbed reliable serve be A m h0 p c1 s1 ps rest c' s'"
    "reliable (s_heap s1) \<or> \<not> cn_closing c' \<longrightarrow>
           (bad \<or> disconnects ps \<longrightarrow> cn_closing c') \<and> (bad \<or> disconnects ps \<or> inbox (sv_net (s_world s')) = [])"
    using d unfolding read_done_def by blast
  have "packets be (sv_integrity (s_world s)) (sv_mac_key (s_world s)) (conn_in c (s_heap s) @ got) = (ps, rest, bad)"
    using x(2) assms(3) absorbedD(3,4) [OF a] by simp
  moreover have "inbox (sv_net (s_world s)) = got @ inbox (sv_net (s_world s'))" using x(1) assms(2) by simp
  moreover have "absorbed reliable serve be A m h0 p c s ps rest c' s'" using absorbed_trans [OF a x(3)] by simp
  ultimately show ?thesis using x(4) absorbedD(5) [OF a] unfolding read_done_def by blast
qed

text \<open>A first piece that leaves the connection open, and what is read after it.\<close>

lemma read_done_more:
  assumes a: "absorbed reliable serve be A m h0 p c s ps rest c1 s1" and open1: "\<not> cn_closing c1"
    and ps: "packets be (sv_integrity (s_world s)) (sv_mac_key (s_world s)) (conn_in c (s_heap s) @ bs) = (ps, rest, False)" "\<not> disconnects ps"
    and "inbox (sv_net (s_world s)) = bs @ inbox (sv_net (s_world s1))" "conn_in c1 (s_heap s1) = rest"
    and d: "read_done reliable inbox serve be A m h0 p c1 s1 c' s'"
  shows "read_done reliable inbox serve be A m h0 p c s c' s'"
proof -
  obtain got qs rest' bad where x: "inbox (sv_net (s_world s1)) = got @ inbox (sv_net (s_world s'))"
    "packets be (sv_integrity (s_world s1)) (sv_mac_key (s_world s1)) (conn_in c1 (s_heap s1) @ got) = (qs, rest', bad)"
    "absorbed reliable serve be A m h0 p c1 s1 qs rest' c' s'"
    "reliable (s_heap s1) \<or> \<not> cn_closing c' \<longrightarrow>
           (bad \<or> disconnects qs \<longrightarrow> cn_closing c') \<and> (bad \<or> disconnects qs \<or> inbox (sv_net (s_world s')) = [])"
    using d unfolding read_done_def by blast
  have "packets be (sv_integrity (s_world s)) (sv_mac_key (s_world s)) (rest @ got) = (qs, rest', bad)"
    using x(2) assms(6) absorbedD(3,4) [OF a] by simp
  then have "packets be (sv_integrity (s_world s)) (sv_mac_key (s_world s)) (conn_in c (s_heap s) @ (bs @ got)) = (ps @ qs, rest', bad)"
    using packets_append [OF ps(1), of got] by simp
  moreover have "inbox (sv_net (s_world s)) = (bs @ got) @ inbox (sv_net (s_world s'))" using x(1) assms(5) by simp
  moreover have "absorbed reliable serve be A m h0 p c s (ps @ qs) rest' c' s'" by (rule absorbed_trans [OF a x(3)])
  moreover have "disconnects (ps @ qs) = disconnects qs" using ps(2) by (auto simp: disconnects_def)
  ultimately show ?thesis using x(4) absorbedD(5) [OF a] unfolding read_done_def by metis
qed

lemma conn_room_more:
  assumes "conn_room (j + k) c" "cn_write_len c1 \<le> cn_write_len c + j * (WIRECALL_HEADER_SIZE + WIRECALL_MAX_PAYLOAD_SIZE)"
  shows "conn_room k c1"
  using assms by (simp add: conn_room_def algebra_simps)

lemma all_at_once_append: "all_at_once m (ps @ qs) \<longleftrightarrow> all_at_once m ps \<and> all_at_once m qs"
  by (simp add: all_at_once_def)

context library_memory
begin

lemma connection_read_post:
  assumes g: "e_g E = g" and hs: "handlers_ok reliable (\<lambda>n. (inbox n, patience n)) serve E"
    and "recv_stream (e_os E) (cn_fd c) inbox patience"
    and "serving A m h0 p c s" "\<not> cn_closing c" "read_room (length (inbox (sv_net (s_world s)))) c"
    and "packets (e_be E) (sv_integrity (s_world s)) (sv_mac_key (s_world s)) (conn_in c (s_heap s)) = ([], conn_in c (s_heap s), False)"
    and "packets (e_be E) (sv_integrity (s_world s)) (sv_mac_key (s_world s)) (conn_in c (s_heap s) @ inbox (sv_net (s_world s))) = (ps, rest, bad)"
      "all_at_once m ps" "conn_room (length ps) c"
  shows "\<exists>c' s'. connection_read E p s = Some s' \<and> read_done reliable inbox serve (e_be E) A m h0 p c s c' s'"
  using assms(3-10)
proof (induction "(length (inbox (sv_net (s_world s))), patience (sv_net (s_world s)))" arbitrary: c s ps
    rule: wf_induct_rule [OF wf_lex_prod [OF wf_less_than wf_less_than]])
  case 1
  note IH = 1(1) and recv = 1(2) and s = 1(3) and op = 1(4) and room = 1(5) and left = 1(6) and pk = 1(7) and at = 1(8) and wr = 1(9)
  let ?pk = "packets (e_be E) (sv_integrity (s_world s)) (sv_mac_key (s_world s))"
  from g s room recv show ?case
  proof (cases rule: connection_read_step [where serve = serve and be = "e_be E"])
    case (fail c' s')
    have "read_done reliable inbox serve (e_be E) A m h0 p c s c' s'"
      using fail(2,3,5) left by (intro read_doneI [where got = "[]" and bad = False, OF _ _ fail(4)]) simp_all
    then show ?thesis using fail(1) by blast
  next
    case (empty c' s')
    have "read_done reliable inbox serve (e_be E) A m h0 p c s c' s'"
      using empty(3,4) left by (intro read_doneI [where got = "[]" and bad = False, OF _ _ empty(2)]) (simp_all add: disconnects_def)
    then show ?thesis using empty(1) by blast
  next
    case (again c1 s1)
    have k: "recv_stream (e_os E) (cn_fd c1) inbox patience" "serving A m h0 p c1 s1" "\<not> cn_closing c1"
      "read_room (length (inbox (sv_net (s_world s1)))) c1" "conn_room (length ps) c1"
      using recv absorbedD(1,2) [OF again(4)] again(2,3,5,8) op room wr by (simp_all add: read_room_def conn_room_def)
    have pk1: "packets (e_be E) (sv_integrity (s_world s1)) (sv_mac_key (s_world s1)) (conn_in c1 (s_heap s1)) = ([], conn_in c1 (s_heap s1), False)"
      "packets (e_be E) (sv_integrity (s_world s1)) (sv_mac_key (s_world s1)) (conn_in c1 (s_heap s1) @ inbox (sv_net (s_world s1))) = (ps, rest, bad)"
      unfolding again(5,7) absorbedD(3,4) [OF again(4)] by (rule left, rule pk)
    have "((length (inbox (sv_net (s_world s1))), patience (sv_net (s_world s1))), (length (inbox (sv_net (s_world s))), patience (sv_net (s_world s))))
      \<in> less_than <*lex*> less_than" using again(5,6) by simp
    from IH [OF this k(1-4) pk1 at k(5)]
    obtain c' s' where r: "connection_read E p s1 = Some s'" "read_done reliable inbox serve (e_be E) A m h0 p c1 s1 c' s'" by blast
    show ?thesis using again(1) r(1) read_done_again [OF again(4,5,7) r(2)] by auto
  next
    case (got bs c1 s1)
    note a1 = absorbedD [OF got(7)]
    obtain ps1 r1 bad1 where p1: "?pk (conn_in c (s_heap s) @ bs) = (ps1, r1, bad1)" by (cases "?pk (conn_in c (s_heap s) @ bs)") auto
    have pk': "?pk ((conn_in c (s_heap s) @ bs) @ inbox (sv_net (s_world s1))) = (ps, rest, bad)" using pk got(3) by simp
    obtain qs where qs: "ps = ps1 @ qs" using packets_prefix [OF p1 pk'] by blast
    have p1': "packets (e_be E) (sv_integrity (s_world s1)) (sv_mac_key (s_world s1)) (conn_in c1 (s_heap s1)) = (ps1, r1, bad1)"
      using p1 got(6) a1(3,4) by simp
    have at1: "all_at_once m ps1" "all_at_once m qs" using at unfolding qs all_at_once_append by blast+
    have wr1: "conn_room (length ps1) c1" using wr got(8) unfolding qs by (simp add: conn_room_def algebra_simps)
    obtain c2 s2 where pa: "parse_available E p s1 = Some s2" "absorbed reliable serve (e_be E) A m h0 p c1 s1 ps1 r1 c2 s2"
      "(inbox (sv_net (s_world s2)), patience (sv_net (s_world s2))) = (inbox (sv_net (s_world s1)), patience (sv_net (s_world s1)))"
      "cn_read_len c2 \<le> cn_read_len c1"
      "reliable (s_heap s1) \<or> \<not> cn_closing c2 \<longrightarrow> cn_closing c2 = (cn_closing c1 \<or> bad1 \<or> disconnects ps1)"
      using parse_available_post [OF g hs a1(1) p1' at1(1) wr1] by blast
    have a2: "absorbed reliable serve (e_be E) A m h0 p c s ps1 r1 c2 s2" using absorbed_trans [OF got(7) pa(2)] by simp
    note b2 = absorbedD [OF a2]
    have conn2: "sv_conns (s_world s2) p = Some c2" using b2(1) by (simp add: serving_def conn_open_def)
    have in2: "inbox (sv_net (s_world s)) = bs @ inbox (sv_net (s_world s2))" using got(3) pa(3) by simp
    show ?thesis
    proof (cases "cn_closing c2")
      case True
      then have "connection_read E p s = Some s2" using got(1) pa(1) conn2 by simp
      moreover have "read_done reliable inbox serve (e_be E) A m h0 p c s c2 s2"
        using True pa(5) op got(4) a1(5) by (intro read_doneI [OF in2 p1 a2]) auto
      ultimately show ?thesis by blast
    next
      case False
      then have nb: "\<not> bad1" "\<not> disconnects ps1" using pa(5) by simp_all
      have c2: "conn_in c2 (s_heap s2) = r1" using b2(7) False by simp
      have p1f: "?pk (conn_in c (s_heap s) @ bs) = (ps1, r1, False)" using p1 nb(1) by simp
      have "?pk (r1 @ inbox (sv_net (s_world s1))) = (qs, rest, bad)"
        using pk' packets_append [OF p1f] unfolding qs by (auto split: prod.splits)
      then have pk2: "packets (e_be E) (sv_integrity (s_world s2)) (sv_mac_key (s_world s2)) (conn_in c2 (s_heap s2) @ inbox (sv_net (s_world s2))) = (qs, rest, bad)"
        "packets (e_be E) (sv_integrity (s_world s2)) (sv_mac_key (s_world s2)) (conn_in c2 (s_heap s2)) = ([], conn_in c2 (s_heap s2), False)"
        using packets_rest [OF p1f] b2(3,4) c2 pa(3) by simp_all
      have len2: "length (inbox (sv_net (s_world s2))) + length bs = length (inbox (sv_net (s_world s)))" using in2 by simp
      have k: "recv_stream (e_os E) (cn_fd c2) inbox patience" "read_room (length (inbox (sv_net (s_world s2)))) c2"
        using recv b2(2) room pa(4) got(5) len2 by (simp_all add: read_room_def)
      have "conn_room (length qs) c2" using conn_room_more [OF _ b2(6)] wr unfolding qs by simp
      moreover have "((length (inbox (sv_net (s_world s2))), patience (sv_net (s_world s2))), (length (inbox (sv_net (s_world s))), patience (sv_net (s_world s))))
        \<in> less_than <*lex*> less_than" using len2 got(2) by (cases bs) auto
      ultimately obtain c' s' where r: "connection_read E p s2 = Some s'" "read_done reliable inbox serve (e_be E) A m h0 p c2 s2 c' s'"
        using IH [OF _ k(1) b2(1) False k(2) pk2(2,1) at1(2)] by blast
      have "connection_read E p s = Some s'" using got(1) pa(1) conn2 False r(1) by simp
      then show ?thesis using read_done_more [OF a2 False p1f nb(2) in2 c2 r(2)] by blast
    qed
  qed
qed

end

section \<open>The properties\<close>

text \<open>
  A server to try them on: its only procedure, number 7, counts its arguments.  The sockets are those of the
  client's examples.
\<close>

definition count_service :: service where
  "count_service fn user_data pvs = Some [P_U64 (word_of_nat (length pvs))]"

definition count_env :: "wirecall_allocator \<Rightarrow> (unit, drip) env" where
  "count_env g = \<lparr>e_os = drip_os, e_be = False, e_g = g,
     e_backend = \<lparr>bk_create = (\<lambda>n. ((0, 1), n)), bk_destroy = (\<lambda>b n. n), bk_register = (\<lambda>b fd i u n. (0, n)),
       bk_modify = (\<lambda>b fd i u n. (0, n)), bk_remove = (\<lambda>b fd n. (0, n)), bk_wake = (\<lambda>b n. (0, n)), bk_poll = (\<lambda>b k n. ((0, []), n))\<rparr>,
     e_platform = \<lparr>pf_sizeof_context = 1, pf_pages = (\<lambda>_. 1), pf_makectx = MCO_SUCCESS, pf_stack_addr = (\<lambda>_. 1)\<rparr>,
     e_handler = (\<lambda>fn ctx args argc user_data w h n. do {
       (rc, w, h) \<leftarrow> write_value g (Some w) (P_U64 (word_of_nat argc)) h;
       Some (rc, the w, h, n) }),
     e_deferred_handler = (\<lambda>fn d args argc user_data h n. Some (-1, [], zero_writer, h, n)),
     e_async_handler = (\<lambda>fn frame call h n. Some (Inr 0, zero_writer, h, n)),
     e_mutex_init = (\<lambda>n. (0, n)), e_pages_alloc = (\<lambda>_ n. (1, n)), e_pages_free = (\<lambda>_ n. n)\<rparr>"

context library_memory
begin

lemma count_handlers_ok: "handlers_ok reliable obs count_service (count_env g)"
  unfolding handlers_ok_def
proof (intro allI impI)
  fix fn ctx vals cells argc user_data base cap vs pvs h n
  assume d: "decoded base vals cells argc cap vs pvs h"
  then have h: "heap_ok h" "argc = length pvs"
    using heap_owns_ok list_all2_lengthD by (auto simp: decoded_def)
  obtain rc w h' where w: "write_value g (Some zero_writer) (P_U64 (word_of_nat argc)) h = Some (rc, Some w, h')"
    "value_post reliable zero_writer h (encode_value (P_U64 (word_of_nat argc))) rc w h'"
    using write_value_post [OF writer_inv_zero [OF h(1)], of "P_U64 (word_of_nat argc)"] by auto
  have "length (encode_value (P_U64 (word_of_nat argc))) \<le> WIRECALL_MAX_PAYLOAD_SIZE"
    by (simp add: WIRECALL_MAX_PAYLOAD_SIZE_def)
  then have "reliable h \<longrightarrow> handler_result count_service fn user_data pvs rc (writer_view w h')"
    using w(2) h(2) by (auto simp: value_post_def handler_result_def count_service_def encode_payload_def)
  then show "\<exists>result w h' n'. e_handler (count_env g) fn ctx (vals, cells) argc user_data zero_writer h n = Some (result, w, h', n') \<and>
      writer_inv w h' \<and> writer_frame zero_writer h w h' \<and> (reliable h \<longrightarrow> reliable h') \<and> obs n' = obs n \<and>
      (reliable h \<longrightarrow> handler_result count_service fn user_data pvs result (writer_view w h'))"
    using w by (auto simp: count_env_def value_post_def)
qed

end

lemma table_blocks:
  assumes "table_ok h0 m s"
  shows "\<exists>A. heap_owns A h0 (r_heap s) \<and> A \<subseteq> live (r_heap s) \<and> table_ok (heap_minus A (r_heap s)) m s"
proof -
  obtain C where C: "routes_inv h0 C [] [] s" "m = tbl (r_nodes s) C" "rs_active_readers (r_table s) = 0"
    using assms by (auto simp: table_ok_def)
  let ?A = "blocks C [] []"
  have o: "heap_owns ?A h0 (r_heap s)" by (rule routes_inv_owns [OF C(1)])
  then have l: "?A \<subseteq> live (r_heap s)" "heap_ok (r_heap s)" by (auto simp: heap_owns_def)
  have "routes_inv (heap_minus ?A (r_heap s)) C [] [] s" using C(1) heap_minus_owns [OF l(2,1)] by (simp add: routes_inv_def)
  then show ?thesis using o l(1) C(2,3) unfolding table_ok_def by blast
qed

definition count_routes :: "u64 \<Rightarrow> wirecall_route option" where
  "count_routes = [7 \<mapsto> handler_route 7 5 0 0 False]"

definition conn0 :: wirecall_connection where
  "conn0 = zero_connection\<lparr>cn_fd := 4\<rparr>"

definition worker0 :: wirecall_worker where
  "worker0 = \<lparr>wk_backend = 1, wk_scheduler = 0, wk_connection_arena = (zero_arena, (\<lambda>_. 0)), wk_deferred_arena = (zero_arena, (\<lambda>_. 0)),
     wk_listeners = [], wk_listener_count = 0, wk_connections = 1, wk_pending_writes = 0, wk_pending_head = 0, wk_pending_tail = 0,
     wk_completed_head = 0, wk_completed_tail = 0, wk_pending_mutex_ready = True, wk_completed_mutex_ready = True,
     wk_thread_started = True, wk_index = 0\<rparr>"

definition server0 :: "route_state \<Rightarrow> u8 list \<Rightarrow> drip wirecall_server" where
  "server0 r input = \<lparr>sv_routes = r, sv_workers = 1, sv_worker = [0 \<mapsto> worker0], sv_worker_count = 1, sv_workers_ready = True,
     sv_next_worker = 0, sv_stopping = False, sv_listening = True, sv_routes_ready = True, sv_port = 0, sv_integrity = c_integrity client0,
     sv_mac_key = c_mac_key client0, sv_conns = [1 \<mapsto> conn0], sv_defs = Map.empty, sv_fds = (\<lambda>_. \<lparr>pn_fd = 0, pn_next = 0\<rparr>),
     sv_net = drip0\<lparr>d_in := input\<rparr>\<rparr>"

definition sched0 :: "heap \<Rightarrow> 'w \<Rightarrow> (unit, 'w) sched" where
  "sched0 h v = \<lparr>s_scheduler = \<lparr>sc_head = 0, sc_tail = 0, sc_call_arena = zero_arena\<rparr>, s_words = (\<lambda>_. 0), s_calls = Map.empty,
     s_thread = no_coroutines, s_frames = Map.empty, s_heap = h, s_world = v\<rparr>"

definition count_state :: "nat set \<Rightarrow> u8 list \<Rightarrow> (unit, drip wirecall_server) sched \<Rightarrow> bool" where
  "count_state A input s \<longleftrightarrow> serving A count_routes heap0 1 conn0 s \<and> never_fails (s_heap s) \<and>
     sv_integrity (s_world s) = c_integrity client0 \<and> sv_mac_key (s_world s) = c_mac_key client0 \<and> sv_net (s_world s) = drip0\<lparr>d_in := input\<rparr>"

lemma count_state_exists: "\<exists>A. \<forall>input. \<exists>s. count_state A input s"
proof -
  let ?r = "handler_route 7 5 0 0 False" and ?s0 = "snd (wirecall_routes_init True True 1 start0)"
  have t0: "table_ok heap0 Map.empty ?s0" "r_heap ?s0 = heap0"
    using init_table(1,4) [OF start0_init(2,1)] by (simp_all add: start0_def)
  have nf: "never_fails heap0" by (simp add: never_fails_def heap0_def)
  have r: "rt_next ?r = 0" "rt_proc_id ?r = 7" by (simp_all add: handler_route_def zero_route_def)
  obtain rc s1 where s1: "table_post heap0 Map.empty (Map.empty(7 \<mapsto> ?r)) 7 rc ?s0 s1" "never_fails (r_heap s1)" "rc = 0"
    using plain_memory.install_table [OF t0(1) r, of 1 True] nf t0(2) by auto
  then have t1: "table_ok heap0 count_routes s1" by (simp add: table_post_def count_routes_def)
  obtain A where A: "heap_owns A heap0 (r_heap s1)" "A \<subseteq> live (r_heap s1)" "table_ok (heap_minus A (r_heap s1)) count_routes s1"
    using table_blocks [OF t1] by blast
  have "conn_ok A heap0 conn0 (r_heap s1)" using A(1) by (simp add: conn_ok_def conn0_def zero_connection_def buf_ok_def)
  then have "count_state A input (sched0 (r_heap s1) (server0 s1 input))" for input
    using A(2,3) s1(2) client0_ok [OF heap_ok_heap0]
    by (simp add: count_state_def serving_def conn_open_def routes_known_def conn0_def zero_connection_def sched0_def server0_def)
  then show ?thesis by blast
qed

lemma conn0_bytes: "conn_in conn0 h = []" "conn_out conn0 h = []" "cn_closing conn0 = False" "cn_write_len conn0 = 0" "cn_read_len conn0 = 0"
    "cn_fd conn0 = 4"
  by (simp_all add: conn_in_def conn_out_def conn0_def zero_connection_def buf_view_def)

lemma drip_stream: "recv_stream drip_os fd d_in drip_patience"
proof -
  have "length (take 1 xs) \<le> len \<and> (take 1 xs = [] \<longrightarrow> xs = [])" if "0 < len" for xs :: "u8 list" and len
    using that by (cases xs) auto
  then show ?thesis unfolding recv_stream_def drip_os_def drip_patience_def by (auto simp: even_iff_mod_2_eq_zero mod_Suc)
qed


lemma packets_Nil [simp]: "packets be integrity key [] = ([], [], False)"
  by (rule packets_cut) (simp add: cut_packet_def WIRECALL_HEADER_SIZE_def)

lemma packets_wire:
  assumes "wire_packet be integrity key op proc_id call_id p header"
  shows "packets be integrity key (header_bytes header @ p) = ([(header, p)], [], False)"
proof -
  have "cut_packet be integrity key (header_bytes header @ p @ []) = Packet header p []" using assms unfolding wire_packet_def by blast
  then show ?thesis using packets_Cons [OF _ packets_Nil] by simp
qed

lemma packets_length: "packets be integrity key bs = (ps, r, bad) \<Longrightarrow> length ps \<le> length bs"
proof (induction "length bs" arbitrary: bs ps r bad rule: less_induct)
  case less
  show ?case
  proof (cases "cut_packet be integrity key bs")
    case (Packet h p rest)
    obtain qs r' bad' where q: "packets be integrity key rest = (qs, r', bad')" by (cases "packets be integrity key rest") auto
    have l: "length rest < length bs" using cut_packet_PacketD(3) [OF Packet] by (simp add: WIRECALL_HEADER_SIZE_def)
    show ?thesis using less.hyps [OF l q] l less.prems packets_Cons [OF Packet q] by auto
  qed (use less.prems in \<open>simp_all add: packets_cut\<close>)
qed

lemma conn_room_mono: "conn_room k c \<Longrightarrow> j \<le> k \<Longrightarrow> conn_room j c"
  unfolding conn_room_def by (meson add_left_mono mult_le_mono1 mult_le_mono2 order_trans)

lemma count_routes_at_once: "all_at_once count_routes ps"
  by (auto simp: all_at_once_def answered_at_once_def list_all_iff count_routes_def handler_route_def zero_route_def)

lemma connection_read_stream:
  assumes "e_g E = no_allocator" "handlers_ok never_fails (\<lambda>n. (inbox n, patience n)) serve E"
    and "recv_stream (e_os E) (cn_fd c) inbox patience"
    and "serving A m h0 p c s" "never_fails (s_heap s)" "\<not> cn_closing c" "all_at_once m ps"
    and "read_room (length (inbox (sv_net (s_world s)))) c" "conn_room (length ps) c"
    and "cut_packet (e_be E) (sv_integrity (s_world s)) (sv_mac_key (s_world s)) (conn_in c (s_heap s)) = Short"
    and "packets (e_be E) (sv_integrity (s_world s)) (sv_mac_key (s_world s)) (conn_in c (s_heap s) @ inbox (sv_net (s_world s))) = (ps, rest, False)"
  shows "\<exists>s' c' qs qs' outs. connection_read E p s = Some s' \<and> serving A m h0 p c' s' \<and> cn_fd c' = cn_fd c \<and> ps = qs @ qs' \<and>
    conn_out c' (s_heap s') = conn_out c (s_heap s) @ concat outs \<and>
    list_all2 (\<lambda>(header, payload) out. reply_wire (e_be E) (sv_integrity (s_world s)) (sv_mac_key (s_world s)) (h_call_id header)
      (reply_of serve m header payload) out) qs outs \<and>
    (if disconnects ps then disconnects qs \<and> cn_closing c'
     else qs' = [] \<and> inbox (sv_net (s_world s')) = [] \<and> conn_in c' (s_heap s') = rest)"
proof -
  obtain c' s' where r: "connection_read E p s = Some s'" "read_done never_fails inbox serve (e_be E) A m h0 p c s c' s'"
    using plain_memory.connection_read_post [OF assms(1-4,6,8) packets_cut(1) [OF assms(10)] assms(11) assms(7) assms(9)]
    by blast
  then obtain got qs rest' bad where d: "inbox (sv_net (s_world s)) = got @ inbox (sv_net (s_world s'))"
    "packets (e_be E) (sv_integrity (s_world s)) (sv_mac_key (s_world s)) (conn_in c (s_heap s) @ got) = (qs, rest', bad)"
    "absorbed never_fails serve (e_be E) A m h0 p c s qs rest' c' s'"
    "bad \<or> disconnects qs \<longrightarrow> cn_closing c'" "bad \<or> disconnects qs \<or> inbox (sv_net (s_world s')) = []"
    using assms(5) unfolding read_done_def by blast
  have all: "packets (e_be E) (sv_integrity (s_world s)) (sv_mac_key (s_world s)) ((conn_in c (s_heap s) @ got) @ inbox (sv_net (s_world s'))) = (ps, rest, False)"
    using assms(11) d(1) by simp
  have nb: "\<not> bad"
  proof
    assume bad
    then show False using packets_append_bad [OF d(2) [unfolded eqTrueI [OF \<open>bad\<close>]], of "inbox (sv_net (s_world s'))"] all by simp
  qed
  obtain qs' where qs': "ps = qs @ qs'" using packets_prefix [OF d(2) all] by blast
  have whole: "qs = ps \<and> rest' = rest" if "inbox (sv_net (s_world s')) = []" using d(2) all that by simp
  obtain outs where "conn_out c' (s_heap s') = conn_out c (s_heap s) @ concat outs"
    "replies serve m (e_be E) (sv_integrity (s_world s)) (sv_mac_key (s_world s)) qs outs"
    using d(3) assms(5) unfolding absorbed_def by blast
  moreover have "if disconnects ps then disconnects qs \<and> cn_closing c'
     else qs' = [] \<and> inbox (sv_net (s_world s')) = [] \<and> conn_in c' (s_heap s') = rest"
  proof (cases "disconnects ps")
    case True
    then have "disconnects qs" using d(5) nb whole by auto
    then show ?thesis using True d(4) by simp
  next
    case False
    then have "\<not> disconnects qs" by (auto simp: qs' disconnects_def)
    then show ?thesis using False d(5) nb whole absorbedD(7) [OF d(3)] assms(5) qs' by auto
  qed
  ultimately show ?thesis using r(1) qs' absorbedD(1,2) [OF d(3)] unfolding replies_def by blast
qed

lemma connection_read_answers:
  assumes "e_g E = no_allocator" "handlers_ok never_fails (\<lambda>n. (inbox n, patience n)) serve E"
    and "recv_stream (e_os E) (cn_fd c) inbox patience"
    and "serving A m h0 p c s" "never_fails (s_heap s)" "\<not> cn_closing c" "all_at_once m ps"
    and "read_room (length (inbox (sv_net (s_world s)))) c" "conn_room (length ps) c"
    and "cut_packet (e_be E) (sv_integrity (s_world s)) (sv_mac_key (s_world s)) (conn_in c (s_heap s)) = Short"
    and "packets (e_be E) (sv_integrity (s_world s)) (sv_mac_key (s_world s)) (conn_in c (s_heap s) @ inbox (sv_net (s_world s))) = (ps, rest, False)"
    and "\<not> disconnects ps"
  shows "\<exists>s' c' outs. connection_read E p s = Some s' \<and> serving A m h0 p c' s' \<and> cn_fd c' = cn_fd c \<and> inbox (sv_net (s_world s')) = [] \<and>
    conn_in c' (s_heap s') = rest \<and> conn_out c' (s_heap s') = conn_out c (s_heap s) @ concat outs \<and>
    list_all2 (\<lambda>(header, payload) out. reply_wire (e_be E) (sv_integrity (s_world s)) (sv_mac_key (s_world s)) (h_call_id header)
      (reply_of serve m header payload) out) ps outs"
proof -
  obtain s' c' qs qs' outs where "connection_read E p s = Some s'" "serving A m h0 p c' s'" "cn_fd c' = cn_fd c" "ps = qs @ qs'"
    "conn_out c' (s_heap s') = conn_out c (s_heap s) @ concat outs"
    "list_all2 (\<lambda>(header, payload) out. reply_wire (e_be E) (sv_integrity (s_world s)) (sv_mac_key (s_world s)) (h_call_id header)
      (reply_of serve m header payload) out) qs outs"
    "qs' = [] \<and> inbox (sv_net (s_world s')) = [] \<and> conn_in c' (s_heap s') = rest"
    using connection_read_stream [OF assms(1-11)] unfolding if_not_P [OF assms(12)] by blast
  then show ?thesis by (intro exI [of _ s'] exI [of _ c'] exI [of _ outs]) simp
qed

text \<open>
  C6: The server answers the stream, whatever the pieces it arrives in.  Suppose that no allocation fails, that
  the bytes that wait on an open connection are a sequence of packets with valid signatures, with a remainder that is
  not a whole packet, and that none of the packets calls a deferred or an asynchronous procedure.  Then the bytes that
  \<open>connection_read\<close> queues are one reply for each packet that it handles, in the order of the packets: the encoded
  results of the handler for a call of a procedure of the table, an error message for a payload that does
  not parse, an unknown procedure, a handler that fails and an operation that only a server may send, an empty response to a
  ping, and no bytes for a disconnect.  Every reply carries the id of its call.  If no packet
  is a disconnect then all packets are handled, the socket is drained and the remainder is kept for the next time;
  otherwise the packets are handled at least up to the first disconnect and the connection is marked for closing.
\<close>

theorem server_answers_stream:
  assumes "e_g E = no_allocator" "handlers_ok never_fails (\<lambda>n. (inbox n, patience n)) serve E"
    and "recv_stream (e_os E) (cn_fd c) inbox patience"
    and "serving A m h0 p c s" "never_fails (s_heap s)" "\<not> cn_closing c" "all_at_once m ps"
    and "read_room (length (inbox (sv_net (s_world s)))) c" "conn_room (length ps) c"
    and "cut_packet (e_be E) (sv_integrity (s_world s)) (sv_mac_key (s_world s)) (conn_in c (s_heap s)) = Short"
    and "packets (e_be E) (sv_integrity (s_world s)) (sv_mac_key (s_world s)) (conn_in c (s_heap s) @ inbox (sv_net (s_world s))) = (ps, rest, False)"
  shows "\<exists>s' c' qs qs' outs. connection_read E p s = Some s' \<and> serving A m h0 p c' s' \<and> cn_fd c' = cn_fd c \<and> ps = qs @ qs' \<and>
    conn_out c' (s_heap s') = conn_out c (s_heap s) @ concat outs \<and>
    list_all2 (\<lambda>(header, payload) out. reply_wire (e_be E) (sv_integrity (s_world s)) (sv_mac_key (s_world s)) (h_call_id header)
      (reply_of serve m header payload) out) qs outs \<and>
    (if disconnects ps then disconnects qs \<and> cn_closing c'
     else qs' = [] \<and> inbox (sv_net (s_world s')) = [] \<and> conn_in c' (s_heap s') = rest)"
  by (rule connection_read_stream [OF assms])

text \<open>A request on the wire.\<close>

lemma count_request:
  "\<exists>header. wire_packet False (c_integrity client0) (c_mac_key client0) WIRECALL_OP_RPC 7 1 (encode_payload [P_BOOL True, P_NULL]) header"
proof -
  let ?p = "encode_payload [P_BOOL True, P_NULL]"
  have "length ?p \<le> WIRECALL_MAX_PAYLOAD_SIZE" "length (c_mac_key client0) = 16" "op_enum WIRECALL_OP_RPC"
    using client0_ok [OF heap_ok_heap0] by (simp_all add: encode_payload_def WIRECALL_MAX_PAYLOAD_SIZE_def)
  then show ?thesis using packet_made [of WIRECALL_OP_RPC ?p "Some ?p" "c_mac_key client0" False 1 7 "c_integrity client0"]
    by (auto simp: payload_bytes_def)
qed

lemma count_reply:
  assumes "h_op header = WIRECALL_OP_RPC" "h_proc_id header = 7"
  shows "reply_of count_service count_routes header (encode_payload [P_BOOL True, P_NULL]) = Some (WIRECALL_OP_RESPONSE, 7, encode_payload [P_U64 2])"
  using assms parse_encode_payload [of "[P_BOOL True, P_NULL]"]
  by (simp add: reply_of_def count_routes_def sync_reply_def count_service_def Let_def)

theorem server_answers_stream_witness:
  "\<exists>request reply A s s' c' header. count_state A request s \<and> connection_read (count_env no_allocator) 1 s = Some s' \<and> serving A count_routes heap0 1 c' s' \<and>
    conn_out c' (s_heap s') = reply \<and> reply = header_bytes header @ encode_payload [P_U64 2] \<and>
    wire_packet False (c_integrity client0) (c_mac_key client0) WIRECALL_OP_RESPONSE 7 1 (encode_payload [P_U64 2]) header"
proof -
  let ?p = "encode_payload [P_BOOL True, P_NULL]"
  obtain header where h: "wire_packet False (c_integrity client0) (c_mac_key client0) WIRECALL_OP_RPC 7 1 ?p header"
    using count_request by blast
  let ?in = "header_bytes header @ ?p"
  obtain A s where s: "count_state A ?in s" using count_state_exists by blast
  then have s': "serving A count_routes heap0 1 conn0 s" "never_fails (s_heap s)" "sv_integrity (s_world s) = c_integrity client0"
    "sv_mac_key (s_world s) = c_mac_key client0" "d_in (sv_net (s_world s)) = ?in"
    by (simp_all add: count_state_def)
  have E: "e_g (count_env no_allocator) = no_allocator" "e_be (count_env no_allocator) = False" "e_os (count_env no_allocator) = drip_os"
    by (simp_all add: count_env_def)
  have recv: "recv_stream (e_os (count_env no_allocator)) (cn_fd conn0) d_in drip_patience" unfolding E by (rule drip_stream)
  have pk: "packets (e_be (count_env no_allocator)) (sv_integrity (s_world s)) (sv_mac_key (s_world s))
      (conn_in conn0 (s_heap s) @ d_in (sv_net (s_world s))) = ([(header, ?p)], [], False)"
    using packets_wire [OF h] s'(3-5) E(2) conn0_bytes(1) by simp
  have sh: "cut_packet (e_be (count_env no_allocator)) (sv_integrity (s_world s)) (sv_mac_key (s_world s)) (conn_in conn0 (s_heap s)) = Short"
    by (simp add: conn0_bytes cut_packet_def WIRECALL_HEADER_SIZE_def)
  have h1: "h_op header = WIRECALL_OP_RPC" "h_proc_id header = 7" "h_call_id header = 1" using h by (simp_all add: wire_packet_def)
  have "length ?in = 37" by (simp add: encode_payload_def WIRECALL_HEADER_SIZE_def)
  then have room: "read_room (length (d_in (sv_net (s_world s)))) conn0" "conn_room (length [(header, ?p)]) conn0"
    unfolding s'(5) by (simp_all add: read_room_def conn_room_def conn0_bytes SIZE_MAX_def WIRECALL_READ_CHUNK_def WIRECALL_HEADER_SIZE_def
        WIRECALL_MAX_PAYLOAD_SIZE_def)
  have nd: "\<not> disconnects [(header, ?p)]" using h1(1) by (simp add: disconnects_def op_defs)
  obtain s2 c2 outs where r: "connection_read (count_env no_allocator) 1 s = Some s2" "serving A count_routes heap0 1 c2 s2"
    "conn_out c2 (s_heap s2) = conn_out conn0 (s_heap s) @ concat outs"
    "list_all2 (\<lambda>(header, payload) out. reply_wire (e_be (count_env no_allocator)) (sv_integrity (s_world s)) (sv_mac_key (s_world s)) (h_call_id header)
      (reply_of count_service count_routes header payload) out) [(header, ?p)] outs"
    using server_answers_stream [OF E(1) plain_memory.count_handlers_ok recv s'(1,2) _ count_routes_at_once room sh pk] conn0_bytes(3) nd
    by auto
  obtain out where out: "outs = [out]" using r(4) by (auto simp: list_all2_Cons1)
  have "reply_wire False (c_integrity client0) (c_mac_key client0) 1 (Some (WIRECALL_OP_RESPONSE, 7, encode_payload [P_U64 2])) out"
    using r(4) count_reply [OF h1(1,2)] h1(3) unfolding out E(2) s'(3,4) by simp
  then obtain header' where "wire_packet False (c_integrity client0) (c_mac_key client0) WIRECALL_OP_RESPONSE 7 1 (encode_payload [P_U64 2]) header'"
    "conn_out c2 (s_heap s2) = header_bytes header' @ encode_payload [P_U64 2]"
    using r(3) unfolding out reply_wire_def by (auto simp: conn0_bytes)
  then show ?thesis using s r(1,2) by blast
qed


text \<open>
  C9: No client harms the server through procedures that are answered at once.  Whatever bytes wait on a connection,
  in whatever pieces they arrive, and whichever allocations fail: if no packet with a valid signature among them
  calls a deferred or an asynchronous procedure, and the handlers return, then \<open>connection_read\<close> terminates
  without an access outside of live memory.  The connection, its two buffers and the table of routes are in
  order afterwards, what was queued before is still at the front of the queue, and all bytes have been read unless the
  connection is marked for closing.  Malformed packets, wrong signatures, unknown procedures, disconnects and operations
  out of place are all covered; calls of deferred and asynchronous procedures are not.
\<close>

theorem server_survives_any_client:
  assumes "mem_ok (e_g E)" "handlers_ok (\<lambda>_. False) (\<lambda>n. (inbox n, patience n)) serve E"
    and "recv_stream (e_os E) (cn_fd c) inbox patience" "serving A m h0 p c s" "\<not> cn_closing c"
    and "all_at_once m (fst (packets (e_be E) (sv_integrity (s_world s)) (sv_mac_key (s_world s)) (conn_in c (s_heap s) @ inbox (sv_net (s_world s)))))"
    and "read_room (length (inbox (sv_net (s_world s)))) c" "conn_room (length (conn_in c (s_heap s) @ inbox (sv_net (s_world s)))) c"
    and "cut_packet (e_be E) (sv_integrity (s_world s)) (sv_mac_key (s_world s)) (conn_in c (s_heap s)) = Short"
  shows "\<exists>s' c' out. connection_read E p s = Some s' \<and> serving A m h0 p c' s' \<and>
    conn_out c' (s_heap s') = conn_out c (s_heap s) @ out \<and> (\<not> cn_closing c' \<longrightarrow> inbox (sv_net (s_world s')) = [])"
proof -
  obtain ps rest bad where ps: "packets (e_be E) (sv_integrity (s_world s)) (sv_mac_key (s_world s))
      (conn_in c (s_heap s) @ inbox (sv_net (s_world s))) = (ps, rest, bad)"
    by (cases "packets (e_be E) (sv_integrity (s_world s)) (sv_mac_key (s_world s)) (conn_in c (s_heap s) @ inbox (sv_net (s_world s)))") auto
  obtain c' s' where r: "connection_read E p s = Some s'" "read_done (\<lambda>_. False) inbox serve (e_be E) A m h0 p c s c' s'"
    using library_memory.connection_read_post [OF library_memory_any [OF assms(1)] refl assms(2-5,7) packets_cut(1) [OF assms(9)] ps
        assms(6) [unfolded ps fst_conv] conn_room_mono [OF assms(8) packets_length [OF ps]]] by blast
  then obtain qs rest' where d: "absorbed (\<lambda>_. False) serve (e_be E) A m h0 p c s qs rest' c' s'"
    "\<not> cn_closing c' \<longrightarrow> inbox (sv_net (s_world s')) = []"
    unfolding read_done_def by blast
  then obtain outs where "conn_out c' (s_heap s') = conn_out c (s_heap s) @ concat outs" unfolding absorbed_def by blast
  then show ?thesis using r(1) d(2) absorbedD(1) [OF d(1)] by blast
qed

theorem server_survives_any_client_witness:
  "\<exists>A s s' c' out. count_state A (replicate 40 255) s \<and> connection_read (count_env (embed_allocator 7)) 1 s = Some s' \<and>
    serving A count_routes heap0 1 c' s' \<and> conn_out c' (s_heap s') = out"
proof -
  let ?E = "count_env (embed_allocator 7)"
  obtain A s where s: "count_state A (replicate 40 255) s" using count_state_exists by blast
  then have s': "serving A count_routes heap0 1 conn0 s" "d_in (sv_net (s_world s)) = replicate 40 255"
    by (simp_all add: count_state_def)
  have E: "mem_ok (e_g ?E)" "e_os ?E = drip_os" by (simp_all add: count_env_def)
  have hs: "handlers_ok (\<lambda>_. False) (\<lambda>n. (d_in n, drip_patience n)) count_service ?E"
    by (rule library_memory.count_handlers_ok [OF library_memory_any]) simp
  have recv: "recv_stream (e_os ?E) (cn_fd conn0) d_in drip_patience" unfolding E by (rule drip_stream)
  have sh: "cut_packet (e_be ?E) (sv_integrity (s_world s)) (sv_mac_key (s_world s)) (conn_in conn0 (s_heap s)) = Short"
    by (simp add: conn0_bytes cut_packet_def WIRECALL_HEADER_SIZE_def)
  have room: "read_room (length (d_in (sv_net (s_world s)))) conn0" "conn_room (length (conn_in conn0 (s_heap s) @ d_in (sv_net (s_world s)))) conn0"
    unfolding s'(2) by (simp_all add: read_room_def conn_room_def conn0_bytes SIZE_MAX_def WIRECALL_READ_CHUNK_def WIRECALL_HEADER_SIZE_def
        WIRECALL_MAX_PAYLOAD_SIZE_def)
  show ?thesis using s server_survives_any_client [OF E(1) hs recv s'(1) _ count_routes_at_once room sh] conn0_bytes(3) by blast
qed

lemma connection_write_keeps:
  assumes "socket_sends (e_os E) (cn_fd c) outbox patience" "backend_quiet (e_backend E) outbox"
    and "sv_conns v p = Some c" "sv_worker v (cn_worker c) \<noteq> None" "conn_ok B h0 c h"
  shows "\<exists>v' c'. connection_write E p h v = Some v' \<and> sv_conns v' p = Some c' \<and> conn_ok B h0 c' h \<and>
    outbox (sv_net v') @ conn_out c' h = outbox (sv_net v) @ conn_out c h \<and>
    (if conn_out c' h = [] then cn_write_len c' = 0 \<and> cn_write_off c' = 0 \<and> cn_closing c' = cn_closing c
     else cn_closing c' \<or> send_blocks (e_os E) (cn_fd c) (conn_out c' h))"
proof -
  obtain all c' v' where r: "connection_write E p h v = Some v'" "write_post outbox (e_os E) B h0 p c h v all c' v'"
    "all \<longrightarrow> cn_write_len c' = 0 \<and> cn_write_off c' = 0"
    using connection_write_post [OF assms] by blast
  have "v' = set_conn p c' (v\<lparr>sv_net := sv_net v'\<rparr>)" using r(2) unfolding write_post_def by blast
  from arg_cong [OF this, of "\<lambda>v. sv_conns v p"] have "sv_conns v' p = Some c'" by simp
  moreover have "conn_ok B h0 c' h" "outbox (sv_net v') @ conn_out c' h = outbox (sv_net v) @ conn_out c h"
    "if all then conn_out c' h = [] \<and> cn_closing c' = cn_closing c
     else conn_out c' h \<noteq> [] \<and> (cn_closing c' \<or> send_blocks (e_os E) (cn_fd c) (conn_out c' h))"
    using r(2) unfolding write_post_def by blast+
  ultimately show ?thesis using r(1,3) by (intro exI [of _ v'] exI [of _ c']) (cases all, simp_all)
qed

text \<open>
  C16: Replies leave in the order in which they were queued.  However much of the data each call of \<open>send\<close> accepts and
  whenever it is interrupted, the bytes sent by \<open>connection_write\<close> followed by the bytes still queued are the bytes
  sent before followed by the queue: nothing is lost, repeated or reordered.  The queue is empty afterwards and the
  buffer is reset, unless the socket would block or the connection is marked for closing.
\<close>

theorem server_sends_in_order:
  assumes "socket_sends (e_os E) (cn_fd c) outbox patience" "backend_quiet (e_backend E) outbox"
    and "sv_conns v p = Some c" "sv_worker v (cn_worker c) \<noteq> None" "conn_ok B h0 c h"
  shows "\<exists>v' c'. connection_write E p h v = Some v' \<and> sv_conns v' p = Some c' \<and> conn_ok B h0 c' h \<and>
    outbox (sv_net v') @ conn_out c' h = outbox (sv_net v) @ conn_out c h \<and>
    (if conn_out c' h = [] then cn_write_len c' = 0 \<and> cn_write_off c' = 0 \<and> cn_closing c' = cn_closing c
     else cn_closing c' \<or> send_blocks (e_os E) (cn_fd c) (conn_out c' h))"
  by (rule connection_write_keeps [OF assms])

lemma drip_sends: "socket_sends drip_os fd d_out drip_patience"
  by (simp add: socket_sends_def drip_os_def)

definition heap1 :: heap where
  "heap1 = heap0\<lparr>hp_size := [1 \<mapsto> 8], hp_bytes := (\<lambda>p i. word_of_nat i), hp_next := 2\<rparr>"

theorem server_sends_in_order_witness:
  "\<exists>v' c'. connection_write (count_env no_allocator) 1 heap1 ((server0 start0 [])
      \<lparr>sv_conns := [1 \<mapsto> conn0\<lparr>cn_write_buf := 1, cn_write_len := 5, cn_write_cap := 8, cn_write_off := 2\<rparr>]\<rparr>) = Some v' \<and>
    sv_conns v' 1 = Some c' \<and> d_out (sv_net v') @ conn_out c' heap1 = [2, 3, 4]"
proof -
  let ?c = "conn0\<lparr>cn_write_buf := 1, cn_write_len := 5, cn_write_cap := 8, cn_write_off := 2\<rparr>"
  have "heap_ok heap1" "live heap1 = {1}" "live heap0 = {}" by (auto simp: heap1_def heap0_def heap_ok_def live_def split: if_splits)
  then have ok: "conn_ok {} heap0 ?c heap1"
    by (simp add: conn_ok_def heap_owns_def conn0_def zero_connection_def buf_ok_def heap1_def heap_keep_def)
  have q: "backend_quiet (e_backend (count_env no_allocator)) d_out" "e_os (count_env no_allocator) = drip_os"
    by (simp_all add: backend_quiet_def count_env_def)
  have o: "conn_out ?c heap1 = [2, 3, 4]" by (simp add: conn_out_def buf_view_def heap1_def upt_rec)
  show ?thesis
    using server_sends_in_order [of "count_env no_allocator" ?c d_out drip_patience "(server0 start0 [])\<lparr>sv_conns := [1 \<mapsto> ?c]\<rparr>" 1 "{}" heap0 heap1]
      drip_sends q ok o by (auto simp: server0_def conn0_def zero_connection_def drip0_def)
qed


end
