(* ===== verification/Trace.thy ===== *)
theory Trace
imports Platform
begin

text \<open>
  The counters of \<^verbatim>\<open>src/trace.c\<close> and the inline functions of \<^verbatim>\<open>include/wirecall/trace.h\<close>: metrics with a number of
  events, a sum and a maximum, that all threads update with relaxed atomic operations.  An update is a
  sequence of atomic steps, and updates of several threads are interleaved in any order.  Not
  modelled are \<open>format_duration\<close> and \<open>wirecall_trace_dump\<close>, which print.
\<close>

section \<open>Data\<close>

text \<open>The enumerations, by their values; the table of names is in their order.\<close>

definition WIRECALL_TRACE_SERVER_POLL_EVENTS :: u32 where "WIRECALL_TRACE_SERVER_POLL_EVENTS = 6"
definition WIRECALL_TRACE_COUNT :: nat where "WIRECALL_TRACE_COUNT = 19"
definition WIRECALL_TRACE_WORKER_COUNT :: nat where "WIRECALL_TRACE_WORKER_COUNT = 6"
definition WIRECALL_TRACE_MAX_WORKERS :: nat where "WIRECALL_TRACE_MAX_WORKERS = 128"

definition trace_names :: "string list" where
  "trace_names = [''client.call'', ''client.send'', ''client.recv'', ''client.decode'', ''server.accept'', ''server.poll_wait'',
     ''server.poll_events'', ''server.loop_active'', ''server.read'', ''server.parse'', ''server.route'', ''server.schedule'',
     ''server.write'', ''sched.submit'', ''sched.decode'', ''sched.coro_create'', ''sched.resume'', ''payload.decode'', ''route.lookup'']"

definition trace_is_time :: "bool list" where
  "trace_is_time = (replicate WIRECALL_TRACE_COUNT True)[unat WIRECALL_TRACE_SERVER_POLL_EVENTS := False]"

record wirecall_trace_counter =
  tc_count :: u64
  tc_total_ns :: u64
  tc_max_ns :: u64

definition zero_counter :: wirecall_trace_counter where
  "zero_counter = \<lparr>tc_count = 0, tc_total_ns = 0, tc_max_ns = 0\<rparr>"

record wirecall_trace_stat =
  st_name :: string
  st_count :: u64
  st_total :: u64
  st_max :: u64
  st_is_time :: bool

record trace_state =
  tr_counters :: "wirecall_trace_counter list"
  tr_worker_counters :: "wirecall_trace_counter list list"
  tr_enabled :: bool

section \<open>One update\<close>

text \<open>
  What a thread in \<open>trace_counter_add\<close> does next, with the value it adds: the two additions, the load of the
  maximum, and the loop with what it has last seen as the maximum.  The weak compare-and-exchange may fail although the values
  agree (\<open>spurious\<close>).
\<close>

datatype add_pc = Add_Count u64 | Add_Total u64 | Load_Max u64 | Cas_Max u64 u64 | Finished u64

definition max_loop :: "u64 \<Rightarrow> u64 \<Rightarrow> add_pc" where
  "max_loop old value = (if old < value then Cas_Max old value else Finished value)"

fun add_step :: "bool \<Rightarrow> add_pc \<times> wirecall_trace_counter \<Rightarrow> add_pc \<times> wirecall_trace_counter" where
  "add_step spurious (Add_Count value, counter) = (Add_Total value, counter\<lparr>tc_count := tc_count counter + 1\<rparr>)"
| "add_step spurious (Add_Total value, counter) = (Load_Max value, counter\<lparr>tc_total_ns := tc_total_ns counter + value\<rparr>)"
| "add_step spurious (Load_Max value, counter) = (max_loop (tc_max_ns counter) value, counter)"
| "add_step spurious (Cas_Max old value, counter) =
     (if tc_max_ns counter = old \<and> \<not> spurious then (Finished value, counter\<lparr>tc_max_ns := value\<rparr>)
      else (max_loop (tc_max_ns counter) value, counter))"
| "add_step spurious (Finished value, counter) = (Finished value, counter)"

text \<open>The update of a thread that no other thread interferes with takes at most four steps.\<close>

definition trace_counter_add :: "u64 \<Rightarrow> wirecall_trace_counter \<Rightarrow> wirecall_trace_counter" where
  "trace_counter_add value counter = snd ((add_step False ^^ 4) (Add_Count value, counter))"

section \<open>The interface\<close>

definition wirecall_trace_set_enabled :: "int \<Rightarrow> trace_state \<Rightarrow> trace_state" where
  "wirecall_trace_set_enabled enabled t = t\<lparr>tr_enabled := enabled \<noteq> 0\<rparr>"

definition wirecall_trace_is_enabled :: "trace_state \<Rightarrow> bool" where
  "wirecall_trace_is_enabled t = tr_enabled t"

definition wirecall_trace_begin_slow :: "'n os \<Rightarrow> 'n \<Rightarrow> u64 \<times> 'n" where
  "wirecall_trace_begin_slow os n = wirecall_time_ns os n"

definition wirecall_trace_add_slow :: "u32 \<Rightarrow> u64 \<Rightarrow> trace_state \<Rightarrow> trace_state" where
  "wirecall_trace_add_slow metric value t =
     (if unat metric \<ge> WIRECALL_TRACE_COUNT then t
      else t\<lparr>tr_counters := (tr_counters t)[unat metric := trace_counter_add value (tr_counters t ! unat metric)]\<rparr>)"

definition wirecall_trace_end_slow :: "'n os \<Rightarrow> u32 \<Rightarrow> u64 \<Rightarrow> trace_state \<Rightarrow> 'n \<Rightarrow> trace_state \<times> 'n" where
  "wirecall_trace_end_slow os metric start_ns t n =
     (let (now, n) = wirecall_trace_begin_slow os n in (wirecall_trace_add_slow metric (now - start_ns) t, n))"

definition wirecall_trace_worker_add_slow :: "u32 \<Rightarrow> u32 \<Rightarrow> u64 \<Rightarrow> trace_state \<Rightarrow> trace_state" where
  "wirecall_trace_worker_add_slow worker metric value t =
     (if unat worker \<ge> WIRECALL_TRACE_MAX_WORKERS \<or> unat metric \<ge> WIRECALL_TRACE_WORKER_COUNT then t
      else let row = tr_worker_counters t ! unat worker
           in t\<lparr>tr_worker_counters := (tr_worker_counters t)[unat worker :=
                row[unat metric := trace_counter_add value (row ! unat metric)]]\<rparr>)"

definition wirecall_trace_worker_end_slow :: "'n os \<Rightarrow> u32 \<Rightarrow> u32 \<Rightarrow> u64 \<Rightarrow> trace_state \<Rightarrow> 'n \<Rightarrow> trace_state \<times> 'n" where
  "wirecall_trace_worker_end_slow os worker metric start_ns t n =
     (let (now, n) = wirecall_trace_begin_slow os n in (wirecall_trace_worker_add_slow worker metric (now - start_ns) t, n))"

definition wirecall_trace_reset :: "trace_state \<Rightarrow> trace_state" where
  "wirecall_trace_reset t = t\<lparr>tr_counters := replicate WIRECALL_TRACE_COUNT zero_counter,
     tr_worker_counters := replicate WIRECALL_TRACE_MAX_WORKERS (replicate WIRECALL_TRACE_WORKER_COUNT zero_counter)\<rparr>"

definition wirecall_trace_snapshot :: "trace_state \<Rightarrow> wirecall_trace_stat list" where
  "wirecall_trace_snapshot t = map (\<lambda>i. \<lparr>st_name = trace_names ! i, st_count = tc_count (tr_counters t ! i),
     st_total = tc_total_ns (tr_counters t ! i), st_max = tc_max_ns (tr_counters t ! i), st_is_time = trace_is_time ! i\<rparr>)
     [0..<WIRECALL_TRACE_COUNT]"

definition wirecall_trace_begin :: "'n os \<Rightarrow> trace_state \<Rightarrow> 'n \<Rightarrow> u64 \<times> 'n" where
  "wirecall_trace_begin os t n = (if wirecall_trace_is_enabled t then wirecall_trace_begin_slow os n else (0, n))"

definition wirecall_trace_end :: "'n os \<Rightarrow> u32 \<Rightarrow> u64 \<Rightarrow> trace_state \<Rightarrow> 'n \<Rightarrow> trace_state \<times> 'n" where
  "wirecall_trace_end os metric start_ns t n =
     (if wirecall_trace_is_enabled t \<and> start_ns \<noteq> 0 then wirecall_trace_end_slow os metric start_ns t n else (t, n))"

definition wirecall_trace_add :: "u32 \<Rightarrow> u64 \<Rightarrow> trace_state \<Rightarrow> trace_state" where
  "wirecall_trace_add metric value t = (if wirecall_trace_is_enabled t then wirecall_trace_add_slow metric value t else t)"

definition wirecall_trace_worker_end :: "'n os \<Rightarrow> u32 \<Rightarrow> u32 \<Rightarrow> u64 \<Rightarrow> trace_state \<Rightarrow> 'n \<Rightarrow> trace_state \<times> 'n" where
  "wirecall_trace_worker_end os worker metric start_ns t n =
     (if wirecall_trace_is_enabled t \<and> start_ns \<noteq> 0 then wirecall_trace_worker_end_slow os worker metric start_ns t n else (t, n))"

definition wirecall_trace_worker_add :: "u32 \<Rightarrow> u32 \<Rightarrow> u64 \<Rightarrow> trace_state \<Rightarrow> trace_state" where
  "wirecall_trace_worker_add worker metric value t =
     (if wirecall_trace_is_enabled t then wirecall_trace_worker_add_slow worker metric value t else t)"

section \<open>Interleaved updates\<close>

fun added :: "add_pc \<Rightarrow> u64" where
  "added (Add_Count value) = value"
| "added (Add_Total value) = value"
| "added (Load_Max value) = value"
| "added (Cas_Max old value) = value"
| "added (Finished value) = value"

fun finished :: "add_pc \<Rightarrow> bool" where
  "finished (Finished value) = True"
| "finished _ = False"

text \<open>
  \<open>updates c0 vs (ps, c)\<close>: threads have begun to add the values \<open>vs\<close> to a counter that was \<open>c0\<close>; now they stand at
  \<open>ps\<close> and the counter is \<open>c\<close>.  Any of them may take the next step, and new ones may begin at any time.
\<close>

inductive updates :: "wirecall_trace_counter \<Rightarrow> u64 list \<Rightarrow> add_pc list \<times> wirecall_trace_counter \<Rightarrow> bool" for c0 where
  updates_start: "updates c0 [] ([], c0)"
| updates_begin: "updates c0 vs (ps, c) \<Longrightarrow> updates c0 (vs @ [value]) (ps @ [Add_Count value], c)"
| updates_step: "updates c0 vs (ps, c) \<Longrightarrow> i < length ps \<Longrightarrow> add_step spurious (ps ! i, c) = (pc, c') \<Longrightarrow>
    updates c0 vs (ps[i := pc], c')"

text \<open>What a thread has contributed so far, and what it knows about the maximum.\<close>

fun counted :: "add_pc \<Rightarrow> u64" where
  "counted (Add_Count value) = 0"
| "counted _ = 1"

fun totalled :: "add_pc \<Rightarrow> u64" where
  "totalled (Add_Count value) = 0"
| "totalled (Add_Total value) = 0"
| "totalled pc = added pc"

fun knows_max :: "u64 \<Rightarrow> add_pc \<Rightarrow> bool" where
  "knows_max m (Cas_Max old value) \<longleftrightarrow> old < value \<and> old \<le> m"
| "knows_max m (Finished value) \<longleftrightarrow> value \<le> m"
| "knows_max m _ \<longleftrightarrow> True"

lemma knows_max_mono: "knows_max m pc \<Longrightarrow> m \<le> m' \<Longrightarrow> knows_max m' pc"
  by (cases pc) auto

definition updates_inv :: "wirecall_trace_counter \<Rightarrow> u64 list \<Rightarrow> add_pc list \<times> wirecall_trace_counter \<Rightarrow> bool" where
  "updates_inv c0 vs = (\<lambda>(ps, c). map added ps = vs \<and> tc_count c = tc_count c0 + sum_list (map counted ps) \<and>
     tc_total_ns c = tc_total_ns c0 + sum_list (map totalled ps) \<and> tc_max_ns c0 \<le> tc_max_ns c \<and>
     tc_max_ns c \<in> insert (tc_max_ns c0) (set vs) \<and> (\<forall>pc \<in> set ps. knows_max (tc_max_ns c) pc))"

lemma sum_list_map_update:
  fixes f :: "'a \<Rightarrow> 'b :: ab_group_add"
  shows "i < length xs \<Longrightarrow> sum_list (map f (xs[i := x])) = sum_list (map f xs) + (f x - f (xs ! i))"
  by (induction xs arbitrary: i) (auto simp: algebra_simps split: nat.split)

text \<open>The changes that a step makes to the counter and to the thread's own record agree.\<close>

lemma add_step_effect:
  assumes "add_step spurious (pc, c) = (pc', c')" "knows_max (tc_max_ns c) pc"
  shows "added pc' = added pc" "tc_count c' = tc_count c + (counted pc' - counted pc)"
    "tc_total_ns c' = tc_total_ns c + (totalled pc' - totalled pc)" "tc_max_ns c \<le> tc_max_ns c'"
    "tc_max_ns c' = tc_max_ns c \<or> tc_max_ns c' = added pc" "knows_max (tc_max_ns c') pc'"
  using assms by (cases pc, auto simp: max_loop_def split: if_splits)+

lemma updates_invariant: "updates c0 vs s \<Longrightarrow> updates_inv c0 vs s"
proof (induction rule: updates.induct)
  case updates_start
  then show ?case by (simp add: updates_inv_def)
next
  case (updates_begin vs ps c x)
  then show ?case by (auto simp: updates_inv_def)
next
  case (updates_step vs ps c i spurious pc c')
  have inv: "map added ps = vs" "tc_count c = tc_count c0 + sum_list (map counted ps)"
    "tc_total_ns c = tc_total_ns c0 + sum_list (map totalled ps)" "tc_max_ns c0 \<le> tc_max_ns c"
    "tc_max_ns c \<in> insert (tc_max_ns c0) (set vs)" "\<forall>pc \<in> set ps. knows_max (tc_max_ns c) pc"
    using updates_step.IH by (simp_all add: updates_inv_def)
  have "knows_max (tc_max_ns c) (ps ! i)" using inv(6) updates_step.hyps(2) by simp
  note eff = add_step_effect [OF updates_step.hyps(3) this]
  have "map added (ps[i := pc]) = vs" using inv(1) eff(1) updates_step.hyps(2) by (simp add: map_update list_update_same_conv flip: inv(1))
  moreover have "added (ps ! i) \<in> set vs" using inv(1) updates_step.hyps(2) by auto
  moreover have "\<forall>q \<in> set (ps[i := pc]). knows_max (tc_max_ns c') q"
    using inv(6) eff(4,6) knows_max_mono set_update_subset_insert [of ps i pc] by blast
  ultimately show ?case using inv(2-5) eff(2-5) updates_step.hyps(2) order_trans [OF inv(4) eff(4)]
    by (auto simp: updates_inv_def sum_list_map_update)
qed

lemma finished_sums:
  "list_all finished ps \<Longrightarrow> sum_list (map counted ps) = word_of_nat (length ps) \<and> sum_list (map totalled ps) = sum_list (map added ps)"
proof (induction ps)
  case (Cons pc ps)
  then show ?case by (cases pc) auto
qed simp

text \<open>
  C21: No update of a counter is lost.  However the atomic steps of any number of threads are interleaved, and however often the
  weak compare-and-exchange fails, once all updates are finished the counter holds the number of updates, their sum (modulo \<open>2 ^ 64\<close>) and
  their maximum.
\<close>

theorem trace_updates_exact:
  assumes "updates zero_counter vs (ps, c)" "list_all finished ps"
  shows "tc_count c = word_of_nat (length vs) \<and> tc_total_ns c = sum_list vs \<and> tc_max_ns c = Max (insert 0 (set vs))"
proof -
  have inv: "map added ps = vs" "tc_count c = sum_list (map counted ps)" "tc_total_ns c = sum_list (map totalled ps)"
    "tc_max_ns c \<in> insert 0 (set vs)" "\<forall>pc \<in> set ps. knows_max (tc_max_ns c) pc"
    using updates_invariant [OF assms(1)] by (simp_all add: updates_inv_def zero_counter_def)
  have "added pc \<le> tc_max_ns c" if "pc \<in> set ps" for pc
  proof -
    have "finished pc" "knows_max (tc_max_ns c) pc" using that assms(2) inv(5) by (auto simp: list_all_iff)
    then show ?thesis by (cases pc) auto
  qed
  then have "\<forall>v \<in> set vs. v \<le> tc_max_ns c" using inv(1) by auto
  then have "Max (insert 0 (set vs)) = tc_max_ns c" using inv(4) by (intro Max_eqI) auto
  then show ?thesis using inv(1-3) finished_sums [OF assms(2)] by auto
qed


text \<open>Two threads: the second one loads the maximum before the first one stores it, fails once and tries again.\<close>

theorem trace_updates_exact_witness:
  "\<exists>ps c. updates zero_counter [5, 9] (ps, c) \<and> list_all finished ps \<and>
    tc_count c = word_of_nat (length [5, 9 :: u64]) \<and> tc_total_ns c = sum_list [5, 9] \<and> tc_max_ns c = Max (insert 0 (set [5, 9]))"
proof -
  let ?c = "\<lambda>n t m. \<lparr>tc_count = n, tc_total_ns = t, tc_max_ns = m\<rparr> :: wirecall_trace_counter"
  have 0: "updates zero_counter [5, 9] ([Add_Count 5, Add_Count 9], ?c 0 0 0)"
    using updates_begin [OF updates_begin [OF updates_start], of zero_counter 5 9] by (simp add: zero_counter_def)
  have 1: "updates zero_counter [5, 9] ([Add_Total 5, Add_Count 9], ?c 1 0 0)" using updates_step [OF 0, of 0 False] by simp
  have 2: "updates zero_counter [5, 9] ([Add_Total 5, Add_Total 9], ?c 2 0 0)" using updates_step [OF 1, of 1 False] by simp
  have 3: "updates zero_counter [5, 9] ([Add_Total 5, Load_Max 9], ?c 2 9 0)" using updates_step [OF 2, of 1 False] by simp
  have 4: "updates zero_counter [5, 9] ([Load_Max 5, Load_Max 9], ?c 2 14 0)" using updates_step [OF 3, of 0 False] by simp
  have 5: "updates zero_counter [5, 9] ([Load_Max 5, Cas_Max 0 9], ?c 2 14 0)" using updates_step [OF 4, of 1 False] by (simp add: max_loop_def)
  have 6: "updates zero_counter [5, 9] ([Cas_Max 0 5, Cas_Max 0 9], ?c 2 14 0)" using updates_step [OF 5, of 0 False] by (simp add: max_loop_def)
  have 7: "updates zero_counter [5, 9] ([Finished 5, Cas_Max 0 9], ?c 2 14 5)" using updates_step [OF 6, of 0 False] by simp
  have 8: "updates zero_counter [5, 9] ([Finished 5, Cas_Max 5 9], ?c 2 14 5)" using updates_step [OF 7, of 1 False] by (simp add: max_loop_def)
  have 9: "updates zero_counter [5, 9] ([Finished 5, Finished 9], ?c 2 14 9)" using updates_step [OF 8, of 1 False] by simp
  have fin: "list_all finished [Finished 5, Finished 9]" by simp
  show ?thesis by (rule exI, rule exI, rule conjI [OF 9 conjI [OF fin trace_updates_exact [OF 9 fin]]])
qed

text \<open>The work that is left: the steps to the end of each update, and the threads that have seen an old maximum.\<close>

fun steps_left :: "add_pc \<Rightarrow> nat" where
  "steps_left (Add_Count v) = 4"
| "steps_left (Add_Total v) = 3"
| "steps_left (Load_Max v) = 2"
| "steps_left (Cas_Max old v) = 1"
| "steps_left (Finished v) = 0"

fun stale :: "u64 \<Rightarrow> add_pc \<Rightarrow> nat" where
  "stale m (Cas_Max old v) = (if old = m then 0 else 1)"
| "stale m _ = 0"

definition work :: "add_pc list \<times> wirecall_trace_counter \<Rightarrow> nat \<times> nat" where
  "work = (\<lambda>(ps, c). (sum_list (map steps_left ps), sum_list (map (stale (tc_max_ns c)) ps)))"

definition quiet_step :: "add_pc list \<times> wirecall_trace_counter \<Rightarrow> add_pc list \<times> wirecall_trace_counter \<Rightarrow> bool" where
  "quiet_step = (\<lambda>(ps, c) s'. \<exists>i < length ps. \<not> finished (ps ! i) \<and>
     s' = (ps[i := fst (add_step False (ps ! i, c))], snd (add_step False (ps ! i, c))))"

lemma sum_list_map_less:
  fixes f :: "'a \<Rightarrow> nat"
  shows "i < length xs \<Longrightarrow> f x < f (xs ! i) \<Longrightarrow> sum_list (map f (xs[i := x])) < sum_list (map f xs)"
  by (induction xs arbitrary: i) (auto split: nat.split)

lemma sum_list_map_same:
  fixes f :: "'a \<Rightarrow> nat"
  shows "i < length xs \<Longrightarrow> f x = f (xs ! i) \<Longrightarrow> sum_list (map f (xs[i := x])) = sum_list (map f xs)"
  by (induction xs arbitrary: i) (auto split: nat.split)

lemma quiet_step_work:
  assumes "quiet_step s s'"
  shows "(work s', work s) \<in> less_than <*lex*> less_than"
proof -
  obtain ps c where s: "s = (ps, c)" by (cases s)
  obtain i where i: "i < length ps" "\<not> finished (ps ! i)"
    "s' = (ps[i := fst (add_step False (ps ! i, c))], snd (add_step False (ps ! i, c)))"
    using assms by (auto simp: quiet_step_def s)
  let ?pc = "fst (add_step False (ps ! i, c))" and ?c = "snd (add_step False (ps ! i, c))"
  have "steps_left ?pc < steps_left (ps ! i) \<or>
      steps_left ?pc = steps_left (ps ! i) \<and> stale (tc_max_ns c) ?pc < stale (tc_max_ns c) (ps ! i) \<and> ?c = c"
    using i(2) by (cases "ps ! i") (auto simp: max_loop_def)
  then show ?thesis
  proof
    assume "steps_left ?pc < steps_left (ps ! i)"
    from sum_list_map_less [of i ps steps_left, OF i(1) this] show ?thesis by (simp add: s i(3) work_def)
  next
    assume *: "steps_left ?pc = steps_left (ps ! i) \<and> stale (tc_max_ns c) ?pc < stale (tc_max_ns c) (ps ! i) \<and> ?c = c"
    have "sum_list (map steps_left (ps[i := ?pc])) = sum_list (map steps_left ps)" using * by (intro sum_list_map_same i(1)) simp
    moreover have "sum_list (map (stale (tc_max_ns c)) (ps[i := ?pc])) < sum_list (map (stale (tc_max_ns c)) ps)"
      using * by (intro sum_list_map_less i(1)) simp
    ultimately show ?thesis using * by (simp add: s i(3) work_def)
  qed
qed

text \<open>
  C28: Updates of a counter always come to an end.  As long as the compare-and-exchange fails only because another thread has
  stored a new maximum, there is no infinite sequence of steps of unfinished threads, for any number of threads and any scheduling: the
  retries of a thread are paid for by the progress of others.
\<close>

theorem trace_updates_terminate: "wf {(s', s). quiet_step s s'}"
proof -
  have "{(s', s). quiet_step s s'} \<subseteq> inv_image (less_than <*lex*> less_than) work"
    using quiet_step_work by (auto simp: inv_image_def)
  then show ?thesis by (rule wf_subset [OF wf_inv_image [OF wf_lex_prod [OF wf_less_than wf_less_than]]])
qed

section \<open>Metrics\<close>

definition trace_ok :: "trace_state \<Rightarrow> bool" where
  "trace_ok t \<longleftrightarrow> length (tr_counters t) = WIRECALL_TRACE_COUNT \<and> length (tr_worker_counters t) = WIRECALL_TRACE_MAX_WORKERS \<and>
     list_all (\<lambda>row. length row = WIRECALL_TRACE_WORKER_COUNT) (tr_worker_counters t)"

lemma trace_counter_add_seq:
  "trace_counter_add v c = \<lparr>tc_count = tc_count c + 1, tc_total_ns = tc_total_ns c + v, tc_max_ns = max (tc_max_ns c) v\<rparr>"
  by (cases c) (auto simp: trace_counter_add_def eval_nat_numeral max_loop_def max_def)

text \<open>The values that were added to metric \<open>i\<close> in a sequence of additions.\<close>

definition values_of :: "nat \<Rightarrow> (u32 \<times> u64) list \<Rightarrow> u64 list" where
  "values_of i adds = map snd (filter (\<lambda>(metric, v). unat metric = i) adds)"

definition add_all :: "(u32 \<times> u64) list \<Rightarrow> trace_state \<Rightarrow> trace_state" where
  "add_all adds t = fold (\<lambda>(metric, v). wirecall_trace_add metric v) adds t"

lemma add_all_counter:
  assumes "trace_ok t" "tr_enabled t" "i < WIRECALL_TRACE_COUNT"
  shows "trace_ok (add_all adds t) \<and> tr_enabled (add_all adds t) \<and>
    tr_counters (add_all adds t) ! i = fold trace_counter_add (values_of i adds) (tr_counters t ! i)"
  using assms
proof (induction adds arbitrary: t)
  case Nil
  then show ?case by (simp add: add_all_def values_of_def)
next
  case (Cons a adds)
  obtain metric v where a: "a = (metric, v)" by (cases a)
  let ?t = "wirecall_trace_add metric v t"
  have t: "trace_ok ?t" "tr_enabled ?t"
    "tr_counters ?t ! i = (if unat metric = i then trace_counter_add v (tr_counters t ! i) else tr_counters t ! i)"
    using Cons.prems by (auto simp: wirecall_trace_add_def wirecall_trace_is_enabled_def wirecall_trace_add_slow_def trace_ok_def)
  show ?case using Cons.IH [OF t(1,2) Cons.prems(3)] t(3) by (simp add: a add_all_def values_of_def)
qed

lemma fold_counter_add:
  "fold trace_counter_add vs c = \<lparr>tc_count = tc_count c + word_of_nat (length vs), tc_total_ns = tc_total_ns c + sum_list vs,
     tc_max_ns = fold max vs (tc_max_ns c)\<rparr>"
  by (induction vs arbitrary: c) (simp_all add: trace_counter_add_seq max.commute)

text \<open>
  C32: A snapshot reports what was added since the last reset.  After \<open>wirecall_trace_reset\<close> and any sequence of additions to any
  metrics, valid or not, each entry of the snapshot has the name of its metric and the number, the sum and the maximum of the
  values added to it; additions to other metrics, or with an invalid number, do not count.
\<close>

theorem trace_snapshot_reports:
  assumes "tr_enabled t" "i < WIRECALL_TRACE_COUNT"
  shows "wirecall_trace_snapshot (add_all adds (wirecall_trace_reset t)) ! i =
    \<lparr>st_name = trace_names ! i, st_count = word_of_nat (length (values_of i adds)), st_total = sum_list (values_of i adds),
     st_max = fold max (values_of i adds) 0, st_is_time = (i \<noteq> unat WIRECALL_TRACE_SERVER_POLL_EVENTS)\<rparr>"
proof -
  have "trace_ok (wirecall_trace_reset t)" "tr_enabled (wirecall_trace_reset t)" "tr_counters (wirecall_trace_reset t) ! i = zero_counter"
    using assms by (auto simp: trace_ok_def wirecall_trace_reset_def list_all_iff)
  then have "tr_counters (add_all adds (wirecall_trace_reset t)) ! i = fold trace_counter_add (values_of i adds) zero_counter"
    using add_all_counter assms(2) by metis
  then show ?thesis using assms(2)
    by (auto simp: wirecall_trace_snapshot_def fold_counter_add zero_counter_def trace_is_time_def nth_list_update)
qed

theorem trace_snapshot_reports_witness:
  "st_count (wirecall_trace_snapshot (add_all [(2, 5), (3, 1), (2, 4), (99, 7)]
      (wirecall_trace_reset \<lparr>tr_counters = [], tr_worker_counters = [], tr_enabled = True\<rparr>)) ! 2) = 2 \<and>
   st_max (wirecall_trace_snapshot (add_all [(2, 5), (3, 1), (2, 4), (99, 7)]
      (wirecall_trace_reset \<lparr>tr_counters = [], tr_worker_counters = [], tr_enabled = True\<rparr>)) ! 2) = 5"
  by (subst (1 2) trace_snapshot_reports) (simp_all add: WIRECALL_TRACE_COUNT_def values_of_def)


end
