(* ===== verification/Uring.thy ===== *)
theory Uring
imports Server
begin

text \<open>
  The event backend for Linux, \<^verbatim>\<open>src/backend/io_uring.c\<close>.  A watch is kept for every descriptor; a poll request for it is pushed
  into the submission ring, and completions are taken from the completion ring.  The rings are memory shared with the
  kernel, which is an argument: it moves the head of the submission ring and the tail of the completion ring.  The
  mappings of \<open>map_rings\<close> are part of that argument.
\<close>

section \<open>Data\<close>

definition POLLIN :: u32 where "POLLIN = 1"
definition POLLOUT :: u32 where "POLLOUT = 4"
definition POLLERR :: u32 where "POLLERR = 8"
definition POLLHUP :: u32 where "POLLHUP = 16"
definition POLLRDHUP :: u32 where "POLLRDHUP = 0x2000"
definition IORING_OP_POLL_ADD :: u8 where "IORING_OP_POLL_ADD = 6"
definition IORING_OP_POLL_REMOVE :: u8 where "IORING_OP_POLL_REMOVE = 7"
definition IORING_ENTER_GETEVENTS :: u32 where "IORING_ENTER_GETEVENTS = 1"
definition WIRECALL_URING_ENTRIES :: u32 where "WIRECALL_URING_ENTRIES = 1024"

record wirecall_backend_watch =
  wt_fd :: int
  wt_events :: u32
  wt_user :: nat
  wt_active :: bool
  wt_armed :: bool
  wt_next :: nat

definition zero_watch :: wirecall_backend_watch where
  "zero_watch = \<lparr>wt_fd = 0, wt_events = 0, wt_user = 0, wt_active = False, wt_armed = False, wt_next = 0\<rparr>"

record io_uring_sqe =
  sqe_opcode :: u8
  sqe_fd :: int
  sqe_poll_events :: u16
  sqe_addr :: nat
  sqe_user_data :: nat

definition zero_sqe :: io_uring_sqe where
  "zero_sqe = \<lparr>sqe_opcode = 0, sqe_fd = 0, sqe_poll_events = 0, sqe_addr = 0, sqe_user_data = 0\<rparr>"

record io_uring_cqe =
  cqe_user_data :: nat
  cqe_res :: int

record rings =
  sq_head :: u32
  sq_tail :: u32
  sq_ring_mask :: u32
  sq_ring_entries :: u32
  sq_array :: "u32 list"
  sqes :: "io_uring_sqe list"
  cq_head :: u32
  cq_tail :: u32
  cq_ring_mask :: u32
  cqes :: "io_uring_cqe list"

text \<open>
  The backend with its address, the watches in the blocks it has allocated, the heap, and the kernel.  The watch for wake-ups is a member of
  the backend, and its address stands for that of the backend.  An address \<open>0\<close> is a null pointer to a backend; the array for events and the place for a
  new backend are results of the definitions and are there.
\<close>

record 'k uring =
  u_self :: nat
  u_ring_fd :: int
  u_wake_fd :: int
  u_rings :: rings
  u_watches :: nat
  u_wake_watch :: wirecall_backend_watch
  u_watch :: "nat \<Rightarrow> wirecall_backend_watch"
  u_heap :: heap
  u_kernel :: 'k

text \<open>
  The system calls.  \<open>k_enter\<close> gets the number of entries to submit, the number of completions to wait for, the flags and the rings; it
  returns an error number, or the number of entries it has taken.
\<close>

record 'k kernel =
  k_setup :: "u32 \<Rightarrow> 'k \<Rightarrow> (int \<times> rings option) \<times> 'k"
  k_enter :: "int \<Rightarrow> u32 \<Rightarrow> u32 \<Rightarrow> u32 \<Rightarrow> rings \<Rightarrow> 'k \<Rightarrow> (int + nat) \<times> rings \<times> 'k"
  k_eventfd :: "'k \<Rightarrow> int \<times> 'k"
  k_read8 :: "int \<Rightarrow> 'k \<Rightarrow> bool \<times> 'k"
  k_write8 :: "int \<Rightarrow> 'k \<Rightarrow> (int + nat) \<times> 'k"
  k_close :: "int \<Rightarrow> 'k \<Rightarrow> 'k"
  k_unmap :: "'k \<Rightarrow> 'k"

section \<open>Watches\<close>

definition watch_get :: "nat \<Rightarrow> 'k uring \<Rightarrow> wirecall_backend_watch option" where
  "watch_get p u = (if p = u_self u then Some (u_wake_watch u) else if hp_size (u_heap u) p = None then None else Some (u_watch u p))"

definition watch_upd :: "nat \<Rightarrow> (wirecall_backend_watch \<Rightarrow> wirecall_backend_watch) \<Rightarrow> 'k uring \<Rightarrow> 'k uring option" where
  "watch_upd p f u =
     (if p = u_self u then Some (u\<lparr>u_wake_watch := f (u_wake_watch u)\<rparr>)
      else if hp_size (u_heap u) p = None then None
      else Some (u\<lparr>u_watch := (u_watch u)(p := f (u_watch u p))\<rparr>))"

partial_function (option) find_watch_from :: "int \<Rightarrow> nat \<Rightarrow> 'k uring \<Rightarrow> nat option" where
  "find_watch_from fd watch u =
     (if watch \<noteq> 0 then do {
        w \<leftarrow> watch_get watch u;
        if wt_fd w = fd then Some watch else find_watch_from fd (wt_next w) u }
      else Some 0)"

definition find_watch :: "int \<Rightarrow> 'k uring \<Rightarrow> nat option" where
  "find_watch fd u = find_watch_from fd (u_watches u) u"

unbundle bit_operations_syntax

definition poll_mask :: "u32 \<Rightarrow> u32" where
  "poll_mask events =
     (let mask = 0;
          mask = (if events AND WIRECALL_BACKEND_READ \<noteq> 0 then mask OR (POLLIN OR POLLRDHUP) else mask)
      in if events AND WIRECALL_BACKEND_WRITE \<noteq> 0 then mask OR POLLOUT else mask)"

section \<open>The submission ring\<close>

definition uring_enter :: "'k kernel \<Rightarrow> u32 \<Rightarrow> u32 \<Rightarrow> u32 \<Rightarrow> 'k uring \<Rightarrow> (int + nat) \<times> 'k uring" where
  "uring_enter K to_submit min_complete flags u =
     (let (r, rings, k) = k_enter K (u_ring_fd u) to_submit min_complete flags (u_rings u) (u_kernel u)
      in (r, u\<lparr>u_rings := rings, u_kernel := k\<rparr>))"

text \<open>The entry is returned by its index; an index outside of the mapped arrays is undefined.\<close>

definition sqe_take :: "u32 \<Rightarrow> 'k uring \<Rightarrow> (nat \<times> 'k uring) option" where
  "sqe_take tail u =
     (let r = u_rings u; index = unat (tail AND sq_ring_mask r)
      in if index < length (sqes r) \<and> index < length (sq_array r)
         then Some (index, u\<lparr>u_rings := r\<lparr>sqes := (sqes r)[index := zero_sqe], sq_array := (sq_array r)[index := word_of_nat index],
           sq_tail := tail + 1\<rparr>\<rparr>)
         else None)"

definition sqe_push :: "'k kernel \<Rightarrow> 'k uring \<Rightarrow> (int \<times> nat \<times> 'k uring) option" where
  "sqe_push K u =
     (let head = sq_head (u_rings u); tail = sq_tail (u_rings u)
      in if tail - head \<ge> sq_ring_entries (u_rings u) then
           (let (r, u) = uring_enter K 0 0 IORING_ENTER_GETEVENTS u
            in if (case r of Inl e \<Rightarrow> e \<noteq> EINTR | Inr _ \<Rightarrow> False) then Some (-1, 0, u)
               else if tail - sq_head (u_rings u) \<ge> sq_ring_entries (u_rings u) then Some (-1, 0, u)
               else do { (index, u) \<leftarrow> sqe_take tail u; Some (0, index, u) })
         else do { (index, u) \<leftarrow> sqe_take tail u; Some (0, index, u) })"

definition sqe_fill :: "nat \<Rightarrow> (io_uring_sqe \<Rightarrow> io_uring_sqe) \<Rightarrow> 'k uring \<Rightarrow> 'k uring" where
  "sqe_fill index f u = u\<lparr>u_rings := (u_rings u)\<lparr>sqes := (sqes (u_rings u))[index := f (sqes (u_rings u) ! index)]\<rparr>\<rparr>"

definition submit_pending :: "'k kernel \<Rightarrow> 'k uring \<Rightarrow> int \<times> 'k uring" where
  "submit_pending K u =
     (let pending = sq_tail (u_rings u) - sq_head (u_rings u)
      in if pending = 0 then (0, u)
         else let (r, u) = uring_enter K pending 0 0 u in (case r of Inl _ \<Rightarrow> -1 | Inr _ \<Rightarrow> 0, u))"

definition arm_watch :: "'k kernel \<Rightarrow> nat \<Rightarrow> 'k uring \<Rightarrow> (int \<times> 'k uring) option" where
  "arm_watch K p u = do {
     w \<leftarrow> watch_get p u;
     if \<not> wt_active w \<or> wt_armed w \<or> wt_events w = 0 then Some (0, u)
     else do {
       (rc, index, u) \<leftarrow> sqe_push K u;
       if rc \<noteq> 0 then Some (-1, u)
       else do {
         let u = sqe_fill index (\<lambda>sqe. sqe\<lparr>sqe_opcode := IORING_OP_POLL_ADD, sqe_fd := wt_fd w,
           sqe_poll_events := ucast (poll_mask (wt_events w)), sqe_user_data := p\<rparr>) u;
         u \<leftarrow> watch_upd p (\<lambda>w. w\<lparr>wt_armed := True\<rparr>) u;
         Some (submit_pending K u) } } }"

definition cancel_watch :: "'k kernel \<Rightarrow> nat \<Rightarrow> 'k uring \<Rightarrow> 'k uring option" where
  "cancel_watch K p u = do {
     w \<leftarrow> watch_get p u;
     if \<not> wt_armed w then Some u
     else do {
       (rc, index, u) \<leftarrow> sqe_push K u;
       if rc \<noteq> 0 then Some u
       else do {
         let u = sqe_fill index (\<lambda>sqe. sqe\<lparr>sqe_opcode := IORING_OP_POLL_REMOVE, sqe_addr := p, sqe_user_data := 0\<rparr>) u;
         let (rc, u) = submit_pending K u;
         watch_upd p (\<lambda>w. w\<lparr>wt_armed := False\<rparr>) u } } }"

section \<open>The interface\<close>

definition sizeof_watch :: nat where "sizeof_watch = 32"
definition sizeof_backend :: nat where "sizeof_backend = 288"

definition uring_register :: "'k kernel \<Rightarrow> wirecall_allocator \<Rightarrow> int \<Rightarrow> u32 \<Rightarrow> nat \<Rightarrow> 'k uring \<Rightarrow> (int \<times> 'k uring) option" where
  "uring_register K g fd events user u =
     (if u_self u = 0 \<or> fd < 0 then Some (-1, u)
      else do {
        watch \<leftarrow> find_watch fd u;
        (watch, u) \<leftarrow>
          (if watch = 0 then do {
             (watch, h) \<leftarrow> wirecall_mem_calloc g 1 sizeof_watch (u_heap u);
             let u = u\<lparr>u_heap := h\<rparr>;
             if watch = 0 then Some (0, u)
             else do {
               u \<leftarrow> watch_upd watch (\<lambda>_. zero_watch\<lparr>wt_fd := fd, wt_next := u_watches u\<rparr>) u;
               Some (watch, u\<lparr>u_watches := watch\<rparr>) } }
           else do { u \<leftarrow> cancel_watch K watch u; Some (watch, u) });
        if watch = 0 then Some (-1, u)
        else do {
          u \<leftarrow> watch_upd watch (\<lambda>w. w\<lparr>wt_events := events, wt_user := user, wt_active := True\<rparr>) u;
          arm_watch K watch u } })"

definition uring_modify :: "'k kernel \<Rightarrow> wirecall_allocator \<Rightarrow> int \<Rightarrow> u32 \<Rightarrow> nat \<Rightarrow> 'k uring \<Rightarrow> (int \<times> 'k uring) option" where
  "uring_modify K g fd events user u = uring_register K g fd events user u"

definition uring_remove :: "'k kernel \<Rightarrow> int \<Rightarrow> 'k uring \<Rightarrow> (int \<times> 'k uring) option" where
  "uring_remove K fd u =
     (if u_self u = 0 \<or> fd < 0 then Some (-1, u)
      else do {
        watch \<leftarrow> find_watch fd u;
        if watch = 0 then Some (0, u)
        else do {
          u \<leftarrow> watch_upd watch (\<lambda>w. w\<lparr>wt_active := False\<rparr>) u;
          u \<leftarrow> cancel_watch K watch u;
          Some (0, u) } })"

text \<open>
  A write to an eventfd writes all 8 bytes or fails, so the short write, after which the code would consult an old
  \<open>errno\<close>, does not occur; the definition gives \<open>-1\<close> there.
\<close>

definition uring_wake :: "'k kernel \<Rightarrow> 'k uring \<Rightarrow> int \<times> 'k uring" where
  "uring_wake K u =
     (if u_self u = 0 \<or> u_wake_fd u < 0 then (-1, u)
      else let (r, k) = k_write8 K (u_wake_fd u) (u_kernel u)
           in (case r of Inr n \<Rightarrow> if n = 8 then 0 else -1 | Inl e \<Rightarrow> if e = EAGAIN then 0 else -1, u\<lparr>u_kernel := k\<rparr>))"

partial_function (option) drain_wake :: "'k kernel \<Rightarrow> 'k uring \<Rightarrow> 'k uring option" where
  "drain_wake K u =
     (let (got, k) = k_read8 K (u_wake_fd u) (u_kernel u); u = u\<lparr>u_kernel := k\<rparr> in if got then drain_wake K u else Some u)"

definition cqe_events :: "int \<Rightarrow> u32" where
  "cqe_events res =
     (let ev = 0;
          ev = (if word_of_int res AND (POLLIN OR POLLRDHUP OR POLLHUP OR POLLERR) \<noteq> (0 :: u32) then ev OR WIRECALL_BACKEND_READ else ev)
      in if word_of_int res AND (POLLOUT OR POLLHUP OR POLLERR) \<noteq> (0 :: u32) then ev OR WIRECALL_BACKEND_WRITE else ev)"

text \<open>One completion: the events that it adds, and the state.\<close>

definition handle_cqe :: "'k kernel \<Rightarrow> io_uring_cqe \<Rightarrow> 'k uring \<Rightarrow> (wirecall_backend_event list \<times> 'k uring) option" where
  "handle_cqe K cqe u =
     (let watch = cqe_user_data cqe
      in if watch = 0 then Some ([], u)
         else do {
           u \<leftarrow> watch_upd watch (\<lambda>w. w\<lparr>wt_armed := False\<rparr>) u;
           w \<leftarrow> watch_get watch u;
           if watch = u_self u then do {
             u \<leftarrow> drain_wake K u;
             (rc, u) \<leftarrow> arm_watch K watch u;
             Some ([\<lparr>ev_fd = u_wake_fd u, ev_events = WIRECALL_BACKEND_WAKE, ev_user = 0\<rparr>], u) }
           else if wt_active w \<and> cqe_res cqe \<ge> 0 then do {
             let ev = cqe_events (cqe_res cqe);
             (rc, u) \<leftarrow> arm_watch K watch u;
             Some (if ev \<noteq> 0 then [\<lparr>ev_fd = wt_fd w, ev_events = ev, ev_user = wt_user w\<rparr>] else [], u) }
           else Some ([], u) })"

partial_function (option) poll_loop ::
  "'k kernel \<Rightarrow> nat \<Rightarrow> u32 \<Rightarrow> u32 \<Rightarrow> wirecall_backend_event list \<Rightarrow> 'k uring \<Rightarrow> (u32 \<times> wirecall_backend_event list \<times> 'k uring) option" where
  "poll_loop K max_events head tail out u =
     (if head \<noteq> tail \<and> length out < max_events then do {
        let index = unat (head AND cq_ring_mask (u_rings u));
        cqe \<leftarrow> rd (cqes (u_rings u)) index;
        (evs, u) \<leftarrow> handle_cqe K cqe u;
        poll_loop K max_events (head + 1) tail (out @ evs) u }
      else Some (head, out, u))"

definition uring_poll :: "'k kernel \<Rightarrow> int \<Rightarrow> int \<Rightarrow> 'k uring \<Rightarrow> (int \<times> wirecall_backend_event list \<times> 'k uring) option" where
  "uring_poll K max_events timeout_ms u =
     (if u_self u = 0 \<or> max_events \<le> 0 then Some (-1, [], u)
      else
        let want = (if timeout_ms = 0 then 0 else 1); (r, u) = uring_enter K 0 want IORING_ENTER_GETEVENTS u
        in case r of
             Inl e \<Rightarrow> Some (if e = EINTR then 0 else -1, [], u)
           | Inr _ \<Rightarrow> do {
               (head, out, u) \<leftarrow> poll_loop K (nat max_events) (cq_head (u_rings u)) (cq_tail (u_rings u)) [] u;
               let u = u\<lparr>u_rings := (u_rings u)\<lparr>cq_head := head\<rparr>\<rparr>;
               let (rc, u) = submit_pending K u;
               Some (int (length out), out, u) })"

section \<open>Creation and destruction\<close>

definition no_rings :: rings where
  "no_rings = \<lparr>sq_head = 0, sq_tail = 0, sq_ring_mask = 0, sq_ring_entries = 0, sq_array = [], sqes = [], cq_head = 0, cq_tail = 0,
     cq_ring_mask = 0, cqes = []\<rparr>"

partial_function (option) free_watches :: "wirecall_allocator \<Rightarrow> nat \<Rightarrow> 'k uring \<Rightarrow> 'k uring option" where
  "free_watches g watch u =
     (if watch \<noteq> 0 then do {
        w \<leftarrow> watch_get watch u;
        h \<leftarrow> wirecall_mem_free g watch (u_heap u);
        free_watches g (wt_next w) (u\<lparr>u_heap := h\<rparr>) }
      else Some u)"

definition uring_destroy :: "'k kernel \<Rightarrow> wirecall_allocator \<Rightarrow> 'k uring \<Rightarrow> 'k uring option" where
  "uring_destroy K g u =
     (if u_self u = 0 then Some u
      else do {
        u \<leftarrow> free_watches g (u_watches u) u;
        let k = (if u_wake_fd u \<ge> 0 then k_close K (u_wake_fd u) (u_kernel u) else u_kernel u);
        let k = k_unmap K k;
        let k = (if u_ring_fd u \<ge> 0 then k_close K (u_ring_fd u) k else k);
        h \<leftarrow> wirecall_mem_free g (u_self u) (u_heap u);
        Some (u\<lparr>u_kernel := k, u_heap := h\<rparr>) })"

text \<open>The error code and the backend; after a failure only its heap and its kernel are left.\<close>

definition uring_create :: "'k kernel \<Rightarrow> wirecall_allocator \<Rightarrow> heap \<Rightarrow> 'k \<Rightarrow> (int \<times> 'k uring) option" where
  "uring_create K g h k = do {
     (self, h) \<leftarrow> wirecall_mem_calloc g 1 sizeof_backend h;
     let u = \<lparr>u_self = self, u_ring_fd = -1, u_wake_fd = -1, u_rings = no_rings, u_watches = 0, u_wake_watch = zero_watch,
       u_watch = (\<lambda>_. zero_watch), u_heap = h, u_kernel = k\<rparr>;
     if self = 0 then Some (-1, u)
     else do {
       let ((ring_fd, rings), k) = k_setup K WIRECALL_URING_ENTRIES k;
       let u = u\<lparr>u_ring_fd := ring_fd, u_kernel := k\<rparr>;
       if ring_fd < 0 \<or> rings = None then do { u \<leftarrow> uring_destroy K g u; Some (-1, u) }
       else do {
         let (wake_fd, k) = k_eventfd K (u_kernel u);
         let u = u\<lparr>u_rings := the rings, u_wake_fd := wake_fd, u_kernel := k\<rparr>;
         if wake_fd < 0 then do { u \<leftarrow> uring_destroy K g u; Some (-1, u) }
         else do {
           let u = u\<lparr>u_wake_watch := zero_watch\<lparr>wt_fd := wake_fd, wt_events := WIRECALL_BACKEND_READ, wt_active := True\<rparr>\<rparr>;
           (rc, u) \<leftarrow> arm_watch K self u;
           if rc \<noteq> 0 then do { u \<leftarrow> uring_destroy K g u; Some (-1, u) }
           else Some (0, u) } } } }"

section \<open>The submission ring is a queue\<close>

text \<open>The slot of a position in a ring with \<open>2 ^ b\<close> entries.\<close>

definition ring_bits :: "nat \<Rightarrow> rings \<Rightarrow> bool" where
  "ring_bits b r \<longleftrightarrow> b < 32 \<and> sq_ring_entries r = 2 ^ b \<and> sq_ring_mask r = 2 ^ b - 1 \<and> length (sqes r) = 2 ^ b \<and> length (sq_array r) = 2 ^ b"

lemma ring_entries: "b < 32 \<Longrightarrow> unat (2 ^ b :: u32) = 2 ^ b"
proof -
  assume b: "b < 32"
  have "(2 :: nat) ^ b < 2 ^ 32" using b by (rule power_strict_increasing) simp
  then have "unat (word_of_nat (2 ^ b) :: u32) = 2 ^ b" by (simp only: unat_of_nat) simp
  then show ?thesis by simp
qed

lemma ring_slot:
  assumes "b < 32"
  shows "unat ((x + word_of_nat i) AND (2 ^ b - 1) :: u32) = (unat x + i) mod 2 ^ b"
proof -
  have "(2 ^ b - 1 :: u32) = mask b" by (simp add: mask_eq_exp_minus_1)
  then have "unat ((x + word_of_nat i) AND (2 ^ b - 1) :: u32) = unat (take_bit b (x + word_of_nat i) :: u32)"
    by (simp only: take_bit_eq_mask)
  also have "\<dots> = unat (x + word_of_nat i) mod 2 ^ b" unfolding unsigned_take_bit_eq by (rule take_bit_eq_mod)
  also have "unat (x + word_of_nat i) = (unat x + i) mod 2 ^ 32" by (simp add: unat_word_ariths unat_of_nat mod_simps)
  also have "(unat x + i) mod 2 ^ 32 mod 2 ^ b = (unat x + i) mod 2 ^ b"
    using assms by (intro mod_mod_cancel le_imp_power_dvd) simp
  finally show ?thesis .
qed

lemma slots_differ: "i < j \<Longrightarrow> j < i + n \<Longrightarrow> (h + i) mod n \<noteq> (h + j) mod (n :: nat)"
proof
  assume a: "i < j" "j < i + n" "(h + i) mod n = (h + j) mod n"
  then have "n dvd (h + j) - (h + i)" by (metis mod_eq_dvd_iff_nat add_le_cancel_left less_imp_le)
  then show False using a(1,2) by (auto dest: dvd_imp_le)
qed


definition sq_slot :: "rings \<Rightarrow> nat \<Rightarrow> nat" where
  "sq_slot r i = unat ((sq_head r + word_of_nat i) AND sq_ring_mask r)"

definition ring_len :: "rings \<Rightarrow> nat" where
  "ring_len r = unat (sq_tail r - sq_head r)"

definition ring_ok :: "nat \<Rightarrow> rings \<Rightarrow> bool" where
  "ring_ok b r \<longleftrightarrow> ring_bits b r \<and> ring_len r \<le> 2 ^ b \<and> (\<forall>i < ring_len r. sq_array r ! sq_slot r i = word_of_nat (sq_slot r i))"

text \<open>The requests that the kernel has not taken yet, in the order in which it will take them.\<close>

definition pending :: "rings \<Rightarrow> io_uring_sqe list" where
  "pending r = map (\<lambda>i. sqes r ! unat (sq_array r ! sq_slot r i)) [0..<ring_len r]"

lemma slot_mod: "ring_bits b r \<Longrightarrow> sq_slot r i = (unat (sq_head r) + i) mod 2 ^ b"
  by (simp add: sq_slot_def ring_bits_def ring_slot)

lemma slot_less: "ring_bits b r \<Longrightarrow> sq_slot r i < 2 ^ b"
  by (simp add: slot_mod)

lemma slot_index: "ring_bits b r \<Longrightarrow> unat (word_of_nat (sq_slot r i) :: u32) = sq_slot r i"
proof -
  assume r: "ring_bits b r"
  have "(2 :: nat) ^ b < 2 ^ 32" using r by (intro power_strict_increasing) (simp_all add: ring_bits_def)
  then have "sq_slot r i < 2 ^ 32" using slot_less [OF r, of i] by linarith
  then show ?thesis by (simp add: unat_of_nat)
qed

lemma slot_tail: "unat (sq_tail r AND sq_ring_mask r) = sq_slot r (ring_len r)"
  by (simp add: sq_slot_def ring_len_def)

lemma ring_pushed:
  fixes sqe :: io_uring_sqe
  assumes r: "ring_ok b r" and space: "ring_len r < 2 ^ b"
  defines "r' \<equiv> r\<lparr>sqes := (sqes r)[sq_slot r (ring_len r) := sqe], sq_array := (sq_array r)[sq_slot r (ring_len r) := word_of_nat (sq_slot r (ring_len r))],
    sq_tail := sq_tail r + 1\<rparr>"
  shows "ring_ok b r'" "pending r' = pending r @ [sqe]" "ring_len r' = Suc (ring_len r)"
proof -
  let ?n = "ring_len r"
  have bits: "ring_bits b r" "ring_bits b r'" using r by (simp_all add: ring_ok_def ring_bits_def r'_def)
  have small: "Suc ?n < 2 ^ 32"
  proof -
    have "(2 :: nat) ^ b \<le> 2 ^ 31" using bits(1) by (intro power_increasing) (simp_all add: ring_bits_def)
    then show ?thesis using space by simp
  qed
  have "sq_tail r' - sq_head r' = (sq_tail r - sq_head r) + 1" by (simp add: r'_def)
  then show len: "ring_len r' = Suc ?n" using small by (simp add: ring_len_def unat_word_ariths)
  have sl: "sq_slot r' i = sq_slot r i" for i by (simp add: sq_slot_def r'_def)
  have other: "sq_slot r i \<noteq> sq_slot r ?n" if "i < ?n" for i
    unfolding slot_mod [OF bits(1)] using that space by (intro slots_differ) simp_all
  have at: "sq_slot r ?n < length (sqes r)" "sq_slot r ?n < length (sq_array r)"
    using slot_less [OF bits(1)] bits(1) by (simp_all add: ring_bits_def)
  have old: "sq_array r ! sq_slot r i = word_of_nat (sq_slot r i)" if "i < ?n" for i using r that by (simp add: ring_ok_def)
  have arr: "sq_array r' ! sq_slot r' i = word_of_nat (sq_slot r' i)" if "i < ring_len r'" for i
    using that other [of i] old [of i] at(2) unfolding sl len by (cases "i = ?n") (simp_all add: r'_def)
  then show "ring_ok b r'" using bits(2) space unfolding ring_ok_def len by simp
  have "sqes r' ! unat (sq_array r' ! sq_slot r' i) = sqes r ! unat (sq_array r ! sq_slot r i)" if "i < ?n" for i
    using arr [of i] old [OF that] other [OF that] that unfolding len sl by (simp add: r'_def slot_index [OF bits(1)])
  moreover have "sqes r' ! unat (sq_array r' ! sq_slot r' ?n) = sqe"
    using arr [of ?n] at(1) unfolding len sl by (simp add: r'_def slot_index [OF bits(1)])
  ultimately show "pending r' = pending r @ [sqe]" by (simp add: pending_def len)
qed

text \<open>
  What is relied on of the kernel: it takes requests from the front, in order and at most as many as it is told; \<open>taken k\<close> are all the requests
  it has taken.  Otherwise it leaves the submission ring alone.
\<close>

definition kernel_ok :: "'k kernel \<Rightarrow> ('k \<Rightarrow> io_uring_sqe list) \<Rightarrow> nat \<Rightarrow> bool" where
  "kernel_ok K taken b \<longleftrightarrow> (\<forall>fd n mc fl r k res r' k'. ring_ok b r \<longrightarrow> k_enter K fd n mc fl r k = (res, r', k') \<longrightarrow>
     ring_ok b r' \<and> sq_tail r' = sq_tail r \<and>
     (\<exists>j \<le> unat n. taken k' = taken k @ take j (pending r) \<and> pending r' = drop j (pending r)))"

lemma length_pending [simp]: "length (pending r) = ring_len r"
  by (simp add: pending_def)

text \<open>Requests that were taken or wait; an operation adds some at the end.\<close>

definition requests :: "('k \<Rightarrow> io_uring_sqe list) \<Rightarrow> 'k uring \<Rightarrow> io_uring_sqe list" where
  "requests taken u = taken (u_kernel u) @ pending (u_rings u)"

definition only_rings :: "'k uring \<Rightarrow> 'k uring \<Rightarrow> bool" where
  "only_rings u u' \<longleftrightarrow> u' = u\<lparr>u_rings := u_rings u', u_kernel := u_kernel u'\<rparr>"

lemma only_rings_refl [simp]: "only_rings u u"
  by (simp add: only_rings_def)

lemma only_rings_trans:
  assumes "only_rings u u1" "only_rings u1 u2"
  shows "only_rings u u2"
  using assms unfolding only_rings_def by (cases u, cases u1, cases u2) simp

lemma uring_enter_post:
  assumes "kernel_ok K taken b" "ring_ok b (u_rings u)" "uring_enter K n mc fl u = (res, u')"
  shows "ring_ok b (u_rings u')" "requests taken u' = requests taken u" "only_rings u u'" "sq_tail (u_rings u') = sq_tail (u_rings u)"
    "ring_len (u_rings u') \<le> ring_len (u_rings u)"
proof -
  obtain r' k' where e: "k_enter K (u_ring_fd u) n mc fl (u_rings u) (u_kernel u) = (res, r', k')" "u' = u\<lparr>u_rings := r', u_kernel := k'\<rparr>"
    using assms(3) by (auto simp: uring_enter_def Let_def split: prod.splits)
  have k: "ring_ok b r' \<and> sq_tail r' = sq_tail (u_rings u) \<and>
      (\<exists>j \<le> unat n. taken k' = taken (u_kernel u) @ take j (pending (u_rings u)) \<and> pending r' = drop j (pending (u_rings u)))"
    using assms(1,2) e(1) unfolding kernel_ok_def by blast
  then show "ring_ok b (u_rings u')" "sq_tail (u_rings u') = sq_tail (u_rings u)" "only_rings u u'" by (simp_all add: e(2) only_rings_def)
  show "requests taken u' = requests taken u" using k by (auto simp: requests_def e(2))
  have "ring_len r' \<le> ring_len (u_rings u)" using k length_pending length_drop by (metis diff_le_self)
  then show "ring_len (u_rings u') \<le> ring_len (u_rings u)" by (simp add: e(2))
qed


lemma only_rings_sel:
  assumes "only_rings u u'"
  shows "u_self u' = u_self u" "u_watches u' = u_watches u" "u_wake_watch u' = u_wake_watch u" "u_watch u' = u_watch u" "u_heap u' = u_heap u"
    "u_ring_fd u' = u_ring_fd u" "u_wake_fd u' = u_wake_fd u"
  using assms unfolding only_rings_def by (cases u, cases u', simp)+

lemma sqe_taken:
  assumes r: "ring_ok b (u_rings u)" and space: "ring_len (u_rings u) < 2 ^ b"
  shows "\<exists>index u'. sqe_take (sq_tail (u_rings u)) u = Some (index, u') \<and>
    (\<forall>f. ring_ok b (u_rings (sqe_fill index f u')) \<and> requests taken (sqe_fill index f u') = requests taken u @ [f zero_sqe] \<and>
       only_rings u (sqe_fill index f u') \<and> ring_len (u_rings (sqe_fill index f u')) = Suc (ring_len (u_rings u)))"
proof -
  let ?r = "u_rings u" and ?i = "sq_slot (u_rings u) (ring_len (u_rings u))"
  have bits: "ring_bits b ?r" using r by (simp add: ring_ok_def)
  have at: "?i < length (sqes ?r)" "?i < length (sq_array ?r)" using slot_less [OF bits, of "ring_len ?r"] bits by (simp_all add: ring_bits_def)
  let ?u = "u\<lparr>u_rings := ?r\<lparr>sqes := (sqes ?r)[?i := zero_sqe], sq_array := (sq_array ?r)[?i := word_of_nat ?i], sq_tail := sq_tail ?r + 1\<rparr>\<rparr>"
  have "sqe_take (sq_tail ?r) u = Some (?i, ?u)" using at by (simp add: sqe_take_def slot_tail Let_def)
  moreover have "u_rings (sqe_fill ?i f ?u) = ?r\<lparr>sqes := (sqes ?r)[?i := f zero_sqe], sq_array := (sq_array ?r)[?i := word_of_nat ?i],
      sq_tail := sq_tail ?r + 1\<rparr>" for f
    using at(1) by (simp add: sqe_fill_def)
  moreover have "u_kernel (sqe_fill ?i f ?u) = u_kernel u" "only_rings u (sqe_fill ?i f ?u)" for f
    by (simp_all add: sqe_fill_def only_rings_def)
  ultimately show ?thesis using ring_pushed [OF r space] by (auto simp: requests_def)
qed

lemma ring_full: "ring_ok b r \<Longrightarrow> sq_ring_entries r \<le> sq_tail r - sq_head r \<longleftrightarrow> \<not> ring_len r < 2 ^ b"
  by (simp add: ring_ok_def ring_bits_def ring_len_def word_le_nat_alt ring_entries not_less)

text \<open>A request is added at the end, unless the ring is full and the kernel does not make room.\<close>

lemma sqe_push_post:
  assumes K: "kernel_ok K taken b" and r: "ring_ok b (u_rings u)"
  shows "\<exists>rc index u'. sqe_push K u = Some (rc, index, u') \<and>
    (rc = -1 \<and> \<not> ring_len (u_rings u) < 2 ^ b \<and> ring_ok b (u_rings u') \<and> requests taken u' = requests taken u \<and> only_rings u u' \<and>
       ring_len (u_rings u') \<le> ring_len (u_rings u) \<or>
     rc = 0 \<and> (\<forall>f. ring_ok b (u_rings (sqe_fill index f u')) \<and> requests taken (sqe_fill index f u') = requests taken u @ [f zero_sqe] \<and>
       only_rings u (sqe_fill index f u') \<and> ring_len (u_rings (sqe_fill index f u')) \<le> Suc (ring_len (u_rings u))))"
proof (cases "ring_len (u_rings u) < 2 ^ b")
  case True
  then have "sqe_push K u = do { (index, u) \<leftarrow> sqe_take (sq_tail (u_rings u)) u; Some (0, index, u) }"
    using ring_full [OF r] by (simp add: sqe_push_def Let_def)
  then show ?thesis using sqe_taken [OF r True, of taken] by auto
next
  case False
  obtain res u1 where e: "uring_enter K 0 0 IORING_ENTER_GETEVENTS u = (res, u1)" by force
  note p = uring_enter_post [OF K r e]
  let ?stop = "(case res of Inl e \<Rightarrow> e \<noteq> EINTR | Inr _ \<Rightarrow> False) \<or> \<not> ring_len (u_rings u1) < 2 ^ b"
  have step: "sqe_push K u = (if ?stop then Some (-1, 0, u1) else do { (index, u) \<leftarrow> sqe_take (sq_tail (u_rings u1)) u1; Some (0, index, u) })"
    using ring_full [OF r] ring_full [OF p(1)] False e p(4) by (auto simp: sqe_push_def Let_def)
  show ?thesis
  proof (cases ?stop)
    case True
    then show ?thesis using step p False by auto
  next
    case room: False
    then obtain index u' where "sqe_take (sq_tail (u_rings u1)) u1 = Some (index, u')"
      "\<forall>f. ring_ok b (u_rings (sqe_fill index f u')) \<and> requests taken (sqe_fill index f u') = requests taken u1 @ [f zero_sqe] \<and>
         only_rings u1 (sqe_fill index f u') \<and> ring_len (u_rings (sqe_fill index f u')) = Suc (ring_len (u_rings u1))"
      using sqe_taken [OF p(1), of taken] by blast
    then show ?thesis using step room p(2,5) only_rings_trans [OF p(3)] by auto
  qed
qed

lemma submit_pending_post:
  assumes "kernel_ok K taken b" "ring_ok b (u_rings u)"
  shows "\<exists>rc u'. submit_pending K u = (rc, u') \<and> ring_ok b (u_rings u') \<and> requests taken u' = requests taken u \<and> only_rings u u' \<and>
    ring_len (u_rings u') \<le> ring_len (u_rings u)"
proof (cases "sq_tail (u_rings u) - sq_head (u_rings u) = 0")
  case True
  then show ?thesis using assms(2) by (simp add: submit_pending_def)
next
  case False
  obtain res u1 where e: "uring_enter K (sq_tail (u_rings u) - sq_head (u_rings u)) 0 0 u = (res, u1)" by force
  then show ?thesis using False uring_enter_post [OF assms e] by (simp add: submit_pending_def Let_def)
qed

section \<open>Watches\<close>

definition watch_put :: "nat \<Rightarrow> wirecall_backend_watch \<Rightarrow> 'k uring \<Rightarrow> 'k uring" where
  "watch_put p w u = (if p = u_self u then u\<lparr>u_wake_watch := w\<rparr> else u\<lparr>u_watch := (u_watch u)(p := w)\<rparr>)"

lemma watch_upd_put: "watch_get p u = Some w \<Longrightarrow> watch_upd p f u = Some (watch_put p (f w) u)"
  by (auto simp: watch_get_def watch_upd_def watch_put_def split: if_splits)

lemma watch_put_sel [simp]: "u_rings (watch_put p w u) = u_rings u" "u_kernel (watch_put p w u) = u_kernel u"
  "u_self (watch_put p w u) = u_self u" "u_heap (watch_put p w u) = u_heap u" "u_watches (watch_put p w u) = u_watches u"
  "requests taken (watch_put p w u) = requests taken u" "watch_put p w2 (watch_put p w u) = watch_put p w2 u"
  by (simp_all add: watch_put_def requests_def)

lemma watch_get_put: "watch_get p u \<noteq> None \<Longrightarrow> watch_get q (watch_put p w u) = (if q = p then Some w else watch_get q u)"
  by (auto simp: watch_get_def watch_put_def)

lemma watch_get_rings: "only_rings u u' \<Longrightarrow> watch_get p u' = watch_get p u"
  by (simp add: watch_get_def only_rings_sel)

lemma only_rings_put: "only_rings u u' \<Longrightarrow> only_rings (watch_put p w u) (watch_put p w u')"
  by (cases u, cases u') (auto simp: only_rings_def watch_put_def)

definition poll_add :: "nat \<Rightarrow> wirecall_backend_watch \<Rightarrow> io_uring_sqe" where
  "poll_add p w = zero_sqe\<lparr>sqe_opcode := IORING_OP_POLL_ADD, sqe_fd := wt_fd w, sqe_poll_events := ucast (poll_mask (wt_events w)), sqe_user_data := p\<rparr>"

definition poll_remove :: "nat \<Rightarrow> io_uring_sqe" where
  "poll_remove p = zero_sqe\<lparr>sqe_opcode := IORING_OP_POLL_REMOVE, sqe_addr := p, sqe_user_data := 0\<rparr>"

definition wants_poll :: "wirecall_backend_watch \<Rightarrow> bool" where
  "wants_poll w \<longleftrightarrow> wt_active w \<and> \<not> wt_armed w \<and> wt_events w \<noteq> 0"

definition sent_post ::
  "nat \<Rightarrow> ('k \<Rightarrow> io_uring_sqe list) \<Rightarrow> bool \<Rightarrow> nat \<Rightarrow> wirecall_backend_watch \<Rightarrow> io_uring_sqe \<Rightarrow> 'k uring \<Rightarrow> 'k uring \<Rightarrow> bool" where
  "sent_post b taken sent p w sqe u u' \<longleftrightarrow> ring_ok b (u_rings u') \<and>
     requests taken u' = requests taken u @ (if sent then [sqe] else []) \<and> only_rings (if sent then watch_put p w u else u) u' \<and>
     ring_len (u_rings u') \<le> ring_len (u_rings u) + (if sent then 1 else 0)"

text \<open>A watch is changed and a request is sent, in either order.\<close>

lemma sent_postI:
  assumes "only_rings u u2" "requests taken u2 = requests taken u @ [sqe]" "ring_len (u_rings u2) \<le> Suc (ring_len (u_rings u))"
    and "ring_ok b (u_rings u4)" "requests taken u4 = requests taken u2" "ring_len (u_rings u4) \<le> ring_len (u_rings u2)"
    and "only_rings (watch_put p w u2) u4"
  shows "sent_post b taken True p w sqe u u4"
  using assms only_rings_trans [OF only_rings_put [OF assms(1)] assms(7)] by (simp add: sent_post_def)

lemma arm_watch_post:
  assumes K: "kernel_ok K taken b" and r: "ring_ok b (u_rings u)" and w: "watch_get p u = Some w"
  shows "\<exists>rc u' sent. arm_watch K p u = Some (rc, u') \<and> sent_post b taken sent p (w\<lparr>wt_armed := True\<rparr>) (poll_add p w) u u' \<and>
    (sent \<longrightarrow> wants_poll w) \<and> (\<not> sent \<longrightarrow> (if wants_poll w then rc = -1 \<and> \<not> ring_len (u_rings u) < 2 ^ b else rc = 0))"
proof (cases "wants_poll w")
  case False
  then show ?thesis using w r by (intro exI [of _ 0] exI [of _ u] exI [of _ False]) (auto simp: arm_watch_def wants_poll_def sent_post_def)
next
  case True
  obtain rc index u1 where u1: "sqe_push K u = Some (rc, index, u1)"
    "rc = -1 \<and> \<not> ring_len (u_rings u) < 2 ^ b \<and> ring_ok b (u_rings u1) \<and> requests taken u1 = requests taken u \<and> only_rings u u1 \<and>
       ring_len (u_rings u1) \<le> ring_len (u_rings u) \<or>
     rc = 0 \<and> (\<forall>f. ring_ok b (u_rings (sqe_fill index f u1)) \<and> requests taken (sqe_fill index f u1) = requests taken u @ [f zero_sqe] \<and>
       only_rings u (sqe_fill index f u1) \<and> ring_len (u_rings (sqe_fill index f u1)) \<le> Suc (ring_len (u_rings u)))"
    using sqe_push_post [OF K r] by blast
  show ?thesis
  proof (cases "rc = 0")
    case False
    then show ?thesis using u1 w True
      by (intro exI [of _ "-1"] exI [of _ u1] exI [of _ False]) (auto simp: arm_watch_def wants_poll_def sent_post_def)
  next
    case ok: True
    let ?u2 = "sqe_fill index (\<lambda>sqe. sqe\<lparr>sqe_opcode := IORING_OP_POLL_ADD, sqe_fd := wt_fd w,
           sqe_poll_events := ucast (poll_mask (wt_events w)), sqe_user_data := p\<rparr>) u1"
    have u2: "ring_ok b (u_rings ?u2)" "requests taken ?u2 = requests taken u @ [poll_add p w]" "only_rings u ?u2"
      "ring_len (u_rings ?u2) \<le> Suc (ring_len (u_rings u))"
      using u1(2) ok by (simp_all add: poll_add_def)
    have w2: "watch_get p ?u2 = Some w" using w watch_get_rings [OF u2(3)] by simp
    let ?u3 = "watch_put p (w\<lparr>wt_armed := True\<rparr>) ?u2"
    have u3: "ring_ok b (u_rings ?u3)" using u2(1) by simp
    obtain rc' u4 where u4: "submit_pending K ?u3 = (rc', u4)" "ring_ok b (u_rings u4)" "requests taken u4 = requests taken ?u3" "only_rings ?u3 u4"
      "ring_len (u_rings u4) \<le> ring_len (u_rings ?u3)"
      using submit_pending_post [OF K u3] by blast
    have "arm_watch K p u = Some (rc', u4)"
      using w u1(1) ok True u4(1) watch_upd_put [OF w2] by (simp add: arm_watch_def wants_poll_def)
    moreover have "sent_post b taken True p (w\<lparr>wt_armed := True\<rparr>) (poll_add p w) u u4"
      using u4(2,3,5) by (intro sent_postI [OF u2(3,2,4) _ _ _ u4(4)]) simp_all
    ultimately show ?thesis using True by blast
  qed
qed

lemma cancel_watch_post:
  assumes K: "kernel_ok K taken b" and r: "ring_ok b (u_rings u)" and w: "watch_get p u = Some w"
  shows "\<exists>u' sent. cancel_watch K p u = Some u' \<and> sent_post b taken sent p (w\<lparr>wt_armed := False\<rparr>) (poll_remove p) u u' \<and>
    (sent \<longrightarrow> wt_armed w) \<and> (\<not> sent \<longrightarrow> wt_armed w \<longrightarrow> \<not> ring_len (u_rings u) < 2 ^ b)"
proof (cases "wt_armed w")
  case False
  then show ?thesis using w r by (intro exI [of _ u] exI [of _ False]) (auto simp: cancel_watch_def sent_post_def)
next
  case True
  obtain rc index u1 where u1: "sqe_push K u = Some (rc, index, u1)"
    "rc = -1 \<and> \<not> ring_len (u_rings u) < 2 ^ b \<and> ring_ok b (u_rings u1) \<and> requests taken u1 = requests taken u \<and> only_rings u u1 \<and>
       ring_len (u_rings u1) \<le> ring_len (u_rings u) \<or>
     rc = 0 \<and> (\<forall>f. ring_ok b (u_rings (sqe_fill index f u1)) \<and> requests taken (sqe_fill index f u1) = requests taken u @ [f zero_sqe] \<and>
       only_rings u (sqe_fill index f u1) \<and> ring_len (u_rings (sqe_fill index f u1)) \<le> Suc (ring_len (u_rings u)))"
    using sqe_push_post [OF K r] by blast
  show ?thesis
  proof (cases "rc = 0")
    case False
    then show ?thesis using u1 w True by (intro exI [of _ u1] exI [of _ False]) (auto simp: cancel_watch_def sent_post_def)
  next
    case ok: True
    let ?u2 = "sqe_fill index (\<lambda>sqe. sqe\<lparr>sqe_opcode := IORING_OP_POLL_REMOVE, sqe_addr := p, sqe_user_data := 0\<rparr>) u1"
    have u2: "ring_ok b (u_rings ?u2)" "requests taken ?u2 = requests taken u @ [poll_remove p]" "only_rings u ?u2"
      "ring_len (u_rings ?u2) \<le> Suc (ring_len (u_rings u))"
      using u1(2) ok by (simp_all add: poll_remove_def)
    obtain rc' u3 where u3: "submit_pending K ?u2 = (rc', u3)" "ring_ok b (u_rings u3)" "requests taken u3 = requests taken ?u2" "only_rings ?u2 u3"
      "ring_len (u_rings u3) \<le> ring_len (u_rings ?u2)"
      using submit_pending_post [OF K u2(1)] by blast
    have w3: "watch_get p u3 = Some w" using w watch_get_rings [OF u2(3)] watch_get_rings [OF u3(4)] by simp
    let ?u4 = "watch_put p (w\<lparr>wt_armed := False\<rparr>) u3"
    have "cancel_watch K p u = Some ?u4"
      using w u1(1) ok True u3(1) watch_upd_put [OF w3] by (simp add: cancel_watch_def)
    moreover have "sent_post b taken True p (w\<lparr>wt_armed := False\<rparr>) (poll_remove p) u ?u4"
      using u3(2,3,5) by (intro sent_postI [OF u2(3,2,4)] only_rings_put [OF u3(4)]) simp_all
    ultimately show ?thesis using True by blast
  qed
qed

section \<open>The list of watches\<close>

primrec links :: "(nat \<Rightarrow> wirecall_backend_watch) \<Rightarrow> nat \<Rightarrow> nat list \<Rightarrow> bool" where
  "links nd p [] \<longleftrightarrow> p = 0"
| "links nd p (q # L) \<longleftrightarrow> p = q \<and> links nd (wt_next (nd q)) L"

definition watches_ok :: "'k uring \<Rightarrow> nat list \<Rightarrow> bool" where
  "watches_ok u L \<longleftrightarrow> heap_ok (u_heap u) \<and> u_self u \<in> live (u_heap u) \<and> u_self u \<notin> set L \<and> distinct L \<and> 0 \<notin> set L \<and>
     set L \<subseteq> live (u_heap u) \<and> links (u_watch u) (u_watches u) L \<and> distinct (map (\<lambda>p. wt_fd (u_watch u p)) L)"

definition watch_of :: "int \<Rightarrow> 'k uring \<Rightarrow> nat list \<Rightarrow> nat" where
  "watch_of fd u L = (case find (\<lambda>p. wt_fd (u_watch u p) = fd) L of None \<Rightarrow> 0 | Some p \<Rightarrow> p)"

lemma watches_ok_self: "watches_ok u L \<Longrightarrow> u_self u \<noteq> 0"
  by (auto simp: watches_ok_def heap_ok_def live_def)

lemma watch_get_listed: "watches_ok u L \<Longrightarrow> p \<in> set L \<Longrightarrow> watch_get p u = Some (u_watch u p)"
  by (auto simp: watches_ok_def watch_get_def live_def)

lemma find_watch_from_post:
  assumes "\<forall>p \<in> set L. watch_get p u = Some (u_watch u p)" "0 \<notin> set L" "links (u_watch u) p L"
  shows "find_watch_from fd p u = Some (watch_of fd u L)"
  using assms
proof (induction L arbitrary: p)
  case Nil
  then show ?case by (subst find_watch_from.simps) (simp add: watch_of_def)
next
  case (Cons q L)
  then have p: "p = q" "p \<noteq> 0" "watch_get p u = Some (u_watch u p)" by auto
  show ?case
  proof (cases "wt_fd (u_watch u p) = fd")
    case True
    then show ?thesis using p by (subst find_watch_from.simps) (simp add: watch_of_def)
  next
    case False
    then have "find_watch_from fd p u = find_watch_from fd (wt_next (u_watch u p)) u" using p by (subst find_watch_from.simps) simp
    also have "\<dots> = Some (watch_of fd u L)" using Cons.prems p(1) by (intro Cons.IH) simp_all
    finally show ?thesis using False p(1) by (simp add: watch_of_def)
  qed
qed

lemma find_watch_post: "watches_ok u L \<Longrightarrow> find_watch fd u = Some (watch_of fd u L)"
  unfolding find_watch_def by (rule find_watch_from_post) (auto simp: watches_ok_def intro: watch_get_listed)

lemma watch_of_cases:
  assumes "watches_ok u L"
  obtains (known) "watch_of fd u L \<in> set L" "wt_fd (u_watch u (watch_of fd u L)) = fd" "watch_of fd u L \<noteq> 0"
  | (unknown) "watch_of fd u L = 0" "\<forall>p \<in> set L. wt_fd (u_watch u p) \<noteq> fd"
proof (cases "find (\<lambda>p. wt_fd (u_watch u p) = fd) L")
  case None
  then have "watch_of fd u L = 0" by (simp add: watch_of_def)
  then show ?thesis using unknown None by (simp add: find_None_iff)
next
  case (Some p)
  then have "p \<in> set L" "wt_fd (u_watch u p) = fd" by (auto simp: find_Some_iff)
  then show ?thesis using known Some assms by (auto simp: watch_of_def watches_ok_def)
qed

text \<open>Changes of a watch that keep its place in the list.\<close>

lemma links_upd: "wt_next w = wt_next (nd p) \<Longrightarrow> links (nd(p := w)) q L = links nd q L"
  by (induction L arbitrary: q) auto

lemma watches_ok_put:
  assumes ok: "watches_ok u L" and p: "p \<in> set L" and w: "wt_next w = wt_next (u_watch u p)" "wt_fd w = wt_fd (u_watch u p)"
  shows "watches_ok (watch_put p w u) L"
proof -
  have "p \<noteq> u_self u" using ok p by (auto simp: watches_ok_def)
  then have e: "watch_put p w u = u\<lparr>u_watch := (u_watch u)(p := w)\<rparr>" by (simp add: watch_put_def)
  have m: "map (\<lambda>q. wt_fd (((u_watch u)(p := w)) q)) L = map (\<lambda>q. wt_fd (u_watch u q)) L" using w(2) by simp
  then show ?thesis using ok links_upd [of w "u_watch u" p] w(1) by (simp add: watches_ok_def e m del: fun_upd_apply)
qed

lemma watches_ok_rings: "only_rings u u' \<Longrightarrow> watches_ok u' L = watches_ok u L"
  by (simp add: watches_ok_def only_rings_sel)

text \<open>The list after a watch was changed and a request may have been sent.\<close>

lemma sent_post_watches:
  assumes s: "sent_post b taken sent p w sqe u u'" and ok: "watches_ok u L" and p: "p \<in> set L"
    and w: "wt_next w = wt_next (u_watch u p)" "wt_fd w = wt_fd (u_watch u p)"
  shows "watches_ok u' L" "u_watch u' = (if sent then (u_watch u)(p := w) else u_watch u)" "u_watches u' = u_watches u" "u_heap u' = u_heap u"
    "u_self u' = u_self u"
proof -
  have o: "only_rings (if sent then watch_put p w u else u) u'" using s by (simp add: sent_post_def)
  have "p \<noteq> u_self u" using ok p by (auto simp: watches_ok_def)
  then show "u_watch u' = (if sent then (u_watch u)(p := w) else u_watch u)" "u_watches u' = u_watches u" "u_heap u' = u_heap u"
    "u_self u' = u_self u"
    using only_rings_sel [OF o] by (auto simp: watch_put_def)
  show "watches_ok u' L" using watches_ok_rings [OF o] watches_ok_put [OF ok p w] ok by (cases sent) simp_all
qed


section \<open>Registration\<close>

definition watching :: "u32 \<Rightarrow> nat \<Rightarrow> wirecall_backend_watch \<Rightarrow> wirecall_backend_watch" where
  "watching events user w = w\<lparr>wt_events := events, wt_user := user, wt_active := True, wt_armed := False\<rparr>"

lemma watching_sel [simp]: "wt_fd (watching events user w) = wt_fd w" "wt_next (watching events user w) = wt_next w"
  "wt_armed (watching events user w) = False" "wants_poll (watching events user w) \<longleftrightarrow> events \<noteq> 0"
  by (simp_all add: watching_def wants_poll_def)

lemma register_arm:
  fixes events :: u32 and user :: nat
  assumes K: "kernel_ok K taken b" and r: "ring_ok b (u_rings u)" and room: "ring_len (u_rings u) < 2 ^ b"
    and ok: "watches_ok u L" and p: "p \<in> set L" and w: "\<not> wt_armed (u_watch u p)"
  defines "w' \<equiv> watching events user (u_watch u p)"
  shows "\<exists>rc u'. do { u \<leftarrow> watch_upd p (\<lambda>w. w\<lparr>wt_events := events, wt_user := user, wt_active := True\<rparr>) u; arm_watch K p u } = Some (rc, u') \<and>
    watches_ok u' L \<and> ring_ok b (u_rings u') \<and> requests taken u' = requests taken u @ (if events \<noteq> 0 then [poll_add p w'] else []) \<and>
    u_watch u' = (u_watch u)(p := w'\<lparr>wt_armed := events \<noteq> 0\<rparr>)"
proof -
  have "(u_watch u p)\<lparr>wt_events := events, wt_user := user, wt_active := True\<rparr> = w'"
    using w by (cases "u_watch u p") (simp add: w'_def watching_def)
  then have upd: "watch_upd p (\<lambda>w. w\<lparr>wt_events := events, wt_user := user, wt_active := True\<rparr>) u = Some (watch_put p w' u)"
    using watch_upd_put [OF watch_get_listed [OF ok p]] by simp
  let ?u = "watch_put p w' u"
  have self: "p \<noteq> u_self u" using ok p by (auto simp: watches_ok_def)
  then have uw: "u_watch ?u = (u_watch u)(p := w')" by (simp add: watch_put_def)
  have ok1: "watches_ok ?u L" by (rule watches_ok_put [OF ok p]) (simp_all add: w'_def)
  have g1: "watch_get p ?u = Some w'" using watch_get_listed [OF ok1 p] uw by simp
  have r1: "ring_ok b (u_rings ?u)" using r by simp
  obtain rc u' sent where a: "arm_watch K p ?u = Some (rc, u')" "sent_post b taken sent p (w'\<lparr>wt_armed := True\<rparr>) (poll_add p w') ?u u'"
    "sent \<longrightarrow> wants_poll w'" "\<not> sent \<longrightarrow> (if wants_poll w' then rc = -1 \<and> \<not> ring_len (u_rings ?u) < 2 ^ b else rc = 0)"
    using arm_watch_post [OF K r1 g1] by blast
  have "wants_poll w' \<longleftrightarrow> events \<noteq> 0" by (simp add: w'_def)
  then have s: "sent \<longleftrightarrow> events \<noteq> 0" using a(3,4) room by (auto split: if_splits)
  note f = sent_post_watches [OF a(2) ok1 p]
  have "u_watch u' = (u_watch u)(p := w'\<lparr>wt_armed := events \<noteq> 0\<rparr>)"
    using f(2) uw s by (cases sent) (simp_all add: w'_def watching_def)
  moreover have "watches_ok u' L" by (rule f(1)) (simp_all add: uw)
  moreover have "ring_ok b (u_rings u')" "requests taken u' = requests taken u @ (if events \<noteq> 0 then [poll_add p w'] else [])"
    using a(2) s by (simp_all add: sent_post_def)
  ultimately show ?thesis using upd a(1) by auto
qed

text \<open>A descriptor that is known: its old poll request is cancelled, and a new one is made.\<close>

lemma register_known:
  fixes events :: u32 and user :: nat
  assumes K: "kernel_ok K taken b" and r: "ring_ok b (u_rings u)" and room: "ring_len (u_rings u) + 1 < 2 ^ b"
    and ok: "watches_ok u L" and fd: "0 \<le> fd" and p: "watch_of fd u L = p" "p \<in> set L" "p \<noteq> 0"
  defines "w' \<equiv> watching events user (u_watch u p)"
  shows "\<exists>rc u'. uring_register K g fd events user u = Some (rc, u') \<and> watches_ok u' L \<and> ring_ok b (u_rings u') \<and>
    requests taken u' = requests taken u @ (if wt_armed (u_watch u p) then [poll_remove p] else []) @ (if events \<noteq> 0 then [poll_add p w'] else []) \<and>
    u_watch u' = (u_watch u)(p := w'\<lparr>wt_armed := events \<noteq> 0\<rparr>)"
proof -
  let ?w = "u_watch u p"
  obtain u1 sent where c: "cancel_watch K p u = Some u1" "sent_post b taken sent p (?w\<lparr>wt_armed := False\<rparr>) (poll_remove p) u u1"
    "sent \<longrightarrow> wt_armed ?w" "\<not> sent \<longrightarrow> wt_armed ?w \<longrightarrow> \<not> ring_len (u_rings u) < 2 ^ b"
    using cancel_watch_post [OF K r watch_get_listed [OF ok p(2)]] by blast
  have sent: "sent \<longleftrightarrow> wt_armed ?w" using c(3,4) room by auto
  note f = sent_post_watches [OF c(2) ok p(2)]
  have ok1: "watches_ok u1 L" by (rule f(1)) simp_all
  have "?w\<lparr>wt_armed := False\<rparr> = ?w" if "\<not> wt_armed ?w" using that by (cases ?w) simp
  then have uw: "u_watch u1 = (u_watch u)(p := ?w\<lparr>wt_armed := False\<rparr>)" using f(2) sent by (cases sent) auto
  have u1: "ring_ok b (u_rings u1)" "requests taken u1 = requests taken u @ (if wt_armed ?w then [poll_remove p] else [])"
    "ring_len (u_rings u1) < 2 ^ b" "\<not> wt_armed (u_watch u1 p)"
    using c(2) sent room uw by (auto simp: sent_post_def)
  have w': "watching events user (u_watch u1 p) = w'" by (simp add: uw w'_def watching_def)
  obtain rc u' where a: "do { u \<leftarrow> watch_upd p (\<lambda>w. w\<lparr>wt_events := events, wt_user := user, wt_active := True\<rparr>) u1; arm_watch K p u } = Some (rc, u')"
    "watches_ok u' L" "ring_ok b (u_rings u')" "requests taken u' = requests taken u1 @ (if events \<noteq> 0 then [poll_add p w'] else [])"
    "u_watch u' = (u_watch u1)(p := w'\<lparr>wt_armed := events \<noteq> 0\<rparr>)"
    using register_arm [OF K u1(1,3) ok1 p(2) u1(4), where events = events and user = user] unfolding w' by blast
  have "uring_register K g fd events user u = Some (rc, u')"
    using fd find_watch_post [OF ok, of fd] p(1,3) c(1) a(1) watches_ok_self [OF ok] by (simp add: uring_register_def)
  then show ?thesis using a u1(2) uw by auto
qed

context library_memory
begin

lemma register_unknown:
  assumes K: "kernel_ok K taken b" and r: "ring_ok b (u_rings u)" and room: "ring_len (u_rings u) < 2 ^ b"
    and ok: "watches_ok u L" and fd: "0 \<le> fd" and none: "watch_of fd u L = 0" "\<forall>p \<in> set L. wt_fd (u_watch u p) \<noteq> fd"
  shows "\<exists>rc u'. uring_register K g fd events user u = Some (rc, u') \<and> ring_ok b (u_rings u') \<and>
    (rc = -1 \<and> \<not> reliable (u_heap u) \<and> watches_ok u' L \<and> requests taken u' = requests taken u \<and> u_watch u' = u_watch u \<or>
     (\<exists>p w. p \<notin> set L \<and> w = watching events user (zero_watch\<lparr>wt_fd := fd, wt_next := u_watches u\<rparr>) \<and> watches_ok u' (p # L) \<and>
        requests taken u' = requests taken u @ (if events \<noteq> 0 then [poll_add p w] else []) \<and>
        u_watch u' = (u_watch u)(p := w\<lparr>wt_armed := events \<noteq> 0\<rparr>)))"
proof -
  have h: "heap_ok (u_heap u)" and self: "u_self u \<in> live (u_heap u)" and Lv: "set L \<subseteq> live (u_heap u)" using ok by (simp_all add: watches_ok_def)
  have find: "find_watch fd u = Some 0" using find_watch_post [OF ok] none(1) by simp
  have sz: "0 < sizeof_watch" "sizeof_watch \<le> SIZE_MAX" by (simp_all add: sizeof_watch_def SIZE_MAX_def)
  from h sz show ?thesis
  proof (cases rule: calloc_cases)
    case (fail h')
    let ?u = "u\<lparr>u_heap := h'\<rparr>"
    have "uring_register K g fd events user u = Some (-1, ?u)" using fd find fail(1) watches_ok_self [OF ok] by (simp add: uring_register_def)
    moreover have "watches_ok ?u L" using ok fail(2) by (auto simp: watches_ok_def heap_owns_def)
    ultimately show ?thesis using r fail(3) by (intro exI [of _ "-1"] exI [of _ ?u]) (simp add: requests_def)
  next
    case (fresh p h')
    let ?w = "zero_watch\<lparr>wt_fd := fd, wt_next := u_watches u\<rparr>"
    let ?u = "u\<lparr>u_heap := h', u_watch := (u_watch u)(p := ?w), u_watches := p\<rparr>"
    have p: "p \<notin> set L" "p \<noteq> u_self u" using fresh(5) Lv self by auto
    have lv: "live h' = insert p (live (u_heap u))" "heap_ok h'" using fresh(3) by (auto simp: heap_owns_def)
    have lk: "links ((u_watch u)(p := ?w)) (u_watches u) L"
    proof -
      have "links ((u_watch u)(p := ?w)) q M = links (u_watch u) q M" if "p \<notin> set M" for q M
        using that by (induction M arbitrary: q) auto
      then show ?thesis using p(1) ok by (simp add: watches_ok_def)
    qed
    have fds: "map (\<lambda>q. wt_fd (((u_watch u)(p := ?w)) q)) L = map (\<lambda>q. wt_fd (u_watch u q)) L" using p(1) by (auto intro!: map_cong)
    have "fd \<notin> wt_fd ` u_watch u ` set L" using none(2) by auto
    then have ok1: "watches_ok ?u (p # L)"
      using ok lv p lk fresh(2) self Lv none(2) by (auto simp: watches_ok_def distinct_map inj_on_def fun_upd_def)
    have armed: "\<not> wt_armed (u_watch ?u p)" by (simp add: zero_watch_def)
    have pin: "p \<in> set (p # L)" by simp
    have r1: "ring_ok b (u_rings ?u)" "ring_len (u_rings ?u) < 2 ^ b" using r room by simp_all
    have w: "watching events user (u_watch ?u p) = watching events user ?w" by simp
    obtain rc u' where a: "do { u \<leftarrow> watch_upd p (\<lambda>w. w\<lparr>wt_events := events, wt_user := user, wt_active := True\<rparr>) ?u; arm_watch K p u } = Some (rc, u')"
      "watches_ok u' (p # L)" "ring_ok b (u_rings u')"
      "requests taken u' = requests taken ?u @ (if events \<noteq> 0 then [poll_add p (watching events user ?w)] else [])"
      "u_watch u' = (u_watch ?u)(p := (watching events user ?w)\<lparr>wt_armed := events \<noteq> 0\<rparr>)"
      using register_arm [OF K r1 ok1 pin armed, where events = events and user = user] unfolding w by blast
    have "watch_upd p (\<lambda>_. ?w) (u\<lparr>u_heap := h'\<rparr>) = Some (u\<lparr>u_heap := h', u_watch := (u_watch u)(p := ?w)\<rparr>)"
      using fresh(4) p(2) by (simp add: watch_upd_def)
    then have "uring_register K g fd events user u = Some (rc, u')"
      using fd find fresh(1,2) a(1) watches_ok_self [OF ok] by (simp add: uring_register_def)
    moreover have "requests taken ?u = requests taken u" by (simp add: requests_def)
    ultimately show ?thesis using a(2-5) p(1) by (intro exI [of _ rc] exI [of _ u'] conjI disjI2 exI [of _ p]) simp_all
  qed
qed

end


section \<open>The properties\<close>

text \<open>A kernel that takes its time, and a backend with a small ring and two watches.\<close>

definition slow_kernel :: "unit kernel" where
  "slow_kernel = \<lparr>k_setup = (\<lambda>n k. ((-1, None), k)), k_enter = (\<lambda>fd n mc fl r k. (Inr 0, r, k)), k_eventfd = (\<lambda>k. (-1, k)),
     k_read8 = (\<lambda>fd k. (False, k)), k_write8 = (\<lambda>fd k. (Inr 8, k)), k_close = (\<lambda>fd k. k), k_unmap = (\<lambda>k. k)\<rparr>"

lemma slow_kernel_ok: "kernel_ok slow_kernel (\<lambda>_. []) b"
  by (auto simp: kernel_ok_def slow_kernel_def)

definition rings0 :: rings where
  "rings0 = \<lparr>sq_head = 4294967295, sq_tail = 4294967295, sq_ring_mask = 3, sq_ring_entries = 4, sq_array = replicate 4 0,
     sqes = replicate 4 zero_sqe, cq_head = 0, cq_tail = 0, cq_ring_mask = 7, cqes = []\<rparr>"

definition uring0 :: "unit uring" where
  "uring0 = \<lparr>u_self = 1, u_ring_fd = 3, u_wake_fd = 4, u_rings = rings0, u_watches = 3,
     u_wake_watch = zero_watch, u_watch = (\<lambda>p. zero_watch\<lparr>wt_fd := (if p = 2 then 5 else 6), wt_events := WIRECALL_BACKEND_READ, wt_user := 9,
       wt_active := True, wt_armed := True, wt_next := (if p = 3 then 2 else 0)\<rparr>),
     u_heap = heap0\<lparr>hp_size := [1 \<mapsto> 288, 2 \<mapsto> 32, 3 \<mapsto> 32], hp_next := 4\<rparr>, u_kernel = ()\<rparr>"

lemma uring0_ok: "ring_ok 2 (u_rings uring0)" "ring_len (u_rings uring0) = 0" "watches_ok uring0 [3, 2]" "never_fails (u_heap uring0)"
  "heap_ok (u_heap uring0)"
  by (auto simp: uring0_def rings0_def ring_ok_def ring_bits_def ring_len_def watches_ok_def heap_ok_def heap0_def live_def never_fails_def
      zero_watch_def split: if_splits)

text \<open>
  C17: Registration installs exactly the interest that is asked for.  Whatever pace the kernel takes requests at, registering a descriptor with the
  io_uring backend, when its ring has two free entries and no allocation fails, leaves one watch for it, with the given events and user data and armed if there are any events; the other
  watches are unchanged.  The requests that reach the kernel, in order, are those from before, the removal of the old poll request if the watch
  was armed, and one poll request for the new events; none is lost or overwritten when the positions in the ring wrap around.
\<close>

theorem uring_register_installs:
  assumes "kernel_ok K taken b" "ring_ok b (u_rings u)" "ring_len (u_rings u) + 1 < 2 ^ b" "watches_ok u L" "never_fails (u_heap u)" "0 \<le> fd"
  shows "\<exists>rc u' p w L' removed. uring_register K no_allocator fd events user u = Some (rc, u') \<and> ring_ok b (u_rings u') \<and> watches_ok u' L' \<and>
    (if p \<in> set L then L' = L \<and> wt_fd (u_watch u p) = fd \<and> removed = wt_armed (u_watch u p) else L' = p # L \<and> \<not> removed) \<and> p \<in> set L' \<and>
    u_watch u' = (u_watch u)(p := w) \<and> wt_fd w = fd \<and> wt_events w = events \<and> wt_user w = user \<and> wt_active w \<and> (wt_armed w \<longleftrightarrow> events \<noteq> 0) \<and>
    requests taken u' = requests taken u @ (if removed then [poll_remove p] else []) @ (if events \<noteq> 0 then [poll_add p w] else [])"
  using assms(4)
proof (cases rule: watch_of_cases [where fd = fd])
  case known
  let ?p = "watch_of fd u L" and ?w = "watching events user (u_watch u (watch_of fd u L))"
  obtain rc u' where r: "uring_register K no_allocator fd events user u = Some (rc, u')" "watches_ok u' L" "ring_ok b (u_rings u')"
    "requests taken u' = requests taken u @ (if wt_armed (u_watch u ?p) then [poll_remove ?p] else []) @ (if events \<noteq> 0 then [poll_add ?p ?w] else [])"
    "u_watch u' = (u_watch u)(?p := ?w\<lparr>wt_armed := events \<noteq> 0\<rparr>)"
    using register_known [OF assms(1-4,6) refl known(1,3), where events = events and user = user] by blast
  show ?thesis using r known
    by (intro exI [of _ rc] exI [of _ u'] exI [of _ ?p] exI [of _ "?w\<lparr>wt_armed := events \<noteq> 0\<rparr>"] exI [of _ L] exI [of _ "wt_armed (u_watch u ?p)"])
      (simp add: watching_def poll_add_def)
next
  case unknown
  have room: "ring_len (u_rings u) < 2 ^ b" using assms(3) by simp
  let ?w = "watching events user (zero_watch\<lparr>wt_fd := fd, wt_next := u_watches u\<rparr>)"
  obtain rc u' p where r: "uring_register K no_allocator fd events user u = Some (rc, u')" "ring_ok b (u_rings u')" "p \<notin> set L" "watches_ok u' (p # L)"
    "requests taken u' = requests taken u @ (if events \<noteq> 0 then [poll_add p ?w] else [])" "u_watch u' = (u_watch u)(p := ?w\<lparr>wt_armed := events \<noteq> 0\<rparr>)"
    using plain_memory.register_unknown [OF assms(1,2) room assms(4,6) unknown, where events = events and user = user] assms(5) by blast
  show ?thesis using r
    by (intro exI [of _ rc] exI [of _ u'] exI [of _ p] exI [of _ "?w\<lparr>wt_armed := events \<noteq> 0\<rparr>"] exI [of _ "p # L"] exI [of _ False])
      (simp add: watching_def poll_add_def)
qed

theorem uring_register_installs_witness:
  "\<exists>rc u'. uring_register slow_kernel no_allocator 5 WIRECALL_BACKEND_WRITE 8 uring0 = Some (rc, u') \<and>
    length (requests (\<lambda>_. []) u') \<le> 2 \<and> requests (\<lambda>_. []) u' \<noteq> []"
proof -
  have e: "requests (\<lambda>_. []) uring0 = []" using uring0_ok(2) by (simp add: requests_def pending_def)
  have room: "ring_len (u_rings uring0) + 1 < 2 ^ 2" using uring0_ok(2) by simp
  have ne: "WIRECALL_BACKEND_WRITE \<noteq> 0" by (simp add: WIRECALL_BACKEND_WRITE_def)
  show ?thesis
    using uring_register_installs [OF slow_kernel_ok uring0_ok(1) room uring0_ok(3,4), of 5 WIRECALL_BACKEND_WRITE 8] ne e
    by (auto split: if_splits)
qed

text \<open>
  C29: A late completion disarms a watch whose poll request is in flight.  \<open>cancel_watch\<close> and \<open>arm_watch\<close> in one registration leave a watch armed while the
  completion of the cancelled request, with a negative result, is still to come; it carries the address of the same watch, and
  \<open>wirecall_backend_poll\<close> clears \<open>armed\<close>.  The next registration then sends a second poll request and no removal, so that two requests
  are in flight for one descriptor.
\<close>

theorem uring_stale_completion:
  assumes "kernel_ok K taken b" "ring_ok b (u_rings u)" "ring_len (u_rings u) + 1 < 2 ^ b" "watches_ok u L" "0 \<le> fd"
    and "watch_of fd u L = p" "p \<in> set L" "wt_armed (u_watch u p)" "events \<noteq> 0"
    and "cqe_user_data cqe = p" "cqe_res cqe < 0"
  shows "\<exists>u1 rc u2 w. handle_cqe K cqe u = Some ([], u1) \<and> \<not> wt_armed (u_watch u1 p) \<and> requests taken u1 = requests taken u \<and>
    uring_register K g fd events user u1 = Some (rc, u2) \<and> requests taken u2 = requests taken u @ [poll_add p w]"
proof -
  have "0 \<notin> set L" "u_self u \<notin> set L" using assms(4) by (simp_all add: watches_ok_def)
  then have p: "p \<noteq> 0" "p \<noteq> u_self u" using assms(7) by metis+
  let ?w = "(u_watch u p)\<lparr>wt_armed := False\<rparr>" and ?u = "watch_put p ((u_watch u p)\<lparr>wt_armed := False\<rparr>) u"
  note get = watch_get_listed [OF assms(4,7)]
  have ok: "watches_ok ?u L" by (rule watches_ok_put [OF assms(4,7)]) simp_all
  have uw: "u_watch ?u = (u_watch u)(p := ?w)" using p(2) by (simp add: watch_put_def)
  have get1: "watch_get p ?u = Some ?w" using watch_get_listed [OF ok assms(7)] uw by simp
  have h: "handle_cqe K cqe u = Some ([], ?u)"
    using assms(10,11) p watch_upd_put [OF get] get1 by (simp add: handle_cqe_def Let_def)
  have "(\<lambda>q. wt_fd (u_watch ?u q) = fd) = (\<lambda>q. wt_fd (u_watch u q) = fd)" by (auto simp: fun_eq_iff uw)
  then have at: "watch_of fd ?u L = p" using assms(6) by (simp add: watch_of_def)
  have r1: "ring_ok b (u_rings ?u)" "ring_len (u_rings ?u) + 1 < 2 ^ b" using assms(2,3) by simp_all
  obtain rc u2 where "uring_register K g fd events user ?u = Some (rc, u2)"
    "requests taken u2 = requests taken ?u @ (if wt_armed (u_watch ?u p) then [poll_remove p] else []) @
       (if events \<noteq> 0 then [poll_add p (watching events user (u_watch ?u p))] else [])"
    using register_known [OF assms(1) r1 ok assms(5) at assms(7) p(1), where events = events and user = user] by blast
  then show ?thesis using h uw assms(9) by (intro exI [of _ ?u] exI [of _ rc] exI [of _ u2]) auto
qed

theorem uring_stale_completion_witness:
  "\<exists>u1 rc u2 w. handle_cqe slow_kernel \<lparr>cqe_user_data = 2, cqe_res = -125\<rparr> uring0 = Some ([], u1) \<and> \<not> wt_armed (u_watch u1 2) \<and>
    uring_register slow_kernel no_allocator 5 WIRECALL_BACKEND_READ 9 u1 = Some (rc, u2) \<and> requests (\<lambda>_. []) u2 = requests (\<lambda>_. []) uring0 @ [poll_add 2 w]"
proof -
  have room: "ring_len (u_rings uring0) + 1 < 2 ^ 2" using uring0_ok(2) by simp
  have "watch_of 5 uring0 [3, 2] = 2" "wt_armed (u_watch uring0 2)" by (simp_all add: watch_of_def uring0_def zero_watch_def)
  moreover have "WIRECALL_BACKEND_READ \<noteq> 0" by (simp add: WIRECALL_BACKEND_READ_def)
  ultimately show ?thesis
    using uring_stale_completion [OF slow_kernel_ok uring0_ok(1) room uring0_ok(3), of 5 2 WIRECALL_BACKEND_READ "\<lparr>cqe_user_data = 2, cqe_res = -125\<rparr>" no_allocator 9]
    by auto
qed


end
