(* ===== verification/Kqueue.thy ===== *)
theory Kqueue
imports Server
begin

text \<open>
  The event backend for the BSDs and macOS, \<^verbatim>\<open>src/backend/kqueue.c\<close>.  Interest in a descriptor is two filters in a kernel queue.  The
  kernel is an argument, with \<open>kevent\<close> split into the call that applies one change and the call that waits for events.
\<close>

section \<open>Data\<close>

datatype kq_filter = EVFILT_READ | EVFILT_WRITE | EVFILT_USER

definition EV_ADD :: u16 where "EV_ADD = 1"
definition EV_DELETE :: u16 where "EV_DELETE = 2"
definition EV_ENABLE :: u16 where "EV_ENABLE = 4"
definition EV_CLEAR :: u16 where "EV_CLEAR = 32"
definition NOTE_TRIGGER :: u32 where "NOTE_TRIGGER = 0x01000000"
definition ENOENT :: int where "ENOENT = 2"
definition WIRECALL_KQUEUE_MAX_EVENTS :: int where "WIRECALL_KQUEUE_MAX_EVENTS = 1024"

record kevent =
  kv_ident :: int
  kv_filter :: kq_filter
  kv_udata :: nat

record 'k kq_kernel =
  kk_kqueue :: "'k \<Rightarrow> int \<times> 'k"
  kk_change :: "int \<Rightarrow> int \<Rightarrow> kq_filter \<Rightarrow> u16 \<Rightarrow> u32 \<Rightarrow> nat \<Rightarrow> 'k \<Rightarrow> int \<times> 'k"
  kk_wait :: "int \<Rightarrow> int \<Rightarrow> (int \<times> int) option \<Rightarrow> 'k \<Rightarrow> (int + kevent list) \<times> 'k"
  kk_close :: "int \<Rightarrow> 'k \<Rightarrow> 'k"

text \<open>\<open>kk_change\<close> returns an error number, and \<open>0\<close> for success.  The backend is its address, its queue and the kernel; an address
  \<open>0\<close> is a null pointer.  The array for events and the place for a new backend are results of the definitions and are there.\<close>

record 'k kqueue =
  q_self :: nat
  q_kq :: int
  q_kernel :: 'k

unbundle bit_operations_syntax

section \<open>Interest\<close>

definition apply_filter :: "'k kq_kernel \<Rightarrow> int \<Rightarrow> kq_filter \<Rightarrow> u16 \<Rightarrow> nat \<Rightarrow> 'k kqueue \<Rightarrow> int \<times> 'k kqueue" where
  "apply_filter K fd filt flags user q =
     (let (e, k) = kk_change K (q_kq q) fd filt flags 0 user (q_kernel q); q = q\<lparr>q_kernel := k\<rparr>
      in if e \<noteq> 0 \<and> e = ENOENT \<and> flags AND EV_DELETE \<noteq> 0 then (0, q) else (if e = 0 then 0 else -1, q))"

definition set_interest :: "'k kq_kernel \<Rightarrow> int \<Rightarrow> u32 \<Rightarrow> nat \<Rightarrow> 'k kqueue \<Rightarrow> int \<times> 'k kqueue" where
  "set_interest K fd events user q =
     (let (rc1, q) = (if events AND WIRECALL_BACKEND_READ \<noteq> 0 then apply_filter K fd EVFILT_READ (EV_ADD OR EV_ENABLE) user q
                      else apply_filter K fd EVFILT_READ EV_DELETE user q);
          (rc2, q) = (if events AND WIRECALL_BACKEND_WRITE \<noteq> 0 then apply_filter K fd EVFILT_WRITE (EV_ADD OR EV_ENABLE) user q
                      else apply_filter K fd EVFILT_WRITE EV_DELETE user q)
      in (if rc1 = 0 \<and> rc2 = 0 then 0 else -1, q))"

section \<open>The interface\<close>

definition sizeof_kqueue :: nat where "sizeof_kqueue = 4"

text \<open>The error code, the backend and the heap; there is no backend after a failure.\<close>

definition kq_create :: "'k kq_kernel \<Rightarrow> wirecall_allocator \<Rightarrow> heap \<Rightarrow> 'k \<Rightarrow> (int \<times> 'k kqueue \<times> heap) option" where
  "kq_create K g h k = do {
     (self, h) \<leftarrow> wirecall_mem_calloc g 1 sizeof_kqueue h;
     if self = 0 then Some (-1, \<lparr>q_self = 0, q_kq = 0, q_kernel = k\<rparr>, h)
     else do {
       let (kq, k) = kk_kqueue K k;
       if kq < 0 then do { h \<leftarrow> wirecall_mem_free g self h; Some (-1, \<lparr>q_self = 0, q_kq = kq, q_kernel = k\<rparr>, h) }
       else do {
         let (e, k) = kk_change K kq 1 EVFILT_USER (EV_ADD OR EV_CLEAR) 0 0 k;
         if e \<noteq> 0 then do {
           let k = kk_close K kq k;
           h \<leftarrow> wirecall_mem_free g self h;
           Some (-1, \<lparr>q_self = 0, q_kq = kq, q_kernel = k\<rparr>, h) }
         else Some (0, \<lparr>q_self = self, q_kq = kq, q_kernel = k\<rparr>, h) } } }"

definition kq_destroy :: "'k kq_kernel \<Rightarrow> wirecall_allocator \<Rightarrow> 'k kqueue \<Rightarrow> heap \<Rightarrow> ('k kqueue \<times> heap) option" where
  "kq_destroy K g q h =
     (if q_self q \<noteq> 0 then do {
        let k = (if q_kq q \<ge> 0 then kk_close K (q_kq q) (q_kernel q) else q_kernel q);
        h \<leftarrow> wirecall_mem_free g (q_self q) h;
        Some (q\<lparr>q_kernel := k\<rparr>, h) }
      else Some (q, h))"

definition kq_register :: "'k kq_kernel \<Rightarrow> int \<Rightarrow> u32 \<Rightarrow> nat \<Rightarrow> 'k kqueue \<Rightarrow> int \<times> 'k kqueue" where
  "kq_register K fd events user q = (if q_self q = 0 \<or> fd < 0 then (-1, q) else set_interest K fd events user q)"

definition kq_modify :: "'k kq_kernel \<Rightarrow> int \<Rightarrow> u32 \<Rightarrow> nat \<Rightarrow> 'k kqueue \<Rightarrow> int \<times> 'k kqueue" where
  "kq_modify K fd events user q = kq_register K fd events user q"

definition kq_remove :: "'k kq_kernel \<Rightarrow> int \<Rightarrow> 'k kqueue \<Rightarrow> int \<times> 'k kqueue" where
  "kq_remove K fd q =
     (if q_self q = 0 \<or> fd < 0 then (-1, q)
      else let (_, q) = apply_filter K fd EVFILT_READ EV_DELETE 0 q; (_, q) = apply_filter K fd EVFILT_WRITE EV_DELETE 0 q in (0, q))"

definition kq_wake :: "'k kq_kernel \<Rightarrow> 'k kqueue \<Rightarrow> int \<times> 'k kqueue" where
  "kq_wake K q =
     (if q_self q = 0 then (-1, q)
      else let (e, k) = kk_change K (q_kq q) 1 EVFILT_USER 0 NOTE_TRIGGER 0 (q_kernel q)
           in (if e = 0 then 0 else -1, q\<lparr>q_kernel := k\<rparr>))"

definition kq_event :: "kevent \<Rightarrow> wirecall_backend_event" where
  "kq_event kev =
     (let events = 0;
          events = (if kv_filter kev = EVFILT_USER then events OR WIRECALL_BACKEND_WAKE else events);
          events = (if kv_filter kev = EVFILT_READ then events OR WIRECALL_BACKEND_READ else events);
          events = (if kv_filter kev = EVFILT_WRITE then events OR WIRECALL_BACKEND_WRITE else events)
      in \<lparr>ev_fd = kv_ident kev, ev_events = events, ev_user = kv_udata kev\<rparr>)"

text \<open>For a timeout that is not negative, \<open>div\<close> and \<open>mod\<close> are the operators of C.\<close>

definition kq_poll :: "'k kq_kernel \<Rightarrow> int \<Rightarrow> int \<Rightarrow> 'k kqueue \<Rightarrow> int \<times> wirecall_backend_event list \<times> 'k kqueue" where
  "kq_poll K max_events timeout_ms q =
     (if q_self q = 0 \<or> max_events \<le> 0 then (-1, [], q)
      else let timeout = (if timeout_ms \<ge> 0 then Some (timeout_ms div 1000, (timeout_ms mod 1000) * 1000000) else None);
               limit = (if max_events < WIRECALL_KQUEUE_MAX_EVENTS then max_events else WIRECALL_KQUEUE_MAX_EVENTS);
               (r, k) = kk_wait K (q_kq q) limit timeout (q_kernel q);
               q = q\<lparr>q_kernel := k\<rparr>
           in case r of
                Inl e \<Rightarrow> (if e = EINTR then 0 else -1, [], q)
              | Inr kev \<Rightarrow> (int (length kev), map kq_event kev, q))"

section \<open>The properties\<close>

text \<open>
  What is relied on of the kernel: \<open>filters k (fd, f)\<close> is the user data of a filter that is in the queue; adding a filter puts it there or
  replaces its user data, and deleting one takes it away, with \<open>ENOENT\<close> if it is not there.  Kernels that refuse to add a filter, for lack of
  memory or for a bad descriptor, do not satisfy the predicate.
\<close>

definition kq_kernel_ok :: "'k kq_kernel \<Rightarrow> ('k \<Rightarrow> int \<times> kq_filter \<Rightarrow> nat option) \<Rightarrow> bool" where
  "kq_kernel_ok K filters \<longleftrightarrow> (\<forall>kq fd f user k.
     (\<exists>k'. kk_change K kq fd f (EV_ADD OR EV_ENABLE) 0 user k = (0, k') \<and> filters k' = (filters k)((fd, f) := Some user)) \<and>
     (\<exists>k'. kk_change K kq fd f EV_DELETE 0 user k = (if filters k (fd, f) = None then ENOENT else 0, k') \<and>
        filters k' = (filters k)((fd, f) := None)))"

lemma apply_filter_post:
  assumes "kq_kernel_ok K filters"
  shows "\<exists>q'. apply_filter K fd f (EV_ADD OR EV_ENABLE) user q = (0, q') \<and> filters (q_kernel q') = (filters (q_kernel q))((fd, f) := Some user)"
    "\<exists>q'. apply_filter K fd f EV_DELETE user q = (0, q') \<and> filters (q_kernel q') = (filters (q_kernel q))((fd, f) := None)"
proof -
  obtain k1 k2 where k: "kk_change K (q_kq q) fd f (EV_ADD OR EV_ENABLE) 0 user (q_kernel q) = (0, k1)"
    "filters k1 = (filters (q_kernel q))((fd, f) := Some user)"
    "kk_change K (q_kq q) fd f EV_DELETE 0 user (q_kernel q) = (if filters (q_kernel q) (fd, f) = None then ENOENT else 0, k2)"
    "filters k2 = (filters (q_kernel q))((fd, f) := None)"
    using assms unfolding kq_kernel_ok_def by metis
  show "\<exists>q'. apply_filter K fd f (EV_ADD OR EV_ENABLE) user q = (0, q') \<and> filters (q_kernel q') = (filters (q_kernel q))((fd, f) := Some user)"
    using k(1,2) by (simp add: apply_filter_def)
  have "EV_DELETE AND EV_DELETE \<noteq> (0 :: u16)" by (simp add: EV_DELETE_def)
  then show "\<exists>q'. apply_filter K fd f EV_DELETE user q = (0, q') \<and> filters (q_kernel q') = (filters (q_kernel q))((fd, f) := None)"
    using k(3,4) by (simp add: apply_filter_def)
qed

text \<open>
  C25: The kqueue backend has the interest that was asked for, if the kernel accepts every filter that is added.  After registering or modifying a descriptor, the filters of the descriptor in
  the kernel queue are exactly those of the requested events, with the given user data, whatever they were before; after removing it
  there are none.  Filters of other descriptors are not touched.
\<close>

theorem kqueue_interest_exact:
  assumes "kq_kernel_ok K filters" "q_self q \<noteq> 0" "0 \<le> fd"
  shows "(\<exists>q1. kq_register K fd events user q = (0, q1) \<and>
      filters (q_kernel q1) = (filters (q_kernel q))
        ((fd, EVFILT_READ) := (if events AND WIRECALL_BACKEND_READ \<noteq> 0 then Some user else None),
         (fd, EVFILT_WRITE) := (if events AND WIRECALL_BACKEND_WRITE \<noteq> 0 then Some user else None))) \<and>
    (\<exists>q1. kq_remove K fd q = (0, q1) \<and>
      filters (q_kernel q1) = (filters (q_kernel q))((fd, EVFILT_READ) := None, (fd, EVFILT_WRITE) := None))"
proof
  note f = apply_filter_post [OF assms(1)]
  obtain q1 where q1: "(if events AND WIRECALL_BACKEND_READ \<noteq> 0 then apply_filter K fd EVFILT_READ (EV_ADD OR EV_ENABLE) user q
      else apply_filter K fd EVFILT_READ EV_DELETE user q) = (0, q1)"
    "filters (q_kernel q1) = (filters (q_kernel q))((fd, EVFILT_READ) := (if events AND WIRECALL_BACKEND_READ \<noteq> 0 then Some user else None))"
    using f(1) [of fd EVFILT_READ user q] f(2) [of fd EVFILT_READ user q] by (cases "events AND WIRECALL_BACKEND_READ = 0") auto
  obtain q2 where q2: "(if events AND WIRECALL_BACKEND_WRITE \<noteq> 0 then apply_filter K fd EVFILT_WRITE (EV_ADD OR EV_ENABLE) user q1
      else apply_filter K fd EVFILT_WRITE EV_DELETE user q1) = (0, q2)"
    "filters (q_kernel q2) = (filters (q_kernel q1))((fd, EVFILT_WRITE) := (if events AND WIRECALL_BACKEND_WRITE \<noteq> 0 then Some user else None))"
    using f(1) [of fd EVFILT_WRITE user q1] f(2) [of fd EVFILT_WRITE user q1] by (cases "events AND WIRECALL_BACKEND_WRITE = 0") auto
  have "kq_register K fd events user q = (0, q2)" using assms(2,3) q1(1) q2(1) by (simp add: kq_register_def set_interest_def)
  then show "\<exists>q1. kq_register K fd events user q = (0, q1) \<and>
      filters (q_kernel q1) = (filters (q_kernel q))
        ((fd, EVFILT_READ) := (if events AND WIRECALL_BACKEND_READ \<noteq> 0 then Some user else None),
         (fd, EVFILT_WRITE) := (if events AND WIRECALL_BACKEND_WRITE \<noteq> 0 then Some user else None))"
    using q2(2) q1(2) by simp
next
  note f = apply_filter_post(2) [OF assms(1)]
  obtain q1 where q1: "apply_filter K fd EVFILT_READ EV_DELETE 0 q = (0, q1)" "filters (q_kernel q1) = (filters (q_kernel q))((fd, EVFILT_READ) := None)"
    using f by blast
  obtain q2 where q2: "apply_filter K fd EVFILT_WRITE EV_DELETE 0 q1 = (0, q2)" "filters (q_kernel q2) = (filters (q_kernel q1))((fd, EVFILT_WRITE) := None)"
    using f by blast
  show "\<exists>q1. kq_remove K fd q = (0, q1) \<and> filters (q_kernel q1) = (filters (q_kernel q))((fd, EVFILT_READ) := None, (fd, EVFILT_WRITE) := None)"
    using assms(2,3) q1 q2 by (simp add: kq_remove_def)
qed

text \<open>A kernel that keeps the filters in a map.\<close>

definition map_kernel :: "(int \<times> kq_filter \<Rightarrow> nat option) kq_kernel" where
  "map_kernel = \<lparr>kk_kqueue = (\<lambda>k. (3, k)),
     kk_change = (\<lambda>kq fd f flags ff user k. if flags AND EV_DELETE \<noteq> 0 then (if k (fd, f) = None then ENOENT else 0, k((fd, f) := None))
       else (0, k((fd, f) := Some user))),
     kk_wait = (\<lambda>kq limit timeout k. (Inr [], k)), kk_close = (\<lambda>fd k. k)\<rparr>"

lemma map_kernel_ok: "kq_kernel_ok map_kernel (\<lambda>k. k)"
  by (simp add: kq_kernel_ok_def map_kernel_def EV_ADD_def EV_ENABLE_def EV_DELETE_def)

theorem kqueue_interest_exact_witness:
  "\<exists>q1. kq_register map_kernel 5 WIRECALL_BACKEND_READ 9 \<lparr>q_self = 1, q_kq = 3, q_kernel = [(5, EVFILT_WRITE) \<mapsto> 8]\<rparr> = (0, q1) \<and>
    q_kernel q1 (5, EVFILT_READ) = Some 9 \<and> q_kernel q1 (5, EVFILT_WRITE) = None"
proof -
  have "WIRECALL_BACKEND_READ AND WIRECALL_BACKEND_READ \<noteq> 0" "WIRECALL_BACKEND_READ AND WIRECALL_BACKEND_WRITE = 0"
    by (simp_all add: WIRECALL_BACKEND_READ_def WIRECALL_BACKEND_WRITE_def)
  then show ?thesis
    using conjunct1 [OF kqueue_interest_exact [OF map_kernel_ok, of "\<lparr>q_self = 1, q_kq = 3, q_kernel = [(5, EVFILT_WRITE) \<mapsto> 8]\<rparr>" 5 WIRECALL_BACKEND_READ 9]]
    by auto
qed

end
