(* ===== verification/Winsock.thy ===== *)
theory Winsock
imports Server
begin

text \<open>
  The event backend for Windows, \<^verbatim>\<open>src/backend/windows.c\<close>.  A fixed array holds a watch for every socket, with an event object that
  Winsock signals; polling waits for the event objects.  Winsock is an argument.  Handles of event objects are natural numbers, and
  \<open>0\<close> is \<open>WSA_INVALID_EVENT\<close>.  A socket is the descriptor it was converted from, which is not negative.
\<close>

section \<open>Data\<close>

definition FD_READ :: u32 where "FD_READ = 1"
definition FD_WRITE :: u32 where "FD_WRITE = 2"
definition FD_ACCEPT :: u32 where "FD_ACCEPT = 8"
definition FD_CLOSE :: u32 where "FD_CLOSE = 32"
definition WSA_INVALID_EVENT :: nat where "WSA_INVALID_EVENT = 0"
definition WSA_INFINITE :: u32 where "WSA_INFINITE = 0xFFFFFFFF"
definition WSA_WAIT_EVENT_0 :: u32 where "WSA_WAIT_EVENT_0 = 0"
definition WSA_WAIT_TIMEOUT :: u32 where "WSA_WAIT_TIMEOUT = 258"
definition WSA_WAIT_FAILED :: u32 where "WSA_WAIT_FAILED = 0xFFFFFFFF"
definition MAXIMUM_WAIT_OBJECTS :: nat where "MAXIMUM_WAIT_OBJECTS = 64"
definition WIRECALL_WINDOWS_MAX_WATCHES :: nat where "WIRECALL_WINDOWS_MAX_WATCHES = 1024"

record win_watch =
  ww_socket :: int
  ww_event :: nat
  ww_interests :: u32
  ww_user :: nat
  ww_active :: bool

definition zero_win_watch :: win_watch where
  "zero_win_watch = \<lparr>ww_socket = 0, ww_event = 0, ww_interests = 0, ww_user = 0, ww_active = False\<rparr>"

text \<open>The backend with its address, which is \<open>0\<close> for a null pointer, and the state of Winsock.\<close>

record 'k winback =
  w_self :: nat
  w_wake_event :: nat
  w_watches :: "win_watch list"
  w_wsa_ready :: bool
  w_kernel :: 'k

text \<open>The calls of Winsock.  \<open>s_wait\<close> gets the handles, whether to wait for all of them, and the timeout; \<open>s_enum\<close> returns nothing on failure.\<close>

record 'k winsock =
  s_startup :: "'k \<Rightarrow> int \<times> 'k"
  s_cleanup :: "'k \<Rightarrow> 'k"
  s_create_event :: "'k \<Rightarrow> nat \<times> 'k"
  s_close_event :: "nat \<Rightarrow> 'k \<Rightarrow> 'k"
  s_set_event :: "nat \<Rightarrow> 'k \<Rightarrow> bool \<times> 'k"
  s_reset_event :: "nat \<Rightarrow> 'k \<Rightarrow> 'k"
  s_event_select :: "int \<Rightarrow> nat \<Rightarrow> u32 \<Rightarrow> 'k \<Rightarrow> int \<times> 'k"
  s_wait :: "nat list \<Rightarrow> bool \<Rightarrow> u32 \<Rightarrow> 'k \<Rightarrow> u32 \<times> 'k"
  s_enum :: "int \<Rightarrow> nat \<Rightarrow> 'k \<Rightarrow> u32 option \<times> 'k"

unbundle bit_operations_syntax

section \<open>Watches\<close>

definition network_events :: "u32 \<Rightarrow> u32" where
  "network_events interests =
     (let events = FD_CLOSE;
          events = (if interests AND WIRECALL_BACKEND_READ \<noteq> 0 then events OR (FD_ACCEPT OR FD_READ) else events)
      in if interests AND WIRECALL_BACKEND_WRITE \<noteq> 0 then events OR FD_WRITE else events)"

text \<open>The loops that look through the array return the position of a watch, and nothing for a null pointer.\<close>

fun first_index :: "('a \<Rightarrow> bool) \<Rightarrow> 'a list \<Rightarrow> nat option" where
  "first_index P [] = None"
| "first_index P (x # xs) = (if P x then Some 0 else map_option Suc (first_index P xs))"

definition win_find_watch :: "int \<Rightarrow> 'k winback \<Rightarrow> nat option" where
  "win_find_watch fd b = first_index (\<lambda>w. ww_active w \<and> ww_socket w = fd) (w_watches b)"

definition alloc_watch :: "'k winback \<Rightarrow> nat option" where
  "alloc_watch b = first_index (\<lambda>w. \<not> ww_active w) (w_watches b)"

definition win_upd :: "nat \<Rightarrow> (win_watch \<Rightarrow> win_watch) \<Rightarrow> 'k winback \<Rightarrow> 'k winback" where
  "win_upd i f b = b\<lparr>w_watches := (w_watches b)[i := f (w_watches b ! i)]\<rparr>"

section \<open>The interface\<close>

definition select_watch :: "'k winsock \<Rightarrow> nat \<Rightarrow> u32 \<Rightarrow> nat \<Rightarrow> 'k winback \<Rightarrow> int \<times> 'k winback" where
  "select_watch K i events user b =
     (let b = win_upd i (\<lambda>w. w\<lparr>ww_interests := events, ww_user := user\<rparr>) b;
          w = w_watches b ! i;
          (rc, k) = s_event_select K (ww_socket w) (ww_event w) (network_events events) (w_kernel b)
      in (if rc \<noteq> 0 then -1 else 0, b\<lparr>w_kernel := k\<rparr>))"

definition win_register :: "'k winsock \<Rightarrow> int \<Rightarrow> u32 \<Rightarrow> nat \<Rightarrow> 'k winback \<Rightarrow> int \<times> 'k winback" where
  "win_register K fd events user b =
     (if w_self b = 0 \<or> fd < 0 then (-1, b)
      else case win_find_watch fd b of
        Some i \<Rightarrow> select_watch K i events user b
      | None \<Rightarrow>
          (case alloc_watch b of
             None \<Rightarrow> (-1, b)
           | Some i \<Rightarrow>
               let (event, k) = s_create_event K (w_kernel b);
                   b = (win_upd i (\<lambda>w. w\<lparr>ww_event := event\<rparr>) b)\<lparr>w_kernel := k\<rparr>
               in if event = WSA_INVALID_EVENT then (-1, b)
                  else select_watch K i events user (win_upd i (\<lambda>w. w\<lparr>ww_socket := fd, ww_active := True\<rparr>) b)))"

definition win_modify :: "'k winsock \<Rightarrow> int \<Rightarrow> u32 \<Rightarrow> nat \<Rightarrow> 'k winback \<Rightarrow> int \<times> 'k winback" where
  "win_modify K fd events user b = win_register K fd events user b"

definition win_remove :: "'k winsock \<Rightarrow> int \<Rightarrow> 'k winback \<Rightarrow> int \<times> 'k winback" where
  "win_remove K fd b =
     (if w_self b = 0 \<or> fd < 0 then (-1, b)
      else case win_find_watch fd b of
        None \<Rightarrow> (0, b)
      | Some i \<Rightarrow>
          let w = w_watches b ! i;
              (_, k) = s_event_select K (ww_socket w) 0 0 (w_kernel b);
              k = s_close_event K (ww_event w) k
          in (0, (win_upd i (\<lambda>_. zero_win_watch) b)\<lparr>w_kernel := k\<rparr>))"

definition win_wake :: "'k winsock \<Rightarrow> 'k winback \<Rightarrow> int \<times> 'k winback" where
  "win_wake K b =
     (if w_self b = 0 then (-1, b)
      else let (ok, k) = s_set_event K (w_wake_event b) (w_kernel b) in (if ok then 0 else -1, b\<lparr>w_kernel := k\<rparr>))"

text \<open>
  Polling.  \<open>wait_for\<close> fills the array of handles behind the first \<open>count\<close> ones, each with its watch; \<open>scan_handles\<close> asks for every handle from
  position \<open>i\<close> whether it is signalled.  The watches do not change meanwhile.
\<close>

fun wait_for :: "nat \<Rightarrow> win_watch list \<Rightarrow> (nat \<times> win_watch) list" where
  "wait_for count [] = []"
| "wait_for count (w # ws) =
     (if count < MAXIMUM_WAIT_OBJECTS then if ww_active w then (ww_event w, w) # wait_for (count + 1) ws else wait_for count ws else [])"

definition win_events :: "u32 \<Rightarrow> u32" where
  "win_events nevents =
     (let ev = 0; ev = (if nevents AND (FD_ACCEPT OR FD_READ OR FD_CLOSE) \<noteq> 0 then ev OR WIRECALL_BACKEND_READ else ev)
      in if nevents AND FD_WRITE \<noteq> 0 then ev OR WIRECALL_BACKEND_WRITE else ev)"

definition win_event :: "'k winsock \<Rightarrow> win_watch \<Rightarrow> 'k winback \<Rightarrow> wirecall_backend_event list \<times> 'k winback" where
  "win_event K w b =
     (let (r, k) = s_enum K (ww_socket w) (ww_event w) (w_kernel b); b = b\<lparr>w_kernel := k\<rparr>
      in case r of
           None \<Rightarrow> ([], b)
         | Some nevents \<Rightarrow>
             let ev = win_events nevents
             in (if ev \<noteq> 0 then [\<lparr>ev_fd = ww_socket w, ev_events = ev, ev_user = ww_user w\<rparr>] else [], b))"

fun scan_handles ::
  "'k winsock \<Rightarrow> nat \<Rightarrow> (nat \<times> win_watch option) list \<Rightarrow> wirecall_backend_event list \<Rightarrow> 'k winback \<Rightarrow> wirecall_backend_event list \<times> 'k winback" where
  "scan_handles K max_events [] out b = (out, b)"
| "scan_handles K max_events ((handle, watch) # hs) out b =
     (if length out < max_events then
        let (r, k) = s_wait K [handle] True 0 (w_kernel b); b = b\<lparr>w_kernel := k\<rparr>
        in if r \<noteq> WSA_WAIT_EVENT_0 then scan_handles K max_events hs out b
           else case watch of
             None \<Rightarrow> scan_handles K max_events hs (out @ [\<lparr>ev_fd = -1, ev_events = WIRECALL_BACKEND_WAKE, ev_user = 0\<rparr>])
                       (b\<lparr>w_kernel := s_reset_event K (w_wake_event b) (w_kernel b)\<rparr>)
           | Some w \<Rightarrow> let (evs, b) = win_event K w b in scan_handles K max_events hs (out @ evs) b
      else (out, b))"

definition win_poll :: "'k winsock \<Rightarrow> int \<Rightarrow> int \<Rightarrow> 'k winback \<Rightarrow> int \<times> wirecall_backend_event list \<times> 'k winback" where
  "win_poll K max_events timeout_ms b =
     (if w_self b = 0 \<or> max_events \<le> 0 then (-1, [], b)
      else let handles = (w_wake_event b, None) # map (\<lambda>(h, w). (h, Some w)) (wait_for 1 (w_watches b));
               timeout = (if timeout_ms < 0 then WSA_INFINITE else word_of_int timeout_ms);
               (index, k) = s_wait K (map fst handles) False timeout (w_kernel b);
               b = b\<lparr>w_kernel := k\<rparr>
           in if index = WSA_WAIT_TIMEOUT then (0, [], b)
              else if index = WSA_WAIT_FAILED then (-1, [], b)
              else let start = unat (index - WSA_WAIT_EVENT_0);
                       (out, b) = scan_handles K (nat max_events) (drop start handles) [] b
                   in (int (length out), out, b))"

section \<open>Creation and destruction\<close>

definition sizeof_winback :: nat where "sizeof_winback = 41384"

fun close_watches :: "'k winsock \<Rightarrow> win_watch list \<Rightarrow> 'k \<Rightarrow> 'k" where
  "close_watches K [] k = k"
| "close_watches K (w # ws) k =
     (if ww_active w then let (_, k) = s_event_select K (ww_socket w) 0 0 k in close_watches K ws (s_close_event K (ww_event w) k)
      else close_watches K ws k)"

text \<open>The kernel and the heap that are left.\<close>

definition win_destroy :: "'k winsock \<Rightarrow> wirecall_allocator \<Rightarrow> 'k winback \<Rightarrow> heap \<Rightarrow> ('k \<times> heap) option" where
  "win_destroy K g b h =
     (if w_self b = 0 then Some (w_kernel b, h)
      else do {
        let k = close_watches K (w_watches b) (w_kernel b);
        let k = (if w_wake_event b \<noteq> WSA_INVALID_EVENT then s_close_event K (w_wake_event b) k else k);
        let k = (if w_wsa_ready b then s_cleanup K k else k);
        h \<leftarrow> wirecall_mem_free g (w_self b) h;
        Some (k, h) })"

text \<open>The error code, the backend, if there is one, the kernel otherwise, and the heap.\<close>

definition win_create :: "'k winsock \<Rightarrow> wirecall_allocator \<Rightarrow> heap \<Rightarrow> 'k \<Rightarrow> (int \<times> ('k + 'k winback) \<times> heap) option" where
  "win_create K g h k = do {
     (self, h) \<leftarrow> wirecall_mem_calloc g 1 sizeof_winback h;
     if self = 0 then Some (-1, Inl k, h)
     else do {
       let (rc, k) = s_startup K k;
       if rc \<noteq> 0 then do { h \<leftarrow> wirecall_mem_free g self h; Some (-1, Inl k, h) }
       else do {
         let (event, k) = s_create_event K k;
         let b = \<lparr>w_self = self, w_wake_event = event, w_watches = replicate WIRECALL_WINDOWS_MAX_WATCHES zero_win_watch, w_wsa_ready = True,
           w_kernel = k\<rparr>;
         if event = WSA_INVALID_EVENT then do { (k, h) \<leftarrow> win_destroy K g b h; Some (-1, Inl k, h) }
         else Some (0, Inr b, h) } } }"

section \<open>The table of watches\<close>

lemma first_index_Some: "first_index P xs = Some i \<Longrightarrow> i < length xs \<and> P (xs ! i)"
  by (induction xs arbitrary: i) (auto split: if_splits)

lemma first_index_None: "first_index P xs = None \<longleftrightarrow> (\<forall>i < length xs. \<not> P (xs ! i))"
  by (induction xs) (auto simp: nth_Cons split: if_splits nat.splits)

lemma first_index_unique:
  assumes "i < length xs" "P (xs ! i)" "\<And>j. j < length xs \<Longrightarrow> P (xs ! j) \<Longrightarrow> j = i"
  shows "first_index P xs = Some i"
proof (cases "first_index P xs")
  case None
  then show ?thesis using assms(1,2) by (simp add: first_index_None)
next
  case (Some j)
  then show ?thesis using assms(3) first_index_Some [OF Some] by simp
qed

text \<open>
  What is relied on of Winsock: \<open>opened\<close> are the event objects that exist and \<open>selected\<close> is the event object and the network events of a socket.
  A call that fails has no effect, and starting Winsock up or cleaning it up neither creates nor closes event objects.
\<close>

definition winsock_ok :: "'k winsock \<Rightarrow> ('k \<Rightarrow> nat set) \<Rightarrow> ('k \<Rightarrow> int \<Rightarrow> (nat \<times> u32) option) \<Rightarrow> bool" where
  "winsock_ok K opened selected \<longleftrightarrow>
     (\<forall>k e k'. s_create_event K k = (e, k') \<longrightarrow>
        selected k' = selected k \<and> (if e = WSA_INVALID_EVENT then opened k' = opened k else e \<notin> opened k \<and> opened k' = insert e (opened k))) \<and>
     (\<forall>e k. opened (s_close_event K e k) = opened k - {e} \<and> opened (snd (s_startup K k)) = opened k \<and> opened (s_cleanup K k) = opened k) \<and>
     (\<forall>s e m k rc k'. s_event_select K s e m k = (rc, k') \<longrightarrow>
        opened k' = opened k \<and> selected k' = (if rc = 0 then (selected k)(s := if m = 0 then None else Some (e, m)) else selected k))"

definition win_active :: "'k winback \<Rightarrow> nat \<Rightarrow> bool" where
  "win_active b i \<longleftrightarrow> i < length (w_watches b) \<and> ww_active (w_watches b ! i)"

definition own_events :: "'k winback \<Rightarrow> nat set" where
  "own_events b = insert (w_wake_event b) {ww_event (w_watches b ! i) | i. win_active b i}"

text \<open>The table: one watch for a socket, and an event object of its own, which exists, for every watch and for wake-ups.\<close>

definition win_ok :: "('k \<Rightarrow> nat set) \<Rightarrow> 'k winback \<Rightarrow> bool" where
  "win_ok opened b \<longleftrightarrow> w_self b \<noteq> 0 \<and> length (w_watches b) = WIRECALL_WINDOWS_MAX_WATCHES \<and>
     own_events b \<subseteq> opened (w_kernel b) \<and>
     (\<forall>i. win_active b i \<longrightarrow> 0 \<le> ww_socket (w_watches b ! i) \<and> ww_event (w_watches b ! i) \<noteq> w_wake_event b) \<and>
     (\<forall>i j. win_active b i \<and> win_active b j \<and> i \<noteq> j \<longrightarrow>
        ww_socket (w_watches b ! i) \<noteq> ww_socket (w_watches b ! j) \<and> ww_event (w_watches b ! i) \<noteq> ww_event (w_watches b ! j))"

definition interest :: "'k winback \<Rightarrow> int \<Rightarrow> (u32 \<times> nat) option" where
  "interest b fd = map_option (\<lambda>i. (ww_interests (w_watches b ! i), ww_user (w_watches b ! i))) (win_find_watch fd b)"

definition event_of :: "'k winback \<Rightarrow> int \<Rightarrow> nat option" where
  "event_of b fd = map_option (\<lambda>i. ww_event (w_watches b ! i)) (win_find_watch fd b)"

lemma win_upd_sel [simp]:
  "w_self (win_upd i f b) = w_self b" "w_wake_event (win_upd i f b) = w_wake_event b" "w_kernel (win_upd i f b) = w_kernel b"
  "length (w_watches (win_upd i f b)) = length (w_watches b)"
  "j < length (w_watches b) \<Longrightarrow> w_watches (win_upd i f b) ! j = (if j = i then f (w_watches b ! i) else w_watches b ! j)"
  by (simp_all add: win_upd_def)

lemma win_kernel_sel [simp]:
  "win_active (b\<lparr>w_kernel := k\<rparr>) = win_active b" "own_events (b\<lparr>w_kernel := k\<rparr>) = own_events b"
  "win_find_watch fd (b\<lparr>w_kernel := k\<rparr>) = win_find_watch fd b" "interest (b\<lparr>w_kernel := k\<rparr>) = interest b" "event_of (b\<lparr>w_kernel := k\<rparr>) = event_of b"
  by (auto simp: win_active_def own_events_def win_find_watch_def interest_def event_of_def fun_eq_iff)

lemma win_kernel_ok: "win_ok opened b \<Longrightarrow> opened k = opened (w_kernel b) \<Longrightarrow> win_ok opened (b\<lparr>w_kernel := k\<rparr>)"
  by (simp add: win_ok_def)

text \<open>In a table that is in order, the watch of a socket is found wherever it is.\<close>

lemma win_ok_unique:
  assumes "win_ok opened b" "win_active b i" "win_active b j" "ww_socket (w_watches b ! i) = ww_socket (w_watches b ! j)"
  shows "i = j"
  using assms unfolding win_ok_def by blast

lemma find_active:
  assumes "win_ok opened b" "win_active b i"
  shows "win_find_watch (ww_socket (w_watches b ! i)) b = Some i"
  unfolding win_find_watch_def
proof (rule first_index_unique)
  show "i < length (w_watches b)" "ww_active (w_watches b ! i) \<and> ww_socket (w_watches b ! i) = ww_socket (w_watches b ! i)"
    using assms(2) by (simp_all add: win_active_def)
  fix j assume "j < length (w_watches b)" "ww_active (w_watches b ! j) \<and> ww_socket (w_watches b ! j) = ww_socket (w_watches b ! i)"
  then show "j = i" using win_ok_unique [OF assms(1) _ assms(2), of j] by (simp add: win_active_def)
qed

lemma find_Some: "win_find_watch fd b = Some i \<Longrightarrow> win_active b i \<and> ww_socket (w_watches b ! i) = fd"
  using first_index_Some by (fastforce simp: win_find_watch_def win_active_def)

lemma find_None: "win_find_watch fd b = None \<longleftrightarrow> (\<forall>i. win_active b i \<longrightarrow> ww_socket (w_watches b ! i) \<noteq> fd)"
  by (auto simp: win_find_watch_def win_active_def first_index_None)

lemma find_eq:
  assumes "win_ok opened b"
  shows "win_find_watch fd b = Some i \<longleftrightarrow> win_active b i \<and> ww_socket (w_watches b ! i) = fd"
  using find_active [OF assms] find_Some by blast

lemma first_index_update: "i < length xs \<Longrightarrow> P y = P (xs ! i) \<Longrightarrow> first_index P (xs[i := y]) = first_index P xs"
  by (induction xs arbitrary: i) (auto simp: nth_Cons split: nat.splits)

lemma interest_other:
  assumes "i < length (w_watches b)" "\<not> (ww_active (w_watches b ! i) \<and> ww_socket (w_watches b ! i) = fd)"
    "\<not> (ww_active (f (w_watches b ! i)) \<and> ww_socket (f (w_watches b ! i)) = fd)"
  shows "interest (win_upd i f b) fd = interest b fd"
proof -
  have "win_find_watch fd (win_upd i f b) = win_find_watch fd b"
    using assms first_index_update [of i "w_watches b" "\<lambda>w. ww_active w \<and> ww_socket w = fd" "f (w_watches b ! i)"]
    by (auto simp: win_find_watch_def win_upd_def)
  then show ?thesis
    using assms(1,2) find_Some [of fd b] by (cases "win_find_watch fd b") (auto simp: interest_def win_active_def)
qed

lemma interest_self:
  assumes "win_ok opened b" "win_active b i"
  shows "interest b (ww_socket (w_watches b ! i)) = Some (ww_interests (w_watches b ! i), ww_user (w_watches b ! i))"
    "event_of b (ww_socket (w_watches b ! i)) = Some (ww_event (w_watches b ! i))"
  using find_active [OF assms] by (simp_all add: interest_def event_of_def)

lemma win_active_upd: "i < length (w_watches b) \<Longrightarrow> win_active (win_upd i f b) j \<longleftrightarrow> (if j = i then ww_active (f (w_watches b ! i)) else win_active b j)"
  by (auto simp: win_active_def)

text \<open>The ways in which an operation changes one watch.\<close>

lemma win_ok_settings:
  assumes "win_ok opened b" "win_active b i" "ww_socket (f (w_watches b ! i)) = ww_socket (w_watches b ! i)"
    "ww_event (f (w_watches b ! i)) = ww_event (w_watches b ! i)" "ww_active (f (w_watches b ! i))"
  shows "win_ok opened (win_upd i f b)" "own_events (win_upd i f b) = own_events b"
proof -
  have i: "i < length (w_watches b)" using assms(2) by (simp add: win_active_def)
  have a: "win_active (win_upd i f b) j \<longleftrightarrow> win_active b j" for j using assms(2,5) i by (auto simp: win_active_upd)
  have e: "ww_event (w_watches (win_upd i f b) ! j) = ww_event (w_watches b ! j)" "ww_socket (w_watches (win_upd i f b) ! j) = ww_socket (w_watches b ! j)"
    if "win_active b j" for j using that assms(3,4) by (auto simp: win_active_def)
  show own: "own_events (win_upd i f b) = own_events b" using a e by (force simp: own_events_def)
  show "win_ok opened (win_upd i f b)" using assms(1) a e own unfolding win_ok_def by (simp del: win_upd_sel(5))
qed

lemma win_ok_added:
  assumes "win_ok opened b" "i < length (w_watches b)" "\<not> ww_active (w_watches b ! i)" "win_find_watch fd b = None" "0 \<le> fd"
    and "e \<notin> opened (w_kernel b)" "opened k = insert e (opened (w_kernel b))"
    and "ww_socket (f (w_watches b ! i)) = fd" "ww_event (f (w_watches b ! i)) = e" "ww_active (f (w_watches b ! i))"
  shows "win_ok opened ((win_upd i f b)\<lparr>w_kernel := k\<rparr>)" "own_events (win_upd i f b) = insert e (own_events b)"
proof -
  let ?b = "win_upd i f b"
  have a: "win_active ?b j \<longleftrightarrow> j = i \<or> win_active b j" for j using assms(2,10) by (auto simp: win_active_upd)
  have ni: "\<not> win_active b i" using assms(3) by (simp add: win_active_def)
  have w: "w_watches ?b ! i = f (w_watches b ! i)" using assms(2) by simp
  have o: "w_watches ?b ! j = w_watches b ! j" if "win_active b j" for j using that ni by (auto simp: win_active_def)
  show own: "own_events ?b = insert e (own_events b)" using a w o ni assms(9) unfolding own_events_def by auto metis+
  have old: "e \<noteq> w_wake_event b" "\<And>j. win_active b j \<Longrightarrow> ww_event (w_watches b ! j) \<noteq> e"
    using assms(1,6) by (auto simp: win_ok_def own_events_def)
  have new: "\<And>j. win_active b j \<Longrightarrow> ww_socket (w_watches b ! j) \<noteq> fd" using assms(4) by (simp add: find_None)
  have each: "0 \<le> ww_socket (w_watches ?b ! j) \<and> ww_event (w_watches ?b ! j) \<noteq> w_wake_event b" if "win_active ?b j" for j
    using that assms(1,5,8,9) a [of j] w o [of j] old(1) unfolding win_ok_def by metis
  have pair: "ww_socket (w_watches ?b ! j) \<noteq> ww_socket (w_watches ?b ! l) \<and> ww_event (w_watches ?b ! j) \<noteq> ww_event (w_watches ?b ! l)"
    if "win_active ?b j" "win_active ?b l" "j \<noteq> l" for j l
    using that assms(1,8,9) a [of j] a [of l] w o [of j] o [of l] old(2) new unfolding win_ok_def by metis
  show "win_ok opened (?b\<lparr>w_kernel := k\<rparr>)"
    using assms(1,7) own each pair unfolding win_ok_def by (auto simp del: win_upd_sel(5))
qed

lemma win_ok_cleared:
  assumes "win_ok opened b" "win_active b i" "opened k = opened (w_kernel b) - {ww_event (w_watches b ! i)}"
  shows "win_ok opened ((win_upd i (\<lambda>_. zero_win_watch) b)\<lparr>w_kernel := k\<rparr>)"
    "own_events (win_upd i (\<lambda>_. zero_win_watch) b) = own_events b - {ww_event (w_watches b ! i)}"
proof -
  let ?b = "win_upd i (\<lambda>_. zero_win_watch) b"
  have i: "i < length (w_watches b)" using assms(2) by (simp add: win_active_def)
  have a: "win_active ?b j \<longleftrightarrow> j \<noteq> i \<and> win_active b j" for j using i by (auto simp: win_active_upd zero_win_watch_def)
  have o: "w_watches ?b ! j = w_watches b ! j" if "win_active b j" "j \<noteq> i" for j using that by (auto simp: win_active_def)
  have d: "w_wake_event b \<noteq> ww_event (w_watches b ! i)" "\<And>j. win_active b j \<Longrightarrow> j \<noteq> i \<Longrightarrow> ww_event (w_watches b ! j) \<noteq> ww_event (w_watches b ! i)"
    using assms(1,2) unfolding win_ok_def by metis+
  show own: "own_events ?b = own_events b - {ww_event (w_watches b ! i)}"
    using a o d unfolding own_events_def by auto metis+
  show "win_ok opened (?b\<lparr>w_kernel := k\<rparr>)"
    using assms(1,3) a o own unfolding win_ok_def by (auto simp del: win_upd_sel(5))
qed

lemma win_ok_unused:
  assumes "win_ok opened b" "i < length (w_watches b)" "\<not> ww_active (w_watches b ! i)" "\<not> ww_active (f (w_watches b ! i))"
  shows "win_ok opened (win_upd i f b)" "own_events (win_upd i f b) = own_events b" "interest (win_upd i f b) = interest b"
proof -
  have "\<not> win_active b i" using assms(3) by (simp add: win_active_def)
  then have a: "win_active (win_upd i f b) j \<longleftrightarrow> win_active b j" for j using assms(2,4) by (auto simp: win_active_upd)
  have o: "w_watches (win_upd i f b) ! j = w_watches b ! j" if "win_active b j" for j using that assms(3) by (auto simp: win_active_def)
  show own: "own_events (win_upd i f b) = own_events b" using a o unfolding own_events_def by auto metis+
  show "win_ok opened (win_upd i f b)" using assms(1) a o own unfolding win_ok_def by (simp del: win_upd_sel(5))
  show "interest (win_upd i f b) = interest b" using assms(2-4) by (simp add: fun_eq_iff interest_other)
qed

lemma winsock_create:
  assumes "winsock_ok K opened selected" "s_create_event K k = (e, k')"
  shows "if e = WSA_INVALID_EVENT then opened k' = opened k else e \<notin> opened k \<and> opened k' = insert e (opened k)"
  using assms(1) [unfolded winsock_ok_def, THEN conjunct1, rule_format, OF assms(2)] by (rule conjunct2)

lemma winsock_close:
  assumes "winsock_ok K opened selected"
  shows "opened (s_close_event K e k) = opened k - {e}" "opened (snd (s_startup K k)) = opened k" "opened (s_cleanup K k) = opened k"
  using assms unfolding winsock_ok_def by simp_all

lemma winsock_select:
  assumes "winsock_ok K opened selected" "s_event_select K s e m k = (rc, k')"
  shows "opened k' = opened k" "selected k' = (if rc = 0 then (selected k)(s := if m = 0 then None else Some (e, m)) else selected k)"
  using assms(1) [unfolded winsock_ok_def, THEN conjunct2, THEN conjunct2, rule_format, OF assms(2)] by (rule conjunct1, rule conjunct2)

section \<open>Registration and removal\<close>

text \<open>Event objects that belong to others.\<close>

definition foreign :: "('k \<Rightarrow> nat set) \<Rightarrow> 'k winback \<Rightarrow> nat set" where
  "foreign opened b = opened (w_kernel b) - own_events b"

lemma select_watch_post:
  fixes events :: u32 and user :: nat
  assumes K: "winsock_ok K opened selected" and ok: "win_ok opened b" and i: "win_active b i"
  defines "fd \<equiv> ww_socket (w_watches b ! i)"
  shows "\<exists>rc b'. select_watch K i events user b = (rc, b') \<and> win_ok opened b' \<and> foreign opened b' = foreign opened b \<and>
    interest b' = (interest b)(fd \<mapsto> (events, user)) \<and> (rc = 0 \<or> rc = -1) \<and>
    (rc = 0 \<longrightarrow> (\<exists>e. event_of b' fd = Some e \<and> selected (w_kernel b') fd = Some (e, network_events events)))"
proof -
  let ?f = "\<lambda>w. w\<lparr>ww_interests := events, ww_user := user\<rparr>" and ?w = "w_watches b ! i"
  let ?b = "win_upd i ?f b"
  have len: "i < length (w_watches b)" and act: "ww_active ?w" using i by (simp_all add: win_active_def)
  obtain rc k where sel: "s_event_select K fd (ww_event ?w) (network_events events) (w_kernel b) = (rc, k)" by fastforce
  have k: "opened k = opened (w_kernel b)"
    "selected k = (if rc = 0 then (selected (w_kernel b))(fd := if network_events events = 0 then None else Some (ww_event ?w, network_events events))
      else selected (w_kernel b))"
    using winsock_select [OF K sel] by simp_all
  have r: "select_watch K i events user b = (if rc \<noteq> 0 then -1 else 0, ?b\<lparr>w_kernel := k\<rparr>)"
    using len sel by (simp add: select_watch_def fd_def Let_def)
  have ok1: "win_ok opened ?b" and own: "own_events ?b = own_events b" using win_ok_settings [OF ok i, of ?f] act by simp_all
  have i1: "win_active ?b i" using len act by (simp add: win_active_def)
  have "interest ?b fd' = interest b fd'" if "fd' \<noteq> fd" for fd' using that len by (intro interest_other) (simp_all add: fd_def)
  moreover have self: "interest ?b fd = Some (events, user)" "event_of ?b fd = Some (ww_event ?w)"
    using interest_self [OF ok1 i1] len by (simp_all add: fd_def)
  ultimately have "interest ?b = (interest b)(fd \<mapsto> (events, user))" by (auto simp: fun_eq_iff)
  moreover have "win_ok opened (?b\<lparr>w_kernel := k\<rparr>)" using win_kernel_ok [OF ok1] k(1) by simp
  moreover have "foreign opened (?b\<lparr>w_kernel := k\<rparr>) = foreign opened b" using k(1) own by (simp add: foreign_def)
  moreover have "network_events events \<noteq> 0"
    by (simp add: network_events_def Let_def FD_CLOSE_def FD_READ_def FD_ACCEPT_def FD_WRITE_def)
  ultimately show ?thesis using r k(2) self(2) by auto
qed

lemma register_post:
  fixes events :: u32 and user :: nat
  assumes K: "winsock_ok K opened selected" and ok: "win_ok opened b" and fd: "0 \<le> fd"
  shows "\<exists>rc b'. win_register K fd events user b = (rc, b') \<and> win_ok opened b' \<and> foreign opened b' = foreign opened b \<and>
    (rc = 0 \<and> interest b' = (interest b)(fd \<mapsto> (events, user)) \<and>
       (\<exists>e. event_of b' fd = Some e \<and> selected (w_kernel b') fd = Some (e, network_events events)) \<or>
     rc = -1 \<and> (interest b' = interest b \<or> interest b' = (interest b)(fd \<mapsto> (events, user))))"
proof -
  have self: "w_self b \<noteq> 0" using ok by (simp add: win_ok_def)
  show ?thesis
  proof (cases "win_find_watch fd b")
    case (Some i)
    then have i: "win_active b i" "ww_socket (w_watches b ! i) = fd" using find_Some by auto
    then show ?thesis using select_watch_post [OF K ok i(1), of events user] self fd Some by (auto simp: win_register_def)
  next
    case none: None
    show ?thesis
    proof (cases "alloc_watch b")
      case None
      then show ?thesis using ok self fd none by (simp add: win_register_def)
    next
      case (Some i)
      then have i: "i < length (w_watches b)" "\<not> ww_active (w_watches b ! i)" using first_index_Some by (fastforce simp: alloc_watch_def)+
      obtain e k where e: "s_create_event K (w_kernel b) = (e, k)" by fastforce
      note k = winsock_create [OF K e]
      let ?b1 = "(win_upd i (\<lambda>w. w\<lparr>ww_event := e\<rparr>) b)\<lparr>w_kernel := k\<rparr>"
      show ?thesis
      proof (cases "e = WSA_INVALID_EVENT")
        case True
        then have "win_register K fd events user b = (-1, ?b1)" using self fd none Some e by (simp add: win_register_def)
        moreover note u = win_ok_unused [OF ok i, of "\<lambda>w. w\<lparr>ww_event := e\<rparr>"]
        moreover have "win_ok opened ?b1" using win_kernel_ok [OF u(1)] i(2) k True by simp
        ultimately show ?thesis using i(2) k True by (simp add: foreign_def)
      next
        case False
        let ?f = "\<lambda>w. w\<lparr>ww_event := e, ww_socket := fd, ww_active := True\<rparr>"
        let ?b2 = "(win_upd i ?f b)\<lparr>w_kernel := k\<rparr>"
        have b2: "win_upd i (\<lambda>w. w\<lparr>ww_socket := fd, ww_active := True\<rparr>) ?b1 = ?b2" using i(1) by (simp add: win_upd_def)
        have r: "win_register K fd events user b = select_watch K i events user ?b2"
          using self fd none Some e False unfolding b2 [symmetric] by (simp add: win_register_def)
        have ok2: "win_ok opened ?b2" "own_events (win_upd i ?f b) = insert e (own_events b)"
          using win_ok_added [OF ok i none fd, of e k ?f] k False by simp_all
        have i2: "win_active ?b2 i" "ww_socket (w_watches ?b2 ! i) = fd" using i(1) by (simp_all add: win_active_upd)
        have "interest ?b2 fd' = interest b fd'" if "fd' \<noteq> fd" for fd' using that i by (simp add: interest_other)
        then have "(interest ?b2)(fd \<mapsto> (events, user)) = (interest b)(fd \<mapsto> (events, user))" by (auto simp: fun_eq_iff)
        moreover have "foreign opened ?b2 = foreign opened b" using k False ok2(2) by (auto simp: foreign_def)
        ultimately show ?thesis using select_watch_post [OF K ok2(1) i2(1), of events user] i2(2) unfolding r by auto
      qed
    qed
  qed
qed

lemma remove_post:
  assumes K: "winsock_ok K opened selected" and ok: "win_ok opened b" and fd: "0 \<le> fd"
  shows "\<exists>b'. win_remove K fd b = (0, b') \<and> win_ok opened b' \<and> foreign opened b' = foreign opened b \<and> interest b' = (interest b)(fd := None)"
proof -
  have self: "w_self b \<noteq> 0" using ok by (simp add: win_ok_def)
  show ?thesis
  proof (cases "win_find_watch fd b")
    case None
    then have "interest b fd = None" by (simp add: interest_def)
    then show ?thesis using None ok self fd by (auto simp: win_remove_def)
  next
    case (Some i)
    let ?w = "w_watches b ! i" and ?b = "win_upd i (\<lambda>_. zero_win_watch) b"
    have i: "win_active b i" "ww_socket ?w = fd" "i < length (w_watches b)" using find_Some [OF Some] by (simp_all add: win_active_def)
    obtain rc k where sel: "s_event_select K (ww_socket ?w) 0 0 (w_kernel b) = (rc, k)" by fastforce
    let ?k = "s_close_event K (ww_event ?w) k"
    have k: "opened ?k = opened (w_kernel b) - {ww_event ?w}" using winsock_select(1) [OF K sel] winsock_close(1) [OF K] by simp
    note c = win_ok_cleared [OF ok i(1) k]
    have r: "win_remove K fd b = (0, ?b\<lparr>w_kernel := ?k\<rparr>)" using self fd Some sel by (simp add: win_remove_def)
    have f: "foreign opened (?b\<lparr>w_kernel := ?k\<rparr>) = foreign opened b"
      using k c(2) i(1) by (auto simp: foreign_def own_events_def)
    have "interest ?b fd' = interest b fd'" if "fd' \<noteq> fd" for fd'
      using that i(2,3) by (intro interest_other) (simp_all add: zero_win_watch_def)
    moreover have "interest ?b fd = None"
    proof -
      have "win_find_watch fd ?b = None" unfolding find_None
      proof (intro allI impI)
        fix j assume j: "win_active ?b j"
        then have "j \<noteq> i" "win_active b j" "w_watches ?b ! j = w_watches b ! j" using i(3)
          by (auto simp: win_active_upd zero_win_watch_def win_active_def split: if_splits)
        then show "ww_socket (w_watches ?b ! j) \<noteq> fd" using win_ok_unique [OF ok i(1), of j] i(2) by auto
      qed
      then show ?thesis by (simp add: interest_def)
    qed
    ultimately have "interest ?b = (interest b)(fd := None)" by (auto simp: fun_eq_iff)
    then show ?thesis using r c(1) f by simp
  qed
qed

section \<open>Creation and destruction leave nothing behind\<close>

lemma close_watches_post:
  assumes "winsock_ok K opened selected"
  shows "opened (close_watches K ws k) = opened k - {ww_event w | w. w \<in> set ws \<and> ww_active w}"
proof (induction ws arbitrary: k)
  case Nil
  then show ?case by simp
next
  case (Cons w ws)
  obtain rc k' where sel: "s_event_select K (ww_socket w) 0 0 k = (rc, k')" by fastforce
  show ?case using Cons winsock_select(1) [OF assms sel] winsock_close(1) [OF assms] sel by auto
qed

lemma own_events_set: "own_events b = insert (w_wake_event b) {ww_event w | w. w \<in> set (w_watches b) \<and> ww_active w}"
  unfolding own_events_def win_active_def by (auto simp: in_set_conv_nth)

context library_memory
begin

lemma win_destroy_post:
  assumes K: "winsock_ok K opened selected" and "w_self b \<noteq> 0" "heap_owns {w_self b} h0 h"
    and wake: "w_wake_event b = WSA_INVALID_EVENT \<longrightarrow> WSA_INVALID_EVENT \<notin> opened (w_kernel b)"
  shows "\<exists>k' h'. win_destroy K g b h = Some (k', h') \<and> opened k' = foreign opened b \<and> heap_owns {} h0 h'"
proof -
  obtain h' where h: "wirecall_mem_free g (w_self b) h = Some h'" "heap_owns {} h0 h'"
    using free_owned [OF assms(3), of "w_self b"] by auto
  have "opened (close_watches K (w_watches b) (w_kernel b)) - {w_wake_event b} = foreign opened b"
    by (auto simp: close_watches_post [OF K] foreign_def own_events_set)
  then show ?thesis
    using assms(2) h wake winsock_close [OF K] by (auto simp: win_destroy_def Let_def close_watches_post [OF K])
qed

lemma win_create_post:
  assumes K: "winsock_ok K opened selected" and h: "heap_ok h" and inv: "WSA_INVALID_EVENT \<notin> opened k"
  shows "\<exists>rc r h'. win_create K g h k = Some (rc, r, h') \<and>
    (case r of Inl k' \<Rightarrow> rc = -1 \<and> opened k' = opened k \<and> heap_owns {} h h'
     | Inr b \<Rightarrow> rc = 0 \<and> win_ok opened b \<and> interest b = Map.empty \<and> foreign opened b = opened k \<and> heap_owns {w_self b} h h')"
proof -
  have sz: "0 < sizeof_winback" "sizeof_winback \<le> SIZE_MAX" by (simp_all add: sizeof_winback_def SIZE_MAX_def)
  from h sz show ?thesis
  proof (cases rule: calloc_cases)
    case (fail h')
    then show ?thesis by (simp add: win_create_def)
  next
    case (fresh p h')
    obtain rc k1 where up: "s_startup K k = (rc, k1)" by fastforce
    obtain e k2 where ev: "s_create_event K k1 = (e, k2)" by fastforce
    have k1: "opened k1 = opened k" using winsock_close(2) [OF K, of k] up by simp
    note k2 = winsock_create [OF K ev]
    let ?b = "\<lparr>w_self = p, w_wake_event = e, w_watches = replicate WIRECALL_WINDOWS_MAX_WATCHES zero_win_watch, w_wsa_ready = True, w_kernel = k2\<rparr>"
    have own: "\<not> win_active ?b i" "own_events ?b = {e}" for i by (auto simp: own_events_def win_active_def zero_win_watch_def)
    consider "rc \<noteq> 0" | "rc = 0" "e = WSA_INVALID_EVENT" | "rc = 0" "e \<noteq> WSA_INVALID_EVENT" by blast
    then show ?thesis
    proof cases
      case 1
      obtain h2 where "wirecall_mem_free g p h' = Some h2" "heap_owns {} h h2" using free_owned [OF fresh(3), of p] by auto
      then show ?thesis using 1 fresh(1,2) up k1 by (simp add: win_create_def)
    next
      case 2
      obtain k3 h2 where "win_destroy K g ?b h' = Some (k3, h2)" "opened k3 = foreign opened ?b" "heap_owns {} h h2"
        using win_destroy_post [OF K, of ?b h h'] fresh(2,3) 2 k1 k2 inv by auto
      then show ?thesis using 2 fresh(1,2) up ev k1 k2 inv own(2) by (simp add: win_create_def foreign_def)
    next
      case 3
      have "interest ?b fd = None" for fd using find_None [of fd ?b] own(1) by (auto simp: interest_def)
      then have "interest ?b = Map.empty" by (auto simp: fun_eq_iff)
      moreover have "win_ok opened ?b" using fresh(2) own 3 k2 by (simp add: win_ok_def)
      ultimately show ?thesis using 3 fresh up ev k1 k2 own(2) by (simp add: win_create_def foreign_def)
    qed
  qed
qed

end

section \<open>What polling can report\<close>

lemma win_event_from:
  assumes "win_event K w b = (evs, b')" "e \<in> set evs"
  shows "ev_fd e = ww_socket w \<and> ev_user e = ww_user w"
  using assms by (auto simp: win_event_def Let_def split: prod.splits option.splits if_splits)

lemma scan_handles_full: "\<not> length out < n \<Longrightarrow> scan_handles K n hs out b = (out, b)"
  by (cases hs) auto

lemma scan_handles_from:
  assumes "scan_handles K n hs out b = (out', b')" "e \<in> set out'"
  shows "e \<in> set out \<or> ev_fd e = -1 \<or> (\<exists>h w. (h, Some w) \<in> set hs \<and> ev_fd e = ww_socket w \<and> ev_user e = ww_user w)"
  using assms
proof (induction K n hs out b rule: scan_handles.induct)
  case (1 K n out b)
  then show ?case by simp
next
  case (2 K n h x hs out b)
  obtain r k where r: "s_wait K [h] True 0 (w_kernel b) = (r, k)" by fastforce
  let ?b = "b\<lparr>w_kernel := k\<rparr>"
  consider "\<not> length out < n" | "length out < n" "r \<noteq> WSA_WAIT_EVENT_0" | "length out < n" "r = WSA_WAIT_EVENT_0" "x = None"
    | w where "length out < n" "r = WSA_WAIT_EVENT_0" "x = Some w" by (cases x) auto
  then show ?case
  proof cases
    case 1
    then show ?thesis using "2.prems" by simp
  next
    case 2
    then show ?thesis using "2.prems" "2.IH"(1) [OF 2(1) r [symmetric] refl refl 2(2)] r by auto
  next
    case 3
    then show ?thesis using "2.prems" "2.IH"(2) [OF 3(1) r [symmetric] refl refl] r by auto
  next
    case (4 w)
    obtain evs b1 where ev: "win_event K w ?b = (evs, b1)" by fastforce
    show ?thesis using "2.prems" "2.IH"(3) [OF 4(1) r [symmetric] refl refl _ 4(3) ev [symmetric] refl] r 4 ev win_event_from [OF ev, of e] by auto
  qed
qed

lemma wait_for_active:
  assumes "count \<le> MAXIMUM_WAIT_OBJECTS"
  shows "wait_for count ws = map (\<lambda>w. (ww_event w, w)) (take (MAXIMUM_WAIT_OBJECTS - count) (filter ww_active ws))"
  using assms by (induction count ws rule: wait_for.induct) (auto simp: take_Suc_conv_app_nth Suc_diff_Suc [symmetric])

lemma win_poll_from:
  assumes "e \<in> set (fst (snd (win_poll K max_events timeout_ms b)))"
  shows "ev_fd e = -1 \<or> (\<exists>w \<in> set (take 63 (filter ww_active (w_watches b))). ev_fd e = ww_socket w \<and> ev_user e = ww_user w)"
proof -
  let ?hs = "(w_wake_event b, None) # map (\<lambda>(h, w). (h, Some w)) (wait_for 1 (w_watches b))"
  have "\<exists>n i k b2. scan_handles K n (drop i ?hs) [] (b\<lparr>w_kernel := k\<rparr>) = (fst (snd (win_poll K max_events timeout_ms b)), b2)"
    using assms by (auto simp: win_poll_def Let_def split: if_splits prod.splits)
  then obtain n i k b2 where hs: "scan_handles K n (drop i ?hs) [] (b\<lparr>w_kernel := k\<rparr>) = (fst (snd (win_poll K max_events timeout_ms b)), b2)" by blast
  have sub: "set (drop i ?hs) \<subseteq> set ?hs" by (rule set_drop_subset)
  have "wait_for 1 (w_watches b) = map (\<lambda>w. (ww_event w, w)) (take 63 (filter ww_active (w_watches b)))"
    using wait_for_active [of 1 "w_watches b"] by (simp add: MAXIMUM_WAIT_OBJECTS_def)
  then show ?thesis using scan_handles_from [OF hs assms] sub by auto
qed

section \<open>The properties\<close>

text \<open>A Winsock that hands out event objects in order and selects as it is told, and a backend with a full table.\<close>

definition plain_winsock :: "(nat \<times> nat set \<times> (int \<Rightarrow> (nat \<times> u32) option)) winsock" where
  "plain_winsock = \<lparr>s_startup = (\<lambda>k. (0, k)), s_cleanup = (\<lambda>k. k),
     s_create_event = (\<lambda>(n, E, S). if n = 0 \<or> n \<in> E then (0, (n, E, S)) else (n, (n + 1, insert n E, S))),
     s_close_event = (\<lambda>e (n, E, S). (n, E - {e}, S)), s_set_event = (\<lambda>e k. (True, k)), s_reset_event = (\<lambda>e k. k),
     s_event_select = (\<lambda>s e m (n, E, S). (0, (n, E, S(s := if m = 0 then None else Some (e, m))))),
     s_wait = (\<lambda>hs all t k. (0, k)), s_enum = (\<lambda>s e k. (Some (FD_READ), k))\<rparr>"

lemma plain_winsock_ok: "winsock_ok plain_winsock (\<lambda>k. fst (snd k)) (\<lambda>k. snd (snd k))"
  by (auto simp: winsock_ok_def plain_winsock_def WSA_INVALID_EVENT_def split: if_splits prod.splits)

definition full_table :: "(nat \<times> nat set \<times> (int \<Rightarrow> (nat \<times> u32) option)) winback" where
  "full_table = \<lparr>w_self = 1, w_wake_event = 1,
     w_watches = map (\<lambda>i. \<lparr>ww_socket = int i, ww_event = i + 2, ww_interests = WIRECALL_BACKEND_READ, ww_user = i, ww_active = True\<rparr>)
       [0..<WIRECALL_WINDOWS_MAX_WATCHES], w_wsa_ready = True,
     w_kernel = (WIRECALL_WINDOWS_MAX_WATCHES + 2, {1..<WIRECALL_WINDOWS_MAX_WATCHES + 2}, Map.empty)\<rparr>"

lemma full_table_ok: "win_ok (\<lambda>k. fst (snd k)) full_table"
  by (auto simp: win_ok_def full_table_def win_active_def own_events_def WIRECALL_WINDOWS_MAX_WATCHES_def)

text \<open>
  C18: The table of watches is well formed at every moment, and nothing leaks.  Creating the Windows backend gives an empty table or, when memory or
  Winsock fails, leaves no block and no event object behind.  Whatever calls of Winsock fail, registering a descriptor keeps the table in order: one
  watch for a socket and an event object of its own, which exists, for every watch; it has the interest that was asked for when it succeeds, and then
  Winsock signals the event object of this watch for the network events of that interest.  Removing a descriptor removes its interest and no other.
  Destroying the backend closes all event objects of the table and frees the backend.
\<close>

theorem winsock_table_kept:
  assumes "winsock_ok K opened selected" "heap_ok h0" "WSA_INVALID_EVENT \<notin> opened k" "win_ok opened b" "WSA_INVALID_EVENT \<notin> opened (w_kernel b)"
    "0 \<le> fd" "heap_owns {w_self b} h1 h"
  shows "(\<exists>rc r h'. win_create K no_allocator h0 k = Some (rc, r, h') \<and>
      (case r of Inl k' \<Rightarrow> rc = -1 \<and> opened k' = opened k \<and> heap_owns {} h0 h'
       | Inr b \<Rightarrow> rc = 0 \<and> win_ok opened b \<and> interest b = Map.empty \<and> foreign opened b = opened k \<and> heap_owns {w_self b} h0 h')) \<and>
    (\<exists>rc b'. win_register K fd events user b = (rc, b') \<and> win_ok opened b' \<and> foreign opened b' = foreign opened b \<and>
      (rc = 0 \<and> interest b' = (interest b)(fd \<mapsto> (events, user)) \<and>
         (\<exists>e. event_of b' fd = Some e \<and> selected (w_kernel b') fd = Some (e, network_events events)) \<or>
       rc = -1 \<and> (interest b' = interest b \<or> interest b' = (interest b)(fd \<mapsto> (events, user))))) \<and>
    (\<exists>b'. win_remove K fd b = (0, b') \<and> win_ok opened b' \<and> foreign opened b' = foreign opened b \<and> interest b' = (interest b)(fd := None)) \<and>
    (\<exists>k' h'. win_destroy K no_allocator b h = Some (k', h') \<and> opened k' = foreign opened b \<and> heap_owns {} h1 h')"
proof (intro conjI)
  show "\<exists>rc r h'. win_create K no_allocator h0 k = Some (rc, r, h') \<and>
      (case r of Inl k' \<Rightarrow> rc = -1 \<and> opened k' = opened k \<and> heap_owns {} h0 h'
       | Inr b \<Rightarrow> rc = 0 \<and> win_ok opened b \<and> interest b = Map.empty \<and> foreign opened b = opened k \<and> heap_owns {w_self b} h0 h')"
    by (rule plain_memory.win_create_post [OF assms(1-3)])
  show "\<exists>k' h'. win_destroy K no_allocator b h = Some (k', h') \<and> opened k' = foreign opened b \<and> heap_owns {} h1 h'"
    using plain_memory.win_destroy_post [OF assms(1) _ assms(7)] assms(4,5) by (simp add: win_ok_def)
qed (rule register_post [OF assms(1,4,6)] remove_post [OF assms(1,4,6)])+

theorem winsock_table_kept_witness:
  "\<exists>b1. win_remove plain_winsock 70 full_table = (0, b1) \<and> win_ok (\<lambda>k. fst (snd k)) b1 \<and> interest b1 70 = None \<and> interest b1 71 = interest full_table 71"
proof -
  let ?h = "heap0\<lparr>hp_size := [1 \<mapsto> 41384], hp_next := 2\<rparr>" and ?k = "(1, {}, Map.empty) :: nat \<times> nat set \<times> (int \<Rightarrow> (nat \<times> u32) option)"
  have h: "heap_ok heap0" "heap_owns {w_self full_table} heap0 ?h"
    by (auto simp: heap_ok_def heap0_def heap_owns_def live_def heap_keep_def full_table_def)
  have e: "WSA_INVALID_EVENT \<notin> (\<lambda>k. fst (snd k)) ?k" "WSA_INVALID_EVENT \<notin> (\<lambda>k. fst (snd k)) (w_kernel full_table)"
    by (simp_all add: WSA_INVALID_EVENT_def full_table_def)
  have "(0 :: int) \<le> 70" by simp
  note t = winsock_table_kept [OF plain_winsock_ok h(1) e(1) full_table_ok e(2) this h(2), THEN conjunct2, THEN conjunct2, THEN conjunct1]
  then obtain b1 where b1: "win_remove plain_winsock 70 full_table = (0, b1)" "win_ok (\<lambda>k. fst (snd k)) b1"
    "interest b1 = (interest full_table)(70 := None)" by blast
  show ?thesis by (intro exI [of _ b1] conjI) (simp_all add: b1)
qed

text \<open>
  C30: At most 63 watches are ever polled.  The table has room for 1024 watches, but one wait takes 64 handles and the first is for wake-ups.  A
  watch with 63 active watches before it is never waited for: whatever Winsock does, no call of \<open>wirecall_backend_poll\<close> reports an event of its
  socket, although its registration has succeeded.
\<close>

theorem winsock_watch_unpolled:
  assumes "win_ok opened b" "win_active b i" "63 \<le> length (filter ww_active (take i (w_watches b)))" "e \<in> set (fst (snd (win_poll K max_events timeout_ms b)))"
  shows "ev_fd e \<noteq> ww_socket (w_watches b ! i)"
proof
  assume e: "ev_fd e = ww_socket (w_watches b ! i)"
  have "0 \<le> ww_socket (w_watches b ! i)" using assms(1,2) unfolding win_ok_def by blast
  then obtain w where w: "w \<in> set (take 63 (filter ww_active (w_watches b)))" "ww_socket w = ww_socket (w_watches b ! i)"
    using win_poll_from [OF assms(4)] e by auto
  have "filter ww_active (w_watches b) = filter ww_active (take i (w_watches b)) @ filter ww_active (drop i (w_watches b))"
    by (simp flip: filter_append)
  then have "w \<in> set (take i (w_watches b))" "ww_active w" using w(1) assms(3) by (auto dest: in_set_takeD)
  then obtain j where "j < i" "win_active b j" "w = w_watches b ! j" by (auto simp: in_set_conv_nth win_active_def)
  then show False using win_ok_unique [OF assms(1,2), of j] w(2) by simp
qed

theorem winsock_watch_unpolled_witness:
  "ev_fd (hd (fst (snd (win_poll plain_winsock 1 0 full_table)))) \<noteq> ww_socket (w_watches full_table ! 63)"
proof (rule winsock_watch_unpolled [OF full_table_ok])
  show "win_active full_table 63" by (simp add: win_active_def full_table_def WIRECALL_WINDOWS_MAX_WATCHES_def)
  have "filter ww_active (take 63 (w_watches full_table)) = take 63 (w_watches full_table)"
    by (intro filter_True) (auto simp: full_table_def dest!: in_set_takeD)
  then show "63 \<le> length (filter ww_active (take 63 (w_watches full_table)))" by (simp add: full_table_def WIRECALL_WINDOWS_MAX_WATCHES_def)
  show "hd (fst (snd (win_poll plain_winsock 1 0 full_table))) \<in> set (fst (snd (win_poll plain_winsock 1 0 full_table)))"
    by (simp add: win_poll_def plain_winsock_def full_table_def WSA_WAIT_EVENT_0_def WSA_WAIT_TIMEOUT_def WSA_WAIT_FAILED_def scan_handles_full)
qed

end
