(* ===== verification/Spec2Isabelle.thy ===== *)
theory Spec2Isabelle
  imports Packet Payload_Decoder Arena Minicoro Routes_Concurrent Scheduler_Calls Server_Api Server_Stream Trace Uring Kqueue Winsock
begin

text \<open>
  Verification of wirecall, a library for remote procedure calls in C.  File names below are relative to the root of the repository.

  \<^bold>\<open>The program.\<close>  A client writes arguments into a payload, signs a packet of a header and this payload and sends it over a stream socket.  A
  server has worker threads, each with an event loop over a backend of the operating system.  A worker collects the bytes of a connection in a
  buffer, cuts packets from it, verifies them and looks the procedure up in a table that all threads share.  A procedure runs at once, as a coroutine
  in the scheduler of the worker, or it answers later from any thread.  Responses are queued in a write buffer and sent when the socket takes them.
  The client decodes the response that has the id of its call.

  \<^bold>\<open>How C is modelled.\<close>  Fixed-width integers are words and \<open>size_t\<close> is a natural number with its overflow written out.  Structures are records.
  Pointers are natural numbers and \<open>0\<close> is null.  The result of an operation that can reach undefined behaviour is an option; \<open>None\<close> is undefined
  behaviour, and also a loop that does not end, since such loops are partial functions.  A theorem that an operation returns \<open>Some\<close> therefore says that it
  ends and stays inside its objects.  Error codes are \<open>0\<close> and \<open>-1\<close> as in the code.  System calls, procedures and the kernel are arguments
  (records of functions on a state of their own), and what is relied on of them is a named predicate, such as \<open>recv_stream\<close>, \<open>handlers_ok\<close> or \<open>kernel_ok\<close>,
  for which an instance is given.  Calls of the tracing functions are left out where other components make them.

  \<^bold>\<open>The theories.\<close>
  \<^item> \<open>Prelude\<close>: integer types, checked accesses to byte lists, common lemmas.
  \<^item> \<open>Protocol\<close>, \<open>Integrity\<close>, \<open>Packet\<close>: \<^verbatim>\<open>include/wirecall/protocol.h\<close> and \<^verbatim>\<open>src/protocol.c\<close>.  The header codec accepts exactly the valid headers and is inverse to
    encoding; a signed packet verifies; the MAC is SipHash-2-4, equal to a reference definition.  The checksum depends on the byte order of the
    host, which is a parameter; a theorem says which packets hosts of different byte order accept from each other.
  \<^item> \<open>Memory\<close>: \<^verbatim>\<open>src/memory.c\<close>, a heap of blocks in which any allocation may fail, and the counting allocator of \<^verbatim>\<open>demos/embed.c\<close>.  The locales \<open>mem_contract\<close> and
    \<open>library_memory\<close> state what clients rely on; both allocators are instances.
  \<^item> \<open>Payload\<close>, \<open>Payload_Spec\<close>, \<open>Payload_Writer\<close>, \<open>Payload_Decoder\<close>: \<^verbatim>\<open>src/payload.c\<close> against a grammar of values.  The decoder accepts exactly this
    grammar, is safe on every input, and frees what it has allocated.
  \<^item> \<open>Arena\<close>: \<^verbatim>\<open>include/arena.h\<close>, slots linked through their own memory, as a set of disjoint slots (locale \<open>slot_allocator\<close>).
  \<^item> \<open>Minicoro\<close>: the portable part of \<^verbatim>\<open>include/minicoro.h\<close>: layout, states as a step relation, storage.
  \<^item> \<open>Routes\<close>, \<open>Routes_Table\<close>, \<open>Routes_Concurrent\<close>: \<^verbatim>\<open>src/routes.c\<close>.  One thread after the other, the table is a map with finalizers (locale
    \<open>table_contract\<close>); with readers that take no lock, interleaved at the atomic accesses, no lookup reads freed memory.  Two theorems show
    what goes wrong without the order of the accesses, and when the old chain cannot be retired.
  \<^item> \<open>Scheduler\<close>, \<open>Scheduler_Inv\<close>, \<open>Scheduler_Run\<close>, \<open>Scheduler_Calls\<close>: \<^verbatim>\<open>src/scheduler.c\<close>.  The ready list is a queue (locale \<open>fifo\<close>); every call that is taken is
    completed once and leaves nothing behind.
  \<^item> \<open>Platform\<close>: the POSIX half of \<^verbatim>\<open>include/platform.h\<close> and growing buffers.
  \<^item> \<open>Framing\<close>: packets in a stream of bytes, the specification for both ends.
  \<^item> \<open>Client\<close>, \<open>Client_Inv\<close>, \<open>Client_Calls\<close>: \<^verbatim>\<open>src/client.c\<close>.  Packets arrive as they were sent, however the stream is cut; no server makes the client misbehave;
    sockets and memory are given back.
  \<^item> \<open>Server\<close>, \<open>Server_Worker\<close>, \<open>Server_Api\<close>: \<^verbatim>\<open>src/server.c\<close>.  \<open>Server_Inv\<close>, \<open>Server_Calls\<close> and \<open>Server_Stream\<close> show that a connection answers every packet once and in order,
    as a specification says, that no client makes it misbehave, and that the queue is sent in order.  The first two are about packets that are answered at
    once; calls of deferred and asynchronous procedures are modelled, but only the scheduler's part of them has theorems.
  \<^item> \<open>Trace\<close>: \<^verbatim>\<open>src/trace.c\<close>, with updates as interleaved atomic steps.
  \<^item> \<open>Uring\<close>, \<open>Kqueue\<close>, \<open>Winsock\<close>: the three event backends under \<^verbatim>\<open>src/backend\<close>.  Each has the interest that was asked for; two theorems show where the
    io_uring and the Windows backend fail.
  \<^item> This theory: a call from client to server and back.

  \<^bold>\<open>Bounds.\<close>  No theorem bounds the number of packets, calls or steps.  Loops over a socket end because the operating system, by hypothesis, interrupts a call
  only finitely often in a row (\<open>patience\<close>).  Ring positions of io_uring wrap around at 32 bits; registration needs two free entries.  Hypotheses
  that no allocation fails (\<open>never_fails\<close>) occur only where a theorem promises success; safety holds for every pattern of failures.

  \<^bold>\<open>Not modelled.\<close>  The context switches of \<^verbatim>\<open>include/minicoro.h\<close>, which are assembly or calls of the system; the Windows half of the platform layer, thin wrappers; mutexes
  and threads of the server, whose effects between two polls are an argument of \<open>worker_run\<close>; the mapping of the rings in \<open>map_rings\<close>; the report of \<^verbatim>\<open>src/trace.c\<close>, which only
  prints; the release of address lists to the resolver; demos, apart from the allocator, and tests.  The definitions of \<open>Server_Worker\<close> and \<open>Server_Api\<close> are complete, but the theorems are about
  connections; whole runs of a worker have defects, recorded in the findings, that keep such a theorem from holding without further hypotheses.
\<close>

section \<open>A call from end to end\<close>

text \<open>The client's half of a call: the request goes out under a new id, and an answer that waits is decoded.\<close>

lemma request_sent:
  assumes "send_ok os (c_fd cl) outbox patience True" "client_ok cl h" "0 \<le> c_fd cl" "payload_inv args h"
  shows "\<exists>n' header. client_send_call_id os be proc_id args True (Some cl) h n =
      Some (0, Some (c_next_call_id cl), Some (cl\<lparr>c_next_call_id := c_next_call_id cl + 1\<rparr>), n') \<and>
    outbox n' = outbox n @ header_bytes header @ payload_of args h \<and>
    wire_packet be (c_integrity cl) (c_mac_key cl) WIRECALL_OP_RPC proc_id (c_next_call_id cl) (payload_of args h) header"
proof -
  let ?c = "cl\<lparr>c_next_call_id := c_next_call_id cl + 1\<rparr>"
  have key: "send_ok os (c_fd ?c) outbox patience True" "length (c_mac_key ?c) = 16" using assms(1,2) by (simp_all add: client_ok_def)
  obtain n' header where s: "send_packet os be WIRECALL_OP_RPC proc_id (c_next_call_id cl) args ?c h n = Some (0, ?c, n')"
    "outbox n' = outbox n @ header_bytes header @ payload_of args h"
    "sent_packet be ?c WIRECALL_OP_RPC proc_id (c_next_call_id cl) (payload_of args h) header"
    using send_packet_post [OF key _ assms(4), of WIRECALL_OP_RPC be proc_id "c_next_call_id cl" n] by auto
  then have "wire_packet be (c_integrity cl) (c_mac_key cl) WIRECALL_OP_RPC proc_id (c_next_call_id cl) (payload_of args h) header"
    by (simp add: sent_packet_def wire_packet_def client_cut_def)
  then show ?thesis using s(1,2) assms(3) by (auto simp: client_send_call_id_def Let_def)
qed

lemma response_received:
  assumes "client_ok cl h" "never_fails h" "recv_ok os (c_fd cl) inbox patience" "0 \<le> c_fd cl" "client_view cl h = []"
    and "wire_packet be (c_integrity cl) (c_mac_key cl) WIRECALL_OP_RESPONSE proc_id call_id (encode_payload pvs) header" "list_all value_fits pvs"
    and "inbox n = header_bytes header @ encode_payload pvs"
  shows "\<exists>arr argc cl' h' n' h1 cap vals. wirecall_client_recv_response os be no_allocator True True True (Some cl) h n =
      Some (0, call_id, arr, argc, Some cl', h', n') \<and> client_ok cl' h' \<and> decoded h1 (fst arr) (snd arr) argc cap vals pvs h'"
proof -
  let ?p = "encode_payload pvs"
  have cut: "client_cut be cl (header_bytes header @ ?p @ rest) = Packet header ?p rest" for rest
    using assms(6) by (simp add: wire_packet_def client_cut_def)
  have hd: "h_op header = WIRECALL_OP_RESPONSE" "h_call_id header = call_id" using assms(6) by (simp_all add: wire_packet_def)
  have parse: "parse_payload ?p = Some pvs" using assms(7) by (rule parse_encode_payload)
  obtain rc cid arr argc cl' h' n' where r: "wirecall_client_recv_response os be no_allocator True True True (Some cl) h n =
      Some (rc, cid, arr, argc, Some cl', h', n')" "response_post never_fails inbox be cl h n rc cid arr argc cl' h' n'"
    using plain_memory.recv_response_post [OF assms(1,3,4)] by blast
  have got: "client_cut be cl (client_view cl h @ inbox n) = Packet header ?p []" using cut [of "[]"] assms(5,8) by simp
  obtain h1 extra header' q cap vals pvs' where d: "rc = 0" "client_cut be cl (client_view cl h @ inbox n @ extra) = Packet header' q (client_view cl' h' @ inbox n')"
    "cid = h_call_id header'" "parse_payload q = Some pvs'" "decoded h1 (fst arr) (snd arr) argc cap vals pvs' h'"
    using r(2) got hd parse assms(2) unfolding response_post_def by blast
  have "client_cut be cl (client_view cl h @ inbox n @ extra) = Packet header ?p extra" using cut assms(5,8) by simp
  then have "header' = header" "q = ?p" using d(2) by simp_all
  then have "cid = call_id" "pvs' = pvs" using d(3,4) hd parse by simp_all
  moreover have "client_ok cl' h'" using r(2) by (simp add: response_post_def)
  ultimately show ?thesis using r(1) d(1,5) by blast
qed

text \<open>The server's half: one request that waits on an idle connection.\<close>

lemma request_answered:
  assumes E: "e_g E = no_allocator" "handlers_ok never_fails (\<lambda>n. (inbox n, patience n)) serve E" "recv_stream (e_os E) (cn_fd c) inbox patience"
    and s: "serving A m h0 p c s" "never_fails (s_heap s)" "\<not> cn_closing c" "cn_read_len c = 0" "cn_write_len c = 0"
    and r: "m proc_id = Some r" "\<not> rt_is_deferred r" "\<not> rt_is_async r" "serve (rt_handler r) (rt_user_data r) vs = Some results"
    and q: "wire_packet (e_be E) (sv_integrity (s_world s)) (sv_mac_key (s_world s)) WIRECALL_OP_RPC proc_id call_id (encode_payload vs) header"
      "list_all value_fits vs" "inbox (sv_net (s_world s)) = header_bytes header @ encode_payload vs"
  shows "\<exists>s' c' reply. connection_read E p s = Some s' \<and> serving A m h0 p c' s' \<and> cn_fd c' = cn_fd c \<and>
    conn_out c' (s_heap s') = header_bytes reply @ encode_payload results \<and>
    wire_packet (e_be E) (sv_integrity (s_world s)) (sv_mac_key (s_world s)) WIRECALL_OP_RESPONSE proc_id call_id (encode_payload results) reply"
proof -
  let ?p = "encode_payload vs"
  have bytes: "conn_in c (s_heap s) = []" "conn_out c (s_heap s) = []" using s(4,5) by (simp_all add: conn_in_def conn_out_def buf_view_def)
  have hd: "h_op header = WIRECALL_OP_RPC" "h_proc_id header = proc_id" "h_call_id header = call_id" "length ?p = unat (h_size header)"
    using q(1) by (simp_all add: wire_packet_def)
  have cut: "cut_packet (e_be E) (sv_integrity (s_world s)) (sv_mac_key (s_world s)) (header_bytes header @ ?p @ []) = Packet header ?p []"
    using q(1) unfolding wire_packet_def by blast
  then have lp: "length ?p \<le> WIRECALL_MAX_PAYLOAD_SIZE" by (rule cut_packet_PacketD)
  have pk: "packets (e_be E) (sv_integrity (s_world s)) (sv_mac_key (s_world s)) (conn_in c (s_heap s) @ inbox (sv_net (s_world s))) =
      ([(header, ?p)], [], False)"
    using packets_wire [OF q(1)] bytes(1) q(3) by simp
  have sh: "cut_packet (e_be E) (sv_integrity (s_world s)) (sv_mac_key (s_world s)) (conn_in c (s_heap s)) = Short"
    by (simp add: bytes cut_packet_def WIRECALL_HEADER_SIZE_def)
  have room: "read_room (length (inbox (sv_net (s_world s)))) c" "conn_room (length [(header, ?p)]) c"
    using lp s(4,5) unfolding q(3) by (simp_all add: read_room_def conn_room_def SIZE_MAX_def WIRECALL_READ_CHUNK_def WIRECALL_HEADER_SIZE_def
        WIRECALL_MAX_PAYLOAD_SIZE_def)
  have at: "all_at_once m [(header, ?p)]" "\<not> disconnects [(header, ?p)]"
    using hd r(1-3) by (simp_all add: all_at_once_def answered_at_once_def disconnects_def op_defs)
  obtain s' c' outs where a: "connection_read E p s = Some s'" "serving A m h0 p c' s'" "cn_fd c' = cn_fd c"
    "conn_out c' (s_heap s') = conn_out c (s_heap s) @ concat outs"
    "list_all2 (\<lambda>(header, payload) out. reply_wire (e_be E) (sv_integrity (s_world s)) (sv_mac_key (s_world s)) (h_call_id header)
      (reply_of serve m header payload) out) [(header, ?p)] outs"
    using connection_read_answers [OF E s(1-3) at(1) room sh pk at(2)] by blast
  obtain out where out: "outs = [out]" using a(5) by (auto simp: list_all2_Cons1)
  have "reply_of serve m header ?p = Some (WIRECALL_OP_RESPONSE, proc_id, encode_payload results)"
    using hd r(1,4) parse_encode_payload [OF q(2)] by (simp add: reply_of_def sync_reply_def Let_def)
  then have "reply_wire (e_be E) (sv_integrity (s_world s)) (sv_mac_key (s_world s)) call_id
      (Some (WIRECALL_OP_RESPONSE, proc_id, encode_payload results)) out"
    using a(5) hd(3) unfolding out by simp
  then obtain reply where "wire_packet (e_be E) (sv_integrity (s_world s)) (sv_mac_key (s_world s)) WIRECALL_OP_RESPONSE proc_id call_id (encode_payload results) reply"
    "conn_out c' (s_heap s') = header_bytes reply @ encode_payload results"
    using a(4) unfolding out reply_wire_def by (auto simp: bytes)
  then show ?thesis using a(1-3) by blast
qed

text \<open>
  C1: A call returns the results of the remote procedure.  Let client and server share the integrity mode, the key and the byte
  order.  The client sends a request for a procedure of the server's table; when these bytes wait on an idle connection,
  \<open>connection_read\<close> queues one reply and \<open>connection_write\<close> hands it to the socket in order, the part that the socket has not
  taken staying queued; and when all bytes of the reply wait at the client, \<open>wirecall_client_recv_response\<close> returns the id of the call and, as decoded
  values in memory of the client, the values that the procedure computes from the values in the request.
\<close>

theorem rpc_end_to_end:
  assumes "client_ok cl hc" "never_fails hc" "0 \<le> c_fd cl" "client_view cl hc = []"
    and "payload_inv args hc" "payload_of args hc = encode_payload vs" "list_all value_fits vs"
    and "send_ok cos (c_fd cl) coutbox cpatience True" "recv_ok cos (c_fd cl) cinbox cpatience'"
    and "e_g E = no_allocator" "handlers_ok never_fails (\<lambda>n. (inbox n, patience n)) serve E" "recv_stream (e_os E) (cn_fd c) inbox patience"
    and "socket_sends (e_os E) (cn_fd c) outbox patience'" "backend_quiet (e_backend E) outbox"
    and "\<not> cn_closing c" "cn_read_len c = 0" "cn_write_len c = 0"
    and "m proc_id = Some r" "\<not> rt_is_deferred r" "\<not> rt_is_async r"
    and "serve (rt_handler r) (rt_user_data r) vs = Some results" "list_all value_fits results"
  shows "\<exists>call_id cl1 n1 request.
    client_send_call_id cos (e_be E) proc_id args True (Some cl) hc n = Some (0, Some call_id, Some cl1, n1) \<and> coutbox n1 = coutbox n @ request \<and>
    (\<forall>s. serving A m h0 p c s \<and> never_fails (s_heap s) \<and> sv_integrity (s_world s) = c_integrity cl \<and> sv_mac_key (s_world s) = c_mac_key cl \<and>
        inbox (sv_net (s_world s)) = request \<longrightarrow>
      (\<exists>s1 v2 c2 reply. connection_read E p s = Some s1 \<and> connection_write E p (s_heap s1) (s_world s1) = Some v2 \<and> sv_conns v2 p = Some c2 \<and>
        outbox (sv_net v2) @ conn_out c2 (s_heap s1) = outbox (sv_net (s_world s1)) @ reply \<and>
        (\<forall>n2. cinbox n2 = reply \<longrightarrow>
          (\<exists>arr argc cl2 h2 n3 h1 cap vals.
            wirecall_client_recv_response cos (e_be E) no_allocator True True True (Some cl1) hc n2 = Some (0, call_id, arr, argc, Some cl2, h2, n3) \<and>
            client_ok cl2 h2 \<and> decoded h1 (fst arr) (snd arr) argc cap vals results h2))))"
proof -
  let ?id = "c_next_call_id cl" and ?cl = "cl\<lparr>c_next_call_id := c_next_call_id cl + 1\<rparr>"
  obtain n1 header where s: "client_send_call_id cos (e_be E) proc_id args True (Some cl) hc n = Some (0, Some ?id, Some ?cl, n1)"
    "coutbox n1 = coutbox n @ header_bytes header @ encode_payload vs"
    "wire_packet (e_be E) (c_integrity cl) (c_mac_key cl) WIRECALL_OP_RPC proc_id ?id (encode_payload vs) header"
    using request_sent [OF assms(8,1,3,5), of "e_be E" proc_id n] unfolding assms(6) by blast
  have cl: "client_ok ?cl hc" "recv_ok cos (c_fd ?cl) cinbox cpatience'" "0 \<le> c_fd ?cl" "client_view ?cl hc = []"
    "c_integrity ?cl = c_integrity cl" "c_mac_key ?cl = c_mac_key cl"
    using assms(1,3,4,9) by (simp_all add: client_ok_def client_view_def)
  have "\<exists>s1 v2 c2 reply. connection_read E p s = Some s1 \<and> connection_write E p (s_heap s1) (s_world s1) = Some v2 \<and> sv_conns v2 p = Some c2 \<and>
        outbox (sv_net v2) @ conn_out c2 (s_heap s1) = outbox (sv_net (s_world s1)) @ reply \<and>
        (\<forall>n2. cinbox n2 = reply \<longrightarrow>
          (\<exists>arr argc cl2 h2 n3 h1 cap vals.
            wirecall_client_recv_response cos (e_be E) no_allocator True True True (Some ?cl) hc n2 = Some (0, ?id, arr, argc, Some cl2, h2, n3) \<and>
            client_ok cl2 h2 \<and> decoded h1 (fst arr) (snd arr) argc cap vals results h2))"
    if s': "serving A m h0 p c s" "never_fails (s_heap s)" "sv_integrity (s_world s) = c_integrity cl" "sv_mac_key (s_world s) = c_mac_key cl"
      "inbox (sv_net (s_world s)) = header_bytes header @ encode_payload vs" for s
  proof -
    obtain s1 c1 reply where a: "connection_read E p s = Some s1" "serving A m h0 p c1 s1" "cn_fd c1 = cn_fd c"
      "conn_out c1 (s_heap s1) = header_bytes reply @ encode_payload results"
      "wire_packet (e_be E) (c_integrity cl) (c_mac_key cl) WIRECALL_OP_RESPONSE proc_id ?id (encode_payload results) reply"
      using request_answered [OF assms(10-12) s'(1,2) assms(15-21) _ assms(7) s'(5)] s(3) unfolding s'(3,4) by blast
    have w: "socket_sends (e_os E) (cn_fd c1) outbox patience'" "sv_conns (s_world s1) p = Some c1" "sv_worker (s_world s1) (cn_worker c1) \<noteq> None"
      "conn_ok A h0 c1 (s_heap s1)" using a(2,3) assms(13) by (simp_all add: serving_def conn_open_def)
    obtain v2 c2 where v2: "connection_write E p (s_heap s1) (s_world s1) = Some v2" "sv_conns v2 p = Some c2"
      "outbox (sv_net v2) @ conn_out c2 (s_heap s1) = outbox (sv_net (s_world s1)) @ conn_out c1 (s_heap s1)"
      using connection_write_keeps [OF w(1) assms(14) w(2-4)] by blast
    have recv: "\<exists>arr argc cl2 h2 n3 h1 cap vals.
            wirecall_client_recv_response cos (e_be E) no_allocator True True True (Some ?cl) hc n2 = Some (0, ?id, arr, argc, Some cl2, h2, n3) \<and>
            client_ok cl2 h2 \<and> decoded h1 (fst arr) (snd arr) argc cap vals results h2"
      if "cinbox n2 = header_bytes reply @ encode_payload results" for n2
      using response_received [OF cl(1) assms(2) cl(2-4) _ assms(22) that] a(5) unfolding cl(5,6) by blast
    show ?thesis using a(1) v2 recv unfolding a(4) by blast
  qed
  then show ?thesis using s(1,2) by blast
qed

theorem rpc_end_to_end_witness:
  "\<exists>call_id cl1 n1 request A s s1 v2 c2 reply arr argc cl2 h2 n3 h1 cap vals.
    client_send_call_id drip_os False 7 None True (Some client0) heap0 drip0 = Some (0, Some call_id, Some cl1, n1) \<and> d_out n1 = request \<and>
    count_state A request s \<and> connection_read (count_env no_allocator) 1 s = Some s1 \<and>
    connection_write (count_env no_allocator) 1 (s_heap s1) (s_world s1) = Some v2 \<and> sv_conns v2 1 = Some c2 \<and>
    d_out (sv_net v2) @ conn_out c2 (s_heap s1) = d_out (sv_net (s_world s1)) @ reply \<and>
    wirecall_client_recv_response drip_os False no_allocator True True True (Some cl1) heap0 (drip0\<lparr>d_in := reply\<rparr>) =
      Some (0, call_id, arr, argc, Some cl2, h2, n3) \<and>
    client_ok cl2 h2 \<and> decoded h1 (fst arr) (snd arr) argc cap vals [P_U64 0] h2"
proof -
  let ?E = "count_env no_allocator"
  obtain A where A: "\<forall>input. \<exists>s. count_state A input s" using count_state_exists by blast
  have E: "e_g ?E = no_allocator" "e_be ?E = False" "recv_stream (e_os ?E) (cn_fd conn0) d_in drip_patience"
    "socket_sends (e_os ?E) (cn_fd conn0) d_out drip_patience" "backend_quiet (e_backend ?E) d_out"
    using drip_stream drip_sends by (simp_all add: count_env_def backend_quiet_def)
  have cl: "client_ok client0 heap0" "0 \<le> c_fd client0" "client_view client0 heap0 = []" "never_fails heap0"
    using client0_ok [OF heap_ok_heap0] by (simp_all add: never_fails_def heap0_def)
  have args: "payload_inv None heap0" "payload_of None heap0 = encode_payload []" "list_all value_fits []"
    by (simp_all add: payload_inv_def payload_of_def encode_payload_def)
  have r: "count_routes 7 = Some (handler_route 7 5 0 0 False)" "\<not> rt_is_deferred (handler_route 7 5 0 0 False)"
    "\<not> rt_is_async (handler_route 7 5 0 0 False)"
    "count_service (rt_handler (handler_route 7 5 0 0 False)) (rt_user_data (handler_route 7 5 0 0 False)) [] = Some [P_U64 0]"
    "list_all value_fits [P_U64 0]" "\<not> cn_closing conn0"
    by (simp_all add: count_routes_def handler_route_def zero_route_def count_service_def conn0_bytes)
  obtain call_id cl1 n1 request where s:
    "client_send_call_id drip_os False 7 None True (Some client0) heap0 drip0 = Some (0, Some call_id, Some cl1, n1)"
    "d_out n1 = d_out drip0 @ request"
    "\<forall>s. serving A count_routes heap0 1 conn0 s \<and> never_fails (s_heap s) \<and> sv_integrity (s_world s) = c_integrity client0 \<and>
        sv_mac_key (s_world s) = c_mac_key client0 \<and> d_in (sv_net (s_world s)) = request \<longrightarrow>
      (\<exists>s1 v2 c2 reply. connection_read ?E 1 s = Some s1 \<and> connection_write ?E 1 (s_heap s1) (s_world s1) = Some v2 \<and> sv_conns v2 1 = Some c2 \<and>
        d_out (sv_net v2) @ conn_out c2 (s_heap s1) = d_out (sv_net (s_world s1)) @ reply \<and>
        (\<forall>n2. d_in n2 = reply \<longrightarrow>
          (\<exists>arr argc cl2 h2 n3 h1 cap vals.
            wirecall_client_recv_response drip_os False no_allocator True True True (Some cl1) heap0 n2 = Some (0, call_id, arr, argc, Some cl2, h2, n3) \<and>
            client_ok cl2 h2 \<and> decoded h1 (fst arr) (snd arr) argc cap vals [P_U64 0] h2)))"
    using rpc_end_to_end [where m = count_routes and proc_id = 7 and serve = count_service and inbox = d_in and patience = drip_patience and
        n = drip0 and A = A and ?h0.0 = heap0 and p = 1,
        OF cl(1,4,2,3) args drip_send drip_recv E(1) plain_memory.count_handlers_ok E(3-5) r(6) conn0_bytes(5,4) r(1-5)]
    unfolding E(2) by (elim exE conjE)
  obtain s where st: "count_state A request s" using A by blast
  then have "serving A count_routes heap0 1 conn0 s \<and> never_fails (s_heap s) \<and> sv_integrity (s_world s) = c_integrity client0 \<and>
        sv_mac_key (s_world s) = c_mac_key client0 \<and> d_in (sv_net (s_world s)) = request"
    by (simp add: count_state_def)
  with s(3) obtain s1 v2 c2 reply where s1: "connection_read ?E 1 s = Some s1" "connection_write ?E 1 (s_heap s1) (s_world s1) = Some v2"
    "sv_conns v2 1 = Some c2" "d_out (sv_net v2) @ conn_out c2 (s_heap s1) = d_out (sv_net (s_world s1)) @ reply"
    "\<forall>n2. d_in n2 = reply \<longrightarrow>
          (\<exists>arr argc cl2 h2 n3 h1 cap vals.
            wirecall_client_recv_response drip_os False no_allocator True True True (Some cl1) heap0 n2 = Some (0, call_id, arr, argc, Some cl2, h2, n3) \<and>
            client_ok cl2 h2 \<and> decoded h1 (fst arr) (snd arr) argc cap vals [P_U64 0] h2)"
    by blast
  have n1: "d_out n1 = request" using s(2) by (simp add: drip0_def)
  have "d_in (drip0\<lparr>d_in := reply\<rparr>) = reply" by simp
  with s1(5) obtain arr argc cl2 h2 n3 h1 cap vals where
    "wirecall_client_recv_response drip_os False no_allocator True True True (Some cl1) heap0 (drip0\<lparr>d_in := reply\<rparr>) =
      Some (0, call_id, arr, argc, Some cl2, h2, n3)"
    "client_ok cl2 h2" "decoded h1 (fst arr) (snd arr) argc cap vals [P_U64 0] h2"
    by blast
  then show ?thesis using s(1) n1 st s1(1-4) by blast
qed

end
